(* ===== verification/Prelude.thy ===== *)
theory Prelude
  imports Main "HOL-Library.Word"
begin

text \<open>
  Shared vocabulary of the development: the kernel's integer types as words
  (\<open>kernel/core/kernel.h\<close>), C strings as byte lists, the outcomes of code that can stop
  the machine, and byte-addressed virtual memory with the little-endian loads and stores
  of x86-64.  The collections \<open>res_simps\<close> and \<open>mem_simps\<close> carry the proofs of the
  components.
\<close>

unbundle bit_operations_syntax

section \<open>Integers and strings\<close>

text \<open>The typedefs of \<open>kernel.h\<close>.  A signed type is the same word, read with \<open>sint\<close>.\<close>

type_synonym u8 = "8 word"
type_synonym u16 = "16 word"
type_synonym u32 = "32 word"
type_synonym u64 = "64 word"
type_synonym i64 = "64 word"

text \<open>
  A C string is the list of its bytes up to, and without, the terminating NUL.  A plain
  \<open>char\<close> is signed on the target, so code that compares characters compares
  \<open>sint\<close> of the byte.
\<close>

type_synonym cstring = "u8 list"

definition str :: "string \<Rightarrow> cstring" where
  "str s = map of_char s"

text \<open>\<open>s[i]\<close> for a NUL-terminated string, at most one past the last character.\<close>

definition char_at :: "cstring \<Rightarrow> nat \<Rightarrow> u8" where
  "char_at s i = (if i < length s then s ! i else 0)"

definition is_cstring :: "cstring \<Rightarrow> bool" where
  "is_cstring s \<longleftrightarrow> 0 \<notin> set s"

lemma char_at_Nil [simp]: "char_at [] i = 0"
  by (simp add: char_at_def)

lemma char_at_Cons_0 [simp]: "char_at (c # s) 0 = c"
  by (simp add: char_at_def)

lemma char_at_Cons_Suc [simp]: "char_at (c # s) (Suc i) = char_at s i"
  by (simp add: char_at_def)

section \<open>Outcomes\<close>

text \<open>
  How code can fail to return.  A CPU exception (\<open>PageFault\<close>, \<open>DivideError\<close>,
  \<open>BadCall\<close>: a call through a pointer that is no function) ends in the halt loop of
  \<open>isr_handler_c\<close>; \<open>Panic\<close> ends in the halt loop of \<open>kernel_panic\<close>;
  \<open>Halted\<close> is any other deliberate halt.  \<open>OutOfFuel\<close> says that the bound given
  to a loop of the model was too small; \<open>Unmodelled\<close> marks a call that the development
  does not follow, so that no theorem about a returned state speaks about it.
\<close>

datatype stop =
    PageFault u64
  | DivideError
  | BadCall u64
  | Panic cstring
  | Halted
  | OutOfFuel
  | Unmodelled

type_synonym 'a res = "stop + 'a"

definition rbind :: "'a res \<Rightarrow> ('a \<Rightarrow> 'b res) \<Rightarrow> 'b res" where
  "rbind r f = (case r of Inl e \<Rightarrow> Inl e | Inr x \<Rightarrow> f x)"

named_theorems res_simps

lemma rbind_simps [simp, res_simps]:
  "rbind (Inl e) f = Inl e"
  "rbind (Inr x) f = f x"
  by (simp_all add: rbind_def)

lemma rbind_cong [fundef_cong]:
  "r = r' \<Longrightarrow> (\<And>x. r' = Inr x \<Longrightarrow> f x = f' x) \<Longrightarrow> rbind r f = rbind r' f'"
  by (cases r') (simp_all add: rbind_def)

lemma rbind_eq_Inr [res_simps]:
  "rbind r f = Inr y \<longleftrightarrow> (\<exists>x. r = Inr x \<and> f x = Inr y)"
  by (cases r) auto

lemma rbind_eq_Inl [res_simps]:
  "rbind r f = Inl e \<longleftrightarrow> r = Inl e \<or> (\<exists>x. r = Inr x \<and> f x = Inl e)"
  by (cases r) auto

lemma rbind_assoc: "rbind (rbind r f) g = rbind r (\<lambda>x. rbind (f x) g)"
  by (cases r) auto

lemma rbind_Inr [simp]: "rbind r Inr = r"
  by (cases r) simp_all

lemma rbind_if: "rbind (if b then r else r') f = (if b then rbind r f else rbind r' f)"
  by simp

section \<open>Bytes of a 64-bit word\<close>

fun bytes_of_word :: "nat \<Rightarrow> u64 \<Rightarrow> u8 list" where
  "bytes_of_word 0 w = []"
| "bytes_of_word (Suc n) w = ucast w # bytes_of_word n (drop_bit 8 w)"

fun word_of_bytes :: "u8 list \<Rightarrow> u64" where
  "word_of_bytes [] = 0"
| "word_of_bytes (b # bs) = ucast b OR push_bit 8 (word_of_bytes bs)"

lemma length_bytes_of_word [simp]: "length (bytes_of_word n w) = n"
  by (induction n arbitrary: w) auto

lemma word_of_bytes_of_word_mask: "word_of_bytes (bytes_of_word n w) = w AND mask (8 * n)"
proof (induction n arbitrary: w)
  case 0
  show ?case by simp
next
  case (Suc n)
  show ?case
  proof (rule bit_eqI)
    fix i assume "possible_bit TYPE(u64) i"
    then have i: "i < 64" by simp
    show "bit (word_of_bytes (bytes_of_word (Suc n) w)) i = bit (w AND mask (8 * Suc n)) i"
      using i by (cases "i < 8")
        (auto simp: Suc bit_or_iff bit_and_iff bit_push_bit_iff bit_unsigned_iff
            bit_drop_bit_eq bit_mask_iff)
  qed
qed

lemma word_of_bytes_of_word [simp]: "word_of_bytes (bytes_of_word 8 w) = w"
proof -
  have "(mask 64 :: u64) = - 1"
    by (rule bit_eqI) (simp add: bit_mask_iff bit_minus_1_iff)
  then show ?thesis by (simp add: word_of_bytes_of_word_mask)
qed

lemma word_of_bytes_of_word32 [simp]:
  "ucast (word_of_bytes (bytes_of_word 4 (ucast (w :: u32)))) = w"
  by (rule bit_word_eqI) (simp add: word_of_bytes_of_word_mask bit_simps)

section \<open>Virtual memory\<close>

text \<open>
  Memory as the running kernel sees it: a byte for every mapped virtual address.  An
  access to an unmapped address is a page fault, which the kernel does not survive.
\<close>

type_synonym memory = "u64 \<rightharpoonup> u8"

definition rd8 :: "memory \<Rightarrow> u64 \<Rightarrow> u8 res" where
  "rd8 m a = (case m a of None \<Rightarrow> Inl (PageFault a) | Some b \<Rightarrow> Inr b)"

definition wr8 :: "memory \<Rightarrow> u64 \<Rightarrow> u8 \<Rightarrow> memory res" where
  "wr8 m a b = (case m a of None \<Rightarrow> Inl (PageFault a) | Some _ \<Rightarrow> Inr (m(a \<mapsto> b)))"

fun rd_bytes :: "memory \<Rightarrow> u64 \<Rightarrow> nat \<Rightarrow> u8 list res" where
  "rd_bytes m a 0 = Inr []"
| "rd_bytes m a (Suc n) =
     rbind (rd8 m a) (\<lambda>b. rbind (rd_bytes m (a + 1) n) (\<lambda>bs. Inr (b # bs)))"

fun wr_bytes :: "memory \<Rightarrow> u64 \<Rightarrow> u8 list \<Rightarrow> memory res" where
  "wr_bytes m a [] = Inr m"
| "wr_bytes m a (b # bs) = rbind (wr8 m a b) (\<lambda>m'. wr_bytes m' (a + 1) bs)"

definition rd64 :: "memory \<Rightarrow> u64 \<Rightarrow> u64 res" where
  "rd64 m a = rbind (rd_bytes m a 8) (\<lambda>bs. Inr (word_of_bytes bs))"

definition wr64 :: "memory \<Rightarrow> u64 \<Rightarrow> u64 \<Rightarrow> memory res" where
  "wr64 m a w = wr_bytes m a (bytes_of_word 8 w)"

definition rd32 :: "memory \<Rightarrow> u64 \<Rightarrow> u32 res" where
  "rd32 m a = rbind (rd_bytes m a 4) (\<lambda>bs. Inr (ucast (word_of_bytes bs)))"

definition wr32 :: "memory \<Rightarrow> u64 \<Rightarrow> u32 \<Rightarrow> memory res" where
  "wr32 m a w = wr_bytes m a (bytes_of_word 4 (ucast w))"

text \<open>
  The effect of a store that does not fault, in closed form, and the byte ranges it
  covers.  \<open>apart a n b k\<close> says that two ranges that do not wrap around the address
  space have no byte in common.
\<close>

definition mapped :: "memory \<Rightarrow> u64 \<Rightarrow> nat \<Rightarrow> bool" where
  "mapped m a n \<longleftrightarrow> (\<forall>i < n. m (a + of_nat i) \<noteq> None)"

definition mem_upd :: "memory \<Rightarrow> u64 \<Rightarrow> u8 list \<Rightarrow> memory" where
  "mem_upd m a bs = (\<lambda>x. if unat (x - a) < length bs then Some (bs ! unat (x - a)) else m x)"

definition apart :: "u64 \<Rightarrow> nat \<Rightarrow> u64 \<Rightarrow> nat \<Rightarrow> bool" where
  "apart a n b k \<longleftrightarrow>
     (unat a + n \<le> unat b \<and> unat b + k \<le> 2 ^ 64) \<or> (unat b + k \<le> unat a \<and> unat a + n \<le> 2 ^ 64)"

named_theorems mem_simps

lemma unat_u64_less [simp]: "unat (a :: u64) < 18446744073709551616"
  using unsigned_less [of a, where ?'a = nat] by simp

lemma unat_of_nat_lt [simp]: "i < 2 ^ 64 \<Longrightarrow> unat (of_nat i :: u64) = i"
  by (simp add: unat_of_nat take_bit_nat_eq_self)

lemma rd_bytes_eq_Inr:
  "rd_bytes m a n = Inr bs \<longleftrightarrow> length bs = n \<and> (\<forall>i < n. m (a + of_nat i) = Some (bs ! i))"
proof (induction n arbitrary: a bs)
  case 0
  then show ?case by auto
next
  case (Suc n)
  have idx: "\<And>i. a + 1 + of_nat i = a + of_nat (Suc i)" by simp
  show ?case
  proof (cases bs)
    case Nil
    then show ?thesis by (auto simp: rbind_eq_Inr)
  next
    case (Cons c cs)
    show ?thesis
      unfolding Cons
      by (auto simp: rbind_eq_Inr Suc idx rd8_def All_less_Suc2
          simp del: of_nat_Suc split: option.splits)
  qed
qed

lemma rd_bytes_cong_mem:
  assumes "\<And>i. i < n \<Longrightarrow> m (a + of_nat i) = m' (a + of_nat i)"
  shows "rd_bytes m a n = rd_bytes m' a n"
  using assms
proof (induction n arbitrary: a)
  case 0
  show ?case by simp
next
  case (Suc n)
  from Suc.prems [of 0] have "rd8 m a = rd8 m' a" by (simp add: rd8_def)
  moreover have "rd_bytes m (a + 1) n = rd_bytes m' (a + 1) n"
    by (rule Suc.IH) (use Suc.prems [of "Suc _"] in \<open>simp add: add.assoc\<close>)
  ultimately show ?case by simp
qed

lemma mapped_Suc: "mapped m a (Suc n) \<longleftrightarrow> m a \<noteq> None \<and> mapped m (a + 1) n"
  by (simp add: mapped_def All_less_Suc2 add.assoc)

lemma mapped_fun_upd: "mapped m b n \<Longrightarrow> mapped (m(a \<mapsto> v)) b n"
  by (auto simp: mapped_def)

lemma mapped_imp_rd_bytes: "mapped m a n \<Longrightarrow> \<exists>bs. rd_bytes m a n = Inr bs \<and> length bs = n"
proof (induction n arbitrary: a)
  case 0
  show ?case by simp
next
  case (Suc n)
  then obtain bs where "rd_bytes m (a + 1) n = Inr bs" "length bs = n"
    by (auto simp: mapped_Suc)
  with Suc.prems show ?case
    by (auto simp: mapped_Suc rd8_def)
qed

text \<open>A store that does not fault is \<open>mem_upd\<close>.\<close>

lemma unat_diff_Suc:
  fixes x a :: u64
  assumes "x \<noteq> a"
  shows "unat (x - a) = Suc (unat (x - (a + 1)))"
proof -
  have "x - a \<noteq> 0" using assms by simp
  then have "unat (x - a) \<noteq> 0" by (simp add: unat_eq_zero)
  moreover have "unat (x - a - 1) = unat (x - a) - 1"
    using \<open>x - a \<noteq> 0\<close> by (rule unat_minus_one)
  ultimately show ?thesis by (simp add: algebra_simps)
qed

lemma unat_diff_self_1:
  fixes a :: u64
  shows "unat (a - (a + 1)) = 2 ^ 64 - 1"
proof -
  have "a - (a + 1) = - 1" by simp
  then show ?thesis by (simp only: unsigned_minus_1_eq_mask) (simp add: mask_eq_exp_minus_1)
qed

lemma mem_upd_Cons:
  assumes "length bs < 2 ^ 64"
  shows "mem_upd (m(a \<mapsto> b)) (a + 1) bs = mem_upd m a (b # bs)"
proof
  fix x
  show "mem_upd (m(a \<mapsto> b)) (a + 1) bs x = mem_upd m a (b # bs) x"
    using assms
    by (cases "x = a") (auto simp: mem_upd_def unat_diff_self_1 unat_diff_Suc unsigned_minus_1_eq_mask
          mask_eq_exp_minus_1)
qed

lemma wr_bytes_mapped:
  assumes "mapped m a (length bs)" "length bs \<le> 2 ^ 64"
  shows "wr_bytes m a bs = Inr (mem_upd m a bs)"
  using assms
proof (induction bs arbitrary: m a)
  case Nil
  show ?case by (simp add: mem_upd_def)
next
  case (Cons b bs)
  have ma: "m a \<noteq> None" and mp: "mapped m (a + 1) (length bs)"
    using Cons.prems(1) by (auto simp: mapped_Suc)
  have "mapped (m(a \<mapsto> b)) (a + 1) (length bs)"
    using mp by (auto simp: mapped_def)
  moreover have "length bs \<le> 2 ^ 64" using Cons.prems(2) by simp
  ultimately have "wr_bytes (m(a \<mapsto> b)) (a + 1) bs = Inr (mem_upd (m(a \<mapsto> b)) (a + 1) bs)"
    by (rule Cons.IH)
  moreover have "mem_upd (m(a \<mapsto> b)) (a + 1) bs = mem_upd m a (b # bs)"
    using Cons.prems(2) by (intro mem_upd_Cons) simp
  ultimately show ?case using ma by (auto simp: wr8_def)
qed

lemma wr_bytes_eq_Inr_mapped:
  "wr_bytes m a bs = Inr m' \<Longrightarrow> length bs \<le> 2 ^ 64 \<Longrightarrow> mapped m a (length bs)"
proof (induction bs arbitrary: m a)
  case Nil
  show ?case by (simp add: mapped_def)
next
  case (Cons b bs)
  then have ma: "m a \<noteq> None" and w: "wr_bytes (m(a \<mapsto> b)) (a + 1) bs = Inr m'"
    by (auto simp: rbind_eq_Inr wr8_def split: option.splits)
  have "mapped (m(a \<mapsto> b)) (a + 1) (length bs)"
    by (rule Cons.IH [OF w]) (use Cons.prems(2) in simp)
  then have "mapped m (a + 1) (length bs)"
    using ma unfolding mapped_def by (metis fun_upd_apply)
  with ma show ?case by (simp add: mapped_Suc)
qed

lemma wr64_mapped: "mapped m a 8 \<Longrightarrow> wr64 m a w = Inr (mem_upd m a (bytes_of_word 8 w))"
  by (simp add: wr64_def wr_bytes_mapped)

lemma mapped_mem_upd [mem_simps]: "mapped m b k \<Longrightarrow> mapped (mem_upd m a bs) b k"
  by (auto simp: mapped_def mem_upd_def)

lemma wr32_mapped: "mapped m a 4 \<Longrightarrow> wr32 m a w = Inr (mem_upd m a (bytes_of_word 4 (ucast w)))"
  by (simp add: wr32_def wr_bytes_mapped)

text \<open>Loads after stores: the same range gives the bytes stored, a range apart is unchanged.\<close>

lemma rd_bytes_upd_same [mem_simps]:
  "length bs \<le> 2 ^ 64 \<Longrightarrow> n = length bs \<Longrightarrow> rd_bytes (mem_upd m a bs) a n = Inr bs"
  by (auto simp: rd_bytes_eq_Inr mem_upd_def)

lemma apart_outside:
  assumes "apart a n b k" "i < k"
  shows "\<not> unat (b + of_nat i - a) < n"
proof -
  have i: "i < 2 ^ 64"
    using assms unat_u64_less [of a] unat_u64_less [of b] by (auto simp: apart_def)
  show ?thesis
  proof (cases "unat a + n \<le> unat b \<and> unat b + k \<le> 2 ^ 64")
    case True
    then have "unat (b + of_nat i) = unat b + i"
      using assms(2) i by (subst unat_add_lem [THEN iffD1]) auto
    then have "unat (b + of_nat i - a) = unat b + i - unat a"
      using True by (simp add: unat_sub_if')
    then show ?thesis using True by linarith
  next
    case False
    with assms(1) have lo: "unat b + k \<le> unat a" and hi: "unat a + n \<le> 2 ^ 64"
      by (auto simp: apart_def)
    have "unat b + i < 18446744073709551616"
      using lo assms(2) unat_u64_less [of a] by linarith
    then have "unat (b + of_nat i) = unat b + i"
      using i by (subst unat_add_lem [THEN iffD1]) auto
    then show ?thesis using lo hi assms(2) by (simp add: unat_sub_if')
  qed
qed

lemma apart_commute: "apart a n b k \<longleftrightarrow> apart b k a n"
  by (auto simp: apart_def)

lemma mem_upd_outside: "apart a n b k \<Longrightarrow> n = length bs \<Longrightarrow> i < k \<Longrightarrow> mem_upd m a bs (b + of_nat i) = m (b + of_nat i)"
  using apart_outside by (simp add: mem_upd_def)

lemma rd_bytes_upd_apart [mem_simps]:
  "apart a (length bs) b k \<Longrightarrow> rd_bytes (mem_upd m a bs) b k = rd_bytes m b k"
  by (rule rd_bytes_cong_mem) (simp add: mem_upd_outside)

lemma rd64_upd_same [mem_simps]: "rd64 (mem_upd m a (bytes_of_word 8 w)) a = Inr w"
  by (simp add: rd64_def rd_bytes_upd_same)

lemma rd64_upd_apart [mem_simps]:
  "apart a (length bs) b 8 \<Longrightarrow> rd64 (mem_upd m a bs) b = rd64 m b"
  by (simp add: rd64_def rd_bytes_upd_apart)

lemma rd32_upd_same [mem_simps]: "rd32 (mem_upd m a (bytes_of_word 4 (ucast w))) a = Inr w"
  by (simp add: rd32_def rd_bytes_upd_same)

lemma rd32_upd_apart [mem_simps]:
  "apart a (length bs) b 4 \<Longrightarrow> rd32 (mem_upd m a bs) b = rd32 m b"
  by (simp add: rd32_def rd_bytes_upd_apart)

lemma rd8_upd_apart [mem_simps]:
  "apart a (length bs) b 1 \<Longrightarrow> rd8 (mem_upd m a bs) b = rd8 m b"
  using mem_upd_outside [of a "length bs" b 1 bs 0 m] by (simp add: rd8_def)

lemma rd8_upd_same [mem_simps]: "rd8 (mem_upd m a [b]) a = Inr b"
  by (simp add: rd8_def mem_upd_def)

lemma wr8_mem_upd: "m(a \<mapsto> b) = mem_upd m a [b]"
  by (auto simp: mem_upd_def unat_eq_zero fun_eq_iff)

lemma mapped_sub:
  assumes "mapped m a n" "unat a \<le> unat b" "unat b + k \<le> unat a + n" "unat a + n \<le> 2 ^ 64"
  shows "mapped m b k"
  unfolding mapped_def
proof (intro allI impI)
  fix i assume i: "i < k"
  let ?j = "unat b - unat a + i"
  have "unat a + ?j = unat b + i" using assms(2) by simp
  then have "(of_nat (unat a + ?j) :: u64) = of_nat (unat b + i)" by simp
  then have "a + of_nat ?j = b + of_nat i" by (simp only: of_nat_add of_nat_unat ucast_id)
  have "?j < n" using i assms(2,3) by linarith
  then have "m (a + of_nat ?j) \<noteq> None" using assms(1) unfolding mapped_def by blast
  with \<open>a + of_nat ?j = b + of_nat i\<close> show "m (b + of_nat i) \<noteq> None" by (simp only: not_False_eq_True)
qed

text \<open>\<open>same_below h m m'\<close>: the memories agree on all addresses below \<open>h\<close>.\<close>

definition same_below :: "nat \<Rightarrow> memory \<Rightarrow> memory \<Rightarrow> bool" where
  "same_below h m m' \<longleftrightarrow> (\<forall>x. unat x < h \<longrightarrow> m' x = m x)"

lemma same_below_refl [simp]: "same_below h m m"
  by (simp add: same_below_def)

lemma same_below_trans: "same_below h m m' \<Longrightarrow> same_below h m' m'' \<Longrightarrow> same_below h m m''"
  by (simp add: same_below_def)

lemma same_below_mono: "same_below h m m' \<Longrightarrow> k \<le> h \<Longrightarrow> same_below k m m'"
  by (simp add: same_below_def)

lemma same_below_upd:
  assumes "h \<le> unat a" "unat a + length bs \<le> 2 ^ 64"
  shows "same_below h m (mem_upd m a bs)"
  unfolding same_below_def
proof (intro allI impI)
  fix x :: u64 assume "unat x < h"
  then have "\<not> unat (x - a) < length bs" using assms by (simp add: unat_sub_if')
  then show "mem_upd m a bs x = m x" by (simp add: mem_upd_def)
qed

lemma same_below_rd_bytes:
  assumes "same_below h m m'" "unat a + n \<le> h" "h \<le> 2 ^ 64"
  shows "rd_bytes m' a n = rd_bytes m a n"
proof (rule rd_bytes_cong_mem)
  fix i assume i: "i < n"
  then have "i < 2 ^ 64" using assms(2,3) by linarith
  then have "unat (a + of_nat i) = unat a + i"
    using i assms(2,3) by (simp add: unat_plus_if')
  then show "m' (a + of_nat i) = m (a + of_nat i)"
    using assms(1,2) i by (simp add: same_below_def)
qed

lemma same_below_rd64:
  "same_below h m m' \<Longrightarrow> unat a + 8 \<le> h \<Longrightarrow> h \<le> 2 ^ 64 \<Longrightarrow> rd64 m' a = rd64 m a"
  by (simp add: rd64_def same_below_rd_bytes)

lemma same_below_rd8: "same_below h m m' \<Longrightarrow> unat a < h \<Longrightarrow> rd8 m' a = rd8 m a"
  by (simp add: rd8_def same_below_def)

lemma unat_add_of_nat:
  assumes "unat a + n < 2 ^ 64"
  shows "unat (a + of_nat n :: u64) = unat a + n"
proof -
  have "n < 2 ^ 64" using assms by linarith
  then show ?thesis using assms by (simp add: unat_plus_if')
qed

lemma unat_add_numeral:
  "unat a + numeral k < 2 ^ 64 \<Longrightarrow> unat (a + numeral k :: u64) = unat a + numeral k"
  using unat_add_of_nat [of a "numeral k"] by (simp only: of_nat_numeral)

section \<open>Alignment\<close>

text \<open>\<open>(addr + 7) & ~7ULL\<close>: the next multiple of eight.\<close>

definition align8 :: "u64 \<Rightarrow> u64" where
  "align8 a = (a + 7) AND NOT 7"

lemma unat_clear_low:
  fixes x :: u64
  shows "unat (x AND NOT (mask k)) = unat x div 2 ^ k * 2 ^ k"
proof -
  have "NOT x AND take_bit k x = 0" by (rule bit_word_eqI) (simp add: bit_simps)
  then have "x - take_bit k x = x AND NOT (take_bit k x)" by (rule disjunctive_diff_eq_and_not)
  also have "\<dots> = x AND NOT (mask k)"
    by (rule bit_word_eqI) (auto simp only: bit_and_iff bit_not_iff bit_take_bit_iff bit_mask_iff possible_bit_word)
  finally have e: "x AND NOT (mask k) = x - take_bit k x" by simp
  have t: "unat (take_bit k x) = unat x mod 2 ^ k" by (simp only: unsigned_take_bit_eq take_bit_nat_def)
  have "unat (x AND NOT (mask k)) = unat x - unat x mod 2 ^ k"
    unfolding e using t by (simp add: unat_sub word_le_nat_alt)
  then show ?thesis by (simp add: minus_mod_eq_div_mult)
qed

lemma unat_align8:
  assumes "unat a + 7 < 2 ^ 64"
  shows "unat (align8 a) = (unat a + 7) div 8 * 8"
  using unat_clear_low [of "a + 7" 3] unat_add_numeral [of a "num.Bit1 (num.Bit1 num.One)"] assms
  by (simp add: align8_def mask_eq_exp_minus_1)

lemma align8_bounds:
  assumes "unat a + 7 < 2 ^ 64"
  shows "unat a \<le> unat (align8 a)" "unat (align8 a) \<le> unat a + 7" "8 dvd unat (align8 a)"
  unfolding unat_align8 [OF assms] by (presburger, presburger, simp)

lemma align8_aligned:
  assumes "8 dvd unat a" "unat a + 7 < 2 ^ 64"
  shows "align8 a = a"
proof -
  have "(unat a + 7) div 8 * 8 = unat a" using assms(1) by presburger
  then show ?thesis using unat_align8 [OF assms(2)] by (metis word_unat_eq_iff)
qed

end
