(* ===== verification/Machine.thy ===== *)
theory Machine
  imports Prelude
begin

text \<open>
  The root of the kernel's state: the virtual memory and the history of port accesses
  (\<open>kernel/core/kernel.h\<close>, the \<open>inb\<close>/\<open>outb\<close> helpers).  Every component
  extends this record by its own static variables, each record extending the one of a
  component it calls, so that a function is typed on the globals it can reach.

  A device behind the ports is hardware, not code: it is a parameter of the functions
  that read a port, the value it answers as a function of all port accesses so far.
\<close>

datatype io = Out u16 u32 | In u16

record machine =
  vmem :: memory
  ports :: "io list"

type_synonym device = "io list \<Rightarrow> u16 \<Rightarrow> u32"

definition outb :: "u16 \<Rightarrow> u8 \<Rightarrow> 'a machine_scheme \<Rightarrow> 'a machine_scheme" where
  "outb p v s = s\<lparr>ports := Out p (ucast v) # ports s\<rparr>"

definition outw :: "u16 \<Rightarrow> u16 \<Rightarrow> 'a machine_scheme \<Rightarrow> 'a machine_scheme" where
  "outw p v s = s\<lparr>ports := Out p (ucast v) # ports s\<rparr>"

definition outl :: "u16 \<Rightarrow> u32 \<Rightarrow> 'a machine_scheme \<Rightarrow> 'a machine_scheme" where
  "outl p v s = s\<lparr>ports := Out p v # ports s\<rparr>"

definition inb :: "device \<Rightarrow> u16 \<Rightarrow> 'a machine_scheme \<Rightarrow> u8 \<times> 'a machine_scheme" where
  "inb dev p s = (ucast (dev (ports s) p), s\<lparr>ports := In p # ports s\<rparr>)"

definition inw :: "device \<Rightarrow> u16 \<Rightarrow> 'a machine_scheme \<Rightarrow> u16 \<times> 'a machine_scheme" where
  "inw dev p s = (ucast (dev (ports s) p), s\<lparr>ports := In p # ports s\<rparr>)"

definition inl :: "device \<Rightarrow> u16 \<Rightarrow> 'a machine_scheme \<Rightarrow> u32 \<times> 'a machine_scheme" where
  "inl dev p s = (dev (ports s) p, s\<lparr>ports := In p # ports s\<rparr>)"

text \<open>Port accesses change the history and nothing else.\<close>

lemmas port_defs = outb_def outw_def outl_def inb_def inw_def inl_def

section \<open>Loads and stores\<close>

definition load8 :: "u64 \<Rightarrow> 'a machine_scheme \<Rightarrow> u8 res" where
  "load8 a s = rd8 (vmem s) a"

definition load64 :: "u64 \<Rightarrow> 'a machine_scheme \<Rightarrow> u64 res" where
  "load64 a s = rd64 (vmem s) a"

definition load32 :: "u64 \<Rightarrow> 'a machine_scheme \<Rightarrow> u32 res" where
  "load32 a s = rd32 (vmem s) a"

definition load_bytes :: "u64 \<Rightarrow> nat \<Rightarrow> 'a machine_scheme \<Rightarrow> u8 list res" where
  "load_bytes a n s = rd_bytes (vmem s) a n"

definition store8 :: "u64 \<Rightarrow> u8 \<Rightarrow> 'a machine_scheme \<Rightarrow> 'a machine_scheme res" where
  "store8 a b s = rbind (wr8 (vmem s) a b) (\<lambda>m. Inr (s\<lparr>vmem := m\<rparr>))"

definition store64 :: "u64 \<Rightarrow> u64 \<Rightarrow> 'a machine_scheme \<Rightarrow> 'a machine_scheme res" where
  "store64 a v s = rbind (wr64 (vmem s) a v) (\<lambda>m. Inr (s\<lparr>vmem := m\<rparr>))"

definition store32 :: "u64 \<Rightarrow> u32 \<Rightarrow> 'a machine_scheme \<Rightarrow> 'a machine_scheme res" where
  "store32 a v s = rbind (wr32 (vmem s) a v) (\<lambda>m. Inr (s\<lparr>vmem := m\<rparr>))"

definition load16 :: "u64 \<Rightarrow> 'a machine_scheme \<Rightarrow> u16 res" where
  "load16 a s = rbind (rd_bytes (vmem s) a 2) (\<lambda>bs. Inr (ucast (word_of_bytes bs)))"

definition store16 :: "u64 \<Rightarrow> u16 \<Rightarrow> 'a machine_scheme \<Rightarrow> 'a machine_scheme res" where
  "store16 a v s = rbind (wr_bytes (vmem s) a (bytes_of_word 2 (ucast v))) (\<lambda>m. Inr (s\<lparr>vmem := m\<rparr>))"

definition store_bytes :: "u64 \<Rightarrow> u8 list \<Rightarrow> 'a machine_scheme \<Rightarrow> 'a machine_scheme res" where
  "store_bytes a bs s = rbind (wr_bytes (vmem s) a bs) (\<lambda>m. Inr (s\<lparr>vmem := m\<rparr>))"

lemma store64_mapped [mem_simps]:
  "mapped (vmem s) a 8 \<Longrightarrow> store64 a v s = Inr (s\<lparr>vmem := mem_upd (vmem s) a (bytes_of_word 8 v)\<rparr>)"
  by (simp add: store64_def wr64_mapped)

lemma store32_mapped [mem_simps]:
  "mapped (vmem s) a 4 \<Longrightarrow>
     store32 a v s = Inr (s\<lparr>vmem := mem_upd (vmem s) a (bytes_of_word 4 (ucast v))\<rparr>)"
  by (simp add: store32_def wr32_mapped)

lemma store16_mapped [mem_simps]:
  "mapped (vmem s) a 2 \<Longrightarrow>
     store16 a v s = Inr (s\<lparr>vmem := mem_upd (vmem s) a (bytes_of_word 2 (ucast v))\<rparr>)"
  by (simp add: store16_def wr_bytes_mapped)

lemma store8_mapped [mem_simps]:
  "mapped (vmem s) a 1 \<Longrightarrow> store8 a b s = Inr (s\<lparr>vmem := mem_upd (vmem s) a [b]\<rparr>)"
  by (auto simp: store8_def wr8_def wr8_mem_upd mapped_def split: option.splits)

lemma store_bytes_mapped [mem_simps]:
  "mapped (vmem s) a (length bs) \<Longrightarrow> length bs \<le> 2 ^ 64 \<Longrightarrow>
     store_bytes a bs s = Inr (s\<lparr>vmem := mem_upd (vmem s) a bs\<rparr>)"
  by (simp add: store_bytes_def wr_bytes_mapped)

section \<open>Polling a port\<close>

text \<open>
  A loop that reads a status port until the device answers as wanted, with a bound on the
  number of reads.  It changes nothing but the history of port accesses.
\<close>

fun spin :: "device \<Rightarrow> nat \<Rightarrow> u16 \<Rightarrow> (u8 \<Rightarrow> bool) \<Rightarrow> 'a machine_scheme \<Rightarrow> 'a machine_scheme res" where
  "spin dev 0 p ready s = Inl OutOfFuel"
| "spin dev (Suc n) p ready s =
     (let (v, s) = inb dev p s in if ready v then Inr s else spin dev n p ready s)"

definition ports_only :: "'a machine_scheme \<Rightarrow> 'a machine_scheme \<Rightarrow> bool" where
  "ports_only s s' \<longleftrightarrow> s'\<lparr>ports := ports s\<rparr> = s"

lemma ports_only_refl [simp, intro]: "ports_only s s"
  by (simp add: ports_only_def)

lemma ports_only_trans [trans]: "ports_only s s' \<Longrightarrow> ports_only s' s'' \<Longrightarrow> ports_only s s''"
  unfolding ports_only_def by (cases s, cases s', cases s'') simp

lemma ports_only_upd [simp]: "ports_only s (t\<lparr>ports := h\<rparr>) = ports_only s t"
  unfolding ports_only_def by (cases s, cases t) simp

lemma ports_only_vmem: "ports_only s s' \<Longrightarrow> vmem s' = vmem s"
  unfolding ports_only_def by (cases s, cases s') simp

lemma ports_only_out [simp]:
  "ports_only s (outb p v t) = ports_only s t" "ports_only s (outw p w t) = ports_only s t"
  "ports_only s (outl p d t) = ports_only s t"
  by (simp_all add: port_defs)

lemma spin_ports_only: "spin dev n p ready s = Inr s' \<Longrightarrow> ports_only s s'"
proof (induction n arbitrary: s)
  case 0
  then show ?case by simp
next
  case (Suc n)
  have one: "ports_only s (snd (inb dev p s))" by (simp add: inb_def)
  with Suc show ?case
    by (auto simp: Let_def split: prod.splits if_splits intro: ports_only_trans)
qed

text \<open>A device that is ready at the first read lets the loop end with one read.\<close>

lemma spin_ready:
  "ready (ucast (dev (ports s) p)) \<Longrightarrow> 0 < n \<Longrightarrow> spin dev n p ready s = Inr (s\<lparr>ports := In p # ports s\<rparr>)"
  by (cases n) (simp_all add: inb_def)

end
