(* ===== verification/Stdlib.thy ===== *)
theory Stdlib
  imports Prelude
begin

text \<open>
  \<open>kernel/utils/stdlib.c\<close>: number formatting (\<open>itoa\<close>, \<open>utoa\<close>, \<open>ltoa\<close>,
  \<open>ultoa\<close>), number parsing (\<open>strtol\<close>, \<open>strtoul\<close>, \<open>atoi\<close>) and the character
  classes.  A formatter returns the C string it leaves in its buffer, so a call needs
  one byte more than the length of the result.  Signed overflow, which C leaves
  undefined, wraps as in the compiled code.
\<close>

section \<open>Character classes\<close>

definition isdigit :: "int \<Rightarrow> bool" where "isdigit c \<longleftrightarrow> 48 \<le> c \<and> c \<le> 57"
definition isalpha :: "int \<Rightarrow> bool" where
  "isalpha c \<longleftrightarrow> (97 \<le> c \<and> c \<le> 122) \<or> (65 \<le> c \<and> c \<le> 90)"
definition isalnum :: "int \<Rightarrow> bool" where "isalnum c \<longleftrightarrow> isalpha c \<or> isdigit c"
definition isspace :: "int \<Rightarrow> bool" where
  "isspace c \<longleftrightarrow> c = 32 \<or> c = 9 \<or> c = 10 \<or> c = 13 \<or> c = 12 \<or> c = 11"
definition isupper :: "int \<Rightarrow> bool" where "isupper c \<longleftrightarrow> 65 \<le> c \<and> c \<le> 90"
definition islower :: "int \<Rightarrow> bool" where "islower c \<longleftrightarrow> 97 \<le> c \<and> c \<le> 122"
definition toupper_c :: "int \<Rightarrow> int" where "toupper_c c = (if islower c then c - 32 else c)"
definition tolower_c :: "int \<Rightarrow> int" where "tolower_c c = (if isupper c then c + 32 else c)"
definition isxdigit :: "int \<Rightarrow> bool" where
  "isxdigit c \<longleftrightarrow> isdigit c \<or> (97 \<le> c \<and> c \<le> 102) \<or> (65 \<le> c \<and> c \<le> 70)"

section \<open>Formatting\<close>

text \<open>
  The \<open>do\<close>/\<open>while\<close> that writes the digits, least significant first.  The callers have
  checked the base; the test here only makes the recursion total.
\<close>

definition digit_char :: "'w::len word \<Rightarrow> u8" where
  "digit_char d = (if d < 10 then 48 + ucast d else 97 + ucast d - 10)"

function digit_loop :: "'w::len word \<Rightarrow> 'w word \<Rightarrow> u8 list" where
  "digit_loop v base =
     digit_char (v mod base) #
     (if v div base \<noteq> 0 \<and> 2 \<le> unat base then digit_loop (v div base) base else [])"
  by pat_completeness auto
termination
proof (relation "measure (\<lambda>(v, base). unat v)")
  fix v base :: "'w::len word"
  assume a: "v div base \<noteq> 0 \<and> 2 \<le> unat base"
  have "0 < unat v" using a by (cases "v = 0") (auto simp: unat_gt_0)
  then show "((v div base, base), v, base) \<in> measure (\<lambda>(v, base). unat v)"
    using a by (simp add: unat_div_distrib)
qed simp

declare digit_loop.simps [simp del]

text \<open>The in-place reversal: two pointers that swap and move towards each other.\<close>

function reverse_loop :: "'a list \<Rightarrow> nat \<Rightarrow> nat \<Rightarrow> 'a list" where
  "reverse_loop buf p1 p =
     (if p1 < p then reverse_loop (buf[p1 := buf ! p, p := buf ! p1]) (p1 + 1) (p - 1) else buf)"
  by pat_completeness auto
termination
  by (relation "measure (\<lambda>(buf, p1, p). p - p1)") auto

declare reverse_loop.simps [simp del]

definition utoa :: "u32 \<Rightarrow> int \<Rightarrow> cstring" where
  "utoa value base =
     (if base < 2 \<or> base > 36 then []
      else let buf = digit_loop value (of_int base) in reverse_loop buf 0 (length buf - 1))"

definition ultoa :: "u64 \<Rightarrow> int \<Rightarrow> cstring" where
  "ultoa value base =
     (if base < 2 \<or> base > 36 then []
      else let buf = digit_loop value (of_int base) in reverse_loop buf 0 (length buf - 1))"

definition itoa :: "u32 \<Rightarrow> int \<Rightarrow> cstring" where
  "itoa value base =
     (if base < 2 \<or> base > 36 then []
      else let neg = (sint value < 0 \<and> base = 10);
               start = (if neg then [45] else []);
               uvalue = (if neg then - value else value);
               buf = start @ digit_loop uvalue (of_int base)
           in reverse_loop buf (length start) (length buf - 1))"

definition ltoa :: "i64 \<Rightarrow> int \<Rightarrow> cstring" where
  "ltoa value base =
     (if base < 2 \<or> base > 36 then []
      else let neg = (sint value < 0 \<and> base = 10);
               start = (if neg then [45] else []);
               uvalue = (if neg then - value else value);
               buf = start @ digit_loop uvalue (of_int base)
           in reverse_loop buf (length start) (length buf - 1))"

section \<open>Parsing\<close>

text \<open>
  The parsers return the value and, for \<open>*endptr\<close>, what is left of the string.  The
  digit of a character, or none where the loop breaks.
\<close>

definition digit_value :: "u8 \<Rightarrow> int option" where
  "digit_value ch =
     (let c = sint ch in
      if c \<ge> 48 \<and> c \<le> 57 then Some (c - 48)
      else if c \<ge> 97 \<and> c \<le> 122 then Some (c - 97 + 10)
      else if c \<ge> 65 \<and> c \<le> 90 then Some (c - 65 + 10)
      else None)"

fun parse_digits :: "u64 \<Rightarrow> int \<Rightarrow> cstring \<Rightarrow> u64 \<times> cstring" where
  "parse_digits result base [] = (result, [])"
| "parse_digits result base (c # cs) =
     (case digit_value c of
        None \<Rightarrow> (result, c # cs)
      | Some digit \<Rightarrow>
          if digit \<ge> base then (result, c # cs)
          else parse_digits (result * of_int base + of_int digit) base cs)"

definition skip_space :: "cstring \<Rightarrow> cstring" where
  "skip_space s = dropWhile (\<lambda>c. isspace (sint c)) s"

definition auto_base :: "int \<Rightarrow> cstring \<Rightarrow> int \<times> cstring" where
  "auto_base base s =
     (if base = 0 then
        (if char_at s 0 = 48 then
           let s = tl s in
           if char_at s 0 = 120 \<or> char_at s 0 = 88 then (16, tl s) else (8, s)
         else (10, s))
      else (base, s))"

definition strtol :: "cstring \<Rightarrow> int \<Rightarrow> i64 \<times> cstring" where
  "strtol s base =
     (let s = skip_space s;
          (sign, s) = (if char_at s 0 = 45 then (- 1, tl s)
                       else if char_at s 0 = 43 then (1, tl s) else (1, s));
          (base, s) = auto_base base s;
          (result, rest) = parse_digits 0 base s
      in (result * sign, rest))"

definition strtoul :: "cstring \<Rightarrow> int \<Rightarrow> u64 \<times> cstring" where
  "strtoul s base =
     (let s = skip_space s;
          s = (if char_at s 0 = 43 then tl s else s);
          (base, s) = auto_base base s
      in parse_digits 0 base s)"

definition atoi :: "cstring \<Rightarrow> u32" where
  "atoi s = ucast (fst (strtol s 10))"

definition abs_val :: "u32 \<Rightarrow> u32" where
  "abs_val x = (if sint x < 0 then - x else x)"

section \<open>The reversal loop reverses\<close>

lemma reverse_loop_segment:
  "reverse_loop (pre @ xs @ post) (length pre) (length pre + length xs - 1) = pre @ rev xs @ post"
proof (induction "length xs" arbitrary: pre xs post rule: less_induct)
  case less
  show ?case
  proof (cases "length xs \<le> 1")
    case True
    then have "rev xs = xs" by (cases xs) auto
    with True show ?thesis by (subst reverse_loop.simps) auto
  next
    case False
    then obtain a ys where "xs = a # ys" "ys \<noteq> []" by (cases xs) auto
    then obtain mid b where xs: "xs = a # mid @ [b]" by (metis rev_exhaust)
    have swap: "(pre @ xs @ post)[length pre := (pre @ xs @ post) ! (length pre + length xs - 1),
        length pre + length xs - 1 := (pre @ xs @ post) ! length pre]
      = (pre @ [b]) @ mid @ (a # post)"
      by (simp add: xs nth_append list_update_append)
    have "reverse_loop (pre @ xs @ post) (length pre) (length pre + length xs - 1)
      = reverse_loop ((pre @ [b]) @ mid @ (a # post)) (length pre + 1) (length pre + length xs - 1 - 1)"
      using swap by (subst reverse_loop.simps) (simp add: xs)
    also have "\<dots> = (pre @ [b]) @ rev mid @ (a # post)"
      using less.hyps [of mid "pre @ [b]" "a # post"] by (simp add: xs)
    finally show ?thesis by (simp add: xs)
  qed
qed

lemma reverse_loop_rev [simp]: "reverse_loop xs 0 (length xs - 1) = rev xs"
  using reverse_loop_segment [of "[]" xs "[]"] by simp

lemma reverse_loop_prefix [simp]:
  "reverse_loop (pre @ xs) (length pre) (length (pre @ xs) - 1) = pre @ rev xs"
  using reverse_loop_segment [of pre xs "[]"] by simp

section \<open>Digits and values\<close>

text \<open>The characters the formatters write are read back by the parsers as the same digits.\<close>

definition base_ok :: "int \<Rightarrow> bool" where "base_ok b \<longleftrightarrow> 2 \<le> b \<and> b \<le> 36"

lemma digit_value_table:
  "\<forall>d \<in> {0..<36::nat}. digit_value (digit_char (of_nat d :: u64)) = Some (int d)
     \<and> 48 \<le> digit_char (of_nat d :: u64) \<and> digit_char (of_nat d :: u64) \<le> 122"
  by (simp add: digit_value_def digit_char_def atLeastLessThan_nat_numeral Let_def)

lemma digit_char_u64:
  assumes "unat (d :: u64) < 36"
  shows "digit_value (digit_char d) = Some (int (unat d))" "48 \<le> digit_char d" "digit_char d \<le> 122"
  using bspec [OF digit_value_table, of "unat d"] assms by auto

lemma base_word: "base_ok b \<Longrightarrow> unat (of_int b :: u64) = nat b"
  by (auto simp: base_ok_def unat_eq_nat_uint uint_word_of_int_eq take_bit_int_eq_self)

lemma unat_mod_base: "base_ok b \<Longrightarrow> unat (v mod of_int b :: u64) < 36"
proof -
  assume b: "base_ok b"
  have "unat (v mod of_int b) = unat v mod nat b"
    using b by (simp add: unat_mod_distrib base_word)
  also have "\<dots> < nat b" using b by (simp add: base_ok_def)
  also have "\<dots> \<le> 36" using b by (auto simp: base_ok_def)
  finally show ?thesis .
qed

lemma digit_loop_neq_Nil [simp]: "digit_loop v b \<noteq> []"
  by (subst digit_loop.simps) simp

lemma parse_digits_digit:
  assumes "base_ok b" and "unat (d :: u64) < nat b"
  shows "parse_digits r b (digit_char d # cs) = parse_digits (r * of_int b + d) b cs"
proof -
  have d: "unat d < 36" using assms by (auto simp: base_ok_def)
  have "\<not> b \<le> int (unat d)" using assms(2) by linarith
  then show ?thesis
    using digit_char_u64(1) [OF d] by simp
qed

lemma parse_digits_digit_loop:
  assumes "base_ok b"
  shows "parse_digits r b (rev (digit_loop (v :: u64) (of_int b)) @ rest)
    = parse_digits (r * of_int b ^ length (digit_loop v (of_int b)) + v) b rest"
  using assms
proof (induction v "of_int b :: u64" arbitrary: r rest rule: digit_loop.induct)
  case (1 v)
  let ?b = "of_int b :: u64"
  have lt: "unat (v mod ?b) < nat b"
    using 1(2) by (simp add: unat_mod_distrib base_word) (simp add: base_ok_def)
  note digit = parse_digits_digit [OF 1(2) lt]
  have split: "v div ?b * ?b + v mod ?b = v" by (rule div_mult_mod_eq)
  show ?case
  proof (cases "v div ?b \<noteq> 0 \<and> 2 \<le> unat ?b")
    case True
    have "r * ?b ^ Suc k + v = (r * ?b ^ k + v div ?b) * ?b + v mod ?b" for k
      using split by (simp add: algebra_simps)
    then show ?thesis
      using True 1(1) [OF True 1(2)] digit by (simp add: digit_loop.simps [of v])
  next
    case False
    then have "v div ?b = 0" using 1(2) by (auto simp: base_word base_ok_def)
    with split have "v mod ?b = v" by simp
    then have "digit_loop v ?b = [digit_char v]" using False by (simp add: digit_loop.simps [of v])
    then show ?thesis using digit \<open>v mod ?b = v\<close> by (simp del: parse_digits.simps)
  qed
qed

lemma set_digit_loop:
  assumes "base_ok b" "c \<in> set (digit_loop (v :: u64) (of_int b))"
  shows "48 \<le> c \<and> c \<le> 122"
  using assms
proof (induction v "of_int b :: u64" rule: digit_loop.induct)
  case (1 v)
  note d = digit_char_u64(2,3) [OF unat_mod_base [OF 1(2)]]
  from 1(3) consider "c = digit_char (v mod of_int b)"
    | "v div of_int b \<noteq> 0 \<and> 2 \<le> unat (of_int b :: u64)" "c \<in> set (digit_loop (v div of_int b) (of_int b))"
    by (subst (asm) digit_loop.simps) (auto split: if_splits)
  then show ?case using 1(1) 1(2) d by cases auto
qed

text \<open>A number longer than \<open>k\<close> digits is at least \<open>b ^ k\<close>.\<close>

lemma length_digit_loop:
  assumes "unat (v :: 'w::len word) < unat b ^ k" "2 \<le> unat b" "0 < k"
  shows "length (digit_loop v b) \<le> k"
  using assms
proof (induction v b arbitrary: k rule: digit_loop.induct)
  case (1 v b)
  show ?case
  proof (cases "v div b \<noteq> 0 \<and> 2 \<le> unat b")
    case True
    then have "unat (v div b) \<noteq> 0" by (simp add: unat_eq_0)
    then have q: "unat v div unat b \<noteq> 0" by (simp add: unat_div_distrib)
    obtain j where k: "k = Suc j" using "1.prems"(3) by (cases k) auto
    have lt: "unat v div unat b < unat b ^ j"
      using "1.prems"(1) by (simp add: k less_mult_imp_div_less mult.commute)
    with q have "0 < j" by (cases j) auto
    moreover have "unat (v div b) < unat b ^ j" using lt by (simp add: unat_div_distrib)
    ultimately have "length (digit_loop (v div b) b) \<le> j"
      using "1.IH" [OF True] "1.prems"(2) by simp
    with True show ?thesis by (subst digit_loop.simps) (simp add: k)
  next
    case False
    with "1.prems" show ?thesis by (subst digit_loop.simps) auto
  qed
qed

section \<open>Printing and reading back\<close>

lemma reverse_whole: "reverse_loop xs 0 (length xs - Suc 0) = rev xs"
  using reverse_loop_rev [of xs] by simp

lemma reverse_after_sign: "reverse_loop (c # xs) (Suc 0) (length xs) = c # rev xs"
  using reverse_loop_prefix [of "[c]" xs] by simp

lemma ultoa_rev: "base_ok b \<Longrightarrow> ultoa v b = rev (digit_loop v (of_int b))"
  by (simp add: ultoa_def base_ok_def reverse_whole)

lemma ltoa_rev:
  "base_ok b \<Longrightarrow> ltoa v b =
     (if sint v < 0 \<and> b = 10 then 45 # rev (digit_loop (- v) 10)
      else rev (digit_loop v (of_int b)))"
  by (simp add: ltoa_def base_ok_def reverse_whole reverse_after_sign Let_def)

text \<open>A string of digits starts with neither white space nor a sign.\<close>

lemma digit_start:
  assumes "base_ok b"
  shows "\<exists>c cs. rev (digit_loop (v :: u64) (of_int b)) = c # cs \<and> 48 \<le> c \<and> c \<le> 122"
proof -
  obtain c cs where cs: "rev (digit_loop v (of_int b)) = c # cs"
    by (metis digit_loop_neq_Nil list.exhaust rev_is_Nil_conv)
  then have "c \<in> set (digit_loop v (of_int b))" by (metis list.set_intros(1) set_rev)
  with set_digit_loop [OF assms] cs show ?thesis by blast
qed

lemma sint_u8_small:
  assumes "(c :: u8) \<le> 127"
  shows "sint c = uint c"
proof -
  have "- 128 \<le> uint c" by (rule order_trans [OF _ uint_ge_0]) simp
  moreover have "uint c < 128" using assms by (simp add: word_le_def)
  ultimately have "signed_take_bit 7 (uint c) = uint c"
    by (intro signed_take_bit_int_eq_self) simp_all
  then show ?thesis by (simp add: sint_uint)
qed

lemma not_space_digit:
  assumes "48 \<le> (c :: u8)" "c \<le> 122"
  shows "\<not> isspace (sint c)" "c \<noteq> 45" "c \<noteq> 43"
proof -
  have "sint c = uint c" using assms by (intro sint_u8_small) (simp add: word_le_def)
  with assms show "\<not> isspace (sint c)" "c \<noteq> 45" "c \<noteq> 43"
    by (auto simp: isspace_def word_le_def)
qed

lemma strtol_digits:
  assumes "base_ok b"
  shows "strtol (rev (digit_loop v (of_int b))) b = (v, [])"
    and "strtol (45 # rev (digit_loop v (of_int b))) b = (- v, [])"
proof -
  obtain c cs where cs: "rev (digit_loop v (of_int b)) = c # cs" and c: "48 \<le> c" "c \<le> 122"
    using digit_start [OF assms] by metis
  note nsp = not_space_digit [OF c]
  have b0: "b \<noteq> 0" using assms by (auto simp: base_ok_def)
  have "parse_digits 0 b (c # cs) = (v, [])"
    using parse_digits_digit_loop [OF assms, of 0 v "[]"] cs by simp
  then show "strtol (rev (digit_loop v (of_int b))) b = (v, [])"
    and "strtol (45 # rev (digit_loop v (of_int b))) b = (- v, [])"
    using nsp b0 unfolding strtol_def cs
    by (simp_all add: skip_space_def auto_base_def isspace_def del: parse_digits.simps)
qed

text \<open>For every base from 2 to 36 and every 64-bit value, negative ones included, the
  string that \<open>ltoa\<close> writes is read back by \<open>strtol\<close> in that base, to its end, as the
  value it was written for.\<close>

theorem strtol_ltoa:
  assumes "2 \<le> b" "b \<le> 36"
  shows "strtol (ltoa v b) b = (v, [])"
proof -
  have b: "base_ok b" using assms by (simp add: base_ok_def)
  show ?thesis
    using strtol_digits(1) [OF b, of v] strtol_digits(2) [OF b, of "- v"]
    unfolding ltoa_rev [OF b] by (cases "sint v < 0 \<and> b = 10") auto
qed

theorem strtol_ltoa_witness:
  "strtol (ltoa (- 9223372036854775808) 10) 10 = (- 9223372036854775808, [])"
  by (rule strtol_ltoa) simp_all

section \<open>Sizes\<close>

lemma length_ultoa_16: "length (ultoa v 16) \<le> 16"
  using length_digit_loop [of v 16 16] unsigned_less [of v, where ?'a = nat]
  by (simp add: ultoa_rev base_ok_def)

lemma length_ultoa_10: "length (ultoa v 10) \<le> 20"
  using length_digit_loop [of v 10 20] unat_u64_less [of v, THEN order_less_le_trans]
  by (simp add: ultoa_rev base_ok_def)

lemma length_utoa_16: "length (utoa v 16) \<le> 8"
  using length_digit_loop [of v 16 8] unsigned_less [of v, where ?'a = nat]
  by (simp add: utoa_def reverse_whole)

lemma unat_neg_le:
  assumes "sint (v :: 'w::len word) < 0"
  shows "unat (- v) \<le> 2 ^ (LENGTH('w) - 1)"
proof -
  have "- v = word_of_int (- sint v)" by simp
  then have "uint (- v) = - sint v mod 2 ^ LENGTH('w)"
    by (simp only: uint_word_of_int)
  moreover have "- (2 ^ (LENGTH('w) - 1)) \<le> sint v" using sint_greater_eq [of v] by simp
  moreover have "(2::int) ^ (LENGTH('w) - 1) < 2 ^ LENGTH('w)" by simp
  ultimately have "uint (- v) \<le> 2 ^ (LENGTH('w) - 1)" using assms by simp
  then show ?thesis by (metis nat_le_iff nat_numeral nat_power_eq of_nat_numeral of_nat_power uint_nat unat_eq_nat_uint zero_le_numeral)
qed

lemma length_ltoa_10: "length (ltoa v 10) \<le> 20"
proof (cases "sint v < 0")
  case True
  have "length (digit_loop (- v) 10) \<le> 19"
    using unat_neg_le [OF True] by (intro length_digit_loop) auto
  with True show ?thesis by (simp add: ltoa_rev base_ok_def)
next
  case False
  then show ?thesis
    using length_digit_loop [of v 10 20] unat_u64_less [of v, THEN order_less_le_trans]
    by (simp add: ltoa_rev base_ok_def)
qed

lemma length_itoa_10: "length (itoa v 10) \<le> 11"
proof (cases "sint v < 0")
  case True
  have "length (digit_loop (- v) 10) \<le> 10"
    using unat_neg_le [OF True] by (intro length_digit_loop) auto
  with True show ?thesis by (simp add: itoa_def reverse_after_sign Let_def)
next
  case False
  then show ?thesis
    using length_digit_loop [of v 10 10] unsigned_less [of v, where ?'a = nat]
    by (simp add: itoa_def reverse_whole Let_def)
qed

end
