(* ===== verification/Strings.thy ===== *)
theory Strings
  imports Machine
begin

text \<open>
  The memory functions of \<open>kernel/utils/string.c\<close> on the virtual memory, byte by byte in
  the order of the C loops (the \<open>rep stosb\<close> and \<open>rep movsb\<close> forms do the same), and the
  string functions on NUL-terminated strings.
\<close>

section \<open>Block operations\<close>

definition memset :: "u64 \<Rightarrow> u8 \<Rightarrow> nat \<Rightarrow> 'a machine_scheme \<Rightarrow> 'a machine_scheme res" where
  "memset p c n s = store_bytes p (replicate n c) s"

fun copy_up :: "memory \<Rightarrow> u64 \<Rightarrow> u64 \<Rightarrow> nat \<Rightarrow> memory res" where
  "copy_up m d p 0 = Inr m"
| "copy_up m d p (Suc n) =
     rbind (rd8 m p) (\<lambda>b. rbind (wr8 m d b) (\<lambda>m. copy_up m (d + 1) (p + 1) n))"

fun copy_down :: "memory \<Rightarrow> u64 \<Rightarrow> u64 \<Rightarrow> nat \<Rightarrow> memory res" where
  "copy_down m d p 0 = Inr m"
| "copy_down m d p (Suc n) =
     (let d = d - 1; p = p - 1 in
      rbind (rd8 m p) (\<lambda>b. rbind (wr8 m d b) (\<lambda>m. copy_down m d p n)))"

definition memcpy :: "u64 \<Rightarrow> u64 \<Rightarrow> nat \<Rightarrow> 'a machine_scheme \<Rightarrow> 'a machine_scheme res" where
  "memcpy dest src n s = rbind (copy_up (vmem s) dest src n) (\<lambda>m. Inr (s\<lparr>vmem := m\<rparr>))"

definition memmove :: "u64 \<Rightarrow> u64 \<Rightarrow> nat \<Rightarrow> 'a machine_scheme \<Rightarrow> 'a machine_scheme res" where
  "memmove dest src n s =
     rbind (if dest < src then copy_up (vmem s) dest src n
            else copy_down (vmem s) (dest + of_nat n) (src + of_nat n) n) (\<lambda>m.
     Inr (s\<lparr>vmem := m\<rparr>))"

fun memcmp_loop :: "memory \<Rightarrow> u64 \<Rightarrow> u64 \<Rightarrow> nat \<Rightarrow> int res" where
  "memcmp_loop m p q 0 = Inr 0"
| "memcmp_loop m p q (Suc n) =
     rbind (rd8 m p) (\<lambda>a. rbind (rd8 m q) (\<lambda>b.
     if a \<noteq> b then Inr (uint a - uint b) else memcmp_loop m (p + 1) (q + 1) n))"

definition memcmp :: "u64 \<Rightarrow> u64 \<Rightarrow> nat \<Rightarrow> 'a machine_scheme \<Rightarrow> int res" where
  "memcmp s1 s2 n s = memcmp_loop (vmem s) s1 s2 n"

lemma memset_mapped [mem_simps]:
  "mapped (vmem s) p n \<Longrightarrow> n \<le> 2 ^ 64 \<Longrightarrow>
     memset p c n s = Inr (s\<lparr>vmem := mem_upd (vmem s) p (replicate n c)\<rparr>)"
  by (simp add: memset_def store_bytes_mapped)

section \<open>Copies\<close>

text \<open>
  A copy upwards is right when the destination does not run into the part of the source
  still to be read; a copy downwards likewise.  \<open>memmove\<close> chooses the direction by the
  addresses.
\<close>

lemma mem_upd_Nil [simp]: "mem_upd m a [] = m"
  by (simp add: mem_upd_def)

lemma mem_upd_at:
  assumes "unat a + length bs \<le> 2 ^ 64" "unat a + i < 2 ^ 64"
  shows "mem_upd m a bs (a + of_nat i) = (if i < length bs then Some (bs ! i) else m (a + of_nat i))"
proof -
  have "i < 2 ^ 64" using assms(2) by simp
  then show ?thesis by (simp add: mem_upd_def)
qed

lemma mem_upd_append:
  "length xs + length ys \<le> 2 ^ 64 \<Longrightarrow>
     mem_upd (mem_upd m a xs) (a + of_nat (length xs)) ys = mem_upd m a (xs @ ys)"
proof (induction xs arbitrary: m a)
  case (Cons x xs)
  have "mem_upd (mem_upd (m(a \<mapsto> x)) (a + 1) xs) (a + 1 + of_nat (length xs)) ys = mem_upd (m(a \<mapsto> x)) (a + 1) (xs @ ys)"
    using Cons.prems by (intro Cons.IH) simp
  moreover have "mem_upd (m(a \<mapsto> x)) (a + 1) xs = mem_upd m a (x # xs)"
    "mem_upd (m(a \<mapsto> x)) (a + 1) (xs @ ys) = mem_upd m a (x # xs @ ys)"
    using Cons.prems by (intro mem_upd_Cons; simp)+
  ultimately show ?case by (simp add: add.assoc)
qed simp

lemma copy_up_ok:
  assumes "rd_bytes m p n = Inr bs" "mapped m d n" "unat p + n \<le> 2 ^ 64" "unat d + n \<le> 2 ^ 64"
    "unat d \<le> unat p \<or> unat p + n \<le> unat d"
  shows "copy_up m d p n = Inr (mem_upd m d bs)"
  using assms
proof (induction n arbitrary: m d p bs)
  case 0
  then show ?case by simp
next
  case (Suc n)
  from Suc.prems(1) obtain b cs where b: "rd8 m p = Inr b" "rd_bytes m (p + 1) n = Inr cs" "bs = b # cs"
    by (auto simp: rbind_eq_Inr)
  have len: "length cs = n" using b(2) by (simp add: rd_bytes_eq_Inr)
  show ?case
  proof (cases "n = 0")
    case True
    then have "cs = []" using len by simp
    moreover have "m d \<noteq> None" using Suc.prems(2) by (simp add: mapped_Suc)
    ultimately show ?thesis using b True by (auto simp: wr8_def wr8_mem_upd)
  next
    case False
    have sp: "unat (p + 1) = unat p + 1" "unat (d + 1) = unat d + 1"
      using Suc.prems(3,4) False by (simp_all add: unat_plus_if')
    have md: "m d \<noteq> None" "mapped m (d + 1) n" using Suc.prems(2) by (auto simp: mapped_Suc)
    let ?m = "m(d \<mapsto> b)"
    have "rd_bytes ?m (p + 1) n = rd_bytes m (p + 1) n"
    proof (rule rd_bytes_cong_mem)
      fix i assume i: "i < n"
      have "unat (p + 1 + of_nat i) = unat p + 1 + i"
        using unat_add_of_nat [of "p + 1" i] sp(1) Suc.prems(3) i by simp
      then have "p + 1 + of_nat i \<noteq> d" using Suc.prems(5) i by auto
      then show "?m (p + 1 + of_nat i) = m (p + 1 + of_nat i)" by simp
    qed
    then have r: "rd_bytes ?m (p + 1) n = Inr cs" using b(2) by simp
    have mp: "mapped ?m (d + 1) n" using md(2) by (auto simp: mapped_def)
    have "copy_up ?m (d + 1) (p + 1) n = Inr (mem_upd ?m (d + 1) cs)"
      by (rule Suc.IH [OF r mp]) (use Suc.prems(3-5) sp in auto)
    moreover have "mem_upd ?m (d + 1) cs = mem_upd m d bs"
      unfolding b(3) using Suc.prems(4) len by (intro mem_upd_Cons) simp
    ultimately show ?thesis using b(1) md(1) by (auto simp: wr8_def)
  qed
qed

lemma copy_down_ok:
  assumes "rd_bytes m p n = Inr bs" "mapped m d n" "unat p + n \<le> 2 ^ 64" "unat d + n \<le> 2 ^ 64"
    "unat p \<le> unat d"
  shows "copy_down m (d + of_nat n) (p + of_nat n) n = Inr (mem_upd m d bs)"
  using assms(1-4)
proof (induction n arbitrary: m bs)
  case 0
  then show ?case by simp
next
  case (Suc n)
  have idx: "a + of_nat (Suc n) - 1 = a + of_nat n" for a :: u64 by simp
  have rd: "length bs = Suc n" "\<And>i. i < Suc n \<Longrightarrow> m (p + of_nat i) = Some (bs ! i)"
    using Suc.prems(1) [unfolded rd_bytes_eq_Inr] by auto
  have md: "m (d + of_nat n) \<noteq> None" using Suc.prems(2) unfolding mapped_def by blast
  let ?m = "m(d + of_nat n \<mapsto> bs ! n)"
  have ud: "unat (d + of_nat n) = unat d + n" using Suc.prems(4) by (intro unat_add_of_nat) simp
  have r: "rd_bytes ?m p n = Inr (take n bs)"
  proof -
    have "?m (p + of_nat i) = Some (bs ! i)" if i: "i < n" for i
    proof -
      have "unat (p + of_nat i) = unat p + i" using Suc.prems(3) i by (intro unat_add_of_nat) simp
      then have "p + of_nat i \<noteq> d + of_nat n" using assms(5) i ud by (metis add_le_less_mono less_irrefl)
      then show ?thesis using rd(2) i by simp
    qed
    then show ?thesis using rd(1) by (simp add: rd_bytes_eq_Inr)
  qed
  have mp: "mapped ?m d n" using Suc.prems(2) by (auto simp: mapped_def)
  have "copy_down ?m (d + of_nat n) (p + of_nat n) n = Inr (mem_upd ?m d (take n bs))"
    by (rule Suc.IH [OF r mp]) (use Suc.prems(3,4) in auto)
  moreover have "mem_upd ?m d (take n bs) = mem_upd m d bs"
  proof
    fix x
    have "n < 2 ^ 64" using Suc.prems(4) by simp
    then have "unat (x - d) = n \<longleftrightarrow> x = d + of_nat n"
      by (metis add_diff_cancel_left' diff_add_cancel add.commute unat_of_nat_lt of_nat_unat ucast_id)
    then show "mem_upd ?m d (take n bs) x = mem_upd m d bs x"
      using rd(1) by (auto simp: mem_upd_def less_Suc_eq)
  qed
  ultimately show ?case
    using rd(2) [of n] md by (auto simp: Let_def idx rd8_def wr8_def simp del: of_nat_Suc)
qed

text \<open>\<open>memmove\<close> copies as if through a buffer of its own: for any overlap of source and
  destination the destination ends up with the bytes the source had before, and nothing
  else changes.\<close>

theorem memmove_simultaneous:
  assumes "load_bytes src n s = Inr bs" "mapped (vmem s) dest n"
    "unat src + n \<le> 2 ^ 64" "unat dest + n \<le> 2 ^ 64"
  shows "\<exists>s'. memmove dest src n s = Inr s' \<and> load_bytes dest n s' = Inr bs \<and>
    s'\<lparr>vmem := vmem s\<rparr> = s \<and>
    (\<forall>x. \<not> (unat dest \<le> unat x \<and> unat x < unat dest + n) \<longrightarrow> vmem s' x = vmem s x)"
proof -
  let ?s = "s\<lparr>vmem := mem_upd (vmem s) dest bs\<rparr>"
  have rd: "rd_bytes (vmem s) src n = Inr bs" using assms(1) by (simp add: load_bytes_def)
  then have len: "length bs = n" by (simp add: rd_bytes_eq_Inr)
  have "memmove dest src n s = Inr ?s"
    using copy_up_ok [OF rd assms(2-4)] copy_down_ok [OF rd assms(2-4)]
    by (auto simp: memmove_def word_less_nat_alt)
  moreover have "load_bytes dest n ?s = Inr bs"
    using len assms(4) by (simp add: load_bytes_def rd_bytes_upd_same)
  moreover have "mem_upd (vmem s) dest bs x = vmem s x"
    if "\<not> (unat dest \<le> unat x \<and> unat x < unat dest + n)" for x
  proof -
    have "\<not> unat (x - dest) < n"
      using that assms(4) by (cases "unat dest \<le> unat x") (auto simp: unat_sub_if')
    then show ?thesis by (simp add: mem_upd_def len)
  qed
  ultimately show ?thesis by (intro exI [of _ ?s]) simp
qed

definition ram :: "u8 list \<Rightarrow> machine" where
  "ram bs = \<lparr>vmem = (\<lambda>a. if unat a < length bs then Some (bs ! unat a) else None), ports = []\<rparr>"

lemma ram_load [simp]: "n \<le> length bs \<Longrightarrow> length bs \<le> 2 ^ 64 \<Longrightarrow> load_bytes 0 n (ram bs) = Inr (take n bs)"
  by (simp add: load_bytes_def rd_bytes_eq_Inr ram_def)

lemma ram_mapped [simp]: "unat a + n \<le> length bs \<Longrightarrow> length bs \<le> 2 ^ 64 \<Longrightarrow> mapped (vmem (ram bs)) a n"
  by (simp add: mapped_def ram_def unat_add_of_nat)

theorem memmove_simultaneous_witness:
  "\<exists>s'. memmove 1 0 3 (ram [1, 2, 3, 4]) = Inr s' \<and> load_bytes 1 3 s' = Inr [1, 2, 3]"
  using memmove_simultaneous [of 0 3 "ram [1, 2, 3, 4]" "[1, 2, 3]" 1] by auto

end
