(* ===== verification/Cstrings.thy ===== *)
theory Cstrings
  imports Strings "HOL-Library.Sublist"
begin
text \<open>
  The functions on NUL-terminated strings of \<open>kernel/utils/string.c\<close>.  A loop over a string
  of unknown length takes one unit of fuel per turn; a loop that counts \<open>n\<close> down is structural
  in it.  The pointer a function returns is left out where it is its first argument.
\<close>

section \<open>Loops\<close>

text \<open>\<open>while (*p) p++\<close>: the address of the terminating zero.\<close>

fun scan_zero :: "nat \<Rightarrow> memory \<Rightarrow> u64 \<Rightarrow> u64 res" where
  "scan_zero 0 m p = Inl OutOfFuel"
| "scan_zero (Suc n) m p = rbind (rd8 m p) (\<lambda>b. if b = 0 then Inr p else scan_zero n m (p + 1))"

fun copy_string :: "nat \<Rightarrow> memory \<Rightarrow> u64 \<Rightarrow> u64 \<Rightarrow> memory res" where
  "copy_string 0 m d p = Inl OutOfFuel"
| "copy_string (Suc n) m d p =
     rbind (rd8 m p) (\<lambda>b. rbind (wr8 m d b) (\<lambda>m.
     if b = 0 then Inr m else copy_string n m (d + 1) (p + 1)))"

text \<open>
  The first loop of \<open>strncpy\<close> gives the destination pointer and the counter it stops with:
  the test \<open>n && (*d++ = *src++)\<close> copies a byte before it fails, and then the counter is not
  decremented.
\<close>

fun copy_bounded :: "memory \<Rightarrow> u64 \<Rightarrow> u64 \<Rightarrow> nat \<Rightarrow> (memory \<times> u64 \<times> nat) res" where
  "copy_bounded m d p 0 = Inr (m, d, 0)"
| "copy_bounded m d p (Suc n) =
     rbind (rd8 m p) (\<lambda>b. rbind (wr8 m d b) (\<lambda>m.
     if b \<noteq> 0 then copy_bounded m (d + 1) (p + 1) n else Inr (m, d + 1, Suc n)))"

fun fill_zero :: "memory \<Rightarrow> u64 \<Rightarrow> nat \<Rightarrow> memory res" where
  "fill_zero m d 0 = Inr m"
| "fill_zero m d (Suc n) = rbind (wr8 m d 0) (\<lambda>m. fill_zero m (d + 1) n)"

fun strcmp_loop :: "nat \<Rightarrow> memory \<Rightarrow> u64 \<Rightarrow> u64 \<Rightarrow> int res" where
  "strcmp_loop 0 m p q = Inl OutOfFuel"
| "strcmp_loop (Suc n) m p q =
     rbind (rd8 m p) (\<lambda>a. rbind (rd8 m q) (\<lambda>b.
     if a \<noteq> 0 \<and> a = b then strcmp_loop n m (p + 1) (q + 1) else Inr (uint a - uint b)))"

fun strncmp_loop :: "memory \<Rightarrow> u64 \<Rightarrow> u64 \<Rightarrow> nat \<Rightarrow> int res" where
  "strncmp_loop m p q 0 = Inr 0"
| "strncmp_loop m p q (Suc n) =
     rbind (rd8 m p) (\<lambda>a. rbind (rd8 m q) (\<lambda>b.
     if a \<noteq> 0 \<and> a = b then strncmp_loop m (p + 1) (q + 1) n else Inr (uint a - uint b)))"

fun strchr_loop :: "nat \<Rightarrow> memory \<Rightarrow> u64 \<Rightarrow> u32 \<Rightarrow> u64 res" where
  "strchr_loop 0 m p c = Inl OutOfFuel"
| "strchr_loop (Suc n) m p c =
     rbind (rd8 m p) (\<lambda>b.
     if b = 0 then Inr (if c = 0 then p else 0)
     else if b = ucast c then Inr p else strchr_loop n m (p + 1) c)"

fun strstr_loop :: "nat \<Rightarrow> memory \<Rightarrow> u64 \<Rightarrow> u64 \<Rightarrow> nat \<Rightarrow> u64 res" where
  "strstr_loop 0 m p needle nlen = Inl OutOfFuel"
| "strstr_loop (Suc n) m p needle nlen =
     rbind (rd8 m p) (\<lambda>b.
     if b = 0 then Inr 0
     else rbind (strncmp_loop m p needle nlen) (\<lambda>r.
       if r = 0 then Inr p else strstr_loop n m (p + 1) needle nlen))"

text \<open>\<open>char\<close> is signed: only the last comparison reads the bytes as unsigned.\<close>

definition upper :: "u8 \<Rightarrow> u8" where
  "upper c = (if sint c \<ge> 97 \<and> sint c \<le> 122 then c - 32 else c)"

fun stricmp_loop :: "nat \<Rightarrow> memory \<Rightarrow> u64 \<Rightarrow> u64 \<Rightarrow> int res" where
  "stricmp_loop 0 m p q = Inl OutOfFuel"
| "stricmp_loop (Suc n) m p q =
     rbind (rd8 m p) (\<lambda>a. rbind (rd8 m q) (\<lambda>b.
     if a \<noteq> 0 \<and> b \<noteq> 0 then
       if upper a \<noteq> upper b then Inr (sint (upper a) - sint (upper b))
       else stricmp_loop n m (p + 1) (q + 1)
     else Inr (uint a - uint b)))"

section \<open>The functions\<close>

definition strlen :: "nat \<Rightarrow> u64 \<Rightarrow> 'a machine_scheme \<Rightarrow> u64 res" where
  "strlen n p s = rbind (scan_zero n (vmem s) p) (\<lambda>e. Inr (e - p))"

definition strcpy :: "nat \<Rightarrow> u64 \<Rightarrow> u64 \<Rightarrow> 'a machine_scheme \<Rightarrow> 'a machine_scheme res" where
  "strcpy n dest src s = rbind (copy_string n (vmem s) dest src) (\<lambda>m. Inr (s\<lparr>vmem := m\<rparr>))"

definition strncpy :: "u64 \<Rightarrow> u64 \<Rightarrow> nat \<Rightarrow> 'a machine_scheme \<Rightarrow> 'a machine_scheme res" where
  "strncpy dest src n s =
     rbind (copy_bounded (vmem s) dest src n) (\<lambda>(m, d, n).
     rbind (fill_zero m d n) (\<lambda>m. Inr (s\<lparr>vmem := m\<rparr>)))"

definition strcmp :: "nat \<Rightarrow> u64 \<Rightarrow> u64 \<Rightarrow> 'a machine_scheme \<Rightarrow> int res" where
  "strcmp n s1 s2 s = strcmp_loop n (vmem s) s1 s2"

definition strncmp :: "u64 \<Rightarrow> u64 \<Rightarrow> nat \<Rightarrow> 'a machine_scheme \<Rightarrow> int res" where
  "strncmp s1 s2 n s = strncmp_loop (vmem s) s1 s2 n"

definition strcat :: "nat \<Rightarrow> u64 \<Rightarrow> u64 \<Rightarrow> 'a machine_scheme \<Rightarrow> 'a machine_scheme res" where
  "strcat n dest src s =
     rbind (scan_zero n (vmem s) dest) (\<lambda>d.
     rbind (copy_string n (vmem s) d src) (\<lambda>m. Inr (s\<lparr>vmem := m\<rparr>)))"

definition strchr :: "nat \<Rightarrow> u64 \<Rightarrow> u32 \<Rightarrow> 'a machine_scheme \<Rightarrow> u64 res" where
  "strchr n p c s = strchr_loop n (vmem s) p c"

definition strstr :: "nat \<Rightarrow> u64 \<Rightarrow> u64 \<Rightarrow> 'a machine_scheme \<Rightarrow> u64 res" where
  "strstr n haystack needle s =
     rbind (rd8 (vmem s) needle) (\<lambda>b.
     if b = 0 then Inr haystack
     else
       rbind (strlen n needle s) (\<lambda>nlen.
       strstr_loop n (vmem s) haystack needle (unat nlen)))"

definition stricmp :: "nat \<Rightarrow> u64 \<Rightarrow> u64 \<Rightarrow> 'a machine_scheme \<Rightarrow> int res" where
  "stricmp n s1 s2 s = stricmp_loop n (vmem s) s1 s2"

section \<open>Strings in memory\<close>

fun string_at :: "memory \<Rightarrow> u64 \<Rightarrow> u8 list \<Rightarrow> bool" where
  "string_at m p [] \<longleftrightarrow> m p = Some 0"
| "string_at m p (c # cs) \<longleftrightarrow> m p = Some c \<and> c \<noteq> 0 \<and> string_at m (p + 1) cs"

lemma string_at_drop: "string_at m p cs \<Longrightarrow> i \<le> length cs \<Longrightarrow> string_at m (p + of_nat i) (drop i cs)"
proof (induction cs arbitrary: p i)
  case Nil
  then show ?case by simp
next
  case (Cons c cs)
  then show ?case by (cases i) (auto simp: add.assoc [symmetric])
qed

lemma scan_string: "string_at m p cs \<Longrightarrow> length cs < n \<Longrightarrow> scan_zero n m p = Inr (p + of_nat (length cs))"
proof (induction cs arbitrary: p n)
  case Nil
  then show ?case by (cases n) (auto simp: rd8_def)
next
  case (Cons c cs)
  then show ?case by (cases n) (auto simp: rd8_def add.assoc)
qed

lemma strlen_string: "string_at (vmem s) p cs \<Longrightarrow> length cs < n \<Longrightarrow> strlen n p s = Inr (of_nat (length cs))"
  by (simp add: strlen_def scan_string)

text \<open>Bytes compared from the front: the difference of the first two that differ, the missing
  byte of a string that ends being 0.\<close>

fun first_difference :: "u8 list \<Rightarrow> u8 list \<Rightarrow> int" where
  "first_difference [] [] = 0"
| "first_difference [] (d # ds) = - uint d"
| "first_difference (c # cs) [] = uint c"
| "first_difference (c # cs) (d # ds) = (if c = d then first_difference cs ds else uint c - uint d)"

lemma strcmp_string:
  "string_at m p cs \<Longrightarrow> string_at m q ds \<Longrightarrow> length cs < n \<Longrightarrow> strcmp_loop n m p q = Inr (first_difference cs ds)"
proof (induction cs ds arbitrary: p q n rule: first_difference.induct)
  case 1
  then show ?case by (cases n) (simp_all add: rd8_def)
next
  case (2 d ds)
  then show ?case by (cases n) (simp_all add: rd8_def)
next
  case (3 c cs)
  then show ?case by (cases n) (simp_all add: rd8_def)
next
  case (4 c cs d ds)
  then show ?case by (cases n) (simp_all add: rd8_def)
qed

lemma strncmp_string:
  "string_at m p cs \<Longrightarrow> string_at m q ds \<Longrightarrow>
     strncmp_loop m p q n = Inr (first_difference (take n cs) (take n ds))"
proof (induction cs ds arbitrary: p q n rule: first_difference.induct)
  case 1
  then show ?case by (cases n) (simp_all add: rd8_def)
next
  case (2 d ds)
  then show ?case by (cases n) (simp_all add: rd8_def)
next
  case (3 c cs)
  then show ?case by (cases n) (simp_all add: rd8_def)
next
  case (4 c cs d ds)
  then show ?case by (cases n) (simp_all add: rd8_def)
qed

lemma first_difference_0: "0 \<notin> set cs \<Longrightarrow> 0 \<notin> set ds \<Longrightarrow> first_difference cs ds = 0 \<longleftrightarrow> cs = ds"
  by (induction cs ds rule: first_difference.induct) (auto simp: uint_0_iff dest: word_uint_eqI)

lemma string_at_nonzero: "string_at m p cs \<Longrightarrow> 0 \<notin> set cs"
  by (induction cs arbitrary: p) auto

section \<open>Searching\<close>

lemma starts_with: "first_difference (take (length nd) hs) nd = 0 \<longleftrightarrow> prefix nd hs"
  if "0 \<notin> set nd" "0 \<notin> set hs"
proof -
  have "0 \<notin> set (take (length nd) hs)" using that(2) in_set_takeD by fastforce
  then have "first_difference (take (length nd) hs) nd = 0 \<longleftrightarrow> take (length nd) hs = nd"
    using that(1) by (rule first_difference_0)
  then show ?thesis by (metis append_take_drop_id prefixE prefixI append_eq_conv_conj)
qed

text \<open>The position of the first occurrence.\<close>

fun first_match :: "u8 list \<Rightarrow> u8 list \<Rightarrow> nat option" where
  "first_match nd [] = (if nd = [] then Some 0 else None)"
| "first_match nd (h # hs) = (if prefix nd (h # hs) then Some 0 else map_option Suc (first_match nd hs))"

lemma first_match_Some:
  "first_match nd hs = Some i \<Longrightarrow> i \<le> length hs \<and> prefix nd (drop i hs) \<and> (\<forall>j < i. \<not> prefix nd (drop j hs))"
proof (induction hs arbitrary: i)
  case (Cons h hs)
  then show ?case
  proof (cases "prefix nd (h # hs)")
    case False
    then obtain k where k: "first_match nd hs = Some k" "i = Suc k" using Cons.prems by auto
    have "\<not> prefix nd (drop j (h # hs))" if "j < i" for j
      using that Cons.IH [OF k(1)] k(2) False by (cases j) auto
    then show ?thesis using Cons.IH [OF k(1)] k(2) by simp
  qed simp
qed (auto split: if_splits)

lemma first_match_None: "first_match nd hs = None \<longleftrightarrow> \<not> sublist nd hs"
  by (induction hs) (auto simp: sublist_Cons_right)

lemma strstr_string:
  assumes "string_at m q nd" "nd \<noteq> []"
  shows "string_at m p hs \<Longrightarrow> length hs < n \<Longrightarrow>
    strstr_loop n m p q (length nd) = Inr (case first_match nd hs of None \<Rightarrow> 0 | Some i \<Rightarrow> p + of_nat i)"
proof (induction hs arbitrary: p n)
  case Nil
  then show ?case using assms(2) by (cases n) (simp_all add: rd8_def)
next
  case (Cons h hs)
  obtain k where k: "n = Suc k" using Cons.prems(2) by (cases n) auto
  have "strncmp_loop m p q (length nd) = Inr (first_difference (take (length nd) (h # hs)) nd)"
    using strncmp_string [OF Cons.prems(1) assms(1), of "length nd"] by simp
  moreover have "first_difference (take (length nd) (h # hs)) nd = 0 \<longleftrightarrow> prefix nd (h # hs)"
    by (intro starts_with string_at_nonzero [OF assms(1)] string_at_nonzero [OF Cons.prems(1)])
  moreover have "strstr_loop k m (p + 1) q (length nd) =
      Inr (case first_match nd hs of None \<Rightarrow> 0 | Some i \<Rightarrow> p + 1 + of_nat i)"
    using Cons.IH [of "p + 1" k] Cons.prems k by simp
  ultimately show ?case
    using Cons.prems(1) by (simp add: k rd8_def algebra_simps del: take_Suc_Cons split: option.splits)
qed

section \<open>Copies of bounded length\<close>

lemma fill_zero_ok: "mapped m d n \<Longrightarrow> n \<le> 2 ^ 64 \<Longrightarrow> fill_zero m d n = Inr (mem_upd m d (replicate n 0))"
proof (induction n arbitrary: m d)
  case (Suc n)
  have "m d \<noteq> None" "mapped (m(d \<mapsto> 0)) (d + 1) n"
    using Suc.prems(1) by (auto simp: mapped_Suc mapped_fun_upd)
  moreover have "mem_upd (m(d \<mapsto> 0)) (d + 1) (replicate n 0) = mem_upd m d (0 # replicate n 0)"
    using Suc.prems(2) by (intro mem_upd_Cons) simp
  moreover have "fill_zero (m(d \<mapsto> 0)) (d + 1) n = Inr (mem_upd (m(d \<mapsto> 0)) (d + 1) (replicate n 0))"
    by (rule Suc.IH [OF calculation(2)]) (use Suc.prems(2) in simp)
  ultimately show ?case by (auto simp: wr8_def)
qed simp

lemma fill_zero_faults:
  "mapped m d k \<Longrightarrow> m (d + of_nat k) = None \<Longrightarrow> k < n \<Longrightarrow> n \<le> 2 ^ 64 \<Longrightarrow> fill_zero m d n = Inl (PageFault (d + of_nat k))"
proof (induction k arbitrary: m d n)
  case 0
  then show ?case by (cases n) (simp_all add: wr8_def)
next
  case (Suc k)
  obtain l where n: "n = Suc l" using Suc.prems(3) by (cases n) auto
  have at: "d + 1 + of_nat k = d + of_nat (Suc k)" by simp
  have "unat (of_nat (Suc k) :: u64) = Suc k" using Suc.prems(3,4) by (intro unat_of_nat_lt) simp
  then have "d + of_nat (Suc k) \<noteq> d" by (metis add_cancel_right_right nat.distinct(1) unat_0)
  then have "fill_zero (m(d \<mapsto> 0)) (d + 1) l = Inl (PageFault (d + 1 + of_nat k))"
    using Suc.prems n mapped_fun_upd [of m "d + 1" k d 0]
    by (intro Suc.IH) (simp_all add: mapped_Suc add.assoc fun_upd_def)
  moreover have "m d \<noteq> None" using Suc.prems(1) by (simp add: mapped_Suc)
  ultimately show ?case unfolding n at by (auto simp: wr8_def)
qed

text \<open>The source stays as it is while the destination is written.\<close>

lemma string_at_upd:
  "string_at m p cs \<Longrightarrow> (\<And>i. i \<le> length cs \<Longrightarrow> p + of_nat i \<noteq> d) \<Longrightarrow> string_at (m(d \<mapsto> b)) p cs"
proof (induction cs arbitrary: p)
  case Nil
  then show ?case using Nil.prems(2) [of 0] by simp
next
  case (Cons c cs)
  have "p \<noteq> d" using Cons.prems(2) [of 0] by simp
  moreover have "p + 1 + of_nat i \<noteq> d" if "i \<le> length cs" for i
    using Cons.prems(2) [of "Suc i"] that by (simp add: add.assoc)
  ultimately show ?case using Cons by simp
qed

definition disjoint_bytes :: "u64 \<Rightarrow> nat \<Rightarrow> u64 \<Rightarrow> nat \<Rightarrow> bool" where
  "disjoint_bytes d n p k \<longleftrightarrow> (\<forall>i < k. \<forall>j < n. p + of_nat i \<noteq> d + of_nat j)"

lemma disjoint_bytes_Suc:
  "disjoint_bytes d (Suc n) p (Suc k) \<Longrightarrow> disjoint_bytes (d + 1) n (p + 1) k"
  unfolding disjoint_bytes_def by (metis (no_types, lifting) Suc_less_eq add.assoc of_nat_Suc)

lemma copy_bounded_ok:
  "string_at m p cs \<Longrightarrow> mapped m d n \<Longrightarrow> disjoint_bytes d n p (Suc (length cs)) \<Longrightarrow> n \<le> 2 ^ 64 \<Longrightarrow>
     copy_bounded m d p n = Inr
       (if n \<le> length cs then (mem_upd m d (take n cs), d + of_nat n, 0)
        else (mem_upd m d (cs @ [0]), d + of_nat (Suc (length cs)), n - length cs))"
proof (induction n arbitrary: m d p cs)
  case (Suc n)
  have d: "m d \<noteq> None" "mapped m (d + 1) n" using Suc.prems(2) by (auto simp: mapped_Suc)
  show ?case
  proof (cases cs)
    case Nil
    have "m(d \<mapsto> 0) = mem_upd m d [0]" using mem_upd_Cons [of "[]" m d 0] by simp
    then show ?thesis using Suc.prems(1) d(1) Nil by (auto simp: rd8_def wr8_def)
  next
    case (Cons c cs')
    have "p + of_nat i \<noteq> d" if "i \<le> length cs" for i
      using Suc.prems(3) [unfolded disjoint_bytes_def, rule_format, of i 0] that by simp
    then have "string_at (m(d \<mapsto> c)) p cs" using string_at_upd Suc.prems(1) by blast
    then have src: "string_at (m(d \<mapsto> c)) (p + 1) cs'" by (simp add: Cons)
    have "copy_bounded (m(d \<mapsto> c)) (d + 1) (p + 1) n = Inr
       (if n \<le> length cs' then (mem_upd (m(d \<mapsto> c)) (d + 1) (take n cs'), d + 1 + of_nat n, 0)
        else (mem_upd (m(d \<mapsto> c)) (d + 1) (cs' @ [0]), d + 1 + of_nat (Suc (length cs')), n - length cs'))"
      using Suc.prems(3,4) disjoint_bytes_Suc [of d n p "Suc (length cs')"]
      by (intro Suc.IH [OF src mapped_fun_upd [OF d(2)]]) (simp_all add: Cons)
    moreover have "mem_upd (m(d \<mapsto> c)) (d + 1) (take n cs') = mem_upd m d (c # take n cs')"
      using Suc.prems(4) by (intro mem_upd_Cons) simp
    moreover have "\<not> n \<le> length cs' \<Longrightarrow> mem_upd (m(d \<mapsto> c)) (d + 1) (cs' @ [0]) = mem_upd m d (c # cs' @ [0])"
      using Suc.prems(4) by (intro mem_upd_Cons) simp
    moreover have "copy_bounded m d p (Suc n) = copy_bounded (m(d \<mapsto> c)) (d + 1) (p + 1) n"
      using Suc.prems(1) d(1) by (auto simp: Cons rd8_def wr8_def)
    ultimately show ?thesis by (simp add: Cons add.assoc)
  qed
qed simp

section \<open>Properties\<close>

text \<open>C39. \<open>strncpy\<close> writes one byte too many for a short source.  A source of at least \<open>n\<close>
  characters is cut to \<open>n\<close> without a terminating zero; a shorter one is copied and padded
  with zeros to \<open>n + 1\<close> bytes, so the byte behind a buffer of \<open>n\<close> is overwritten, or the
  write faults when that byte is not mapped.\<close>

theorem strncpy_overflows:
  assumes "string_at (vmem s) src cs" "mapped (vmem s) dest n" "disjoint_bytes dest n src (Suc (length cs))" "n < 2 ^ 64"
  shows "strncpy dest src n s =
    (if n \<le> length cs then Inr (s\<lparr>vmem := mem_upd (vmem s) dest (take n cs)\<rparr>)
     else if vmem s (dest + of_nat n) = None then Inl (PageFault (dest + of_nat n))
     else Inr (s\<lparr>vmem := mem_upd (vmem s) dest (cs @ replicate (Suc n - length cs) 0)\<rparr>))"
proof (cases "n \<le> length cs")
  case True
  then show ?thesis using copy_bounded_ok [OF assms(1-3)] assms(4) by (simp add: strncpy_def)
next
  case False
  let ?m = "mem_upd (vmem s) dest (cs @ [0])" and ?l = "length cs"
  let ?d = "dest + of_nat (Suc ?l)"
  have run: "strncpy dest src n s = rbind (fill_zero ?m ?d (n - ?l)) (\<lambda>m. Inr (s\<lparr>vmem := m\<rparr>))"
    using copy_bounded_ok [OF assms(1-3)] assms(4) False by (simp add: strncpy_def del: of_nat_Suc)
  have at: "?d + of_nat i = dest + of_nat (Suc ?l + i)" for i by simp
  have mp: "mapped ?m ?d (n - ?l - 1)"
    unfolding mapped_def
  proof (intro allI impI)
    fix i
    assume "i < n - ?l - 1"
    then have "vmem s (dest + of_nat (Suc ?l + i)) \<noteq> None" using assms(2) unfolding mapped_def by (simp del: of_nat_Suc of_nat_add)
    then show "?m (?d + of_nat i) \<noteq> None" unfolding at by (simp add: mem_upd_def)
  qed
  have last: "?d + of_nat (n - ?l - 1) = dest + of_nat n" unfolding at using False by simp
  have same: "?m (dest + of_nat n) = vmem s (dest + of_nat n)"
    using assms(4) False by (simp add: mem_upd_def)
  show ?thesis
  proof (cases "vmem s (dest + of_nat n)")
    case None
    then have "fill_zero ?m ?d (n - ?l) = Inl (PageFault (?d + of_nat (n - ?l - 1)))"
      using False assms(4) same last by (intro fill_zero_faults mp) (simp_all del: of_nat_Suc)
    then show ?thesis using None False last by (simp add: run del: of_nat_Suc)
  next
    case (Some b)
    have "mapped ?m ?d (n - ?l)"
      unfolding mapped_def
    proof (intro allI impI)
      fix i
      assume "i < n - ?l"
      then consider "i < n - ?l - 1" | "i = n - ?l - 1" by linarith
      then show "?m (?d + of_nat i) \<noteq> None"
      proof cases
        case 1
        then show ?thesis using mp unfolding mapped_def by blast
      next
        case 2
        then show ?thesis using same Some by (simp only: last) simp
      qed
    qed
    then have "fill_zero ?m ?d (n - ?l) = Inr (mem_upd ?m ?d (replicate (n - ?l) 0))"
      using assms(4) by (intro fill_zero_ok) simp_all
    also have "mem_upd ?m ?d (replicate (n - ?l) 0) = mem_upd (vmem s) dest ((cs @ [0]) @ replicate (n - ?l) 0)"
      using mem_upd_append [of "cs @ [0]" "replicate (n - ?l) 0" "vmem s" dest] assms(4) False by simp
    also have "(cs @ [0]) @ replicate (n - ?l) 0 = cs @ replicate (Suc n - ?l) 0"
      using False by (simp add: Suc_diff_le)
    finally show ?thesis using Some False by (simp add: run)
  qed
qed

definition text_memory :: memory where
  "text_memory = (\<lambda>a. if unat a < 16 then Some (([72, 101, 108, 108, 111, 0] @ replicate 10 7) ! unat a) else None)"

theorem strncpy_overflows_witness:
  "strncpy 8 3 4 \<lparr>vmem = text_memory, ports = []\<rparr> =
     Inr \<lparr>vmem = mem_upd text_memory 8 [108, 111, 0, 0, 0], ports = []\<rparr> \<and>
   strncpy 8 0 4 \<lparr>vmem = text_memory, ports = []\<rparr> =
     Inr \<lparr>vmem = mem_upd text_memory 8 [72, 101, 108, 108], ports = []\<rparr> \<and>
   strncpy 8 3 8 \<lparr>vmem = text_memory, ports = []\<rparr> = Inl (PageFault 16)"
proof -
  have s: "string_at text_memory 3 [108, 111]" "string_at text_memory 0 [72, 101, 108, 108, 111]"
    by (simp_all add: text_memory_def)
  have m: "mapped text_memory 8 n" if "n \<le> 8" for n
    unfolding mapped_def text_memory_def using that by (auto simp: unat_add_of_nat)
  have d: "disjoint_bytes 8 n p k" if "unat p + k \<le> 8" "n \<le> 8" for n k p
    unfolding disjoint_bytes_def
  proof (intro allI impI)
    fix i j
    assume "i < k" "j < n"
    then have "unat (p + of_nat i) = unat p + i" "unat (8 + of_nat j :: u64) = 8 + j"
      using that by (simp_all add: unat_add_of_nat)
    then show "p + of_nat i \<noteq> 8 + of_nat j" using that \<open>i < k\<close> by (metis add_less_le_mono leD le_add1 le_trans nat_add_left_cancel_less)
  qed
  let ?s = "\<lparr>vmem = text_memory, ports = []\<rparr>"
  have r: "replicate 3 (0 :: u8) = [0, 0, 0]" by (simp add: numeral_3_eq_3)
  show ?thesis
    using strncpy_overflows [of ?s 3 "[108, 111]" 8 4] strncpy_overflows [of ?s 0 "[72, 101, 108, 108, 111]" 8 4]
      strncpy_overflows [of ?s 3 "[108, 111]" 8 8] s m d
    by (simp add: r) (simp add: text_memory_def)
qed

text \<open>\<open>strstr\<close> finds the first occurrence of a string: the address of the first position
  at which the needle starts, and NULL exactly when it occurs nowhere.\<close>

theorem strstr_first:
  assumes "string_at (vmem s) haystack hs" "string_at (vmem s) needle nd" "length hs < n" "length nd < n" "n < 2 ^ 64"
  shows "strstr n haystack needle s = Inr 0 \<and> \<not> sublist nd hs \<or>
    (\<exists>i \<le> length hs. strstr n haystack needle s = Inr (haystack + of_nat i) \<and> prefix nd (drop i hs) \<and>
       (\<forall>j < i. \<not> prefix nd (drop j hs)))"
proof (cases nd)
  case Nil
  then show ?thesis using assms(2) by (auto simp: strstr_def rd8_def)
next
  case (Cons c cs)
  have "strstr n haystack needle s = strstr_loop n (vmem s) haystack needle (unat (of_nat (length nd) :: u64))"
    using assms(2,4) Cons strlen_string [OF assms(2,4)] by (simp add: strstr_def rd8_def)
  also have "unat (of_nat (length nd) :: u64) = length nd" using assms(4,5) by (intro unat_of_nat_lt) simp
  finally have run: "strstr n haystack needle s =
      Inr (case first_match nd hs of None \<Rightarrow> 0 | Some i \<Rightarrow> haystack + of_nat i)"
    using strstr_string [OF assms(2) _ assms(1,3)] Cons by simp
  show ?thesis
  proof (cases "first_match nd hs")
    case None
    then show ?thesis using run first_match_None [of nd hs] by simp
  next
    case (Some i)
    then show ?thesis using run first_match_Some [OF Some] by auto
  qed
qed

theorem strstr_first_witness:
  "strstr 9 0 3 \<lparr>vmem = text_memory, ports = []\<rparr> = Inr 3 \<and> \<not> sublist [108, 111] [72, 101, 108 :: u8]"
proof -
  let ?s = "\<lparr>vmem = text_memory, ports = []\<rparr>" and ?hs = "[72, 101, 108, 108, 111] :: u8 list"
  have s: "string_at text_memory 3 [108, 111]" "string_at text_memory 0 ?hs" by (simp_all add: text_memory_def)
  have "?hs = [72, 101, 108] @ [108, 111] @ []" by simp
  then have "sublist [108, 111] ?hs" unfolding sublist_def by blast
  moreover have "strstr 9 0 3 ?s = Inr 0 \<and> \<not> sublist [108, 111] ?hs \<or>
      (\<exists>i \<le> length ?hs. strstr 9 0 3 ?s = Inr (0 + of_nat i) \<and> prefix [108, 111] (drop i ?hs) \<and>
         (\<forall>j < i. \<not> prefix [108, 111] (drop j ?hs)))"
    by (rule strstr_first) (use s in simp_all)
  ultimately obtain i where i: "i \<le> length ?hs" "strstr 9 0 3 ?s = Inr (0 + of_nat i)" "prefix [108, 111] (drop i ?hs)"
    by blast
  have "i = 3" using i(1,3) by (auto simp: le_Suc_eq drop_Cons')
  moreover have "\<not> sublist [108, 111] [72, 101, 108 :: u8]" by (simp add: sublist_Cons_right)
  ultimately show ?thesis using i(2) by simp
qed


end
