(* ===== verification/Serial.thy ===== *)
theory Serial
  imports Machine Stdlib
begin

text \<open>
  \<open>kernel/drivers/serial.c\<close>: the UART on the debug port.  Writing a character polls
  the line status until the transmitter is empty; the UART is the device parameter.
\<close>

definition SERIAL_COM1 :: u16 where "SERIAL_COM1 = 0x3F8"

definition serial_init :: "device \<Rightarrow> u16 \<Rightarrow> 'a machine_scheme \<Rightarrow> 'a machine_scheme" where
  "serial_init dev port s =
     (let s = outb (port + 1) 0x00 s;
          s = outb (port + 3) 0x80 s;
          s = outb (port + 0) 0x03 s;
          s = outb (port + 1) 0x00 s;
          s = outb (port + 3) 0x03 s;
          s = outb (port + 2) 0xC7 s;
          s = outb (port + 4) 0x0B s;
          s = outb (port + 4) 0x1E s;
          s = outb (port + 0) 0xAE s;
          (v, s) = inb dev (port + 0) s
      in if v \<noteq> 0xAE then s else outb (port + 4) 0x0F s)"

text \<open>The test of the poll in \<open>serial_putchar\<close>.\<close>

definition serial_transmit_empty :: "u8 \<Rightarrow> bool" where
  "serial_transmit_empty lsr \<longleftrightarrow> lsr AND 0x20 \<noteq> 0"

definition serial_putchar :: "device \<Rightarrow> nat \<Rightarrow> u16 \<Rightarrow> u8 \<Rightarrow> 'a machine_scheme \<Rightarrow> 'a machine_scheme res" where
  "serial_putchar dev n port c s =
     rbind (spin dev n (port + 5) serial_transmit_empty s) (\<lambda>s. Inr (outb port c s))"

fun serial_puts :: "device \<Rightarrow> nat \<Rightarrow> u16 \<Rightarrow> cstring \<Rightarrow> 'a machine_scheme \<Rightarrow> 'a machine_scheme res" where
  "serial_puts dev n port [] s = Inr s"
| "serial_puts dev n port (c # cs) s =
     rbind (if c = 10 then serial_putchar dev n port 13 s else Inr s) (\<lambda>s.
     rbind (serial_putchar dev n port c s) (\<lambda>s. serial_puts dev n port cs s))"

definition serial_put_hex :: "device \<Rightarrow> nat \<Rightarrow> u16 \<Rightarrow> u64 \<Rightarrow> 'a machine_scheme \<Rightarrow> 'a machine_scheme res" where
  "serial_put_hex dev n port value s =
     rbind (serial_puts dev n port (str ''0x'') s) (\<lambda>s.
     serial_puts dev n port (ultoa value 16) s)"

definition serial_received :: "u8 \<Rightarrow> bool" where
  "serial_received lsr \<longleftrightarrow> lsr AND 1 \<noteq> 0"

definition serial_getchar :: "device \<Rightarrow> nat \<Rightarrow> u16 \<Rightarrow> 'a machine_scheme \<Rightarrow> (u8 \<times> 'a machine_scheme) res" where
  "serial_getchar dev n port s =
     rbind (spin dev n (port + 5) serial_received s) (\<lambda>s. Inr (inb dev port s))"

section \<open>What a log line changes\<close>

lemma serial_putchar_ports: "serial_putchar dev n port c s = Inr s' \<Longrightarrow> ports_only s s'"
  by (auto simp: serial_putchar_def rbind_eq_Inr dest: spin_ports_only)

lemma serial_puts_ports: "serial_puts dev n port cs s = Inr s' \<Longrightarrow> ports_only s s'"
proof (induction cs arbitrary: s)
  case Nil
  then show ?case by simp
next
  case (Cons c cs)
  then obtain t u where "ports_only s t" "serial_putchar dev n port c t = Inr u"
    "serial_puts dev n port cs u = Inr s'"
    by (auto simp: rbind_eq_Inr split: if_splits dest: serial_putchar_ports)
  with Cons.IH show ?case by (meson serial_putchar_ports ports_only_trans)
qed

lemma serial_put_hex_ports: "serial_put_hex dev n port v s = Inr s' \<Longrightarrow> ports_only s s'"
  by (auto simp: serial_put_hex_def rbind_eq_Inr dest!: serial_puts_ports intro: ports_only_trans)

text \<open>On a UART that is always ready the bytes arrive in order, a newline as CR LF.\<close>

definition uart_ready :: device where
  "uart_ready h p = 0x20"

fun sent :: "io list \<Rightarrow> u16 \<Rightarrow> u8 list" where
  "sent [] port = []"
| "sent (Out p v # h) port = (if p = port then sent h port @ [ucast v] else sent h port)"
| "sent (In p # h) port = sent h port"

fun crlf :: "cstring \<Rightarrow> cstring" where
  "crlf [] = []"
| "crlf (c # cs) = (if c = 10 then [13, 10] else [c]) @ crlf cs"

definition uart_answers :: "device \<Rightarrow> u16 \<Rightarrow> bool" where
  "uart_answers dev port \<longleftrightarrow> (\<forall>h. serial_transmit_empty (ucast (dev h (port + 5))))"

lemma uart_ready_answers [simp]: "uart_answers uart_ready port"
  by (simp add: uart_answers_def uart_ready_def serial_transmit_empty_def)

lemma serial_putchar_ready:
  assumes "uart_answers dev port" "0 < n"
  shows "serial_putchar dev n port c s = Inr (s\<lparr>ports := Out port (ucast c) # In (port + 5) # ports s\<rparr>)"
  using assms spin_ready [of serial_transmit_empty dev s "port + 5" n]
  by (simp add: serial_putchar_def uart_answers_def outb_def)

lemma serial_puts_ready:
  assumes "uart_answers dev port" "0 < n"
  shows "\<exists>s'. serial_puts dev n port cs s = Inr s' \<and> ports_only s s' \<and>
    sent (ports s') port = sent (ports s) port @ crlf cs"
proof (induction cs arbitrary: s)
  case Nil
  show ?case by simp
next
  case (Cons c cs)
  let ?put = "\<lambda>c s. s\<lparr>ports := Out port (ucast (c :: u8)) # In (port + 5) # ports s\<rparr>"
  let ?t = "?put c (if c = 10 then ?put 13 s else s)"
  have u: "ucast (ucast c :: u32) = c" for c :: u8 by (rule bit_word_eqI) (simp add: bit_simps)
  obtain s' where s': "serial_puts dev n port cs ?t = Inr s'" "ports_only ?t s'"
    "sent (ports s') port = sent (ports ?t) port @ crlf cs"
    using Cons.IH by blast
  have "ports_only s s'" using s'(2) by (rule ports_only_trans [rotated]) simp
  then show ?case
    using s' by (simp add: serial_putchar_ready [OF assms] u split: if_splits)
qed

lemma serial_put_hex_ready:
  assumes "uart_answers dev port" "0 < n"
  shows "\<exists>s'. serial_put_hex dev n port v s = Inr s' \<and> ports_only s s'"
proof -
  obtain t u where "serial_puts dev n port (str ''0x'') s = Inr t" "ports_only s t"
    "serial_puts dev n port (ultoa v 16) t = Inr u" "ports_only t u"
    using serial_puts_ready [OF assms] by metis
  then show ?thesis by (auto simp: serial_put_hex_def intro: ports_only_trans)
qed

text \<open>On a UART whose transmitter drains, a log line is sent completely, its bytes in order
  and every newline as carriage return and line feed, and nothing but the port history
  changes.\<close>

theorem serial_puts_sent:
  assumes "uart_answers dev port" "0 < n"
  shows "\<exists>s'. serial_puts dev n port cs s = Inr s' \<and> ports_only s s' \<and>
    sent (ports s') port = sent (ports s) port @ crlf cs"
  by (rule serial_puts_ready [OF assms])

theorem serial_puts_sent_witness:
  "\<exists>s'. serial_puts uart_ready 1 SERIAL_COM1 (str ''a\<newline>'')
       \<lparr>vmem = Map.empty, ports = []\<rparr> = Inr s' \<and> sent (ports s') SERIAL_COM1 = [97, 13, 10]"
  using serial_puts_sent [OF uart_ready_answers, of 1 SERIAL_COM1 "str ''a\<newline>''"
      "\<lparr>vmem = Map.empty, ports = []\<rparr>"]
  by (auto simp: str_def)

end
