(* ===== verification/Vga.thy ===== *)
theory Vga
  imports Serial
begin

text \<open>
  \<open>kernel/drivers/vga.c\<close>: the text screen.  The video memory is a function from cell
  indices to cells, so that a write outside the 80 by 25 screen would show as a change
  there; the cursor registers of the CRT controller are port writes.
\<close>

datatype vga_color_t =
    VGA_COLOR_BLACK | VGA_COLOR_BLUE | VGA_COLOR_GREEN | VGA_COLOR_CYAN
  | VGA_COLOR_RED | VGA_COLOR_MAGENTA | VGA_COLOR_BROWN | VGA_COLOR_LIGHT_GREY
  | VGA_COLOR_DARK_GREY | VGA_COLOR_LIGHT_BLUE | VGA_COLOR_LIGHT_GREEN | VGA_COLOR_LIGHT_CYAN
  | VGA_COLOR_LIGHT_RED | VGA_COLOR_LIGHT_MAGENTA | VGA_COLOR_YELLOW | VGA_COLOR_WHITE

fun color_code :: "vga_color_t \<Rightarrow> u8" where
  "color_code VGA_COLOR_BLACK = 0" | "color_code VGA_COLOR_BLUE = 1"
| "color_code VGA_COLOR_GREEN = 2" | "color_code VGA_COLOR_CYAN = 3"
| "color_code VGA_COLOR_RED = 4" | "color_code VGA_COLOR_MAGENTA = 5"
| "color_code VGA_COLOR_BROWN = 6" | "color_code VGA_COLOR_LIGHT_GREY = 7"
| "color_code VGA_COLOR_DARK_GREY = 8" | "color_code VGA_COLOR_LIGHT_BLUE = 9"
| "color_code VGA_COLOR_LIGHT_GREEN = 10" | "color_code VGA_COLOR_LIGHT_CYAN = 11"
| "color_code VGA_COLOR_LIGHT_RED = 12" | "color_code VGA_COLOR_LIGHT_MAGENTA = 13"
| "color_code VGA_COLOR_YELLOW = 14" | "color_code VGA_COLOR_WHITE = 15"

abbreviation VGA_WIDTH :: int where "VGA_WIDTH \<equiv> 80"
abbreviation VGA_HEIGHT :: int where "VGA_HEIGHT \<equiv> 25"

record vga = machine +
  vga_buffer :: "int \<Rightarrow> u16"
  vga_row :: int
  vga_col :: int
  vga_attrib :: u8

text \<open>The static initialisers: memory given, the screen whatever the boot code left.\<close>

definition vga_boot :: "memory \<Rightarrow> vga" where
  "vga_boot m = \<lparr>vmem = m, ports = [], vga_buffer = (\<lambda>_. 0), vga_row = 0, vga_col = 0,
     vga_attrib = 0\<rparr>"

definition vga_entry :: "u8 \<Rightarrow> u8 \<Rightarrow> u16" where
  "vga_entry c color = scast c OR push_bit 8 (ucast color)"

definition vga_color :: "vga_color_t \<Rightarrow> vga_color_t \<Rightarrow> u8" where
  "vga_color fg bg = color_code fg OR push_bit 4 (color_code bg)"

definition update_cursor :: "'a vga_scheme \<Rightarrow> 'a vga_scheme" where
  "update_cursor s =
     (let pos = word_of_int (vga_row s * VGA_WIDTH + vga_col s) :: u16;
          s = outb 0x3D4 0x0F s;
          s = outb 0x3D5 (ucast (pos AND 0xFF)) s;
          s = outb 0x3D4 0x0E s
      in outb 0x3D5 (ucast (drop_bit 8 pos AND 0xFF)) s)"

definition vga_clear :: "'a vga_scheme \<Rightarrow> 'a vga_scheme" where
  "vga_clear s =
     (let blank = vga_entry 32 (vga_attrib s);
          s = s\<lparr>vga_buffer := \<lambda>i. if 0 \<le> i \<and> i < VGA_WIDTH * VGA_HEIGHT then blank
                               else vga_buffer s i\<rparr>;
          s = s\<lparr>vga_row := 0\<rparr>;
          s = s\<lparr>vga_col := 0\<rparr>
      in update_cursor s)"

definition vga_set_color :: "vga_color_t \<Rightarrow> vga_color_t \<Rightarrow> 'a vga_scheme \<Rightarrow> 'a vga_scheme" where
  "vga_set_color fg bg s = s\<lparr>vga_attrib := vga_color fg bg\<rparr>"

definition vga_init :: "device \<Rightarrow> 'a vga_scheme \<Rightarrow> 'a vga_scheme" where
  "vga_init dev s =
     (let s = s\<lparr>vga_attrib := vga_color VGA_COLOR_LIGHT_GREY VGA_COLOR_BLACK\<rparr>;
          s = vga_clear s;
          s = outb 0x3D4 0x0A s;
          (v, s) = inb dev 0x3D5 s;
          s = outb 0x3D5 ((v AND 0xC0) OR 14) s;
          s = outb 0x3D4 0x0B s;
          (v, s) = inb dev 0x3D5 s
      in outb 0x3D5 ((v AND 0xE0) OR 15) s)"

text \<open>
  \<open>vga_scroll\<close> moves 24 rows up by one with \<open>memmove\<close> (source and destination
  overlap, the copy is as if through a temporary) and blanks the last row.
\<close>

definition vga_scroll :: "'a vga_scheme \<Rightarrow> 'a vga_scheme" where
  "vga_scroll s =
     (if vga_row s < VGA_HEIGHT then s
      else
        let b = vga_buffer s;
            moved = (\<lambda>i. if 0 \<le> i \<and> i < VGA_WIDTH * (VGA_HEIGHT - 1) then b (i + VGA_WIDTH) else b i);
            blank = vga_entry 32 (vga_attrib s);
            cleared = (\<lambda>i. if (VGA_HEIGHT - 1) * VGA_WIDTH \<le> i
                             \<and> i < (VGA_HEIGHT - 1) * VGA_WIDTH + VGA_WIDTH
                           then blank else moved i)
        in s\<lparr>vga_buffer := cleared, vga_row := VGA_HEIGHT - 1\<rparr>)"

definition put_cell :: "int \<Rightarrow> u16 \<Rightarrow> 'a vga_scheme \<Rightarrow> 'a vga_scheme" where
  "put_cell i v s = s\<lparr>vga_buffer := (vga_buffer s)(i := v)\<rparr>"

definition vga_putchar :: "u8 \<Rightarrow> 'a vga_scheme \<Rightarrow> 'a vga_scheme" where
  "vga_putchar c s =
     (let s =
        (if c = 10 then s\<lparr>vga_col := 0, vga_row := vga_row s + 1\<rparr>
         else if c = 13 then s\<lparr>vga_col := 0\<rparr>
         else if c = 9 then
           (let s = s\<lparr>vga_col := (vga_col s + 8) AND NOT 7\<rparr>
            in if vga_col s \<ge> VGA_WIDTH then s\<lparr>vga_col := 0, vga_row := vga_row s + 1\<rparr> else s)
         else if c = 8 then
           (if vga_col s > 0 then
              (let s = s\<lparr>vga_col := vga_col s - 1\<rparr>
               in put_cell (vga_row s * VGA_WIDTH + vga_col s) (vga_entry 32 (vga_attrib s)) s)
            else s)
         else if sint c \<ge> 32 then
           (let s = put_cell (vga_row s * VGA_WIDTH + vga_col s) (vga_entry c (vga_attrib s)) s;
                s = s\<lparr>vga_col := vga_col s + 1\<rparr>
            in if vga_col s \<ge> VGA_WIDTH then s\<lparr>vga_col := 0, vga_row := vga_row s + 1\<rparr> else s)
         else s);
        s = (if vga_row s \<ge> VGA_HEIGHT then vga_scroll s else s)
      in update_cursor s)"

fun vga_puts :: "cstring \<Rightarrow> 'a vga_scheme \<Rightarrow> 'a vga_scheme" where
  "vga_puts [] s = s"
| "vga_puts (c # cs) s = vga_puts cs (vga_putchar c s)"

definition vga_put_hex :: "u64 \<Rightarrow> 'a vga_scheme \<Rightarrow> 'a vga_scheme" where
  "vga_put_hex value s =
     (let s = vga_puts (str ''0x'') s;
          buf = ultoa value 16;
          s = vga_puts (replicate (16 - length buf) 48) s
      in vga_puts buf s)"

definition vga_put_dec :: "u64 \<Rightarrow> 'a vga_scheme \<Rightarrow> 'a vga_scheme" where
  "vga_put_dec value s = vga_puts (ultoa value 10) s"

definition vga_set_cursor :: "int \<Rightarrow> int \<Rightarrow> 'a vga_scheme \<Rightarrow> 'a vga_scheme" where
  "vga_set_cursor x y s =
     (let s = (if x \<ge> 0 \<and> x < VGA_WIDTH then s\<lparr>vga_col := x\<rparr> else s);
          s = (if y \<ge> 0 \<and> y < VGA_HEIGHT then s\<lparr>vga_row := y\<rparr> else s)
      in update_cursor s)"

definition vga_put_at :: "int \<Rightarrow> int \<Rightarrow> u8 \<Rightarrow> u8 \<Rightarrow> 'a vga_scheme \<Rightarrow> 'a vga_scheme" where
  "vga_put_at x y c color s =
     (if x \<ge> 0 \<and> x < VGA_WIDTH \<and> y \<ge> 0 \<and> y < VGA_HEIGHT
      then put_cell (y * VGA_WIDTH + x) (vga_entry c color) s else s)"

definition vga_get_row :: "'a vga_scheme \<Rightarrow> int" where "vga_get_row s = vga_row s"
definition vga_get_col :: "'a vga_scheme \<Rightarrow> int" where "vga_get_col s = vga_col s"

section \<open>What the screen functions leave alone\<close>

text \<open>
  \<open>vga_only s s'\<close>: from \<open>s\<close> to \<open>s'\<close> only the screen and the port history may have
  changed.  Components above use it to see that printing touches none of their state.
\<close>

definition vga_only :: "'a vga_scheme \<Rightarrow> 'a vga_scheme \<Rightarrow> bool" where
  "vga_only s s' \<longleftrightarrow> vmem s' = vmem s \<and> vga.more s' = vga.more s"

lemma vga_only_refl [simp, intro]: "vga_only s s"
  by (simp add: vga_only_def)

lemma vga_only_trans [trans]: "vga_only s s' \<Longrightarrow> vga_only s' s'' \<Longrightarrow> vga_only s s''"
  by (simp add: vga_only_def)

lemma vga_only_upd [intro!]:
  assumes "vga_only s t"
  shows "vga_only s (t\<lparr>ports := h\<rparr>)" "vga_only s (t\<lparr>vga_buffer := b\<rparr>)"
    "vga_only s (t\<lparr>vga_row := r\<rparr>)" "vga_only s (t\<lparr>vga_col := c\<rparr>)"
    "vga_only s (t\<lparr>vga_attrib := a\<rparr>)"
  using assms by (simp_all add: vga_only_def)

lemma vga_only_eq:
  "vga_only s s' \<Longrightarrow>
     s' = s\<lparr>ports := ports s', vga_buffer := vga_buffer s', vga_row := vga_row s',
            vga_col := vga_col s', vga_attrib := vga_attrib s'\<rparr>"
  by (cases s, cases s') (simp add: vga_only_def)

lemma vga_only_update_cursor [intro!]: "vga_only s t \<Longrightarrow> vga_only s (update_cursor t)"
  by (auto simp: update_cursor_def outb_def Let_def)

lemma vga_only_put_cell [intro!]: "vga_only s t \<Longrightarrow> vga_only s (put_cell i v t)"
  by (auto simp: put_cell_def)

lemma vga_only_clear [intro!]: "vga_only s t \<Longrightarrow> vga_only s (vga_clear t)"
  by (auto simp: vga_clear_def Let_def)

lemma vga_only_set_color [intro!]: "vga_only s t \<Longrightarrow> vga_only s (vga_set_color fg bg t)"
  by (auto simp: vga_set_color_def)

lemma vga_only_scroll [intro!]: "vga_only s t \<Longrightarrow> vga_only s (vga_scroll t)"
  by (auto simp: vga_scroll_def Let_def)

lemma vga_only_putchar [intro!]: "vga_only s t \<Longrightarrow> vga_only s (vga_putchar c t)"
  unfolding vga_putchar_def Let_def by (auto simp del: not_le)

lemma vga_only_puts [intro!]: "vga_only s t \<Longrightarrow> vga_only s (vga_puts cs t)"
  by (induction cs arbitrary: t) auto

lemma vga_only_put_hex [intro!]: "vga_only s t \<Longrightarrow> vga_only s (vga_put_hex v t)"
  by (auto simp: vga_put_hex_def Let_def)

lemma vga_only_vmem: "vga_only s s' \<Longrightarrow> vmem s' = vmem s"
  by (simp add: vga_only_def)

lemma vga_vmem [simp]:
  "vmem (vga_putchar c s) = vmem s" "vmem (vga_puts cs s) = vmem s"
  "vmem (vga_put_hex v s) = vmem s" "vmem (vga_clear s) = vmem s"
  "vmem (vga_set_color fg bg s) = vmem s"
  by (rule vga_only_vmem; blast)+

section \<open>The cursor stays on the screen, and so do the writes\<close>

definition cursor_ok :: "'a vga_scheme \<Rightarrow> bool" where
  "cursor_ok s \<longleftrightarrow> 0 \<le> vga_row s \<and> vga_row s < VGA_HEIGHT \<and> 0 \<le> vga_col s \<and> vga_col s < VGA_WIDTH"

definition on_screen :: "int \<Rightarrow> bool" where
  "on_screen i \<longleftrightarrow> 0 \<le> i \<and> i < VGA_WIDTH * VGA_HEIGHT"

definition same_outside :: "'a vga_scheme \<Rightarrow> 'a vga_scheme \<Rightarrow> bool" where
  "same_outside s s' \<longleftrightarrow> (\<forall>i. \<not> on_screen i \<longrightarrow> vga_buffer s' i = vga_buffer s i)"

lemma update_cursor_fields [simp]:
  "vga_row (update_cursor s) = vga_row s" "vga_col (update_cursor s) = vga_col s"
  "vga_buffer (update_cursor s) = vga_buffer s" "vga_attrib (update_cursor s) = vga_attrib s"
  by (simp_all add: update_cursor_def outb_def Let_def)

lemma tab_stop: "0 \<le> c \<Longrightarrow> c < 80 \<Longrightarrow> 0 \<le> (c + 8 :: int) AND NOT 7"
  by (simp add: and_nonnegative_int_iff)

lemma vga_putchar_ok:
  assumes "cursor_ok s"
  shows "cursor_ok (vga_putchar c s)" and "same_outside s (vga_putchar c s)"
  using assms tab_stop [of "vga_col s"]
  by (auto simp: vga_putchar_def vga_scroll_def put_cell_def cursor_ok_def same_outside_def
      on_screen_def Let_def)

text \<open>Printing any string from a cursor on the screen leaves the cursor on the screen and
  writes no cell outside the 80 by 25 cells of the video memory.\<close>

theorem vga_puts_on_screen:
  assumes "cursor_ok s"
  shows "cursor_ok (vga_puts cs s) \<and> same_outside s (vga_puts cs s)"
  using assms
proof (induction cs arbitrary: s)
  case Nil
  then show ?case by (simp add: same_outside_def)
next
  case (Cons c cs)
  show ?case
    using Cons.IH [of "vga_putchar c s"] vga_putchar_ok [OF Cons.prems, of c]
    by (auto simp: same_outside_def)
qed

theorem vga_puts_on_screen_witness:
  "cursor_ok (vga_puts (str ''> '') ((vga_boot Map.empty)\<lparr>vga_row := 24, vga_col := 79\<rparr>))"
  by (rule conjunct1, rule vga_puts_on_screen) (simp add: vga_boot_def cursor_ok_def)

section \<open>What appears on the screen\<close>

text \<open>A printable character that does not reach the end of the row is written at the cursor.\<close>

lemma vga_putchar_printable:
  assumes "cursor_ok s" "sint c \<ge> 32" "vga_col s + 1 < VGA_WIDTH"
  shows "vga_buffer (vga_putchar c s) =
           (vga_buffer s)(vga_row s * VGA_WIDTH + vga_col s := vga_entry c (vga_attrib s))"
    and "vga_row (vga_putchar c s) = vga_row s"
    and "vga_col (vga_putchar c s) = vga_col s + 1"
    and "vga_attrib (vga_putchar c s) = vga_attrib s"
proof -
  have "c \<noteq> 10" "c \<noteq> 13" "c \<noteq> 9" "c \<noteq> 8" using assms(2) by auto
  with assms show "vga_buffer (vga_putchar c s) =
           (vga_buffer s)(vga_row s * VGA_WIDTH + vga_col s := vga_entry c (vga_attrib s))"
    and "vga_row (vga_putchar c s) = vga_row s"
    and "vga_col (vga_putchar c s) = vga_col s + 1"
    and "vga_attrib (vga_putchar c s) = vga_attrib s"
    by (simp_all add: vga_putchar_def put_cell_def cursor_ok_def Let_def)
qed

lemma vga_puts_line_aux:
  assumes "cursor_ok s" "\<forall>c \<in> set cs. sint c \<ge> 32" "vga_col s + int (length cs) < VGA_WIDTH"
  shows "vga_row (vga_puts cs s) = vga_row s"
    and "vga_col (vga_puts cs s) = vga_col s + int (length cs)"
    and "\<forall>i. vga_buffer (vga_puts cs s) i =
       (let k = i - (vga_row s * VGA_WIDTH + vga_col s)
        in if 0 \<le> k \<and> k < int (length cs) then vga_entry (cs ! nat k) (vga_attrib s)
           else vga_buffer s i)"
proof -
  have "vga_row (vga_puts cs s) = vga_row s \<and> vga_col (vga_puts cs s) = vga_col s + int (length cs) \<and>
    (\<forall>i. vga_buffer (vga_puts cs s) i =
       (let k = i - (vga_row s * VGA_WIDTH + vga_col s)
        in if 0 \<le> k \<and> k < int (length cs) then vga_entry (cs ! nat k) (vga_attrib s)
           else vga_buffer s i))"
    using assms
  proof (induction cs arbitrary: s)
    case Nil
    then show ?case by (auto simp: Let_def)
  next
    case (Cons c cs)
    have col: "vga_col s + 1 < VGA_WIDTH" using Cons.prems(3) by simp
    note p = vga_putchar_printable [OF Cons.prems(1) _ col, of c]
    have "cursor_ok (vga_putchar c s)" by (rule vga_putchar_ok(1) [OF Cons.prems(1)])
    moreover have "nat (i - (k + (j + 1))) = nat (i - (k + j)) - Suc 0" for i k j :: int by arith
    ultimately show ?case
      using Cons.IH [of "vga_putchar c s"] Cons.prems p
      by (auto simp: Let_def nth_Cons')
  qed
  then show "vga_row (vga_puts cs s) = vga_row s"
    and "vga_col (vga_puts cs s) = vga_col s + int (length cs)"
    and "\<forall>i. vga_buffer (vga_puts cs s) i =
       (let k = i - (vga_row s * VGA_WIDTH + vga_col s)
        in if 0 \<le> k \<and> k < int (length cs) then vga_entry (cs ! nat k) (vga_attrib s)
           else vga_buffer s i)" by blast+
qed

text \<open>A string of printable characters that fits on the rest of the cursor's row appears
  there, character by character in the current colour, and the cursor ends behind it;
  every other cell keeps its contents.\<close>

theorem vga_puts_line:
  assumes "cursor_ok s" "\<forall>c \<in> set cs. sint c \<ge> 32" "vga_col s + int (length cs) < VGA_WIDTH"
  shows "vga_row (vga_puts cs s) = vga_row s \<and> vga_col (vga_puts cs s) = vga_col s + int (length cs) \<and>
    (\<forall>i. vga_buffer (vga_puts cs s) i =
       (let k = i - (vga_row s * VGA_WIDTH + vga_col s)
        in if 0 \<le> k \<and> k < int (length cs) then vga_entry (cs ! nat k) (vga_attrib s)
           else vga_buffer s i))"
  using vga_puts_line_aux [OF assms] by blast

theorem vga_puts_line_witness:
  "vga_buffer (vga_puts (str ''ok'') (vga_boot Map.empty)) 1 = vga_entry 107 0"
  using vga_puts_line [of "vga_boot Map.empty" "str ''ok''"]
  by (simp add: vga_boot_def cursor_ok_def str_def Let_def)

text \<open>A newline on the last row scrolls: every row shows what the row below it showed, the
  last row is blank in the current colour, and the cursor is at its start.\<close>

theorem vga_newline_scrolls:
  assumes "vga_row s = VGA_HEIGHT - 1" "0 \<le> r" "r < VGA_HEIGHT" "0 \<le> x" "x < VGA_WIDTH"
  shows "vga_buffer (vga_putchar 10 s) (r * VGA_WIDTH + x) =
           (if r < VGA_HEIGHT - 1 then vga_buffer s ((r + 1) * VGA_WIDTH + x)
            else vga_entry 32 (vga_attrib s))
    \<and> vga_row (vga_putchar 10 s) = VGA_HEIGHT - 1 \<and> vga_col (vga_putchar 10 s) = 0"
  using assms by (auto simp: vga_putchar_def vga_scroll_def Let_def algebra_simps)

theorem vga_newline_scrolls_witness:
  "vga_buffer (vga_putchar 10 ((vga_boot Map.empty)\<lparr>vga_row := 24, vga_buffer := word_of_int\<rparr>)) 0 = 80"
  using vga_newline_scrolls [of "(vga_boot Map.empty)\<lparr>vga_row := 24, vga_buffer := word_of_int\<rparr>" 0 0]
  by (simp add: vga_boot_def)

end
