(* ===== verification/Timer.thy ===== *)
theory Timer
  imports Vga
begin

text \<open>
  \<open>kernel/drivers/timer.c\<close>: the PIT driver and the tick counter \<open>kernel_ticks\<close> that
  \<open>kernel.c\<close> defines.  \<open>timer_wait\<close> sleeps with \<open>hlt\<close>; every wake-up in the model is
  the timer interrupt itself.
\<close>

definition PIT_FREQUENCY :: u32 where "PIT_FREQUENCY = 1193182"

record timer = vga +
  kernel_ticks :: u64

definition timer_handler_c :: "'a timer_scheme \<Rightarrow> 'a timer_scheme" where
  "timer_handler_c s = s\<lparr>kernel_ticks := kernel_ticks s + 1\<rparr>"

definition timer_init :: "u32 \<Rightarrow> 'a timer_scheme \<Rightarrow> 'a timer_scheme" where
  "timer_init frequency s =
     (let frequency = (if frequency = 0 then 100 else frequency);
          divisor = PIT_FREQUENCY div frequency;
          s = outb 0x43 0x36 s;
          s = outb 0x40 (ucast (divisor AND 0xFF)) s
      in outb 0x40 (ucast (drop_bit 8 divisor AND 0xFF)) s)"

definition timer_get_ticks :: "'a timer_scheme \<Rightarrow> u64" where
  "timer_get_ticks s = kernel_ticks s"

fun wait_until :: "nat \<Rightarrow> u64 \<Rightarrow> 'a timer_scheme \<Rightarrow> 'a timer_scheme res" where
  "wait_until 0 target s = (if kernel_ticks s < target then Inl OutOfFuel else Inr s)"
| "wait_until (Suc n) target s =
     (if kernel_ticks s < target then wait_until n target (timer_handler_c s) else Inr s)"

definition timer_wait :: "nat \<Rightarrow> u64 \<Rightarrow> 'a timer_scheme \<Rightarrow> 'a timer_scheme res" where
  "timer_wait n ticks s =
     (let target = kernel_ticks s + ticks in wait_until n target s)"

section \<open>Properties\<close>

lemma wait_until_ticks:
  "unat (kernel_ticks s) + k < 2 ^ 64 \<Longrightarrow> k \<le> n \<Longrightarrow>
     wait_until n (kernel_ticks s + of_nat k) s = Inr (s\<lparr>kernel_ticks := kernel_ticks s + of_nat k\<rparr>)"
proof (induction n arbitrary: s k)
  case 0
  then show ?case by simp
next
  case (Suc n)
  show ?case
  proof (cases k)
    case 0
    then show ?thesis by simp
  next
    case (Suc j)
    let ?t = "timer_handler_c s"
    have lt: "kernel_ticks s < kernel_ticks s + of_nat k"
      using Suc.prems(1) Suc unat_add_of_nat [of "kernel_ticks s" k]
      by (simp add: word_less_nat_alt del: of_nat_Suc)
    have step: "unat (kernel_ticks ?t) + j < 2 ^ 64"
      using Suc.prems(1) Suc unat_add_of_nat [of "kernel_ticks s" 1] by (simp add: timer_handler_c_def)
    have "wait_until n (kernel_ticks ?t + of_nat j) ?t = Inr (?t\<lparr>kernel_ticks := kernel_ticks ?t + of_nat j\<rparr>)"
      by (rule Suc.IH [OF step]) (use Suc.prems(2) Suc in simp)
    with lt show ?thesis by (simp add: Suc timer_handler_c_def add.assoc)
  qed
qed

text \<open>C40. Waiting for a number of ticks ends after exactly that many timer interrupts, as long
  as the deadline does not wrap around; a deadline that wraps makes the wait return at once.\<close>

theorem timer_wait_ticks:
  "(unat (kernel_ticks s) + unat k < 2 ^ 64 \<longrightarrow> unat k \<le> n \<longrightarrow>
      timer_wait n k s = Inr (s\<lparr>kernel_ticks := kernel_ticks s + k\<rparr>)) \<and>
   (unat (kernel_ticks s) + unat k \<ge> 2 ^ 64 \<longrightarrow> timer_wait n k s = Inr s)"
proof -
  have "timer_wait n k s = Inr (s\<lparr>kernel_ticks := kernel_ticks s + k\<rparr>)"
    if "unat (kernel_ticks s) + unat k < 2 ^ 64" "unat k \<le> n"
    using wait_until_ticks [OF that] by (simp add: timer_wait_def)
  moreover have "timer_wait n k s = Inr s" if wrap: "unat (kernel_ticks s) + unat k \<ge> 2 ^ 64"
  proof -
    have "\<not> kernel_ticks s < kernel_ticks s + k"
      using wrap by (simp add: word_less_nat_alt unat_plus_if') (use unat_u64_less [of k] in linarith)
    then show ?thesis by (cases n) (simp_all add: timer_wait_def)
  qed
  ultimately show ?thesis by blast
qed

definition timer_boot :: "u64 \<Rightarrow> timer" where
  "timer_boot t = vga.extend (vga_boot Map.empty) \<lparr>kernel_ticks = t\<rparr>"

theorem timer_wait_ticks_witness:
  "(\<exists>s'. timer_wait 5 5 (timer_boot 7) = Inr s' \<and> kernel_ticks s' = 12) \<and>
   timer_wait 0 2 (timer_boot (- 1)) = Inr (timer_boot (- 1))"
proof -
  have t: "kernel_ticks (timer_boot t) = t" for t by (simp add: timer_boot_def vga.defs)
  show ?thesis
    using timer_wait_ticks [of "timer_boot 7" 5 5] timer_wait_ticks [of "timer_boot (- 1)" 2 0]
    by (simp add: t unsigned_minus_1_eq_mask mask_eq_exp_minus_1)
qed

end
