(* ===== verification/Keyboard.thy ===== *)
theory Keyboard
  imports Timer
begin

text \<open>
  \<open>kernel/drivers/keyboard.c\<close>: the scancode tables, the modifier state and the ring
  buffer between the keyboard interrupt and the readers.
\<close>

definition KBD_BUFFER_SIZE :: u32 where "KBD_BUFFER_SIZE = 256"

record kbd = timer +
  kbd_buffer :: "u8 list"
  kbd_head :: u32
  kbd_tail :: u32
  shift_pressed :: u8
  ctrl_pressed :: u8
  alt_pressed :: u8
  caps_lock :: u8

definition scancode_to_ascii :: "u8 list" where
  "scancode_to_ascii =
     [0, 27] @ str ''1234567890-='' @ [8, 9] @ str ''qwertyuiop[]'' @ [10, 0] @
     str ''asdfghjkl;'' @ [39, 96, 0, 92] @ str ''zxcvbnm,./'' @ [0, 42, 0, 32, 0] @
     replicate 12 0 @ str ''789-456+1230.''"

definition scancode_to_ascii_shift :: "u8 list" where
  "scancode_to_ascii_shift =
     [0, 0] @ str ''!@#$%^&*()_+'' @ [8, 9] @ str ''QWERTYUIOP{}'' @ [10, 0] @
     str ''ASDFGHJKL:'' @ [34, 126, 0, 124] @ str ''ZXCVBNM<>?'' @ [0, 42, 0, 32, 0] @
     replicate 12 0 @ str ''789-456+1230.''"

definition SCANCODE_TABLE_SIZE :: nat where
  "SCANCODE_TABLE_SIZE = length scancode_to_ascii"

definition kbd_buffer_put :: "u8 \<Rightarrow> 'a kbd_scheme \<Rightarrow> 'a kbd_scheme" where
  "kbd_buffer_put c s =
     (let next = (kbd_head s + 1) mod KBD_BUFFER_SIZE in
      if next \<noteq> kbd_tail s then
        let s = s\<lparr>kbd_buffer := (kbd_buffer s)[unat (kbd_head s) := c]\<rparr> in s\<lparr>kbd_head := next\<rparr>
      else s)"

text \<open>With an empty buffer the reader sleeps until an interrupt; the model stops there.\<close>

definition keyboard_getchar :: "'a kbd_scheme \<Rightarrow> (u8 \<times> 'a kbd_scheme) res" where
  "keyboard_getchar s =
     (if kbd_head s = kbd_tail s then Inl Halted
      else let c = kbd_buffer s ! unat (kbd_tail s)
           in Inr (c, s\<lparr>kbd_tail := (kbd_tail s + 1) mod KBD_BUFFER_SIZE\<rparr>))"

definition keyboard_available :: "'a kbd_scheme \<Rightarrow> bool" where
  "keyboard_available s \<longleftrightarrow> kbd_head s \<noteq> kbd_tail s"

definition key_released :: "u8 \<Rightarrow> 'a kbd_scheme \<Rightarrow> 'a kbd_scheme" where
  "key_released released s =
     (if released = 0x2A \<or> released = 0x36 then s\<lparr>shift_pressed := 0\<rparr>
      else if released = 0x1D then s\<lparr>ctrl_pressed := 0\<rparr>
      else if released = 0x38 then s\<lparr>alt_pressed := 0\<rparr>
      else s)"

definition apply_caps :: "'a kbd_scheme \<Rightarrow> u8 \<Rightarrow> u8" where
  "apply_caps s c =
     (if caps_lock s \<noteq> 0 \<and> 97 \<le> sint c \<and> sint c \<le> 122 then c - 32
      else if caps_lock s \<noteq> 0 \<and> 65 \<le> sint c \<and> sint c \<le> 90 \<and> shift_pressed s = 0 then c + 32
      else c)"

definition apply_ctrl :: "'a kbd_scheme \<Rightarrow> u8 \<Rightarrow> u8" where
  "apply_ctrl s c =
     (if ctrl_pressed s \<noteq> 0 then
        (if 97 \<le> sint c \<and> sint c \<le> 122 then c - 96
         else if 65 \<le> sint c \<and> sint c \<le> 90 then c - 64 else c)
      else c)"

definition key_pressed :: "u8 \<Rightarrow> 'a kbd_scheme \<Rightarrow> 'a kbd_scheme" where
  "key_pressed scancode s =
     (if scancode = 0x2A \<or> scancode = 0x36 then s\<lparr>shift_pressed := 1\<rparr>
      else if scancode = 0x1D then s\<lparr>ctrl_pressed := 1\<rparr>
      else if scancode = 0x38 then s\<lparr>alt_pressed := 1\<rparr>
      else if scancode = 0x3A then s\<lparr>caps_lock := (if caps_lock s = 0 then 1 else 0)\<rparr>
      else if unat scancode \<ge> SCANCODE_TABLE_SIZE then s
      else
        let c = (if shift_pressed s \<noteq> 0 then scancode_to_ascii_shift ! unat scancode
                 else scancode_to_ascii ! unat scancode);
            c = apply_caps s c
        in if c = 0 then s else kbd_buffer_put (apply_ctrl s c) s)"

definition keyboard_handler_c :: "device \<Rightarrow> 'a kbd_scheme \<Rightarrow> 'a kbd_scheme" where
  "keyboard_handler_c dev s =
     (let (scancode, s) = inb dev 0x60 s in
      if scancode AND 0x80 \<noteq> 0 then key_released (scancode AND 0x7F) s
      else key_pressed scancode s)"

fun keyboard_init :: "nat \<Rightarrow> device \<Rightarrow> 'a kbd_scheme \<Rightarrow> 'a kbd_scheme res" where
  "keyboard_init 0 dev s = Inl OutOfFuel"
| "keyboard_init (Suc n) dev s =
     (let (v, s) = inb dev 0x64 s in
      if v AND 1 \<noteq> 0 then (let (_, s) = inb dev 0x60 s in keyboard_init n dev s) else Inr s)"

section \<open>The ring buffer as a queue\<close>

text \<open>
  The interface between the interrupt handler and the readers: a bounded queue, whose
  producer drops what does not fit.
\<close>

primrec get_n :: "('s \<Rightarrow> ('c \<times> 's) res) \<Rightarrow> nat \<Rightarrow> 's \<Rightarrow> ('c list \<times> 's) res" where
  "get_n get 0 s = Inr ([], s)"
| "get_n get (Suc n) s =
     rbind (get s) (\<lambda>(c, s). rbind (get_n get n s) (\<lambda>(cs, s). Inr (c # cs, s)))"

locale bounded_queue =
  fixes put :: "'c \<Rightarrow> 's \<Rightarrow> 's" and get :: "'s \<Rightarrow> ('c \<times> 's) res"
    and queue :: "'s \<Rightarrow> 'c list" and ok :: "'s \<Rightarrow> bool" and cap :: nat
  assumes put_ok: "ok s \<Longrightarrow> ok (put c s)"
    and put_room: "ok s \<Longrightarrow> length (queue s) < cap \<Longrightarrow> queue (put c s) = queue s @ [c]"
    and put_full: "ok s \<Longrightarrow> length (queue s) = cap \<Longrightarrow> put c s = s"
    and get_ok: "ok s \<Longrightarrow> queue s = c # cs \<Longrightarrow> \<exists>s'. get s = Inr (c, s') \<and> ok s' \<and> queue s' = cs"
    and bounded: "ok s \<Longrightarrow> length (queue s) \<le> cap"
begin

lemma puts:
  "ok s \<Longrightarrow> ok (fold put cs s) \<and> queue (fold put cs s) = take cap (queue s @ cs)"
proof (induction cs arbitrary: s)
  case Nil
  then show ?case using bounded by simp
next
  case (Cons c cs)
  have "take cap (queue (put c s) @ cs) = take cap (queue s @ c # cs)"
    using bounded [OF Cons.prems] put_room [OF Cons.prems] put_full [OF Cons.prems]
    by (cases "length (queue s) = cap") auto
  with Cons put_ok show ?case by simp
qed

lemma gets:
  "ok s \<Longrightarrow> n \<le> length (queue s) \<Longrightarrow>
     \<exists>s'. get_n get n s = Inr (take n (queue s), s') \<and> ok s' \<and> queue s' = drop n (queue s)"
proof (induction n arbitrary: s)
  case 0
  then show ?case by simp
next
  case (Suc n)
  then obtain c cs where q: "queue s = c # cs" by (cases "queue s") auto
  from get_ok [OF Suc.prems(1) q] obtain t where t: "get s = Inr (c, t)" "ok t" "queue t = cs" by blast
  from Suc.IH [OF t(2)] Suc.prems(2) q t obtain s' where
    "get_n get n t = Inr (take n cs, s')" "ok s'" "queue s' = drop n cs" by auto
  with t q show ?case by simp
qed

text \<open>What is put comes out in order, up to the capacity.\<close>

lemma fifo:
  assumes "ok s" "queue s = []"
  shows "\<exists>s'. get_n get (min cap (length cs)) (fold put cs s) = Inr (take cap cs, s') \<and> queue s' = []"
proof -
  have p: "ok (fold put cs s)" "queue (fold put cs s) = take cap cs" using puts [OF assms(1)] assms(2) by auto
  have t: "take (min cap (length cs)) cs = take cap cs" by (simp add: min_def)
  show ?thesis using gets [OF p(1) order_refl] p(2) t by (auto simp: min.commute)
qed

end

definition kbd_ok :: "'a kbd_scheme \<Rightarrow> bool" where
  "kbd_ok s \<longleftrightarrow> length (kbd_buffer s) = 256 \<and> unat (kbd_head s) < 256 \<and> unat (kbd_tail s) < 256"

definition kbd_count :: "'a kbd_scheme \<Rightarrow> nat" where
  "kbd_count s = (unat (kbd_head s) + 256 - unat (kbd_tail s)) mod 256"

definition kbd_queue :: "'a kbd_scheme \<Rightarrow> u8 list" where
  "kbd_queue s = map (\<lambda>i. kbd_buffer s ! ((unat (kbd_tail s) + i) mod 256)) [0..<kbd_count s]"

lemma ring_next: "unat (i :: u32) < 256 \<Longrightarrow> unat ((i + 1) mod KBD_BUFFER_SIZE) = (unat i + 1) mod 256"
  by (simp add: KBD_BUFFER_SIZE_def unat_mod_distrib unat_plus_if')

lemma ring_count:
  fixes h t :: nat
  assumes "h < 256" "t < 256"
  shows "(h + 1) mod 256 = t \<longleftrightarrow> (h + 256 - t) mod 256 = 255"
    and "(h + 1) mod 256 \<noteq> t \<Longrightarrow> ((h + 1) mod 256 + 256 - t) mod 256 = (h + 256 - t) mod 256 + 1"
    and "h \<noteq> t \<Longrightarrow> (h + 256 - t) mod 256 = (h + 256 - (t + 1) mod 256) mod 256 + 1"
    and "i < (h + 256 - t) mod 256 \<Longrightarrow> (t + i) mod 256 \<noteq> h"
    and "(t + (h + 256 - t) mod 256) mod 256 = h"
    and "h = t \<longleftrightarrow> (h + 256 - t) mod 256 = 0"
proof -
  have wrap: "x mod 256 = (if x < 256 then x else x - 256)" if "x < 512" for x :: nat
    using that by (simp add: le_mod_geq)
  have d: "(h + 256 - u) mod 256 = (if u \<le> h then h - u else h + 256 - u)" if "u < 256" for u
    using that assms(1) by (subst wrap) auto
  have n: "(k + 1) mod 256 = (if k = 255 then 0 else k + 1)" if "k < 256" for k :: nat
    using that by (subst wrap) auto
  show "(h + 1) mod 256 = t \<longleftrightarrow> (h + 256 - t) mod 256 = 255" "h = t \<longleftrightarrow> (h + 256 - t) mod 256 = 0"
    using assms by (auto simp: d n [simplified])
  show "(h + 1) mod 256 \<noteq> t \<Longrightarrow> ((h + 1) mod 256 + 256 - t) mod 256 = (h + 256 - t) mod 256 + 1"
    using assms unfolding n [OF assms(1)] d [OF assms(2)] by (subst wrap) (auto split: if_splits)
  show "h \<noteq> t \<Longrightarrow> (h + 256 - t) mod 256 = (h + 256 - (t + 1) mod 256) mod 256 + 1"
    using assms unfolding n [OF assms(2)] d [OF assms(2)] by (subst d) (auto split: if_splits)
  show "(t + (h + 256 - t) mod 256) mod 256 = h"
    using assms unfolding d [OF assms(2)] by (subst wrap) auto
  show "(t + i) mod 256 \<noteq> h" if "i < (h + 256 - t) mod 256"
  proof -
    have "t + i < 512" using that assms by (auto simp: d split: if_splits)
    then show ?thesis using that assms by (auto simp: wrap d split: if_splits)
  qed
qed

lemma kbd_put_ok: "kbd_ok s \<Longrightarrow> kbd_ok (kbd_buffer_put c s)"
  by (auto simp: kbd_ok_def kbd_buffer_put_def Let_def ring_next)

lemma kbd_queue_length [simp]: "length (kbd_queue s) = kbd_count s"
  by (simp add: kbd_queue_def)

lemma kbd_full_iff:
  assumes "kbd_ok s"
  shows "(kbd_head s + 1) mod KBD_BUFFER_SIZE = kbd_tail s \<longleftrightarrow> kbd_count s = 255"
proof -
  have "(kbd_head s + 1) mod KBD_BUFFER_SIZE = kbd_tail s \<longleftrightarrow>
      (unat (kbd_head s) + 1) mod 256 = unat (kbd_tail s)"
    using assms by (simp add: word_unat_eq_iff ring_next kbd_ok_def)
  then show ?thesis
    using ring_count(1) [of "unat (kbd_head s)" "unat (kbd_tail s)"] assms
    by (simp add: kbd_count_def kbd_ok_def)
qed

lemma kbd_put_room:
  assumes "kbd_ok s" "kbd_count s < 255"
  shows "kbd_queue (kbd_buffer_put c s) = kbd_queue s @ [c]"
proof -
  let ?h = "unat (kbd_head s)" and ?t = "unat (kbd_tail s)"
  have b: "?h < 256" "?t < 256" "length (kbd_buffer s) = 256" using assms(1) by (auto simp: kbd_ok_def)
  have nf: "(kbd_head s + 1) mod KBD_BUFFER_SIZE \<noteq> kbd_tail s"
    using kbd_full_iff [OF assms(1)] assms(2) by simp
  then have nf': "(?h + 1) mod 256 \<noteq> ?t" using b(1) by (simp add: word_unat_eq_iff ring_next)
  let ?s = "kbd_buffer_put c s"
  have s: "kbd_buffer ?s = (kbd_buffer s)[?h := c]" "kbd_tail ?s = kbd_tail s"
    "unat (kbd_head ?s) = (?h + 1) mod 256"
    using nf b(1) by (simp_all add: kbd_buffer_put_def Let_def ring_next)
  have n: "kbd_count ?s = kbd_count s + 1"
    using ring_count(2) [OF b(1,2) nf'] by (simp add: kbd_count_def s)
  have last: "(?t + kbd_count s) mod 256 = ?h"
    using ring_count(5) [OF b(1,2)] by (simp add: kbd_count_def)
  have old: "\<And>i. i < kbd_count s \<Longrightarrow> ?h \<noteq> (?t + i) mod 256"
    using ring_count(4) [OF b(1,2)] by (metis kbd_count_def)
  show ?thesis
    using b old last by (auto simp: kbd_queue_def n s nth_list_update_neq)
qed

lemma kbd_put_full:
  assumes "kbd_ok s" "kbd_count s = 255"
  shows "kbd_buffer_put c s = s"
  using kbd_full_iff [OF assms(1)] assms(2) by (simp add: kbd_buffer_put_def)

lemma kbd_get:
  assumes "kbd_ok s" "kbd_queue s = c # cs"
  shows "\<exists>s'. keyboard_getchar s = Inr (c, s') \<and> kbd_ok s' \<and> kbd_queue s' = cs"
proof -
  let ?h = "unat (kbd_head s)" and ?t = "unat (kbd_tail s)"
  have b: "?h < 256" "?t < 256" "length (kbd_buffer s) = 256" using assms(1) by (auto simp: kbd_ok_def)
  have pos: "0 < kbd_count s" using assms(2) by (metis kbd_queue_length length_greater_0_conv list.discI)
  have ne: "?h \<noteq> ?t" using ring_count(6) [OF b(1,2)] pos by (auto simp: kbd_count_def)
  then have ne': "kbd_head s \<noteq> kbd_tail s" by auto
  let ?s = "s\<lparr>kbd_tail := (kbd_tail s + 1) mod KBD_BUFFER_SIZE\<rparr>"
  have t: "unat (kbd_tail ?s) = (?t + 1) mod 256" using b(2) by (simp add: ring_next)
  have n: "kbd_count s = Suc (kbd_count ?s)"
    using ring_count(3) [OF b(1,2) ne] by (simp add: kbd_count_def ring_next b(2))
  have idx: "((?t + 1) mod 256 + i) mod 256 = (?t + Suc i) mod 256" for i by presburger
  have "kbd_queue s = kbd_buffer s ! ?t # kbd_queue ?s"
    using b(2) idx by (simp add: kbd_queue_def n t [simplified] map_upt_Suc del: upt_Suc)
  then have "c = kbd_buffer s ! ?t" "cs = kbd_queue ?s" using assms(2) by auto
  moreover have "kbd_ok ?s" using assms(1) t by (simp add: kbd_ok_def)
  ultimately show ?thesis using ne' by (simp add: keyboard_getchar_def)
qed

interpretation kbd_fifo: bounded_queue kbd_buffer_put keyboard_getchar kbd_queue kbd_ok 255
proof unfold_locales
  fix s :: "'a kbd_scheme"
  assume "kbd_ok s"
  then show "length (kbd_queue s) \<le> 255"
    using kbd_queue_length [of s] mod_less_divisor [of 256 "unat (kbd_head s) + 256 - unat (kbd_tail s)"]
    by (simp add: kbd_count_def)
qed (simp_all add: kbd_put_ok kbd_put_room kbd_put_full kbd_get)

section \<open>Properties\<close>

definition kbd_boot :: kbd where
  "kbd_boot = timer.extend (timer_boot 0)
     \<lparr>kbd_buffer = replicate 256 0, kbd_head = 0, kbd_tail = 0, shift_pressed = 0,
      ctrl_pressed = 0, alt_pressed = 0, caps_lock = 0\<rparr>"

lemma kbd_boot_ok [simp]: "kbd_ok kbd_boot" "kbd_queue kbd_boot = []" "kbd_count kbd_boot = 0"
  by (simp_all add: kbd_ok_def kbd_queue_def kbd_count_def kbd_boot_def timer.defs)

text \<open>C35. Characters come out of the keyboard buffer in the order they were typed; the first 255
  are kept when nobody reads, and what does not fit is dropped without disturbing them.\<close>

theorem keyboard_fifo:
  assumes "kbd_ok s" "kbd_queue s = []"
  shows "\<exists>s'. get_n keyboard_getchar (min 255 (length cs)) (fold kbd_buffer_put cs s) = Inr (take 255 cs, s')
    \<and> kbd_queue s' = []"
  by (rule kbd_fifo.fifo [OF assms])

theorem keyboard_fifo_witness:
  "\<exists>s'. get_n keyboard_getchar 3 (fold kbd_buffer_put [65, 66, 67] kbd_boot) = Inr ([65, 66, 67], s')"
proof -
  have n: "min 255 (length [65, 66, 67 :: u8]) = 3" "take 255 [65, 66, 67 :: u8] = [65, 66, 67]" by simp_all
  show ?thesis
    using keyboard_fifo [OF kbd_boot_ok(1,2), of "[65, 66, 67]"] unfolding n by blast
qed

lemma scancode_lengths: "length scancode_to_ascii = 84" "length scancode_to_ascii_shift = 84"
  by (simp_all add: scancode_to_ascii_def scancode_to_ascii_shift_def str_def)

lemma no_unshifted_capital: "\<forall>c \<in> set scancode_to_ascii. \<not> (65 \<le> sint c \<and> sint c \<le> 90)"
  by (simp add: scancode_to_ascii_def str_def)

lemma no_shifted_small: "\<forall>c \<in> set scancode_to_ascii_shift. \<not> (97 \<le> sint c \<and> sint c \<le> 122)"
  by (simp add: scancode_to_ascii_shift_def str_def)

lemma press_bits: "\<forall>n \<in> {0..<84::nat}. (of_nat n :: u8) AND 0x80 = 0"
  by (simp add: atLeastLessThan_nat_numeral)

lemma kbd_put_queue: "kbd_ok s \<Longrightarrow> kbd_queue (kbd_buffer_put c s) = take 255 (kbd_queue s @ [c])"
  using kbd_fifo.puts [of s "[c]"] by simp

text \<open>Letters as ASCII codes, and their control characters: the five low bits.\<close>

definition letter :: "u8 \<Rightarrow> bool" where
  "letter c \<longleftrightarrow> 65 \<le> unat c \<and> unat c \<le> 90 \<or> 97 \<le> unat c \<and> unat c \<le> 122"

lemma control_codes:
  "\<forall>n \<in> {0..<256::nat}. let c = of_nat n :: u8 in
     (if 97 \<le> sint c \<and> sint c \<le> 122 then c - 96 else if 65 \<le> sint c \<and> sint c \<le> 90 then c - 64 else c) =
     (if letter c then c AND 0x1F else c)"
  by (simp add: atLeastLessThan_nat_numeral letter_def)

lemma apply_ctrl_letter: "apply_ctrl s c = (if ctrl_pressed s \<noteq> 0 \<and> letter c then c AND 0x1F else c)"
  using bspec [OF control_codes, of "unat c"] unsigned_less [of c, where 'a = nat]
  by (simp add: apply_ctrl_def Let_def)

text \<open>C36. A key press that is no modifier queues the character of the shifted table when shift is
  held and of the plain table, in upper case under caps lock, when it is not (so the branch
  that would undo capitals under caps lock is never taken).  When ctrl is held, a letter of
  either case becomes its control character, the code from 1 to 26 in its five low bits, and
  any other character stays.  A key without a character queues nothing, and a full queue drops it.\<close>

theorem key_press_char:
  assumes ok: "kbd_ok s" and sc: "ucast (dev (ports s) 0x60) = (sc :: u8)" "unat sc < SCANCODE_TABLE_SIZE"
    and key: "sc \<notin> {0x2A, 0x36, 0x1D, 0x38, 0x3A}"
  defines "c \<equiv> (if shift_pressed s \<noteq> 0 then scancode_to_ascii_shift ! unat sc
                else if caps_lock s \<noteq> 0 \<and> 97 \<le> sint (scancode_to_ascii ! unat sc)
                        \<and> sint (scancode_to_ascii ! unat sc) \<le> 122
                     then scancode_to_ascii ! unat sc - 32
                else scancode_to_ascii ! unat sc)"
  shows "kbd_queue (keyboard_handler_c dev s) =
    take 255 (kbd_queue s @ (if c = 0 then [] else if ctrl_pressed s \<noteq> 0 \<and> letter c then [c AND 0x1F] else [c]))"
proof -
  let ?s = "s\<lparr>ports := In 0x60 # ports s\<rparr>"
  have len: "unat sc < 84" using sc(2) by (simp add: SCANCODE_TABLE_SIZE_def scancode_lengths)
  then have mem: "scancode_to_ascii ! unat sc \<in> set scancode_to_ascii"
    "scancode_to_ascii_shift ! unat sc \<in> set scancode_to_ascii_shift"
    by (simp_all add: scancode_lengths)
  have press: "sc AND 0x80 = 0"
    using bspec [OF press_bits, of "unat sc"] len by simp
  have q: "kbd_queue ?s = kbd_queue s" "kbd_ok ?s = kbd_ok s"
    by (simp_all add: kbd_queue_def kbd_count_def kbd_ok_def)
  have c: "c = apply_caps ?s (if shift_pressed ?s \<noteq> 0 then scancode_to_ascii_shift ! unat sc
            else scancode_to_ascii ! unat sc)"
    using bspec [OF no_unshifted_capital mem(1)] bspec [OF no_shifted_small mem(2)]
    by (auto simp: c_def apply_caps_def)
  have "keyboard_handler_c dev s = key_pressed sc ?s"
    using press by (simp add: keyboard_handler_c_def inb_def sc(1))
  also have "\<dots> = (if c = 0 then ?s else kbd_buffer_put (apply_ctrl ?s c) ?s)"
    using key sc(2) unfolding key_pressed_def Let_def c by auto
  finally have h: "keyboard_handler_c dev s = (if c = 0 then ?s else kbd_buffer_put (apply_ctrl ?s c) ?s)" .
  have "length (kbd_queue s) \<le> 255" by (rule kbd_fifo.bounded [OF ok])
  then show ?thesis
    using ok by (simp add: h q kbd_put_queue apply_ctrl_letter)
qed

theorem key_press_char_witness:
  "kbd_queue (keyboard_handler_c (\<lambda>_ _. 0x10) (kbd_boot\<lparr>caps_lock := 1\<rparr>)) = [81] \<and>
   kbd_queue (keyboard_handler_c (\<lambda>_ _. 0x10) (kbd_boot\<lparr>ctrl_pressed := 1\<rparr>)) = [17]"
proof -
  let ?s = "kbd_boot\<lparr>caps_lock := 1\<rparr>" and ?t = "kbd_boot\<lparr>ctrl_pressed := 1\<rparr>"
  have s: "kbd_ok ?s" "kbd_queue ?s = []" "shift_pressed ?s = 0" "caps_lock ?s = 1" "ctrl_pressed ?s = 0"
    "kbd_ok ?t" "kbd_queue ?t = []" "shift_pressed ?t = 0" "caps_lock ?t = 0" "ctrl_pressed ?t = 1"
    by (simp_all add: kbd_ok_def kbd_queue_def kbd_count_def kbd_boot_def timer.defs)
  have q: "scancode_to_ascii ! 16 = 113" by (simp add: scancode_to_ascii_def str_def)
  show ?thesis
    using key_press_char [OF s(1), where dev = "\<lambda>_ _. 0x10" and sc = "0x10"]
      key_press_char [OF s(6), where dev = "\<lambda>_ _. 0x10" and sc = "0x10"]
    by (simp add: s q SCANCODE_TABLE_SIZE_def scancode_lengths letter_def)
qed

end
