(* ===== verification/Pmm.thy ===== *)
theory Pmm
  imports Keyboard Strings
begin

text \<open>
  \<open>kernel/memory/pmm.c\<close>: the physical page allocator.  One bit per 4 KB page, in a
  bitmap in memory at \<open>PMM_BITMAP_VIRT\<close>; a set bit is a page in use.  The abstraction is
  the set of pages in use.
\<close>

definition PAGE_SIZE :: u64 where "PAGE_SIZE = 4096"
definition PMM_MAX_MEMORY :: u64 where "PMM_MAX_MEMORY = 4 * 1024 * 1024 * 1024"
definition PMM_BITMAP_PHYS :: u64 where "PMM_BITMAP_PHYS = 0x200000"
definition KERNEL_VIRT_BASE :: u64 where "KERNEL_VIRT_BASE = 0xFFFF800000000000"
definition PMM_BITMAP_VIRT :: u64 where "PMM_BITMAP_VIRT = KERNEL_VIRT_BASE + PMM_BITMAP_PHYS"

record pmm = kbd +
  pmm_total_pages :: u64
  pmm_used_pages :: u64
  pmm_total_memory :: u64

record e820_entry =
  e_base :: u64
  e_length :: u64
  e_type :: u32

definition E820_USABLE :: u32 where "E820_USABLE = 1"

section \<open>The bitmap\<close>

definition bitmap_set :: "u64 \<Rightarrow> 'a pmm_scheme \<Rightarrow> 'a pmm_scheme res" where
  "bitmap_set page s =
     rbind (load8 (PMM_BITMAP_VIRT + page div 8) s) (\<lambda>b.
     store8 (PMM_BITMAP_VIRT + page div 8) (b OR push_bit (unat (page mod 8)) 1) s)"

definition bitmap_clear :: "u64 \<Rightarrow> 'a pmm_scheme \<Rightarrow> 'a pmm_scheme res" where
  "bitmap_clear page s =
     rbind (load8 (PMM_BITMAP_VIRT + page div 8) s) (\<lambda>b.
     store8 (PMM_BITMAP_VIRT + page div 8) (b AND NOT (push_bit (unat (page mod 8)) 1)) s)"

definition bitmap_test :: "u64 \<Rightarrow> 'a pmm_scheme \<Rightarrow> bool res" where
  "bitmap_test page s =
     rbind (load8 (PMM_BITMAP_VIRT + page div 8) s) (\<lambda>b.
     Inr (b AND push_bit (unat (page mod 8)) 1 \<noteq> 0))"

text \<open>The two nested loops of \<open>bitmap_find_free\<close>; \<open>None\<close> is the result \<open>-1\<close>.\<close>

fun find_bit :: "nat list \<Rightarrow> u64 \<Rightarrow> 'a pmm_scheme \<Rightarrow> u64 option res" where
  "find_bit [] i s = Inr None"
| "find_bit (k # bits) i s =
     (let page = i * 32 + of_nat k in
      rbind (if page < pmm_total_pages s then bitmap_test page s else Inr True) (\<lambda>used.
      if \<not> used then Inr (Some page) else find_bit bits i s))"

fun find_dword :: "nat list \<Rightarrow> 'a pmm_scheme \<Rightarrow> u64 option res" where
  "find_dword [] s = Inr None"
| "find_dword (i # is) s =
     rbind (load32 (PMM_BITMAP_VIRT + 4 * of_nat i) s) (\<lambda>w.
     rbind (if w \<noteq> 0xFFFFFFFF then find_bit [0..<32] (of_nat i) s else Inr None) (\<lambda>r.
     case r of Some page \<Rightarrow> Inr (Some page) | None \<Rightarrow> find_dword is s))"

definition bitmap_find_free :: "'a pmm_scheme \<Rightarrow> u64 option res" where
  "bitmap_find_free s =
     (let bitmap_dwords = pmm_total_pages s div 32 in find_dword [0..<unat bitmap_dwords] s)"

fun find_region :: "nat list \<Rightarrow> u64 \<Rightarrow> u64 \<Rightarrow> u64 \<Rightarrow> 'a pmm_scheme \<Rightarrow> u64 option res" where
  "find_region [] count consecutive start s = Inr None"
| "find_region (i # is) count consecutive start s =
     rbind (bitmap_test (of_nat i) s) (\<lambda>used.
     if \<not> used then
       let start = (if consecutive = 0 then of_nat i else start);
           consecutive = consecutive + 1
       in if consecutive \<ge> count then Inr (Some start) else find_region is count consecutive start s
     else find_region is count 0 start s)"

definition bitmap_find_free_region :: "u64 \<Rightarrow> 'a pmm_scheme \<Rightarrow> u64 option res" where
  "bitmap_find_free_region count s = find_region [0..<unat (pmm_total_pages s)] count 0 0 s"

section \<open>Allocation\<close>

definition pmm_alloc_page :: "'a pmm_scheme \<Rightarrow> (u64 \<times> 'a pmm_scheme) res" where
  "pmm_alloc_page s =
     rbind (bitmap_find_free s) (\<lambda>r.
     case r of
       None \<Rightarrow> Inl (Panic (str ''PMM: Out of physical memory!''))
     | Some page \<Rightarrow>
         rbind (bitmap_set page s) (\<lambda>s.
         Inr (page * PAGE_SIZE, s\<lparr>pmm_used_pages := pmm_used_pages s + 1\<rparr>)))"

definition free_if_used :: "u64 \<Rightarrow> 'a pmm_scheme \<Rightarrow> 'a pmm_scheme res" where
  "free_if_used page s =
     rbind (bitmap_test page s) (\<lambda>used.
     if used then rbind (bitmap_clear page s) (\<lambda>s. Inr (s\<lparr>pmm_used_pages := pmm_used_pages s - 1\<rparr>))
     else Inr s)"

definition pmm_free_page :: "u64 \<Rightarrow> 'a pmm_scheme \<Rightarrow> 'a pmm_scheme res" where
  "pmm_free_page phys_addr s =
     (let page = phys_addr div PAGE_SIZE in
      if page \<ge> pmm_total_pages s then Inr s else free_if_used page s)"

fun set_pages :: "nat list \<Rightarrow> u64 \<Rightarrow> 'a pmm_scheme \<Rightarrow> 'a pmm_scheme res" where
  "set_pages [] start s = Inr s"
| "set_pages (i # is) start s =
     rbind (bitmap_set (start + of_nat i) s) (\<lambda>s.
     set_pages is start (s\<lparr>pmm_used_pages := pmm_used_pages s + 1\<rparr>))"

definition pmm_alloc_pages :: "u64 \<Rightarrow> 'a pmm_scheme \<Rightarrow> (u64 \<times> 'a pmm_scheme) res" where
  "pmm_alloc_pages count s =
     rbind (bitmap_find_free_region count s) (\<lambda>r.
     case r of
       None \<Rightarrow> Inl (Panic (str ''PMM: Cannot allocate contiguous pages!''))
     | Some start \<Rightarrow>
         rbind (set_pages [0..<unat count] start s) (\<lambda>s. Inr (start * PAGE_SIZE, s)))"

fun free_pages_from :: "nat list \<Rightarrow> u64 \<Rightarrow> 'a pmm_scheme \<Rightarrow> 'a pmm_scheme res" where
  "free_pages_from [] start s = Inr s"
| "free_pages_from (i # is) start s =
     (let page = start + of_nat i in
      rbind (if page < pmm_total_pages s then free_if_used page s else Inr s) (\<lambda>s.
      free_pages_from is start s))"

definition pmm_free_pages :: "u64 \<Rightarrow> u64 \<Rightarrow> 'a pmm_scheme \<Rightarrow> 'a pmm_scheme res" where
  "pmm_free_pages phys_addr count s =
     (let start_page = phys_addr div PAGE_SIZE in free_pages_from [0..<unat count] start_page s)"

section \<open>Regions and initialisation\<close>

fun use_pages_from :: "nat list \<Rightarrow> u64 \<Rightarrow> 'a pmm_scheme \<Rightarrow> 'a pmm_scheme res" where
  "use_pages_from [] start s = Inr s"
| "use_pages_from (i # is) start s =
     (let page = start + of_nat i in
      rbind (if page < pmm_total_pages s then bitmap_test page s else Inr True) (\<lambda>used.
      rbind (if \<not> used then
               rbind (bitmap_set page s) (\<lambda>s. Inr (s\<lparr>pmm_used_pages := pmm_used_pages s + 1\<rparr>))
             else Inr s) (\<lambda>s.
      use_pages_from is start s)))"

definition pmm_mark_region_used :: "u64 \<Rightarrow> u64 \<Rightarrow> 'a pmm_scheme \<Rightarrow> 'a pmm_scheme res" where
  "pmm_mark_region_used base len s =
     (let start_page = base div PAGE_SIZE; page_count = (len + PAGE_SIZE - 1) div PAGE_SIZE
      in use_pages_from [0..<unat page_count] start_page s)"

text \<open>The loop runs while \<open>page < end_page && page < pmm_total_pages\<close>.\<close>

fun free_range :: "nat list \<Rightarrow> 'a pmm_scheme \<Rightarrow> 'a pmm_scheme res" where
  "free_range [] s = Inr s"
| "free_range (page # pages) s = rbind (free_if_used (of_nat page) s) (\<lambda>s. free_range pages s)"

definition pmm_mark_region_free :: "u64 \<Rightarrow> u64 \<Rightarrow> 'a pmm_scheme \<Rightarrow> 'a pmm_scheme res" where
  "pmm_mark_region_free base len s =
     (let start_page = (base + PAGE_SIZE - 1) div PAGE_SIZE; end_page = (base + len) div PAGE_SIZE
      in free_range [unat start_page..<min (unat end_page) (unat (pmm_total_pages s))] s)"

fun top_of_memory :: "e820_entry list \<Rightarrow> u64 \<Rightarrow> u64" where
  "top_of_memory [] highest = highest"
| "top_of_memory (e # es) highest =
     (let e_end = e_base e + e_length e
      in top_of_memory es (if e_end > highest \<and> e_type e = E820_USABLE then e_end else highest))"

fun free_usable :: "e820_entry list \<Rightarrow> 'a pmm_scheme \<Rightarrow> 'a pmm_scheme res" where
  "free_usable [] s = Inr s"
| "free_usable (e # es) s =
     rbind (if e_type e = E820_USABLE then pmm_mark_region_free (e_base e) (e_length e) s else Inr s)
       (\<lambda>s. free_usable es s)"

definition pmm_init :: "device \<Rightarrow> nat \<Rightarrow> e820_entry list \<Rightarrow> 'a pmm_scheme \<Rightarrow> 'a pmm_scheme res" where
  "pmm_init dev n mmap s =
     (let highest = top_of_memory mmap 0;
          s = s\<lparr>pmm_total_memory := (if highest > PMM_MAX_MEMORY then PMM_MAX_MEMORY else highest)\<rparr>;
          s = s\<lparr>pmm_total_pages := pmm_total_memory s div PAGE_SIZE\<rparr>;
          bitmap_bytes = pmm_total_pages s div 8;
          bitmap_bytes = (if pmm_total_pages s mod 8 \<noteq> 0 then bitmap_bytes + 1 else bitmap_bytes)
      in
      rbind (memset PMM_BITMAP_VIRT 0xFF (unat bitmap_bytes) s) (\<lambda>s.
      let s = s\<lparr>pmm_used_pages := pmm_total_pages s\<rparr> in
      rbind (free_usable mmap s) (\<lambda>s.
      rbind (pmm_mark_region_used 0x0 0x80000 s) (\<lambda>s.
      rbind (pmm_mark_region_used 0x100000 0x100000 s) (\<lambda>s.
      let bitmap_pages = (bitmap_bytes + PAGE_SIZE - 1) div PAGE_SIZE in
      rbind (pmm_mark_region_used PMM_BITMAP_PHYS (bitmap_pages * PAGE_SIZE) s) (\<lambda>s.
      rbind (serial_puts dev n SERIAL_COM1 (str ''PMM: Total pages: '') s) (\<lambda>s.
      rbind (serial_puts dev n SERIAL_COM1 (ultoa (pmm_total_pages s) 10) s) (\<lambda>s.
      rbind (serial_puts dev n SERIAL_COM1 (str '', Free: '') s) (\<lambda>s.
      rbind (serial_puts dev n SERIAL_COM1 (ultoa (pmm_total_pages s - pmm_used_pages s) 10) s) (\<lambda>s.
      serial_puts dev n SERIAL_COM1 (str ''\<newline>'') s))))))))))"

definition pmm_get_total_memory :: "'a pmm_scheme \<Rightarrow> u64" where
  "pmm_get_total_memory s = pmm_total_memory s"
definition pmm_get_free_memory :: "'a pmm_scheme \<Rightarrow> u64" where
  "pmm_get_free_memory s = (pmm_total_pages s - pmm_used_pages s) * PAGE_SIZE"
definition pmm_get_used_memory :: "'a pmm_scheme \<Rightarrow> u64" where
  "pmm_get_used_memory s = pmm_used_pages s * PAGE_SIZE"

section \<open>The bitmap as a set of pages\<close>

definition page_bit :: "memory \<Rightarrow> nat \<Rightarrow> bool" where
  "page_bit m p = (case m (PMM_BITMAP_VIRT + of_nat (p div 8)) of None \<Rightarrow> False | Some b \<Rightarrow> bit b (p mod 8))"

definition used :: "'a pmm_scheme \<Rightarrow> nat set" where
  "used s = {p. p < unat (pmm_total_pages s) \<and> page_bit (vmem s) p}"

definition pmm_ok :: "'a pmm_scheme \<Rightarrow> bool" where
  "pmm_ok s \<longleftrightarrow>
     unat (pmm_total_pages s) \<le> 2 ^ 20 \<and>
     mapped (vmem s) PMM_BITMAP_VIRT ((unat (pmm_total_pages s) + 7) div 8) \<and>
     unat (pmm_used_pages s) = card (used s)"

definition in_bitmap :: "u64 \<Rightarrow> bool" where
  "in_bitmap x \<longleftrightarrow> unat (x - PMM_BITMAP_VIRT) < 2 ^ 17"

text \<open>What the allocator changes: bits of the bitmap and the count of used pages.\<close>

definition pmm_frame :: "'a pmm_scheme \<Rightarrow> 'a pmm_scheme \<Rightarrow> bool" where
  "pmm_frame s s' \<longleftrightarrow>
     s'\<lparr>vmem := vmem s, pmm_used_pages := pmm_used_pages s\<rparr> = s \<and>
     (\<forall>x. \<not> in_bitmap x \<longrightarrow> vmem s' x = vmem s x) \<and>
     (\<forall>x. vmem s x \<noteq> None \<longrightarrow> vmem s' x \<noteq> None)"

lemma pmm_frame_refl [simp, intro]: "pmm_frame s s"
  by (simp add: pmm_frame_def)

lemma pmm_frame_trans [trans]:
  assumes "pmm_frame s t" "pmm_frame t u"
  shows "pmm_frame s u"
proof -
  have "u\<lparr>vmem := vmem s, pmm_used_pages := pmm_used_pages s\<rparr> = s"
    using assms unfolding pmm_frame_def by (cases s, cases t, cases u) auto
  then show ?thesis using assms unfolding pmm_frame_def by metis
qed

lemma pmm_frame_total: "pmm_frame s s' \<Longrightarrow> pmm_total_pages s' = pmm_total_pages s"
  unfolding pmm_frame_def by (cases s, cases s') simp

lemma pmm_okD:
  assumes "pmm_ok s"
  shows "unat (pmm_total_pages s) \<le> 1048576"
    "mapped (vmem s) PMM_BITMAP_VIRT ((unat (pmm_total_pages s) + 7) div 8)"
    "unat (pmm_used_pages s) = card (used s)"
  using assms by (simp_all add: pmm_ok_def)

lemma used_finite [simp]: "finite (used s)"
  by (simp add: used_def)

lemma used_le: "card (used s) \<le> unat (pmm_total_pages s)"
proof -
  have "used s \<subseteq> {..<unat (pmm_total_pages s)}" by (auto simp: used_def)
  then show ?thesis using card_mono [of "{..<unat (pmm_total_pages s)}" "used s"] by simp
qed

lemma page_word:
  assumes "p < 2 ^ 64"
  shows "(of_nat p :: u64) div 8 = of_nat (p div 8)" "unat ((of_nat p :: u64) mod 8) = p mod 8"
    "unat (of_nat p :: u64) = p"
proof -
  show u: "unat (of_nat p :: u64) = p" using assms by simp
  have "unat ((of_nat p :: u64) div 8) = unat (of_nat (p div 8) :: u64)"
    using assms by (simp add: unat_div_distrib)
  then show "(of_nat p :: u64) div 8 = of_nat (p div 8)" by (simp only: word_unat_eq_iff)
  show "unat ((of_nat p :: u64) mod 8) = p mod 8" using u by (simp add: unat_mod_distrib)
qed

lemma page_byte:
  assumes "pmm_ok s" "p < unat (pmm_total_pages s)"
  obtains b where "vmem s (PMM_BITMAP_VIRT + of_nat (p div 8)) = Some b" "page_bit (vmem s) p = bit b (p mod 8)"
    "p < 1048576" "in_bitmap (PMM_BITMAP_VIRT + of_nat (p div 8))"
proof -
  have "p div 8 < (unat (pmm_total_pages s) + 7) div 8"
    using div_le_mono [of "p + 8" "unat (pmm_total_pages s) + 7" 8] assms(2) by simp
  then have "vmem s (PMM_BITMAP_VIRT + of_nat (p div 8)) \<noteq> None"
    using pmm_okD(2) [OF assms(1)] unfolding mapped_def by blast
  moreover have p: "p < 1048576" using pmm_okD(1) [OF assms(1)] assms(2) by simp
  moreover have "in_bitmap (PMM_BITMAP_VIRT + of_nat (p div 8))"
    using p by (simp add: in_bitmap_def)
  ultimately show ?thesis using that by (auto simp: page_bit_def)
qed

lemma page_addr_inj:
  "i < 2 ^ 64 \<Longrightarrow> j < 2 ^ 64 \<Longrightarrow> PMM_BITMAP_VIRT + of_nat i = PMM_BITMAP_VIRT + of_nat j \<longleftrightarrow> i = j"
  by (metis add_left_cancel unat_of_nat_lt)

lemma page_bit_upd:
  assumes "p < 1048576" "q < 1048576" "m (PMM_BITMAP_VIRT + of_nat (p div 8)) = Some b"
  shows "page_bit (m(PMM_BITMAP_VIRT + of_nat (p div 8) \<mapsto> b OR 2 ^ (p mod 8))) q = (q = p \<or> page_bit m q)"
    and "page_bit (m(PMM_BITMAP_VIRT + of_nat (p div 8) \<mapsto> b AND NOT (2 ^ (p mod 8)))) q
      = (q \<noteq> p \<and> page_bit m q)"
proof -
  have inj: "(of_nat (q div 8) :: u64) = of_nat (p div 8) \<longleftrightarrow> q div 8 = p div 8"
    using assms(1,2) page_addr_inj [of "q div 8" "p div 8"] by auto
  have qp: "q = p \<longleftrightarrow> q div 8 = p div 8 \<and> q mod 8 = p mod 8"
    by (metis div_mult_mod_eq)
  have k: "q mod 8 < 8" "p mod 8 < 8" by simp_all
  show "page_bit (m(PMM_BITMAP_VIRT + of_nat (p div 8) \<mapsto> b OR 2 ^ (p mod 8))) q = (q = p \<or> page_bit m q)"
    using assms(3) k by (auto simp: page_bit_def inj qp bit_simps)
  show "page_bit (m(PMM_BITMAP_VIRT + of_nat (p div 8) \<mapsto> b AND NOT (2 ^ (p mod 8)))) q
      = (q \<noteq> p \<and> page_bit m q)"
    using assms(3) k by (auto simp: page_bit_def inj qp bit_simps)
qed

lemma bitmap_test_ok:
  assumes "pmm_ok s" "p < unat (pmm_total_pages s)"
  shows "bitmap_test (of_nat p) s = Inr (p \<in> used s)"
proof -
  obtain b where b: "vmem s (PMM_BITMAP_VIRT + of_nat (p div 8)) = Some b"
    "page_bit (vmem s) p = bit b (p mod 8)" "p < 1048576"
    using page_byte [OF assms] by blast
  have "(b AND 2 ^ (p mod 8) \<noteq> 0) = bit b (p mod 8)"
    by (simp add: bit_iff_and_push_bit_not_eq_0 push_bit_eq_mult)
  then show ?thesis
    using b assms(2) by (simp add: bitmap_test_def load8_def rd8_def page_word used_def)
qed

text \<open>Setting the bit of a free page and counting it; clearing the bit of a used one.\<close>

lemma alloc_bit:
  assumes "pmm_ok s" "p < unat (pmm_total_pages s)" "p \<notin> used s"
  shows "\<exists>t. bitmap_set (of_nat p) s = Inr t \<and>
    (let s' = t\<lparr>pmm_used_pages := pmm_used_pages t + 1\<rparr> in
     pmm_ok s' \<and> used s' = insert p (used s) \<and> pmm_frame s s')"
proof -
  let ?a = "PMM_BITMAP_VIRT + of_nat (p div 8)"
  obtain b where b: "vmem s ?a = Some b" "p < 1048576" "in_bitmap ?a"
    using page_byte [OF assms(1,2)] by metis
  let ?m = "(vmem s)(?a \<mapsto> b OR 2 ^ (p mod 8))"
  let ?t = "s\<lparr>vmem := ?m\<rparr>"
  let ?s' = "s\<lparr>vmem := ?m, pmm_used_pages := pmm_used_pages s + 1\<rparr>"
  have "bitmap_set (of_nat p) s = Inr ?t"
    using b by (simp add: bitmap_set_def load8_def rd8_def store8_def wr8_def page_word)
  moreover have u: "used ?s' = insert p (used s)"
    using pmm_okD(1) [OF assms(1)] assms(2) b by (auto simp: used_def page_bit_upd)
  moreover have "pmm_ok ?s'"
  proof -
    have "card (insert p (used s)) = card (used s) + 1" using assms(3) by simp
    moreover have "card (used s) + 1 \<le> unat (pmm_total_pages s)"
      using used_le [of ?s'] u assms(3) by simp
    ultimately have "unat (pmm_used_pages s + 1) = card (used ?s')"
      using pmm_okD [OF assms(1)] u by (simp add: unat_plus_if')
    then show ?thesis using pmm_okD [OF assms(1)] by (simp add: pmm_ok_def mapped_fun_upd)
  qed
  moreover have "pmm_frame s ?s'" using b by (auto simp: pmm_frame_def)
  ultimately show ?thesis by (intro exI [of _ ?t]) simp
qed

lemma free_if_used_ok:
  assumes "pmm_ok s" "p < unat (pmm_total_pages s)"
  shows "\<exists>s'. free_if_used (of_nat p) s = Inr s' \<and> pmm_ok s' \<and> used s' = used s - {p} \<and> pmm_frame s s'"
proof (cases "p \<in> used s")
  case False
  then show ?thesis using bitmap_test_ok [OF assms] assms(1) by (simp add: free_if_used_def)
next
  case True
  let ?a = "PMM_BITMAP_VIRT + of_nat (p div 8)"
  obtain b where b: "vmem s ?a = Some b" "p < 1048576" "in_bitmap ?a"
    using page_byte [OF assms] by metis
  let ?m = "(vmem s)(?a \<mapsto> b AND NOT (2 ^ (p mod 8)))"
  let ?s' = "s\<lparr>vmem := ?m, pmm_used_pages := pmm_used_pages s - 1\<rparr>"
  have "bitmap_clear (of_nat p) s = Inr (s\<lparr>vmem := ?m\<rparr>)"
    using b by (simp add: bitmap_clear_def load8_def rd8_def store8_def wr8_def page_word)
  then have "free_if_used (of_nat p) s = Inr ?s'"
    using True bitmap_test_ok [OF assms] by (simp add: free_if_used_def)
  moreover have u: "used ?s' = used s - {p}"
    using pmm_okD(1) [OF assms(1)] b by (auto simp: used_def page_bit_upd)
  moreover have "pmm_ok ?s'"
  proof -
    have "unat (pmm_used_pages s) \<noteq> 0" using pmm_okD(3) [OF assms(1)] True by auto
    then have "unat (pmm_used_pages s - 1) = card (used s) - 1"
      using pmm_okD(3) [OF assms(1)] by (metis unat_minus_one unat_0)
    then have "unat (pmm_used_pages s - 1) = card (used ?s')" using u True by simp
    then show ?thesis using pmm_okD [OF assms(1)] by (simp add: pmm_ok_def mapped_fun_upd)
  qed
  moreover have "pmm_frame s ?s'" using b by (auto simp: pmm_frame_def)
  ultimately show ?thesis by blast
qed

section \<open>The searches\<close>

text \<open>\<open>bitmap_find_free\<close> is the first free page below the last full group of 32.\<close>

lemma find_append: "List.find P (xs @ ys) = (case List.find P xs of Some x \<Rightarrow> Some x | None \<Rightarrow> List.find P ys)"
  by (induction xs) auto

lemma find_bit_ok:
  assumes "pmm_ok s" "i < 2 ^ 40"
  shows "set ks \<subseteq> {..<32} \<Longrightarrow>
    find_bit ks (of_nat i) s = Inr (map_option of_nat
      (List.find (\<lambda>p. p < unat (pmm_total_pages s) \<and> p \<notin> used s) (map (\<lambda>k. 32 * i + k) ks)))"
proof (induction ks)
  case Nil
  show ?case by simp
next
  case (Cons k ks)
  let ?p = "32 * i + k"
  have page: "of_nat i * 32 + of_nat k = (of_nat ?p :: u64)" by simp
  have "?p < 2 ^ 64" using assms(2) Cons.prems by simp
  then have lt: "(of_nat ?p :: u64) < pmm_total_pages s \<longleftrightarrow> ?p < unat (pmm_total_pages s)"
    by (simp add: word_less_nat_alt del: of_nat_add of_nat_mult)
  show ?case
  proof (cases "?p < unat (pmm_total_pages s)")
    case True
    then show ?thesis
      using Cons bitmap_test_ok [OF assms(1) True]
      by (simp add: Let_def page lt del: of_nat_add of_nat_mult)
  next
    case False
    then show ?thesis using Cons by (simp add: Let_def page lt del: of_nat_add of_nat_mult)
  qed
qed

lemma all_ones_dword:
  assumes "ucast (word_of_bytes bs) = (0xFFFFFFFF :: u32)" "length bs = 4" "j < 4" "k < 8"
  shows "bit (bs ! j) k"
proof -
  obtain a b c d where bs: "bs = [a, b, c, d]"
    using assms(2) by (auto simp: numeral_eq_Suc length_Suc_conv)
  have "bit (0xFFFFFFFF :: u32) (8 * j + k)"
  proof -
    have "(0xFFFFFFFF :: u32) = mask 32" by (simp add: mask_eq_exp_minus_1)
    then show ?thesis using assms(3,4) by (simp only: bit_mask_iff) simp
  qed
  then have "bit (word_of_bytes bs) (8 * j + k)"
    using assms(1,3,4) by (metis bit_ucast_iff)
  moreover have "j = 0 \<or> j = 1 \<or> j = 2 \<or> j = 3" using assms(3) by auto
  ultimately show ?thesis using assms(4) by (auto simp: bs bit_simps dest: bit_imp_le_length)
qed

lemma full_dword:
  assumes "load32 (PMM_BITMAP_VIRT + 4 * of_nat i) s = Inr 0xFFFFFFFF" "32 * i \<le> p" "p < 32 * i + 32"
    "p < unat (pmm_total_pages s)"
  shows "p \<in> used s"
proof -
  from assms(1) obtain bs where bs: "rd_bytes (vmem s) (PMM_BITMAP_VIRT + 4 * of_nat i) 4 = Inr bs"
    "ucast (word_of_bytes bs) = (0xFFFFFFFF :: u32)"
    by (auto simp: load32_def rd32_def rbind_eq_Inr)
  let ?j = "p div 8 - 4 * i"
  have j: "?j < 4" "p div 8 = 4 * i + ?j" using assms(2,3) by auto
  have "vmem s (PMM_BITMAP_VIRT + 4 * of_nat i + of_nat ?j) = Some (bs ! ?j)" "length bs = 4"
    using bs(1) j(1) unfolding rd_bytes_eq_Inr by auto
  moreover have "PMM_BITMAP_VIRT + 4 * of_nat i + of_nat ?j = PMM_BITMAP_VIRT + of_nat (p div 8)"
    using arg_cong [OF j(2), of "of_nat :: nat \<Rightarrow> u64"] by (simp add: add.assoc)
  ultimately have "page_bit (vmem s) p = bit (bs ! ?j) (p mod 8)" by (simp add: page_bit_def)
  then show ?thesis
    using all_ones_dword [OF bs(2) \<open>length bs = 4\<close> j(1), of "p mod 8"] assms(4) by (simp add: used_def)
qed

lemma find_dword_ok:
  assumes "pmm_ok s" "32 * n \<le> unat (pmm_total_pages s)"
  shows "set is \<subseteq> {..<n} \<Longrightarrow>
    find_dword is s = Inr (map_option of_nat
      (List.find (\<lambda>p. p < unat (pmm_total_pages s) \<and> p \<notin> used s)
         (concat (map (\<lambda>i. map (\<lambda>k. 32 * i + k) [0..<32]) is))))"
proof (induction "is")
  case Nil
  show ?case by simp
next
  case (Cons i "is")
  let ?P = "\<lambda>p. p < unat (pmm_total_pages s) \<and> p \<notin> used s"
  let ?ps = "map (\<lambda>k. 32 * i + k) [0..<32]"
  have i: "i < n" using Cons.prems by simp
  have n: "n < 2 ^ 20" using assms(2) pmm_okD(1) [OF assms(1)] by simp
  have "mapped (vmem s) (PMM_BITMAP_VIRT + 4 * of_nat i) 4"
  proof -
    have "4 * i + k < (unat (pmm_total_pages s) + 7) div 8" if "k < 4" for k
      using div_le_mono [of "8 * (4 * i + k + 1)" "unat (pmm_total_pages s) + 7" 8] assms(2) i that by simp
    then have "vmem s (PMM_BITMAP_VIRT + of_nat (4 * i + k)) \<noteq> None" if "k < 4" for k
      using pmm_okD(2) [OF assms(1)] that unfolding mapped_def by blast
    then show ?thesis by (simp add: mapped_def add.assoc)
  qed
  then obtain w where w: "load32 (PMM_BITMAP_VIRT + 4 * of_nat i) s = Inr w"
    using mapped_imp_rd_bytes by (fastforce simp: load32_def rd32_def)
  have fb: "find_bit [0..<32] (of_nat i) s = Inr (map_option of_nat (List.find ?P ?ps))"
    using i n by (intro find_bit_ok [OF assms(1)]) auto
  have skip: "w = 0xFFFFFFFF \<Longrightarrow> List.find ?P ?ps = None"
    using full_dword [of i s] w by (auto simp: find_None_iff)
  have rest: "find_dword is s = Inr (map_option of_nat (List.find ?P (concat (map (\<lambda>i. map (\<lambda>k. 32 * i + k) [0..<32]) is))))"
    using Cons by simp
  show ?case
    using skip
    by (cases "List.find ?P ?ps") (auto simp: w fb rest find_append simp del: upt_Suc)
qed

lemma concat_32: "concat (map (\<lambda>i. map (\<lambda>k. 32 * i + k) [0..<32]) [0..<n]) = [0..<32 * n]"
proof (induction n)
  case 0
  show ?case by simp
next
  case (Suc n)
  have "map (\<lambda>k. 32 * n + k) [0..<32] = [32 * n..<32 * n + 32]"
    using map_add_upt [of "32 * n" 32] by (simp add: add.commute)
  moreover have "[0..<32 * Suc n] = [0..<32 * n] @ [32 * n..<32 * n + 32]"
    using upt_add_eq_append [of 0 "32 * n" 32] by (simp add: algebra_simps)
  ultimately show ?case using Suc by (simp only: upt_Suc_append map_append concat_append) simp
qed

definition searched :: "'a pmm_scheme \<Rightarrow> nat" where
  "searched s = 32 * (unat (pmm_total_pages s) div 32)"

lemma find_free_ok:
  assumes "pmm_ok s"
  shows "bitmap_find_free s = Inr (map_option of_nat (List.find (\<lambda>p. p \<notin> used s) [0..<searched s]))"
proof -
  let ?n = "unat (pmm_total_pages s) div 32"
  have le: "32 * ?n \<le> unat (pmm_total_pages s)" by simp
  have "List.find (\<lambda>p. p < unat (pmm_total_pages s) \<and> p \<notin> used s) [0..<32 * ?n]
      = List.find (\<lambda>p. p \<notin> used s) [0..<32 * ?n]"
    using le by (intro find_cong refl) auto
  moreover have "unat (pmm_total_pages s div 32) = ?n" by (simp add: unat_div_distrib)
  moreover have "set [0..<?n] \<subseteq> {..<?n}" by auto
  ultimately show ?thesis
    using find_dword_ok [OF assms le, of "[0..<?n]"]
    by (simp only: bitmap_find_free_def searched_def concat_32 Let_def)
qed

text \<open>
  \<open>bitmap_find_free_region\<close>: the start of a run of \<open>count\<close> free pages, if there is one.
  The loop invariant: the last \<open>c\<close> pages before \<open>j\<close> are free and the page before them
  is not, and no run of \<open>count\<close> free pages ends at or before \<open>j\<close>.
\<close>

definition free_run :: "'a pmm_scheme \<Rightarrow> nat \<Rightarrow> nat \<Rightarrow> bool" where
  "free_run s a n \<longleftrightarrow> a + n \<le> unat (pmm_total_pages s) \<and> (\<forall>p. a \<le> p \<and> p < a + n \<longrightarrow> p \<notin> used s)"

lemma find_region_ok:
  assumes "pmm_ok s" "n < 2 ^ 64" "0 < n"
  shows "j + length is = unat (pmm_total_pages s) \<Longrightarrow> is = [j..<unat (pmm_total_pages s)] \<Longrightarrow>
    c \<le> j \<Longrightarrow> c < n \<Longrightarrow> (c \<noteq> 0 \<longrightarrow> st = of_nat (j - c)) \<Longrightarrow>
    \<forall>p. j - c \<le> p \<and> p < j \<longrightarrow> p \<notin> used s \<Longrightarrow> (c < j \<longrightarrow> j - c - 1 \<in> used s) \<Longrightarrow>
    (\<forall>a. a + n \<le> j \<longrightarrow> \<not> free_run s a n) \<Longrightarrow>
    (\<exists>r. find_region is (of_nat n) (of_nat c) st s = Inr r \<and>
      (case r of None \<Rightarrow> \<forall>a. \<not> free_run s a n | Some a \<Rightarrow> \<exists>k. a = of_nat k \<and> free_run s k n))"
proof (induction "is" arbitrary: j c st)
  case Nil
  then show ?case by (auto simp: free_run_def)
next
  case (Cons i "is")
  let ?T = "unat (pmm_total_pages s)"
  have j: "j < ?T" "i = j" "is = [Suc j..<?T]"
    using Cons.prems(2) [symmetric] by (auto simp: upt_eq_Cons_conv)
  have T: "?T \<le> 1048576" by (rule pmm_okD(1) [OF assms(1)])
  have test: "bitmap_test (of_nat j) s = Inr (j \<in> used s)" by (rule bitmap_test_ok [OF assms(1) j(1)])
  have len: "Suc j + length is = ?T" using j by simp
  show ?case
  proof (cases "j \<in> used s")
    case True
    have "\<not> free_run s a n" if "a + n \<le> Suc j" for a
      using that True assms(3) Cons.prems(8) by (cases "a + n = Suc j") (auto simp: free_run_def intro!: exI [of _ j])
    then have "\<exists>r. find_region is (of_nat n) (of_nat 0) st s = Inr r \<and>
      (case r of None \<Rightarrow> \<forall>a. \<not> free_run s a n | Some a \<Rightarrow> \<exists>k. a = of_nat k \<and> free_run s k n)"
      using len j(3) assms(3) True by (intro Cons.IH) auto
    then show ?thesis using True by (simp add: j(2) test)
  next
    case False
    let ?st = "if (of_nat c :: u64) = 0 then of_nat j else st"
    have c0: "(of_nat c :: u64) = 0 \<longleftrightarrow> c = 0"
    proof -
      have "c < 2 ^ 64" using Cons.prems(4) assms(2) by linarith
      then have "unat (of_nat c :: u64) = c" by simp
      then show ?thesis by (metis unat_eq_zero)
    qed
    have st: "?st = of_nat (Suc j - Suc c)" using Cons.prems(5) c0 by simp
    have cw: "(of_nat c + 1 :: u64) = of_nat (Suc c)" by simp
    have ge: "(of_nat n :: u64) \<le> of_nat (Suc c) \<longleftrightarrow> n \<le> Suc c"
      using Cons.prems(4) assms(2) by (simp add: word_le_nat_alt del: of_nat_Suc)
    have fr: "\<forall>p. Suc j - Suc c \<le> p \<and> p < Suc j \<longrightarrow> p \<notin> used s"
      using Cons.prems(6) False by (auto simp: less_Suc_eq)
    show ?thesis
    proof (cases "n \<le> Suc c")
      case True
      then have n: "n = Suc c" using Cons.prems(4) by simp
      have "free_run s (Suc j - Suc c) n"
        using fr j(1) Cons.prems(3) by (auto simp: free_run_def n)
      moreover have "find_region (i # is) (of_nat n) (of_nat c) st s = Inr (Some ?st)"
        using False ge True by (simp add: j(2) test Let_def cw del: of_nat_Suc)
      ultimately show ?thesis using st by auto
    next
      case False2: False
      have "\<not> free_run s a n" if "a + n \<le> Suc j" for a
      proof (cases "a + n = Suc j")
        case True
        then have "c < j" "a \<le> j - c - 1" "j - c - 1 < a + n" using False2 by auto
        then show ?thesis using Cons.prems(7) by (auto simp: free_run_def)
      next
        case False
        then show ?thesis using Cons.prems(8) that by simp
      qed
      then have "\<exists>r. find_region is (of_nat n) (of_nat (Suc c)) ?st s = Inr r \<and>
        (case r of None \<Rightarrow> \<forall>a. \<not> free_run s a n | Some a \<Rightarrow> \<exists>k. a = of_nat k \<and> free_run s k n)"
        using len j(3) st fr False2 Cons.prems(3,7) by (intro Cons.IH) auto
      then show ?thesis using False ge False2 by (simp add: j(2) test Let_def cw del: of_nat_Suc)
    qed
  qed
qed

lemma find_free_region_ok:
  assumes "pmm_ok s" "0 < count"
  shows "\<exists>r. bitmap_find_free_region count s = Inr r \<and>
    (case r of None \<Rightarrow> \<forall>a. \<not> free_run s a (unat count)
     | Some a \<Rightarrow> \<exists>k. a = of_nat k \<and> free_run s k (unat count))"
  using find_region_ok [OF assms(1), of "unat count" 0 "[0..<unat (pmm_total_pages s)]" 0 0] assms(2)
  by (simp add: bitmap_find_free_region_def free_run_def unat_gt_0 word_neq_0_conv)

section \<open>The loops over pages\<close>

lemma page_lt:
  assumes "k + i < 2 ^ 64"
  shows "of_nat k + of_nat i = (of_nat (k + i) :: u64)"
    "(of_nat (k + i) :: u64) < pmm_total_pages s \<longleftrightarrow> k + i < unat (pmm_total_pages s)"
  using assms by (simp_all add: word_less_nat_alt del: of_nat_add) (simp add: of_nat_add)

lemma set_pages_ok:
  "pmm_ok s \<Longrightarrow> distinct is \<Longrightarrow>
     \<forall>i \<in> set is. k + i < unat (pmm_total_pages s) \<and> k + i \<notin> used s \<Longrightarrow>
     \<exists>s'. set_pages is (of_nat k) s = Inr s' \<and> pmm_ok s' \<and> used s' = used s \<union> (+) k ` set is \<and> pmm_frame s s'"
proof (induction "is" arbitrary: s)
  case Nil
  then show ?case by simp
next
  case (Cons i "is")
  have p: "k + i < unat (pmm_total_pages s)" "k + i \<notin> used s" using Cons.prems(3) by auto
  obtain t where t: "bitmap_set (of_nat (k + i)) s = Inr t"
    "pmm_ok (t\<lparr>pmm_used_pages := pmm_used_pages t + 1\<rparr>)"
    "used (t\<lparr>pmm_used_pages := pmm_used_pages t + 1\<rparr>) = insert (k + i) (used s)"
    "pmm_frame s (t\<lparr>pmm_used_pages := pmm_used_pages t + 1\<rparr>)"
    using alloc_bit [OF Cons.prems(1) p] by (auto simp: Let_def)
  let ?t = "t\<lparr>pmm_used_pages := pmm_used_pages t + 1\<rparr>"
  have "\<forall>j \<in> set is. k + j < unat (pmm_total_pages ?t) \<and> k + j \<notin> used ?t"
    using Cons.prems(2,3) t(3) pmm_frame_total [OF t(4)] by auto
  then obtain s' where "set_pages is (of_nat k) ?t = Inr s'" "pmm_ok s'"
    "used s' = used ?t \<union> (+) k ` set is" "pmm_frame ?t s'"
    using Cons.IH [OF t(2)] Cons.prems(2) by auto
  with t pmm_frame_trans [OF t(4)] show ?case by simp
qed

lemma free_pages_from_ok:
  "pmm_ok s \<Longrightarrow> \<forall>i \<in> set is. k + i < 2 ^ 64 \<Longrightarrow>
     \<exists>s'. free_pages_from is (of_nat k) s = Inr s' \<and> pmm_ok s' \<and> used s' = used s - (+) k ` set is \<and> pmm_frame s s'"
proof (induction "is" arbitrary: s)
  case Nil
  then show ?case by simp
next
  case (Cons i "is")
  have w: "k + i < 2 ^ 64" using Cons.prems(2) by simp
  obtain t where t: "(if of_nat (k + i) < pmm_total_pages s then free_if_used (of_nat (k + i)) s else Inr s) = Inr t"
    "pmm_ok t" "used t = used s - {k + i}" "pmm_frame s t"
  proof (cases "k + i < unat (pmm_total_pages s)")
    case True
    then show ?thesis
      using free_if_used_ok [OF Cons.prems(1) True] page_lt(2) [OF w, of s] that by auto
  next
    case False
    then have "k + i \<notin> used s" by (simp add: used_def)
    then show ?thesis using False page_lt(2) [OF w, of s] that [of s] Cons.prems(1) by simp
  qed
  obtain s' where "free_pages_from is (of_nat k) t = Inr s'" "pmm_ok s'"
    "used s' = used t - (+) k ` set is" "pmm_frame t s'"
    using Cons.IH [OF t(2)] Cons.prems(2) by auto
  with t pmm_frame_trans [OF t(4)] show ?case
    unfolding free_pages_from.simps Let_def page_lt(1) [OF w] by auto
qed

lemma use_pages_from_ok:
  "pmm_ok s \<Longrightarrow> \<forall>i \<in> set is. k + i < 2 ^ 64 \<Longrightarrow>
     \<exists>s'. use_pages_from is (of_nat k) s = Inr s' \<and> pmm_ok s' \<and>
       used s' = used s \<union> ((+) k ` set is \<inter> {..<unat (pmm_total_pages s)}) \<and> pmm_frame s s'"
proof (induction "is" arbitrary: s)
  case Nil
  then show ?case by simp
next
  case (Cons i "is")
  let ?T = "unat (pmm_total_pages s)"
  have w: "k + i < 2 ^ 64" using Cons.prems(2) by simp
  let ?use = "\<lambda>s. rbind (bitmap_set (of_nat (k + i)) s) (\<lambda>s. Inr (s\<lparr>pmm_used_pages := pmm_used_pages s + 1\<rparr>))"
  obtain u t where t: "(if of_nat (k + i) < pmm_total_pages s then bitmap_test (of_nat (k + i)) s else Inr True) = Inr u"
    "(if \<not> u then ?use s else Inr s) = Inr t"
    "pmm_ok t" "used t = used s \<union> ({k + i} \<inter> {..<?T})" "pmm_frame s t"
  proof (cases "k + i < ?T \<and> k + i \<notin> used s")
    case True
    then show ?thesis
      using alloc_bit [OF Cons.prems(1), of "k + i"] bitmap_test_ok [OF Cons.prems(1), of "k + i"]
        page_lt(2) [OF w, of s] that [of False] by (auto simp: Let_def)
  next
    case False
    then show ?thesis
      using bitmap_test_ok [OF Cons.prems(1), of "k + i"] page_lt(2) [OF w, of s] that [of True s] Cons.prems(1)
      by (cases "k + i < ?T") auto
  qed
  obtain s' where "use_pages_from is (of_nat k) t = Inr s'" "pmm_ok s'"
    "used s' = used t \<union> ((+) k ` set is \<inter> {..<unat (pmm_total_pages t)})" "pmm_frame t s'"
    using Cons.IH [OF t(3)] Cons.prems(2) by auto
  with t pmm_frame_trans [OF t(5)] pmm_frame_total [OF t(5)] show ?case
    unfolding use_pages_from.simps Let_def page_lt(1) [OF w] by auto
qed

lemma free_range_ok:
  "pmm_ok s \<Longrightarrow> set ps \<subseteq> {..<unat (pmm_total_pages s)} \<Longrightarrow>
     \<exists>s'. free_range ps s = Inr s' \<and> pmm_ok s' \<and> used s' = used s - set ps \<and> pmm_frame s s'"
proof (induction ps arbitrary: s)
  case Nil
  then show ?case by simp
next
  case (Cons p ps)
  then obtain t where t: "free_if_used (of_nat p) s = Inr t" "pmm_ok t" "used t = used s - {p}" "pmm_frame s t"
    using free_if_used_ok [of s p] by auto
  obtain s' where "free_range ps t = Inr s'" "pmm_ok s'" "used s' = used t - set ps" "pmm_frame t s'"
    using Cons.IH [OF t(2)] Cons.prems(2) pmm_frame_total [OF t(4)] by auto
  with t pmm_frame_trans [OF t(4)] show ?case by auto
qed

section \<open>The allocators\<close>

lemma page_addr_div:
  assumes "p < 2 ^ 52"
  shows "(of_nat p * PAGE_SIZE) div PAGE_SIZE = (of_nat p :: u64)" "unat (of_nat p * PAGE_SIZE :: u64) = p * 4096"
proof -
  have eq: "of_nat p * PAGE_SIZE = (of_nat (p * 4096) :: u64)" by (simp add: PAGE_SIZE_def)
  have lt: "p * 4096 < 2 ^ 64" using assms by simp
  show u: "unat (of_nat p * PAGE_SIZE :: u64) = p * 4096" unfolding eq using lt by (rule unat_of_nat_lt)
  have "unat ((of_nat p * PAGE_SIZE) div PAGE_SIZE :: u64) = p"
    unfolding unat_div_distrib u by (simp add: PAGE_SIZE_def)
  also have "\<dots> = unat (of_nat p :: u64)" using assms by simp
  finally show "(of_nat p * PAGE_SIZE) div PAGE_SIZE = (of_nat p :: u64)" by (simp only: word_unat_eq_iff)
qed

lemma alloc_page_ok:
  assumes "pmm_ok s"
  shows "(pmm_alloc_page s = Inl (Panic (str ''PMM: Out of physical memory!'')) \<and> {..<searched s} \<subseteq> used s) \<or>
    (\<exists>p s'. pmm_alloc_page s = Inr (of_nat p * PAGE_SIZE, s') \<and> p < searched s \<and> p \<notin> used s \<and>
       {..<p} \<subseteq> used s \<and> used s' = insert p (used s) \<and> pmm_ok s' \<and> pmm_frame s s')"
proof (cases "List.find (\<lambda>p. p \<notin> used s) [0..<searched s]")
  case None
  then have "bitmap_find_free s = Inr None" by (simp add: find_free_ok [OF assms])
  moreover have "{..<searched s} \<subseteq> used s" using None by (auto simp: find_None_iff)
  ultimately show ?thesis by (simp add: pmm_alloc_page_def)
next
  case (Some p)
  from Some have p: "p < searched s" "p \<notin> used s" "{..<p} \<subseteq> used s"
    by (fastforce simp: find_Some_iff)+
  have "searched s \<le> unat (pmm_total_pages s)" by (simp add: searched_def)
  then have "p < unat (pmm_total_pages s)" using p(1) by simp
  from alloc_bit [OF assms this p(2)] show ?thesis
    using p find_free_ok [OF assms] Some by (auto simp: pmm_alloc_page_def Let_def)
qed

lemma free_page_ok:
  assumes "pmm_ok s" "p < 2 ^ 52"
  shows "\<exists>s'. pmm_free_page (of_nat p * PAGE_SIZE) s = Inr s' \<and> pmm_ok s' \<and> used s' = used s - {p} \<and> pmm_frame s s'"
proof (cases "p < unat (pmm_total_pages s)")
  case True
  then have "\<not> pmm_total_pages s \<le> of_nat p" using assms(2) by (simp add: word_le_nat_alt)
  then show ?thesis
    using free_if_used_ok [OF assms(1) True] by (simp add: pmm_free_page_def page_addr_div [OF assms(2)])
next
  case False
  then have "pmm_total_pages s \<le> of_nat p" "p \<notin> used s" using assms(2) by (simp_all add: word_le_nat_alt used_def)
  then show ?thesis using assms(1) by (simp add: pmm_free_page_def page_addr_div [OF assms(2)])
qed

lemma image_plus_upt: "(+) k ` set [0..<n] = {k..<k + (n :: nat)}"
  by (simp add: image_add_atLeastLessThan add.commute)

lemma alloc_pages_ok:
  assumes "pmm_ok s" "0 < count"
  shows "(pmm_alloc_pages count s = Inl (Panic (str ''PMM: Cannot allocate contiguous pages!'')) \<and>
      (\<forall>a. \<not> free_run s a (unat count))) \<or>
    (\<exists>p s'. pmm_alloc_pages count s = Inr (of_nat p * PAGE_SIZE, s') \<and> free_run s p (unat count) \<and>
       used s' = used s \<union> {p..<p + unat count} \<and> pmm_ok s' \<and> pmm_frame s s')"
proof -
  obtain r where r: "bitmap_find_free_region count s = Inr r"
    "case r of None \<Rightarrow> \<forall>a. \<not> free_run s a (unat count)
     | Some a \<Rightarrow> \<exists>k. a = of_nat k \<and> free_run s k (unat count)"
    using find_free_region_ok [OF assms] by blast
  show ?thesis
  proof (cases r)
    case None
    with r show ?thesis by (simp add: pmm_alloc_pages_def)
  next
    case (Some a)
    with r obtain k where k: "a = of_nat k" "free_run s k (unat count)" by auto
    have "\<forall>i \<in> set [0..<unat count]. k + i < unat (pmm_total_pages s) \<and> k + i \<notin> used s"
      using k(2) by (auto simp: free_run_def)
    from set_pages_ok [OF assms(1) distinct_upt this] obtain s' where
      "set_pages [0..<unat count] (of_nat k) s = Inr s'" "pmm_ok s'"
      "used s' = used s \<union> {k..<k + unat count}" "pmm_frame s s'"
      unfolding image_plus_upt by blast
    with r(1) k show ?thesis by (auto simp: pmm_alloc_pages_def Some)
  qed
qed

lemma free_pages_ok:
  assumes "pmm_ok s" "p < 2 ^ 52" "unat count < 2 ^ 63"
  shows "\<exists>s'. pmm_free_pages (of_nat p * PAGE_SIZE) count s = Inr s' \<and> pmm_ok s' \<and>
    used s' = used s - {p..<p + unat count} \<and> pmm_frame s s'"
proof -
  have "\<forall>i \<in> set [0..<unat count]. p + i < 2 ^ 64" using assms(2,3) by auto
  from free_pages_from_ok [OF assms(1) this] show ?thesis
    unfolding image_plus_upt pmm_free_pages_def Let_def page_addr_div [OF assms(2)] .
qed

section \<open>Initialisation\<close>

text \<open>The pages a memory map gives, in numbers that do not wrap, and the reserved ones.\<close>

definition entry_fits :: "e820_entry \<Rightarrow> bool" where
  "entry_fits e \<longleftrightarrow> unat (e_base e) + unat (e_length e) + 4095 < 2 ^ 64"

definition in_entry :: "e820_entry \<Rightarrow> nat \<Rightarrow> bool" where
  "in_entry e p \<longleftrightarrow> e_type e = E820_USABLE \<and> unat (e_base e) \<le> 4096 * p \<and>
     4096 * (p + 1) \<le> unat (e_base e) + unat (e_length e)"

definition reserved :: "nat \<Rightarrow> nat \<Rightarrow> bool" where
  "reserved T p \<longleftrightarrow> p < 128 \<or> (256 \<le> p \<and> p < 512) \<or>
     (512 \<le> p \<and> p < 512 + ((T + 7) div 8 + 4095) div 4096)"

lemma page_round:
  assumes "unat a + 4095 < 2 ^ 64"
  shows "unat (a + PAGE_SIZE - 1) = unat a + 4095"
proof -
  have "a + PAGE_SIZE - 1 = a + of_nat 4095" by (simp add: PAGE_SIZE_def)
  then show ?thesis using unat_add_of_nat [OF assms] by (simp only:)
qed

lemma region_free_ok:
  assumes "pmm_ok s" "entry_fits e" "e_type e = E820_USABLE"
  shows "\<exists>s'. pmm_mark_region_free (e_base e) (e_length e) s = Inr s' \<and> pmm_ok s' \<and>
    used s' = used s - Collect (in_entry e) \<and> pmm_frame s s'"
proof -
  let ?b = "unat (e_base e)" and ?l = "unat (e_length e)"
  have fit: "?b + ?l + 4095 < 2 ^ 64" using assms(2) by (simp add: entry_fits_def)
  have "unat (e_base e + PAGE_SIZE - 1) = ?b + 4095" using fit by (intro page_round) simp
  then have lo: "unat ((e_base e + PAGE_SIZE - 1) div PAGE_SIZE) = (?b + 4095) div 4096"
    by (simp add: unat_div_distrib PAGE_SIZE_def)
  have "unat (e_base e + e_length e) = ?b + ?l" using fit by (simp add: unat_plus_if')
  then have hi: "unat ((e_base e + e_length e) div PAGE_SIZE) = (?b + ?l) div 4096"
    by (simp add: unat_div_distrib PAGE_SIZE_def)
  let ?T = "unat (pmm_total_pages s)"
  have "used s - set [(?b + 4095) div 4096..<min ((?b + ?l) div 4096) ?T] = used s - Collect (in_entry e)"
  proof -
    have 1: "(?b + 4095) div 4096 \<le> p \<longleftrightarrow> ?b \<le> 4096 * p" for p :: nat by linarith
    have 2: "p < (?b + ?l) div 4096 \<longleftrightarrow> 4096 * (p + 1) \<le> ?b + ?l" for p :: nat
      using less_eq_div_iff_mult_less_eq [of 4096 "Suc p" "?b + ?l"] by (simp add: Suc_le_eq mult.commute)
    show ?thesis
      using assms(3) by (auto simp: in_entry_def 1 2 used_def)
  qed
  moreover have "set [(?b + 4095) div 4096..<min ((?b + ?l) div 4096) ?T] \<subseteq> {..<?T}" by auto
  ultimately show ?thesis
    using free_range_ok [OF assms(1), of "[(?b + 4095) div 4096..<min ((?b + ?l) div 4096) ?T]"]
    by (simp add: pmm_mark_region_free_def lo hi)
qed

lemma free_usable_ok:
  "pmm_ok s \<Longrightarrow> \<forall>e \<in> set es. entry_fits e \<Longrightarrow>
     \<exists>s'. free_usable es s = Inr s' \<and> pmm_ok s' \<and>
       used s' = {p \<in> used s. \<not> (\<exists>e \<in> set es. in_entry e p)} \<and> pmm_frame s s'"
proof (induction es arbitrary: s)
  case Nil
  then show ?case by simp
next
  case (Cons e es)
  obtain t where t: "(if e_type e = E820_USABLE then pmm_mark_region_free (e_base e) (e_length e) s else Inr s) = Inr t"
    "pmm_ok t" "used t = used s - Collect (in_entry e)" "pmm_frame s t"
  proof (cases "e_type e = E820_USABLE")
    case True
    then show ?thesis using region_free_ok [OF Cons.prems(1) _ True] Cons.prems(2) that by auto
  next
    case False
    then have "used s - Collect (in_entry e) = used s" by (auto simp: in_entry_def)
    then show ?thesis using False Cons.prems(1) that [of s] by simp
  qed
  obtain s' where "free_usable es t = Inr s'" "pmm_ok s'"
    "used s' = {p \<in> used t. \<not> (\<exists>e \<in> set es. in_entry e p)}" "pmm_frame t s'"
    using Cons.IH [OF t(2)] Cons.prems(2) by auto
  with t pmm_frame_trans [OF t(4)] show ?case by auto
qed

lemma region_used_ok:
  assumes "pmm_ok s" "unat len + 4095 < 2 ^ 63"
  shows "\<exists>s'. pmm_mark_region_used base len s = Inr s' \<and> pmm_ok s' \<and>
    used s' = used s \<union> ({unat base div 4096..<unat base div 4096 + (unat len + 4095) div 4096}
      \<inter> {..<unat (pmm_total_pages s)}) \<and> pmm_frame s s'"
proof -
  have "unat (len + PAGE_SIZE - 1) = unat len + 4095"
    using assms(2) by (intro page_round) simp
  then have n: "unat ((len + PAGE_SIZE - 1) div PAGE_SIZE) = (unat len + 4095) div 4096"
    by (simp add: unat_div_distrib PAGE_SIZE_def)
  have "unat (base div PAGE_SIZE) = unat base div 4096" by (simp add: unat_div_distrib PAGE_SIZE_def)
  then have b: "base div PAGE_SIZE = of_nat (unat base div 4096)" by (metis of_nat_unat ucast_id)
  have "unat base div 4096 < 2 ^ 52" using less_mult_imp_div_less [of "unat base" "2 ^ 52" 4096] by simp
  then have "\<forall>i \<in> set [0..<(unat len + 4095) div 4096]. unat base div 4096 + i < 2 ^ 64"
    using assms(2) by auto
  from use_pages_from_ok [OF assms(1) this] show ?thesis
    unfolding image_plus_upt by (simp add: pmm_mark_region_used_def n b del: of_nat_div)
qed

lemma all_used:
  assumes "unat T \<le> 2 ^ 20" "mapped m PMM_BITMAP_VIRT (2 ^ 17)"
    "vmem s = mem_upd m PMM_BITMAP_VIRT (replicate ((unat T + 7) div 8) 0xFF)"
    "pmm_total_pages s = T" "pmm_used_pages s = T"
  shows "pmm_ok s" "used s = {..<unat T}"
proof -
  let ?n = "(unat T + 7) div 8"
  have n: "?n \<le> 2 ^ 17" using assms(1) by simp
  have ff: "bit (0xFF :: u8) k \<longleftrightarrow> k < 8" for k
  proof -
    have "(0xFF :: u8) = mask 8" by (simp add: mask_eq_exp_minus_1)
    then show ?thesis by (simp only: bit_mask_iff) simp
  qed
  have "page_bit (vmem s) p" if "p < unat T" for p
  proof -
    have "p div 8 < ?n" using div_le_mono [of "p + 8" "unat T + 7" 8] that by simp
    moreover have "p div 8 < 2 ^ 64" using that assms(1) by simp
    ultimately show ?thesis
      using ff [of "p mod 8"] by (simp add: page_bit_def assms(3) mem_upd_def)
  qed
  then show u: "used s = {..<unat T}" using assms(4) by (auto simp: used_def)
  have "mapped m PMM_BITMAP_VIRT ?n" using assms(2) n by (simp add: mapped_def)
  then show "pmm_ok s" using assms u by (simp add: pmm_ok_def mapped_mem_upd)
qed

lemma ports_only_pmm:
  assumes "ports_only s s'"
  shows "used s' = used s" "pmm_ok s' = pmm_ok s" "pmm_total_pages s' = pmm_total_pages s"
  using assms unfolding ports_only_def by (cases s, cases s', auto simp: used_def pmm_ok_def)+

text \<open>The log lines at the end of \<open>pmm_init\<close> change no page.\<close>

lemma log_pmm:
  assumes "uart_answers dev SERIAL_COM1" "0 < n" "\<And>t. ports_only s t \<Longrightarrow> \<exists>s'. k t = Inr s' \<and> P s'"
  shows "\<exists>s'. rbind (serial_puts dev n SERIAL_COM1 cs s) k = Inr s' \<and> P s'"
proof -
  obtain t where "serial_puts dev n SERIAL_COM1 cs s = Inr t" "ports_only s t"
    using serial_puts_ready [OF assms(1,2)] by blast
  with assms(3) show ?thesis by auto
qed

lemma mapped_part: "mapped m a k \<Longrightarrow> n \<le> k \<Longrightarrow> mapped m a n"
  by (simp add: mapped_def)

text \<open>The lines that \<open>pmm_init\<close> prints at its end.\<close>

abbreviation report_pages :: "device \<Rightarrow> nat \<Rightarrow> 'a pmm_scheme \<Rightarrow> 'a pmm_scheme res" where
  "report_pages dev n s \<equiv>
     rbind (serial_puts dev n SERIAL_COM1 (str ''PMM: Total pages: '') s) (\<lambda>s.
     rbind (serial_puts dev n SERIAL_COM1 (ultoa (pmm_total_pages s) 10) s) (\<lambda>s.
     rbind (serial_puts dev n SERIAL_COM1 (str '', Free: '') s) (\<lambda>s.
     rbind (serial_puts dev n SERIAL_COM1 (ultoa (pmm_total_pages s - pmm_used_pages s) 10) s) (\<lambda>s.
     serial_puts dev n SERIAL_COM1 (str ''\<newline>'') s))))"

text \<open>What it changes before that.\<close>

definition pmm_setup :: "'a pmm_scheme \<Rightarrow> 'a pmm_scheme \<Rightarrow> bool" where
  "pmm_setup s s' \<longleftrightarrow>
     s'\<lparr>vmem := vmem s, pmm_total_memory := pmm_total_memory s, pmm_total_pages := pmm_total_pages s,
        pmm_used_pages := pmm_used_pages s\<rparr> = s \<and>
     (\<forall>x. \<not> in_bitmap x \<longrightarrow> vmem s' x = vmem s x) \<and>
     (\<forall>x. vmem s x \<noteq> None \<longrightarrow> vmem s' x \<noteq> None)"

lemma pmm_setup_frame: "pmm_setup s t \<Longrightarrow> pmm_frame t u \<Longrightarrow> pmm_setup s u"
  unfolding pmm_setup_def pmm_frame_def by (cases s, cases t, cases u) auto

lemma pmm_init_run:
  assumes map: "mapped (vmem s) PMM_BITMAP_VIRT (2 ^ 17)" and fits: "\<forall>e \<in> set mmap. entry_fits e"
  shows "\<exists>t. pmm_init dev n mmap s = report_pages dev n t \<and> pmm_ok t \<and> pmm_setup s t \<and>
    pmm_total_pages t = min PMM_MAX_MEMORY (top_of_memory mmap 0) div PAGE_SIZE \<and>
    used t = {p. p < unat (pmm_total_pages t) \<and>
      (\<not> (\<exists>e \<in> set mmap. in_entry e p) \<or> reserved (unat (pmm_total_pages t)) p)}"
proof -
  let ?top = "top_of_memory mmap 0"
  define M where "M = (if ?top > PMM_MAX_MEMORY then PMM_MAX_MEMORY else ?top)"
  define T where "T = M div PAGE_SIZE"
  define n8 where "n8 = (if T mod 8 \<noteq> 0 then T div 8 + 1 else T div 8)"
  have "unat M \<le> 2 ^ 32" by (auto simp: M_def PMM_MAX_MEMORY_def word_less_nat_alt)
  then have T: "unat T \<le> 2 ^ 20"
    using div_le_mono [of "unat M" "2 ^ 32" 4096] by (simp add: T_def unat_div_distrib PAGE_SIZE_def)
  have n8: "unat n8 = (unat T + 7) div 8"
  proof -
    have d: "unat (T div 8) = unat T div 8" by (simp add: unat_div_distrib)
    have z: "T mod 8 = 0 \<longleftrightarrow> unat T mod 8 = 0"
      by (simp add: word_unat_eq_iff unat_mod_distrib)
    have "unat (T div 8 + 1) = unat T div 8 + 1"
      using T unat_add_of_nat [of "T div 8" 1] by (simp add: d)
    then show ?thesis unfolding n8_def using d z by (cases "T mod 8 = 0") (simp, presburger, simp, presburger)
  qed
  let ?s1 = "s\<lparr>pmm_total_memory := M, pmm_total_pages := T\<rparr>"
  let ?m = "mem_upd (vmem s) PMM_BITMAP_VIRT (replicate (unat n8) 0xFF)"
  let ?s2 = "?s1\<lparr>vmem := ?m, pmm_used_pages := T\<rparr>"
  have "unat n8 \<le> 2 ^ 17" using T n8 by simp
  then have ms: "memset PMM_BITMAP_VIRT 0xFF (unat n8) ?s1 = Inr (?s1\<lparr>vmem := ?m\<rparr>)"
    using mapped_part [OF map] by (simp add: memset_mapped)
  have u2: "pmm_ok ?s2" "used ?s2 = {..<unat T}"
    by (rule all_used [of T "vmem s"]; use T map n8 in simp)+
  obtain s3 where s3: "free_usable mmap ?s2 = Inr s3" "pmm_ok s3" "pmm_frame ?s2 s3"
    "used s3 = {p \<in> used ?s2. \<not> (\<exists>e \<in> set mmap. in_entry e p)}"
    using free_usable_ok [OF u2(1) fits] by blast
  obtain s4 where s4: "pmm_mark_region_used 0 0x80000 s3 = Inr s4" "pmm_ok s4" "pmm_frame s3 s4"
    "used s4 = used s3 \<union> ({0..<128} \<inter> {..<unat (pmm_total_pages s3)})"
    using region_used_ok [OF s3(2), where len = "0x80000" and base = "0"] by auto
  obtain s5 where s5: "pmm_mark_region_used 0x100000 0x100000 s4 = Inr s5" "pmm_ok s5" "pmm_frame s4 s5"
    "used s5 = used s4 \<union> ({256..<512} \<inter> {..<unat (pmm_total_pages s4)})"
    using region_used_ok [OF s4(2), where len = "0x100000" and base = "0x100000"] by auto
  define bp where "bp = (n8 + PAGE_SIZE - 1) div PAGE_SIZE"
  have bp: "unat bp = (unat n8 + 4095) div 4096"
    using page_round [of n8] T by (simp add: bp_def unat_div_distrib n8) (simp add: PAGE_SIZE_def)
  then have "unat bp \<le> 2 ^ 10" using n8 T by simp
  then have bytes: "unat (bp * PAGE_SIZE) = unat bp * 4096"
    using page_addr_div(2) [of "unat bp"] by simp
  obtain s6 where s6: "pmm_mark_region_used PMM_BITMAP_PHYS (bp * PAGE_SIZE) s5 = Inr s6" "pmm_ok s6" "pmm_frame s5 s6"
    "used s6 = used s5 \<union> ({512..<512 + unat bp} \<inter> {..<unat (pmm_total_pages s5)})"
    using region_used_ok [OF s5(2), where len = "bp * PAGE_SIZE" and base = PMM_BITMAP_PHYS] bytes \<open>unat bp \<le> 2 ^ 10\<close>
    by (auto simp: PMM_BITMAP_PHYS_def)
  have tot: "pmm_total_pages s3 = T" "pmm_total_pages s4 = T" "pmm_total_pages s5 = T" "pmm_total_pages s6 = T"
    using pmm_frame_total [OF s3(3)] pmm_frame_total [OF s4(3)] pmm_frame_total [OF s5(3)]
      pmm_frame_total [OF s6(3)] by simp_all
  have "in_bitmap x" if "unat (x - PMM_BITMAP_VIRT) < unat n8" for x using that \<open>unat n8 \<le> 2 ^ 17\<close> by (simp add: in_bitmap_def)
  then have "pmm_setup s ?s2" by (auto simp: pmm_setup_def mem_upd_def)
  then have frame: "pmm_setup s s6"
    using pmm_setup_frame s3(3) s4(3) s5(3) s6(3) by blast
  have "pmm_init dev n mmap s = report_pages dev n s6"
    using s3(1) s4(1) s5(1) s6(1) ms
    by (simp add: pmm_init_def Let_def cong: if_cong flip: M_def T_def n8_def bp_def split del: if_split)
  moreover have "used s6 = {p. p < unat T \<and> (\<not> (\<exists>e \<in> set mmap. in_entry e p) \<or> reserved (unat T) p)}"
    using s3(4) s4(4) s5(4) s6(4) u2(2) bp n8 by (auto simp: tot reserved_def)
  moreover have "T = min PMM_MAX_MEMORY ?top div PAGE_SIZE" by (auto simp: T_def M_def min_def)
  ultimately show ?thesis using s6(2) frame tot(4) by auto
qed

lemma pmm_init_ok:
  assumes "mapped (vmem s) PMM_BITMAP_VIRT (2 ^ 17)" "\<forall>e \<in> set mmap. entry_fits e"
    and uart: "uart_answers dev SERIAL_COM1" "0 < n"
  shows "\<exists>s'. pmm_init dev n mmap s = Inr s' \<and> pmm_ok s' \<and>
    used s' = {p. p < unat (pmm_total_pages s') \<and>
      (\<not> (\<exists>e \<in> set mmap. in_entry e p) \<or> reserved (unat (pmm_total_pages s')) p)}"
proof -
  obtain t where t: "pmm_init dev n mmap s = report_pages dev n t" "pmm_ok t"
    "used t = {p. p < unat (pmm_total_pages t) \<and>
      (\<not> (\<exists>e \<in> set mmap. in_entry e p) \<or> reserved (unat (pmm_total_pages t)) p)}"
    using pmm_init_run [OF assms(1,2), of dev n] by blast
  have last: "\<exists>s'. serial_puts dev n SERIAL_COM1 cs u = Inr s' \<and> ports_only t s'" if "ports_only t u" for u cs
    using serial_puts_ready [OF uart, of cs u] ports_only_trans [OF that] by blast
  have "\<exists>s'. report_pages dev n t = Inr s' \<and> ports_only t s'"
    by (intro log_pmm [OF uart] last) (meson ports_only_trans)
  then obtain s' where s': "report_pages dev n t = Inr s'" "ports_only t s'" by blast
  then show ?thesis using t ports_only_pmm [OF s'(2)] by simp
qed

section \<open>The allocator as an interface\<close>

text \<open>
  What a user of the allocator relies on: an allocation of \<open>n\<close> pages returns the address
  of a run of pages that were all free, and takes them; giving them back frees exactly
  them.  Successive allocations then never overlap.
\<close>

definition run_of :: "nat \<Rightarrow> u64 \<Rightarrow> nat set" where
  "run_of n a = {unat (a div PAGE_SIZE)..<unat (a div PAGE_SIZE) + n}"

primrec alloc_n :: "('s \<Rightarrow> (u64 \<times> 's) res) \<Rightarrow> nat \<Rightarrow> 's \<Rightarrow> (u64 list \<times> 's) res" where
  "alloc_n alloc 0 s = Inr ([], s)"
| "alloc_n alloc (Suc k) s =
     rbind (alloc s) (\<lambda>(a, s). rbind (alloc_n alloc k s) (\<lambda>(as, s). Inr (a # as, s)))"

locale page_allocator =
  fixes alloc :: "'s \<Rightarrow> (u64 \<times> 's) res" and free :: "u64 \<Rightarrow> 's \<Rightarrow> 's res"
    and taken :: "'s \<Rightarrow> nat set" and ok :: "'s \<Rightarrow> bool" and n :: nat
  assumes fresh: "ok s \<Longrightarrow> alloc s = Inr (a, s') \<Longrightarrow>
      4096 dvd unat a \<and> run_of n a \<inter> taken s = {} \<and> taken s' = taken s \<union> run_of n a \<and> ok s'"
    and give_back: "ok s \<Longrightarrow> 4096 dvd unat a \<Longrightarrow>
      \<exists>s'. free a s = Inr s' \<and> taken s' = taken s - run_of n a \<and> ok s'"
begin

lemma alloc_n_fresh:
  "ok s \<Longrightarrow> alloc_n alloc k s = Inr (as, s') \<Longrightarrow>
     ok s' \<and> taken s' = taken s \<union> (\<Union>a \<in> set as. run_of n a) \<and> (\<forall>a \<in> set as. run_of n a \<inter> taken s = {})
     \<and> sorted_wrt (\<lambda>a b. run_of n a \<inter> run_of n b = {}) as"
proof (induction k arbitrary: s as)
  case 0
  then show ?case by simp
next
  case (Suc k)
  then obtain a t bs where t: "alloc s = Inr (a, t)" "alloc_n alloc k t = Inr (bs, s')" "as = a # bs"
    by (auto simp: rbind_eq_Inr)
  from fresh [OF Suc.prems(1) t(1)] have f: "run_of n a \<inter> taken s = {}" "taken t = taken s \<union> run_of n a" "ok t"
    by auto
  from Suc.IH [OF f(3) t(2)] f t(3) show ?case
    by auto
qed

lemma alloc_free:
  assumes "ok s" "alloc s = Inr (a, t)"
  shows "\<exists>s'. free a t = Inr s' \<and> taken s' = taken s \<and> ok s'"
  using fresh [OF assms] give_back [of t a] by auto

end

lemma page_addr:
  assumes "4096 dvd unat a"
  shows "a = of_nat (unat (a div PAGE_SIZE)) * PAGE_SIZE" "unat (a div PAGE_SIZE) < 2 ^ 52"
proof -
  have d: "unat (a div PAGE_SIZE) = unat a div 4096" by (simp add: unat_div_distrib PAGE_SIZE_def)
  show lt: "unat (a div PAGE_SIZE) < 2 ^ 52"
    using less_mult_imp_div_less [of "unat a" "2 ^ 52" 4096] by (simp add: d)
  have "unat (of_nat (unat (a div PAGE_SIZE)) * PAGE_SIZE) = unat a"
    using page_addr_div(2) [OF lt] assms by (simp add: d)
  then show "a = of_nat (unat (a div PAGE_SIZE)) * PAGE_SIZE" by (simp only: word_unat_eq_iff)
qed

lemma run_of_page:
  assumes "p < 2 ^ 52"
  shows "run_of n (of_nat p * PAGE_SIZE) = {p..<p + n}" "4096 dvd unat (of_nat p * PAGE_SIZE :: u64)"
proof -
  have "unat ((of_nat p * PAGE_SIZE) div PAGE_SIZE :: u64) = p"
    using assms by (simp add: page_addr_div(1) [OF assms])
  then show "run_of n (of_nat p * PAGE_SIZE) = {p..<p + n}" by (simp add: run_of_def)
  show "4096 dvd unat (of_nat p * PAGE_SIZE :: u64)" by (simp add: page_addr_div(2) [OF assms])
qed

interpretation single_page: page_allocator pmm_alloc_page pmm_free_page used pmm_ok 1
proof unfold_locales
  fix s s' :: "'a pmm_scheme" and a
  assume ok: "pmm_ok s"
  show "4096 dvd unat a \<and> run_of 1 a \<inter> used s = {} \<and> used s' = used s \<union> run_of 1 a \<and> pmm_ok s'"
    if "pmm_alloc_page s = Inr (a, s')"
  proof -
    from alloc_page_ok [OF ok] that obtain p where
      p: "a = of_nat p * PAGE_SIZE" "p < searched s" "p \<notin> used s" "used s' = insert p (used s)" "pmm_ok s'"
      by auto
    have "p < 2 ^ 52" using p(2) pmm_okD(1) [OF ok] by (simp add: searched_def)
    with p run_of_page(1) [OF this, of 1] run_of_page(2) [OF this] show ?thesis by auto
  qed
  show "\<exists>s'. pmm_free_page a s = Inr s' \<and> used s' = used s - run_of 1 a \<and> pmm_ok s'" if "4096 dvd unat a"
    using free_page_ok [OF ok page_addr(2) [OF that]] page_addr(1) [OF that, symmetric]
    by (auto simp: run_of_def)
qed

interpretation dict_pages: page_allocator "pmm_alloc_pages 256" "\<lambda>a. pmm_free_pages a 256" used pmm_ok 256
proof unfold_locales
  fix s s' :: "'a pmm_scheme" and a
  assume ok: "pmm_ok s"
  show "4096 dvd unat a \<and> run_of 256 a \<inter> used s = {} \<and> used s' = used s \<union> run_of 256 a \<and> pmm_ok s'"
    if "pmm_alloc_pages 256 s = Inr (a, s')"
  proof -
    from alloc_pages_ok [OF ok, of 256] that obtain p where
      p: "a = of_nat p * PAGE_SIZE" "free_run s p 256" "used s' = used s \<union> {p..<p + 256}" "pmm_ok s'"
      by auto
    have "p < 2 ^ 52" using p(2) pmm_okD(1) [OF ok] by (simp add: free_run_def)
    with p run_of_page(1) [OF this, of 256] run_of_page(2) [OF this] show ?thesis by (auto simp: free_run_def)
  qed
  show "\<exists>s'. pmm_free_pages a 256 s = Inr s' \<and> used s' = used s - run_of 256 a \<and> pmm_ok s'"
    if "4096 dvd unat a"
    using free_pages_ok [OF ok page_addr(2) [OF that], of 256] page_addr(1) [OF that, symmetric]
    by (auto simp: run_of_def)
qed

section \<open>Properties\<close>

definition pmm_demo :: "nat \<Rightarrow> pmm" where
  "pmm_demo T = kbd.extend (kbd_boot\<lparr>vmem := \<lambda>a. if in_bitmap a then Some 0 else None\<rparr>)
     \<lparr>pmm_total_pages = of_nat T, pmm_used_pages = 0, pmm_total_memory = of_nat T * PAGE_SIZE\<rparr>"

lemma pmm_demo_simps [simp]:
  "vmem (pmm_demo T) = (\<lambda>a. if in_bitmap a then Some 0 else None)"
  "pmm_total_pages (pmm_demo T) = of_nat T" "pmm_used_pages (pmm_demo T) = 0"
  by (simp_all add: pmm_demo_def kbd.defs)

lemma pmm_demo_ok:
  assumes "T \<le> 2 ^ 20"
  shows "pmm_ok (pmm_demo T)" "used (pmm_demo T) = {}" "searched (pmm_demo T) = 32 * (T div 32)"
proof -
  show u: "used (pmm_demo T) = {}" by (auto simp: used_def page_bit_def split: if_splits)
  have "in_bitmap (PMM_BITMAP_VIRT + of_nat i)" if "i < (T + 7) div 8" for i
    using that assms by (simp add: in_bitmap_def)
  then show "pmm_ok (pmm_demo T)" using assms u by (simp add: pmm_ok_def mapped_def)
  show "searched (pmm_demo T) = 32 * (T div 32)" using assms by (simp add: searched_def)
qed

lemma below_empty: "{..<p :: nat} = {} \<longleftrightarrow> p = 0"
  by auto

text \<open>C17. A page allocation takes the lowest free page among the full groups of 32 and nothing
  else, keeps the count of used pages equal to the number of set bits, and panics exactly
  when those groups have no free page: up to 31 pages at the top of memory are never given
  out.\<close>

theorem pmm_alloc_page_lowest:
  assumes "pmm_ok s"
  shows "(pmm_alloc_page s = Inl (Panic (str ''PMM: Out of physical memory!'')) \<and> {..<searched s} \<subseteq> used s) \<or>
    (\<exists>p s'. pmm_alloc_page s = Inr (of_nat p * PAGE_SIZE, s') \<and> p < searched s \<and> p \<notin> used s \<and>
       {..<p} \<subseteq> used s \<and> used s' = insert p (used s) \<and> pmm_ok s' \<and> pmm_frame s s')"
  by (rule alloc_page_ok [OF assms])

theorem pmm_alloc_page_lowest_witness:
  "(\<exists>s'. pmm_alloc_page (pmm_demo 64) = Inr (0, s') \<and> used s' = {0}) \<and>
   pmm_alloc_page (pmm_demo 31) = Inl (Panic (str ''PMM: Out of physical memory!''))"
  using pmm_alloc_page_lowest [OF pmm_demo_ok(1), of 64] pmm_alloc_page_lowest [OF pmm_demo_ok(1), of 31]
  by (auto simp: pmm_demo_ok below_empty)

text \<open>A contiguous allocation returns the first address of a run of free pages below the
  total, takes exactly that run, and panics exactly when no such run exists.\<close>

theorem pmm_alloc_pages_contiguous:
  assumes "pmm_ok s" "0 < count"
  shows "(pmm_alloc_pages count s = Inl (Panic (str ''PMM: Cannot allocate contiguous pages!'')) \<and>
      (\<forall>a. \<not> free_run s a (unat count))) \<or>
    (\<exists>p s'. pmm_alloc_pages count s = Inr (of_nat p * PAGE_SIZE, s') \<and> free_run s p (unat count) \<and>
       used s' = used s \<union> {p..<p + unat count} \<and> pmm_ok s' \<and> pmm_frame s s')"
  by (rule alloc_pages_ok [OF assms])

theorem pmm_alloc_pages_contiguous_witness:
  "pmm_alloc_pages 11 (pmm_demo 10) = Inl (Panic (str ''PMM: Cannot allocate contiguous pages!'')) \<and>
   (\<exists>s'. pmm_alloc_pages 10 (pmm_demo 10) = Inr (0, s') \<and> used s' = {0..<10})"
proof -
  have "free_run (pmm_demo 10) 0 10" "\<not> free_run (pmm_demo 10) a 11" "free_run (pmm_demo 10) a 10 = (a = 0)" for a
    by (auto simp: free_run_def pmm_demo_ok)
  then show ?thesis
    using pmm_alloc_pages_contiguous [OF pmm_demo_ok(1), of 10 11]
      pmm_alloc_pages_contiguous [OF pmm_demo_ok(1), of 10 10]
    by (auto simp: pmm_demo_ok)
qed

text \<open>However many pages are allocated one after another, no two allocations overlap, none
  contains a page that was in use before, and the allocator stays consistent.\<close>

theorem pmm_allocations_disjoint:
  assumes "pmm_ok s" "alloc_n pmm_alloc_page k s = Inr (as, s')"
  shows "pmm_ok s' \<and> used s' = used s \<union> (\<Union>a \<in> set as. run_of 1 a) \<and>
    (\<forall>a \<in> set as. run_of 1 a \<inter> used s = {}) \<and> sorted_wrt (\<lambda>a b. run_of 1 a \<inter> run_of 1 b = {}) as"
  by (rule single_page.alloc_n_fresh [OF assms])

theorem pmm_allocations_disjoint_witness:
  "\<exists>a b s'. alloc_n pmm_alloc_page 2 (pmm_demo 64) = Inr ([a, b], s') \<and> run_of 1 a \<inter> run_of 1 b = {}"
proof -
  obtain t where t: "pmm_alloc_page (pmm_demo 64) = Inr (0, t)" "used t = {0}" "pmm_ok t" "pmm_frame (pmm_demo 64) t"
    using alloc_page_ok [OF pmm_demo_ok(1), of 64] by (auto simp: pmm_demo_ok below_empty)
  have "searched t = 64" using pmm_frame_total [OF t(4)] by (simp add: searched_def)
  then obtain b u where "pmm_alloc_page t = Inr (b, u)"
    using alloc_page_ok [OF t(3)] t(2) by (auto simp: subset_iff) (metis One_nat_def one_less_numeral_iff semiring_norm(76) zero_neq_one)
  with t(1) have r: "alloc_n pmm_alloc_page 2 (pmm_demo 64) = Inr ([0, b], u)" by (simp add: numeral_2_eq_2)
  from pmm_allocations_disjoint [OF pmm_demo_ok(1) r] r show ?thesis by auto
qed

text \<open>Giving back the pages of the dictionary's 256-page allocation leaves exactly the pages in
  use that were in use before it.\<close>

theorem pmm_alloc_free_pages:
  assumes "pmm_ok s" "pmm_alloc_pages 256 s = Inr (a, t)"
  shows "\<exists>s'. pmm_free_pages a 256 t = Inr s' \<and> used s' = used s \<and> pmm_ok s'"
  by (rule dict_pages.alloc_free [OF assms])

theorem pmm_alloc_free_pages_witness:
  "\<exists>a t s'. pmm_alloc_pages 256 (pmm_demo 256) = Inr (a, t) \<and> pmm_free_pages a 256 t = Inr s' \<and> used s' = {}"
proof -
  have "free_run (pmm_demo 256) 0 256" by (auto simp: free_run_def pmm_demo_ok)
  then obtain a t where t: "pmm_alloc_pages 256 (pmm_demo 256) = Inr (a, t)"
    using alloc_pages_ok [OF pmm_demo_ok(1), of 256 256] by auto
  from pmm_alloc_free_pages [OF pmm_demo_ok(1) t] t show ?thesis by (auto simp: pmm_demo_ok)
qed

text \<open>C18. After initialisation from a memory map whose entries do not wrap, a page below the
  detected total is free exactly when it lies completely in a usable entry and in none of
  the reserved regions (first 512 KB, kernel megabyte, bitmap); the count agrees.\<close>

theorem pmm_init_reserves:
  assumes "mapped (vmem s) PMM_BITMAP_VIRT (2 ^ 17)" "\<forall>e \<in> set mmap. entry_fits e"
    "uart_answers dev SERIAL_COM1" "0 < n"
  shows "\<exists>s'. pmm_init dev n mmap s = Inr s' \<and> pmm_ok s' \<and>
    used s' = {p. p < unat (pmm_total_pages s') \<and>
      (\<not> (\<exists>e \<in> set mmap. in_entry e p) \<or> reserved (unat (pmm_total_pages s')) p)}"
  by (rule pmm_init_ok [OF assms])

theorem pmm_init_reserves_witness:
  "\<exists>s'. pmm_init uart_ready 1 [\<lparr>e_base = 0, e_length = 0x9FC00, e_type = 1\<rparr>] (pmm_demo 0) = Inr s' \<and>
     pmm_ok s' \<and> {p. p < unat (pmm_total_pages s') \<and> p \<notin> used s'} \<subseteq> {128..<159}"
proof -
  have m: "mapped (vmem (pmm_demo 0)) PMM_BITMAP_VIRT (2 ^ 17)" by (auto simp: mapped_def in_bitmap_def)
  show ?thesis
    using pmm_init_reserves [OF m _ uart_ready_answers, of "[\<lparr>e_base = 0, e_length = 0x9FC00, e_type = 1\<rparr>]" 1]
    by (fastforce simp: entry_fits_def reserved_def in_entry_def)
qed

end
