(* ===== verification/Heap.thy ===== *)
theory Heap
  imports Pmm
begin

text \<open>
  \<open>kernel/memory/heap.c\<close>: the first-fit kernel heap, a singly linked list of block
  headers in memory that tile the heap region.  The abstraction is the list of blocks.
\<close>

definition HEAP_MAGIC :: u64 where "HEAP_MAGIC = 0xDEADBEEFCAFEBABE"
definition HEAP_HEADER_SIZE :: u64 where "HEAP_HEADER_SIZE = 32"
definition HEAP_MIN_BLOCK :: u64 where "HEAP_MIN_BLOCK = 64"
definition HEAP_INITIAL_SIZE :: u64 where "HEAP_INITIAL_SIZE = 1024 * 1024"
definition HEAP_PHYS_START :: u64 where "HEAP_PHYS_START = 0x300000"
definition HEAP_VIRT_START :: u64 where "HEAP_VIRT_START = KERNEL_VIRT_BASE + HEAP_PHYS_START"

record heap = pmm +
  heap_head :: u64
  heap_end :: u64
  heap_total :: u64
  heap_used :: u64

text \<open>The packed struct: size at 0, next at 8, magic at 16, free at 24.\<close>

definition blk_size :: "u64 \<Rightarrow> 'a heap_scheme \<Rightarrow> u64 res" where "blk_size b s = load64 b s"
definition blk_next :: "u64 \<Rightarrow> 'a heap_scheme \<Rightarrow> u64 res" where "blk_next b s = load64 (b + 8) s"
definition blk_magic :: "u64 \<Rightarrow> 'a heap_scheme \<Rightarrow> u64 res" where "blk_magic b s = load64 (b + 16) s"
definition blk_free :: "u64 \<Rightarrow> 'a heap_scheme \<Rightarrow> u8 res" where "blk_free b s = load8 (b + 24) s"

definition set_size :: "u64 \<Rightarrow> u64 \<Rightarrow> 'a heap_scheme \<Rightarrow> 'a heap_scheme res" where "set_size b v s = store64 b v s"
definition set_next :: "u64 \<Rightarrow> u64 \<Rightarrow> 'a heap_scheme \<Rightarrow> 'a heap_scheme res" where "set_next b v s = store64 (b + 8) v s"
definition set_magic :: "u64 \<Rightarrow> u64 \<Rightarrow> 'a heap_scheme \<Rightarrow> 'a heap_scheme res" where "set_magic b v s = store64 (b + 16) v s"
definition set_free :: "u64 \<Rightarrow> u8 \<Rightarrow> 'a heap_scheme \<Rightarrow> 'a heap_scheme res" where "set_free b v s = store8 (b + 24) v s"

definition heap_init :: "device \<Rightarrow> nat \<Rightarrow> 'a heap_scheme \<Rightarrow> 'a heap_scheme res" where
  "heap_init dev n s =
     rbind (pmm_mark_region_used HEAP_PHYS_START HEAP_INITIAL_SIZE s) (\<lambda>s.
     let s = s\<lparr>heap_head := HEAP_VIRT_START\<rparr> in
     rbind (set_size (heap_head s) (HEAP_INITIAL_SIZE - HEAP_HEADER_SIZE) s) (\<lambda>s.
     rbind (set_next (heap_head s) 0 s) (\<lambda>s.
     rbind (set_magic (heap_head s) HEAP_MAGIC s) (\<lambda>s.
     rbind (set_free (heap_head s) 1 s) (\<lambda>s.
     let s = s\<lparr>heap_end := HEAP_VIRT_START + HEAP_INITIAL_SIZE\<rparr>;
         s = s\<lparr>heap_total := HEAP_INITIAL_SIZE\<rparr>;
         s = s\<lparr>heap_used := 0\<rparr>
     in
     rbind (serial_puts dev n SERIAL_COM1 (str ''Heap: Initialized at '') s) (\<lambda>s.
     rbind (serial_put_hex dev n SERIAL_COM1 HEAP_VIRT_START s) (\<lambda>s.
     serial_puts dev n SERIAL_COM1 (str '', size=1MB\<newline>'') s)))))))"

definition heap_split :: "u64 \<Rightarrow> u64 \<Rightarrow> 'a heap_scheme \<Rightarrow> 'a heap_scheme res" where
  "heap_split block sz s =
     rbind (blk_size block s) (\<lambda>bsize.
     if bsize \<le> sz + HEAP_HEADER_SIZE + HEAP_MIN_BLOCK then Inr s
     else
       let new_block = block + HEAP_HEADER_SIZE + sz in
       rbind (set_size new_block (bsize - sz - HEAP_HEADER_SIZE) s) (\<lambda>s.
       rbind (blk_next block s) (\<lambda>next.
       rbind (set_next new_block next s) (\<lambda>s.
       rbind (set_magic new_block HEAP_MAGIC s) (\<lambda>s.
       rbind (set_free new_block 1 s) (\<lambda>s.
       rbind (set_size block sz s) (\<lambda>s.
       set_next block new_block s)))))))"

fun coalesce_from :: "nat \<Rightarrow> u64 \<Rightarrow> 'a heap_scheme \<Rightarrow> 'a heap_scheme res" where
  "coalesce_from 0 block s = Inl OutOfFuel"
| "coalesce_from (Suc n) block s =
     (if block = 0 then Inr s
      else
        rbind (blk_next block s) (\<lambda>next.
        if next = 0 then Inr s
        else
          rbind (blk_free block s) (\<lambda>f.
          rbind (if f \<noteq> 0 then blk_free next s else Inr 0) (\<lambda>g.
          if f \<noteq> 0 \<and> g \<noteq> 0 then
            rbind (blk_size block s) (\<lambda>bs.
            rbind (blk_size next s) (\<lambda>ns.
            rbind (set_size block (bs + (HEAP_HEADER_SIZE + ns)) s) (\<lambda>s.
            rbind (blk_next next s) (\<lambda>nn.
            rbind (set_next block nn s) (\<lambda>s.
            coalesce_from n block s)))))
          else coalesce_from n next s))))"

definition heap_coalesce :: "nat \<Rightarrow> 'a heap_scheme \<Rightarrow> 'a heap_scheme res" where
  "heap_coalesce n s = coalesce_from n (heap_head s) s"

fun kmalloc_from :: "nat \<Rightarrow> u64 \<Rightarrow> u64 \<Rightarrow> 'a heap_scheme \<Rightarrow> (u64 \<times> 'a heap_scheme) res" where
  "kmalloc_from 0 sz block s = Inl OutOfFuel"
| "kmalloc_from (Suc n) sz block s =
     (if block = 0 then Inl (Panic (str ''Heap: Out of memory!''))
      else
        rbind (blk_magic block s) (\<lambda>magic.
        if magic \<noteq> HEAP_MAGIC then Inl (Panic (str ''Heap corruption detected!''))
        else
          rbind (blk_free block s) (\<lambda>f.
          rbind (if f \<noteq> 0 then blk_size block s else Inr 0) (\<lambda>bsize.
          if f \<noteq> 0 \<and> bsize \<ge> sz then
            rbind (heap_split block sz s) (\<lambda>s.
            rbind (set_free block 0 s) (\<lambda>s.
            rbind (blk_size block s) (\<lambda>bsize.
            Inr (block + HEAP_HEADER_SIZE, s\<lparr>heap_used := heap_used s + bsize\<rparr>))))
          else rbind (blk_next block s) (\<lambda>next. kmalloc_from n sz next s)))))"

definition kmalloc :: "nat \<Rightarrow> u64 \<Rightarrow> 'a heap_scheme \<Rightarrow> (u64 \<times> 'a heap_scheme) res" where
  "kmalloc n sz s =
     (if sz = 0 then Inr (0, s)
      else let sz = (sz + 15) AND NOT 15 in kmalloc_from n sz (heap_head s) s)"

definition kcalloc :: "nat \<Rightarrow> u64 \<Rightarrow> u64 \<Rightarrow> 'a heap_scheme \<Rightarrow> (u64 \<times> 'a heap_scheme) res" where
  "kcalloc n count sz s =
     (let total_size = count * sz in
      rbind (kmalloc n total_size s) (\<lambda>(ptr, s).
      if ptr \<noteq> 0 then rbind (memset ptr 0 (unat total_size) s) (\<lambda>s. Inr (ptr, s)) else Inr (ptr, s)))"

definition kfree :: "device \<Rightarrow> nat \<Rightarrow> u64 \<Rightarrow> 'a heap_scheme \<Rightarrow> 'a heap_scheme res" where
  "kfree dev n ptr s =
     (if ptr = 0 then Inr s
      else
        let block = ptr - HEAP_HEADER_SIZE in
        rbind (blk_magic block s) (\<lambda>magic.
        if magic \<noteq> HEAP_MAGIC then Inl (Panic (str ''Heap: Invalid free pointer!''))
        else
          rbind (blk_free block s) (\<lambda>f.
          if f \<noteq> 0 then serial_puts dev n SERIAL_COM1 (str ''Heap: Double free detected!\<newline>'') s
          else
            rbind (set_free block 1 s) (\<lambda>s.
            rbind (blk_size block s) (\<lambda>sz.
            heap_coalesce n (s\<lparr>heap_used := heap_used s - sz\<rparr>))))))"

definition krealloc :: "device \<Rightarrow> nat \<Rightarrow> u64 \<Rightarrow> u64 \<Rightarrow> 'a heap_scheme \<Rightarrow> (u64 \<times> 'a heap_scheme) res" where
  "krealloc dev n ptr new_size s =
     (if ptr = 0 then kmalloc n new_size s
      else if new_size = 0 then rbind (kfree dev n ptr s) (\<lambda>s. Inr (0, s))
      else
        let block = ptr - HEAP_HEADER_SIZE in
        rbind (blk_magic block s) (\<lambda>magic.
        if magic \<noteq> HEAP_MAGIC then Inl (Panic (str ''Heap: Invalid realloc pointer!''))
        else
          rbind (blk_size block s) (\<lambda>sz.
          if sz \<ge> new_size then Inr (ptr, s)
          else
            rbind (kmalloc n new_size s) (\<lambda>(new_ptr, s).
            if new_ptr \<noteq> 0 then
              rbind (blk_size block s) (\<lambda>sz.
              rbind (memcpy new_ptr ptr (unat sz) s) (\<lambda>s.
              rbind (kfree dev n ptr s) (\<lambda>s. Inr (new_ptr, s))))
            else Inr (new_ptr, s)))))"

definition kmalloc_aligned :: "nat \<Rightarrow> u64 \<Rightarrow> u64 \<Rightarrow> 'a heap_scheme \<Rightarrow> (u64 \<times> 'a heap_scheme) res" where
  "kmalloc_aligned n sz alignment s =
     (let total_size = sz + alignment + 8 in
      rbind (kmalloc n total_size s) (\<lambda>(raw, s).
      if raw = 0 then Inr (0, s)
      else
        let addr = raw + 8; aligned = (addr + alignment - 1) AND NOT (alignment - 1) in
        rbind (store64 (aligned - 8) raw s) (\<lambda>s. Inr (aligned, s))))"

definition heap_get_total :: "'a heap_scheme \<Rightarrow> u64" where "heap_get_total s = heap_total s"
definition heap_get_used :: "'a heap_scheme \<Rightarrow> u64" where "heap_get_used s = heap_used s"
definition heap_get_free :: "'a heap_scheme \<Rightarrow> u64" where "heap_get_free s = heap_total s - heap_used s"

section \<open>The heap as a list of blocks\<close>

datatype hblock = HB (hb_addr: u64) (hb_size: u64) (hb_free: bool)

fun hchain :: "memory \<Rightarrow> u64 \<Rightarrow> hblock list \<Rightarrow> bool" where
  "hchain m a [] \<longleftrightarrow> a = 0"
| "hchain m a (HB b sz fr # bs) \<longleftrightarrow>
     a \<noteq> 0 \<and> b = a \<and> rd64 m a = Inr sz \<and> rd64 m (a + 16) = Inr HEAP_MAGIC \<and>
     rd8 m (a + 24) = Inr (if fr then 1 else 0) \<and> (\<exists>l. rd64 m (a + 8) = Inr l \<and> hchain m l bs)"

text \<open>The blocks tile the address range \<open>[a, e)\<close>, headers included, in multiples of 16.\<close>

fun tiles :: "nat \<Rightarrow> hblock list \<Rightarrow> nat \<Rightarrow> bool" where
  "tiles a [] e \<longleftrightarrow> a = e"
| "tiles a (HB b sz fr # bs) e \<longleftrightarrow> unat b = a \<and> 16 dvd unat sz \<and> tiles (a + 32 + unat sz) bs e"

text \<open>The specification: first fit with a split, and merging of neighbours.\<close>

definition carve :: "u64 \<Rightarrow> u64 \<Rightarrow> u64 \<Rightarrow> hblock list" where
  "carve n b sz =
     (if unat sz \<le> unat n + 96 then [HB b sz False]
      else [HB b n False, HB (b + 32 + n) (sz - n - 32) True])"

fun first_fit :: "u64 \<Rightarrow> hblock list \<Rightarrow> (u64 \<times> hblock list) option" where
  "first_fit n [] = None"
| "first_fit n (HB b sz fr # bs) =
     (if fr \<and> n \<le> sz then Some (b, carve n b sz @ bs)
      else case first_fit n bs of None \<Rightarrow> None | Some (a, bs') \<Rightarrow> Some (a, HB b sz fr # bs'))"

function merge_free :: "hblock list \<Rightarrow> hblock list" where
  "merge_free [] = []"
| "merge_free [b] = [b]"
| "merge_free (HB a s f # HB b t g # bs) =
     (if f \<and> g then merge_free (HB a (s + (32 + t)) True # bs)
      else HB a s f # merge_free (HB b t g # bs))"
  by pat_completeness auto
termination by (relation "measure length") auto

definition bytes_used :: "hblock list \<Rightarrow> nat" where
  "bytes_used bs = (\<Sum>h \<leftarrow> bs. if hb_free h then 0 else unat (hb_size h))"

section \<open>Header accesses\<close>

text \<open>\<open>only_in lo hi s s'\<close>: from \<open>s\<close> to \<open>s'\<close> only memory in \<open>[lo, hi)\<close> may have changed.\<close>

definition only_in :: "nat \<Rightarrow> nat \<Rightarrow> 'a machine_scheme \<Rightarrow> 'a machine_scheme \<Rightarrow> bool" where
  "only_in lo hi s s' \<longleftrightarrow>
     s'\<lparr>vmem := vmem s\<rparr> = s \<and>
     (\<forall>x. \<not> (lo \<le> unat x \<and> unat x < hi) \<longrightarrow> vmem s' x = vmem s x) \<and>
     (\<forall>x. vmem s x \<noteq> None \<longrightarrow> vmem s' x \<noteq> None)"

lemma only_in_refl [simp, intro]: "only_in lo hi s s"
  by (simp add: only_in_def)

lemma only_in_trans [trans]:
  assumes "only_in lo hi s t" "only_in lo hi t u"
  shows "only_in lo hi s u"
proof -
  have "u\<lparr>vmem := vmem s\<rparr> = s"
    using assms unfolding only_in_def by (cases s, cases t, cases u) auto
  then show ?thesis using assms unfolding only_in_def by metis
qed

lemma only_in_mono: "only_in lo hi s t \<Longrightarrow> lo' \<le> lo \<Longrightarrow> hi \<le> hi' \<Longrightarrow> only_in lo' hi' s t"
  by (auto simp: only_in_def)

lemma only_in_mapped: "only_in lo hi s t \<Longrightarrow> mapped (vmem s) a n \<Longrightarrow> mapped (vmem t) a n"
  by (simp add: only_in_def mapped_def)

lemma only_in_upd:
  assumes "unat a + length bs \<le> 2 ^ 64"
  shows "only_in (unat a) (unat a + length bs) s (s\<lparr>vmem := mem_upd (vmem s) a bs\<rparr>)"
proof -
  have "\<not> unat (x - a) < length bs" if "\<not> (unat a \<le> unat x \<and> unat x < unat a + length bs)" for x
    using that assms by (cases "unat a \<le> unat x") (auto simp: unat_sub_if')
  then show ?thesis by (auto simp: only_in_def mem_upd_def)
qed

type_synonym fields = "u64 res \<times> u64 res \<times> u64 res \<times> u8 res"

definition fields :: "memory \<Rightarrow> u64 \<Rightarrow> fields" where
  "fields m b = (rd64 m b, rd64 m (b + 8), rd64 m (b + 16), rd8 m (b + 24))"

lemma field_offsets:
  assumes "unat (b :: u64) + 32 \<le> 2 ^ 64"
  shows "unat (b + 8) = unat b + 8" "unat (b + 16) = unat b + 16" "unat (b + 24) = unat b + 24"
  using assms by (simp_all add: unat_add_numeral)

lemma fields_same:
  assumes "only_in lo hi s t" "unat b + 32 \<le> lo \<or> hi \<le> unat b" "unat b + 32 \<le> 2 ^ 64"
  shows "fields (vmem t) b = fields (vmem s) b"
proof -
  have eq: "vmem t x = vmem s x" if "unat b \<le> unat x" "unat x < unat b + 32" for x
    using assms(1,2) that by (auto simp: only_in_def)
  have "vmem t (b + k + of_nat i) = vmem s (b + k + of_nat i)" if "unat (b + k) = unat b + unat k" "unat k + i < 32" for k i
  proof -
    have "unat (b + k + of_nat i) = unat b + unat k + i"
      using that assms(3) by (subst unat_add_of_nat) auto
    then show ?thesis using that by (intro eq) auto
  qed
  from this [of 0] this [of 8] this [of 16] this [of 24 0] show ?thesis
    unfolding fields_def rd64_def using field_offsets [OF assms(3)]
    by (auto intro!: rd_bytes_cong_mem arg_cong [of _ _ "\<lambda>r. rbind r _"] simp: rd8_def)
qed

lemma store_field:
  assumes "mapped (vmem s) b 32" "unat b + 32 \<le> 2 ^ 64" "fields (vmem s) b = (x, y, z, w)"
  shows "\<exists>s'. set_size b v s = Inr s' \<and> fields (vmem s') b = (Inr v, y, z, w) \<and> only_in (unat b) (unat b + 32) s s'"
    and "\<exists>s'. set_next b v s = Inr s' \<and> fields (vmem s') b = (x, Inr v, z, w) \<and> only_in (unat b) (unat b + 32) s s'"
    and "\<exists>s'. set_magic b v s = Inr s' \<and> fields (vmem s') b = (x, y, Inr v, w) \<and> only_in (unat b) (unat b + 32) s s'"
    and "\<exists>s'. set_free b c s = Inr s' \<and> fields (vmem s') b = (x, y, z, Inr c) \<and> only_in (unat b) (unat b + 32) s s'"
proof -
  note off = field_offsets [OF assms(2)]
  have sub: "mapped (vmem s) (b + k) n" if "unat (b + k) = unat b + unat k" "unat k + n \<le> 32" for k n
    using that assms(2) by (intro mapped_sub [OF assms(1)]) auto
  have m: "mapped (vmem s) b 8" "mapped (vmem s) (b + 8) 8" "mapped (vmem s) (b + 16) 8" "mapped (vmem s) (b + 24) 1"
    using sub [of 0 8] sub [of 8 8] sub [of 16 8] sub [of 24 1] off by simp_all
  have ap: "apart b 8 (b + 8) 8" "apart b 8 (b + 16) 8" "apart b 8 (b + 24) 1"
    "apart (b + 8) 8 b 8" "apart (b + 8) 8 (b + 16) 8" "apart (b + 8) 8 (b + 24) 1"
    "apart (b + 16) 8 b 8" "apart (b + 16) 8 (b + 8) 8" "apart (b + 16) 8 (b + 24) 1"
    "apart (b + 24) 1 b 8" "apart (b + 24) 1 (b + 8) 8" "apart (b + 24) 1 (b + 16) 8"
    using off assms(2) by (simp_all add: apart_def)
  have only: "only_in (unat b) (unat b + 32) s (s\<lparr>vmem := mem_upd (vmem s) (b + k) bs\<rparr>)"
    if "unat (b + k) = unat b + unat k" "unat k + length bs \<le> 32" for k bs
    using that assms(2) by (intro only_in_mono [OF only_in_upd]) auto
  note only = only [of 0 "bytes_of_word 8 v"] only [of 8 "bytes_of_word 8 v"] only [of 16 "bytes_of_word 8 v"]
    only [of 24 "[c]"]
  show "\<exists>s'. set_size b v s = Inr s' \<and> fields (vmem s') b = (Inr v, y, z, w) \<and> only_in (unat b) (unat b + 32) s s'"
    using assms(3) m ap only off by (simp add: set_size_def store64_mapped fields_def mem_simps)
  show "\<exists>s'. set_next b v s = Inr s' \<and> fields (vmem s') b = (x, Inr v, z, w) \<and> only_in (unat b) (unat b + 32) s s'"
    using assms(3) m ap only off by (simp add: set_next_def store64_mapped fields_def mem_simps)
  show "\<exists>s'. set_magic b v s = Inr s' \<and> fields (vmem s') b = (x, y, Inr v, w) \<and> only_in (unat b) (unat b + 32) s s'"
    using assms(3) m ap only off by (simp add: set_magic_def store64_mapped fields_def mem_simps)
  show "\<exists>s'. set_free b c s = Inr s' \<and> fields (vmem s') b = (x, y, z, Inr c) \<and> only_in (unat b) (unat b + 32) s s'"
    using assms(3) m ap only off by (simp add: set_free_def store8_mapped fields_def mem_simps)
qed

definition header :: "memory \<Rightarrow> u64 \<Rightarrow> u64 \<Rightarrow> u64 \<Rightarrow> bool \<Rightarrow> bool" where
  "header m b sz l fr \<longleftrightarrow> fields m b = (Inr sz, Inr l, Inr HEAP_MAGIC, Inr (if fr then 1 else 0))"

lemma hchain_Cons:
  "hchain m a (HB b sz fr # bs) \<longleftrightarrow> a \<noteq> 0 \<and> b = a \<and> (\<exists>l. header m a sz l fr \<and> hchain m l bs)"
  by (auto simp: header_def fields_def)

lemma header_reads:
  assumes "header (vmem s) b sz l fr"
  shows "blk_size b s = Inr sz" "blk_next b s = Inr l" "blk_magic b s = Inr HEAP_MAGIC"
    "blk_free b s = Inr (if fr then 1 else 0)"
  using assms by (simp_all add: header_def fields_def blk_size_def blk_next_def blk_magic_def blk_free_def
      load64_def load8_def)

lemma header_same:
  "header (vmem s) b sz l fr \<Longrightarrow> only_in lo hi s t \<Longrightarrow> unat b + 32 \<le> lo \<or> hi \<le> unat b \<Longrightarrow>
     unat b + 32 \<le> 2 ^ 64 \<Longrightarrow> header (vmem t) b sz l fr"
  by (simp add: header_def fields_same)

lemma set_header:
  assumes "header (vmem s) b sz l fr" "mapped (vmem s) b 32" "unat b + 32 \<le> 2 ^ 64"
  shows "\<exists>s'. set_size b v s = Inr s' \<and> header (vmem s') b v l fr \<and> only_in (unat b) (unat b + 32) s s'"
    and "\<exists>s'. set_next b v s = Inr s' \<and> header (vmem s') b sz v fr \<and> only_in (unat b) (unat b + 32) s s'"
    and "\<exists>s'. set_free b (if f then 1 else 0) s = Inr s' \<and> header (vmem s') b sz l f \<and> only_in (unat b) (unat b + 32) s s'"
  using store_field [OF assms(2,3) assms(1) [unfolded header_def]] by (auto simp: header_def)

lemma tiles_bounds:
  "tiles a bs e \<Longrightarrow> a \<le> e \<and> (\<forall>h \<in> set bs. a \<le> unat (hb_addr h) \<and> unat (hb_addr h) + 32 + unat (hb_size h) \<le> e)"
  by (induction a bs e rule: tiles.induct) fastforce+

lemma tiles_append: "tiles a (bs @ cs) e \<longleftrightarrow> (\<exists>d. tiles a bs d \<and> tiles d cs e)"
proof (induction bs arbitrary: a)
  case Nil
  show ?case by simp
next
  case (Cons h bs)
  then show ?case by (cases h) simp
qed

lemma hchain_same:
  "tiles a bs e \<Longrightarrow> e \<le> 2 ^ 64 \<Longrightarrow> only_in lo hi s t \<Longrightarrow> e \<le> lo \<or> hi \<le> a \<Longrightarrow>
     hchain (vmem s) x bs \<Longrightarrow> hchain (vmem t) x bs"
proof (induction bs arbitrary: a x)
  case Nil
  then show ?case by simp
next
  case (Cons h bs)
  obtain b sz fr where h: "h = HB b sz fr" by (cases h) auto
  have b: "unat b = a" "a + 32 + unat sz \<le> e" "tiles (a + 32 + unat sz) bs e"
    using Cons.prems(1) tiles_bounds [of "a + 32 + unat sz" bs e] by (auto simp: h)
  from Cons.prems(5) obtain l where l: "x \<noteq> 0" "b = x" "header (vmem s) x sz l fr" "hchain (vmem s) l bs"
    by (auto simp: h hchain_Cons simp del: hchain.simps(2))
  have "hchain (vmem t) l bs"
    by (rule Cons.IH [OF b(3) Cons.prems(2,3) _ l(4)]) (use Cons.prems(4) in auto)
  moreover have "header (vmem t) x sz l fr"
    using b l(2) Cons.prems(2,4) by (intro header_same [OF l(3) Cons.prems(3)]) auto
  ultimately show ?case using l by (auto simp: h hchain_Cons simp del: hchain.simps(2))
qed

text \<open>Splitting a free block that is large enough: afterwards its first part has the size asked
  for, and the rest, if it was worth splitting off, is a free block of its own.\<close>

lemma heap_split_ok:
  assumes "header (vmem s) b sz l True" "mapped (vmem s) b (32 + unat sz)" "unat b + 32 + unat sz \<le> 2 ^ 64 - 2 ^ 12"
    "n \<le> sz"
  shows "\<exists>s'. heap_split b n s = Inr s' \<and> only_in (unat b) (unat b + 32 + unat sz) s s' \<and>
    (if unat sz \<le> unat n + 96 then header (vmem s') b sz l True
     else header (vmem s') b n (b + 32 + n) True \<and> header (vmem s') (b + 32 + n) (sz - n - 32) l True)"
proof -
  have small: "unat n + 96 < 2 ^ 64" "unat n \<le> unat sz" using assms(3,4) by (simp_all add: word_le_nat_alt)
  have "unat (n + 96) = unat n + 96" using small(1) by (intro unat_add_numeral)
  then have le: "sz \<le> n + HEAP_HEADER_SIZE + HEAP_MIN_BLOCK \<longleftrightarrow> unat sz \<le> unat n + 96"
    by (simp add: HEAP_HEADER_SIZE_def HEAP_MIN_BLOCK_def word_le_nat_alt add.assoc)
  show ?thesis
  proof (cases "unat sz \<le> unat n + 96")
    case True
    then show ?thesis using assms(1) le by (simp add: heap_split_def header_reads [OF assms(1)])
  next
    case False
    let ?nb = "b + 32 + n"
    have nb: "unat ?nb = unat b + 32 + unat n"
      using assms(3) small(2) unat_add_numeral [of b "num.Bit0 (num.Bit0 (num.Bit0 (num.Bit0 (num.Bit0 num.One))))"]
      by (simp add: unat_plus_if')
    have top: "unat ?nb + 32 \<le> unat b + 32 + unat sz" "unat ?nb + 32 \<le> 2 ^ 64" "unat b + 32 \<le> 2 ^ 64"
      using False assms(3) nb by simp_all
    have mb: "mapped (vmem s) b 32" using assms(2) by (rule mapped_part) simp
    have mnb: "mapped (vmem s) ?nb 32"
      using assms(3) nb top by (intro mapped_sub [OF assms(2)]) auto
    have nbs: "only_in (unat ?nb) (unat ?nb + 32) u v \<Longrightarrow> only_in (unat b) (unat b + 32 + unat sz) u v"
      "only_in (unat b) (unat b + 32) u v \<Longrightarrow> only_in (unat b) (unat b + 32 + unat sz) u v"
      for u v :: "'a heap_scheme"
      using nb top by (auto elim!: only_in_mono)
    obtain x y z w where f0: "fields (vmem s) ?nb = (x, y, z, w)" by (cases "fields (vmem s) ?nb") auto
    obtain s1 where s1: "set_size ?nb (sz - n - 32) s = Inr s1"
      "fields (vmem s1) ?nb = (Inr (sz - n - 32), y, z, w)" "only_in (unat ?nb) (unat ?nb + 32) s s1"
      using store_field(1) [OF mnb top(2) f0] by blast
    have hb1: "header (vmem s1) b sz l True"
      using nb by (intro header_same [OF assms(1) s1(3) _ top(3)]) simp
    obtain s2 where s2: "set_next ?nb l s1 = Inr s2"
      "fields (vmem s2) ?nb = (Inr (sz - n - 32), Inr l, z, w)" "only_in (unat ?nb) (unat ?nb + 32) s1 s2"
      using store_field(2) [OF only_in_mapped [OF s1(3) mnb] top(2) s1(2)] by blast
    note o2 = only_in_trans [OF s1(3) s2(3)]
    obtain s3 where s3: "set_magic ?nb HEAP_MAGIC s2 = Inr s3"
      "fields (vmem s3) ?nb = (Inr (sz - n - 32), Inr l, Inr HEAP_MAGIC, w)" "only_in (unat ?nb) (unat ?nb + 32) s2 s3"
      using store_field(3) [OF only_in_mapped [OF o2 mnb] top(2) s2(2)] by blast
    note o3 = only_in_trans [OF o2 s3(3)]
    obtain s4 where s4: "set_free ?nb 1 s3 = Inr s4"
      "fields (vmem s4) ?nb = (Inr (sz - n - 32), Inr l, Inr HEAP_MAGIC, Inr 1)" "only_in (unat ?nb) (unat ?nb + 32) s3 s4"
      using store_field(4) [OF only_in_mapped [OF o3 mnb] top(2) s3(2)] by blast
    note o4 = only_in_trans [OF o3 s4(3)]
    have hb4: "header (vmem s4) b sz l True"
      using nb by (intro header_same [OF assms(1) o4 _ top(3)]) simp
    obtain s5 where s5: "set_size b n s4 = Inr s5" "header (vmem s5) b n l True" "only_in (unat b) (unat b + 32) s4 s5"
      using set_header(1) [OF hb4 only_in_mapped [OF o4 mb] top(3)] by blast
    obtain s6 where s6: "set_next b ?nb s5 = Inr s6" "header (vmem s6) b n ?nb True" "only_in (unat b) (unat b + 32) s5 s6"
      using set_header(2) [OF s5(2) only_in_mapped [OF only_in_trans [OF nbs(1) [OF o4] nbs(2) [OF s5(3)]] mb] top(3)] by blast
    note o6 = only_in_trans [OF s5(3) s6(3)]
    have "header (vmem s4) ?nb (sz - n - 32) l True" using s4(2) by (simp add: header_def)
    then have "header (vmem s6) ?nb (sz - n - 32) l True"
      using nb top by (intro header_same [OF _ o6]) auto
    moreover have "heap_split b n s = Inr s6"
      using le False s1(1) s2(1) s3(1) s4(1) s5(1) s6(1)
      by (simp add: heap_split_def header_reads [OF assms(1)] header_reads [OF hb1] HEAP_HEADER_SIZE_def)
    moreover have "only_in (unat b) (unat b + 32 + unat sz) s s6"
      by (rule only_in_trans [OF nbs(1) [OF o4] nbs(2) [OF o6]])
    ultimately show ?thesis using False s6(2) by simp
  qed
qed

section \<open>Allocation on the list of blocks\<close>

definition fits :: "u64 \<Rightarrow> hblock \<Rightarrow> bool" where
  "fits n h \<longleftrightarrow> hb_free h \<and> n \<le> hb_size h"

lemma first_fit_None: "first_fit n bs = None \<longleftrightarrow> (\<forall>h \<in> set bs. \<not> fits n h)"
  by (induction n bs rule: first_fit.induct) (auto simp: fits_def split: option.splits)

lemma first_fit_Some:
  "first_fit n bs = Some (b, bs') \<Longrightarrow>
     \<exists>pre sz post. bs = pre @ HB b sz True # post \<and> (\<forall>h \<in> set pre. \<not> fits n h) \<and> n \<le> sz \<and>
       bs' = pre @ carve n b sz @ post"
proof (induction n bs arbitrary: bs' rule: first_fit.induct)
  case (1 n)
  then show ?case by simp
next
  case (2 n c sz fr bs)
  show ?case
  proof (cases "fr \<and> n \<le> sz")
    case True
    with 2 show ?thesis by (intro exI [of _ "[]"]) auto
  next
    case False
    with 2 obtain bs1 where bs1: "first_fit n bs = Some (b, bs1)" "bs' = HB c sz fr # bs1"
      by (auto split: option.splits if_splits)
    from 2(1) [OF False bs1(1)] obtain pre z post where
      "bs = pre @ HB b z True # post" "\<forall>h \<in> set pre. \<not> fits n h" "n \<le> z" "bs1 = pre @ carve n b z @ post"
      by blast
    with False bs1(2) show ?thesis
      by (intro exI [of _ "HB c sz fr # pre"] exI [of _ z] exI [of _ post]) (auto simp: fits_def)
  qed
qed

lemma carve_arith:
  fixes n sz :: u64
  assumes "n \<le> sz" "\<not> unat sz \<le> unat n + 96"
  shows "unat (sz - n - 32) = unat sz - unat n - 32"
proof -
  have a: "unat (sz - n) = unat sz - unat n" using assms(1) by (simp add: word_le_nat_alt unat_sub)
  have "(32 :: u64) \<le> sz - n" using assms(2) a by (simp add: word_le_nat_alt)
  then show ?thesis using a by (simp add: unat_sub)
qed

lemma carve_tiles:
  assumes "tiles a (HB b sz True # post) e" "n \<le> sz" "16 dvd unat n" "e \<le> 2 ^ 64 - 2 ^ 12"
  shows "tiles a (carve n b sz @ post) e"
proof (cases "unat sz \<le> unat n + 96")
  case True
  with assms(1) show ?thesis by (simp add: carve_def)
next
  case False
  have e: "a + 32 + unat sz \<le> e" "unat b = a" "16 dvd unat sz"
    using assms(1) tiles_bounds [of "a + 32 + unat sz" post e] by auto
  have "unat (b + 32) = unat b + 32" using e assms(4) by (intro unat_add_numeral) simp
  then have "unat (b + 32 + n) = a + 32 + unat n"
    using e assms(2,4) by (simp add: unat_plus_if' word_le_nat_alt)
  moreover have "16 dvd unat sz - unat n - 32" using assms(3) e(3) by (intro dvd_diff_nat) auto
  ultimately show ?thesis
    using assms(1,3) False carve_arith [OF assms(2) False] by (simp add: carve_def ac_simps)
qed

definition mapped_range :: "memory \<Rightarrow> nat \<Rightarrow> nat \<Rightarrow> bool" where
  "mapped_range m lo hi \<longleftrightarrow> (\<forall>x. lo \<le> unat x \<and> unat x < hi \<longrightarrow> m x \<noteq> None)"

lemma mapped_range_mapped:
  assumes "mapped_range m lo hi" "lo \<le> unat b" "unat b + n \<le> hi" "hi \<le> 2 ^ 64"
  shows "mapped m b n"
  unfolding mapped_def
proof (intro allI impI)
  fix i assume "i < n"
  then have "unat (b + of_nat i) = unat b + i" using assms(3,4) by (intro unat_add_of_nat) simp
  with \<open>i < n\<close> assms show "m (b + of_nat i) \<noteq> None" by (simp add: mapped_range_def)
qed

lemma mapped_range_only_in: "only_in lo hi s t \<Longrightarrow> mapped_range (vmem s) a b \<Longrightarrow> mapped_range (vmem t) a b"
  by (simp add: only_in_def mapped_range_def)

lemma kmalloc_from_none:
  "hchain (vmem s) a bs \<Longrightarrow> \<forall>h \<in> set bs. \<not> fits n h \<Longrightarrow> length bs < k \<Longrightarrow>
     kmalloc_from k n a s = Inl (Panic (str ''Heap: Out of memory!''))"
proof (induction bs arbitrary: a k)
  case Nil
  then show ?case by (cases k) simp_all
next
  case (Cons h bs)
  obtain b sz fr where h: "h = HB b sz fr" by (cases h) auto
  obtain j where k: "k = Suc j" using Cons.prems(3) by (cases k) auto
  from Cons.prems(1) obtain l where l: "a \<noteq> 0" "header (vmem s) a sz l fr" "hchain (vmem s) l bs"
    by (auto simp: h hchain_Cons simp del: hchain.simps(2))
  have "kmalloc_from j n l s = Inl (Panic (str ''Heap: Out of memory!''))"
    using Cons.prems(2,3) l(3) k by (intro Cons.IH) auto
  then show ?case
    using l(1) Cons.prems(2) by (auto simp: k h fits_def header_reads [OF l(2)])
qed

text \<open>The loop stops at the first block that fits and carves the request out of it.\<close>

lemma kmalloc_at:
  assumes "header (vmem s) b sz l True" "b \<noteq> 0" "n \<le> sz" "mapped (vmem s) b (32 + unat sz)"
    "unat b + 32 + unat sz \<le> 2 ^ 64 - 2 ^ 12"
  shows "\<exists>t. kmalloc_from (Suc k) n b s = Inr (b + 32, t\<lparr>heap_used := heap_used t + hb_size (hd (carve n b sz))\<rparr>) \<and>
    only_in (unat b) (unat b + 32 + unat sz) s t \<and>
    (if unat sz \<le> unat n + 96 then header (vmem t) b sz l False
     else header (vmem t) b n (b + 32 + n) False \<and> header (vmem t) (b + 32 + n) (sz - n - 32) l True)"
proof -
  obtain t where t: "heap_split b n s = Inr t" "only_in (unat b) (unat b + 32 + unat sz) s t"
    "if unat sz \<le> unat n + 96 then header (vmem t) b sz l True
     else header (vmem t) b n (b + 32 + n) True \<and> header (vmem t) (b + 32 + n) (sz - n - 32) l True"
    using heap_split_ok [OF assms(1,4,5,3)] by blast
  let ?z = "hb_size (hd (carve n b sz))"
  obtain l' where hb: "header (vmem t) b ?z l' True" "l' = (if unat sz \<le> unat n + 96 then l else b + 32 + n)"
    using t(3) by (cases "unat sz \<le> unat n + 96") (auto simp: carve_def)
  have mb: "mapped (vmem t) b 32" using only_in_mapped [OF t(2) assms(4)] by (rule mapped_part) simp
  have small: "unat b + 32 \<le> 2 ^ 64" using assms(5) by simp
  obtain u where u: "set_free b 0 t = Inr u" "header (vmem u) b ?z l' False" "only_in (unat b) (unat b + 32) t u"
    using set_header(3) [OF hb(1) mb small, of False] by auto
  have rest: "header (vmem u) (b + 32 + n) (sz - n - 32) l True" if big: "\<not> unat sz \<le> unat n + 96"
  proof -
    have "unat (b + 32) = unat b + 32" using assms(5) by (intro unat_add_numeral) simp
    then have "unat (b + 32 + n) = unat b + 32 + unat n"
      using assms(3,5) by (simp add: unat_plus_if' word_le_nat_alt)
    then show ?thesis
      using t(3) big assms(5) by (intro header_same [OF _ u(3)]) auto
  qed
  have "only_in (unat b) (unat b + 32 + unat sz) s u"
    by (rule only_in_trans [OF t(2) only_in_mono [OF u(3)]]) auto
  moreover have "kmalloc_from (Suc k) n b s = Inr (b + 32, u\<lparr>heap_used := heap_used u + ?z\<rparr>)"
    using assms(2,3) t(1) u(1)
    by (simp add: header_reads [OF assms(1)] header_reads [OF u(2)] HEAP_HEADER_SIZE_def)
  ultimately show ?thesis using u(2) hb(2) rest by (intro exI [of _ u]) (auto simp: carve_def)
qed

lemma kmalloc_from_found:
  "tiles lo (pre @ HB b sz True # post) hi \<Longrightarrow> hi \<le> 2 ^ 64 - 2 ^ 12 \<Longrightarrow>
   hchain (vmem s) a (pre @ HB b sz True # post) \<Longrightarrow> mapped_range (vmem s) lo hi \<Longrightarrow>
   \<forall>h \<in> set pre. \<not> fits n h \<Longrightarrow> n \<le> sz \<Longrightarrow> length pre < k \<Longrightarrow>
   \<exists>t. kmalloc_from k n a s = Inr (b + 32, t\<lparr>heap_used := heap_used t + hb_size (hd (carve n b sz))\<rparr>) \<and>
     hchain (vmem t) a (pre @ carve n b sz @ post) \<and> only_in (unat b) (unat b + 32 + unat sz) s t"
proof (induction pre arbitrary: a k lo)
  case Nil
  obtain j where k: "k = Suc j" using Nil.prems(7) by (cases k) auto
  from Nil.prems(3) obtain l where l: "a \<noteq> 0" "b = a" "header (vmem s) b sz l True" "hchain (vmem s) l post"
    by (auto simp: hchain_Cons simp del: hchain.simps(2))
  have t: "unat b = lo" "tiles (lo + 32 + unat sz) post hi" "lo + 32 + unat sz \<le> hi"
    using Nil.prems(1) tiles_bounds [of "lo + 32 + unat sz" post hi] by auto
  have m: "mapped (vmem s) b (32 + unat sz)"
    using t Nil.prems(2) by (intro mapped_range_mapped [OF Nil.prems(4)]) auto
  obtain u where u: "kmalloc_from (Suc j) n b s = Inr (b + 32, u\<lparr>heap_used := heap_used u + hb_size (hd (carve n b sz))\<rparr>)"
    "only_in (unat b) (unat b + 32 + unat sz) s u"
    "if unat sz \<le> unat n + 96 then header (vmem u) b sz l False
     else header (vmem u) b n (b + 32 + n) False \<and> header (vmem u) (b + 32 + n) (sz - n - 32) l True"
    using kmalloc_at [OF l(3) _ Nil.prems(6) m, of j] l(1,2) t Nil.prems(2) by auto
  have "hchain (vmem u) l post"
    using t Nil.prems(2) by (intro hchain_same [OF t(2) _ u(2) _ l(4)]) auto
  moreover have "b + 32 + n \<noteq> 0" if "\<not> unat sz \<le> unat n + 96"
  proof -
    have "unat (b + 32) = unat b + 32" using t Nil.prems(2) by (intro unat_add_numeral) simp
    then have "unat (b + 32 + n) = unat b + 32 + unat n"
      using that t Nil.prems(2) by (simp add: unat_plus_if')
    then show ?thesis by (metis add_is_0 unat_0 zero_neq_numeral)
  qed
  ultimately have "hchain (vmem u) b (carve n b sz @ post)"
    using u(3) l(1,2) by (auto simp: carve_def hchain_Cons simp del: hchain.simps(2))
  with u l(2) k show ?case by auto
next
  case (Cons h pre)
  obtain c cz fr where h: "h = HB c cz fr" by (cases h) auto
  obtain j where k: "k = Suc j" using Cons.prems(7) by (cases k) auto
  from Cons.prems(3) obtain l where l: "a \<noteq> 0" "c = a" "header (vmem s) a cz l fr"
    "hchain (vmem s) l (pre @ HB b sz True # post)"
    by (auto simp: h hchain_Cons simp del: hchain.simps(2))
  have t: "unat c = lo" "tiles (lo + 32 + unat cz) (pre @ HB b sz True # post) hi"
    using Cons.prems(1) by (auto simp: h)
  have bd: "lo + 32 + unat cz \<le> unat b" "unat b + 32 + unat sz \<le> hi" using tiles_bounds [OF t(2)] by auto
  have m: "mapped_range (vmem s) (lo + 32 + unat cz) hi" using Cons.prems(4) by (simp add: mapped_range_def)
  obtain u where u: "kmalloc_from j n l s = Inr (b + 32, u\<lparr>heap_used := heap_used u + hb_size (hd (carve n b sz))\<rparr>)"
    "hchain (vmem u) l (pre @ carve n b sz @ post)" "only_in (unat b) (unat b + 32 + unat sz) s u"
    using Cons.IH [OF t(2) Cons.prems(2) l(4) m _ Cons.prems(6), of j] Cons.prems(5,7) k by auto
  have "header (vmem u) a cz l fr"
    using t(1) l(2) bd Cons.prems(2) by (intro header_same [OF l(3) u(3)]) auto
  moreover have "kmalloc_from k n a s = kmalloc_from j n l s"
    using l(1) Cons.prems(5) by (auto simp: k h fits_def header_reads [OF l(3)])
  ultimately show ?case
    using u l(1,2) by (intro exI [of _ u]) (auto simp: h hchain_Cons simp del: hchain.simps(2))
qed

section \<open>Merging free neighbours\<close>

fun no_free_pair :: "hblock list \<Rightarrow> bool" where
  "no_free_pair (h # g # bs) \<longleftrightarrow> \<not> (hb_free h \<and> hb_free g) \<and> no_free_pair (g # bs)"
| "no_free_pair _ \<longleftrightarrow> True"

lemma merge_free_id: "no_free_pair bs \<Longrightarrow> merge_free bs = bs"
  by (induction bs rule: merge_free.induct) auto

lemma no_free_pair_Cons_merge:
  "\<exists>z f cs. merge_free (HB a s g # bs) = HB a z f # cs \<and> (\<not> g \<longrightarrow> \<not> f)"
  by (induction "HB a s g # bs" arbitrary: s g bs rule: merge_free.induct) auto

lemma merge_free_no_pair: "no_free_pair (merge_free bs)"
proof (induction bs rule: merge_free.induct)
  case (3 a s f b t g bs)
  show ?case
  proof (cases "f \<and> g")
    case False
    obtain z f' cs where m: "merge_free (HB b t g # bs) = HB b z f' # cs" "\<not> g \<longrightarrow> \<not> f'"
      using no_free_pair_Cons_merge by blast
    show ?thesis using 3(2) [OF False] False m by auto
  qed (use 3 in simp)
qed simp_all

lemma no_free_pair_append:
  "no_free_pair (xs @ ys) \<longleftrightarrow> no_free_pair xs \<and> no_free_pair ys \<and>
     (xs \<noteq> [] \<and> ys \<noteq> [] \<longrightarrow> \<not> (hb_free (last xs) \<and> hb_free (hd ys)))"
proof (induction xs)
  case (Cons h xs)
  then show ?case by (cases xs; cases ys) auto
qed simp

lemma merge_free_prefix:
  "no_free_pair pre \<Longrightarrow> (pre \<noteq> [] \<longrightarrow> \<not> hb_free (last pre)) \<Longrightarrow>
     merge_free (pre @ x # post) = pre @ merge_free (x # post)"
proof (induction pre)
  case (Cons h pre)
  then show ?case by (cases pre; cases h; cases "hd pre"; cases x) auto
qed simp

lemma hchain_cases2:
  assumes "hchain (vmem s) a (HB b t f # HB c u g # bs)"
  obtains l where "a \<noteq> 0" "b = a" "c \<noteq> 0" "header (vmem s) b t c f" "header (vmem s) c u l g" "hchain (vmem s) l bs"
  using assms by (auto simp: hchain_Cons simp del: hchain.simps(2))

text \<open>
  The walk of \<open>heap_coalesce\<close>: it merges every run of free neighbours and writes headers
  only.
\<close>

definition header_bytes :: "hblock list \<Rightarrow> nat set" where
  "header_bytes bs = (\<Union>h \<in> set bs. {unat (hb_addr h)..<unat (hb_addr h) + 32})"

definition only_on :: "nat set \<Rightarrow> 'a machine_scheme \<Rightarrow> 'a machine_scheme \<Rightarrow> bool" where
  "only_on A s s' \<longleftrightarrow>
     s'\<lparr>vmem := vmem s\<rparr> = s \<and> (\<forall>x. unat x \<notin> A \<longrightarrow> vmem s' x = vmem s x) \<and>
     (\<forall>x. vmem s x \<noteq> None \<longrightarrow> vmem s' x \<noteq> None)"

lemma only_on_only_in: "only_in lo hi s t \<Longrightarrow> {lo..<hi} \<subseteq> A \<Longrightarrow> only_on A s t"
  by (auto simp: only_in_def only_on_def subset_iff)

lemma only_in_only_on: "only_on A s t \<Longrightarrow> A \<subseteq> {lo..<hi} \<Longrightarrow> only_in lo hi s t"
  by (auto simp: only_in_def only_on_def subset_iff)

lemma only_on_refl [simp, intro]: "only_on A s s"
  by (simp add: only_on_def)

lemma only_on_trans:
  assumes "only_on A s t" "only_on B t u" "A \<subseteq> C" "B \<subseteq> C"
  shows "only_on C s u"
proof -
  have "u\<lparr>vmem := vmem s\<rparr> = s"
    using assms(1,2) unfolding only_on_def by (cases s, cases t, cases u) auto
  then show ?thesis using assms unfolding only_on_def by (metis subsetD)
qed

lemma header_bytes_tiles:
  assumes "tiles lo bs hi"
  shows "header_bytes bs \<subseteq> {lo..<hi}"
  using tiles_bounds [OF assms] by (fastforce simp: header_bytes_def)

lemma merged_size:
  fixes t u :: u64
  assumes "unat t + 32 + unat u < 2 ^ 64"
  shows "unat (t + (32 + u)) = unat t + 32 + unat u"
proof -
  have "unat (32 + u) = 32 + unat u"
    using assms unat_add_of_nat [of u 32] by (simp add: add.commute)
  then show ?thesis using assms by (simp add: unat_plus_if')
qed

lemma coalesce_from_ok:
  "hchain (vmem s) a bs \<Longrightarrow> tiles lo bs hi \<Longrightarrow> hi \<le> 2 ^ 64 - 2 ^ 12 \<Longrightarrow> mapped_range (vmem s) lo hi \<Longrightarrow>
   length bs < k \<Longrightarrow>
   \<exists>t. coalesce_from k a s = Inr t \<and> hchain (vmem t) a (merge_free bs) \<and> tiles lo (merge_free bs) hi \<and>
     only_on (header_bytes bs) s t"
proof (induction bs arbitrary: s a lo k rule: merge_free.induct)
  case 1
  then show ?case by (cases k) auto
next
  case (2 h)
  obtain b sz fr where h: "h = HB b sz fr" by (cases h) auto
  obtain j where k: "k = Suc j" using 2(5) by (cases k) auto
  from 2(1) have "a \<noteq> 0" "header (vmem s) a sz 0 fr" by (auto simp: h hchain_Cons simp del: hchain.simps(2))
  then have "coalesce_from k a s = Inr s" by (simp add: k header_reads)
  with 2 show ?case by auto
next
  case (3 b t f c u g bs)
  obtain j where k: "k = Suc j" using 3(7) by (cases k) auto
  obtain l where l: "a \<noteq> 0" "b = a" "c \<noteq> 0" "header (vmem s) b t c f" "header (vmem s) c u l g" "hchain (vmem s) l bs"
    using hchain_cases2 [OF 3(3)] by metis
  let ?m = "lo + 32 + unat t"
  have ti: "unat b = lo" "16 dvd unat t" "tiles ?m (HB c u g # bs) hi" "unat c = ?m" "16 dvd unat u"
    "tiles (?m + 32 + unat u) bs hi" "?m + 32 + unat u \<le> hi"
    using 3(4) tiles_bounds [of "?m + 32 + unat u" bs hi] by auto
  have mb: "mapped (vmem s) b 32"
    using ti 3(5) by (intro mapped_range_mapped [OF 3(6)]) auto
  have small: "unat b + 32 \<le> 2 ^ 64" using ti 3(5) by simp
  show ?case
  proof (cases "f \<and> g")
    case True
    obtain s1 where s1: "set_size b (t + (32 + u)) s = Inr s1" "header (vmem s1) b (t + (32 + u)) c f"
      "only_in (unat b) (unat b + 32) s s1"
      using set_header(1) [OF l(4) mb small] by blast
    have hc: "header (vmem s1) c u l g"
      using ti 3(5) by (intro header_same [OF l(5) s1(3)]) auto
    obtain s2 where s2: "set_next b l s1 = Inr s2" "header (vmem s2) b (t + (32 + u)) l f"
      "only_in (unat b) (unat b + 32) s1 s2"
      using set_header(2) [OF s1(2) only_in_mapped [OF s1(3) mb] small] by blast
    note o = only_in_trans [OF s1(3) s2(3)]
    have sz: "unat (t + (32 + u)) = unat t + 32 + unat u"
      using ti(7) 3(5) by (intro merged_size) simp
    have "hchain (vmem s2) l bs"
      using ti 3(5) by (intro hchain_same [OF ti(6) _ o _ l(6)]) auto
    then have ch: "hchain (vmem s2) a (HB b (t + (32 + u)) True # bs)"
      using l(1,2) s2(2) True by (auto simp: hchain_Cons simp del: hchain.simps(2))
    have tl: "tiles lo (HB b (t + (32 + u)) True # bs) hi"
      using ti sz by (simp add: add.assoc)
    have mr: "mapped_range (vmem s2) lo hi" by (rule mapped_range_only_in [OF o 3(6)])
    have len: "length (HB b (t + (32 + u)) True # bs) < j" using 3(7) k by simp
    obtain v where v: "coalesce_from j a s2 = Inr v" "hchain (vmem v) a (merge_free (HB b (t + (32 + u)) True # bs))"
      "tiles lo (merge_free (HB b (t + (32 + u)) True # bs)) hi"
      "only_on (header_bytes (HB b (t + (32 + u)) True # bs)) s2 v"
      using 3(1) [OF True ch tl 3(5) mr len] by blast
    have "only_on (header_bytes (HB b t f # HB c u g # bs)) s v"
      by (rule only_on_trans [OF only_on_only_in [OF o order_refl] v(4)]) (auto simp: header_bytes_def)
    moreover have "coalesce_from k a s = coalesce_from j a s2"
      using l True s1(1) s2(1)
      by (simp add: k header_reads [OF l(4) [unfolded l(2)]] header_reads [OF l(5)] header_reads [OF hc] HEAP_HEADER_SIZE_def)
    ultimately show ?thesis using v True by auto
  next
    case False
    have ch: "hchain (vmem s) c (HB c u g # bs)"
      using l by (auto simp: hchain_Cons simp del: hchain.simps(2))
    have mr: "mapped_range (vmem s) ?m hi" using 3(6) by (simp add: mapped_range_def)
    have len: "length (HB c u g # bs) < j" using 3(7) k by simp
    obtain v where v: "coalesce_from j c s = Inr v" "hchain (vmem v) c (merge_free (HB c u g # bs))"
      "tiles ?m (merge_free (HB c u g # bs)) hi" "only_on (header_bytes (HB c u g # bs)) s v"
      using 3(2) [OF False ch ti(3) 3(5) mr len] by blast
    have "only_in ?m hi s v"
      by (rule only_in_only_on [OF v(4) header_bytes_tiles [OF ti(3)]])
    then have "header (vmem v) b t c f"
      using ti 3(5) by (intro header_same [OF l(4)]) auto
    moreover have "coalesce_from k a s = coalesce_from j c s"
      using l False by (simp add: k header_reads [OF l(4) [unfolded l(2)]] header_reads [OF l(5)])
    moreover have "only_on (header_bytes (HB b t f # HB c u g # bs)) s v"
      by (rule only_on_trans [OF only_on_refl v(4), of "{}"]) (auto simp: header_bytes_def)
    ultimately show ?thesis
      using v l(1,2) ti(1,2) False by (auto simp: hchain_Cons simp del: hchain.simps(2))
  qed
qed

section \<open>The heap invariant\<close>

definition HEAP_LO :: nat where "HEAP_LO = 0xFFFF800000300000"
definition HEAP_HI :: nat where "HEAP_HI = 0xFFFF800000400000"

definition heap_ok :: "'a heap_scheme \<Rightarrow> hblock list \<Rightarrow> bool" where
  "heap_ok s bs \<longleftrightarrow>
     mapped_range (vmem s) HEAP_LO HEAP_HI \<and> hchain (vmem s) (heap_head s) bs \<and> tiles HEAP_LO bs HEAP_HI \<and>
     no_free_pair bs \<and> unat (heap_used s) = bytes_used bs"

lemma heap_region: "HEAP_HI \<le> 2 ^ 64 - 2 ^ 12" "HEAP_HI = HEAP_LO + 0x100000"
  by (simp_all add: HEAP_LO_def HEAP_HI_def)

lemma heap_okD:
  assumes "heap_ok s bs"
  shows "mapped_range (vmem s) HEAP_LO HEAP_HI" "hchain (vmem s) (heap_head s) bs" "tiles HEAP_LO bs HEAP_HI"
    "no_free_pair bs" "unat (heap_used s) = bytes_used bs"
  using assms by (simp_all add: heap_ok_def)

lemma bytes_used_simps [simp]:
  "bytes_used [] = 0" "bytes_used (HB b sz f # bs) = (if f then 0 else unat sz) + bytes_used bs"
  "bytes_used (xs @ ys) = bytes_used xs + bytes_used ys"
  by (simp_all add: bytes_used_def)

lemma tiles_bytes: "tiles lo bs hi \<Longrightarrow> lo + bytes_used bs \<le> hi"
  by (induction lo bs hi rule: tiles.induct) auto

lemma carve_bytes: "bytes_used (carve n b sz) = unat (hb_size (hd (carve n b sz)))"
  by (simp add: carve_def)

lemma carve_no_pair:
  assumes "no_free_pair (pre @ HB b sz True # post)"
  shows "no_free_pair (pre @ carve n b sz @ post)"
proof -
  have "no_free_pair (HB b sz True # post)" "no_free_pair pre" using assms by (auto simp: no_free_pair_append)
  then show ?thesis by (cases post) (auto simp: carve_def no_free_pair_append)
qed

definition round16 :: "u64 \<Rightarrow> u64" where
  "round16 sz = (sz + 15) AND NOT 15"

lemma round16_dvd: "16 dvd unat (round16 sz)"
  using unat_clear_low [of "sz + 15" 4] by (simp add: round16_def mask_eq_exp_minus_1)

lemma unat_round16:
  assumes "unat sz \<le> 2 ^ 64 - 16"
  shows "unat (round16 sz) = (unat sz + 15) div 16 * 16" "unat sz \<le> unat (round16 sz)"
proof -
  show e: "unat (round16 sz) = (unat sz + 15) div 16 * 16"
    using unat_clear_low [of "sz + 15" 4] unat_add_of_nat [of sz 15] assms
    by (simp add: round16_def mask_eq_exp_minus_1)
  show "unat sz \<le> unat (round16 sz)" unfolding e by presburger
qed

lemma round16_wraps:
  assumes "2 ^ 64 - 16 < unat sz"
  shows "round16 sz = 0"
proof -
  have "unat (sz + 15) < 16"
    using assms by (simp add: unat_plus_if') (use unat_u64_less [of sz] in linarith)
  then have "unat (round16 sz) = 0"
    using unat_clear_low [of "sz + 15" 4] by (simp add: round16_def mask_eq_exp_minus_1)
  then show ?thesis by (simp add: unat_eq_zero)
qed

definition extent :: "hblock \<Rightarrow> nat set" where
  "extent h = {unat (hb_addr h)..<unat (hb_addr h) + 32 + unat (hb_size h)}"

lemma tiles_disjoint:
  "tiles lo bs hi \<Longrightarrow> sorted_wrt (\<lambda>g h. extent g \<inter> extent h = {}) bs"
proof (induction lo bs hi rule: tiles.induct)
  case (2 a b sz fr bs e)
  then show ?case using tiles_bounds [of "a + 32 + unat sz" bs e] by (fastforce simp: extent_def)
qed simp

text \<open>A successful allocation: the new block list, and that only the carved block changed.\<close>

lemma kmalloc_ok:
  assumes ok: "heap_ok s bs" and sz: "sz \<noteq> 0" and k: "length bs < k"
    and ff: "first_fit (round16 sz) bs = Some (b, bs')"
  shows "\<exists>s' z. kmalloc k sz s = Inr (b + 32, s') \<and> heap_ok s' bs' \<and> HB b z True \<in> set bs \<and>
    HB b (hb_size (hd (carve (round16 sz) b z))) False \<in> set bs' \<and> round16 sz \<le> z \<and>
    heap_used s' = heap_used s + hb_size (hd (carve (round16 sz) b z)) \<and>
    only_on (extent (HB b z True)) (s\<lparr>heap_used := heap_used s'\<rparr>) s'"
proof -
  note D = heap_okD [OF ok]
  obtain pre z post where bs: "bs = pre @ HB b z True # post" "\<forall>h \<in> set pre. \<not> fits (round16 sz) h"
    "round16 sz \<le> z" "bs' = pre @ carve (round16 sz) b z @ post"
    using first_fit_Some [OF ff] by blast
  obtain t where t: "kmalloc_from k (round16 sz) (heap_head s) s =
      Inr (b + 32, t\<lparr>heap_used := heap_used t + hb_size (hd (carve (round16 sz) b z))\<rparr>)"
    "hchain (vmem t) (heap_head s) (pre @ carve (round16 sz) b z @ post)"
    "only_in (unat b) (unat b + 32 + unat z) s t"
    using kmalloc_from_found [OF D(3) [unfolded bs(1)] heap_region(1) D(2) [unfolded bs(1)] D(1) bs(2,3), of k] k bs(1)
    by auto
  have same: "t = s\<lparr>vmem := vmem t\<rparr>" using t(3) unfolding only_in_def by (cases s, cases t) auto
  obtain c where c: "tiles HEAP_LO pre c" "tiles c (HB b z True # post) HEAP_HI"
    using D(3) unfolding bs(1) tiles_append by blast
  have tl: "tiles HEAP_LO bs' HEAP_HI"
    using c(1) carve_tiles [OF c(2) bs(3) round16_dvd heap_region(1)]
    unfolding bs(4) tiles_append by blast
  let ?s' = "t\<lparr>heap_used := heap_used t + hb_size (hd (carve (round16 sz) b z))\<rparr>"
  have used: "unat (heap_used ?s') = bytes_used bs'"
  proof -
    have "bytes_used bs' = unat (heap_used s) + unat (hb_size (hd (carve (round16 sz) b z)))"
      using D(5) by (simp add: bs(1,4) carve_bytes)
    moreover have "bytes_used bs' \<le> 0x100000" using tiles_bytes [OF tl] by (simp add: heap_region(2))
    moreover have "heap_used t = heap_used s" using same by (cases t) simp
    ultimately show ?thesis by (simp add: unat_plus_if')
  qed
  have "heap_ok ?s' bs'"
    using mapped_range_only_in [OF t(3) D(1)] t(2) tl used carve_no_pair [of pre b z post "round16 sz"] D(4)
      arg_cong [OF same, of heap_head]
    by (simp add: heap_ok_def bs(1,4))
  moreover have "kmalloc k sz s = Inr (b + 32, ?s')" using t(1) sz by (simp add: kmalloc_def round16_def)
  moreover have "only_on (extent (HB b z True)) (s\<lparr>heap_used := heap_used ?s'\<rparr>) ?s'"
    using t(3) arg_cong [OF same, of heap_used] unfolding only_in_def only_on_def extent_def
    by (cases s, cases t) auto
  moreover have "HB b (hb_size (hd (carve (round16 sz) b z))) False \<in> set bs'" by (simp add: bs(4) carve_def)
  ultimately show ?thesis
    using bs(1,3) arg_cong [OF same, of heap_used] by (intro exI [of _ ?s'] exI [of _ z]) simp
qed

lemma hchain_mark:
  "tiles lo (pre @ HB b sz f # post) hi \<Longrightarrow> hi \<le> 2 ^ 64 - 2 ^ 12 \<Longrightarrow>
   hchain (vmem s) a (pre @ HB b sz f # post) \<Longrightarrow>
   b \<noteq> 0 \<and> (\<exists>l. header (vmem s) b sz l f \<and>
     (\<forall>t g. header (vmem t) b sz l g \<and> only_in (unat b) (unat b + 32) s t \<longrightarrow>
        hchain (vmem t) a (pre @ HB b sz g # post)))"
proof (induction pre arbitrary: a lo)
  case Nil
  then obtain l where l: "a \<noteq> 0" "b = a" "header (vmem s) b sz l f" "hchain (vmem s) l post"
    by (auto simp: hchain_Cons simp del: hchain.simps(2))
  have ti: "unat b = lo" "tiles (lo + 32 + unat sz) post hi" using Nil.prems(1) by auto
  have "hchain (vmem t) l post" if "only_in (unat b) (unat b + 32) s t" for t
    using ti Nil.prems(2) by (intro hchain_same [OF ti(2) _ that _ l(4)]) auto
  with l show ?case by (auto simp: hchain_Cons simp del: hchain.simps(2))
next
  case (Cons h pre)
  obtain c cz fr where h: "h = HB c cz fr" by (cases h) auto
  from Cons.prems(3) obtain l where l: "a \<noteq> 0" "c = a" "header (vmem s) a cz l fr"
    "hchain (vmem s) l (pre @ HB b sz f # post)"
    by (auto simp: h hchain_Cons simp del: hchain.simps(2))
  have ti: "unat c = lo" "tiles (lo + 32 + unat cz) (pre @ HB b sz f # post) hi"
    using Cons.prems(1) by (auto simp: h)
  have bd: "lo + 32 + unat cz \<le> unat b" "unat b + 32 + unat sz \<le> hi" using tiles_bounds [OF ti(2)] by auto
  have "header (vmem t) a cz l fr" if "only_in (unat b) (unat b + 32) s t" for t
    using ti(1) l(2) bd Cons.prems(2) by (intro header_same [OF l(3) that]) auto
  moreover obtain la where la: "b \<noteq> 0" "header (vmem s) b sz la f"
    "\<And>t g. header (vmem t) b sz la g \<Longrightarrow> only_in (unat b) (unat b + 32) s t \<Longrightarrow>
       hchain (vmem t) l (pre @ HB b sz g # post)"
    using Cons.IH [OF ti(2) Cons.prems(2) l(4)] by blast
  ultimately have "hchain (vmem t) a ((h # pre) @ HB b sz g # post)"
    if "header (vmem t) b sz la g" "only_in (unat b) (unat b + 32) s t" for t g
    using that l(1,2) la(3) [OF that] by (auto simp: h hchain_Cons simp del: hchain.simps(2))
  with la(1,2) show ?case by blast
qed

lemma tiles_mark: "tiles lo (pre @ HB b sz f # post) hi = tiles lo (pre @ HB b sz g # post) hi"
  by (simp add: tiles_append)

lemma bytes_merge:
  "tiles lo bs hi \<Longrightarrow> hi \<le> 2 ^ 64 - 2 ^ 12 \<Longrightarrow> bytes_used (merge_free bs) = bytes_used bs"
proof (induction bs arbitrary: lo rule: merge_free.induct)
  case (3 a s f b t g bs)
  show ?case
  proof (cases "f \<and> g")
    case True
    have ti: "unat a = lo" "16 dvd unat s" "16 dvd unat t" "tiles (lo + 32 + unat s + 32 + unat t) bs hi"
      using 3(3) by auto
    have le: "lo + 32 + unat s + 32 + unat t \<le> hi" using tiles_bounds [OF ti(4)] by simp
    have "unat (s + (32 + t)) = unat s + (32 + unat t)"
      using le 3(4) merged_size [of s t] by simp
    then have "tiles lo (HB a (s + (32 + t)) True # bs) hi" using ti by (simp add: add.assoc)
    from 3(1) [OF True this 3(4)] True show ?thesis by simp
  next
    case False
    with 3 show ?thesis by auto
  qed
qed simp_all

text \<open>Freeing an allocated block: it is marked free and merged with free neighbours.\<close>

lemma kfree_ok:
  assumes ok: "heap_ok s (pre @ HB b sz False # post)" and k: "length (pre @ HB b sz False # post) < k"
  shows "\<exists>s'. kfree dev k (b + 32) s = Inr s' \<and> heap_ok s' (merge_free (pre @ HB b sz True # post)) \<and>
    heap_used s' = heap_used s - sz \<and>
    only_on (header_bytes (pre @ HB b sz False # post)) (s\<lparr>heap_used := heap_used s'\<rparr>) s'"
proof -
  let ?bs = "pre @ HB b sz False # post" and ?cs = "pre @ HB b sz True # post"
  note D = heap_okD [OF ok]
  obtain l where l: "b \<noteq> 0" "header (vmem s) b sz l False"
    "\<And>t g. header (vmem t) b sz l g \<Longrightarrow> only_in (unat b) (unat b + 32) s t \<Longrightarrow>
       hchain (vmem t) (heap_head s) (pre @ HB b sz g # post)"
    using hchain_mark [OF D(3) heap_region(1) D(2)] by blast
  have bd: "HEAP_LO \<le> unat b" "unat b + 32 + unat sz \<le> HEAP_HI" using tiles_bounds [OF D(3)] by auto
  have mb: "mapped (vmem s) b 32"
    using bd heap_region(1) by (intro mapped_range_mapped [OF D(1)]) auto
  have small: "unat b + 32 \<le> 2 ^ 64" using bd heap_region(1) by simp
  obtain t where t: "set_free b 1 s = Inr t" "header (vmem t) b sz l True" "only_in (unat b) (unat b + 32) s t"
    using set_header(3) [OF l(2) mb small, of True] by auto
  have same: "t = s\<lparr>vmem := vmem t\<rparr>" using t(3) unfolding only_in_def by (cases s, cases t) auto
  let ?t = "t\<lparr>heap_used := heap_used s - sz\<rparr>"
  have ch: "hchain (vmem ?t) (heap_head s) ?cs" using l(3) [OF t(2,3)] by simp
  have tl: "tiles HEAP_LO ?cs HEAP_HI" using D(3) tiles_mark by blast
  have mr: "mapped_range (vmem ?t) HEAP_LO HEAP_HI" using mapped_range_only_in [OF t(3) D(1)] by simp
  have len: "length ?cs < k" using k by simp
  obtain v where v: "coalesce_from k (heap_head s) ?t = Inr v" "hchain (vmem v) (heap_head s) (merge_free ?cs)"
    "tiles HEAP_LO (merge_free ?cs) HEAP_HI" "only_on (header_bytes ?cs) ?t v"
    using coalesce_from_ok [OF ch tl heap_region(1) mr len] by blast
  have vsame: "v = ?t\<lparr>vmem := vmem v\<rparr>" using v(4) unfolding only_on_def by (cases v, cases t) auto
  have hd: "heap_head t = heap_head s" "heap_used t = heap_used s" "heap_used v = heap_used s - sz" "heap_head v = heap_head s"
    using arg_cong [OF same, of heap_head] arg_cong [OF same, of heap_used] arg_cong [OF vsame, of heap_used] arg_cong [OF vsame, of heap_head]
    by simp_all
  have ne: "b + 32 \<noteq> 0"
  proof -
    have "unat (b + 32) = unat b + 32" using bd heap_region(1) by (intro unat_add_numeral) simp
    then show ?thesis by (metis add_is_0 unat_0 zero_neq_numeral)
  qed
  have run: "kfree dev k (b + 32) s = Inr v"
    using ne t(1) v(1) hd(1,2)
    by (simp add: kfree_def HEAP_HEADER_SIZE_def header_reads [OF l(2)] header_reads [OF t(2)] heap_coalesce_def)
  have used: "unat (heap_used v) = bytes_used (merge_free ?cs)"
    using D(5) bytes_merge [OF tl heap_region(1)] hd(3)
    by (simp add: unat_sub word_le_nat_alt)
  have "mapped_range (vmem v) HEAP_LO HEAP_HI"
    using mr v(4) by (auto simp: only_on_def mapped_range_def)
  then have "heap_ok v (merge_free ?cs)"
    using v(2,3) hd(4) used merge_free_no_pair by (simp add: heap_ok_def)
  moreover have "only_on (header_bytes ?bs) (s\<lparr>heap_used := heap_used v\<rparr>) v"
  proof -
    have "only_on (header_bytes ?bs) (s\<lparr>heap_used := heap_used s - sz\<rparr>) ?t"
      using t(3) unfolding only_in_def only_on_def header_bytes_def by (cases s, cases t) auto
    moreover have "header_bytes ?cs = header_bytes ?bs" by (simp add: header_bytes_def)
    ultimately show ?thesis using only_on_trans [OF _ v(4)] hd(3) by auto
  qed
  ultimately show ?thesis using run hd(3) by blast
qed

text \<open>Merging undoes carving.\<close>

lemma merge_carve:
  assumes nf: "no_free_pair (pre @ HB b z True # post)" and z: "n \<le> z"
  shows "\<exists>post'. carve n b z = HB b (hb_size (hd (carve n b z))) False # post' \<and>
    merge_free (pre @ HB b (hb_size (hd (carve n b z))) True # post' @ post) = pre @ HB b z True # post"
proof (cases "unat z \<le> unat n + 96")
  case True
  then show ?thesis using merge_free_id [OF nf] by (simp add: carve_def)
next
  case False
  have sum: "n + (32 + (z - n - 32)) = z" by simp
  have pre: "no_free_pair pre" "pre \<noteq> [] \<longrightarrow> \<not> hb_free (last pre)" "no_free_pair (HB b z True # post)"
    using nf by (auto simp: no_free_pair_append)
  have "merge_free (pre @ HB b n True # HB (b + 32 + n) (z - n - 32) True # post)
      = pre @ merge_free (HB b n True # HB (b + 32 + n) (z - n - 32) True # post)"
    by (rule merge_free_prefix [OF pre(1,2)])
  also have "\<dots> = pre @ merge_free (HB b z True # post)" using sum by simp
  also have "\<dots> = pre @ HB b z True # post" using merge_free_id [OF pre(3)] by simp
  finally show ?thesis using False by (simp add: carve_def)
qed

section \<open>Initialisation\<close>

lemma ports_only_heap:
  assumes "ports_only s t" "heap_ok s bs"
  shows "heap_ok t bs"
  using assms unfolding ports_only_def by (cases s, cases t) (auto simp: heap_ok_def)

lemma heap_outside_bitmap: "HEAP_LO \<le> unat x \<Longrightarrow> unat x < HEAP_HI \<Longrightarrow> \<not> in_bitmap x"
  by (simp add: in_bitmap_def HEAP_LO_def HEAP_HI_def PMM_BITMAP_VIRT_def KERNEL_VIRT_BASE_def
      PMM_BITMAP_PHYS_def unat_sub_if')

definition initial_block :: hblock where
  "initial_block = HB HEAP_VIRT_START (HEAP_INITIAL_SIZE - HEAP_HEADER_SIZE) True"

lemma heap_start: "unat HEAP_VIRT_START = HEAP_LO" "HEAP_VIRT_START \<noteq> 0"
  "unat (HEAP_INITIAL_SIZE - HEAP_HEADER_SIZE) = 0x100000 - 32"
  by (simp_all add: HEAP_VIRT_START_def HEAP_LO_def KERNEL_VIRT_BASE_def HEAP_PHYS_START_def
      HEAP_INITIAL_SIZE_def HEAP_HEADER_SIZE_def)

abbreviation report_heap :: "device \<Rightarrow> nat \<Rightarrow> 'a machine_scheme \<Rightarrow> 'a machine_scheme res" where
  "report_heap dev n s \<equiv>
     rbind (serial_puts dev n SERIAL_COM1 (str ''Heap: Initialized at '') s) (\<lambda>s.
     rbind (serial_put_hex dev n SERIAL_COM1 HEAP_VIRT_START s) (\<lambda>s.
     serial_puts dev n SERIAL_COM1 (str '', size=1MB\<newline>'') s))"

text \<open>What \<open>heap_init\<close> changes before it prints: the pages of the region, the header of its first
  block, and its own variables.\<close>

lemma heap_init_run:
  assumes "pmm_ok s" "mapped_range (vmem s) HEAP_LO HEAP_HI"
  shows "\<exists>p t. heap_init dev n s = report_heap dev n t \<and> heap_ok t [initial_block] \<and> pmm_ok p \<and> pmm_frame s p \<and>
    used p = used s \<union> ({768..<1024} \<inter> {..<unat (pmm_total_pages s)}) \<and>
    only_in HEAP_LO HEAP_HI
      (p\<lparr>heap_head := heap_head t, heap_end := heap_end t, heap_total := heap_total t, heap_used := heap_used t\<rparr>) t"
proof -
  let ?b = HEAP_VIRT_START
  obtain p where p: "pmm_mark_region_used HEAP_PHYS_START HEAP_INITIAL_SIZE s = Inr p" "pmm_frame s p" "pmm_ok p"
    "used p = used s \<union> ({768..<1024} \<inter> {..<unat (pmm_total_pages s)})"
    using region_used_ok [OF assms(1), of HEAP_INITIAL_SIZE HEAP_PHYS_START]
    by (auto simp: HEAP_INITIAL_SIZE_def HEAP_PHYS_START_def)
  let ?p = "p\<lparr>heap_head := ?b\<rparr>"
  have mr: "mapped_range (vmem ?p) HEAP_LO HEAP_HI"
    using p(2) assms(2) by (simp add: pmm_frame_def mapped_range_def)
  have mb: "mapped (vmem ?p) ?b 32"
    by (rule mapped_range_mapped [OF mr]) (simp_all add: heap_start HEAP_LO_def HEAP_HI_def)
  have small: "unat ?b + 32 \<le> 2 ^ 64" by (simp add: heap_start HEAP_LO_def)
  obtain x y z w where f0: "fields (vmem ?p) ?b = (x, y, z, w)" by (cases "fields (vmem ?p) ?b") auto
  let ?sz = "HEAP_INITIAL_SIZE - HEAP_HEADER_SIZE"
  obtain s1 where s1: "set_size ?b ?sz ?p = Inr s1" "fields (vmem s1) ?b = (Inr ?sz, y, z, w)"
    "only_in (unat ?b) (unat ?b + 32) ?p s1"
    using store_field(1) [OF mb small f0] by blast
  obtain s2 where s2: "set_next ?b 0 s1 = Inr s2" "fields (vmem s2) ?b = (Inr ?sz, Inr 0, z, w)"
    "only_in (unat ?b) (unat ?b + 32) s1 s2"
    using store_field(2) [OF only_in_mapped [OF s1(3) mb] small s1(2)] by blast
  note o2 = only_in_trans [OF s1(3) s2(3)]
  obtain s3 where s3: "set_magic ?b HEAP_MAGIC s2 = Inr s3"
    "fields (vmem s3) ?b = (Inr ?sz, Inr 0, Inr HEAP_MAGIC, w)" "only_in (unat ?b) (unat ?b + 32) s2 s3"
    using store_field(3) [OF only_in_mapped [OF o2 mb] small s2(2)] by blast
  note o3 = only_in_trans [OF o2 s3(3)]
  obtain s4 where s4: "set_free ?b 1 s3 = Inr s4"
    "fields (vmem s4) ?b = (Inr ?sz, Inr 0, Inr HEAP_MAGIC, Inr 1)" "only_in (unat ?b) (unat ?b + 32) s3 s4"
    using store_field(4) [OF only_in_mapped [OF o3 mb] small s3(2)] by blast
  note o4 = only_in_trans [OF o3 s4(3)]
  have head: "heap_head t = ?b" if "only_in (unat ?b) (unat ?b + 32) ?p t" for t
    using that unfolding only_in_def by (cases t, cases p) auto
  let ?s5 = "s4\<lparr>heap_end := HEAP_VIRT_START + HEAP_INITIAL_SIZE, heap_total := HEAP_INITIAL_SIZE, heap_used := 0\<rparr>"
  have "header (vmem s4) ?b ?sz 0 True" using s4(2) by (simp add: header_def)
  then have "hchain (vmem s4) ?b [initial_block]"
    by (auto simp: initial_block_def hchain_Cons heap_start(2) simp del: hchain.simps(2))
  moreover have "tiles HEAP_LO [initial_block] HEAP_HI"
    by (simp add: initial_block_def heap_start heap_region(2))
  ultimately have ok: "heap_ok ?s5 [initial_block]"
    using mapped_range_only_in [OF o4 mr] head [OF o4]
    by (simp add: heap_ok_def initial_block_def)
  have "heap_init dev n s = report_heap dev n ?s5"
    using p(1) s1(1) s2(1) s3(1) s4(1) head [OF s1(3)] head [OF o2] head [OF o3]
    by (simp add: heap_init_def Let_def)
  moreover have "only_in HEAP_LO HEAP_HI ?p s4"
    using o4 by (rule only_in_mono) (simp_all add: heap_start heap_region(2))
  then have "only_in HEAP_LO HEAP_HI
      (p\<lparr>heap_head := heap_head ?s5, heap_end := heap_end ?s5, heap_total := heap_total ?s5, heap_used := heap_used ?s5\<rparr>) ?s5"
    using head [OF o4] unfolding only_in_def by (cases s4, cases p) auto
  ultimately show ?thesis using ok p(2-4) by blast
qed

lemma heap_init_ok:
  assumes "pmm_ok s" "mapped_range (vmem s) HEAP_LO HEAP_HI" "uart_answers dev SERIAL_COM1" "0 < n"
  shows "\<exists>s'. heap_init dev n s = Inr s' \<and> heap_ok s' [initial_block]"
proof -
  obtain s5 where s5: "heap_init dev n s = report_heap dev n s5" "heap_ok s5 [initial_block]"
    using heap_init_run [OF assms(1,2)] by blast
  obtain t where t: "serial_puts dev n SERIAL_COM1 (str ''Heap: Initialized at '') s5 = Inr t" "ports_only s5 t"
    using serial_puts_ready [OF assms(3,4)] by blast
  obtain u where u: "serial_put_hex dev n SERIAL_COM1 HEAP_VIRT_START t = Inr u" "ports_only t u"
    using serial_put_hex_ready [OF assms(3,4)] by blast
  obtain v where v: "serial_puts dev n SERIAL_COM1 (str '', size=1MB\<newline>'') u = Inr v" "ports_only u v"
    using serial_puts_ready [OF assms(3,4)] by blast
  have "ports_only s5 v" using t(2) u(2) v(2) by (blast intro: ports_only_trans)
  then show ?thesis using s5 t(1) u(1) v(1) ports_only_heap by auto
qed

lemma tiles_aligned: "tiles lo bs hi \<Longrightarrow> 16 dvd lo \<Longrightarrow> \<forall>h \<in> set bs. 16 dvd unat (hb_addr h)"
  by (induction lo bs hi rule: tiles.induct) auto

section \<open>Properties\<close>

definition heap_demo :: heap where
  "heap_demo = pmm.extend
     ((pmm_demo 0)\<lparr>vmem := \<lambda>a. if in_bitmap a \<or> (HEAP_LO \<le> unat a \<and> unat a < HEAP_HI) then Some 0 else None\<rparr>)
     \<lparr>heap_head = 0, heap_end = 0, heap_total = 0, heap_used = 0\<rparr>"

lemma heap_demo_ok: "pmm_ok heap_demo" "mapped_range (vmem heap_demo) HEAP_LO HEAP_HI"
proof -
  have u: "used heap_demo = {}" by (simp add: used_def heap_demo_def pmm.defs)
  have "pmm_total_pages heap_demo = 0" "pmm_used_pages heap_demo = 0"
    by (simp_all add: heap_demo_def pmm_demo_def pmm.defs kbd.defs)
  then show "pmm_ok heap_demo" using u by (simp add: pmm_ok_def mapped_def)
  show "mapped_range (vmem heap_demo) HEAP_LO HEAP_HI"
    by (simp add: mapped_range_def heap_demo_def pmm.defs)
qed

text \<open>Initialisation leaves one free block that fills the heap region, with nothing counted
  as used.\<close>

theorem heap_init_one_block:
  assumes "pmm_ok s" "mapped_range (vmem s) HEAP_LO HEAP_HI" "uart_answers dev SERIAL_COM1" "0 < n"
  shows "\<exists>s'. heap_init dev n s = Inr s' \<and> heap_ok s' [initial_block]"
  by (rule heap_init_ok [OF assms])

theorem heap_init_one_block_witness:
  "\<exists>s'. heap_init uart_ready 1 heap_demo = Inr s' \<and> heap_ok s' [initial_block]"
  by (rule heap_init_one_block [OF heap_demo_ok uart_ready_answers]) simp

lemma demo_heap: "\<exists>s :: heap. heap_ok s [initial_block]"
  using heap_init_ok [OF heap_demo_ok uart_ready_answers, of 1] by auto

text \<open>A heap after one allocation of 100 bytes.\<close>

definition demo_blocks :: "hblock list" where
  "demo_blocks = [HB HEAP_VIRT_START 112 False, HB (HEAP_VIRT_START + 32 + 112) 1048400 True]"

lemma demo_blocks_fit: "first_fit (round16 100) [initial_block] = Some (HEAP_VIRT_START, demo_blocks)"
  by (simp add: initial_block_def demo_blocks_def carve_def round16_def HEAP_INITIAL_SIZE_def
      HEAP_HEADER_SIZE_def word_le_nat_alt)

lemma demo_heap_allocated: "\<exists>s :: heap. heap_ok s demo_blocks"
proof -
  obtain s0 :: heap where s0: "heap_ok s0 [initial_block]" using demo_heap by blast
  show ?thesis using kmalloc_ok [OF s0, of 100 5, OF _ _ demo_blocks_fit] by auto
qed

text \<open>C3. \<open>kmalloc\<close> is first fit on the list of blocks: for every request that can be rounded up
  to 16 it returns the payload of the first free block that is large enough, aligned to
  16 bytes and at least as large as asked, splits off the rest, and touches no byte outside
  that block; it panics exactly when no block fits.  The list invariant (headers intact,
  blocks tile the region, no two free neighbours, used bytes counted) is kept.\<close>

theorem kmalloc_first_fit:
  assumes "heap_ok s bs" "sz \<noteq> 0" "unat sz \<le> 2 ^ 64 - 16" "length bs < k"
  shows "case first_fit (round16 sz) bs of
      None \<Rightarrow> kmalloc k sz s = Inl (Panic (str ''Heap: Out of memory!''))
    | Some (b, bs') \<Rightarrow> \<exists>s' z. kmalloc k sz s = Inr (b + 32, s') \<and> heap_ok s' bs' \<and>
        16 dvd unat (b + 32) \<and> HB b z True \<in> set bs \<and> unat sz \<le> unat z \<and>
        HB b (hb_size (hd (carve (round16 sz) b z))) False \<in> set bs' \<and>
        unat sz \<le> unat (hb_size (hd (carve (round16 sz) b z))) \<and>
        only_on (extent (HB b z True)) (s\<lparr>heap_used := heap_used s'\<rparr>) s'"
proof (cases "first_fit (round16 sz) bs")
  case None
  then have "\<forall>h \<in> set bs. \<not> fits (round16 sz) h" by (simp add: first_fit_None)
  from kmalloc_from_none [OF heap_okD(2) [OF assms(1)] this assms(4)] None assms(2) show ?thesis
    by (simp add: kmalloc_def round16_def)
next
  case (Some r)
  obtain b bs' where r: "r = (b, bs')" by (cases r) auto
  obtain s' z where K: "kmalloc k sz s = Inr (b + 32, s')" "heap_ok s' bs'" "HB b z True \<in> set bs"
    "HB b (hb_size (hd (carve (round16 sz) b z))) False \<in> set bs'" "round16 sz \<le> z"
    "only_on (extent (HB b z True)) (s\<lparr>heap_used := heap_used s'\<rparr>) s'"
    using kmalloc_ok [OF assms(1,2,4), of b bs'] Some r by blast
  have "16 dvd HEAP_LO" by (simp add: HEAP_LO_def)
  then have "16 dvd unat b" using tiles_aligned [OF heap_okD(3) [OF assms(1)]] K(3) by fastforce
  moreover have "unat b + 32 \<le> HEAP_HI"
    using tiles_bounds [OF heap_okD(3) [OF assms(1)]] K(3) by fastforce
  then have "unat (b + 32) = unat b + 32" using heap_region(1) by (intro unat_add_numeral) simp
  moreover have "unat sz \<le> unat (round16 sz)" by (rule unat_round16(2) [OF assms(3)])
  moreover have "unat (round16 sz) \<le> unat z" using K(5) by (simp add: word_le_nat_alt)
  ultimately show ?thesis
    using K Some r by (auto simp: carve_def intro!: exI [of _ s'] exI [of _ z])
qed

theorem kmalloc_first_fit_witness:
  "\<exists>(s :: heap) s'. kmalloc 5 100 s = Inr (HEAP_VIRT_START + 32, s') \<and> heap_ok s' demo_blocks"
proof -
  obtain s :: heap where s: "heap_ok s [initial_block]" using demo_heap by blast
  show ?thesis using kmalloc_first_fit [OF s, of 100 5] by (auto simp: demo_blocks_fit)
qed

text \<open>An allocation disturbs no other: every block allocated before stays in the list, does
  not overlap the new one, and keeps all its bytes.\<close>

theorem kmalloc_isolated:
  assumes "heap_ok s bs" "sz \<noteq> 0" "length bs < k" "first_fit (round16 sz) bs = Some (b, bs')"
  shows "\<exists>s' z. kmalloc k sz s = Inr (b + 32, s') \<and> HB b z True \<in> set bs \<and>
    (\<forall>h \<in> set bs. \<not> hb_free h \<longrightarrow> h \<in> set bs' \<and> extent h \<inter> extent (HB b z True) = {} \<and>
       (\<forall>x. unat x \<in> extent h \<longrightarrow> vmem s' x = vmem s x))"
proof -
  obtain s' z where K: "kmalloc k sz s = Inr (b + 32, s')" "HB b z True \<in> set bs"
    "only_on (extent (HB b z True)) (s\<lparr>heap_used := heap_used s'\<rparr>) s'"
    using kmalloc_ok [OF assms] by blast
  have sw: "sorted_wrt (\<lambda>g h. extent g \<inter> extent h = {}) bs" by (rule tiles_disjoint [OF heap_okD(3) [OF assms(1)]])
  have disj: "extent h \<inter> extent (HB b z True) = {}" if h: "h \<in> set bs" "\<not> hb_free h" for h
  proof -
    obtain i j where ij: "i < length bs" "bs ! i = h" "j < length bs" "bs ! j = HB b z True"
      using h(1) K(2) by (auto simp: in_set_conv_nth)
    then have "i \<noteq> j" using h(2) by auto
    with ij sorted_wrt_nth_less [OF sw, of i j] sorted_wrt_nth_less [OF sw, of j i] show ?thesis
      by (cases "i < j") (auto simp: Int_commute)
  qed
  have keep: "h \<in> set bs'" if "h \<in> set bs" "\<not> hb_free h" for h
    using first_fit_Some [OF assms(4)] that by auto
  have "vmem s' x = vmem s x" if "h \<in> set bs" "\<not> hb_free h" "unat x \<in> extent h" for h x
    using K(3) disj [OF that(1,2)] that(3) by (auto simp: only_on_def)
  with K disj keep show ?thesis by blast
qed

theorem kmalloc_isolated_witness:
  "\<exists>(s :: heap) bs s'. heap_ok s bs \<and> (\<exists>h \<in> set bs. \<not> hb_free h) \<and>
     kmalloc 5 16 s = Inr (HEAP_VIRT_START + 32 + 112 + 32, s') \<and>
     (\<forall>h \<in> set bs. \<not> hb_free h \<longrightarrow> (\<forall>x. unat x \<in> extent h \<longrightarrow> vmem s' x = vmem s x))"
proof -
  obtain s :: heap where s: "heap_ok s demo_blocks" using demo_heap_allocated by blast
  have ff: "first_fit (round16 16) demo_blocks = Some (HEAP_VIRT_START + 32 + 112,
      HB HEAP_VIRT_START 112 False # carve 16 (HEAP_VIRT_START + 32 + 112) 1048400)"
    by (simp add: round16_def demo_blocks_def word_le_nat_alt)
  have len: "length demo_blocks < 5" and ex: "\<exists>h \<in> set demo_blocks. \<not> hb_free h"
    by (auto simp: demo_blocks_def)
  have nz: "(16 :: 64 word) \<noteq> 0" by simp
  from kmalloc_isolated [OF s nz len ff] s ex show ?thesis by blast
qed

text \<open>C32. Freeing what was just allocated restores the heap: the same list of blocks, merged
  back, and the same count of used bytes.\<close>

theorem kmalloc_kfree_restores:
  assumes "heap_ok s bs" "sz \<noteq> 0" "length bs + 1 < k" "first_fit (round16 sz) bs \<noteq> None"
  shows "\<exists>p t s'. kmalloc k sz s = Inr (p, t) \<and> kfree dev k p t = Inr s' \<and> heap_ok s' bs \<and>
    heap_used s' = heap_used s"
proof -
  obtain b bs' where ff: "first_fit (round16 sz) bs = Some (b, bs')" using assms(4) by auto
  let ?n = "round16 sz"
  obtain pre z post where bs: "bs = pre @ HB b z True # post" "?n \<le> z" "bs' = pre @ carve ?n b z @ post"
    using first_fit_Some [OF ff] by blast
  obtain post' where c: "carve ?n b z = HB b (hb_size (hd (carve ?n b z))) False # post'"
    "merge_free (pre @ HB b (hb_size (hd (carve ?n b z))) True # post' @ post) = bs"
    using merge_carve [OF heap_okD(4) [OF assms(1), unfolded bs(1)] bs(2)] bs(1) by blast
  have len: "length bs' < k" using assms(3) by (simp add: bs(1,3) carve_def)
  obtain t where t: "kmalloc k sz s = Inr (b + 32, t)" "heap_ok t bs'"
    using kmalloc_ok [OF assms(1,2) _ ff, of k] assms(3) by auto
  have "heap_ok t (pre @ HB b (hb_size (hd (carve ?n b z))) False # post' @ post)"
    using t(2) c(1) bs(3) by (metis append_Cons)
  from kfree_ok [OF this, of k dev] obtain s' where s': "kfree dev k (b + 32) t = Inr s'" "heap_ok s' bs"
    using len c bs(3) by (metis append_Cons)
  have "heap_used s' = heap_used s"
    using heap_okD(5) [OF s'(2)] heap_okD(5) [OF assms(1)] by (simp add: word_unat_eq_iff)
  with t s' show ?thesis by blast
qed

theorem kmalloc_kfree_restores_witness:
  "\<exists>(s :: heap) p t s'. kmalloc 5 100 s = Inr (p, t) \<and> kfree uart_ready 5 p t = Inr s' \<and> heap_ok s' [initial_block]"
proof -
  obtain s :: heap where s: "heap_ok s [initial_block]" using demo_heap by blast
  have "first_fit (round16 100) [initial_block] \<noteq> None"
    by (simp add: round16_def initial_block_def HEAP_INITIAL_SIZE_def HEAP_HEADER_SIZE_def word_le_nat_alt)
  from kmalloc_kfree_restores [OF s _ _ this, of 5 uart_ready] show ?thesis by auto
qed

text \<open>C11. Freeing an allocated block marks it free and merges it with its free neighbours, keeps
  the list invariant, subtracts its size from the count and writes headers only; freeing it
  again changes nothing but the log.\<close>

theorem kfree_merges:
  assumes "heap_ok s (pre @ HB b sz fr # post)" "length (pre @ HB b sz fr # post) < k"
    "uart_answers dev SERIAL_COM1"
  shows "\<exists>s'. kfree dev k (b + 32) s = Inr s' \<and>
    (if fr then heap_ok s' (pre @ HB b sz fr # post) \<and> ports_only s s'
     else heap_ok s' (merge_free (pre @ HB b sz True # post)) \<and> heap_used s' = heap_used s - sz \<and>
       only_on (header_bytes (pre @ HB b sz fr # post)) (s\<lparr>heap_used := heap_used s'\<rparr>) s')"
proof (cases fr)
  case False
  then show ?thesis using kfree_ok [of s pre b sz post k dev] assms(1,2) by auto
next
  case True
  note D = heap_okD [OF assms(1)]
  obtain l where l: "b \<noteq> 0" "header (vmem s) b sz l fr"
    using hchain_mark [OF D(3) heap_region(1) D(2)] by blast
  have "unat b + 32 \<le> HEAP_HI" using tiles_bounds [OF D(3)] by auto
  then have "unat (b + 32) = unat b + 32" using heap_region(1) by (intro unat_add_numeral) simp
  then have ne: "b + 32 \<noteq> 0" by (metis add_is_0 unat_0 zero_neq_numeral)
  obtain t where t: "serial_puts dev k SERIAL_COM1 (str ''Heap: Double free detected!\<newline>'') s = Inr t" "ports_only s t"
    using serial_puts_ready [OF assms(3), of k] assms(2) by force
  have "kfree dev k (b + 32) s = Inr t"
    using ne t(1) True by (simp add: kfree_def HEAP_HEADER_SIZE_def header_reads [OF l(2)])
  with t(2) ports_only_heap [OF t(2) assms(1)] True show ?thesis by auto
qed

theorem kfree_merges_witness:
  "\<exists>(s :: heap) s' s''. kfree uart_ready 5 (HEAP_VIRT_START + 32) s = Inr s' \<and> heap_ok s' [initial_block] \<and>
     kfree uart_ready 5 (HEAP_VIRT_START + 32) s' = Inr s'' \<and> heap_ok s'' [initial_block]"
proof -
  let ?post = "[HB (HEAP_VIRT_START + 32 + 112) 1048400 True]"
  obtain s :: heap where "heap_ok s demo_blocks" using demo_heap_allocated by blast
  then have s: "heap_ok s ([] @ HB HEAP_VIRT_START 112 False # ?post)" by (simp add: demo_blocks_def)
  have m: "merge_free (HB HEAP_VIRT_START 112 True # ?post) = [initial_block]"
    by (simp add: initial_block_def HEAP_INITIAL_SIZE_def HEAP_HEADER_SIZE_def)
  obtain s' where s': "kfree uart_ready 5 (HEAP_VIRT_START + 32) s = Inr s'" "heap_ok s' [initial_block]"
    using kfree_merges [OF s, of 5 uart_ready] m by auto
  then have h: "heap_ok s' ([] @ HB HEAP_VIRT_START (HEAP_INITIAL_SIZE - HEAP_HEADER_SIZE) True # [])"
    by (simp add: initial_block_def)
  show ?thesis
    using kfree_merges [OF h, of 5 uart_ready] s' h by (auto simp: initial_block_def)
qed

text \<open>A request within 15 bytes of \<open>2 ^ 64\<close> wraps to zero when it is rounded up: instead of
  failing, \<open>kmalloc\<close> hands out the first free block with at most 96 bytes of room.\<close>

theorem kmalloc_wraps:
  assumes "heap_ok s bs" "2 ^ 64 - 16 < unat sz" "length bs < k" "\<exists>h \<in> set bs. hb_free h"
  shows "\<exists>s' b z bs'. kmalloc k sz s = Inr (b + 32, s') \<and> heap_ok s' bs' \<and> HB b z False \<in> set bs' \<and> unat z \<le> 96"
proof -
  have r: "round16 sz = 0" by (rule round16_wraps [OF assms(2)])
  have "first_fit (round16 sz) bs \<noteq> None" using assms(4) by (auto simp: first_fit_None r fits_def)
  then obtain b bs' where ff: "first_fit (round16 sz) bs = Some (b, bs')" by auto
  have "sz \<noteq> 0" using assms(2) by auto
  from kmalloc_ok [OF assms(1) this assms(3) ff] obtain s' z where
    "kmalloc k sz s = Inr (b + 32, s')" "heap_ok s' bs'" "HB b (hb_size (hd (carve 0 b z))) False \<in> set bs'"
    unfolding r by blast
  moreover have "unat (hb_size (hd (carve 0 b z))) \<le> 96" by (simp add: carve_def)
  ultimately show ?thesis by blast
qed

theorem kmalloc_wraps_witness:
  "\<exists>(s :: heap) s' b z bs'. kmalloc 5 (- 1) s = Inr (b + 32, s') \<and> HB b z False \<in> set bs' \<and> unat z \<le> 96"
proof -
  obtain s :: heap where s: "heap_ok s [initial_block]" using demo_heap by blast
  have "(2 :: nat) ^ 64 - 16 < unat (- 1 :: u64)" by (simp add: unsigned_minus_1_eq_mask mask_eq_exp_minus_1)
  from kmalloc_wraps [OF s this, of 5] have "\<exists>s' b z bs'. kmalloc 5 (- 1) s = Inr (b + 32, s') \<and>
      heap_ok s' bs' \<and> HB b z False \<in> set bs' \<and> unat z \<le> 96"
    by (simp add: initial_block_def)
  then show ?thesis by blast
qed

end
