(* ===== verification/Vmm.thy ===== *)
theory Vmm
  imports Heap
begin

text \<open>
  \<open>kernel/memory/vmm.c\<close>: the four-level page tables, walked and extended through the
  identity mapping of low memory, starting at the table \<open>cr3\<close> points to.  \<open>invlpg\<close> only
  drops cached translations and is not modelled.
\<close>

definition PTE_PRESENT :: u64 where "PTE_PRESENT = 1"
definition PTE_WRITABLE :: u64 where "PTE_WRITABLE = 2"
definition PTE_HUGE :: u64 where "PTE_HUGE = 0x80"
definition PTE_ADDR_MASK :: u64 where "PTE_ADDR_MASK = 0x000FFFFFFFFFF000"

record vmm = heap +
  cr3 :: u64

definition get_pml4 :: "'a vmm_scheme \<Rightarrow> u64" where
  "get_pml4 s = cr3 s AND PTE_ADDR_MASK"

definition pml4_index :: "u64 \<Rightarrow> u64" where "pml4_index virt = drop_bit 39 virt AND 0x1FF"
definition pdpt_index :: "u64 \<Rightarrow> u64" where "pdpt_index virt = drop_bit 30 virt AND 0x1FF"
definition pd_index :: "u64 \<Rightarrow> u64" where "pd_index virt = drop_bit 21 virt AND 0x1FF"
definition pt_index :: "u64 \<Rightarrow> u64" where "pt_index virt = drop_bit 12 virt AND 0x1FF"

text \<open>\<open>table[i]\<close> of a table of 64-bit entries.\<close>

definition entry_at :: "u64 \<Rightarrow> u64 \<Rightarrow> 'a vmm_scheme \<Rightarrow> u64 res" where
  "entry_at table i s = load64 (table + 8 * i) s"

definition set_entry :: "u64 \<Rightarrow> u64 \<Rightarrow> u64 \<Rightarrow> 'a vmm_scheme \<Rightarrow> 'a vmm_scheme res" where
  "set_entry table i v s = store64 (table + 8 * i) v s"

definition vmm_get_or_create_table :: "u64 \<Rightarrow> u64 \<Rightarrow> u64 \<Rightarrow> 'a vmm_scheme \<Rightarrow> (u64 \<times> 'a vmm_scheme) res" where
  "vmm_get_or_create_table table i flags s =
     rbind (entry_at table i s) (\<lambda>e.
     rbind
       (if e AND PTE_PRESENT = 0 then
          rbind (pmm_alloc_page s) (\<lambda>(phys, s).
          if phys = 0 then Inr (False, s)
          else
            rbind (memset phys 0 (unat PAGE_SIZE) s) (\<lambda>s.
            rbind (set_entry table i (phys OR flags OR PTE_PRESENT OR PTE_WRITABLE) s) (\<lambda>s.
            Inr (True, s))))
        else Inr (True, s)) (\<lambda>(ok, s).
     if \<not> ok then Inr (0, s)
     else rbind (entry_at table i s) (\<lambda>e. Inr (e AND PTE_ADDR_MASK, s))))"

definition vmm_init :: "device \<Rightarrow> nat \<Rightarrow> 'a vmm_scheme \<Rightarrow> 'a vmm_scheme res" where
  "vmm_init dev n s =
     rbind (serial_puts dev n SERIAL_COM1 (str ''VMM: Initialized with bootloader page tables\<newline>'') s) (\<lambda>s.
     rbind (serial_puts dev n SERIAL_COM1 (str ''VMM: PML4 at '') s) (\<lambda>s.
     rbind (serial_put_hex dev n SERIAL_COM1 (cr3 s) s) (\<lambda>s.
     serial_puts dev n SERIAL_COM1 (str ''\<newline>'') s)))"

text \<open>The result is the \<open>int\<close> that the code returns: 0, or -1 when a table is missing.\<close>

definition vmm_map_page :: "u64 \<Rightarrow> u64 \<Rightarrow> u64 \<Rightarrow> 'a vmm_scheme \<Rightarrow> (int \<times> 'a vmm_scheme) res" where
  "vmm_map_page virt phys flags s =
     (let pml4 = get_pml4 s in
      rbind (vmm_get_or_create_table pml4 (pml4_index virt) (PTE_PRESENT OR PTE_WRITABLE) s) (\<lambda>(pdpt, s).
      if pdpt = 0 then Inr (-1, s) else
      rbind (vmm_get_or_create_table pdpt (pdpt_index virt) (PTE_PRESENT OR PTE_WRITABLE) s) (\<lambda>(pd, s).
      if pd = 0 then Inr (-1, s) else
      rbind (vmm_get_or_create_table pd (pd_index virt) (PTE_PRESENT OR PTE_WRITABLE) s) (\<lambda>(pt, s).
      if pt = 0 then Inr (-1, s) else
      let idx = pt_index virt in
      rbind (set_entry pt idx ((phys AND PTE_ADDR_MASK) OR flags OR PTE_PRESENT) s) (\<lambda>s.
      Inr (0, s))))))"

definition vmm_unmap_page :: "u64 \<Rightarrow> 'a vmm_scheme \<Rightarrow> 'a vmm_scheme res" where
  "vmm_unmap_page virt s =
     (let pml4 = get_pml4 s; i4 = pml4_index virt in
      rbind (entry_at pml4 i4 s) (\<lambda>e4.
      if e4 AND PTE_PRESENT = 0 then Inr s else
      let pdpt = e4 AND PTE_ADDR_MASK; i3 = pdpt_index virt in
      rbind (entry_at pdpt i3 s) (\<lambda>e3.
      if e3 AND PTE_PRESENT = 0 then Inr s else
      let pd = e3 AND PTE_ADDR_MASK; i2 = pd_index virt in
      rbind (entry_at pd i2 s) (\<lambda>e2.
      if e2 AND PTE_PRESENT = 0 then Inr s else
      if e2 AND PTE_HUGE \<noteq> 0 then set_entry pd i2 0 s else
      let pt = e2 AND PTE_ADDR_MASK; i1 = pt_index virt in
      set_entry pt i1 0 s))))"

definition vmm_get_phys :: "u64 \<Rightarrow> 'a vmm_scheme \<Rightarrow> u64 res" where
  "vmm_get_phys virt s =
     (let pml4 = get_pml4 s; i4 = pml4_index virt in
      rbind (entry_at pml4 i4 s) (\<lambda>e4.
      if e4 AND PTE_PRESENT = 0 then Inr (- 1) else
      let pdpt = e4 AND PTE_ADDR_MASK; i3 = pdpt_index virt in
      rbind (entry_at pdpt i3 s) (\<lambda>e3.
      if e3 AND PTE_PRESENT = 0 then Inr (- 1) else
      if e3 AND PTE_HUGE \<noteq> 0 then Inr ((e3 AND PTE_ADDR_MASK) OR (virt AND 0x3FFFFFFF)) else
      let pd = e3 AND PTE_ADDR_MASK; i2 = pd_index virt in
      rbind (entry_at pd i2 s) (\<lambda>e2.
      if e2 AND PTE_PRESENT = 0 then Inr (- 1) else
      if e2 AND PTE_HUGE \<noteq> 0 then Inr ((e2 AND PTE_ADDR_MASK) OR (virt AND 0x1FFFFF)) else
      let pt = e2 AND PTE_ADDR_MASK; i1 = pt_index virt in
      rbind (entry_at pt i1 s) (\<lambda>e1.
      if e1 AND PTE_PRESENT = 0 then Inr (- 1) else
      Inr ((e1 AND PTE_ADDR_MASK) OR (virt AND 0xFFF)))))))"

fun map_pages :: "nat list \<Rightarrow> u64 \<Rightarrow> u64 \<Rightarrow> u64 \<Rightarrow> 'a vmm_scheme \<Rightarrow> (int \<times> 'a vmm_scheme) res" where
  "map_pages [] virt_start phys_start flags s = Inr (0, s)"
| "map_pages (i # is) virt_start phys_start flags s =
     rbind (vmm_map_page (virt_start + of_nat i * PAGE_SIZE) (phys_start + of_nat i * PAGE_SIZE) flags s) (\<lambda>(r, s).
     if r \<noteq> 0 then Inr (r, s) else map_pages is virt_start phys_start flags s)"

definition vmm_map_range :: "u64 \<Rightarrow> u64 \<Rightarrow> u64 \<Rightarrow> u64 \<Rightarrow> 'a vmm_scheme \<Rightarrow> (int \<times> 'a vmm_scheme) res" where
  "vmm_map_range virt_start phys_start sz flags s =
     (let pages = (sz + PAGE_SIZE - 1) div PAGE_SIZE
      in map_pages [0..<unat pages] virt_start phys_start flags s)"

definition vmm_is_mapped :: "u64 \<Rightarrow> 'a vmm_scheme \<Rightarrow> bool res" where
  "vmm_is_mapped virt s = rbind (vmm_get_phys virt s) (\<lambda>p. Inr (p \<noteq> - 1))"

end
