(* ===== verification/Paging.thy ===== *)
theory Paging
  imports Vmm "HOL-Library.Sublist"
begin
text \<open>
  The page tables of \<open>vmm.c\<close> as a map from pages to frames.  The tables in memory are a tree
  under the table that \<open>cr3\<close> points to; \<open>vmm_get_phys\<close> follows a path in it,
  \<open>vmm_map_page\<close> grows the path of one page and sets its last entry, and
  \<open>vmm_unmap_page\<close> clears it.
\<close>

section \<open>Trees of tables\<close>

text \<open>The entries of all tables, by the table's address and the index.\<close>

type_synonym entries = "u64 \<Rightarrow> u64 \<Rightarrow> u64"

abbreviation frame_of :: "u64 \<Rightarrow> u64" where "frame_of e \<equiv> e AND PTE_ADDR_MASK"
abbreviation present :: "u64 \<Rightarrow> bool" where "present e \<equiv> e AND PTE_PRESENT \<noteq> 0"

definition is_table :: "u64 \<Rightarrow> bool" where
  "is_table e \<longleftrightarrow> present e \<and> e AND PTE_HUGE = 0"

fun table_at :: "entries \<Rightarrow> u64 \<Rightarrow> u64 list \<Rightarrow> u64 option" where
  "table_at f t [] = Some t"
| "table_at f t (k # ks) = (if is_table (f t k) then table_at f (frame_of (f t k)) ks else None)"

text \<open>The entry that decides about a path, and the number of levels below it.\<close>

fun walk :: "entries \<Rightarrow> u64 \<Rightarrow> u64 list \<Rightarrow> u64 \<times> nat" where
  "walk f t [] = (0, 0)"
| "walk f t (k # ks) =
     (if ks \<noteq> [] \<and> is_table (f t k) then walk f (frame_of (f t k)) ks else (f t k, length ks))"

definition path :: "u64 \<Rightarrow> u64 list" where
  "path v = [pml4_index v, pdpt_index v, pd_index v, pt_index v]"

definition phys_addr :: "entries \<Rightarrow> u64 \<Rightarrow> u64 \<Rightarrow> u64" where
  "phys_addr f root v =
     (let (e, n) = walk f root (path v)
      in if present e then frame_of e OR (v AND mask (12 + 9 * n)) else - 1)"

definition indices :: "u64 list \<Rightarrow> bool" where
  "indices ks \<longleftrightarrow> length ks \<le> 3 \<and> (\<forall>k \<in> set ks. k < 512)"

definition tree :: "entries \<Rightarrow> u64 \<Rightarrow> bool" where
  "tree f root \<longleftrightarrow>
     (\<forall>xs ys t. indices xs \<longrightarrow> indices ys \<longrightarrow> table_at f root xs = Some t \<longrightarrow> table_at f root ys = Some t \<longrightarrow> xs = ys)"

lemma treeD: "tree f root \<Longrightarrow> indices xs \<Longrightarrow> indices ys \<Longrightarrow> table_at f root xs = Some t \<Longrightarrow> table_at f root ys = Some t \<Longrightarrow> xs = ys"
  unfolding tree_def by blast

lemma table_at_append: "table_at f t (xs @ ys) = Option.bind (table_at f t xs) (\<lambda>u. table_at f u ys)"
  by (induction xs arbitrary: t) auto

lemma walk_append: "table_at f t xs = Some u \<Longrightarrow> ys \<noteq> [] \<Longrightarrow> walk f t (xs @ ys) = walk f u ys"
  by (induction xs arbitrary: t) (auto split: if_splits)

lemma indices_snoc: "indices (xs @ [x]) \<longleftrightarrow> indices xs \<and> length xs < 3 \<and> x < 512"
  by (auto simp: indices_def)

lemma indices_Nil [simp]: "indices []"
  by (simp add: indices_def)

lemma path_indices: "k \<in> set (path v) \<Longrightarrow> k < 512"
proof -
  have "drop_bit n v AND 0x1FF < 512" for n
    using word_and_le1 [of "drop_bit n v" "0x1FF"] by (simp add: word_le_nat_alt word_less_nat_alt)
  then show "k \<in> set (path v) \<Longrightarrow> k < 512"
    by (auto simp: path_def pml4_index_def pdpt_index_def pd_index_def pt_index_def)
qed

lemma length_path [simp]: "length (path v) = 4"
  by (simp add: path_def)

text \<open>
  One entry changes: \<open>f'\<close> agrees with \<open>f\<close> on every table of the tree, except at \<open>k\<close> in the
  table under the path \<open>ks\<close>.
\<close>

definition one_change :: "entries \<Rightarrow> entries \<Rightarrow> u64 \<Rightarrow> u64 list \<Rightarrow> u64 \<Rightarrow> u64 \<Rightarrow> bool" where
  "one_change f f' root ks t k \<longleftrightarrow>
     indices ks \<and> k < 512 \<and> table_at f root ks = Some t \<and>
     (\<forall>xs u j. indices xs \<longrightarrow> table_at f root xs = Some u \<longrightarrow> j < 512 \<longrightarrow> (u, j) \<noteq> (t, k) \<longrightarrow> f' u j = f u j)"

lemma one_changeD:
  assumes "one_change f f' root ks t k"
  shows "indices ks" "k < 512" "table_at f root ks = Some t"
    "\<And>xs u j. indices xs \<Longrightarrow> table_at f root xs = Some u \<Longrightarrow> j < 512 \<Longrightarrow> (u, j) \<noteq> (t, k) \<Longrightarrow> f' u j = f u j"
  using assms unfolding one_change_def by blast+

lemma table_at_unchanged:
  assumes "tree f root" "one_change f f' root ks t k" "indices xs" "\<not> prefix (ks @ [k]) xs"
  shows "table_at f' root xs = table_at f root xs"
  using assms(3,4)
proof (induction xs rule: rev_induct)
  case Nil
  then show ?case by simp
next
  case (snoc x xs)
  have xs: "indices xs" "x < 512" using snoc.prems(1) by (simp_all add: indices_snoc)
  have IH: "table_at f' root xs = table_at f root xs"
    using snoc.IH [OF xs(1)] snoc.prems(2) by auto
  show ?case
  proof (cases "table_at f root xs")
    case None
    then show ?thesis using IH by (simp add: table_at_append)
  next
    case (Some u)
    have "(u, x) \<noteq> (t, k)"
      using treeD [OF assms(1) xs(1) one_changeD(1) [OF assms(2)] Some] one_changeD(3) [OF assms(2)] snoc.prems(2) by auto
    then have "f' u x = f u x" using one_changeD(4) [OF assms(2) xs(1) Some xs(2)] by simp
    then show ?thesis using IH Some by (simp add: table_at_append)
  qed
qed

lemma walk_unchanged:
  assumes "tree f root" "one_change f f' root ks t k" "table_at f root xs = Some u"
    "length (xs @ ys) \<le> 4" "\<forall>j \<in> set (xs @ ys). j < 512" "\<not> prefix (ks @ [k]) (xs @ ys)"
  shows "walk f' u ys = walk f u ys"
  using assms(3-6)
proof (induction ys arbitrary: xs u)
  case Nil
  then show ?case by simp
next
  case (Cons y ys)
  have xs: "indices xs" "y < 512" using Cons.prems(2,3) by (auto simp: indices_def)
  have "(u, y) \<noteq> (t, k)"
    using treeD [OF assms(1) xs(1) one_changeD(1) [OF assms(2)] Cons.prems(1)] one_changeD(3) [OF assms(2)] Cons.prems(4)
    by (auto simp: prefix_def)
  then have e: "f' u y = f u y" using one_changeD(4) [OF assms(2) xs(1) Cons.prems(1) xs(2)] by simp
  show ?case
  proof (cases "ys \<noteq> [] \<and> is_table (f u y)")
    case True
    then have "walk f' (frame_of (f u y)) ys = walk f (frame_of (f u y)) ys"
      using Cons.prems by (intro Cons.IH [of "xs @ [y]"]) (auto simp: table_at_append)
    then show ?thesis using e True by simp
  qed (use e in auto)
qed

lemma path_walk_unchanged:
  assumes "tree f root" "one_change f f' root ks t k" "\<not> prefix (ks @ [k]) (path v)"
  shows "walk f' root (path v) = walk f root (path v)"
  using walk_unchanged [OF assms(1,2), of "[]" root "path v"] path_indices [of _ v] assms(3) by simp

lemma not_prefix_parent: "\<not> prefix (ks @ [k]) ks"
  using prefix_length_le [of "ks @ [k]" ks] by auto

text \<open>The walk on the changed path.\<close>

lemma path_walk_changed:
  assumes "tree f root" "one_change f f' root ks t k" "path v = ks @ k # ys"
  shows "walk f root (path v) = walk f t (k # ys)" "walk f' root (path v) = walk f' t (k # ys)"
proof -
  have t: "table_at f root ks = Some t" "table_at f' root ks = Some t"
    using table_at_unchanged [OF assms(1,2) one_changeD(1) [OF assms(2)] not_prefix_parent] one_changeD(3) [OF assms(2)] by simp_all
  show "walk f root (path v) = walk f t (k # ys)" "walk f' root (path v) = walk f' t (k # ys)"
    unfolding assms(3) using walk_append [OF t(1)] walk_append [OF t(2)] by blast+
qed

lemma phys_absent: "\<not> present (fst (walk f root (path v))) \<Longrightarrow> phys_addr f root v = - 1"
  by (cases "walk f root (path v)") (simp add: phys_addr_def)

section \<open>A new table, and a changed leaf\<close>

lemma table_at_empty:
  assumes "\<forall>j < 512. \<not> present (f a j)" "\<forall>z \<in> set zs. z < 512"
  shows "table_at f a zs = (if zs = [] then Some a else None)"
  using assms by (cases zs) (auto simp: is_table_def)

lemma walk_empty:
  assumes "\<forall>j < 512. \<not> present (f a j)" "zs \<noteq> []" "\<forall>z \<in> set zs. z < 512"
  shows "\<not> present (fst (walk f a zs))"
  using assms by (cases zs) (auto simp: is_table_def)

text \<open>An absent entry becomes an empty table: no translation changes.\<close>

lemma new_table:
  assumes "tree f root" "one_change f f' root ks t k" "length ks < 3" "\<not> present (f t k)"
    "is_table (f' t k)" "frame_of (f' t k) = a" "\<forall>j < 512. \<not> present (f' a j)"
    "\<forall>xs. indices xs \<longrightarrow> table_at f root xs \<noteq> Some a"
  shows "table_at f' root (ks @ [k]) = Some a"
    "\<And>xs u. indices xs \<Longrightarrow> table_at f' root xs = Some u \<Longrightarrow> u = a \<and> xs = ks @ [k] \<or> table_at f root xs = Some u"
    "tree f' root" "phys_addr f' root v = phys_addr f root v"
    "walk f' root (path v) = walk f root (path v) \<or> \<not> present (fst (walk f' root (path v)))"
proof -
  note ch = one_changeD [OF assms(2)]
  have t': "table_at f' root ks = Some t"
    using table_at_unchanged [OF assms(1,2) ch(1) not_prefix_parent] ch(3) by simp
  show new: "table_at f' root (ks @ [k]) = Some a" using t' assms(5,6) by (simp add: table_at_append)
  have old: "u = a \<and> xs = ks @ [k] \<or> table_at f root xs = Some u"
    if "indices xs" "table_at f' root xs = Some u" for xs u
  proof (cases "prefix (ks @ [k]) xs")
    case True
    then obtain zs where xs: "xs = (ks @ [k]) @ zs" by (auto simp: prefix_def)
    have "\<forall>z \<in> set zs. z < 512" using that(1) by (auto simp: indices_def xs)
    then have "table_at f' root xs = (if zs = [] then Some a else None)"
      unfolding xs table_at_append [of _ _ "ks @ [k]"] new using table_at_empty [of f' a, OF assms(7)] by simp
    then show ?thesis using that(2) xs by (auto split: if_splits)
  next
    case False
    then show ?thesis using table_at_unchanged [OF assms(1,2) that(1)] that(2) by simp
  qed
  then show "\<And>xs u. indices xs \<Longrightarrow> table_at f' root xs = Some u \<Longrightarrow> u = a \<and> xs = ks @ [k] \<or> table_at f root xs = Some u" by blast
  show "tree f' root"
    unfolding tree_def using old assms(8) treeD [OF assms(1)] by (metis (no_types, lifting))
  have "phys_addr f' root v = phys_addr f root v \<and>
      (walk f' root (path v) = walk f root (path v) \<or> \<not> present (fst (walk f' root (path v))))"
  proof (cases "prefix (ks @ [k]) (path v)")
    case False
    then show ?thesis using path_walk_unchanged [OF assms(1,2)] by (simp add: phys_addr_def)
  next
    case True
    then obtain ys where ys: "path v = ks @ k # ys" by (auto simp: prefix_def)
    have "ys \<noteq> []" using length_path [of v] assms(3) unfolding ys by auto
    moreover have "\<forall>y \<in> set ys. y < 512" using path_indices [of _ v] unfolding ys by simp
    ultimately have "\<not> present (fst (walk f' root (path v)))"
      using walk_empty [of f' a, OF assms(7)] assms(5,6) path_walk_changed(2) [OF assms(1,2) ys] by simp
    moreover have "\<not> present (fst (walk f root (path v)))"
      using assms(4) path_walk_changed(1) [OF assms(1,2) ys] by (simp add: is_table_def)
    ultimately show ?thesis
      using phys_absent [of f root v] phys_absent [of f' root v] by simp
  qed
  then show "phys_addr f' root v = phys_addr f root v"
    "walk f' root (path v) = walk f root (path v) \<or> \<not> present (fst (walk f' root (path v)))" by simp_all
qed

text \<open>An entry that is and was no table changes: exactly the addresses under it change.\<close>

lemma changed_leaf:
  assumes "tree f root" "one_change f f' root ks t k" "length ks = 3 \<or> \<not> is_table (f t k) \<and> \<not> is_table (f' t k)"
  shows "\<And>xs. indices xs \<Longrightarrow> table_at f' root xs = table_at f root xs" "tree f' root"
    "walk f' root (path v) = (if prefix (ks @ [k]) (path v) then (f' t k, 3 - length ks) else walk f root (path v))"
proof -
  note ch = one_changeD [OF assms(2)]
  have t': "table_at f' root ks = Some t"
    using table_at_unchanged [OF assms(1,2) ch(1) not_prefix_parent] ch(3) by simp
  show same: "\<And>xs. indices xs \<Longrightarrow> table_at f' root xs = table_at f root xs"
  proof -
    fix xs assume xs: "indices xs"
    show "table_at f' root xs = table_at f root xs"
    proof (cases "prefix (ks @ [k]) xs")
      case True
      then obtain zs where zs: "xs = ks @ k # zs" by (auto simp: prefix_def)
      then have "length ks < 3" using xs by (simp add: indices_def)
      then have "\<not> is_table (f t k)" "\<not> is_table (f' t k)" using assms(3) by auto
      then show ?thesis unfolding zs table_at_append t' ch(3) by simp
    next
      case False
      then show ?thesis using table_at_unchanged [OF assms(1,2) xs] by simp
    qed
  qed
  then show "tree f' root" using assms(1) unfolding tree_def by simp
  show "walk f' root (path v) = (if prefix (ks @ [k]) (path v) then (f' t k, 3 - length ks) else walk f root (path v))"
  proof (cases "prefix (ks @ [k]) (path v)")
    case False
    then show ?thesis using path_walk_unchanged [OF assms(1,2)] by simp
  next
    case True
    then obtain ys where ys: "path v = ks @ k # ys" by (auto simp: prefix_def)
    have n: "length ys = 3 - length ks" using length_path [of v] unfolding ys by simp
    then have "ys = [] \<or> \<not> is_table (f' t k)" using assms(3) by auto
    then show ?thesis using path_walk_changed(2) [OF assms(1,2) ys] n True by auto
  qed
qed

section \<open>Tables in memory\<close>

definition pte :: "memory \<Rightarrow> entries" where
  "pte m t k = (case rd64 m (t + 8 * k) of Inl _ \<Rightarrow> 0 | Inr e \<Rightarrow> e)"

lemma frame_unat:
  obtains p where "unat (frame_of x) = 4096 * p" "p < 2 ^ 40"
proof
  have "take_bit 12 (frame_of x) = 0"
    by (simp add: take_bit_eq_mask PTE_ADDR_MASK_def mask_numeral and.assoc)
  moreover have "unat (take_bit 12 (frame_of x)) = unat (frame_of x) mod 2 ^ 12"
    unfolding unsigned_take_bit_eq by (rule take_bit_eq_mod)
  ultimately have "unat (frame_of x) mod 4096 = 0" by simp
  then show "unat (frame_of x) = 4096 * (unat (frame_of x) div 4096)" by (simp add: mult.commute mod_eq_0_iff_dvd)
  have "frame_of x \<le> PTE_ADDR_MASK" by (simp add: word_and_le1)
  then have "unat (frame_of x) \<le> unat PTE_ADDR_MASK" by (simp add: word_le_nat_alt)
  then show "unat (frame_of x) div 4096 < 2 ^ 40" by (simp add: PTE_ADDR_MASK_def)
qed

lemma frame_small: "unat (frame_of x) + 4096 \<le> 2 ^ 52" "unat (frame_of x) mod 4096 = 0"
  by (rule frame_unat [of x]; simp)+

lemma frame_idem [simp]: "frame_of (frame_of x) = frame_of x"
  by (simp add: and.assoc)

lemma frames_apart:
  assumes "frame_of t \<noteq> frame_of u"
  shows "apart (frame_of t) 4096 (frame_of u) 4096"
proof -
  obtain p where p: "unat (frame_of t) = 4096 * p" "p < 2 ^ 40" by (rule frame_unat)
  obtain q where q: "unat (frame_of u) = 4096 * q" "q < 2 ^ 40" by (rule frame_unat)
  have "p \<noteq> q" using p(1) q(1) assms word_unat_eq_iff [of "frame_of t" "frame_of u"] by auto
  then show ?thesis using p q by (auto simp: apart_def)
qed

lemma apart_sub:
  assumes "apart a n b k" "unat a + i + n' \<le> unat a + n" "unat b + j + k' \<le> unat b + k"
    "unat a' = unat a + i" "unat b' = unat b + j"
  shows "apart a' n' b' k'"
  using assms unfolding apart_def by linarith

lemma entry_offset:
  assumes "k < 512"
  shows "unat (frame_of t + 8 * k) = unat (frame_of t) + 8 * unat k" "unat k < 512"
proof -
  show k: "unat k < 512" using assms by (simp add: word_less_nat_alt)
  have "unat (8 * k) = 8 * unat k" using k by (simp add: unat_word_ariths)
  then show "unat (frame_of t + 8 * k) = unat (frame_of t) + 8 * unat k"
    using k frame_small(1) [of t] by (subst unat_add_lem [THEN iffD1]) simp_all
qed

lemma entry_mapped:
  assumes "mapped m (frame_of t) 4096" "k < 512"
  shows "mapped m (frame_of t + 8 * k) 8" "rd64 m (frame_of t + 8 * k) = Inr (pte m (frame_of t) k)"
proof -
  show mp: "mapped m (frame_of t + 8 * k) 8"
    using entry_offset [OF assms(2)] frame_small(1) [of t]
    by (intro mapped_sub [OF assms(1)]) simp_all
  then obtain bs where "rd_bytes m (frame_of t + 8 * k) 8 = Inr bs" using mapped_imp_rd_bytes by blast
  then show "rd64 m (frame_of t + 8 * k) = Inr (pte m (frame_of t) k)" by (simp add: pte_def rd64_def)
qed

lemma pte_upd:
  assumes "k < 512" "j < 512"
  shows "pte (mem_upd m (frame_of t + 8 * k) (bytes_of_word 8 v)) (frame_of u) j =
    (if frame_of u = frame_of t \<and> j = k then v else pte m (frame_of u) j)"
proof (cases "frame_of u = frame_of t \<and> j = k")
  case True
  then show ?thesis by (simp add: pte_def rd64_upd_same)
next
  case False
  note k = entry_offset(1) [OF assms(1), of t] entry_offset(2) [OF assms(1)] and j = entry_offset(1) [OF assms(2), of u] entry_offset(2) [OF assms(2)]
  have "apart (frame_of t + 8 * k) 8 (frame_of u + 8 * j) 8"
  proof (cases "frame_of u = frame_of t")
    case True
    then have "unat j \<noteq> unat k" using False by (simp add: word_unat_eq_iff)
    then show ?thesis using k j True frame_small(1) [of t] by (auto simp: apart_def)
  next
    case False
    then have "apart (frame_of t) 4096 (frame_of u) 4096" using frames_apart by metis
    from apart_sub [OF this _ _ k(1) j(1)] k(2) j(2) show ?thesis by simp
  qed
  moreover have "length (bytes_of_word 8 v) = 8" by simp
  ultimately show ?thesis unfolding if_not_P [OF False] by (simp add: pte_def rd64_upd_apart)
qed

lemma word_of_zeros: "word_of_bytes (replicate n 0) = 0"
  by (induction n) auto

lemma pte_zeroed:
  assumes "j < 512"
  shows "pte (mem_upd m (frame_of a) (replicate 4096 0)) (frame_of u) j =
    (if frame_of u = frame_of a then 0 else pte m (frame_of u) j)"
proof (cases "frame_of u = frame_of a")
  case True
  have "rd_bytes (mem_upd m (frame_of a) (replicate 4096 0)) (frame_of a + 8 * j) 8 = Inr (replicate 8 0)"
  proof (simp add: rd_bytes_eq_Inr, intro allI impI)
    fix i :: nat
    assume i: "i < 8"
    have "unat (frame_of a + 8 * j + of_nat i) = unat (frame_of a) + 8 * unat j + i"
      using entry_offset(1) [OF assms, of a] entry_offset(2) [OF assms] i frame_small(1) [of a] by (subst unat_add_of_nat) simp_all
    then have "unat (frame_of a + 8 * j + of_nat i - frame_of a) = 8 * unat j + i"
      by (subst unat_sub) (simp_all add: word_le_nat_alt)
    then show "mem_upd m (frame_of a) (replicate 4096 0) (frame_of a + 8 * j + of_nat i) = Some 0"
      using entry_offset(2) [OF assms] i by (simp add: mem_upd_def)
  qed
  then show ?thesis using True word_of_zeros [of 8] by (simp add: pte_def rd64_def)
next
  case False
  then have "apart (frame_of a) 4096 (frame_of u) 4096" using frames_apart by metis
  from apart_sub [OF this _ _ _ entry_offset(1) [OF assms], of 0 4096 8 "frame_of a"] entry_offset(2) [OF assms]
  have "apart (frame_of a) 4096 (frame_of u + 8 * j) 8" by simp
  then show ?thesis using False by (simp add: pte_def rd64_upd_apart)
qed

text \<open>Tables and the bitmap of the page allocator never overlap: a frame lies below \<open>2 ^ 52\<close>.\<close>

lemma low_not_bitmap:
  assumes "unat x < 2 ^ 52"
  shows "\<not> in_bitmap x"
proof -
  have "unat (x - PMM_BITMAP_VIRT) = unat x + 2 ^ 64 - unat PMM_BITMAP_VIRT"
    using assms by (simp add: unat_sub_if' PMM_BITMAP_VIRT_def PMM_BITMAP_PHYS_def KERNEL_VIRT_BASE_def)
  then show ?thesis
    using assms by (simp add: in_bitmap_def PMM_BITMAP_VIRT_def PMM_BITMAP_PHYS_def KERNEL_VIRT_BASE_def)
qed

lemma pte_bitmap:
  assumes "\<And>x. \<not> in_bitmap x \<Longrightarrow> m' x = m x" "k < 512"
  shows "pte m' (frame_of t) k = pte m (frame_of t) k"
proof -
  have "rd_bytes m' (frame_of t + 8 * k) 8 = rd_bytes m (frame_of t + 8 * k) 8"
  proof (rule rd_bytes_cong_mem, rule assms(1), rule low_not_bitmap)
    fix i :: nat
    assume "i < 8"
    then show "unat (frame_of t + 8 * k + of_nat i) < 2 ^ 52"
      using entry_offset(1) [OF assms(2), of t] entry_offset(2) [OF assms(2)] frame_small(1) [of t] by (subst unat_add_of_nat) simp_all
  qed
  then show ?thesis by (simp add: pte_def rd64_def)
qed

lemma page_bit_low:
  assumes "unat a + length bs \<le> 2 ^ 52" "p < 1048576"
  shows "page_bit (mem_upd m a bs) p = page_bit m p"
proof -
  let ?x = "PMM_BITMAP_VIRT + of_nat (p div 8)"
  have big: "unat ?x \<ge> 2 ^ 52"
    using assms(2) by (subst unat_add_of_nat) (simp_all add: PMM_BITMAP_VIRT_def PMM_BITMAP_PHYS_def KERNEL_VIRT_BASE_def)
  have "a \<le> ?x" using big assms(1) by (simp add: word_le_nat_alt)
  then have "unat (?x - a) = unat ?x - unat a" by (rule unat_sub)
  then have "\<not> unat (?x - a) < length bs" using big assms(1) by simp
  then show ?thesis by (simp add: page_bit_def mem_upd_def)
qed

lemma low_store:
  assumes "pmm_ok s" "unat a + length bs \<le> 2 ^ 52"
  shows "used (s\<lparr>vmem := mem_upd (vmem s) a bs\<rparr>) = used s" "pmm_ok (s\<lparr>vmem := mem_upd (vmem s) a bs\<rparr>)"
proof -
  have "unat (pmm_total_pages s) \<le> 1048576" by (rule pmm_okD(1) [OF assms(1)])
  then show u: "used (s\<lparr>vmem := mem_upd (vmem s) a bs\<rparr>) = used s"
    using page_bit_low [OF assms(2)] by (auto simp: used_def)
  show "pmm_ok (s\<lparr>vmem := mem_upd (vmem s) a bs\<rparr>)"
    using assms(1) u by (simp add: pmm_ok_def mapped_mem_upd)
qed

section \<open>The invariant\<close>

abbreviation entries_of :: "'a vmm_scheme \<Rightarrow> entries" where "entries_of s \<equiv> pte (vmem s)"

definition free_page :: "'a vmm_scheme \<Rightarrow> nat \<Rightarrow> bool" where
  "free_page s p \<longleftrightarrow> p < unat (pmm_total_pages s) \<and> p \<notin> used s"

definition table_page :: "'a vmm_scheme \<Rightarrow> u64 \<Rightarrow> bool" where
  "table_page s t \<longleftrightarrow> t \<noteq> 0 \<and> mapped (vmem s) t 4096 \<and> \<not> free_page s (unat t div 4096)"

text \<open>
  The tables form a tree, lie in mapped memory and are not free, and page 0 is not free.  The
  free pages of the first 4 MB are reachable under their physical addresses: this is the
  identity mapping the boot code sets up, with two large pages.  The entries of the top table
  are no large pages, as the processor demands.
\<close>

definition identity_pages :: nat where "identity_pages = 1024"

definition paging_ok :: "'a vmm_scheme \<Rightarrow> bool" where
  "paging_ok s \<longleftrightarrow>
     pmm_ok s \<and> tree (entries_of s) (get_pml4 s) \<and>
     (\<forall>k < 512. entries_of s (get_pml4 s) k AND PTE_HUGE = 0) \<and>
     (\<forall>xs t. indices xs \<longrightarrow> table_at (entries_of s) (get_pml4 s) xs = Some t \<longrightarrow> table_page s t) \<and>
     (\<forall>p. free_page s p \<longrightarrow> p \<noteq> 0 \<and> (p < identity_pages \<longrightarrow> mapped (vmem s) (of_nat p * PAGE_SIZE) 4096))"

lemma paging_okD:
  assumes "paging_ok s"
  shows "pmm_ok s" "tree (entries_of s) (get_pml4 s)" "\<And>k. k < 512 \<Longrightarrow> entries_of s (get_pml4 s) k AND PTE_HUGE = 0"
    "\<And>xs t. indices xs \<Longrightarrow> table_at (entries_of s) (get_pml4 s) xs = Some t \<Longrightarrow> table_page s t"
    "\<And>p. free_page s p \<Longrightarrow> p \<noteq> 0"
    "\<And>p. free_page s p \<Longrightarrow> p < identity_pages \<Longrightarrow> mapped (vmem s) (of_nat p * PAGE_SIZE) 4096"
  using assms unfolding paging_ok_def by blast+

lemma table_at_frame: "table_at f t xs = Some u \<Longrightarrow> frame_of t = t \<Longrightarrow> frame_of u = u"
  by (induction xs arbitrary: t) (auto split: if_splits)

lemma root_frame [simp]: "frame_of (get_pml4 s) = get_pml4 s"
  by (simp add: get_pml4_def)

lemma table_entry:
  assumes "paging_ok s" "indices xs" "table_at (entries_of s) (get_pml4 s) xs = Some t" "k < 512"
  shows "frame_of t = t" "entry_at t k s = Inr (entries_of s t k)" "mapped (vmem s) (t + 8 * k) 8"
proof -
  show t: "frame_of t = t" using table_at_frame [OF assms(3)] by simp
  have "mapped (vmem s) (frame_of t) 4096"
    using paging_okD(4) [OF assms(1-3)] t by (simp add: table_page_def)
  from entry_mapped [OF this assms(4)] t show "entry_at t k s = Inr (entries_of s t k)" "mapped (vmem s) (t + 8 * k) 8"
    by (simp_all add: entry_at_def load64_def)
qed

text \<open>What is read along a path.\<close>

definition translation :: "'a vmm_scheme \<Rightarrow> u64 \<Rightarrow> u64" where
  "translation s v = phys_addr (entries_of s) (get_pml4 s) v"

text \<open>The number of levels below the entry that maps an address, if one does: 0 for a page of
  4 KB, 1 for one of 2 MB, 2 for one of 1 GB.\<close>

definition level_of :: "'a vmm_scheme \<Rightarrow> u64 \<Rightarrow> nat option" where
  "level_of s v =
     (let (e, n) = walk (entries_of s) (get_pml4 s) (path v) in if present e then Some n else None)"

definition small_pages :: "'a vmm_scheme \<Rightarrow> u64 \<Rightarrow> bool" where
  "small_pages s v \<longleftrightarrow> level_of s v = None \<or> level_of s v = Some 0"

lemma path_prefixes:
  "indices [pml4_index v]" "indices [pml4_index v, pdpt_index v]" "indices [pml4_index v, pdpt_index v, pd_index v]"
  "pml4_index v < 512" "pdpt_index v < 512" "pd_index v < 512" "pt_index v < 512"
  using path_indices [of _ v] by (simp_all add: indices_def path_def)

lemma path_reads:
  fixes s :: "'a vmm_scheme" and v :: u64
  assumes "paging_ok s"
  defines f: "f \<equiv> entries_of s" and r: "r \<equiv> get_pml4 s"
  defines e4: "e4 \<equiv> f r (pml4_index v)"
  defines e3: "e3 \<equiv> f (frame_of e4) (pdpt_index v)"
  defines e2: "e2 \<equiv> f (frame_of e3) (pd_index v)"
  shows "e4 AND PTE_HUGE = 0" "entry_at r (pml4_index v) s = Inr e4"
    "present e4 \<Longrightarrow> entry_at (frame_of e4) (pdpt_index v) s = Inr e3"
    "present e4 \<Longrightarrow> is_table e3 \<Longrightarrow> table_at f r [pml4_index v, pdpt_index v] = Some (frame_of e3)"
    "present e4 \<Longrightarrow> is_table e3 \<Longrightarrow> entry_at (frame_of e3) (pd_index v) s = Inr e2"
    "present e4 \<Longrightarrow> is_table e3 \<Longrightarrow> is_table e2 \<Longrightarrow>
       table_at f r [pml4_index v, pdpt_index v, pd_index v] = Some (frame_of e2)"
    "present e4 \<Longrightarrow> is_table e3 \<Longrightarrow> is_table e2 \<Longrightarrow> entry_at (frame_of e2) (pt_index v) s = Inr (f (frame_of e2) (pt_index v))"
proof -
  note ix = path_prefixes [of v]
  show huge: "e4 AND PTE_HUGE = 0" unfolding e4 f r by (rule paging_okD(3) [OF assms(1) ix(4)])
  show "entry_at r (pml4_index v) s = Inr e4"
    unfolding e4 f r using table_entry(2) [OF assms(1) indices_Nil _ ix(4)] by simp
  have t3: "present e4 \<Longrightarrow> table_at f r [pml4_index v] = Some (frame_of e4)" using huge by (simp add: is_table_def e4)
  then show "present e4 \<Longrightarrow> entry_at (frame_of e4) (pdpt_index v) s = Inr e3"
    unfolding e3 f r by (rule table_entry(2) [OF assms(1) ix(1) _ ix(5)])
  show t2: "present e4 \<Longrightarrow> is_table e3 \<Longrightarrow> table_at f r [pml4_index v, pdpt_index v] = Some (frame_of e3)"
    using huge by (simp add: is_table_def e4 e3)
  then show "present e4 \<Longrightarrow> is_table e3 \<Longrightarrow> entry_at (frame_of e3) (pd_index v) s = Inr e2"
    unfolding e2 f r by (rule table_entry(2) [OF assms(1) ix(2) _ ix(6)])
  show t1: "present e4 \<Longrightarrow> is_table e3 \<Longrightarrow> is_table e2 \<Longrightarrow>
      table_at f r [pml4_index v, pdpt_index v, pd_index v] = Some (frame_of e2)"
    using huge by (simp add: is_table_def e4 e3 e2)
  then show "present e4 \<Longrightarrow> is_table e3 \<Longrightarrow> is_table e2 \<Longrightarrow> entry_at (frame_of e2) (pt_index v) s = Inr (f (frame_of e2) (pt_index v))"
    unfolding f r by (rule table_entry(2) [OF assms(1) ix(3) _ ix(7)])
qed

lemma get_phys_translation:
  assumes "paging_ok s"
  shows "vmm_get_phys v s = Inr (translation s v)"
proof -
  let ?f = "entries_of s" and ?r = "get_pml4 s"
  let ?e4 = "?f ?r (pml4_index v)"
  let ?e3 = "?f (frame_of ?e4) (pdpt_index v)"
  let ?e2 = "?f (frame_of ?e3) (pd_index v)"
  let ?e1 = "?f (frame_of ?e2) (pt_index v)"
  note e = path_reads [OF assms, of v]
  have tr: "translation s v =
      (if \<not> present ?e4 then - 1
       else if \<not> present ?e3 then - 1
       else if ?e3 AND PTE_HUGE \<noteq> 0 then frame_of ?e3 OR (v AND mask 30)
       else if \<not> present ?e2 then - 1
       else if ?e2 AND PTE_HUGE \<noteq> 0 then frame_of ?e2 OR (v AND mask 21)
       else if \<not> present ?e1 then - 1
       else frame_of ?e1 OR (v AND mask 12))"
    using e(1) by (simp add: translation_def phys_addr_def path_def is_table_def)
  show ?thesis
    unfolding tr vmm_get_phys_def
    using e(2,3,5,7) by (simp add: Let_def is_table_def mask_numeral)
qed

section \<open>Stores into tables\<close>

text \<open>The memory that changes: low memory, where the tables lie, and the bitmap of the page
  allocator.  Nothing that was mapped is lost.\<close>

definition tables_only :: "'a vmm_scheme \<Rightarrow> 'a vmm_scheme \<Rightarrow> bool" where
  "tables_only s t \<longleftrightarrow>
     t\<lparr>vmem := vmem s, pmm_used_pages := pmm_used_pages s\<rparr> = s \<and>
     (\<forall>x. 2 ^ 52 \<le> unat x \<longrightarrow> \<not> in_bitmap x \<longrightarrow> vmem t x = vmem s x) \<and>
     (\<forall>x. vmem s x \<noteq> None \<longrightarrow> vmem t x \<noteq> None)"

lemma tables_only_refl [simp]: "tables_only s s"
  by (simp add: tables_only_def)

lemma tables_only_trans:
  assumes "tables_only s t" "tables_only t u"
  shows "tables_only s u"
proof -
  have "u\<lparr>vmem := vmem s, pmm_used_pages := pmm_used_pages s\<rparr> = s"
    using assms unfolding tables_only_def by (cases s, cases t, cases u) auto
  then show ?thesis using assms unfolding tables_only_def by simp
qed

lemma tables_only_store:
  assumes "unat a + length bs \<le> 2 ^ 52"
  shows "tables_only s (s\<lparr>vmem := mem_upd (vmem s) a bs\<rparr>)"
proof -
  have "mem_upd (vmem s) a bs x = vmem s x" if "2 ^ 52 \<le> unat x" for x
  proof -
    have "a \<le> x" using assms that by (simp add: word_le_nat_alt)
    then have "unat (x - a) = unat x - unat a" by (rule unat_sub)
    then have "\<not> unat (x - a) < length bs" using assms that by simp
    then show ?thesis by (simp add: mem_upd_def)
  qed
  then show ?thesis by (simp add: tables_only_def mem_upd_def)
qed

lemma tables_only_pmm: "pmm_frame s t \<Longrightarrow> tables_only s t"
  by (simp add: pmm_frame_def tables_only_def)

lemma cr3_low: "get_pml4 (s\<lparr>vmem := m\<rparr>) = get_pml4 s"
  by (simp add: get_pml4_def)

lemma set_entry_run:
  fixes e :: u64
  assumes "paging_ok s" "indices ks" "k < 512" "table_at (entries_of s) (get_pml4 s) ks = Some t"
  defines s': "s' \<equiv> s\<lparr>vmem := mem_upd (vmem s) (t + 8 * k) (bytes_of_word 8 e)\<rparr>"
  shows "set_entry t k e s = Inr s'" "used s' = used s" "pmm_ok s'" "\<And>p. free_page s' p = free_page s p"
    "\<And>a n. mapped (vmem s) a n \<Longrightarrow> mapped (vmem s') a n"
    "\<And>u j. frame_of u = u \<Longrightarrow> j < 512 \<Longrightarrow> entries_of s' u j = (if u = t \<and> j = k then e else entries_of s u j)"
    "tables_only s s'"
proof -
  have t: "frame_of t = t" by (rule table_entry(1) [OF assms(1,2,4,3)])
  show "set_entry t k e s = Inr s'"
    using table_entry(3) [OF assms(1,2,4,3)] by (simp add: set_entry_def s' store64_mapped)
  have low: "unat (t + 8 * k) + 8 \<le> 2 ^ 52"
    using entry_offset(1) [OF assms(3), of t] entry_offset(2) [OF assms(3)] frame_small(1) [of t] t by simp
  then show "tables_only s s'" unfolding s' by (intro tables_only_store) simp
  from low show u: "used s' = used s" and "pmm_ok s'"
    using low_store [OF paging_okD(1) [OF assms(1)], of "t + 8 * k" "bytes_of_word 8 e"] by (simp_all add: s')
  show "\<And>p. free_page s' p = free_page s p" using u by (simp add: free_page_def s')
  show "\<And>a n. mapped (vmem s) a n \<Longrightarrow> mapped (vmem s') a n" by (simp add: s' mapped_mem_upd)
  show "\<And>u j. frame_of u = u \<Longrightarrow> j < 512 \<Longrightarrow> entries_of s' u j = (if u = t \<and> j = k then e else entries_of s u j)"
  proof -
    fix u j :: u64
    assume u: "frame_of u = u" and "j < 512"
    from pte_upd [OF assms(3) this(2), where t = t and u = u and v = e and m = "vmem s"]
    show "entries_of s' u j = (if u = t \<and> j = k then e else entries_of s u j)" by (simp add: s' t u)
  qed
qed

lemma leaf_store:
  assumes "paging_ok s" "indices ks" "k < 512" "table_at (entries_of s) (get_pml4 s) ks = Some t"
    "length ks = 3 \<or> \<not> is_table (entries_of s t k) \<and> \<not> present e" "ks \<noteq> []"
  shows "\<exists>s'. set_entry t k e s = Inr s' \<and> paging_ok s' \<and> used s' = used s \<and> tables_only s s' \<and>
    (\<forall>v. translation s' v =
      (if prefix (ks @ [k]) (path v)
       then if present e then frame_of e OR (v AND mask (12 + 9 * (3 - length ks))) else - 1
       else translation s v) \<and>
      level_of s' v =
      (if prefix (ks @ [k]) (path v) then if present e then Some (3 - length ks) else None else level_of s v))"
proof -
  let ?s = "s\<lparr>vmem := mem_upd (vmem s) (t + 8 * k) (bytes_of_word 8 e)\<rparr>"
  let ?f = "entries_of s" and ?f' = "entries_of ?s" and ?r = "get_pml4 s"
  note run = set_entry_run [OF assms(1-4), where e = e]
  have t: "frame_of t = t" by (rule table_entry(1) [OF assms(1,2,4,3)])
  have ch: "one_change ?f ?f' ?r ks t k"
    unfolding one_change_def
  proof (intro conjI allI impI)
    fix xs u j
    assume "table_at ?f ?r xs = Some u" "j < 512" "(u, j) \<noteq> (t, k)"
    then show "?f' u j = ?f u j" using run(6) [where u = u and j = j] table_at_frame [of ?f ?r xs u] by auto
  qed (use assms in auto)
  have e: "?f' t k = e" using run(6) [OF t assms(3)] by simp
  note leaf = changed_leaf [OF paging_okD(2) [OF assms(1)] ch]
  have side: "length ks = 3 \<or> \<not> is_table (?f t k) \<and> \<not> is_table (?f' t k)"
    using assms(5) e by (auto simp: is_table_def)
  have "paging_ok ?s"
    unfolding paging_ok_def
  proof (intro conjI allI impI)
    show "pmm_ok ?s" by (rule run(3))
    show "tree ?f' (get_pml4 ?s)" using leaf(2) [OF side] by (simp add: cr3_low)
  next
    fix j :: u64
    assume j: "j < 512"
    have "t \<noteq> ?r" using treeD [OF paging_okD(2) [OF assms(1)] assms(2) indices_Nil assms(4)] assms(6) by auto
    then show "?f' (get_pml4 ?s) j AND PTE_HUGE = 0"
      using run(6) [where u = ?r and j = j] j paging_okD(3) [OF assms(1) j] by (simp add: cr3_low)
  next
    fix xs u
    assume "indices xs" "table_at ?f' (get_pml4 ?s) xs = Some u"
    then have "table_page s u" using leaf(1) [OF side] paging_okD(4) [OF assms(1)] by (simp add: cr3_low)
    then show "table_page ?s u" using run(4,5) by (simp add: table_page_def)
  next
    fix p
    assume "free_page ?s p"
    then show "p \<noteq> 0" "p < identity_pages \<Longrightarrow> mapped (vmem ?s) (of_nat p * PAGE_SIZE) 4096"
      using run(4,5) paging_okD(5,6) [OF assms(1)] by auto
  qed
  moreover have "translation ?s v =
      (if prefix (ks @ [k]) (path v)
       then if present e then frame_of e OR (v AND mask (12 + 9 * (3 - length ks))) else - 1
       else translation s v) \<and>
      level_of ?s v =
      (if prefix (ks @ [k]) (path v) then if present e then Some (3 - length ks) else None else level_of s v)" for v
    using leaf(3) [OF side, of v] e by (simp add: translation_def phys_addr_def level_of_def cr3_low)
  ultimately show ?thesis using run(1,2,7) by (intro exI [of _ ?s]) simp
qed

section \<open>A fresh table\<close>

lemma same_tree:
  assumes "tree f root" "\<And>xs u j. indices xs \<Longrightarrow> table_at f root xs = Some u \<Longrightarrow> j < 512 \<Longrightarrow> f' u j = f u j"
  shows "indices xs \<Longrightarrow> table_at f' root xs = table_at f root xs" "walk f' root (path v) = walk f root (path v)"
proof -
  have ch: "one_change f f' root [] root k" if "k < 512" for k
    using assms(2) that unfolding one_change_def by simp
  have split: "\<not> prefix ([] @ [0]) ys \<or> \<not> prefix ([] @ [1]) ys" for ys :: "u64 list" by (cases ys) auto
  show "indices xs \<Longrightarrow> table_at f' root xs = table_at f root xs"
    using table_at_unchanged [OF assms(1) ch [of 0]] table_at_unchanged [OF assms(1) ch [of 1]] split [of xs] by auto
  show "walk f' root (path v) = walk f root (path v)"
    using path_walk_unchanged [OF assms(1) ch [of 0]] path_walk_unchanged [OF assms(1) ch [of 1]] split [of "path v"] by auto
qed

lemma page_frame:
  assumes "p < 2 ^ 40"
  shows "frame_of (of_nat p * PAGE_SIZE) = of_nat p * PAGE_SIZE" "unat (of_nat p * PAGE_SIZE) = 4096 * p"
proof -
  have p: "of_nat p * PAGE_SIZE = push_bit 12 (of_nat p :: u64)"
    by (simp add: PAGE_SIZE_def push_bit_eq_mult)
  have "take_bit 40 (of_nat p :: u64) = of_nat p"
    using assms by (simp add: take_bit_of_nat take_bit_nat_eq_self)
  moreover have "PTE_ADDR_MASK = push_bit 12 (mask 40)" by (simp add: PTE_ADDR_MASK_def mask_numeral)
  ultimately show "frame_of (of_nat p * PAGE_SIZE) = of_nat p * PAGE_SIZE"
    unfolding p by (metis push_bit_and take_bit_eq_mask)
  show "unat (of_nat p * PAGE_SIZE) = 4096 * p"
    using assms by (simp add: PAGE_SIZE_def unat_word_ariths)
qed

lemma free_page_small: "paging_ok s \<Longrightarrow> free_page s p \<Longrightarrow> p < 2 ^ 40"
  using pmm_okD(1) [OF paging_okD(1)] by (fastforce simp: free_page_def)

text \<open>Taking a free page and clearing it changes no table.\<close>

lemma fresh_page:
  fixes s s1 :: "'a vmm_scheme"
  assumes "paging_ok s" "free_page s p" "used s1 = insert p (used s)" "pmm_ok s1" "pmm_frame s s1"
    "mapped (vmem s1) (of_nat p * PAGE_SIZE) 4096"
  defines a: "a \<equiv> of_nat p * PAGE_SIZE"
  defines s2: "s2 \<equiv> s1\<lparr>vmem := mem_upd (vmem s1) a (replicate 4096 0)\<rparr>"
  shows "memset a 0 (unat PAGE_SIZE) s1 = Inr s2" "a \<noteq> 0" "frame_of a = a" "get_pml4 s2 = get_pml4 s" "paging_ok s2"
    "used s2 = insert p (used s)" "tables_only s s2"
    "\<And>xs. indices xs \<Longrightarrow> table_at (entries_of s2) (get_pml4 s2) xs = table_at (entries_of s) (get_pml4 s) xs"
    "\<And>xs t k. indices xs \<Longrightarrow> table_at (entries_of s) (get_pml4 s) xs = Some t \<Longrightarrow> k < 512 \<Longrightarrow> entries_of s2 t k = entries_of s t k"
    "\<And>v. walk (entries_of s2) (get_pml4 s2) (path v) = walk (entries_of s) (get_pml4 s) (path v)"
    "\<And>xs. indices xs \<Longrightarrow> table_at (entries_of s) (get_pml4 s) xs \<noteq> Some a"
    "\<And>k. k < 512 \<Longrightarrow> entries_of s2 a k = 0" "mapped (vmem s2) a 4096"
proof -
  note p = page_frame [OF free_page_small [OF assms(1,2)]]
  show fr: "frame_of a = a" using p(1) by (simp add: a)
  show "a \<noteq> 0"
    using p(2) paging_okD(5) [OF assms(1,2)] unfolding a by (metis mult_eq_0_iff unat_0 zero_neq_numeral)
  have frame: "s1\<lparr>vmem := vmem s, pmm_used_pages := pmm_used_pages s\<rparr> = s" "\<And>x. \<not> in_bitmap x \<Longrightarrow> vmem s1 x = vmem s x"
    "\<And>x. vmem s x \<noteq> None \<Longrightarrow> vmem s1 x \<noteq> None"
    using assms(5) unfolding pmm_frame_def by blast+
  have mp: "mapped (vmem s1) b n" if "mapped (vmem s) b n" for b n using that frame(3) unfolding mapped_def by blast
  then have m2: "mapped (vmem s2) b n" if "mapped (vmem s) b n" for b n using that by (simp add: s2 mapped_mem_upd)
  have ma: "mapped (vmem s1) a 4096" using assms(6) by (simp add: a)
  then show "memset a 0 (unat PAGE_SIZE) s1 = Inr s2" "mapped (vmem s2) a 4096"
    by (simp_all add: memset_mapped mapped_mem_upd s2 PAGE_SIZE_def)
  have "cr3 s1 = cr3 (s1\<lparr>vmem := vmem s, pmm_used_pages := pmm_used_pages s\<rparr>)" by simp
  then have "cr3 s1 = cr3 s" by (simp only: frame(1))
  then show root: "get_pml4 s2 = get_pml4 s" by (simp add: get_pml4_def s2)
  have low: "unat a + length (replicate 4096 (0 :: u8)) \<le> 2 ^ 52" using frame_small(1) [of a] fr by simp
  show u: "used s2 = insert p (used s)" using low_store(1) [OF assms(4) low] assms(3) by (simp add: s2)
  show "tables_only s s2"
    unfolding s2 by (rule tables_only_trans [OF tables_only_pmm [OF assms(5)] tables_only_store [OF low]])
  have total: "pmm_total_pages s2 = pmm_total_pages s" using pmm_frame_total [OF assms(5)] by (simp add: s2)
  show fresh: "\<And>xs. indices xs \<Longrightarrow> table_at (entries_of s) (get_pml4 s) xs \<noteq> Some a"
  proof
    fix xs
    assume "indices xs" "table_at (entries_of s) (get_pml4 s) xs = Some a"
    then have "\<not> free_page s (unat a div 4096)" using paging_okD(4) [OF assms(1)] by (simp add: table_page_def)
    then show False using assms(2) p(2) by (simp add: a)
  qed
  have ents: "entries_of s2 u k = (if u = a then 0 else entries_of s u k)" if "frame_of u = u" "k < 512" for u k
    using pte_zeroed [OF that(2), where a = a and u = u] pte_bitmap [OF frame(2) that(2), where t = u] that(1) fr by (simp add: s2)
  show "\<And>k. k < 512 \<Longrightarrow> entries_of s2 a k = 0" using ents fr by simp
  show same: "\<And>xs t k. indices xs \<Longrightarrow> table_at (entries_of s) (get_pml4 s) xs = Some t \<Longrightarrow> k < 512 \<Longrightarrow> entries_of s2 t k = entries_of s t k"
    using ents fresh table_at_frame root_frame by metis
  note st = same_tree [OF paging_okD(2) [OF assms(1)] same]
  show at: "\<And>xs. indices xs \<Longrightarrow> table_at (entries_of s2) (get_pml4 s2) xs = table_at (entries_of s) (get_pml4 s) xs"
    unfolding root by (rule st(1))
  show "\<And>v. walk (entries_of s2) (get_pml4 s2) (path v) = walk (entries_of s) (get_pml4 s) (path v)"
    unfolding root by (rule st(2))
  have fp: "free_page s2 q \<Longrightarrow> free_page s q" for q using u total by (simp add: free_page_def)
  show "paging_ok s2"
    unfolding paging_ok_def
  proof (intro conjI allI impI)
    show "pmm_ok s2" using low_store(2) [OF assms(4) low] by (simp add: s2)
    show "tree (entries_of s2) (get_pml4 s2)" using paging_okD(2) [OF assms(1)] at unfolding tree_def by simp
  next
    fix k :: u64
    assume "k < 512"
    then show "entries_of s2 (get_pml4 s2) k AND PTE_HUGE = 0"
      using same [of "[]" "get_pml4 s" k] paging_okD(3) [OF assms(1)] by (simp add: root)
  next
    fix xs t
    assume "indices xs" "table_at (entries_of s2) (get_pml4 s2) xs = Some t"
    then have "table_page s t" using at paging_okD(4) [OF assms(1)] by simp
    then show "table_page s2 t" using fp m2 by (auto simp: table_page_def)
  next
    fix q
    assume "free_page s2 q"
    then show "q \<noteq> 0" "q < identity_pages \<Longrightarrow> mapped (vmem s2) (of_nat q * PAGE_SIZE) 4096"
      using fp m2 paging_okD(5,6) [OF assms(1)] by auto
  qed
qed

section \<open>The next table on a path\<close>

text \<open>Pages are taken for tables, the lowest first, and large pages do not appear.\<close>

definition grown :: "nat \<Rightarrow> 'a vmm_scheme \<Rightarrow> 'a vmm_scheme \<Rightarrow> bool" where
  "grown c s t \<longleftrightarrow>
     tables_only s t \<and> used s \<subseteq> used t \<and> card (used t - used s) \<le> c \<and>
     (\<forall>q \<in> used t - used s. {..<q} \<subseteq> used t) \<and> (\<forall>v. small_pages s v \<longrightarrow> small_pages t v)"

definition vmm_grows :: "nat \<Rightarrow> 'a vmm_scheme \<Rightarrow> 'a vmm_scheme \<Rightarrow> bool" where
  "vmm_grows c s t \<longleftrightarrow> grown c s t \<and> (\<forall>v. translation t v = translation s v)"

lemma vmm_growsD:
  assumes "vmm_grows c s t"
  shows "grown c s t" "tables_only s t" "used s \<subseteq> used t" "card (used t - used s) \<le> c" "translation t v = translation s v"
    "small_pages s v \<Longrightarrow> small_pages t v"
  using assms by (simp_all add: vmm_grows_def grown_def)

lemma grown_refl: "grown c s s"
  by (simp add: grown_def)

lemma card_grows:
  assumes "A \<subseteq> B" "B \<subseteq> C" "card (B - A) \<le> c" "card (C - B) \<le> d" "finite C"
  shows "card (C - A) \<le> c + d"
proof -
  have "C - A = (B - A) \<union> (C - B)" using assms(1,2) by auto
  then show ?thesis using card_Un_le [of "B - A" "C - B"] assms(3,4) by simp
qed

lemma grown_trans:
  assumes "grown c s t" "grown d t u"
  shows "grown (c + d) s u"
proof -
  have "tables_only s u"
    by (rule tables_only_trans [where t = t]) (use assms in \<open>simp_all add: grown_def\<close>)
  moreover have "card (used u - used s) \<le> c + d"
    by (rule card_grows [of _ "used t"]) (use assms in \<open>simp_all add: grown_def\<close>)
  moreover have "\<forall>q \<in> used u - used s. {..<q} \<subseteq> used u" using assms unfolding grown_def by blast
  ultimately show ?thesis using assms unfolding grown_def by auto
qed

lemma vmm_grows_trans: "vmm_grows c s t \<Longrightarrow> vmm_grows d t u \<Longrightarrow> vmm_grows (c + d) s u"
  unfolding vmm_grows_def using grown_trans by auto

lemma tables_only_fields:
  assumes "tables_only s t"
  shows "pmm_total_pages t = pmm_total_pages s" "get_pml4 t = get_pml4 s"
  using assms unfolding tables_only_def by (cases s, cases t, simp add: get_pml4_def)+

lemma vmm_grows_total: "vmm_grows c s t \<Longrightarrow> pmm_total_pages t = pmm_total_pages s"
  by (rule tables_only_fields [OF vmm_growsD(2)])

lemma vmm_grows_searched: "vmm_grows c s t \<Longrightarrow> searched t = searched s"
  by (simp add: searched_def vmm_grows_total)

lemma no_page_left:
  assumes "vmm_grows c s t" "{..<n} \<subseteq> used t"
  shows "card ({..<n} - used s) \<le> c"
proof -
  have "{..<n} - used s \<subseteq> used t - used s" using assms(2) by auto
  then have "card ({..<n} - used s) \<le> card (used t - used s)" by (intro card_mono) simp_all
  then show ?thesis using vmm_growsD(4) [OF assms(1)] by simp
qed

abbreviation out_of_memory :: "'b res" where
  "out_of_memory \<equiv> Inl (Panic (str ''PMM: Out of physical memory!''))"

text \<open>
  The two ways to fail: no page is left, or the page given out lies above the identity mapping
  and cannot be cleared.  In both cases hardly a page is left that would have done.
\<close>

definition low_pages :: "'a vmm_scheme \<Rightarrow> nat" where
  "low_pages s = min identity_pages (searched s)"

definition fails_with :: "nat \<Rightarrow> 'a vmm_scheme \<Rightarrow> 'b res \<Rightarrow> bool" where
  "fails_with c s r \<longleftrightarrow>
     r = out_of_memory \<and> card ({..<searched s} - used s) \<le> c \<or>
     (\<exists>a. r = Inl (PageFault a)) \<and> card ({..<low_pages s} - used s) \<le> c"

lemma fails_before:
  assumes "vmm_grows c s t" "fails_with 0 t r"
  shows "fails_with c s r"
proof -
  have "{..<n} \<subseteq> used t" if "card ({..<n} - used t) \<le> 0" for n using that by auto
  then show ?thesis
    using assms no_page_left [OF assms(1)] vmm_grows_searched [OF assms(1)]
    by (auto simp: fails_with_def low_pages_def)
qed

lemma fails_mono: "fails_with c s r \<Longrightarrow> c \<le> d \<Longrightarrow> fails_with d s r"
  by (auto simp: fails_with_def)

lemma memset_faults:
  assumes "\<not> mapped (vmem s) p n" "n \<le> 2 ^ 64"
  shows "\<exists>a. memset p c n s = Inl (PageFault a)"
proof -
  have "\<exists>a. wr_bytes m q bs = Inl (PageFault a)" if "\<forall>m'. wr_bytes m q bs \<noteq> Inr m'" for m q and bs :: "u8 list"
    using that by (induction bs arbitrary: m q) (auto simp: wr8_def split: option.splits sum.splits)
  moreover have "wr_bytes (vmem s) p (replicate n c) \<noteq> Inr m'" for m'
    using wr_bytes_eq_Inr_mapped [of "vmem s" p "replicate n c" m'] assms by auto
  ultimately show ?thesis by (fastforce simp: memset_def store_bytes_def)
qed

lemma table_flags:
  assumes "frame_of a = a"
  shows "frame_of (a OR (PTE_PRESENT OR PTE_WRITABLE) OR PTE_PRESENT OR PTE_WRITABLE) = a"
    "is_table (a OR (PTE_PRESENT OR PTE_WRITABLE) OR PTE_PRESENT OR PTE_WRITABLE)"
proof -
  have three: "a OR (PTE_PRESENT OR PTE_WRITABLE) OR PTE_PRESENT OR PTE_WRITABLE = a OR 3"
    by (simp add: PTE_PRESENT_def PTE_WRITABLE_def or.assoc)
  have "frame_of (a OR 3) = frame_of a OR frame_of 3" by (rule word_ao_dist)
  also have "frame_of 3 = 0" by (simp add: PTE_ADDR_MASK_def)
  finally show "frame_of (a OR (PTE_PRESENT OR PTE_WRITABLE) OR PTE_PRESENT OR PTE_WRITABLE) = a"
    unfolding three using assms by simp
  have low: "a AND m = 0" if "PTE_ADDR_MASK AND m = 0" for m
    using that assms by (metis and.assoc and_zero_eq)
  have "(a OR 3) AND PTE_PRESENT = (a AND PTE_PRESENT) OR (3 AND PTE_PRESENT)"
    "(a OR 3) AND PTE_HUGE = (a AND PTE_HUGE) OR (3 AND PTE_HUGE)" by (simp_all add: word_ao_dist)
  then show "is_table (a OR (PTE_PRESENT OR PTE_WRITABLE) OR PTE_PRESENT OR PTE_WRITABLE)"
    unfolding three using low [of PTE_PRESENT] low [of PTE_HUGE]
    by (simp add: is_table_def PTE_PRESENT_def PTE_HUGE_def PTE_ADDR_MASK_def)
qed

text \<open>A page taken for a table below an absent entry.\<close>

lemma table_added:
  fixes s s1 :: "'a vmm_scheme"
  assumes "paging_ok s" "indices (ks @ [k])" "table_at (entries_of s) (get_pml4 s) ks = Some t"
    "\<not> present (entries_of s t k)"
    "pmm_alloc_page s = Inr (of_nat p * PAGE_SIZE, s1)" "free_page s p" "used s1 = insert p (used s)" "pmm_ok s1" "pmm_frame s s1"
    "mapped (vmem s1) (of_nat p * PAGE_SIZE) 4096" and lowest: "{..<p} \<subseteq> used s"
  shows "\<exists>u s'. vmm_get_or_create_table t k (PTE_PRESENT OR PTE_WRITABLE) s = Inr (u, s') \<and> u \<noteq> 0 \<and> paging_ok s' \<and>
    vmm_grows 1 s s' \<and> table_at (entries_of s') (get_pml4 s') (ks @ [k]) = Some u"
proof -
  have k: "indices ks" "k < 512" "length ks < 3" using assms(2) by (simp_all add: indices_snoc)
  have read: "entry_at t k s = Inr (entries_of s t k)" by (rule table_entry(2) [OF assms(1) k(1) assms(3) k(2)])
  define a :: u64 where "a = of_nat p * PAGE_SIZE"
  define s2 where "s2 = s1\<lparr>vmem := mem_upd (vmem s1) a (replicate 4096 0)\<rparr>"
  define e where "e = a OR (PTE_PRESENT OR PTE_WRITABLE) OR PTE_PRESENT OR PTE_WRITABLE"
  define s3 where "s3 = s2\<lparr>vmem := mem_upd (vmem s2) (t + 8 * k) (bytes_of_word 8 e)\<rparr>"
  note fresh = fresh_page [OF assms(1,6-10), folded a_def, folded s2_def]
  let ?f = "entries_of s2" and ?f' = "entries_of s3" and ?r = "get_pml4 s2"
  have t2: "table_at ?f ?r ks = Some t" using fresh(8) [OF k(1)] assms(3) by simp
  note run = set_entry_run [OF fresh(5) k(1,2) t2, where e = e, folded s3_def]
  have tf: "frame_of t = t" by (rule table_entry(1) [OF assms(1) k(1) assms(3) k(2)])
  have root: "get_pml4 s3 = ?r" by (simp add: cr3_low s3_def)
  have tne: "t \<noteq> a" using fresh(11) [OF k(1)] assms(3) by auto
  have ch: "one_change ?f ?f' ?r ks t k"
    unfolding one_change_def
  proof (intro conjI allI impI)
    fix xs u j
    assume "table_at ?f ?r xs = Some u" "j < 512" "(u, j) \<noteq> (t, k)"
    then show "?f' u j = ?f u j" using run(6) [where u = u and j = j] table_at_frame [of ?f ?r xs u] by auto
  qed (use k t2 in auto)
  have fk: "?f' t k = e" using run(6) [OF tf k(2)] by simp
  have absent: "\<not> present (?f t k)" using assms(4) fresh(9) [OF k(1) assms(3) k(2)] by simp
  have zero: "\<forall>j < 512. \<not> present (?f' a j)" using run(6) [OF fresh(3)] fresh(12) tne by auto
  have notin: "\<forall>xs. indices xs \<longrightarrow> table_at ?f ?r xs \<noteq> Some a" using fresh(8,11) by simp
  have fl: "frame_of (?f' t k) = a" "is_table (?f' t k)"
    unfolding fk e_def by (rule table_flags [OF fresh(3)])+
  note new = new_table [OF paging_okD(2) [OF fresh(5)] ch k(3) absent fl(2,1) zero notin]
  have ok: "paging_ok s3"
    unfolding paging_ok_def root
  proof (intro conjI allI impI)
    fix j :: u64
    assume j: "j < 512"
    show "?f' ?r j AND PTE_HUGE = 0"
      using run(6) [where u = ?r and j = j] j paging_okD(3) [OF fresh(5) j] fl(2) fk by (simp add: is_table_def split: if_splits)
  next
    fix xs u
    assume "indices xs" "table_at ?f' ?r xs = Some u"
    from new(2) [OF this] show "table_page s3 u"
    proof
      assume "u = a \<and> xs = ks @ [k]"
      moreover have "unat a div 4096 = p" using page_frame(2) [OF free_page_small [OF assms(1,6)]] by (simp add: a_def)
      ultimately show ?thesis
        using fresh(2,6) run(2) run(5) [OF fresh(13)] by (simp add: table_page_def free_page_def)
    next
      assume "table_at ?f ?r xs = Some u"
      then have "table_page s2 u" using paging_okD(4) [OF fresh(5) \<open>indices xs\<close>] by simp
      then show ?thesis using run(4,5) by (simp add: table_page_def)
    qed
  next
    fix q
    assume "free_page s3 q"
    then show "q \<noteq> 0" "q < identity_pages \<Longrightarrow> mapped (vmem s3) (of_nat q * PAGE_SIZE) 4096"
      using run(4,5) paging_okD(5,6) [OF fresh(5)] by auto
  qed (use run(3) new(3) in simp_all)
  have "table_at ?f' (get_pml4 s3) ks = Some t"
    using table_at_unchanged [OF paging_okD(2) [OF fresh(5)] ch k(1) not_prefix_parent] t2 by (simp add: root)
  then have "entry_at t k s3 = Inr e" using table_entry(2) [OF ok k(1) _ k(2)] fk by simp
  moreover have "a OR PTE_PRESENT OR PTE_WRITABLE = e" by (simp add: e_def)
  ultimately have "vmm_get_or_create_table t k (PTE_PRESENT OR PTE_WRITABLE) s = Inr (a, s3)"
    using read assms(4,5) fresh(1,2) run(1) fl(1) fk
    by (simp add: vmm_get_or_create_table_def a_def [symmetric])
  moreover have "vmm_grows 1 s s3"
    unfolding vmm_grows_def grown_def
  proof (intro conjI allI impI ballI)
    show "tables_only s s3" by (rule tables_only_trans [OF fresh(7) run(7)])
    show "used s \<subseteq> used s3" "card (used s3 - used s) \<le> 1" "\<And>q. q \<in> used s3 - used s \<Longrightarrow> {..<q} \<subseteq> used s3"
      using run(2) fresh(6) lowest by (auto simp: insert_Diff_if split: if_splits)
    fix v
    show "translation s3 v = translation s v"
      using new(4) [of v] fresh(10) [of v] by (simp add: translation_def root phys_addr_def)
    have "level_of s3 v = level_of s v \<or> level_of s3 v = None"
      using new(5) [of v] fresh(10) [of v] by (auto simp: level_of_def root split: prod.splits)
    then show "small_pages s v \<Longrightarrow> small_pages s3 v" by (auto simp: small_pages_def)
  qed
  ultimately show ?thesis using fresh(2) ok new(1) by (auto simp: root)
qed

lemma next_table:
  assumes "paging_ok s" "indices (ks @ [k])" "table_at (entries_of s) (get_pml4 s) ks = Some t"
    "present (entries_of s t k) \<longrightarrow> is_table (entries_of s t k)"
  shows "fails_with 0 s (vmm_get_or_create_table t k (PTE_PRESENT OR PTE_WRITABLE) s) \<or>
    (\<exists>u s'. vmm_get_or_create_table t k (PTE_PRESENT OR PTE_WRITABLE) s = Inr (u, s') \<and> u \<noteq> 0 \<and> paging_ok s' \<and>
       vmm_grows 1 s s' \<and> table_at (entries_of s') (get_pml4 s') (ks @ [k]) = Some u)"
proof (cases "present (entries_of s t k)")
  case True
  have k: "indices ks" "k < 512" using assms(2) by (simp_all add: indices_snoc)
  let ?u = "frame_of (entries_of s t k)"
  have tab: "table_at (entries_of s) (get_pml4 s) (ks @ [k]) = Some ?u"
    using assms(3,4) True by (simp add: table_at_append)
  moreover have "?u \<noteq> 0" using paging_okD(4) [OF assms(1,2) tab] by (simp add: table_page_def)
  moreover have "vmm_get_or_create_table t k (PTE_PRESENT OR PTE_WRITABLE) s = Inr (?u, s)"
    using table_entry(2) [OF assms(1) k(1) assms(3) k(2)] True by (simp add: vmm_get_or_create_table_def)
  moreover have "vmm_grows 1 s s" by (simp add: vmm_grows_def grown_refl)
  ultimately show ?thesis using assms(1) by blast
next
  case False
  have k: "indices ks" "k < 512" "length ks < 3" using assms(2) by (simp_all add: indices_snoc)
  have read: "entry_at t k s = Inr (entries_of s t k)" by (rule table_entry(2) [OF assms(1) k(1) assms(3) k(2)])
  from alloc_page_ok [OF paging_okD(1) [OF assms(1)]] show ?thesis
  proof
    assume "pmm_alloc_page s = out_of_memory \<and> {..<searched s} \<subseteq> used s"
    moreover from this have "card ({..<searched s} - used s) = 0" by (simp add: Diff_eq_empty_iff [THEN iffD2])
    ultimately show ?thesis using read False by (simp add: vmm_get_or_create_table_def fails_with_def)
  next
    assume "\<exists>p s'. pmm_alloc_page s = Inr (of_nat p * PAGE_SIZE, s') \<and> p < searched s \<and> p \<notin> used s \<and>
       {..<p} \<subseteq> used s \<and> used s' = insert p (used s) \<and> pmm_ok s' \<and> pmm_frame s s'"
    then obtain p s1 where p: "pmm_alloc_page s = Inr (of_nat p * PAGE_SIZE, s1)" "p < searched s" "p \<notin> used s"
      "used s1 = insert p (used s)" "pmm_ok s1" "pmm_frame s s1" and lowest: "{..<p} \<subseteq> used s" by blast
    have "searched s \<le> unat (pmm_total_pages s)" by (simp add: searched_def)
    then have free: "free_page s p" using p(2,3) by (simp add: free_page_def)
    show ?thesis
    proof (cases "mapped (vmem s1) (of_nat p * PAGE_SIZE) 4096")
      case True
      from table_added [OF assms(1-3) False p(1) free p(4-6) this lowest] show ?thesis ..
    next
      case unmapped: False
      obtain a where "memset (of_nat p * PAGE_SIZE) 0 (unat PAGE_SIZE) s1 = Inl (PageFault a)"
        using memset_faults [OF unmapped] by (auto simp: PAGE_SIZE_def)
      moreover have "of_nat p * PAGE_SIZE \<noteq> (0 :: u64)"
        using page_frame(2) [OF free_page_small [OF assms(1) free]] paging_okD(5) [OF assms(1) free]
        by (metis mult_eq_0_iff unat_0 zero_neq_numeral)
      ultimately have "vmm_get_or_create_table t k (PTE_PRESENT OR PTE_WRITABLE) s = Inl (PageFault a)"
        using read False p(1) by (simp add: vmm_get_or_create_table_def)
      moreover have "identity_pages \<le> p"
      proof (rule ccontr)
        assume "\<not> identity_pages \<le> p"
        then have "mapped (vmem s) (of_nat p * PAGE_SIZE) 4096" using paging_okD(6) [OF assms(1) free] by simp
        then show False using unmapped p(6) unfolding pmm_frame_def mapped_def by blast
      qed
      then have "{..<low_pages s} - used s = {}" using lowest by (auto simp: low_pages_def)
      ultimately show ?thesis by (simp add: fails_with_def)
    qed
  qed
qed

section \<open>Pages\<close>

definition same_page :: "u64 \<Rightarrow> u64 \<Rightarrow> bool" where
  "same_page v w \<longleftrightarrow> drop_bit 12 (take_bit 48 v) = drop_bit 12 (take_bit 48 w)"

definition same_large_page :: "u64 \<Rightarrow> u64 \<Rightarrow> bool" where
  "same_large_page v w \<longleftrightarrow> drop_bit 21 (take_bit 48 v) = drop_bit 21 (take_bit 48 w)"

lemma index_bits:
  fixes v w :: u64
  assumes "n + 9 \<le> 64"
  shows "drop_bit n v AND 0x1FF = drop_bit n w AND 0x1FF \<longleftrightarrow> (\<forall>i. n \<le> i \<and> i < n + 9 \<longrightarrow> bit v i = bit w i)"
proof -
  have s: "i < 64" if "i < 9" for i :: nat using that by simp
  have m: "(0x1FF :: u64) = mask 9" by (simp add: mask_numeral)
  have "drop_bit n v AND 0x1FF = drop_bit n w AND 0x1FF \<longleftrightarrow> (\<forall>i < 9. bit v (n + i) = bit w (n + i))"
    unfolding m by (auto simp: bit_eq_iff bit_simps) (metis s)+
  also have "\<dots> \<longleftrightarrow> (\<forall>i. n \<le> i \<and> i < n + 9 \<longrightarrow> bit v i = bit w i)" (is "?l \<longleftrightarrow> ?r")
  proof
    assume l: ?l
    show ?r
    proof (intro allI impI)
      fix i
      assume i: "n \<le> i \<and> i < n + 9"
      then have "i - n < 9" by auto
      then show "bit v i = bit w i" using spec [OF l, of "i - n"] i by simp
    qed
  qed simp
  finally show ?thesis .
qed

lemma page_bits: "drop_bit n (take_bit 48 v) = drop_bit n (take_bit 48 w) \<longleftrightarrow> (\<forall>i. n \<le> i \<and> i < 48 \<longrightarrow> bit v i = bit w i)"
  for v w :: u64
proof
  assume l: "drop_bit n (take_bit 48 v) = drop_bit n (take_bit 48 w)"
  show "\<forall>i. n \<le> i \<and> i < 48 \<longrightarrow> bit v i = bit w i"
  proof (intro allI impI)
    fix i
    assume "n \<le> i \<and> i < 48"
    then show "bit v i = bit w i" using arg_cong [OF l, of "\<lambda>x. bit x (i - n)"] by (simp add: bit_simps)
  qed
qed (auto simp: bit_eq_iff bit_simps)

lemma split_range: "a \<le> b \<Longrightarrow> b \<le> c \<Longrightarrow> (\<forall>i. a \<le> i \<and> i < c \<longrightarrow> P i) \<longleftrightarrow> (\<forall>i. b \<le> i \<and> i < c \<longrightarrow> P i) \<and> (\<forall>i. a \<le> i \<and> i < b \<longrightarrow> P i)"
  for a b c :: nat
  using less_le_trans linorder_not_less order_trans by metis

lemma path_same_page: "path v = path w \<longleftrightarrow> same_page v w"
  unfolding path_def same_page_def page_bits pml4_index_def pdpt_index_def pd_index_def pt_index_def
  by (simp add: index_bits split_range [of 12 39 48] split_range [of 12 30 39] split_range [of 12 21 30])

lemma path_same_large_page: "take 3 (path v) = take 3 (path w) \<longleftrightarrow> same_large_page v w"
  unfolding path_def same_large_page_def page_bits pml4_index_def pdpt_index_def pd_index_def
  by (simp add: index_bits split_range [of 21 39 48] split_range [of 21 30 39])

section \<open>Mapping and unmapping\<close>

lemma small_step:
  assumes "paging_ok s" "small_pages s v" "path v = ks @ k # ys" "ys \<noteq> []" "table_at (entries_of s) (get_pml4 s) ks = Some t"
  shows "present (entries_of s t k) \<longrightarrow> is_table (entries_of s t k)"
proof -
  have "walk (entries_of s) (get_pml4 s) (path v) = walk (entries_of s) t (k # ys)"
    unfolding assms(3) using walk_append [OF assms(5)] by blast
  then show ?thesis using assms(2,4) by (auto simp: small_pages_def level_of_def split: if_splits)
qed

lemma map_page_ok:
  assumes "paging_ok s" "small_pages s virt"
  shows "fails_with 2 s (vmm_map_page virt phys flags s) \<or>
    (\<exists>t pt s'. vmm_grows 3 s t \<and> paging_ok t \<and> vmm_map_page virt phys flags s = Inr (0, s') \<and>
       table_at (entries_of t) (get_pml4 t) [pml4_index virt, pdpt_index virt, pd_index virt] = Some pt \<and>
       set_entry pt (pt_index virt) (frame_of phys OR flags OR PTE_PRESENT) t = Inr s')"
proof -
  let ?get = "\<lambda>t k s. vmm_get_or_create_table t k (PTE_PRESENT OR PTE_WRITABLE) s"
  let ?i4 = "pml4_index virt" and ?i3 = "pdpt_index virt" and ?i2 = "pd_index virt"
  have start: "table_at (entries_of s) (get_pml4 s) [] = Some (get_pml4 s)" by simp
  note p = path_def [of virt]
  from next_table [OF assms(1) _ start, of ?i4] small_step [OF assms _ _ start] p path_prefixes(1) [of virt]
  consider "fails_with 0 s (?get (get_pml4 s) ?i4 s)"
    | t3 s1 where "?get (get_pml4 s) ?i4 s = Inr (t3, s1)" "t3 \<noteq> 0" "paging_ok s1" "vmm_grows 1 s s1"
        "table_at (entries_of s1) (get_pml4 s1) [?i4] = Some t3"
    by fastforce
  then show ?thesis
  proof cases
    case 1
    then have "fails_with 0 s (vmm_map_page virt phys flags s)" by (auto simp: fails_with_def vmm_map_page_def)
    then have "fails_with 2 s (vmm_map_page virt phys flags s)" by (rule fails_mono) simp
    then show ?thesis ..
  next
    case 2
    have small1: "small_pages s1 virt" by (rule vmm_growsD(6) [OF 2(4) assms(2)])
    from next_table [OF 2(3) _ 2(5), of ?i3] small_step [OF 2(3) small1 _ _ 2(5)] p path_prefixes(2) [of virt]
    consider "fails_with 0 s1 (?get t3 ?i3 s1)"
      | t2 s2 where "?get t3 ?i3 s1 = Inr (t2, s2)" "t2 \<noteq> 0" "paging_ok s2" "vmm_grows 1 s1 s2"
          "table_at (entries_of s2) (get_pml4 s2) [?i4, ?i3] = Some t2"
      by fastforce
    then show ?thesis
    proof cases
      case A: 1
      then have "fails_with 0 s1 (vmm_map_page virt phys flags s)" using 2(1,2) by (auto simp: fails_with_def vmm_map_page_def)
      from fails_mono [OF fails_before [OF 2(4) this], of 2] show ?thesis by simp
    next
      case B: 2
      have g2: "vmm_grows 2 s s2" using vmm_grows_trans [OF 2(4) B(4)] by (simp add: numeral_2_eq_2)
      have small2: "small_pages s2 virt" by (rule vmm_growsD(6) [OF B(4) small1])
      from next_table [OF B(3) _ B(5), of ?i2] small_step [OF B(3) small2 _ _ B(5)] p path_prefixes(3) [of virt]
      consider "fails_with 0 s2 (?get t2 ?i2 s2)"
        | t1 s3 where "?get t2 ?i2 s2 = Inr (t1, s3)" "t1 \<noteq> 0" "paging_ok s3" "vmm_grows 1 s2 s3"
            "table_at (entries_of s3) (get_pml4 s3) [?i4, ?i3, ?i2] = Some t1"
        by fastforce
      then show ?thesis
      proof cases
        case C: 1
        then have "fails_with 0 s2 (vmm_map_page virt phys flags s)"
          using 2(1,2) B(1,2) by (auto simp: fails_with_def vmm_map_page_def)
        from fails_before [OF g2 this] show ?thesis ..
      next
        case D: 2
        have g3: "vmm_grows 3 s s3" using vmm_grows_trans [OF g2 D(4)] by (simp add: numeral_3_eq_3)
        obtain s' where "set_entry t1 (pt_index virt) (frame_of phys OR flags OR PTE_PRESENT) s3 = Inr s'"
          using leaf_store [OF D(3) path_prefixes(3,7) [of virt] D(5), where e = "frame_of phys OR flags OR PTE_PRESENT"] by auto
        then show ?thesis
          using g3 D 2(1,2) B(1,2) by (intro disjI2 exI [of _ s3] exI [of _ t1] exI [of _ s']) (simp add: vmm_map_page_def)
      qed
    qed
  qed
qed

lemma leaf_prefix:
  "prefix [pml4_index w, pdpt_index w, pd_index w, pt_index w] (path v) \<longleftrightarrow> same_page v w"
proof -
  have "prefix (path w) (path v) \<longleftrightarrow> path v = path w" by (auto simp: path_def)
  then show ?thesis unfolding path_same_page [symmetric] by (simp add: path_def)
qed

lemma large_prefix:
  "prefix [pml4_index w, pdpt_index w, pd_index w] (path v) \<longleftrightarrow> same_large_page v w"
  using path_same_large_page [of v w] by (auto simp: path_def)

lemma unmapped_translation: "level_of s v = None \<Longrightarrow> translation s v = - 1"
  by (cases "walk (entries_of s) (get_pml4 s) (path v)")
    (auto simp: level_of_def translation_def phys_addr_def split: if_splits)

lemma same_page_level: "same_page v w \<Longrightarrow> level_of s v = level_of s w"
  by (simp add: path_same_page [symmetric] level_of_def)

lemma same_page_large: "same_page v w \<Longrightarrow> same_large_page v w"
  by (simp add: same_page_def same_large_page_def page_bits)

section \<open>An empty address space\<close>

text \<open>64 pages, of which page 0 is reserved and page 1 holds the empty top table.\<close>

definition vmm_demo :: vmm where
  "vmm_demo = heap.extend heap_demo \<lparr>cr3 = 4096\<rparr>
     \<lparr>vmem := \<lambda>a. Some (if a = PMM_BITMAP_VIRT then 3 else 0), pmm_total_pages := 64, pmm_used_pages := 2\<rparr>"

lemma vmm_demo_simps [simp]:
  "vmem vmm_demo = (\<lambda>a. Some (if a = PMM_BITMAP_VIRT then 3 else 0))" "pmm_total_pages vmm_demo = 64"
  "pmm_used_pages vmm_demo = 2" "get_pml4 vmm_demo = 4096"
  by (simp_all add: vmm_demo_def get_pml4_def heap.defs PTE_ADDR_MASK_def)

lemma vmm_demo_used: "used vmm_demo = {0, 1}" "searched vmm_demo = 64"
proof -
  have "page_bit (vmem vmm_demo) p \<longleftrightarrow> p < 2" if "p < 64" for p
  proof -
    have "p div 8 < 8" using that by auto
    then have "unat (of_nat (p div 8) :: u64) = p div 8" by simp
    then have "(of_nat (p div 8) :: u64) = 0 \<longleftrightarrow> p div 8 = 0" by (metis unat_0 unat_eq_zero)
    moreover have "bit (3 :: u8) (p mod 8) \<longleftrightarrow> p mod 8 < 2"
    proof -
      have "(3 :: u8) = mask 2" by (simp add: mask_numeral)
      then show ?thesis unfolding \<open>3 = mask 2\<close> bit_mask_iff by simp
    qed
    ultimately show ?thesis by (auto simp: page_bit_def)
  qed
  then show "used vmm_demo = {0, 1}" by (auto simp: used_def)
  show "searched vmm_demo = 64" by (simp add: searched_def)
qed

lemma vmm_demo_ok: "paging_ok vmm_demo" "level_of vmm_demo v = None"
proof -
  have zero: "entries_of vmm_demo (frame_of t) k = 0" if "k < 512" for t k
  proof -
    have "entries_of vmm_demo (frame_of t) k = pte (\<lambda>a. Some 0) (frame_of t) k"
      by (rule pte_bitmap [OF _ that, symmetric]) (auto simp: in_bitmap_def)
    also have "\<dots> = 0" by (simp add: pte_def rd64_def rd8_def eval_nat_numeral)
    finally show ?thesis .
  qed
  have root: "frame_of 4096 = 4096" by (simp add: PTE_ADDR_MASK_def)
  have empty: "\<not> present (entries_of vmm_demo 4096 k)" if "k < 512" for k using zero [OF that, of 4096] root by simp
  have at: "table_at (entries_of vmm_demo) 4096 xs = (if xs = [] then Some 4096 else None)" if "indices xs" for xs
    using table_at_empty [of "entries_of vmm_demo" 4096 xs] empty that by (simp add: indices_def)
  have free: "free_page vmm_demo p \<longleftrightarrow> 2 \<le> p \<and> p < 64" for p by (auto simp: free_page_def vmm_demo_used)
  have all: "mapped (vmem vmm_demo) a n" for a n by (simp add: mapped_def)
  show "paging_ok vmm_demo"
    unfolding paging_ok_def
  proof (intro conjI allI impI)
    show "pmm_ok vmm_demo" using all by (simp add: pmm_ok_def vmm_demo_used del: vmm_demo_simps(1))
    show "tree (entries_of vmm_demo) (get_pml4 vmm_demo)" using at by (simp add: tree_def del: vmm_demo_simps(1))
  next
    fix xs t
    assume "indices xs" "table_at (entries_of vmm_demo) (get_pml4 vmm_demo) xs = Some t"
    then have "t = 4096" using at [of xs] by (simp split: if_splits del: vmm_demo_simps(1))
    then show "table_page vmm_demo t" using all free by (simp add: table_page_def del: vmm_demo_simps(1))
  qed (use zero [of _ 4096] root free all in \<open>simp_all del: vmm_demo_simps(1)\<close>)
  show "level_of vmm_demo v = None"
    using empty path_indices [of "pml4_index v" v] by (simp add: level_of_def path_def is_table_def del: vmm_demo_simps(1))
qed

lemma unmap_cases:
  assumes "paging_ok s" "level_of s virt \<noteq> Some 2"
  obtains "vmm_unmap_page virt s = Inr s" "level_of s virt = None"
  | t where "vmm_unmap_page virt s = set_entry t (pd_index virt) 0 s" "level_of s virt = Some 1"
      "table_at (entries_of s) (get_pml4 s) [pml4_index virt, pdpt_index virt] = Some t"
      "\<not> is_table (entries_of s t (pd_index virt))"
  | t where "vmm_unmap_page virt s = set_entry t (pt_index virt) 0 s" "level_of s virt \<noteq> Some 1"
      "table_at (entries_of s) (get_pml4 s) [pml4_index virt, pdpt_index virt, pd_index virt] = Some t"
proof -
  let ?f = "entries_of s"
  let ?e4 = "?f (get_pml4 s) (pml4_index virt)"
  let ?e3 = "?f (frame_of ?e4) (pdpt_index virt)"
  let ?e2 = "?f (frame_of ?e3) (pd_index virt)"
  note e = path_reads [OF assms(1), of virt]
  have level: "level_of s virt =
      (let (e, n) = (if \<not> present ?e4 then (?e4, 3) else if \<not> is_table ?e3 then (?e3, 2)
         else if \<not> is_table ?e2 then (?e2, 1) else (?f (frame_of ?e2) (pt_index virt), 0))
       in if present e then Some n else None)"
    using e(1) by (simp add: level_of_def path_def is_table_def)
  consider "\<not> present ?e4" | "present ?e4" "\<not> present ?e3" | "present ?e4" "is_table ?e3" "\<not> present ?e2"
    | "present ?e4" "is_table ?e3" "present ?e2" "\<not> is_table ?e2" | "present ?e4" "is_table ?e3" "is_table ?e2"
    using assms(2) unfolding level by (auto simp: is_table_def split: if_splits)
  then show thesis
  proof cases
    case 4
    then show ?thesis
      using that(2) e(2-5) level by (simp add: vmm_unmap_page_def is_table_def)
  next
    case 5
    then show ?thesis
      using that(3) e(2-7) level by (simp add: vmm_unmap_page_def is_table_def split: if_splits)
  qed (use that(1) e(2-5) level in \<open>simp_all add: vmm_unmap_page_def is_table_def\<close>)
qed

text \<open>The last store of \<open>vmm_map_page\<close>.\<close>

definition page_mapped :: "'a vmm_scheme \<Rightarrow> u64 \<Rightarrow> u64 \<Rightarrow> 'a vmm_scheme \<Rightarrow> bool" where
  "page_mapped s virt phys s' \<longleftrightarrow>
     (\<forall>v. translation s' v = (if same_page v virt then frame_of phys OR (v AND mask 12) else translation s v))"

lemma leaf_entry:
  assumes "flags AND PTE_ADDR_MASK = 0"
  shows "frame_of (frame_of phys OR flags OR PTE_PRESENT) = frame_of phys" "present (frame_of phys OR flags OR PTE_PRESENT)"
proof -
  let ?e = "frame_of phys OR flags OR PTE_PRESENT"
  have "?e AND PTE_ADDR_MASK = frame_of phys OR (flags AND PTE_ADDR_MASK) OR (PTE_PRESENT AND PTE_ADDR_MASK)"
    by (simp add: word_ao_dist)
  then show "frame_of ?e = frame_of phys" using assms by (simp add: PTE_PRESENT_def PTE_ADDR_MASK_def)
  have "?e AND PTE_PRESENT = PTE_PRESENT" unfolding or.assoc [symmetric] by (rule word_ao_absorbs)
  then show "present ?e" by (simp add: PTE_PRESENT_def)
qed

lemma leaf_page:
  assumes "paging_ok s" "flags AND PTE_ADDR_MASK = 0"
    "table_at (entries_of s) (get_pml4 s) [pml4_index virt, pdpt_index virt, pd_index virt] = Some pt"
  shows "\<exists>u. set_entry pt (pt_index virt) (frame_of phys OR flags OR PTE_PRESENT) s = Inr u \<and> paging_ok u \<and> grown 0 s u \<and>
    used u = used s \<and> page_mapped s virt phys u \<and> level_of u virt = Some 0"
proof -
  let ?e = "frame_of phys OR flags OR PTE_PRESENT"
  obtain u where u: "set_entry pt (pt_index virt) ?e s = Inr u" "paging_ok u" "used u = used s" "tables_only s u"
    "\<forall>v. translation u v = (if same_page v virt then frame_of phys OR (v AND mask 12) else translation s v)"
    "\<forall>v. level_of u v = (if same_page v virt then Some 0 else level_of s v)"
    using leaf_store [OF assms(1) path_prefixes(3,7) [of virt] assms(3), where e = ?e] leaf_entry [OF assms(2), of phys]
    by (auto simp: leaf_prefix)
  moreover have "level_of u virt = Some 0" using u(6) by (simp add: same_page_def)
  moreover have "grown 0 s u" using u(3,4,6) by (simp add: grown_def small_pages_def)
  ultimately show ?thesis by (auto simp: page_mapped_def)
qed

lemma map_page_runs:
  assumes "paging_ok s" "small_pages s virt" "flags AND PTE_ADDR_MASK = 0"
  shows "fails_with 2 s (vmm_map_page virt phys flags s) \<or>
    (\<exists>s'. vmm_map_page virt phys flags s = Inr (0, s') \<and> paging_ok s' \<and> grown 3 s s' \<and> page_mapped s virt phys s' \<and>
       level_of s' virt = Some 0)"
  using map_page_ok [OF assms(1,2), of phys flags]
proof (elim disjE exE conjE)
  fix t pt s'
  assume t: "vmm_grows 3 s t" "paging_ok t" "vmm_map_page virt phys flags s = Inr (0, s')"
    "table_at (entries_of t) (get_pml4 t) [pml4_index virt, pdpt_index virt, pd_index virt] = Some pt"
    "set_entry pt (pt_index virt) (frame_of phys OR flags OR PTE_PRESENT) t = Inr s'"
  from leaf_page [OF t(2) assms(3) t(4), of phys] t(5)
  have u: "paging_ok s'" "grown 0 t s'" "page_mapped t virt phys s'" "level_of s' virt = Some 0" by auto
  moreover have "page_mapped s virt phys s'" using u(3) vmm_growsD(5) [OF t(1)] by (simp add: page_mapped_def)
  ultimately show ?thesis using t(3) grown_trans [OF vmm_growsD(1) [OF t(1)] u(2)] by simp
qed simp

lemma map_updates:
  assumes "paging_ok s" "small_pages s virt" "flags AND PTE_ADDR_MASK = 0"
  shows "vmm_map_page virt phys flags s = out_of_memory \<and> card ({..<searched s} - used s) < 3 \<or>
    (\<exists>a. vmm_map_page virt phys flags s = Inl (PageFault a)) \<and> card ({..<low_pages s} - used s) < 3 \<or>
    (\<exists>s'. vmm_map_page virt phys flags s = Inr (0, s') \<and> paging_ok s' \<and>
       used s \<subseteq> used s' \<and> card (used s' - used s) \<le> 3 \<and>
       (\<forall>v. vmm_get_phys v s' =
         (if same_page v virt then Inr ((phys AND PTE_ADDR_MASK) OR (v AND 0xFFF)) else vmm_get_phys v s)) \<and>
       level_of s' virt = Some 0)"
  using map_page_runs [OF assms, of phys]
proof (elim disjE exE conjE)
  fix s'
  assume t: "vmm_map_page virt phys flags s = Inr (0, s')" "paging_ok s'" "grown 3 s s'" "page_mapped s virt phys s'"
    "level_of s' virt = Some 0"
  then show ?thesis
    using get_phys_translation [OF assms(1)] get_phys_translation [OF t(2)]
    by (simp add: grown_def page_mapped_def mask_numeral)
qed (auto simp: fails_with_def)

lemma vmm_demo_start:
  "small_pages vmm_demo v" "vmm_get_phys v vmm_demo = Inr (- 1)" "card ({..<searched vmm_demo} - used vmm_demo) = 62"
  "card ({..<low_pages vmm_demo} - used vmm_demo) = 62"
  "(2 :: u64) AND PTE_ADDR_MASK = 0"
  using get_phys_translation [OF vmm_demo_ok(1)] vmm_demo_ok(2)
  by (simp_all add: small_pages_def unmapped_translation vmm_demo_used low_pages_def identity_pages_def PTE_ADDR_MASK_def)

section \<open>Properties\<close>

text \<open>C8. Mapping a page changes the translation of that page and of nothing else.  Where no
  large page is in the way, \<open>vmm_map_page\<close> succeeds unless fewer than three pages are free, or
  fewer than three below 4 MB, above which it takes a page fault on clearing the new table;
  when it succeeds every address of the page is translated into the frame, every other address as before,
  the tables stay a tree of their own pages, and at most three pages are taken for tables.\<close>

theorem vmm_map_page_updates:
  assumes "paging_ok s" "small_pages s virt" "flags AND PTE_ADDR_MASK = 0"
  shows "vmm_map_page virt phys flags s = out_of_memory \<and> card ({..<searched s} - used s) < 3 \<or>
    (\<exists>a. vmm_map_page virt phys flags s = Inl (PageFault a)) \<and> card ({..<low_pages s} - used s) < 3 \<or>
    (\<exists>s'. vmm_map_page virt phys flags s = Inr (0, s') \<and> paging_ok s' \<and>
       used s \<subseteq> used s' \<and> card (used s' - used s) \<le> 3 \<and>
       (\<forall>v. vmm_get_phys v s' =
         (if same_page v virt then Inr ((phys AND PTE_ADDR_MASK) OR (v AND 0xFFF)) else vmm_get_phys v s)) \<and>
       level_of s' virt = Some 0)"
  by (rule map_updates [OF assms])

theorem vmm_map_page_updates_witness:
  "\<exists>s'. vmm_map_page 0x400000 0x9000 2 vmm_demo = Inr (0, s') \<and>
     vmm_get_phys 0x400123 s' = Inr 0x9123 \<and> vmm_get_phys 0x401123 s' = Inr (- 1)"
  using vmm_map_page_updates [OF vmm_demo_ok(1) vmm_demo_start(1,5), of "0x400000" "0x9000"] vmm_demo_start(2,3,4)
  by (auto simp: PTE_ADDR_MASK_def same_page_def)

text \<open>C16. Unmapping removes the page of an address, and nothing else.  Afterwards the addresses of
  its page, of 4 KB or of 2 MB, have no translation, every other address has the one it had,
  and no page changes hands; an address that is not mapped stays so.  A page of 1 GB is
  excluded: its frame would be taken for a table.\<close>

theorem vmm_unmap_page_removes:
  assumes "paging_ok s" "level_of s virt \<noteq> Some 2"
  shows "\<exists>s'. vmm_unmap_page virt s = Inr s' \<and> paging_ok s' \<and> used s' = used s \<and>
    (\<forall>v. vmm_get_phys v s' =
      (if (if level_of s virt = Some 1 then same_large_page v virt else same_page v virt)
       then Inr (- 1) else vmm_get_phys v s))"
  using assms
proof (cases rule: unmap_cases)
  case 1
  have "translation s v = - 1" if "same_page v virt" for v
    using same_page_level [OF that, of s] 1(2) by (simp add: unmapped_translation)
  then show ?thesis using 1 assms(1) get_phys_translation [OF assms(1)] by simp
next
  case (2 t)
  obtain u where u: "set_entry t (pd_index virt) 0 s = Inr u" "paging_ok u" "used u = used s"
    "\<forall>v. translation u v = (if same_large_page v virt then - 1 else translation s v)"
    using leaf_store [OF assms(1) path_prefixes(2,6) [of virt] 2(3), where e = 0] 2(4) by (auto simp: large_prefix)
  then show ?thesis using 2(1,2) get_phys_translation [OF u(2)] get_phys_translation [OF assms(1)] by simp
next
  case (3 t)
  obtain u where u: "set_entry t (pt_index virt) 0 s = Inr u" "paging_ok u" "used u = used s"
    "\<forall>v. translation u v = (if same_page v virt then - 1 else translation s v)"
    using leaf_store [OF assms(1) path_prefixes(3,7) [of virt] 3(3), where e = 0] by (auto simp: leaf_prefix)
  then show ?thesis using 3(1,2) get_phys_translation [OF u(2)] get_phys_translation [OF assms(1)] by simp
qed

theorem vmm_unmap_page_removes_witness:
  "\<exists>(s :: vmm) s'. vmm_get_phys 0x400123 s = Inr 0x9123 \<and> vmm_unmap_page 0x400000 s = Inr s' \<and>
     vmm_get_phys 0x400123 s' = Inr (- 1)"
proof -
  obtain s :: vmm where s: "paging_ok s" "level_of s 0x400000 = Some 0"
    "\<forall>v. vmm_get_phys v s =
      (if same_page v 0x400000 then Inr ((0x9000 AND PTE_ADDR_MASK) OR (v AND 0xFFF)) else vmm_get_phys v vmm_demo)"
    using map_updates [OF vmm_demo_ok(1) vmm_demo_start(1,5), of "0x400000" "0x9000"] vmm_demo_start(3,4) by auto
  have "vmm_get_phys 0x400123 s = Inr 0x9123"
    using spec [OF s(3), of "0x400123"] by (simp add: same_page_def PTE_ADDR_MASK_def)
  moreover obtain s' where "vmm_unmap_page 0x400000 s = Inr s'" "vmm_get_phys 0x400123 s' = Inr (- 1)"
    using vmm_unmap_page_removes [OF s(1), of "0x400000"] s(2) by (auto simp: same_page_def)
  ultimately show ?thesis by blast
qed

end
