(* ===== verification/Ranges.thy ===== *)
theory Ranges
  imports Paging
begin

text \<open>
  Ranges of pages (\<open>vmm_map_range\<close> in \<open>kernel/memory/vmm.c\<close>) that lie in one region of 2 MB, as the
  dictionary and the registers of the network card do: the first page brings the tables that
  are missing, at most three, and the other pages need none.
\<close>

section \<open>Page numbers\<close>

lemma no_carry:
  fixes a m x :: nat
  assumes "a mod m + x < m"
  shows "(a + x) div m = a div m" "(a + x) mod m = a mod m + x"
proof -
  have "x < m" using assms by simp
  then show "(a + x) div m = a div m" using assms by (simp add: div_add1_eq [of a x m])
  show "(a + x) mod m = a mod m + x" using assms by (metis mod_add_left_eq mod_less)
qed

lemma digits_less:
  fixes q k m y :: nat
  assumes "q < k" "y < m"
  shows "m * q + y < m * k"
proof -
  have "m * q + y < m * Suc q" using assms(2) by simp
  also have "\<dots> \<le> m * k" using assms(1) by (intro mult_le_mono2) simp
  finally show ?thesis .
qed

lemma page_number:
  "unat (drop_bit 21 (take_bit 48 x)) = unat x div 2 ^ 21 mod 2 ^ 27"
  "unat (drop_bit 12 (take_bit 48 x)) = 512 * (unat x div 2 ^ 21 mod 2 ^ 27) + unat x mod 2 ^ 21 div 4096" for x :: u64
proof -
  let ?q = "unat x div 2097152 mod 134217728" and ?r = "unat x mod 2097152"
  have m: "unat x mod 281474976710656 = 2097152 * ?q + ?r"
    using mod_mult2_eq [of "unat x" 2097152 134217728] by simp
  have "(2097152 * ?q + ?r) div 2097152 = ?q" by simp
  then show "unat (drop_bit 21 (take_bit 48 x)) = unat x div 2 ^ 21 mod 2 ^ 27"
    unfolding unat_drop_bit_eq unsigned_take_bit_eq by (simp add: drop_bit_eq_div take_bit_eq_mod m)
  have "2097152 * ?q + ?r = ?r + 4096 * (512 * ?q)" by simp
  then have "(2097152 * ?q + ?r) div 4096 = 512 * ?q + ?r div 4096" by (simp only: div_mult_self2)
  then show "unat (drop_bit 12 (take_bit 48 x)) = 512 * (unat x div 2 ^ 21 mod 2 ^ 27) + unat x mod 2 ^ 21 div 4096"
    unfolding unat_drop_bit_eq unsigned_take_bit_eq by (simp add: drop_bit_eq_div take_bit_eq_mod m)
qed

lemma same_large_page_unat: "same_large_page v w \<longleftrightarrow> unat v div 2 ^ 21 mod 2 ^ 27 = unat w div 2 ^ 21 mod 2 ^ 27"
  unfolding same_large_page_def word_unat_eq_iff page_number(1) ..

lemma same_page_unat:
  "same_page v w \<longleftrightarrow> same_large_page v w \<and> unat v mod 2 ^ 21 div 4096 = unat w mod 2 ^ 21 div 4096"
proof -
  have small: "x mod 2 ^ 21 div 4096 < 512" for x :: nat by auto
  have pair: "512 * a + b = 512 * c + d \<longleftrightarrow> a = c \<and> b = d" if "b < 512" "d < 512" for a b c d :: nat
  proof -
    have "(512 * a + b) div 512 = a" "(512 * c + d) div 512 = c" using that by simp_all
    then show ?thesis by (metis add_left_cancel)
  qed
  show ?thesis
    unfolding same_page_def same_large_page_unat word_unat_eq_iff page_number(2) by (rule pair [OF small small])
qed

text \<open>A range of \<open>n\<close> pages within 2 MB.\<close>

definition in_region :: "u64 \<Rightarrow> nat \<Rightarrow> bool" where
  "in_region virt n \<longleftrightarrow> unat virt mod 4096 = 0 \<and> unat virt mod 2 ^ 21 + n * 4096 \<le> 2 ^ 21"

lemma region_offset:
  assumes "in_region virt n" "x < n * 4096"
  shows "unat (virt + of_nat x) = unat virt + x" "unat (virt + of_nat x) div 2 ^ 21 = unat virt div 2 ^ 21"
    "unat (virt + of_nat x) mod 2 ^ 21 div 4096 = unat virt mod 2 ^ 21 div 4096 + x div 4096"
    "unat (virt + of_nat x) mod 4096 = x mod 4096"
proof -
  let ?U = "unat virt"
  have r: "?U mod 2 ^ 21 + x < 2 ^ 21" using assms unfolding in_region_def by linarith
  have "?U < 2 ^ 64" using unsigned_less [of virt, where 'a = nat] by simp
  then have "?U < 2 ^ 43 * 2 ^ 21" by simp
  then have "?U div 2 ^ 21 < 2 ^ 43" by (rule less_mult_imp_div_less)
  moreover have "?U + x = 2 ^ 21 * (?U div 2 ^ 21) + (?U mod 2 ^ 21 + x)" by (simp only: add.assoc [symmetric] mult_div_mod_eq)
  ultimately have "?U + x < 2 ^ 21 * 2 ^ 43" using digits_less [OF _ r] by metis
  then have "?U + x < 2 ^ 64" by simp
  then show u: "unat (virt + of_nat x) = ?U + x" by (subst unat_add_of_nat) simp_all
  show "unat (virt + of_nat x) div 2 ^ 21 = ?U div 2 ^ 21" unfolding u by (rule no_carry(1) [OF r])
  have al: "?U mod 4096 = 0" using assms(1) by (simp add: in_region_def)
  then have "?U mod 2 ^ 21 mod 4096 = 0" by (simp add: mod_mod_cancel)
  then show "unat (virt + of_nat x) mod 2 ^ 21 div 4096 = ?U mod 2 ^ 21 div 4096 + x div 4096"
    unfolding u no_carry(2) [OF r] by (simp add: div_add1_eq [of _ x 4096])
  show "unat (virt + of_nat x) mod 4096 = x mod 4096" unfolding u using mod_add_left_eq [of ?U 4096 x] al by simp
qed

lemma region_page:
  assumes "in_region virt n" "i < n"
  shows "same_large_page (virt + of_nat i * PAGE_SIZE) virt"
    "x < n * 4096 \<Longrightarrow> same_page (virt + of_nat x) (virt + of_nat i * PAGE_SIZE) \<longleftrightarrow> x div 4096 = i"
    "j < n \<Longrightarrow> same_page (virt + of_nat j * PAGE_SIZE) (virt + of_nat i * PAGE_SIZE) \<longleftrightarrow> j = i"
proof -
  have p: "of_nat k * PAGE_SIZE = of_nat (k * 4096)" for k by (simp add: PAGE_SIZE_def)
  have b: "k * 4096 < n * 4096" if "k < n" for k using that by simp
  note off = region_offset [OF assms(1)]
  show "same_large_page (virt + of_nat i * PAGE_SIZE) virt"
    unfolding p same_large_page_unat off(2) [OF b [OF assms(2)]] ..
  show x: "same_page (virt + of_nat x) (virt + of_nat i * PAGE_SIZE) \<longleftrightarrow> x div 4096 = i" if "x < n * 4096" for x
    unfolding p same_page_unat same_large_page_unat
    using off(2,3) [OF that] off(2,3) [OF b [OF assms(2)]] by simp
  show "j < n \<Longrightarrow> same_page (virt + of_nat j * PAGE_SIZE) (virt + of_nat i * PAGE_SIZE) \<longleftrightarrow> j = i"
    unfolding p [of j] by (subst x) simp_all
qed

section \<open>Pages below a table that is there\<close>

lemma table_present:
  assumes "paging_ok s" "indices (ks @ [k])" "table_at (entries_of s) (get_pml4 s) (ks @ [k]) = Some u"
    "table_at (entries_of s) (get_pml4 s) ks = Some t"
  shows "vmm_get_or_create_table t k flags s = Inr (u, s)" "u \<noteq> 0"
proof -
  have k: "indices ks" "k < 512" using assms(2) by (simp_all add: indices_snoc)
  have "is_table (entries_of s t k)" "frame_of (entries_of s t k) = u"
    using assms(3,4) by (auto simp: table_at_append split: if_splits)
  then show "vmm_get_or_create_table t k flags s = Inr (u, s)"
    using table_entry(2) [OF assms(1) k(1) assms(4) k(2)] by (simp add: vmm_get_or_create_table_def is_table_def)
  show "u \<noteq> 0" using paging_okD(4) [OF assms(1,2,3)] by (simp add: table_page_def)
qed

abbreviation upper_path :: "u64 \<Rightarrow> u64 list" where
  "upper_path v \<equiv> [pml4_index v, pdpt_index v, pd_index v]"

definition has_table :: "'a vmm_scheme \<Rightarrow> u64 \<Rightarrow> bool" where
  "has_table s v \<longleftrightarrow> table_at (entries_of s) (get_pml4 s) (upper_path v) \<noteq> None"

lemma has_table_level: "level_of s v = Some 0 \<Longrightarrow> has_table s v"
  by (auto simp: has_table_def level_of_def path_def split: if_splits)

lemma has_table_small: "has_table s v \<Longrightarrow> small_pages s v"
  by (auto simp: has_table_def small_pages_def level_of_def path_def split: if_splits)

lemma has_table_region: "same_large_page v w \<Longrightarrow> has_table s v = has_table s w"
  using path_same_large_page [of v w] by (simp add: has_table_def path_def)

lemma map_in_table:
  assumes "paging_ok s" "has_table s virt" "flags AND PTE_ADDR_MASK = 0"
  shows "\<exists>s'. vmm_map_page virt phys flags s = Inr (0, s') \<and> paging_ok s' \<and> used s' = used s \<and> grown 0 s s' \<and>
    page_mapped s virt phys s' \<and> has_table s' virt"
proof -
  let ?e = "frame_of phys OR flags OR PTE_PRESENT"
  let ?f = "entries_of s" and ?r = "get_pml4 s"
  let ?i4 = "pml4_index virt" and ?i3 = "pdpt_index virt" and ?i2 = "pd_index virt"
  obtain t3 t2 t1 where t: "table_at ?f ?r [] = Some ?r" "table_at ?f ?r [?i4] = Some t3" "table_at ?f ?r [?i4, ?i3] = Some t2"
    "table_at ?f ?r [?i4, ?i3, ?i2] = Some t1"
    using assms(2) by (auto simp: has_table_def split: if_splits)
  note ix = path_prefixes [of virt]
  note g3 = table_present [OF assms(1) _ _ t(1), of ?i4 t3] and g2 = table_present [OF assms(1) _ _ t(2), of ?i3 t2]
    and g1 = table_present [OF assms(1) _ _ t(3), of ?i2 t1]
  obtain u where u: "set_entry t1 (pt_index virt) ?e s = Inr u" "paging_ok u" "used u = used s" "grown 0 s u"
    "page_mapped s virt phys u" "level_of u virt = Some 0"
    using leaf_page [OF assms(1,3) t(4), of phys] by blast
  then show ?thesis
    using g3 g2 g1 ix(1-3) t has_table_level [OF u(6)] by (simp add: vmm_map_page_def)
qed

lemma map_in_region:
  assumes "in_region virt n" "paging_ok s" "has_table s virt" "flags AND PTE_ADDR_MASK = 0" "k \<le> n"
  shows "\<exists>s'. map_pages [k..<n] virt phys flags s = Inr (0, s') \<and> paging_ok s' \<and> used s' = used s \<and> grown 0 s s' \<and>
    (\<forall>v. translation s' v =
      (if \<exists>i. k \<le> i \<and> i < n \<and> same_page v (virt + of_nat i * PAGE_SIZE)
       then frame_of (phys + of_nat (unat v mod 2 ^ 21 div 4096 - unat virt mod 2 ^ 21 div 4096) * PAGE_SIZE) OR (v AND mask 12)
       else translation s v))"
  using assms(5,2,3)
proof (induction k arbitrary: s rule: inc_induct)
  case base
  then show ?case by (auto simp: grown_refl dest: leD)
next
  case (step k)
  let ?v = "virt + of_nat k * PAGE_SIZE" and ?p = "phys + of_nat k * PAGE_SIZE"
  have "has_table s ?v" using step.prems(2) has_table_region [OF region_page(1) [OF assms(1) step.hyps(2)], of s] by simp
  from map_in_table [OF step.prems(1) this assms(4), of ?p] obtain t where t: "vmm_map_page ?v ?p flags s = Inr (0, t)"
    "paging_ok t" "used t = used s" "grown 0 s t" "page_mapped s ?v ?p t" "has_table t ?v" by blast
  have "has_table t virt" using t(6) has_table_region [OF region_page(1) [OF assms(1) step.hyps(2)], of t] by simp
  from step.IH [OF t(2) this] obtain u where u: "map_pages [Suc k..<n] virt phys flags t = Inr (0, u)"
    "paging_ok u" "used u = used t" "grown 0 t u"
    "\<forall>v. translation u v =
      (if \<exists>i. Suc k \<le> i \<and> i < n \<and> same_page v (virt + of_nat i * PAGE_SIZE)
       then frame_of (phys + of_nat (unat v mod 2 ^ 21 div 4096 - unat virt mod 2 ^ 21 div 4096) * PAGE_SIZE) OR (v AND mask 12)
       else translation t v)" by blast
  have idx: "unat v mod 2 ^ 21 div 4096 - unat virt mod 2 ^ 21 div 4096 = k" if "same_page v ?v" for v
  proof -
    have "unat v mod 2 ^ 21 div 4096 = unat ?v mod 2 ^ 21 div 4096" using that unfolding same_page_unat by simp
    then show ?thesis using region_offset(3) [OF assms(1), of "k * 4096"] step.hyps(2) by (simp add: PAGE_SIZE_def)
  qed
  have "(\<exists>i. k \<le> i \<and> i < n \<and> P i) \<longleftrightarrow> P k \<or> (\<exists>i. Suc k \<le> i \<and> i < n \<and> P i)" for P
    using step.hyps(2) by (metis Suc_le_eq le_eq_less_or_eq)
  then have "translation u v =
      (if \<exists>i. k \<le> i \<and> i < n \<and> same_page v (virt + of_nat i * PAGE_SIZE)
       then frame_of (phys + of_nat (unat v mod 2 ^ 21 div 4096 - unat virt mod 2 ^ 21 div 4096) * PAGE_SIZE) OR (v AND mask 12)
       else translation s v)" for v
    using spec [OF u(5), of v] t(5) idx [of v] by (auto simp: page_mapped_def)
  moreover have "[k..<n] = k # [Suc k..<n]" using step.hyps(2) by (simp add: upt_conv_Cons)
  then have "map_pages [k..<n] virt phys flags s = Inr (0, u)" using t(1) u(1) by simp
  ultimately show ?case using u(2,3) t(3) grown_trans [OF t(4) u(4)] by auto
qed

text \<open>The whole range.  What is left when it fails is as for the first page.\<close>

definition range_mapped :: "'a vmm_scheme \<Rightarrow> u64 \<Rightarrow> u64 \<Rightarrow> nat \<Rightarrow> 'a vmm_scheme \<Rightarrow> bool" where
  "range_mapped s virt phys n s' \<longleftrightarrow>
     (\<forall>x < n * 4096. translation s' (virt + of_nat x) = phys + of_nat x) \<and>
     (\<forall>v. (\<forall>x < n * 4096. \<not> same_page v (virt + of_nat x)) \<longrightarrow> translation s' v = translation s v)"

lemma page_of_offset:
  assumes "in_region virt n" "i < n" "same_page v (virt + of_nat i * PAGE_SIZE)"
  shows "\<exists>x < n * 4096. same_page v (virt + of_nat x)"
  using assms(2,3) by (intro exI [of _ "i * 4096"]) (simp add: PAGE_SIZE_def)

lemma frame_or_offset: "frame_of a OR (v AND mask 12) = frame_of a + (v AND mask 12)"
proof -
  have z: "PTE_ADDR_MASK AND mask 12 = 0" by (simp add: PTE_ADDR_MASK_def mask_numeral)
  have "frame_of a AND (v AND mask 12) = 0"
  proof -
    have "frame_of a AND (v AND mask 12) = (a AND v) AND (PTE_ADDR_MASK AND mask 12)" by (simp only: ac_simps)
    then show ?thesis using z by simp
  qed
  then show ?thesis using word_plus_and_or [of "frame_of a" "v AND mask 12"] by simp
qed

lemma frame_offset:
  assumes "unat phys mod 4096 = 0" "unat phys + x < 2 ^ 52" "unat v mod 4096 = x mod 4096"
  shows "frame_of (phys + of_nat (x div 4096) * PAGE_SIZE) OR (v AND mask 12) = phys + of_nat x"
proof -
  let ?p = "unat phys div 4096 + x div 4096"
  have "4096 * ?p \<le> unat phys + x" by (simp add: distrib_left add_mono)
  then have "4096 * ?p < 4096 * 2 ^ 40" using assms(2) by simp
  then have p: "?p < 2 ^ 40" by simp
  have "of_nat (unat phys div 4096) * PAGE_SIZE = of_nat (unat phys div 4096 * 4096)" by (simp add: PAGE_SIZE_def)
  also have "unat phys div 4096 * 4096 = unat phys" using assms(1) by (simp add: mod_eq_0_iff_dvd)
  finally have ph: "of_nat (unat phys div 4096) * PAGE_SIZE = phys" by simp
  have f: "phys + of_nat (x div 4096) * PAGE_SIZE = of_nat ?p * PAGE_SIZE" unfolding of_nat_add distrib_right ph ..
  have "v AND mask 12 = take_bit 12 v" by (rule take_bit_eq_mask [symmetric])
  also have "\<dots> = of_nat (unat (take_bit 12 v))" by simp
  also have "unat (take_bit 12 v) = unat v mod 2 ^ 12" by (simp only: unsigned_take_bit_eq) (simp only: take_bit_eq_mod)
  finally have v: "v AND mask 12 = of_nat (x mod 4096)" using assms(3) by simp
  have "frame_of (of_nat ?p * PAGE_SIZE) OR (v AND mask 12) = of_nat ?p * PAGE_SIZE + of_nat (x mod 4096)"
    using frame_or_offset [of "of_nat ?p * PAGE_SIZE" v] unfolding page_frame(1) [OF p] v .
  also have "\<dots> = phys + (of_nat (x div 4096) * 4096 + of_nat (x mod 4096))"
    unfolding f [symmetric] by (simp add: PAGE_SIZE_def)
  also have "of_nat (x div 4096) * 4096 + of_nat (x mod 4096) = (of_nat (x div 4096 * 4096 + x mod 4096) :: u64)"
    by (simp only: of_nat_add of_nat_mult of_nat_numeral)
  finally show ?thesis unfolding f by simp
qed

lemma range_pages:
  assumes "n \<le> 512"
  shows "unat ((of_nat n * PAGE_SIZE + PAGE_SIZE - 1) div PAGE_SIZE) = n"
proof -
  have e: "of_nat n * PAGE_SIZE + PAGE_SIZE - 1 = of_nat (n * 4096 + 4095)" by (simp add: PAGE_SIZE_def)
  have u: "unat (of_nat (n * 4096 + 4095) :: u64) = n * 4096 + 4095" unfolding unat_of_nat using assms by simp
  show ?thesis unfolding e unat_div_distrib u by (simp add: PAGE_SIZE_def)
qed

text \<open>For any frame address, also one in the middle of a page.\<close>

lemma map_range_runs:
  assumes R: "in_region virt n" and n: "0 < n" and s: "paging_ok s" "small_pages s virt" and fl: "flags AND PTE_ADDR_MASK = 0"
    and low: "3 \<le> card ({..<low_pages s} - used s)"
  shows "\<exists>s'. vmm_map_range virt phys (of_nat n * PAGE_SIZE) flags s = Inr (0, s') \<and> paging_ok s' \<and> grown 3 s s' \<and>
    (\<forall>x < n * 4096. translation s' (virt + of_nat x) =
       frame_of (phys + of_nat (x div 4096) * PAGE_SIZE) OR ((virt + of_nat x) AND mask 12)) \<and>
    (\<forall>v. (\<forall>x < n * 4096. \<not> same_page v (virt + of_nat x)) \<longrightarrow> translation s' v = translation s v)"
proof -
  have "{..<low_pages s} - used s \<subseteq> {..<searched s} - used s" by (auto simp: low_pages_def)
  then have "3 \<le> card ({..<searched s} - used s)" using low card_mono by (metis finite_Diff finite_lessThan le_trans)
  then have "\<not> fails_with 2 s (vmm_map_page virt phys flags s)" using low by (auto simp: fails_with_def)
  then obtain t where t: "vmm_map_page virt phys flags s = Inr (0, t)" "paging_ok t" "grown 3 s t"
    "page_mapped s virt phys t" "level_of t virt = Some 0"
    using map_page_runs [OF s fl, of phys] by blast
  obtain u where u: "map_pages [1..<n] virt phys flags t = Inr (0, u)" "paging_ok u" "used u = used t" "grown 0 t u"
    "\<forall>v. translation u v =
      (if \<exists>i. 1 \<le> i \<and> i < n \<and> same_page v (virt + of_nat i * PAGE_SIZE)
       then frame_of (phys + of_nat (unat v mod 2 ^ 21 div 4096 - unat virt mod 2 ^ 21 div 4096) * PAGE_SIZE) OR (v AND mask 12)
       else translation t v)"
    using map_in_region [OF R t(2) has_table_level [OF t(5)] fl, of 1 phys] n by auto
  have nb: "n \<le> 512" using R unfolding in_region_def by simp
  have "[0..<n] = 0 # [1..<n]" using n by (simp add: upt_conv_Cons)
  then have "vmm_map_range virt phys (of_nat n * PAGE_SIZE) flags s = Inr (0, u)"
    using t(1) u(1) unfolding vmm_map_range_def Let_def range_pages [OF nb] by simp
  moreover have "translation u (virt + of_nat x) =
      frame_of (phys + of_nat (x div 4096) * PAGE_SIZE) OR ((virt + of_nat x) AND mask 12)" if x: "x < n * 4096" for x
  proof -
    let ?v = "virt + of_nat x"
    note off = region_offset [OF R x]
    have pg: "same_page ?v (virt + of_nat i * PAGE_SIZE) \<longleftrightarrow> i = x div 4096" if "i < n" for i
      using region_page(2) [OF R that x] by auto
    show ?thesis
    proof (cases "x div 4096 = 0")
      case True
      have one: "same_page ?v virt" using True pg [of 0] n by simp
      have "\<not> (\<exists>i. 1 \<le> i \<and> i < n \<and> same_page ?v (virt + of_nat i * PAGE_SIZE))" using True pg by auto
      from spec [OF u(5), of ?v, unfolded if_not_P [OF this]] show ?thesis
        using one t(4) True by (simp add: page_mapped_def)
    next
      case False
      moreover have "x div 4096 < n" using x by (simp add: less_mult_imp_div_less)
      ultimately have "\<exists>i. 1 \<le> i \<and> i < n \<and> same_page ?v (virt + of_nat i * PAGE_SIZE)"
        using pg by (intro exI [of _ "x div 4096"]) simp
      then show ?thesis using u(5) off(3) by simp
    qed
  qed
  moreover have "translation u v = translation s v" if "\<forall>x < n * 4096. \<not> same_page v (virt + of_nat x)" for v
  proof -
    have "\<not> same_page v (virt + of_nat i * PAGE_SIZE)" if "i < n" for i
      using page_of_offset [OF R that] \<open>\<forall>x < n * 4096. \<not> same_page v (virt + of_nat x)\<close> by blast
    moreover from this [of 0] have "\<not> same_page v virt" using n by simp
    ultimately show ?thesis
      using u(5) t(4) by (auto simp: page_mapped_def)
  qed
  ultimately show ?thesis using u(2) grown_trans [OF t(3) u(4)] by auto
qed

lemma map_range_ok:
  assumes "in_region virt n" "0 < n" "paging_ok s" "small_pages s virt" "flags AND PTE_ADDR_MASK = 0"
    and phys: "unat phys mod 4096 = 0" "unat phys + n * 4096 \<le> 2 ^ 52" and low: "3 \<le> card ({..<low_pages s} - used s)"
  shows "\<exists>s'. vmm_map_range virt phys (of_nat n * PAGE_SIZE) flags s = Inr (0, s') \<and> paging_ok s' \<and> grown 3 s s' \<and>
    range_mapped s virt phys n s'"
proof -
  have "frame_of (phys + of_nat (x div 4096) * PAGE_SIZE) OR ((virt + of_nat x) AND mask 12) = phys + of_nat x"
    if "x < n * 4096" for x
    using frame_offset [OF phys(1) _ region_offset(4) [OF assms(1) that]] phys(2) that by simp
  then show ?thesis using map_range_runs [OF assms(1-5) low, of phys] by (auto simp: range_mapped_def)
qed

section \<open>Properties\<close>

text \<open>C10. Mapping a range of pages that lies in one region of 2 MB.  While three pages below 4 MB are
  free, \<open>vmm_map_range\<close> succeeds, takes at most three pages for tables however long the range
  is, and afterwards every address of the range is translated to its own offset from \<open>phys\<close> and
  every address on another page as before.\<close>

theorem vmm_map_range_maps:
  assumes "paging_ok s" "small_pages s virt" "flags AND PTE_ADDR_MASK = 0" "in_region virt n" "0 < n"
    and "unat phys mod 4096 = 0" "unat phys + n * 4096 \<le> 2 ^ 52" "3 \<le> card ({..<low_pages s} - used s)"
  shows "\<exists>s'. vmm_map_range virt phys (of_nat n * PAGE_SIZE) flags s = Inr (0, s') \<and> paging_ok s' \<and>
    used s \<subseteq> used s' \<and> card (used s' - used s) \<le> 3 \<and>
    (\<forall>x < n * 4096. vmm_get_phys (virt + of_nat x) s' = Inr (phys + of_nat x)) \<and>
    (\<forall>v. (\<forall>x < n * 4096. \<not> same_page v (virt + of_nat x)) \<longrightarrow> vmm_get_phys v s' = vmm_get_phys v s)"
proof -
  obtain s' where s': "vmm_map_range virt phys (of_nat n * PAGE_SIZE) flags s = Inr (0, s')" "paging_ok s'" "grown 3 s s'"
    "range_mapped s virt phys n s'" using map_range_ok [OF assms(4,5,1,2,3,6,7,8)] by blast
  then show ?thesis
    using get_phys_translation [OF assms(1)] get_phys_translation [OF s'(2)] by (auto simp: range_mapped_def grown_def)
qed

theorem vmm_map_range_maps_witness:
  "\<exists>s'. vmm_map_range 0x400000 0x9000 (of_nat 256 * PAGE_SIZE) 2 vmm_demo = Inr (0, s') \<and>
     vmm_get_phys 0x4FFABC s' = Inr 0x108ABC \<and> vmm_get_phys 0x500000 s' = Inr (- 1)"
proof -
  have R: "in_region 0x400000 256" by (simp add: in_region_def)
  have c: "0 < (256 :: nat)" "unat (0x9000 :: u64) mod 4096 = 0" "unat (0x9000 :: u64) + 256 * 4096 \<le> 2 ^ 52"
    "3 \<le> card ({..<low_pages vmm_demo} - used vmm_demo)" using vmm_demo_start(4) by simp_all
  obtain s' where s': "vmm_map_range 0x400000 0x9000 (of_nat 256 * PAGE_SIZE) 2 vmm_demo = Inr (0, s')"
    "\<forall>x < 256 * 4096. vmm_get_phys (0x400000 + of_nat x) s' = Inr (0x9000 + of_nat x)"
    "\<forall>v. (\<forall>x < 256 * 4096. \<not> same_page v (0x400000 + of_nat x)) \<longrightarrow> vmm_get_phys v s' = vmm_get_phys v vmm_demo"
    using vmm_map_range_maps [OF vmm_demo_ok(1) vmm_demo_start(1,5) R c] by (elim exE conjE) (rule that)
  have "\<not> same_page 0x500000 (0x400000 + of_nat x)" if "x < 256 * 4096" for x
    proof -
    have a: "unat (0x500000 :: u64) mod 2 ^ 21 div 4096 = 256" "unat (0x400000 :: u64) mod 2 ^ 21 div 4096 = 0" by simp_all
    have "x div 4096 < 256" using that by (rule less_mult_imp_div_less)
    then show ?thesis using region_offset(3) [OF R that] unfolding same_page_unat a by linarith
  qed
  then have "vmm_get_phys 0x500000 s' = Inr (- 1)" using spec [OF s'(3), of "0x500000"] unfolding vmm_demo_start(2) by (elim mp) simp
  moreover have "vmm_get_phys 0x4FFABC s' = Inr 0x108ABC" using spec [OF s'(2), of "0xFFABC"] by simp
  ultimately show ?thesis using s'(1) by blast
qed


end
