(* ===== verification/Loader.thy ===== *)
theory Loader
  imports Ranges
begin

text \<open>
  The page tables the boot loader leaves behind (\<open>setup_paging\<close> in \<open>boot/paging.asm\<close>): the
  stores of the routine, in 32-bit code before paging is on, and the map from addresses to
  frames that they amount to.
\<close>

section \<open>The routine\<close>

definition PML4_ADDR :: u64 where "PML4_ADDR = 0x70000"
definition PDPT_IDENT_ADDR :: u64 where "PDPT_IDENT_ADDR = 0x71000"
definition PD_IDENT_ADDR :: u64 where "PD_IDENT_ADDR = 0x72000"
definition PDPT_HIGHER_ADDR :: u64 where "PDPT_HIGHER_ADDR = 0x73000"
definition PD_HIGHER_ADDR :: u64 where "PD_HIGHER_ADDR = 0x74000"

definition PAGE_RW :: u32 where "PAGE_RW = 3"
definition PAGE_RW_HUGE :: u32 where "PAGE_RW_HUGE = 0x83"

text \<open>\<open>rep stosd\<close> with \<open>ecx\<close> as its first argument.\<close>

fun rep_stosd :: "nat \<Rightarrow> u64 \<Rightarrow> u32 \<Rightarrow> memory \<Rightarrow> memory res" where
  "rep_stosd 0 edi eax m = Inr m"
| "rep_stosd (Suc ecx) edi eax m = rbind (wr32 m edi eax) (\<lambda>m. rep_stosd ecx (edi + 4) eax m)"

text \<open>An entry is two stores: its low half from \<open>eax\<close>, its high half 0.\<close>

definition store_entry :: "u64 \<Rightarrow> u32 \<Rightarrow> memory \<Rightarrow> memory res" where
  "store_entry a eax m = rbind (wr32 m a eax) (\<lambda>m. wr32 m (a + 4) 0)"

fun higher_loop :: "nat \<Rightarrow> u64 \<Rightarrow> u32 \<Rightarrow> memory \<Rightarrow> memory res" where
  "higher_loop 0 edi eax m = Inr m"
| "higher_loop (Suc ecx) edi eax m =
     rbind (store_entry edi eax m) (\<lambda>m. higher_loop ecx (edi + 8) (eax + 0x200000) m)"

text \<open>The second result is the value loaded into \<open>cr3\<close>.\<close>

definition setup_paging :: "memory \<Rightarrow> (memory \<times> u64) res" where
  "setup_paging m =
     rbind (rep_stosd (5 * 4096 div 4) PML4_ADDR 0 m) (\<lambda>m.
     rbind (store_entry (PML4_ADDR + 0 * 8) (ucast PDPT_IDENT_ADDR OR PAGE_RW) m) (\<lambda>m.
     rbind (store_entry (PML4_ADDR + 256 * 8) (ucast PDPT_HIGHER_ADDR OR PAGE_RW) m) (\<lambda>m.
     rbind (store_entry (PDPT_IDENT_ADDR + 0 * 8) (ucast PD_IDENT_ADDR OR PAGE_RW) m) (\<lambda>m.
     rbind (store_entry (PD_IDENT_ADDR + 0 * 8) (0x000000 OR PAGE_RW_HUGE) m) (\<lambda>m.
     rbind (store_entry (PD_IDENT_ADDR + 1 * 8) (0x200000 OR PAGE_RW_HUGE) m) (\<lambda>m.
     rbind (store_entry (PDPT_HIGHER_ADDR + 0 * 8) (ucast PD_HIGHER_ADDR OR PAGE_RW) m) (\<lambda>m.
     rbind (higher_loop 16 PD_HIGHER_ADDR PAGE_RW_HUGE m) (\<lambda>m.
     Inr (m, PML4_ADDR)))))))))"

section \<open>The tables\<close>

lemma rep_stosd_mapped:
  assumes "mapped m a (4 * n)" "unat a + 4 * n \<le> 2 ^ 64"
  shows "rep_stosd n a 0 m = Inr (mem_upd m a (replicate (4 * n) 0))"
  using assms
proof (induction n arbitrary: m a)
  case 0
  then show ?case by (simp add: mem_upd_def)
next
  case (Suc n)
  have w: "wr32 m a 0 = Inr (mem_upd m a (replicate 4 0))"
    using Suc.prems(1) by (simp add: wr32_mapped mapped_part eval_nat_numeral)
  show ?case
  proof (cases n)
    case 0
    then show ?thesis using w by simp
  next
    case (Suc k)
    then have u: "unat (a + 4) = unat a + 4" using Suc.prems(2) by (simp add: unat_add_numeral)
    have "mapped m (a + 4) (4 * n)" by (rule mapped_sub [OF Suc.prems(1)]) (use u Suc.prems(2) in simp_all)
    then have m4: "mapped (mem_upd m a (replicate 4 0)) (a + 4) (4 * n)" by (rule mapped_mem_upd)
    have "rep_stosd n (a + 4) 0 (mem_upd m a (replicate 4 0)) =
        Inr (mem_upd (mem_upd m a (replicate 4 0)) (a + 4) (replicate (4 * n) 0))"
      by (rule Suc.IH [OF m4]) (use u Suc.prems(2) in simp)
    also have "mem_upd (mem_upd m a (replicate 4 0)) (a + 4) (replicate (4 * n) 0) = mem_upd m a (replicate (4 * Suc n) 0)"
      using mem_upd_append [of "replicate 4 0" "replicate (4 * n) 0" m a] Suc.prems(2) by (simp add: replicate_add [symmetric])
    finally show ?thesis using w by simp
  qed
qed

lemma bytes_of_word_add: "bytes_of_word (n + k) w = bytes_of_word n w @ bytes_of_word k (drop_bit (8 * n) w)"
  by (induction n arbitrary: w) (simp_all add: add.commute)

lemma store_entry_mapped:
  assumes "mapped m a 8" "unat a + 8 \<le> 2 ^ 64"
  shows "store_entry a e m = Inr (mem_upd m a (bytes_of_word 8 (ucast e)))"
proof -
  have w: "wr32 m a e = Inr (mem_upd m a (bytes_of_word 4 (ucast e)))"
    by (rule wr32_mapped [OF mapped_part [OF assms(1)]]) simp
  have "mapped m (a + 4) 4" by (rule mapped_sub [OF assms(1)]) (use assms(2) in \<open>simp_all add: unat_add_numeral\<close>)
  then have "wr32 (mem_upd m a (bytes_of_word 4 (ucast e))) (a + 4) 0 =
      Inr (mem_upd (mem_upd m a (bytes_of_word 4 (ucast e))) (a + 4) (bytes_of_word 4 0))"
    using wr32_mapped [OF mapped_mem_upd, of m "a + 4" a "bytes_of_word 4 (ucast e)" 0] by simp
  also have "mem_upd (mem_upd m a (bytes_of_word 4 (ucast e))) (a + 4) (bytes_of_word 4 0) =
      mem_upd m a (bytes_of_word 4 (ucast e) @ bytes_of_word 4 0)"
    using mem_upd_append [of "bytes_of_word 4 (ucast e)" "bytes_of_word 4 0" m a] assms(2) by simp
  also have "bytes_of_word 4 (ucast e) @ bytes_of_word 4 0 = bytes_of_word 8 (ucast e)"
  proof -
    have "drop_bit 32 (ucast e :: u64) = 0" by (rule bit_eqI) (auto simp: bit_simps dest: bit_imp_le_length)
    then show ?thesis using bytes_of_word_add [of 4 4 "ucast e"] by simp
  qed
  finally show ?thesis using w by (simp add: store_entry_def)
qed

lemma pte_cleared:
  assumes "j < 512" "frame_of a = a" "frame_of u = u"
  shows "pte (mem_upd m a (replicate 4096 0)) u j = (if u = a then 0 else pte m u j)"
  using pte_zeroed [OF assms(1), of m a u] assms(2,3) by simp

lemma pte_stored:
  assumes "k < 512" "j < 512" "frame_of t = t" "frame_of u = u"
  shows "pte (mem_upd m (t + 8 * k) (bytes_of_word 8 v)) u j = (if u = t \<and> j = k then v else pte m u j)"
  using pte_upd [OF assms(1,2), of m t v u] assms(3,4) by simp

text \<open>The tables occupy five pages, and the routine writes nothing else.\<close>

definition boot_table :: "u64 \<Rightarrow> bool" where
  "boot_table t \<longleftrightarrow> t \<in> {PML4_ADDR, PDPT_IDENT_ADDR, PD_IDENT_ADDR, PDPT_HIGHER_ADDR, PD_HIGHER_ADDR}"

definition in_tables :: "u64 \<Rightarrow> bool" where
  "in_tables x \<longleftrightarrow> 0x70000 \<le> unat x \<and> unat x < 0x75000"

lemmas table_addrs = PML4_ADDR_def PDPT_IDENT_ADDR_def PD_IDENT_ADDR_def PDPT_HIGHER_ADDR_def PD_HIGHER_ADDR_def

lemma boot_table_bounds:
  assumes "boot_table t"
  shows "frame_of t = t" "0x70000 \<le> unat t" "unat t + 4096 \<le> 0x75000"
  using assms by (auto simp: boot_table_def table_addrs PTE_ADDR_MASK_def)

text \<open>One entry stored into one of the tables.\<close>

definition entry_step :: "u64 \<Rightarrow> u64 \<Rightarrow> u64 \<Rightarrow> memory \<Rightarrow> memory \<Rightarrow> bool" where
  "entry_step t k e m m' \<longleftrightarrow>
     mapped m' PML4_ADDR 0x5000 \<and> (\<forall>x. \<not> in_tables x \<longrightarrow> m' x = m x) \<and>
     (\<forall>u j. frame_of u = u \<longrightarrow> j < 512 \<longrightarrow> pte m' u j = (if u = t \<and> j = k then e else pte m u j))"

lemma entry_stepD:
  "entry_step t k e m m' \<Longrightarrow> frame_of u = u \<Longrightarrow> j < 512 \<Longrightarrow> pte m' u j = (if u = t \<and> j = k then e else pte m u j)"
  by (simp add: entry_step_def)

lemma store_entry_step:
  assumes "mapped m PML4_ADDR 0x5000" "boot_table t" "k < 512"
  shows "\<exists>m'. store_entry (t + 8 * k) e m = Inr m' \<and> entry_step t k (ucast e) m m'"
proof -
  note t = boot_table_bounds [OF assms(2)]
  have u: "unat (t + 8 * k) = unat t + 8 * unat k" "8 * unat k + 8 \<le> 4096"
    using entry_offset(1) [OF assms(3), of t] entry_offset(2) [OF assms(3)] t(1) by simp_all
  have "mapped m (t + 8 * k) 8"
    by (rule mapped_sub [OF assms(1)]) (use t u in \<open>simp_all add: PML4_ADDR_def\<close>)
  then have "store_entry (t + 8 * k) e m = Inr (mem_upd m (t + 8 * k) (bytes_of_word 8 (ucast e)))"
    using t u by (intro store_entry_mapped) simp_all
  moreover have "mem_upd m (t + 8 * k) (bytes_of_word 8 (ucast e)) x = m x" if "\<not> in_tables x" for x
  proof -
    have "\<not> unat (x - (t + 8 * k)) < 8"
      using that t u by (auto simp: in_tables_def unat_sub_if')
    then show ?thesis by (simp add: mem_upd_def)
  qed
  ultimately show ?thesis
    using mapped_mem_upd [OF assms(1)] pte_stored [OF assms(3) _ t(1)] by (auto simp: entry_step_def)
qed

lemma clear_tables:
  assumes "mapped m PML4_ADDR 0x5000"
  shows "\<exists>m'. rep_stosd (5 * 4096 div 4) PML4_ADDR 0 m = Inr m' \<and> mapped m' PML4_ADDR 0x5000 \<and>
    (\<forall>x. \<not> in_tables x \<longrightarrow> m' x = m x) \<and> (\<forall>u j. boot_table u \<longrightarrow> j < 512 \<longrightarrow> pte m' u j = 0)"
proof -
  let ?z = "replicate 4096 (0 :: u8)"
  let ?m = "mem_upd m PML4_ADDR (replicate 0x5000 0)"
  have "rep_stosd (5 * 4096 div 4) PML4_ADDR 0 m = Inr ?m"
    using rep_stosd_mapped [of m PML4_ADDR "5 * 4096 div 4"] assms by (simp add: PML4_ADDR_def)
  moreover have "?m x = m x" if "\<not> in_tables x" for x
    using that by (auto simp: in_tables_def mem_upd_def PML4_ADDR_def unat_sub_if')
  moreover have "pte ?m u j = 0" if "boot_table u" "j < 512" for u j
  proof -
    have cut: "mem_upd n a (replicate (4096 + k) 0) = mem_upd (mem_upd n a ?z) (a + 0x1000) (replicate k 0)"
      if "4096 + k \<le> 2 ^ 64" for n a k
      using mem_upd_append [of ?z "replicate k 0" n a] that by (simp add: replicate_add)
    have "?m = mem_upd (mem_upd (mem_upd (mem_upd (mem_upd m PML4_ADDR ?z) PDPT_IDENT_ADDR ?z) PD_IDENT_ADDR ?z) PDPT_HIGHER_ADDR ?z) PD_HIGHER_ADDR ?z"
      using cut [where k = "0x4000" and a = "0x70000"] cut [where k = "0x3000" and a = "0x71000"]
        cut [where k = "0x2000" and a = "0x72000"] cut [where k = "0x1000" and a = "0x73000"]
      by (simp add: table_addrs)
    moreover have "frame_of PML4_ADDR = PML4_ADDR" "frame_of PDPT_IDENT_ADDR = PDPT_IDENT_ADDR" "frame_of PD_IDENT_ADDR = PD_IDENT_ADDR"
      "frame_of PDPT_HIGHER_ADDR = PDPT_HIGHER_ADDR" "frame_of PD_HIGHER_ADDR = PD_HIGHER_ADDR"
      by (simp_all add: table_addrs PTE_ADDR_MASK_def)
    ultimately show ?thesis
      using that boot_table_bounds(1) [OF that(1)] by (auto simp: pte_cleared boot_table_def)
  qed
  ultimately show ?thesis using mapped_mem_upd [OF assms] by auto
qed

lemma higher_loop_entries:
  assumes "mapped m PML4_ADDR 0x5000" "boot_table t" "k + n \<le> 512"
  shows "\<exists>m'. higher_loop n (t + 8 * of_nat k) e m = Inr m' \<and> mapped m' PML4_ADDR 0x5000 \<and> (\<forall>x. \<not> in_tables x \<longrightarrow> m' x = m x) \<and>
    (\<forall>u j. frame_of u = u \<longrightarrow> j < 512 \<longrightarrow> pte m' u j =
       (if u = t \<and> k \<le> unat j \<and> unat j < k + n then ucast (e + of_nat (unat j - k) * 0x200000) else pte m u j))"
  using assms(1,3)
proof (induction n arbitrary: k e m)
  case 0
  then show ?case by auto
next
  case (Suc n)
  have k: "(of_nat k :: u64) < 512" "unat (of_nat k :: u64) = k"
    using Suc.prems(2) by (simp_all add: word_less_nat_alt unat_of_nat)
  obtain m1 where m1: "store_entry (t + 8 * of_nat k) e m = Inr m1" "entry_step t (of_nat k) (ucast e) m m1"
    using store_entry_step [OF Suc.prems(1) assms(2) k(1)] by blast
  have mp: "mapped m1 PML4_ADDR 0x5000" using m1(2) by (simp add: entry_step_def)
  have "t + 8 * of_nat k + 8 = t + 8 * of_nat (Suc k)" by simp
  with Suc.IH [OF mp, of "Suc k" "e + 0x200000"] Suc.prems(2) obtain m' where
    m': "higher_loop n (t + 8 * of_nat k + 8) (e + 0x200000) m1 = Inr m'" "mapped m' PML4_ADDR 0x5000"
      "\<forall>x. \<not> in_tables x \<longrightarrow> m' x = m1 x"
      "\<forall>u j. frame_of u = u \<longrightarrow> j < 512 \<longrightarrow> pte m' u j =
         (if u = t \<and> Suc k \<le> unat j \<and> unat j < Suc k + n then ucast (e + 0x200000 + of_nat (unat j - Suc k) * 0x200000)
          else pte m1 u j)" by auto
  have "pte m' u j = (if u = t \<and> k \<le> unat j \<and> unat j < k + Suc n then ucast (e + of_nat (unat j - k) * 0x200000) else pte m u j)"
    if "frame_of u = u" "j < 512" for u j
  proof -
    have p1: "pte m1 u j = (if u = t \<and> j = of_nat k then ucast e else pte m u j)" using m1(2) that by (simp add: entry_step_def)
    have jk: "j = of_nat k \<longleftrightarrow> unat j = k" using k(2) by (metis word_unat_eq_iff)
    have step: "e + 0x200000 + of_nat (unat j - Suc k) * 0x200000 = e + of_nat (unat j - k) * 0x200000" if "Suc k \<le> unat j"
    proof -
      have "unat j - k = Suc (unat j - Suc k)" using that by simp
      then show ?thesis by (simp add: algebra_simps)
    qed
    consider "unat j < k" | "unat j = k" | "Suc k \<le> unat j" by linarith
    then show ?thesis
    proof cases
      case 3
      then have "pte m' u j = (if u = t \<and> unat j < Suc k + n then ucast (e + of_nat (unat j - k) * 0x200000) else pte m1 u j)"
        using m'(4) that step [OF 3] by simp
      then show ?thesis using p1 jk 3 by auto
    qed (use m'(4) that p1 jk in auto)
  qed
  moreover have "\<forall>x. \<not> in_tables x \<longrightarrow> m' x = m x" using m'(3) m1(2) by (simp add: entry_step_def)
  ultimately show ?case using m1(1) m'(1,2) by auto
qed

text \<open>The entries the routine leaves: five tables, two large pages under the first address and
  sixteen under the address of the kernel.\<close>

definition boot_entries :: entries where
  "boot_entries t k =
     (if t = PML4_ADDR \<and> k = 0 then 0x71003
      else if t = PML4_ADDR \<and> k = 256 then 0x73003
      else if t = PDPT_IDENT_ADDR \<and> k = 0 then 0x72003
      else if t = PDPT_HIGHER_ADDR \<and> k = 0 then 0x74003
      else if t = PD_IDENT_ADDR \<and> k < 2 \<or> t = PD_HIGHER_ADDR \<and> k < 16 then 0x83 + k * 0x200000
      else 0)"

lemma small_cases:
  fixes k :: u64
  assumes "k < 16"
  shows "k \<in> {0, 1, 2, 3, 4, 5, 6, 7, 8, 9, 10, 11, 12, 13, 14, 15}"
proof -
  have "unat k < 16" using assms by (simp add: word_less_nat_alt)
  then have "unat k \<in> {0, 1, 2, 3, 4, 5, 6, 7, 8, 9, 10, 11, 12, 13, 14, 15}" by (auto simp: numeral_eq_Suc less_Suc_eq)
  then show ?thesis by (simp add: word_unat_eq_iff)
qed

lemma setup_paging_entries:
  assumes "mapped m PML4_ADDR 0x5000"
  shows "\<exists>m'. setup_paging m = Inr (m', PML4_ADDR) \<and> mapped m' PML4_ADDR 0x5000 \<and> (\<forall>x. \<not> in_tables x \<longrightarrow> m' x = m x) \<and>
    (\<forall>u j. boot_table u \<longrightarrow> j < 512 \<longrightarrow> pte m' u j = boot_entries u j)"
proof -
  have tb: "boot_table PML4_ADDR" "boot_table PDPT_IDENT_ADDR" "boot_table PD_IDENT_ADDR" "boot_table PDPT_HIGHER_ADDR"
    "boot_table PD_HIGHER_ADDR" by (simp_all add: boot_table_def)
  have mp: "entry_step t k e a b \<Longrightarrow> mapped b PML4_ADDR 0x5000" for t k e a b by (simp add: entry_step_def)
  obtain m0 where m0: "rep_stosd (5 * 4096 div 4) PML4_ADDR 0 m = Inr m0" "mapped m0 PML4_ADDR 0x5000"
    "\<forall>x. \<not> in_tables x \<longrightarrow> m0 x = m x" "\<forall>u j. boot_table u \<longrightarrow> j < 512 \<longrightarrow> pte m0 u j = 0"
    using clear_tables [OF assms] by blast
  obtain m1 where m1: "store_entry (PML4_ADDR + 8 * 0) (ucast PDPT_IDENT_ADDR OR PAGE_RW) m0 = Inr m1"
    "entry_step PML4_ADDR 0 (ucast (ucast PDPT_IDENT_ADDR OR PAGE_RW)) m0 m1" using store_entry_step [OF m0(2) tb(1), of 0] by auto
  obtain m2 where m2: "store_entry (PML4_ADDR + 8 * 256) (ucast PDPT_HIGHER_ADDR OR PAGE_RW) m1 = Inr m2"
    "entry_step PML4_ADDR 256 (ucast (ucast PDPT_HIGHER_ADDR OR PAGE_RW)) m1 m2" using store_entry_step [OF mp [OF m1(2)] tb(1), of 256] by auto
  obtain m3 where m3: "store_entry (PDPT_IDENT_ADDR + 8 * 0) (ucast PD_IDENT_ADDR OR PAGE_RW) m2 = Inr m3"
    "entry_step PDPT_IDENT_ADDR 0 (ucast (ucast PD_IDENT_ADDR OR PAGE_RW)) m2 m3" using store_entry_step [OF mp [OF m2(2)] tb(2), of 0] by auto
  obtain m4 where m4: "store_entry (PD_IDENT_ADDR + 8 * 0) (0 OR PAGE_RW_HUGE) m3 = Inr m4"
    "entry_step PD_IDENT_ADDR 0 (ucast (0 OR PAGE_RW_HUGE)) m3 m4" using store_entry_step [OF mp [OF m3(2)] tb(3), of 0] by auto
  obtain m5 where m5: "store_entry (PD_IDENT_ADDR + 8 * 1) (0x200000 OR PAGE_RW_HUGE) m4 = Inr m5"
    "entry_step PD_IDENT_ADDR 1 (ucast (0x200000 OR PAGE_RW_HUGE)) m4 m5" using store_entry_step [OF mp [OF m4(2)] tb(3), of 1] by auto
  obtain m6 where m6: "store_entry (PDPT_HIGHER_ADDR + 8 * 0) (ucast PD_HIGHER_ADDR OR PAGE_RW) m5 = Inr m6"
    "entry_step PDPT_HIGHER_ADDR 0 (ucast (ucast PD_HIGHER_ADDR OR PAGE_RW)) m5 m6" using store_entry_step [OF mp [OF m5(2)] tb(4), of 0] by auto
  obtain m7 where m7: "higher_loop 16 PD_HIGHER_ADDR PAGE_RW_HUGE m6 = Inr m7" "mapped m7 PML4_ADDR 0x5000"
    "\<forall>x. \<not> in_tables x \<longrightarrow> m7 x = m6 x"
    "\<forall>u j. frame_of u = u \<longrightarrow> j < 512 \<longrightarrow> pte m7 u j =
       (if u = PD_HIGHER_ADDR \<and> unat j < 16 then ucast (PAGE_RW_HUGE + of_nat (unat j) * 0x200000) else pte m6 u j)"
    using higher_loop_entries [OF mp [OF m6(2)] tb(5), of 0 16 PAGE_RW_HUGE] by auto
  have "setup_paging m = Inr (m7, PML4_ADDR)"
    using m0(1) m1(1) m2(1) m3(1) m4(1) m5(1) m6(1) m7(1) by (simp add: setup_paging_def)
  moreover have "\<forall>x. \<not> in_tables x \<longrightarrow> m7 x = m x"
    using m0(3) m1(2) m2(2) m3(2) m4(2) m5(2) m6(2) m7(3) by (simp add: entry_step_def)
  moreover have "pte m7 u j = boot_entries u j" if "boot_table u" "j < 512" for u j
  proof -
    have v: "ucast (ucast PDPT_IDENT_ADDR OR PAGE_RW) = (0x71003 :: u64)" "ucast (ucast PDPT_HIGHER_ADDR OR PAGE_RW) = (0x73003 :: u64)"
      "ucast (ucast PD_IDENT_ADDR OR PAGE_RW) = (0x72003 :: u64)" "ucast (ucast PD_HIGHER_ADDR OR PAGE_RW) = (0x74003 :: u64)"
      "ucast (0 OR PAGE_RW_HUGE) = (0x83 :: u64)" "ucast (0x200000 OR PAGE_RW_HUGE) = (0x200083 :: u64)"
      by (simp_all add: PAGE_RW_def PAGE_RW_HUGE_def table_addrs)
    note fr = boot_table_bounds(1) [OF that(1)]
    have steps: "pte m7 u j =
        (if u = PD_HIGHER_ADDR \<and> unat j < 16 then ucast (PAGE_RW_HUGE + of_nat (unat j) * 0x200000)
         else if u = PDPT_HIGHER_ADDR \<and> j = 0 then 0x74003 else if u = PD_IDENT_ADDR \<and> j = 1 then 0x200083
         else if u = PD_IDENT_ADDR \<and> j = 0 then 0x83 else if u = PDPT_IDENT_ADDR \<and> j = 0 then 0x72003
         else if u = PML4_ADDR \<and> j = 256 then 0x73003 else if u = PML4_ADDR \<and> j = 0 then 0x71003 else 0)"
      using m0(4) that
      unfolding m7(4) [rule_format, OF fr that(2)] entry_stepD [OF m6(2) fr that(2)] entry_stepD [OF m5(2) fr that(2)] entry_stepD [OF m4(2) fr that(2)]
        entry_stepD [OF m3(2) fr that(2)] entry_stepD [OF m2(2) fr that(2)] entry_stepD [OF m1(2) fr that(2)] v
      by simp
    have "ucast (PAGE_RW_HUGE + of_nat (unat j) * 0x200000) = 0x83 + j * 0x200000" if "j < 16"
      using small_cases [OF that] by (auto simp: PAGE_RW_HUGE_def)
    moreover have "unat j < 16 \<longleftrightarrow> j < 16" by (simp add: word_less_nat_alt)
    moreover have "j < 2 \<longleftrightarrow> j = 0 \<or> j = 1"
    proof -
      have "j < 2 \<longleftrightarrow> unat j < 2" "j = 0 \<longleftrightarrow> unat j = 0" "j = 1 \<longleftrightarrow> unat j = 1" by (simp_all add: word_less_nat_alt word_unat_eq_iff)
      then show ?thesis by linarith
    qed
    ultimately show ?thesis unfolding steps boot_entries_def by (simp add: table_addrs)
  qed
  ultimately show ?thesis using m7(2) by blast
qed

section \<open>What the tables say\<close>

lemma large_entry:
  assumes "k < 16"
  shows "present (0x83 + k * 0x200000)" "(0x83 + k * 0x200000) AND PTE_HUGE \<noteq> 0" "frame_of (0x83 + k * 0x200000) = k * 0x200000"
  using small_cases [OF assms] by (auto simp: PTE_PRESENT_def PTE_HUGE_def PTE_ADDR_MASK_def)

lemma less_two: "k < 2 \<Longrightarrow> k < (16 :: u64)"
  by (simp add: word_less_nat_alt)

lemma boot_is_table:
  "is_table (boot_entries t k) \<longleftrightarrow>
     t = PML4_ADDR \<and> (k = 0 \<or> k = 256) \<or> t = PDPT_IDENT_ADDR \<and> k = 0 \<or> t = PDPT_HIGHER_ADDR \<and> k = 0"
proof -
  have "\<not> is_table (0x83 + k * 0x200000)" if "k < 16" for k using large_entry [OF that] by (simp add: is_table_def)
  moreover have "is_table 0x71003" "is_table 0x73003" "is_table 0x72003" "is_table 0x74003" "\<not> is_table 0"
    by (simp_all add: is_table_def PTE_PRESENT_def PTE_HUGE_def)
  ultimately show ?thesis using less_two by (auto simp: boot_entries_def)
qed

lemma boot_frames:
  "frame_of (boot_entries PML4_ADDR 0) = PDPT_IDENT_ADDR" "frame_of (boot_entries PML4_ADDR 256) = PDPT_HIGHER_ADDR"
  "frame_of (boot_entries PDPT_IDENT_ADDR 0) = PD_IDENT_ADDR" "frame_of (boot_entries PDPT_HIGHER_ADDR 0) = PD_HIGHER_ADDR"
  by (simp_all add: boot_entries_def table_addrs PTE_ADDR_MASK_def)

lemma boot_table_at:
  "table_at boot_entries PML4_ADDR xs =
     (if xs = [] then Some PML4_ADDR else if xs = [0] then Some PDPT_IDENT_ADDR else if xs = [0, 0] then Some PD_IDENT_ADDR
      else if xs = [256] then Some PDPT_HIGHER_ADDR else if xs = [256, 0] then Some PD_HIGHER_ADDR else None)"
proof -
  have ne: "PDPT_IDENT_ADDR \<noteq> PML4_ADDR" "PD_IDENT_ADDR \<noteq> PML4_ADDR" "PDPT_HIGHER_ADDR \<noteq> PML4_ADDR" "PD_HIGHER_ADDR \<noteq> PML4_ADDR"
    "PD_IDENT_ADDR \<noteq> PDPT_IDENT_ADDR" "PD_IDENT_ADDR \<noteq> PDPT_HIGHER_ADDR" "PD_HIGHER_ADDR \<noteq> PDPT_IDENT_ADDR"
    "PD_HIGHER_ADDR \<noteq> PDPT_HIGHER_ADDR" "PDPT_IDENT_ADDR \<noteq> PDPT_HIGHER_ADDR" by (simp_all add: table_addrs)
  have pd: "table_at boot_entries t ys = (if ys = [] then Some t else None)" if "t = PD_IDENT_ADDR \<or> t = PD_HIGHER_ADDR" for t ys
    using that ne by (cases ys) (auto simp: boot_is_table)
  have pdpt: "table_at boot_entries PDPT_IDENT_ADDR ys = (if ys = [] then Some PDPT_IDENT_ADDR else if ys = [0] then Some PD_IDENT_ADDR else None)"
    "table_at boot_entries PDPT_HIGHER_ADDR ys = (if ys = [] then Some PDPT_HIGHER_ADDR else if ys = [0] then Some PD_HIGHER_ADDR else None)" for ys
    using ne pd by (cases ys; auto simp: boot_is_table boot_frames)+
  show ?thesis using ne pdpt by (cases xs) (auto simp: boot_is_table boot_frames)
qed

lemma boot_tree: "tree boot_entries PML4_ADDR"
  unfolding tree_def boot_table_at by (auto simp: table_addrs split: if_splits)

lemma boot_table_only: "table_at boot_entries PML4_ADDR xs = Some t \<Longrightarrow> boot_table t"
  by (auto simp: boot_table_at boot_table_def split: if_splits)

text \<open>The indices of an address as digits.\<close>

lemma index_unat: "unat (drop_bit n v AND 0x1FF) = unat v div 2 ^ n mod 512" for v :: u64
proof -
  have "drop_bit n v AND 0x1FF = take_bit 9 (drop_bit n v)" by (simp add: take_bit_eq_mask mask_numeral)
  then have "unat (drop_bit n v AND 0x1FF) = take_bit 9 (drop_bit n (unat v))"
    by (simp only: unsigned_take_bit_eq unat_drop_bit_eq)
  then show ?thesis by (simp add: take_bit_eq_mod drop_bit_eq_div)
qed

lemma offset_unat: "unat (v AND mask n) = unat v mod 2 ^ n" for v :: u64
proof -
  have "v AND mask n = take_bit n v" by (rule take_bit_eq_mask [symmetric])
  then show ?thesis by (simp only: unsigned_take_bit_eq) (simp only: take_bit_eq_mod)
qed

lemma address_digits:
  fixes v :: u64
  shows "unat v mod 2 ^ 48 =
    2 ^ 39 * unat (pml4_index v) + 2 ^ 30 * unat (pdpt_index v) + 2 ^ 21 * unat (pd_index v) + unat v mod 2 ^ 21"
proof -
  let ?U = "unat v"
  have "?U mod 549755813888 = 1073741824 * (?U div 1073741824 mod 512) + ?U mod 1073741824"
    "?U mod 281474976710656 = 549755813888 * (?U div 549755813888 mod 512) + ?U mod 549755813888"
    "?U mod 1073741824 = 2097152 * (?U div 2097152 mod 512) + ?U mod 2097152"
    using mod_mult2_eq [of ?U 1073741824 512] mod_mult2_eq [of ?U 549755813888 512] mod_mult2_eq [of ?U 2097152 512] by simp_all
  then show ?thesis by (simp add: pml4_index_def pdpt_index_def pd_index_def index_unat)
qed

definition canonical :: "u64 \<Rightarrow> bool" where
  "canonical v \<longleftrightarrow> unat v < 2 ^ 47 \<or> KERNEL_VIRT_BASE \<le> v"

text \<open>The first 4 MB under their own address, the first 32 MB under the kernel's addresses.\<close>

definition boot_phys :: "u64 \<Rightarrow> u64" where
  "boot_phys v =
     (if unat v < 0x400000 then v
      else if KERNEL_VIRT_BASE \<le> v \<and> unat (v - KERNEL_VIRT_BASE) < 0x2000000 then v - KERNEL_VIRT_BASE
      else - 1)"

lemma boot_phys_addr:
  "phys_addr boot_entries PML4_ADDR v =
     (if pml4_index v = 0 \<and> pdpt_index v = 0 \<and> pd_index v < 2 \<or> pml4_index v = 256 \<and> pdpt_index v = 0 \<and> pd_index v < 16
      then pd_index v * 0x200000 OR (v AND mask 21) else - 1)"
proof -
  have ne: "PDPT_IDENT_ADDR \<noteq> PML4_ADDR" "PD_IDENT_ADDR \<noteq> PML4_ADDR" "PDPT_HIGHER_ADDR \<noteq> PML4_ADDR" "PD_HIGHER_ADDR \<noteq> PML4_ADDR"
    "PD_IDENT_ADDR \<noteq> PDPT_IDENT_ADDR" "PD_IDENT_ADDR \<noteq> PDPT_HIGHER_ADDR" "PD_HIGHER_ADDR \<noteq> PDPT_IDENT_ADDR"
    "PD_HIGHER_ADDR \<noteq> PDPT_HIGHER_ADDR" "PDPT_IDENT_ADDR \<noteq> PDPT_HIGHER_ADDR" "PD_IDENT_ADDR \<noteq> PD_HIGHER_ADDR"
    by (simp_all add: table_addrs)
  have absent: "\<not> present (boot_entries t k)" if "\<not> is_table (boot_entries t k)" "t = PML4_ADDR \<or> t = PDPT_IDENT_ADDR \<or> t = PDPT_HIGHER_ADDR" for t k
    using that ne unfolding boot_is_table by (auto simp: boot_entries_def)
  have pd: "boot_entries PD_IDENT_ADDR k = (if k < 2 then 0x83 + k * 0x200000 else 0)"
    "boot_entries PD_HIGHER_ADDR k = (if k < 16 then 0x83 + k * 0x200000 else 0)" for k
    using ne by (simp_all add: boot_entries_def)
  have huge: "\<not> is_table (boot_entries PD_IDENT_ADDR k)" "\<not> is_table (boot_entries PD_HIGHER_ADDR k)" for k
    using ne by (simp_all add: boot_is_table)
  consider "pml4_index v = 0" "pdpt_index v = 0" | "pml4_index v = 256" "pdpt_index v = 0" | "pml4_index v = 0" "pdpt_index v \<noteq> 0"
    | "pml4_index v = 256" "pdpt_index v \<noteq> 0" | "pml4_index v \<noteq> 0" "pml4_index v \<noteq> 256" by blast
  then show ?thesis
  proof cases
    case 1
    then have "walk boot_entries PML4_ADDR (path v) = (boot_entries PD_IDENT_ADDR (pd_index v), 1)"
      using huge by (simp add: path_def boot_frames) (simp add: boot_is_table)
    then show ?thesis using 1 large_entry [OF less_two] by (simp add: phys_addr_def pd)
  next
    case 2
    then have "walk boot_entries PML4_ADDR (path v) = (boot_entries PD_HIGHER_ADDR (pd_index v), 1)"
      using huge by (simp add: path_def boot_frames) (simp add: boot_is_table)
    then show ?thesis using 2 large_entry by (simp add: phys_addr_def pd)
  next
    case 3
    then have n: "\<not> is_table (boot_entries PDPT_IDENT_ADDR (pdpt_index v))" "is_table (boot_entries PML4_ADDR 0)" using ne by (simp_all add: boot_is_table)
    then show ?thesis using 3 absent [OF n(1)] by (simp add: phys_addr_def path_def boot_frames)
  next
    case 4
    then have n: "\<not> is_table (boot_entries PDPT_HIGHER_ADDR (pdpt_index v))" "is_table (boot_entries PML4_ADDR 256)" using ne by (simp_all add: boot_is_table)
    then show ?thesis using 4 absent [OF n(1)] by (simp add: phys_addr_def path_def boot_frames)
  next
    case 5
    then have n: "\<not> is_table (boot_entries PML4_ADDR (pml4_index v))" using ne by (simp add: boot_is_table)
    then show ?thesis using 5 absent [OF n] by (simp add: phys_addr_def path_def)
  qed
qed

lemma or_offset:
  fixes k v :: u64
  assumes "k < 512"
  shows "k * 0x200000 OR (v AND mask 21) = k * 0x200000 + (v AND mask 21)"
    "unat (k * 0x200000 + (v AND mask 21)) = 2 ^ 21 * unat k + unat v mod 2 ^ 21"
proof -
  have p: "k * 0x200000 = push_bit 21 k" by (simp add: push_bit_eq_mult)
  have "push_bit 21 k AND (v AND mask 21) = 0" by (rule bit_eqI) (auto simp: bit_simps)
  then show "k * 0x200000 OR (v AND mask 21) = k * 0x200000 + (v AND mask 21)"
    unfolding p using word_plus_and_or [of "push_bit 21 k" "v AND mask 21"] by simp
  have k: "unat k < 512" using assms by (simp add: word_less_nat_alt)
  then have "unat (k * 0x200000) = 2 ^ 21 * unat k" by (simp add: unat_word_ariths)
  moreover have "unat v mod 2 ^ 21 < 2 ^ 21" by simp
  ultimately show "unat (k * 0x200000 + (v AND mask 21)) = 2 ^ 21 * unat k + unat v mod 2 ^ 21"
    using k by (simp only: unat_word_ariths offset_unat) simp
qed

lemma boot_translates:
  assumes "canonical v"
  shows "phys_addr boot_entries PML4_ADDR v = boot_phys v"
proof -
  let ?i4 = "unat (pml4_index v)" and ?i3 = "unat (pdpt_index v)" and ?i2 = "unat (pd_index v)" and ?r = "unat v mod 2 ^ 21"
  have lt: "?i4 < 512" "?i3 < 512" "?i2 < 512" "?r < 2 ^ 21"
    using path_prefixes(4,5,6) [of v] by (simp_all add: word_less_nat_alt)
  have idx: "pml4_index v = 0 \<longleftrightarrow> ?i4 = 0" "pml4_index v = 256 \<longleftrightarrow> ?i4 = 256" "pdpt_index v = 0 \<longleftrightarrow> ?i3 = 0"
    "pd_index v < 2 \<longleftrightarrow> ?i2 < 2" "pd_index v < 16 \<longleftrightarrow> ?i2 < 16"
    by (simp_all add: word_unat_eq_iff word_less_nat_alt)
  note dig = address_digits [of v]
  note val = or_offset [OF path_prefixes(6) [of v], of v]
  have pa: "phys_addr boot_entries PML4_ADDR v =
      (if ?i4 = 0 \<and> ?i3 = 0 \<and> ?i2 < 2 \<or> ?i4 = 256 \<and> ?i3 = 0 \<and> ?i2 < 16 then pd_index v * 0x200000 + (v AND mask 21) else - 1)"
    unfolding boot_phys_addr idx val(1) ..
  have K: "unat KERNEL_VIRT_BASE = 18446603336221196288" by (simp add: KERNEL_VIRT_BASE_def)
  show ?thesis
  proof (cases "unat v < 2 ^ 47")
    case True
    then have u: "unat v = 2 ^ 39 * ?i4 + 2 ^ 30 * ?i3 + 2 ^ 21 * ?i2 + ?r" using dig by simp
    have "\<not> KERNEL_VIRT_BASE \<le> v" using True K by (simp add: word_le_nat_alt)
    moreover have "?i4 \<noteq> 256" using True u by simp
    moreover have "unat v < 0x400000 \<longleftrightarrow> ?i4 = 0 \<and> ?i3 = 0 \<and> ?i2 < 2" using u lt by (cases "?i4 = 0"; cases "?i3 = 0") auto
    moreover have "pd_index v * 0x200000 + (v AND mask 21) = v" if "?i4 = 0" "?i3 = 0"
      using that u val(2) by (simp add: word_unat_eq_iff)
    ultimately show ?thesis unfolding pa boot_phys_def by auto
  next
    case False
    then have ge: "KERNEL_VIRT_BASE \<le> v" using assms by (simp add: canonical_def)
    then have d: "unat (v - KERNEL_VIRT_BASE) = unat v - unat KERNEL_VIRT_BASE" by (rule unat_sub)
    have big: "18446603336221196288 \<le> unat v" using ge K by (simp add: word_le_nat_alt)
    have top: "unat v < 18446744073709551616" using unsigned_less [of v, where 'a = nat] by simp
    have x: "unat v mod 2 ^ 48 = 140737488355328 + unat (v - KERNEL_VIRT_BASE)"
    proof -
      have "unat v = (140737488355328 + unat (v - KERNEL_VIRT_BASE)) + 65535 * 2 ^ 48" using d K big by simp
      moreover have "unat v - 18446603336221196288 < 140737488355328" using top big by linarith
      then have "140737488355328 + unat (v - KERNEL_VIRT_BASE) < 2 ^ 48" using d K by simp
      ultimately show ?thesis by (metis mod_less mod_mult_self1)
    qed
    then have u: "140737488355328 + unat (v - KERNEL_VIRT_BASE) = 2 ^ 39 * ?i4 + 2 ^ 30 * ?i3 + 2 ^ 21 * ?i2 + ?r" using dig by simp
    then have i4: "256 \<le> ?i4" using lt by simp
    have "\<not> unat v < 0x400000" using big by simp
    moreover have "unat (v - KERNEL_VIRT_BASE) < 0x2000000 \<longleftrightarrow> ?i4 = 256 \<and> ?i3 = 0 \<and> ?i2 < 16"
      using u lt i4 by (cases "?i4 = 256"; cases "?i3 = 0") auto
    moreover have "pd_index v * 0x200000 + (v AND mask 21) = v - KERNEL_VIRT_BASE" if "?i4 = 256" "?i3 = 0"
      using that u val(2) by (simp add: word_unat_eq_iff)
    ultimately show ?thesis unfolding pa boot_phys_def using ge i4 by auto
  qed
qed

text \<open>The map from addresses to physical addresses once \<open>cr3\<close> points to the tables.\<close>

lemma loader_tables:
  assumes "\<forall>u j. boot_table u \<longrightarrow> j < 512 \<longrightarrow> f u j = boot_entries u j"
  shows "tree f PML4_ADDR" "table_at f PML4_ADDR xs = Some t \<Longrightarrow> indices xs \<Longrightarrow> boot_table t"
    "walk f PML4_ADDR (path v) = walk boot_entries PML4_ADDR (path v)"
    "phys_addr f PML4_ADDR v = phys_addr boot_entries PML4_ADDR v"
proof -
  note same = same_tree [OF boot_tree, of f]
  have at: "indices xs \<Longrightarrow> table_at f PML4_ADDR xs = table_at boot_entries PML4_ADDR xs" for xs
    by (rule same(1)) (use assms boot_table_only in blast)+
  then show "tree f PML4_ADDR" using boot_tree unfolding tree_def by simp
  show "table_at f PML4_ADDR xs = Some t \<Longrightarrow> indices xs \<Longrightarrow> boot_table t" using at boot_table_only by simp
  show w: "walk f PML4_ADDR (path v) = walk boot_entries PML4_ADDR (path v)"
    by (rule same(2)) (use assms boot_table_only in blast)
  then show "phys_addr f PML4_ADDR v = phys_addr boot_entries PML4_ADDR v" by (simp add: phys_addr_def)
qed

lemma setup_paging_ok:
  assumes "mapped m PML4_ADDR 0x5000"
  shows "\<exists>m'. setup_paging m = Inr (m', PML4_ADDR) \<and> (\<forall>x. \<not> in_tables x \<longrightarrow> m' x = m x) \<and> mapped m' PML4_ADDR 0x5000 \<and>
    (\<forall>u j. boot_table u \<longrightarrow> j < 512 \<longrightarrow> pte m' u j = boot_entries u j) \<and>
    (\<forall>v. canonical v \<longrightarrow> phys_addr (pte m') PML4_ADDR v = boot_phys v)"
proof -
  obtain m' where m': "setup_paging m = Inr (m', PML4_ADDR)" "mapped m' PML4_ADDR 0x5000" "\<forall>x. \<not> in_tables x \<longrightarrow> m' x = m x"
    "\<forall>u j. boot_table u \<longrightarrow> j < 512 \<longrightarrow> pte m' u j = boot_entries u j" using setup_paging_entries [OF assms] by blast
  have "phys_addr (pte m') PML4_ADDR v = boot_phys v" if "canonical v" for v
    unfolding loader_tables(4) [OF m'(4)] by (rule boot_translates [OF that])
  then show ?thesis using m' by blast
qed

section \<open>Virtual memory\<close>

text \<open>What an access sees through the tables in physical memory \<open>m\<close>.\<close>

definition address_space :: "memory \<Rightarrow> u64 \<Rightarrow> memory" where
  "address_space m root v =
     (if canonical v \<and> phys_addr (pte m) root v \<noteq> - 1 then m (phys_addr (pte m) root v) else None)"

text \<open>
  A reload of \<open>cr3\<close> after the tables were extended.  What could be reached before is still
  there; an address that the tables now map shows what lies at its physical address, here an
  argument: it is memory that nothing in the kernel has used yet.
\<close>

definition reload :: "(u64 \<Rightarrow> u8) \<Rightarrow> u64 \<Rightarrow> memory \<Rightarrow> memory" where
  "reload dram root m v =
     (case m v of Some b \<Rightarrow> Some b
      | None \<Rightarrow>
        if canonical v \<and> phys_addr (pte m) root v \<noteq> - 1 then Some (dram (phys_addr (pte m) root v)) else None)"

section \<open>Properties\<close>

lemma blank_tables: "mapped (\<lambda>_. Some b) a n"
  by (simp add: mapped_def)

text \<open>C9. The loader's page tables.  \<open>setup_paging\<close> writes to its five pages only, and then the first
  4 MB are mapped to themselves, the first 32 MB also under the kernel's addresses, and no
  other canonical address is mapped.\<close>

theorem setup_paging_maps:
  assumes "mapped m PML4_ADDR 0x5000"
  shows "\<exists>m'. setup_paging m = Inr (m', PML4_ADDR) \<and> (\<forall>x. \<not> in_tables x \<longrightarrow> m' x = m x) \<and>
    (\<forall>v. canonical v \<longrightarrow> phys_addr (pte m') PML4_ADDR v =
      (if unat v < 0x400000 then v
       else if KERNEL_VIRT_BASE \<le> v \<and> unat (v - KERNEL_VIRT_BASE) < 0x2000000 then v - KERNEL_VIRT_BASE
       else - 1))"
  using setup_paging_ok [OF assms] unfolding boot_phys_def by blast

theorem setup_paging_maps_witness:
  "\<exists>m'. setup_paging (\<lambda>_. Some 7) = Inr (m', 0x70000) \<and> m' 0x75000 = Some 7 \<and>
     phys_addr (pte m') 0x70000 0x3FFFFF = 0x3FFFFF \<and> phys_addr (pte m') 0x70000 0x400000 = - 1 \<and>
     phys_addr (pte m') 0x70000 0xFFFF800001FFFFFF = 0x1FFFFFF \<and> phys_addr (pte m') 0x70000 0xFFFF800002000000 = - 1"
proof -
  obtain m' where m': "setup_paging (\<lambda>_. Some 7) = Inr (m', PML4_ADDR)" "\<forall>x. \<not> in_tables x \<longrightarrow> m' x = Some 7"
    "\<forall>v. canonical v \<longrightarrow> phys_addr (pte m') PML4_ADDR v =
      (if unat v < 0x400000 then v
       else if KERNEL_VIRT_BASE \<le> v \<and> unat (v - KERNEL_VIRT_BASE) < 0x2000000 then v - KERNEL_VIRT_BASE
       else - 1)"
    using setup_paging_maps [OF blank_tables, of 7] by blast
  have "canonical 0x3FFFFF" "canonical 0x400000" "canonical 0xFFFF800001FFFFFF" "canonical 0xFFFF800002000000"
    by (simp_all add: canonical_def KERNEL_VIRT_BASE_def word_le_nat_alt)
  then have "phys_addr (pte m') PML4_ADDR 0x3FFFFF = 0x3FFFFF" "phys_addr (pte m') PML4_ADDR 0x400000 = - 1"
    "phys_addr (pte m') PML4_ADDR 0xFFFF800001FFFFFF = 0x1FFFFFF" "phys_addr (pte m') PML4_ADDR 0xFFFF800002000000 = - 1"
    using m'(3) by (simp_all add: KERNEL_VIRT_BASE_def word_le_nat_alt)
  moreover have "\<not> in_tables 0x75000" by (simp add: in_tables_def)
  ultimately show ?thesis using m'(1,2) by (intro exI [of _ m']) (simp add: PML4_ADDR_def)
qed

end
