(* ===== verification/Task.thy ===== *)
theory Task
  imports Vmm
begin

text \<open>
  \<open>kernel/scheduler/task.c\<close>: the circular list of tasks in heap memory and the
  cooperative switch.  \<open>switch_context\<close> is assembly: a call of it is the result
  \<open>Some (old, rsp)\<close> of \<open>yield\<close>, the task whose stack pointer is saved and the
  stack pointer that is loaded.
\<close>

definition TASK_STACK_SIZE :: u64 where "TASK_STACK_SIZE = 8192"
definition TASK_SIZE :: u64 where "TASK_SIZE = 32"

definition TASK_RUNNING :: u32 where "TASK_RUNNING = 0"
definition TASK_READY :: u32 where "TASK_READY = 1"
definition TASK_DEAD :: u32 where "TASK_DEAD = 2"

record task = vmm +
  current_task :: u64
  task_list :: u64
  next_pid :: u32

text \<open>The struct: rsp at 0, stack base at 8, pid at 16, state at 20, next at 24.\<close>

definition task_rsp :: "u64 \<Rightarrow> 'a task_scheme \<Rightarrow> u64 res" where "task_rsp t s = load64 t s"
definition task_state :: "u64 \<Rightarrow> 'a task_scheme \<Rightarrow> u32 res" where "task_state t s = load32 (t + 20) s"
definition task_next :: "u64 \<Rightarrow> 'a task_scheme \<Rightarrow> u64 res" where "task_next t s = load64 (t + 24) s"
definition task_pid :: "u64 \<Rightarrow> 'a task_scheme \<Rightarrow> u32 res" where "task_pid t s = load32 (t + 16) s"

definition set_rsp :: "u64 \<Rightarrow> u64 \<Rightarrow> 'a task_scheme \<Rightarrow> 'a task_scheme res" where "set_rsp t v s = store64 t v s"
definition set_stack_base :: "u64 \<Rightarrow> u64 \<Rightarrow> 'a task_scheme \<Rightarrow> 'a task_scheme res" where "set_stack_base t v s = store64 (t + 8) v s"
definition set_pid :: "u64 \<Rightarrow> u32 \<Rightarrow> 'a task_scheme \<Rightarrow> 'a task_scheme res" where "set_pid t v s = store32 (t + 16) v s"
definition set_state :: "u64 \<Rightarrow> u32 \<Rightarrow> 'a task_scheme \<Rightarrow> 'a task_scheme res" where "set_state t v s = store32 (t + 20) v s"
definition set_task_next :: "u64 \<Rightarrow> u64 \<Rightarrow> 'a task_scheme \<Rightarrow> 'a task_scheme res" where "set_task_next t v s = store64 (t + 24) v s"

definition scheduler_init :: "nat \<Rightarrow> 'a task_scheme \<Rightarrow> 'a task_scheme res" where
  "scheduler_init n s =
     rbind (kmalloc n TASK_SIZE s) (\<lambda>(main_task, s).
     rbind (set_pid main_task 0 s) (\<lambda>s.
     rbind (set_state main_task TASK_RUNNING s) (\<lambda>s.
     rbind (set_task_next main_task main_task s) (\<lambda>s.
     Inr (s\<lparr>current_task := main_task, task_list := main_task\<rparr>)))))"

fun find_ready :: "nat \<Rightarrow> u64 \<Rightarrow> 'a task_scheme \<Rightarrow> u64 res" where
  "find_ready 0 t s = Inl OutOfFuel"
| "find_ready (Suc n) t s =
     rbind (task_state t s) (\<lambda>st.
     if st \<noteq> TASK_READY \<and> t \<noteq> current_task s then
       if st = TASK_RUNNING then Inr t
       else rbind (task_next t s) (\<lambda>t. find_ready n t s)
     else Inr t)"

definition yield :: "nat \<Rightarrow> 'a task_scheme \<Rightarrow> ((u64 \<times> u64) option \<times> 'a task_scheme) res" where
  "yield n s =
     (if current_task s = 0 then Inr (None, s)
      else
        let old = current_task s in
        rbind (task_next (current_task s) s) (\<lambda>next.
        rbind (find_ready n next s) (\<lambda>next.
        if next \<noteq> current_task s then
          rbind (task_state old s) (\<lambda>st.
          rbind (if st = TASK_RUNNING then set_state old TASK_READY s else Inr s) (\<lambda>s.
          rbind (set_state next TASK_RUNNING s) (\<lambda>s.
          let s = s\<lparr>current_task := next\<rparr> in
          rbind (task_rsp next s) (\<lambda>rsp. Inr (Some (old, rsp), s)))))
        else Inr (None, s))))"

text \<open>\<open>task_exit\<close> does not return: it switches away, or halts when no other task is ready.\<close>

definition task_exit :: "nat \<Rightarrow> 'a task_scheme \<Rightarrow> ((u64 \<times> u64) \<times> 'a task_scheme) res" where
  "task_exit n s =
     rbind (set_state (current_task s) TASK_DEAD s) (\<lambda>s.
     rbind (yield n s) (\<lambda>(sw, s).
     case sw of None \<Rightarrow> Inl Halted | Some sw \<Rightarrow> Inr (sw, s)))"

fun last_task :: "nat \<Rightarrow> u64 \<Rightarrow> 'a task_scheme \<Rightarrow> u64 res" where
  "last_task 0 t s = Inl OutOfFuel"
| "last_task (Suc n) t s =
     rbind (task_next t s) (\<lambda>next.
     if next \<noteq> task_list s then last_task n next s else Inr t)"

text \<open>Pushing the initial frame; the addresses of \<open>task_exit\<close> and of the entry are arguments.\<close>

fun push_frame :: "u64 list \<Rightarrow> u64 \<Rightarrow> 'a task_scheme \<Rightarrow> (u64 \<times> 'a task_scheme) res" where
  "push_frame [] stack s = Inr (stack, s)"
| "push_frame (v # vs) stack s =
     (let stack = stack - 8 in rbind (store64 stack v s) (\<lambda>s. push_frame vs stack s))"

definition task_create :: "nat \<Rightarrow> u64 \<Rightarrow> u64 \<Rightarrow> 'a task_scheme \<Rightarrow> (u64 \<times> 'a task_scheme) res" where
  "task_create n exit_addr entry s =
     rbind (kmalloc n TASK_SIZE s) (\<lambda>(t, s).
     rbind (set_pid t (next_pid s) s) (\<lambda>s.
     let s = s\<lparr>next_pid := next_pid s + 1\<rparr> in
     rbind (kmalloc n TASK_STACK_SIZE s) (\<lambda>(base, s).
     rbind (set_stack_base t base s) (\<lambda>s.
     rbind (set_state t TASK_READY s) (\<lambda>s.
     rbind (push_frame [exit_addr, entry, 0x202, 0, 0, 0, 0, 0, 0] (base + TASK_STACK_SIZE) s) (\<lambda>(stack, s).
     rbind (set_rsp t stack s) (\<lambda>s.
     rbind (last_task n (task_list s) s) (\<lambda>last.
     rbind (set_task_next last t s) (\<lambda>s.
     rbind (set_task_next t (task_list s) s) (\<lambda>s.
     Inr (t, s)))))))))))"

end
