(* ===== verification/Scheduler.thy ===== *)
theory Scheduler
  imports Task
begin
text \<open>
  The scheduler as a rotating queue.  The circular list of \<open>task.c\<close>, dead tasks included,
  implements a queue of live tasks with the running one in front: \<open>yield\<close> moves the front
  to the back and resumes the next one where it stopped.
\<close>

section \<open>Writing one field of one task\<close>

definition tasks_apart :: "memory \<Rightarrow> u64 list \<Rightarrow> bool" where
  "tasks_apart m ts \<longleftrightarrow>
     (\<forall>t \<in> set ts. unat t + 32 \<le> 2 ^ 64 \<and> mapped m t 32) \<and>
     (\<forall>t \<in> set ts. \<forall>u \<in> set ts. t = u \<or> apart t 32 u 32)"

lemma task_offset:
  fixes t :: u64
  assumes "unat t + 32 \<le> 2 ^ 64" "k < 32"
  shows "unat (t + of_nat k) = unat t + k"
  using assms by (intro unat_add_of_nat) simp

lemma task_offsets:
  fixes t :: u64
  assumes "unat t + 32 \<le> 2 ^ 64"
  shows "unat (t + 20) = unat t + 20" "unat (t + 24) = unat t + 24"
  using task_offset [OF assms, of 20] task_offset [OF assms, of 24] by simp_all

lemma fields_apart:
  fixes t u :: u64
  assumes "unat t + 32 \<le> 2 ^ 64" "unat u + 32 \<le> 2 ^ 64" "t = u \<or> apart t 32 u 32"
  shows "t \<noteq> u \<Longrightarrow> apart (t + 20) 4 (u + 20) 4" "apart (t + 20) 4 u 8" "apart (t + 20) 4 (u + 24) 8"
    "apart t 8 (u + 20) 4" "t \<noteq> u \<Longrightarrow> apart t 8 u 8" "apart t 8 (u + 24) 8"
    "apart (t + 24) 8 (u + 20) 4" "t \<noteq> u \<Longrightarrow> apart (t + 24) 8 (u + 24) 8" "apart (t + 24) 8 u 8"
  using assms task_offsets [OF assms(1)] task_offsets [OF assms(2)] by (auto simp: apart_def)

text \<open>The bytes of the structs of some tasks.\<close>

definition task_bytes :: "u64 set \<Rightarrow> nat set" where
  "task_bytes T = (\<Union>t \<in> T. {unat t..<unat t + 32})"

lemma task_bytes_simps [simp]: "task_bytes {} = {}" "task_bytes (insert t T) = {unat t..<unat t + 32} \<union> task_bytes T"
  by (auto simp: task_bytes_def)

lemma task_bytes_mono: "T \<subseteq> U \<Longrightarrow> task_bytes T \<subseteq> task_bytes U"
  by (auto simp: task_bytes_def)

lemma only_on_field:
  assumes "unat t + 32 \<le> 2 ^ 64" "unat k + length bs \<le> 32"
  shows "only_on (task_bytes {t}) s (s\<lparr>vmem := mem_upd (vmem s) (t + k) bs\<rparr>)"
proof (cases "bs = []")
  case True
  then show ?thesis by (simp add: mem_upd_def)
next
  case False
  then have "0 < length bs" by simp
  then have "unat t + unat k < 2 ^ 64" using assms by linarith
  then have k: "unat (t + k) = unat t + unat k" by (simp add: unat_plus_if')
  show ?thesis by (rule only_on_only_in [OF only_in_upd]) (use assms in \<open>auto simp: k\<close>)
qed

lemma set_state_ok:
  assumes "tasks_apart (vmem s) ts" "t \<in> set ts"
  obtains s' where "set_state t v s = Inr s'" "tasks_apart (vmem s') ts" "only_on (task_bytes {t}) s s'"
    "\<And>u. u \<in> set ts \<Longrightarrow> task_state u s' = (if u = t then Inr v else task_state u s)"
    "\<And>u. u \<in> set ts \<Longrightarrow> task_rsp u s' = task_rsp u s" "\<And>u. u \<in> set ts \<Longrightarrow> task_next u s' = task_next u s"
proof -
  have t: "unat t + 32 \<le> 2 ^ 64" "mapped (vmem s) t 32" using assms by (auto simp: tasks_apart_def)
  have "mapped (vmem s) (t + 20) 4" using t task_offsets [OF t(1)] by (intro mapped_sub [OF t(2)]) simp_all
  then have run: "set_state t v s = Inr (s\<lparr>vmem := mem_upd (vmem s) (t + 20) (bytes_of_word 4 (ucast v))\<rparr>)"
    by (simp add: set_state_def store32_mapped)
  let ?m = "mem_upd (vmem s) (t + 20) (bytes_of_word 4 (ucast v))"
  have f: "t \<noteq> u \<Longrightarrow> apart (t + 20) 4 (u + 20) 4" "apart (t + 20) 4 u 8" "apart (t + 20) 4 (u + 24) 8" if "u \<in> set ts" for u
    using fields_apart [OF t(1), of u] that assms by (auto simp: tasks_apart_def)
  show ?thesis
  proof (rule that [OF run])
    show "tasks_apart (vmem (s\<lparr>vmem := ?m\<rparr>)) ts" using assms(1) by (auto simp: tasks_apart_def mapped_mem_upd)
    show "only_on (task_bytes {t}) s (s\<lparr>vmem := ?m\<rparr>)" using only_on_field [OF t(1), of 20 "bytes_of_word 4 (ucast v)" s] by simp
  next
    fix u assume u: "u \<in> set ts"
    show "task_state u (s\<lparr>vmem := ?m\<rparr>) = (if u = t then Inr v else task_state u s)"
      using f(1) [OF u] by (simp add: task_state_def load32_def rd32_upd_same rd32_upd_apart)
    show "task_rsp u (s\<lparr>vmem := ?m\<rparr>) = task_rsp u s" "task_next u (s\<lparr>vmem := ?m\<rparr>) = task_next u s"
      using f(2,3) [OF u] by (simp_all add: task_rsp_def task_next_def load64_def rd64_upd_apart)
  qed
qed

lemma set_rsp_ok:
  assumes "tasks_apart (vmem s) ts" "t \<in> set ts"
  obtains s' where "set_rsp t v s = Inr s'" "tasks_apart (vmem s') ts" "only_on (task_bytes {t}) s s'"
    "\<And>u. u \<in> set ts \<Longrightarrow> task_rsp u s' = (if u = t then Inr v else task_rsp u s)"
    "\<And>u. u \<in> set ts \<Longrightarrow> task_state u s' = task_state u s" "\<And>u. u \<in> set ts \<Longrightarrow> task_next u s' = task_next u s"
proof -
  have t: "unat t + 32 \<le> 2 ^ 64" "mapped (vmem s) t 32" using assms by (auto simp: tasks_apart_def)
  have "mapped (vmem s) t 8" using t by (intro mapped_sub [OF t(2)]) simp_all
  then have run: "set_rsp t v s = Inr (s\<lparr>vmem := mem_upd (vmem s) t (bytes_of_word 8 v)\<rparr>)"
    by (simp add: set_rsp_def store64_mapped)
  let ?m = "mem_upd (vmem s) t (bytes_of_word 8 v)"
  have f: "apart t 8 (u + 20) 4" "t \<noteq> u \<Longrightarrow> apart t 8 u 8" "apart t 8 (u + 24) 8" if "u \<in> set ts" for u
    using fields_apart [OF t(1), of u] that assms by (auto simp: tasks_apart_def)
  show ?thesis
  proof (rule that [OF run])
    show "tasks_apart (vmem (s\<lparr>vmem := ?m\<rparr>)) ts" using assms(1) by (auto simp: tasks_apart_def mapped_mem_upd)
    show "only_on (task_bytes {t}) s (s\<lparr>vmem := ?m\<rparr>)" using only_on_field [OF t(1), of 0 "bytes_of_word 8 v" s] by simp
  next
    fix u assume u: "u \<in> set ts"
    show "task_rsp u (s\<lparr>vmem := ?m\<rparr>) = (if u = t then Inr v else task_rsp u s)"
      using f(2) [OF u] by (simp add: task_rsp_def load64_def rd64_upd_same rd64_upd_apart)
    show "task_state u (s\<lparr>vmem := ?m\<rparr>) = task_state u s" "task_next u (s\<lparr>vmem := ?m\<rparr>) = task_next u s"
      using f(1,3) [OF u] by (simp_all add: task_state_def task_next_def load32_def load64_def rd32_upd_apart rd64_upd_apart)
  qed
qed

lemma set_next_ok:
  assumes "tasks_apart (vmem s) ts" "t \<in> set ts"
  obtains s' where "set_task_next t v s = Inr s'" "tasks_apart (vmem s') ts" "only_on (task_bytes {t}) s s'"
    "\<And>u. u \<in> set ts \<Longrightarrow> task_next u s' = (if u = t then Inr v else task_next u s)"
    "\<And>u. u \<in> set ts \<Longrightarrow> task_state u s' = task_state u s" "\<And>u. u \<in> set ts \<Longrightarrow> task_rsp u s' = task_rsp u s"
proof -
  have t: "unat t + 32 \<le> 2 ^ 64" "mapped (vmem s) t 32" using assms by (auto simp: tasks_apart_def)
  have "mapped (vmem s) (t + 24) 8" using t task_offsets [OF t(1)] by (intro mapped_sub [OF t(2)]) simp_all
  then have run: "set_task_next t v s = Inr (s\<lparr>vmem := mem_upd (vmem s) (t + 24) (bytes_of_word 8 v)\<rparr>)"
    by (simp add: set_task_next_def store64_mapped)
  let ?m = "mem_upd (vmem s) (t + 24) (bytes_of_word 8 v)"
  have f: "apart (t + 24) 8 (u + 20) 4" "t \<noteq> u \<Longrightarrow> apart (t + 24) 8 (u + 24) 8" "apart (t + 24) 8 u 8" if "u \<in> set ts" for u
    using fields_apart [OF t(1), of u] that assms by (auto simp: tasks_apart_def)
  show ?thesis
  proof (rule that [OF run])
    show "tasks_apart (vmem (s\<lparr>vmem := ?m\<rparr>)) ts" using assms(1) by (auto simp: tasks_apart_def mapped_mem_upd)
    show "only_on (task_bytes {t}) s (s\<lparr>vmem := ?m\<rparr>)" using only_on_field [OF t(1), of 24 "bytes_of_word 8 v" s] by simp
  next
    fix u assume u: "u \<in> set ts"
    show "task_next u (s\<lparr>vmem := ?m\<rparr>) = (if u = t then Inr v else task_next u s)"
      using f(2) [OF u] by (simp add: task_next_def load64_def rd64_upd_same rd64_upd_apart)
    show "task_state u (s\<lparr>vmem := ?m\<rparr>) = task_state u s" "task_rsp u (s\<lparr>vmem := ?m\<rparr>) = task_rsp u s"
      using f(1,3) [OF u] by (simp_all add: task_state_def task_rsp_def load32_def load64_def rd32_upd_apart rd64_upd_apart)
  qed
qed

section \<open>The ring\<close>

text \<open>The tasks in the order of their \<open>next\<close> pointers, from the running one all the way round.\<close>

fun linked :: "u64 list \<Rightarrow> u64 \<Rightarrow> 'a task_scheme \<Rightarrow> bool" where
  "linked [] z s \<longleftrightarrow> True"
| "linked (t # ts) z s \<longleftrightarrow> task_next t s = Inr (hd (ts @ [z])) \<and> linked ts z s"

definition ring :: "'a task_scheme \<Rightarrow> u64 list \<Rightarrow> bool" where
  "ring s ts \<longleftrightarrow> tasks_apart (vmem s) ts \<and> distinct ts \<and> 0 \<notin> set ts \<and> ts \<noteq> [] \<and> linked ts (hd ts) s"

definition waiting :: "'a task_scheme \<Rightarrow> u64 \<Rightarrow> bool" where
  "waiting s t \<longleftrightarrow> task_state t s = Inr TASK_READY"

definition scheduled :: "'a task_scheme \<Rightarrow> u64 list \<Rightarrow> bool" where
  "scheduled s ts \<longleftrightarrow> ring s ts \<and> current_task s = hd ts \<and> task_state (hd ts) s = Inr TASK_RUNNING \<and>
     (\<forall>t \<in> set (tl ts). waiting s t \<or> task_state t s = Inr TASK_DEAD)"

text \<open>The abstraction: the live tasks with their saved stack pointers, the running one first.\<close>

definition queue :: "'a task_scheme \<Rightarrow> u64 list \<Rightarrow> (u64 \<times> u64 res) list" where
  "queue s ts = (hd ts, task_rsp (hd ts) s) # map (\<lambda>t. (t, task_rsp t s)) (filter (waiting s) (tl ts))"

lemma linked_append: "linked (xs @ ys) z s \<longleftrightarrow> linked xs (hd (ys @ [z])) s \<and> linked ys z s"
  by (induction xs) (auto simp: hd_append)

lemma linked_cong: "(\<And>t. t \<in> set ts \<Longrightarrow> task_next t s' = task_next t s) \<Longrightarrow> linked ts z s' = linked ts z s"
  by (induction ts) auto

lemma find_ready_walk:
  assumes "linked us t0 s" "current_task s = t0" "task_state t0 s = Inr st"
    "\<forall>t \<in> set us. waiting s t \<or> task_state t s = Inr TASK_DEAD" "t0 \<notin> set us" "length us < n"
  shows "find_ready n (hd (us @ [t0])) s = Inr (hd (filter (waiting s) us @ [t0]))"
  using assms
proof (induction us arbitrary: n)
  case Nil
  then obtain k where "n = Suc k" by (cases n) auto
  with Nil show ?case by simp
next
  case (Cons u us)
  obtain k where k: "n = Suc k" using Cons.prems(6) by (cases n) auto
  show ?case
  proof (cases "waiting s u")
    case True
    then show ?thesis by (simp add: k waiting_def)
  next
    case False
    then have dead: "task_state u s = Inr TASK_DEAD" using Cons.prems(4) by simp
    have "find_ready k (hd (us @ [t0])) s = Inr (hd (filter (waiting s) us @ [t0]))"
      using Cons.prems by (intro Cons.IH) (auto simp: k)
    moreover have "u \<noteq> t0" using Cons.prems(5) by auto
    ultimately show ?thesis
      using False dead Cons.prems(1,2) by (simp add: k TASK_DEAD_def TASK_READY_def TASK_RUNNING_def)
  qed
qed

section \<open>One switch\<close>

text \<open>
  \<open>yield\<close> with what \<open>switch.asm\<close> does to memory: the stack pointer \<open>v\<close> of the old task is
  stored in its \<open>rsp\<close> field.  The result names the task that runs next and the stack pointer
  loaded for it.
\<close>

definition switch :: "nat \<Rightarrow> u64 \<Rightarrow> 'a task_scheme \<Rightarrow> ((u64 \<times> u64) option \<times> 'a task_scheme) res" where
  "switch n v s =
     rbind (yield n s) (\<lambda>(sw, s).
     case sw of
       None \<Rightarrow> Inr (None, s)
     | Some (old, rsp) \<Rightarrow> rbind (set_rsp old v s) (\<lambda>s. Inr (Some (current_task s, rsp), s)))"

lemma task_rsp_mapped:
  assumes "tasks_apart (vmem s) ts" "t \<in> set ts"
  obtains r where "task_rsp t s = Inr r"
proof -
  have "mapped (vmem s) t 32" "unat t + 32 \<le> 2 ^ 64" using assms by (auto simp: tasks_apart_def)
  then have "mapped (vmem s) t 8" using mapped_sub [of "vmem s" t 32 t 8] by simp
  then obtain bs where "rd_bytes (vmem s) t 8 = Inr bs" using mapped_imp_rd_bytes by blast
  then show ?thesis using that by (simp add: task_rsp_def load64_def rd64_def)
qed

text \<open>
  The ring while its first task is the current one, in state \<open>st\<close>: running as a rule, dead on
  the way out of \<open>task_exit\<close>.
\<close>

definition turn :: "u32 \<Rightarrow> 'a task_scheme \<Rightarrow> u64 list \<Rightarrow> bool" where
  "turn st s ts \<longleftrightarrow> ring s ts \<and> current_task s = hd ts \<and> task_state (hd ts) s = Inr st \<and>
     (\<forall>t \<in> set (tl ts). waiting s t \<or> task_state t s = Inr TASK_DEAD)"

lemma scheduled_turn: "scheduled s ts = turn TASK_RUNNING s ts"
  by (simp add: scheduled_def turn_def)

lemma yield_alone:
  assumes "turn st s (t0 # us)" "length us < n" "filter (waiting s) us = []"
  shows "yield n s = Inr (None, s)"
proof -
  have "find_ready n (hd (us @ [t0])) s = Inr t0"
    using find_ready_walk [of us t0 s st n] assms by (simp add: turn_def ring_def)
  then show ?thesis using assms(1) by (simp add: yield_def turn_def ring_def)
qed

text \<open>The ring seen from the next live task on.\<close>

lemma linked_rotate:
  assumes "linked (t0 # ds' @ t1 # us) t0 s"
  shows "linked (t1 # us @ t0 # ds') t1 s"
  using assms by (auto simp: linked_append hd_append)

text \<open>What \<open>yield\<close> writes: the states of the task that stops and of the one that goes on.\<close>

lemma yield_writes:
  assumes "turn st s (t0 # ds' @ t1 # us)" "length (ds' @ t1 # us) < n" "waiting s t1" "\<forall>d \<in> set ds'. \<not> waiting s d"
  defines "T \<equiv> set (t0 # ds' @ t1 # us)" and "stopped \<equiv> if st = TASK_RUNNING then TASK_READY else st"
  obtains s' r where "yield n s = Inr (Some (t0, r), s')" "task_rsp t1 s = Inr r" "current_task s' = t1"
    "only_on (task_bytes T) (s\<lparr>current_task := t1\<rparr>) s'" "tasks_apart (vmem s') (t0 # ds' @ t1 # us)"
    "\<And>u. u \<in> T \<Longrightarrow> task_state u s' = (if u = t1 then Inr TASK_RUNNING else if u = t0 then Inr stopped else task_state u s)"
    "\<And>u. u \<in> T \<Longrightarrow> task_rsp u s' = task_rsp u s" "\<And>u. u \<in> T \<Longrightarrow> task_next u s' = task_next u s"
proof -
  let ?ts = "t0 # ds' @ t1 # us"
  have s: "tasks_apart (vmem s) ?ts" "distinct ?ts" "0 \<notin> set ?ts" "linked ?ts t0 s" "current_task s = t0"
    "task_state t0 s = Inr st" "\<forall>t \<in> set (ds' @ t1 # us). waiting s t \<or> task_state t s = Inr TASK_DEAD"
    using assms(1) by (auto simp: turn_def ring_def)
  have ne: "t1 \<noteq> t0" using s(2) by auto
  have "find_ready n (hd ((ds' @ t1 # us) @ [t0])) s = Inr (hd (filter (waiting s) (ds' @ t1 # us) @ [t0]))"
    using find_ready_walk [of "ds' @ t1 # us" t0 s st n] s assms(2) by simp
  moreover have "filter (waiting s) ds' = []" using assms(4) by simp
  ultimately have find: "find_ready n (hd (ds' @ t1 # us @ [t0])) s = Inr t1" using assms(3) by simp
  obtain a where a: "(if st = TASK_RUNNING then set_state t0 TASK_READY s else Inr s) = Inr a" "tasks_apart (vmem a) ?ts"
    "only_on (task_bytes {t0}) s a"
    "\<And>u. u \<in> set ?ts \<Longrightarrow> task_state u a = (if u = t0 then Inr stopped else task_state u s)"
    "\<And>u. u \<in> set ?ts \<Longrightarrow> task_rsp u a = task_rsp u s" "\<And>u. u \<in> set ?ts \<Longrightarrow> task_next u a = task_next u s"
  proof (cases "st = TASK_RUNNING")
    case True
    obtain a where "set_state t0 TASK_READY s = Inr a" "tasks_apart (vmem a) ?ts" "only_on (task_bytes {t0}) s a"
      "\<And>u. u \<in> set ?ts \<Longrightarrow> task_state u a = (if u = t0 then Inr TASK_READY else task_state u s)"
      "\<And>u. u \<in> set ?ts \<Longrightarrow> task_rsp u a = task_rsp u s" "\<And>u. u \<in> set ?ts \<Longrightarrow> task_next u a = task_next u s"
      using set_state_ok [OF s(1), of t0 TASK_READY] by auto
    then show ?thesis using that True by (simp add: stopped_def)
  next
    case False
    then show ?thesis using that [of s] s(1,6) by (simp add: stopped_def)
  qed
  obtain b where b: "set_state t1 TASK_RUNNING a = Inr b" "tasks_apart (vmem b) ?ts" "only_on (task_bytes {t1}) a b"
    "\<And>u. u \<in> set ?ts \<Longrightarrow> task_state u b = (if u = t1 then Inr TASK_RUNNING else task_state u a)"
    "\<And>u. u \<in> set ?ts \<Longrightarrow> task_rsp u b = task_rsp u a" "\<And>u. u \<in> set ?ts \<Longrightarrow> task_next u b = task_next u a"
    using set_state_ok [OF a(2), of t1 TASK_RUNNING] by auto
  let ?c = "b\<lparr>current_task := t1\<rparr>"
  have fields: "task_state u ?c = task_state u b" "task_rsp u ?c = task_rsp u b" "task_next u ?c = task_next u b" for u
    by (simp_all add: task_state_def task_rsp_def task_next_def load32_def load64_def)
  obtain r where r: "task_rsp t1 s = Inr r" using task_rsp_mapped [OF s(1), of t1] by auto
  have y: "yield n s = Inr (Some (t0, r), ?c)"
    using s(3-6) find ne a(1) b(1) r a(5) [of t1] b(5) [of t1] fields(2)
    by (simp add: yield_def)
  have "only_on (task_bytes T) s b"
    by (rule only_on_trans [OF a(3) b(3)]) (auto simp: T_def)
  then have "only_on (task_bytes T) (s\<lparr>current_task := t1\<rparr>) ?c"
    unfolding only_on_def by (cases s, cases b) auto
  moreover have "task_state u ?c = (if u = t1 then Inr TASK_RUNNING else if u = t0 then Inr stopped else task_state u s)"
    "task_rsp u ?c = task_rsp u s" "task_next u ?c = task_next u s" if "u \<in> T" for u
    using a(4-6) [of u] b(4-6) [of u] fields [of u] that unfolding T_def by presburger+
  ultimately show ?thesis using that [of r ?c] y r b(2) by simp
qed

lemma yield_next:
  assumes "turn st s (t0 # ds' @ t1 # us)" "length (ds' @ t1 # us) < n" "waiting s t1" "\<forall>d \<in> set ds'. \<not> waiting s d"
    "st = TASK_RUNNING \<or> st = TASK_DEAD"
  obtains s' r where "switch n v s = Inr (Some (t1, r), s')" "task_rsp t1 s = Inr r" "scheduled s' (t1 # us @ t0 # ds')"
    "queue s' (t1 # us @ t0 # ds') = tl (queue s (t0 # ds' @ t1 # us)) @ (if st = TASK_RUNNING then [(t0, Inr v)] else [])"
    "only_on (task_bytes (set (t0 # ds' @ t1 # us))) (s\<lparr>current_task := t1\<rparr>) s'"
proof -
  let ?ts = "t0 # ds' @ t1 # us" and ?ts' = "t1 # us @ t0 # ds'"
  let ?stopped = "if st = TASK_RUNNING then TASK_READY else st"
  have set: "set ?ts' = set ?ts" by auto
  have s: "distinct ?ts" "0 \<notin> set ?ts" "linked ?ts t0 s"
    "\<forall>t \<in> set (ds' @ t1 # us). waiting s t \<or> task_state t s = Inr TASK_DEAD"
    using assms(1) by (auto simp: turn_def ring_def)
  have ne: "t1 \<noteq> t0" using s(1) by auto
  obtain c r where c: "yield n s = Inr (Some (t0, r), c)" "task_rsp t1 s = Inr r" "current_task c = t1"
    "only_on (task_bytes (set ?ts)) (s\<lparr>current_task := t1\<rparr>) c" "tasks_apart (vmem c) ?ts"
    "\<And>u. u \<in> set ?ts \<Longrightarrow> task_state u c = (if u = t1 then Inr TASK_RUNNING else if u = t0 then Inr ?stopped else task_state u s)"
    "\<And>u. u \<in> set ?ts \<Longrightarrow> task_rsp u c = task_rsp u s" "\<And>u. u \<in> set ?ts \<Longrightarrow> task_next u c = task_next u s"
    by (rule yield_writes [OF assms(1-4)], rule that) assumption+
  obtain d where d: "set_rsp t0 v c = Inr d" "tasks_apart (vmem d) ?ts" "only_on (task_bytes {t0}) c d"
    "\<And>u. u \<in> set ?ts \<Longrightarrow> task_rsp u d = (if u = t0 then Inr v else task_rsp u c)"
    "\<And>u. u \<in> set ?ts \<Longrightarrow> task_state u d = task_state u c" "\<And>u. u \<in> set ?ts \<Longrightarrow> task_next u d = task_next u c"
    using set_rsp_ok [OF c(5), of t0 v] by auto
  have cur: "current_task d = t1" using d(3) c(3) unfolding only_on_def by (cases c, cases d) auto
  have state: "task_state u d = (if u = t1 then Inr TASK_RUNNING else if u = t0 then Inr ?stopped else task_state u s)"
    and rsp: "task_rsp u d = (if u = t0 then Inr v else task_rsp u s)" and nxt: "task_next u d = task_next u s"
    if "u \<in> set ?ts" for u
    using c(6-8) [OF that] d(4-6) [OF that] by simp_all
  have "linked ?ts' t1 d"
    using linked_rotate [OF s(3)] linked_cong [of ?ts' d s t1] nxt unfolding set by blast
  moreover have "tasks_apart (vmem d) ?ts'" using d(2) unfolding tasks_apart_def set .
  moreover have "distinct ?ts'" "0 \<notin> set ?ts'" using s(1,2) by auto
  ultimately have "ring d ?ts'" by (simp add: ring_def)
  moreover have "waiting d t \<or> task_state t d = Inr TASK_DEAD" if t: "t \<in> set (us @ t0 # ds')" for t
    using t s(1) state [of t] bspec [OF s(4), of t] ne assms(5) by (auto simp: waiting_def)
  ultimately have sch: "scheduled d ?ts'" using cur state [of t1] by (simp add: scheduled_def)
  have w: "waiting d u = waiting s u" "(u, task_rsp u d) = (u, task_rsp u s)" if "u \<in> set ds' \<union> set us" for u
    using that s(1) state [of u] rsp [of u] by (auto simp: waiting_def)
  have "waiting d t0 \<longleftrightarrow> st = TASK_RUNNING"
    using state [of t0] ne assms(5) by (auto simp: waiting_def TASK_RUNNING_def TASK_READY_def TASK_DEAD_def)
  moreover have "filter (waiting d) ds' = []" "filter (waiting s) ds' = []" "filter (waiting d) us = filter (waiting s) us"
    using w(1) assms(4) by (auto cong: filter_cong)
  moreover have "map (\<lambda>t. (t, task_rsp t d)) (filter (waiting s) us) = map (\<lambda>t. (t, task_rsp t s)) (filter (waiting s) us)"
    using w(2) by (intro map_cong) auto
  ultimately have q: "queue d ?ts' = tl (queue s ?ts) @ (if st = TASK_RUNNING then [(t0, Inr v)] else [])"
    using assms(3) rsp [of t0] rsp [of t1] ne by (simp add: queue_def)
  have "only_on (task_bytes (set ?ts)) (s\<lparr>current_task := t1\<rparr>) d"
    by (rule only_on_trans [OF c(4) d(3)]) auto
  with that [of r d] c(1,2) d(1) cur sch q show ?thesis by (simp add: switch_def)
qed

text \<open>The same in terms of the queue.\<close>

lemma turn_rotates:
  assumes "turn st s ts" "length ts \<le> n" "queue s ts = (t0, r0) # (t1, Inr r1) # q" "st = TASK_RUNNING \<or> st = TASK_DEAD"
  obtains s' ts' where "switch n v s = Inr (Some (t1, r1), s')" "scheduled s' ts'" "set ts' = set ts" "length ts' = length ts"
    "queue s' ts' = (t1, Inr r1) # q @ (if st = TASK_RUNNING then [(t0, Inr v)] else [])"
    "only_on (task_bytes (set ts)) (s\<lparr>current_task := t1\<rparr>) s'"
proof -
  obtain us where ts: "ts = t0 # us" using assms(1,3) by (cases ts) (auto simp: turn_def ring_def queue_def)
  then have "map (\<lambda>t. (t, task_rsp t s)) (filter (waiting s) us) = (t1, Inr r1) # q" using assms(3) by (simp add: queue_def)
  then obtain rest where "filter (waiting s) us = t1 # rest" and r1: "task_rsp t1 s = Inr r1" by auto
  then obtain ds' us' where us: "us = ds' @ t1 # us'" "\<forall>d \<in> set ds'. \<not> waiting s d" "waiting s t1"
    by (auto simp: filter_eq_Cons_iff)
  have sch: "turn st s (t0 # ds' @ t1 # us')" and len: "length (ds' @ t1 # us') < n"
    using assms(1,2) by (simp_all add: ts us(1))
  obtain s' r where s': "switch n v s = Inr (Some (t1, r), s')" "task_rsp t1 s = Inr r" "scheduled s' (t1 # us' @ t0 # ds')"
    "queue s' (t1 # us' @ t0 # ds') = tl (queue s (t0 # ds' @ t1 # us')) @ (if st = TASK_RUNNING then [(t0, Inr v)] else [])"
    "only_on (task_bytes (set (t0 # ds' @ t1 # us'))) (s\<lparr>current_task := t1\<rparr>) s'"
    using yield_next [OF sch len us(3,2) assms(4)] by blast
  show ?thesis
    by (rule that [of s' "t1 # us' @ t0 # ds'"]) (use s' r1 assms(3) in \<open>auto simp: ts us(1)\<close>)
qed

lemma queued_rsp:
  assumes "scheduled s ts" "(t, r) \<in> set (tl (queue s ts))"
  obtains r1 where "r = Inr r1" "t \<in> set ts"
proof -
  obtain u us where ts: "ts = u # us" using assms(1) by (cases ts) (auto simp: scheduled_def ring_def)
  have "t \<in> set ts" "r = task_rsp t s" using assms(2) by (auto simp: ts queue_def)
  then show ?thesis using that task_rsp_mapped [of s ts t] assms(1) by (auto simp: scheduled_def ring_def)
qed

lemma switch_rotates:
  assumes "scheduled s ts" "length ts \<le> n" "queue s ts = (t0, r0) # (t1, Inr r1) # q"
  obtains s' ts' where "switch n v s = Inr (Some (t1, r1), s')" "scheduled s' ts'" "set ts' = set ts" "length ts' = length ts"
    "queue s' ts' = (t1, Inr r1) # q @ [(t0, Inr v)]" "only_on (task_bytes (set ts)) (s\<lparr>current_task := t1\<rparr>) s'"
  by (rule turn_rotates [OF assms(1) [unfolded scheduled_turn] assms(2,3), where v = v]) (auto intro: that)

section \<open>Many switches\<close>

fun switches :: "nat \<Rightarrow> u64 list \<Rightarrow> 'a task_scheme \<Rightarrow> ((u64 \<times> u64) list \<times> 'a task_scheme) res" where
  "switches n [] s = Inr ([], s)"
| "switches n (v # vs) s =
     rbind (switch n v s) (\<lambda>(sw, s).
     rbind (switches n vs s) (\<lambda>(log, s). Inr ((case sw of None \<Rightarrow> log | Some x \<Rightarrow> x # log), s)))"

lemma round_robin:
  assumes "scheduled s ts" "length ts \<le> n" "queue s ts = map (\<lambda>(t, r). (t, Inr r)) q" "2 \<le> length q"
  shows "\<exists>log s' ts'. switches n vs s = Inr (log, s') \<and> scheduled s' ts' \<and> length log = length vs \<and>
    (\<forall>i < length vs. log ! i =
       (fst (q ! (Suc i mod length q)),
        if Suc i < length q then snd (q ! Suc i) else vs ! (Suc i - length q))) \<and>
    set ts' = set ts \<and> only_on (task_bytes (set ts)) (s\<lparr>current_task := current_task s'\<rparr>) s'"
  using assms
proof (induction vs arbitrary: s ts q)
  case Nil
  then show ?case by auto
next
  case (Cons v vs)
  obtain t0 r0 t1 r1 q' where q: "q = (t0, r0) # (t1, r1) # q'"
    using Cons.prems(4) by (cases q; cases "tl q") auto
  let ?m = "length q" and ?q = "(t1, r1) # q' @ [(t0, v)]"
  obtain s1 ts1 where s1: "switch n v s = Inr (Some (t1, r1), s1)" "scheduled s1 ts1" "length ts1 = length ts"
    "set ts1 = set ts" "only_on (task_bytes (set ts)) (s\<lparr>current_task := t1\<rparr>) s1"
    "queue s1 ts1 = (t1, Inr r1) # map (\<lambda>(t, r). (t, Inr r)) q' @ [(t0, Inr v)]"
  proof -
    have "queue s ts = (t0, Inr r0) # (t1, Inr r1) # map (\<lambda>(t, r). (t, Inr r)) q'"
      using Cons.prems(3) by (simp add: q)
    from switch_rotates [OF Cons.prems(1,2) this, of v] show ?thesis using that by metis
  qed
  have len: "length ?q = ?m" by (simp add: q)
  obtain log s' ts' where l: "switches n vs s1 = Inr (log, s')" "scheduled s' ts'" "length log = length vs"
    "\<forall>i < length vs. log ! i = (fst (?q ! (Suc i mod ?m)), if Suc i < ?m then snd (?q ! Suc i) else vs ! (Suc i - ?m))"
    "set ts' = set ts" "only_on (task_bytes (set ts)) (s1\<lparr>current_task := current_task s'\<rparr>) s'"
    using Cons.IH [OF s1(2), of ?q] s1(3,4,6) Cons.prems(2) len by auto
  have step: "((t1, r1) # log) ! i =
      (fst (q ! (Suc i mod ?m)), if Suc i < ?m then snd (q ! Suc i) else (v # vs) ! (Suc i - ?m))"
    if i: "i < length (v # vs)" for i
  proof (cases i)
    case 0
    then show ?thesis by (simp add: q)
  next
    case (Suc j)
    have rot: "fst (?q ! k) = fst (q ! (Suc k mod ?m))" if "k < ?m" for k
      using that by (cases "k = Suc (length q')") (auto simp: q nth_append nth_Cons')
    have "fst (?q ! (i mod ?m)) = fst (q ! (Suc i mod ?m))"
      using rot [of "i mod ?m"] by (simp add: q mod_Suc_eq)
    moreover have "(if i < ?m then snd (?q ! i) else vs ! (i - ?m)) =
        (if Suc i < ?m then snd (q ! Suc i) else (v # vs) ! (Suc i - ?m))"
      using Suc by (auto simp: q nth_append nth_Cons' Suc_diff_le)
    moreover have "((t1, r1) # log) ! i = (fst (?q ! (i mod ?m)), if i < ?m then snd (?q ! i) else vs ! (i - ?m))"
      using l(4) i Suc by simp
    ultimately show ?thesis by simp
  qed
  moreover have "only_on (task_bytes (set ts)) (s\<lparr>current_task := current_task s'\<rparr>) s'"
    using s1(5) l(6) unfolding only_on_def by (cases s, cases s1, cases s') auto
  ultimately show ?case using s1(1) l(1-3,5) by (auto intro!: exI [of _ s'])
qed

section \<open>The end of a task\<close>

text \<open>\<open>task_exit\<close> with the store of \<open>switch.asm\<close>, as in \<open>switch\<close>.\<close>

definition exit_switch :: "nat \<Rightarrow> u64 \<Rightarrow> 'a task_scheme \<Rightarrow> ((u64 \<times> u64) \<times> 'a task_scheme) res" where
  "exit_switch n v s =
     rbind (task_exit n s) (\<lambda>((old, rsp), s). rbind (set_rsp old v s) (\<lambda>s. Inr ((current_task s, rsp), s)))"

lemma exit_switch_switch:
  assumes "set_state (current_task s) TASK_DEAD s = Inr a"
  shows "switch n v a = Inr (Some x, s') \<Longrightarrow> exit_switch n v s = Inr (x, s')"
    "yield n a = Inr (None, a) \<Longrightarrow> task_exit n s = Inl Halted"
proof -
  assume "switch n v a = Inr (Some x, s')"
  then obtain old rsp b where "yield n a = Inr (Some (old, rsp), b)" "set_rsp old v b = Inr s'" "x = (current_task s', rsp)"
    by (auto simp: switch_def rbind_eq_Inr split: option.splits)
  then show "exit_switch n v s = Inr (x, s')" using assms by (simp add: exit_switch_def task_exit_def)
next
  assume "yield n a = Inr (None, a)"
  then show "task_exit n s = Inl Halted" using assms by (simp add: task_exit_def)
qed

lemma exit_turn:
  assumes "scheduled s ts"
  obtains a where "set_state (current_task s) TASK_DEAD s = Inr a" "turn TASK_DEAD a ts" "queue a ts = queue s ts"
    "only_on (task_bytes (set ts)) s a"
proof -
  obtain t0 us where ts: "ts = t0 # us" using assms by (cases ts) (auto simp: scheduled_def ring_def)
  have s: "tasks_apart (vmem s) ts" "distinct ts" "0 \<notin> set ts" "linked ts t0 s" "current_task s = t0"
    "\<forall>t \<in> set us. waiting s t \<or> task_state t s = Inr TASK_DEAD"
    using assms by (auto simp: scheduled_def ring_def ts)
  obtain a where a: "set_state t0 TASK_DEAD s = Inr a" "tasks_apart (vmem a) ts" "only_on (task_bytes {t0}) s a"
    "\<And>u. u \<in> set ts \<Longrightarrow> task_state u a = (if u = t0 then Inr TASK_DEAD else task_state u s)"
    "\<And>u. u \<in> set ts \<Longrightarrow> task_rsp u a = task_rsp u s" "\<And>u. u \<in> set ts \<Longrightarrow> task_next u a = task_next u s"
    using set_state_ok [OF s(1), of t0 TASK_DEAD] by (auto simp: ts)
  have w: "task_state u a = task_state u s" "waiting a u = waiting s u" if "u \<in> set us" for u
    using that s(2) a(4) [of u] by (auto simp: ts waiting_def)
  have "linked ts t0 a" using s(4) linked_cong [of ts a s t0] a(6) by blast
  moreover have "current_task a = t0" using a(3) s(5) unfolding only_on_def by (cases s, cases a) auto
  ultimately have "turn TASK_DEAD a ts"
    using s(2,3,6) a(2,4) w by (auto simp: turn_def ring_def ts)
  moreover have "queue a ts = queue s ts"
    using w(2) a(5) by (auto simp: queue_def ts cong: filter_cong intro!: map_cong)
  moreover have "only_on (task_bytes (set ts)) s a"
    by (rule only_on_trans [OF a(3) only_on_refl [of "{}"]]) (auto simp: ts)
  ultimately show ?thesis using that a(1) s(5) by simp
qed

section \<open>Three tasks\<close>

text \<open>A task at 64 runs, the one at 128 is dead and the one at 96 waits with stack pointer 5000.\<close>

definition ring_memory :: memory where
  "ring_memory =
     mem_upd (mem_upd (mem_upd (mem_upd (mem_upd (mem_upd (\<lambda>a. Some 0)
       88 (bytes_of_word 8 128)) 152 (bytes_of_word 8 96)) 120 (bytes_of_word 8 64))
       148 (bytes_of_word 4 (ucast TASK_DEAD))) 116 (bytes_of_word 4 (ucast TASK_READY))) 96 (bytes_of_word 8 5000)"

definition ring_demo :: task where
  "ring_demo = vmm.extend (heap.extend heap_demo \<lparr>cr3 = 0\<rparr>) \<lparr>current_task = 64, task_list = 64, next_pid = 3\<rparr>\<lparr>vmem := ring_memory\<rparr>"

lemma ring_demo_fields:
  "task_next 64 ring_demo = Inr 128" "task_next 128 ring_demo = Inr 96" "task_next 96 ring_demo = Inr 64"
  "task_state 64 ring_demo = Inr TASK_RUNNING" "task_state 128 ring_demo = Inr TASK_DEAD" "task_state 96 ring_demo = Inr TASK_READY"
  "task_rsp 64 ring_demo = Inr 0" "task_rsp 96 ring_demo = Inr 5000"
proof -
  have zero: "rd64 (\<lambda>a. Some 0) a = Inr 0" "rd32 (\<lambda>a. Some 0) a = Inr 0" for a
    by (simp_all add: rd64_def rd32_def rd8_def eval_nat_numeral)
  have m: "vmem ring_demo = ring_memory" by (simp add: ring_demo_def vmm.defs)
  show "task_next 64 ring_demo = Inr 128" "task_next 128 ring_demo = Inr 96" "task_next 96 ring_demo = Inr 64"
    "task_state 64 ring_demo = Inr TASK_RUNNING" "task_state 128 ring_demo = Inr TASK_DEAD" "task_state 96 ring_demo = Inr TASK_READY"
    "task_rsp 64 ring_demo = Inr 0" "task_rsp 96 ring_demo = Inr 5000"
    by (simp_all add: task_next_def task_state_def task_rsp_def load64_def load32_def m ring_memory_def
        rd64_upd_same rd64_upd_apart rd32_upd_same rd32_upd_apart apart_def zero TASK_RUNNING_def)
qed

lemma ring_demo_ok: "scheduled ring_demo [64, 128, 96]" "queue ring_demo [64, 128, 96] = [(64, Inr 0), (96, Inr 5000)]"
proof -
  have all: "mapped (\<lambda>a. Some 0) a n" for a n by (simp add: mapped_def)
  have "tasks_apart (vmem ring_demo) [64, 128, 96]"
    using all by (simp add: tasks_apart_def apart_def ring_demo_def vmm.defs ring_memory_def mapped_mem_upd)
  moreover have cur: "current_task ring_demo = 64" by (simp add: ring_demo_def vmm.defs)
  ultimately show "scheduled ring_demo [64, 128, 96]"
    using ring_demo_fields by (simp add: scheduled_def ring_def waiting_def)
  show "queue ring_demo [64, 128, 96] = [(64, Inr 0), (96, Inr 5000)]"
    using ring_demo_fields by (simp add: queue_def waiting_def TASK_DEAD_def TASK_READY_def)
qed

section \<open>Properties\<close>

text \<open>C4. \<open>yield\<close> implements a rotating queue on the ring of tasks.  With no other live task
  it does nothing; otherwise it resumes the next live task in ring order with the stack
  pointer saved for it, puts the caller at the back with its own, skips dead tasks, keeps the
  ring and changes nothing else but the current task and the structs of the tasks.\<close>

theorem yield_rotates_queue:
  assumes "scheduled s ts" "length ts \<le> n" "queue s ts = (t0, r0) # q"
  shows "case q of
      [] \<Rightarrow> yield n s = Inr (None, s)
    | (t1, r) # q' \<Rightarrow> \<exists>s' ts' r1. r = Inr r1 \<and> switch n v s = Inr (Some (t1, r1), s') \<and> scheduled s' ts' \<and>
        set ts' = set ts \<and> queue s' ts' = (t1, Inr r1) # q' @ [(t0, Inr v)] \<and>
        only_on (task_bytes (set ts)) (s\<lparr>current_task := t1\<rparr>) s'"
proof (cases q)
  case Nil
  obtain us where ts: "ts = t0 # us" using assms(1,3) by (cases ts) (auto simp: scheduled_def ring_def queue_def)
  have "filter (waiting s) us = []" using assms(3) Nil by (simp add: ts queue_def)
  moreover have "length us < n" using assms(2) by (simp add: ts)
  ultimately show ?thesis using yield_alone [of TASK_RUNNING s t0 us n] assms(1) Nil by (simp add: ts scheduled_turn)
next
  case (Cons p q')
  obtain t1 r where p: "p = (t1, r)" by (cases p)
  obtain r1 where r1: "r = Inr r1" using queued_rsp [of s ts t1 r] assms(1,3) Cons p by auto
  obtain s' ts' where "switch n v s = Inr (Some (t1, r1), s')" "scheduled s' ts'" "set ts' = set ts"
    "queue s' ts' = (t1, Inr r1) # q' @ [(t0, Inr v)]" "only_on (task_bytes (set ts)) (s\<lparr>current_task := t1\<rparr>) s'"
    using switch_rotates [OF assms(1,2)] assms(3) Cons p r1 by metis
  then show ?thesis using Cons p r1 by auto
qed

theorem yield_rotates_queue_witness:
  "\<exists>s' ts'. switch 5 700 ring_demo = Inr (Some (96, 5000), s') \<and> scheduled s' ts' \<and>
     queue s' ts' = [(96, Inr 5000), (64, Inr 700)]"
  using yield_rotates_queue [OF ring_demo_ok(1), of 5 64 "Inr 0" "[(96, Inr 5000)]" 700] ring_demo_ok(2) by auto

text \<open>C23. Every live task keeps running, in turn.  Over any number of yields the tasks are
  resumed round robin, and each is resumed with the stack pointer it had when it last
  yielded (or the one it was created with), so with \<open>m\<close> live tasks each runs again within
  \<open>m\<close> yields.\<close>

theorem tasks_resume_in_turn:
  assumes "scheduled s ts" "length ts \<le> n" "queue s ts = map (\<lambda>(t, r). (t, Inr r)) q" "2 \<le> length q"
  shows "\<exists>log s' ts'. switches n vs s = Inr (log, s') \<and> scheduled s' ts' \<and> length log = length vs \<and>
    (\<forall>i < length vs. log ! i =
       (fst (q ! (Suc i mod length q)),
        if Suc i < length q then snd (q ! Suc i) else vs ! (Suc i - length q)))"
  using round_robin [OF assms, of vs] by blast

text \<open>C22. A task that ends never runs again and takes no other down.  \<open>task_exit\<close> resumes the next
  live task where it stopped and leaves the queue of the others as it was, without the caller;
  with no other live task the machine halts.\<close>

theorem task_exit_leaves:
  assumes "scheduled s ts" "length ts \<le> n" "queue s ts = (t0, r0) # q"
  shows "case q of
      [] \<Rightarrow> task_exit n s = Inl Halted
    | (t1, r) # q' \<Rightarrow> \<exists>s' ts' r1. r = Inr r1 \<and> exit_switch n v s = Inr ((t1, r1), s') \<and> scheduled s' ts' \<and>
        set ts' = set ts \<and> queue s' ts' = q \<and> only_on (task_bytes (set ts)) (s\<lparr>current_task := t1\<rparr>) s'"
proof -
  obtain a where a: "set_state (current_task s) TASK_DEAD s = Inr a" "turn TASK_DEAD a ts" "queue a ts = queue s ts"
    "only_on (task_bytes (set ts)) s a" using exit_turn [OF assms(1)] by blast
  show ?thesis
  proof (cases q)
    case Nil
    obtain us where ts: "ts = t0 # us" using a(2,3) assms(3) by (cases ts) (auto simp: turn_def ring_def queue_def)
    have "filter (waiting a) us = []" using a(3) assms(3) Nil by (simp add: ts queue_def)
    then have "yield n a = Inr (None, a)" using yield_alone [of TASK_DEAD a t0 us n] a(2) assms(2) by (simp add: ts)
    then show ?thesis using exit_switch_switch(2) [OF a(1)] Nil by simp
  next
    case (Cons p q')
    obtain t1 r where p: "p = (t1, r)" by (cases p)
    obtain r1 where r1: "r = Inr r1" using queued_rsp [of s ts t1 r] assms(1,3) Cons p by auto
    have q: "queue a ts = (t0, r0) # (t1, Inr r1) # q'" using a(3) assms(3) Cons p r1 by simp
    obtain s' ts' where s': "switch n v a = Inr (Some (t1, r1), s')" "scheduled s' ts'" "set ts' = set ts"
      "queue s' ts' = (t1, Inr r1) # q'" "only_on (task_bytes (set ts)) (a\<lparr>current_task := t1\<rparr>) s'"
      by (rule turn_rotates [OF a(2) assms(2) q, where v = v]) (auto simp: TASK_RUNNING_def TASK_DEAD_def intro: that)
    have "only_on (task_bytes (set ts)) (s\<lparr>current_task := t1\<rparr>) s'"
      using a(4) s'(5) unfolding only_on_def by (cases s, cases a, cases s') auto
    then show ?thesis using s' exit_switch_switch(1) [OF a(1) s'(1)] Cons p r1 by auto
  qed
qed

theorem task_exit_leaves_witness:
  "\<exists>s' ts'. exit_switch 5 700 ring_demo = Inr ((96, 5000), s') \<and> scheduled s' ts' \<and> queue s' ts' = [(96, Inr 5000)]"
  using task_exit_leaves [OF ring_demo_ok(1), of 5 64 "Inr 0" "[(96, Inr 5000)]" 700] ring_demo_ok(2) by auto

theorem tasks_resume_in_turn_witness:
  "\<exists>s'. switches 5 [700, 800, 900] ring_demo = Inr ([(96, 5000), (64, 700), (96, 800)], s')"
proof -
  let ?q = "[(64, 0), (96, 5000)] :: (u64 \<times> u64) list" and ?vs = "[700, 800, 900] :: u64 list"
  have "queue ring_demo [64, 128, 96] = map (\<lambda>(t, r). (t, Inr r)) ?q"
    using ring_demo_ok(2) by simp
  from tasks_resume_in_turn [OF ring_demo_ok(1) _ this, of 5 ?vs]
  obtain log s' ts' where r: "switches 5 ?vs ring_demo = Inr (log, s')" "length log = length ?vs"
    and n: "\<forall>i < length ?vs. log ! i =
      (fst (?q ! (Suc i mod length ?q)), if Suc i < length ?q then snd (?q ! Suc i) else ?vs ! (Suc i - length ?q))"
    by (auto simp del: switches.simps)
  have "log ! 0 = (96, 5000)" "log ! 1 = (64, 700)" "log ! 2 = (96, 800)"
    using n [rule_format, of 0] n [rule_format, of 1] n [rule_format, of 2] by (simp_all add: numeral_2_eq_2 numeral_3_eq_3 mod_Suc)
  moreover obtain a b c where "log = [a, b, c]" using r(2) by (auto simp: length_Suc_conv)
  ultimately show ?thesis using r(1) by auto
qed

end
