(* ===== verification/Spawn.thy ===== *)
theory Spawn
  imports Scheduler Strings
begin

text \<open>
  Tasks in the heap.  The structs and the stacks of the tasks of \<open>task.c\<close> are blocks of the heap:
  here the invariants of the heap and of the scheduler are put together, and \<open>task_create\<close> is
  shown to enlarge the queue by a task that starts at its entry.
\<close>

section \<open>Heap blocks that are in use\<close>

definition payload :: "hblock \<Rightarrow> nat set" where
  "payload h = {unat (hb_addr h) + 32..<unat (hb_addr h) + 32 + unat (hb_size h)}"

definition payloads :: "hblock list \<Rightarrow> nat set" where
  "payloads bs = (\<Union>h \<in> set bs. payload h)"

lemma payloads_simps [simp]: "payloads [] = {}" "payloads (h # bs) = payload h \<union> payloads bs"
  "payloads (as @ bs) = payloads as \<union> payloads bs"
  by (auto simp: payloads_def)

lemma tiles_payloads:
  "tiles lo bs hi \<Longrightarrow> payloads bs \<inter> header_bytes bs = {} \<and> payloads bs \<subseteq> {lo..<hi}"
proof (induction lo bs hi rule: tiles.induct)
  case (2 a b sz fr bs e)
  then have t: "unat b = a" "tiles (a + 32 + unat sz) bs e" by auto
  have hb: "header_bytes bs \<subseteq> {a + 32 + unat sz..<e}" "a + 32 + unat sz \<le> e"
    using header_bytes_tiles [OF t(2)] tiles_bounds [OF t(2)] by auto
  have "payloads bs \<inter> header_bytes bs = {}" "payloads bs \<subseteq> {a + 32 + unat sz..<e}" using 2(1) [OF t(2)] by auto
  with hb t(1) show ?case by (fastforce simp: header_bytes_def payload_def)
qed (simp add: header_bytes_def)

text \<open>Reads off the region that changed.\<close>

lemma only_on_rd:
  assumes "only_on A s t" "A \<inter> {unat a..<unat a + n} = {}" "unat a + n \<le> 2 ^ 64"
  shows "rd_bytes (vmem t) a n = rd_bytes (vmem s) a n"
proof (rule rd_bytes_cong_mem)
  fix i assume "i < n"
  then have "unat (a + of_nat i) = unat a + i" using assms(3) by (intro unat_add_of_nat) simp
  then show "vmem t (a + of_nat i) = vmem s (a + of_nat i)"
    using assms(1,2) \<open>i < n\<close> by (auto simp: only_on_def disjoint_iff)
qed

lemma only_on_reads:
  assumes "only_on A s t"
  shows "A \<inter> {unat a..<unat a + 8} = {} \<Longrightarrow> unat a + 8 \<le> 2 ^ 64 \<Longrightarrow> rd64 (vmem t) a = rd64 (vmem s) a"
    "A \<inter> {unat a..<unat a + 4} = {} \<Longrightarrow> unat a + 4 \<le> 2 ^ 64 \<Longrightarrow> rd32 (vmem t) a = rd32 (vmem s) a"
    "unat a \<notin> A \<Longrightarrow> rd8 (vmem t) a = rd8 (vmem s) a"
  using only_on_rd [OF assms, of a] assms by (simp_all add: rd64_def rd32_def rd8_def only_on_def)

lemma fields_on:
  assumes "only_on A s t" "A \<inter> {unat b..<unat b + 32} = {}" "unat b + 32 \<le> 2 ^ 64"
  shows "Heap.fields (vmem t) b = Heap.fields (vmem s) b"
  unfolding Heap.fields_def using assms(2,3) field_offsets [OF assms(3)]
  by (auto intro!: only_on_reads [OF assms(1)] simp: disjoint_iff)

lemma hchain_on:
  "tiles a bs e \<Longrightarrow> e \<le> 2 ^ 64 \<Longrightarrow> only_on A s t \<Longrightarrow> A \<inter> header_bytes bs = {} \<Longrightarrow>
     hchain (vmem s) x bs \<Longrightarrow> hchain (vmem t) x bs"
proof (induction bs arbitrary: a x)
  case Nil
  then show ?case by simp
next
  case (Cons h bs)
  obtain b sz fr where h: "h = HB b sz fr" by (cases h) auto
  have b: "unat b = a" "a + 32 + unat sz \<le> e" "tiles (a + 32 + unat sz) bs e"
    using Cons.prems(1) tiles_bounds [of "a + 32 + unat sz" bs e] by (auto simp: h)
  from Cons.prems(5) obtain l where l: "x \<noteq> 0" "b = x" "header (vmem s) x sz l fr" "hchain (vmem s) l bs"
    by (auto simp: h hchain_Cons simp del: hchain.simps(2))
  have "A \<inter> header_bytes bs = {}" "A \<inter> {unat x..<unat x + 32} = {}"
    using Cons.prems(4) l(2) by (auto simp: h header_bytes_def)
  moreover have "unat x + 32 \<le> 2 ^ 64" using b l(2) Cons.prems(2) by simp
  ultimately have "hchain (vmem t) l bs" "header (vmem t) x sz l fr"
    using Cons.IH [OF b(3) Cons.prems(2,3) _ l(4)] l(3) fields_on [OF Cons.prems(3), of x] by (auto simp: header_def)
  then show ?case using l by (auto simp: h hchain_Cons simp del: hchain.simps(2))
qed

text \<open>Writing to blocks that are in use, or to memory outside the heap, keeps the heap.\<close>

lemma heap_ok_on:
  assumes "heap_ok s bs" "only_on A s t" "A \<inter> header_bytes bs = {}"
  shows "heap_ok t bs"
proof -
  note D = heap_okD [OF assms(1)]
  have same: "heap_head t = heap_head s" "heap_used t = heap_used s"
    using assms(2) unfolding only_on_def by (cases s, cases t, auto)+
  have "mapped_range (vmem t) HEAP_LO HEAP_HI" using D(1) assms(2) by (auto simp: only_on_def mapped_range_def)
  moreover have "hchain (vmem t) (heap_head s) bs"
    using hchain_on [OF D(3) _ assms(2,3) D(2)] heap_region(1) by simp
  ultimately show ?thesis using D same by (simp add: heap_ok_def)
qed

lemma heap_ok_payload:
  assumes "heap_ok s bs" "only_on A s t" "A \<subseteq> payloads bs"
  shows "heap_ok t bs"
  using heap_ok_on [OF assms(1,2)] tiles_payloads [OF heap_okD(3) [OF assms(1)]] assms(3) by blast

text \<open>While the free memory is one block at the end, an allocation takes its start.\<close>

definition full :: "hblock list \<Rightarrow> bool" where
  "full bs \<longleftrightarrow> (\<forall>h \<in> set bs. \<not> hb_free h)"

lemma first_fit_full: "full as \<Longrightarrow> n \<le> r \<Longrightarrow> first_fit n (as @ [HB b r True]) = Some (b, as @ carve n b r)"
  by (induction n as rule: first_fit.induct) (auto simp: full_def)

lemma kmalloc_end:
  assumes "heap_ok s (as @ [HB b r True])" "full as" "0 < n" "16 dvd n" "n + 96 < unat r" "Suc (length as) < k"
  shows "\<exists>s'. kmalloc k (of_nat n) s = Inr (b + 32, s') \<and>
    heap_ok s' ((as @ [HB b (of_nat n) False]) @ [HB (b + 32 + of_nat n) (r - of_nat n - 32) True]) \<and>
    full (as @ [HB b (of_nat n) False]) \<and>
    only_on (extent (HB b r True)) (s\<lparr>heap_used := heap_used s'\<rparr>) s'"
proof -
  have "unat r < 2 ^ 64" using unat_u64_less [of r] by simp
  then have lt: "n < 2 ^ 64" using assms(5) by linarith
  have n: "unat (of_nat n :: u64) = n" using lt by (rule unat_of_nat_lt)
  have "unat (round16 (of_nat n)) = n"
    using unat_round16(1) [of "of_nat n"] unat_u64_less [of r] assms(4,5) n by (auto elim!: dvdE)
  then have rd: "round16 (of_nat n) = of_nat n" using n by (simp add: word_unat_eq_iff)
  have le: "of_nat n \<le> r" using n assms(5) by (simp add: word_le_nat_alt)
  have c: "carve (of_nat n) b r = [HB b (of_nat n) False, HB (b + 32 + of_nat n) (r - of_nat n - 32) True]"
    using n assms(5) by (simp add: carve_def)
  have nz: "(of_nat n :: u64) \<noteq> 0" using n assms(3) by (metis unat_0 neq0_conv)
  from kmalloc_ok [OF assms(1) nz, of k b "as @ carve (of_nat n) b r"] first_fit_full [OF assms(2) le, of b] assms(6)
  obtain s' z where s': "kmalloc k (of_nat n) s = Inr (b + 32, s')" "heap_ok s' (as @ carve (of_nat n) b r)"
    "HB b z True \<in> set (as @ [HB b r True])" "only_on (extent (HB b z True)) (s\<lparr>heap_used := heap_used s'\<rparr>) s'"
    by (auto simp: rd)
  then have "z = r" using assms(2) by (auto simp: full_def)
  then show ?thesis using s' assms(2) by (auto simp: c full_def)
qed

section \<open>Building a task\<close>

text \<open>The words that \<open>switch.asm\<close> pops and returns to, from the saved stack pointer upwards.\<close>

definition frame_at :: "memory \<Rightarrow> u64 \<Rightarrow> u64 list \<Rightarrow> bool" where
  "frame_at m a ws \<longleftrightarrow> (\<forall>i < length ws. rd64 m (a + of_nat (8 * i)) = Inr (ws ! i))"

lemma all_less_split: "(\<forall>i < m + n. P i) \<longleftrightarrow> (\<forall>i < m. P i) \<and> (\<forall>j < n. P (m + j))" for m n :: nat
proof (intro iffI allI impI)
  fix i assume "(\<forall>i < m. P i) \<and> (\<forall>j < n. P (m + j))" "i < m + n"
  then show "P i" by (cases "i < m") (auto dest!: spec [of _ "i - m"])
qed auto

lemma frame_at_append:
  "frame_at m a (xs @ ys) \<longleftrightarrow> frame_at m a xs \<and> frame_at m (a + of_nat (8 * length xs)) ys"
  by (simp add: frame_at_def all_less_split nth_append algebra_simps)

lemma frame_at_on:
  assumes "only_on A s t" "A \<inter> {unat a..<unat a + 8 * length ws} = {}" "unat a + 8 * length ws \<le> 2 ^ 64"
  shows "frame_at (vmem t) a ws = frame_at (vmem s) a ws"
proof -
  have "rd64 (vmem t) (a + of_nat (8 * i)) = rd64 (vmem s) (a + of_nat (8 * i))" if "i < length ws" for i
  proof -
    have "unat (a + of_nat (8 * i)) = unat a + 8 * i" using that assms(3) by (intro unat_add_of_nat) simp
    then show ?thesis using assms(2,3) that by (intro only_on_reads(1) [OF assms(1)]) (auto simp: disjoint_iff)
  qed
  then show ?thesis by (simp add: frame_at_def)
qed

lemma only_on_mapped_range: "only_on A s t \<Longrightarrow> mapped_range (vmem s) lo hi \<Longrightarrow> mapped_range (vmem t) lo hi"
  by (simp add: only_on_def mapped_range_def)

lemma push_frame_ok:
  assumes "mapped_range (vmem s) lo hi" "hi \<le> 2 ^ 64" "lo + 8 * length vs \<le> unat p" "unat p \<le> hi"
  shows "\<exists>s'. push_frame vs p s = Inr (p - of_nat (8 * length vs), s') \<and>
    only_on {unat p - 8 * length vs..<unat p} s s' \<and> frame_at (vmem s') (p - of_nat (8 * length vs)) (rev vs)"
  using assms
proof (induction vs arbitrary: p s)
  case Nil
  then show ?case by (simp add: frame_at_def)
next
  case (Cons v vs)
  let ?q = "p - 8" and ?s = "s\<lparr>vmem := mem_upd (vmem s) (p - 8) (bytes_of_word 8 v)\<rparr>"
  have q: "unat ?q = unat p - 8" using Cons.prems(3) by (simp add: unat_sub word_le_nat_alt)
  have le: "unat ?q + 8 = unat p" using q Cons.prems(3) by simp
  have "mapped (vmem s) ?q 8"
    by (rule mapped_range_mapped [OF Cons.prems(1)]) (use le Cons.prems in auto)
  then have st: "store64 ?q v s = Inr ?s" by (simp add: store64_mapped)
  have o: "only_on {unat ?q..<unat p} s ?s"
    by (rule only_on_only_in [OF only_in_upd]) (use le Cons.prems(2,4) in auto)
  obtain s' where s': "push_frame vs ?q ?s = Inr (?q - of_nat (8 * length vs), s')"
    "only_on {unat ?q - 8 * length vs..<unat ?q} ?s s'" "frame_at (vmem s') (?q - of_nat (8 * length vs)) (rev vs)"
    using Cons.IH [OF only_on_mapped_range [OF o Cons.prems(1)] Cons.prems(2), of ?q] le Cons.prems(3,4) by auto
  have a: "?q - of_nat (8 * length vs) = p - of_nat (8 * length (v # vs))" by simp
  have "rd64 (vmem s') ?q = rd64 (vmem ?s) ?q"
    using le Cons.prems(2,4) by (intro only_on_reads(1) [OF s'(2)]) auto
  then have "frame_at (vmem s') ?q [v]" by (simp add: frame_at_def rd64_upd_same)
  moreover have "p - of_nat (8 * length (v # vs)) + of_nat (8 * length (rev vs)) = ?q" by simp
  ultimately have "frame_at (vmem s') (p - of_nat (8 * length (v # vs))) (rev (v # vs))"
    using s'(3) unfolding a rev.simps frame_at_append by metis
  moreover have "only_on {unat p - 8 * length (v # vs)..<unat p} s s'"
    by (rule only_on_trans [OF o s'(2)]) (use le in auto)
  ultimately show ?case using s'(1) st by (simp add: a)
qed

lemma set_pid_ok:
  assumes "tasks_apart (vmem s) [t]"
  obtains s' where "set_pid t v s = Inr s'" "only_on (task_bytes {t}) s s'"
proof -
  have t: "unat t + 32 \<le> 2 ^ 64" "mapped (vmem s) t 32" using assms by (auto simp: tasks_apart_def)
  have "unat (t + 16) = unat t + 16" using task_offset [OF t(1), of 16] by simp
  then have "mapped (vmem s) (t + 16) 4" using t by (intro mapped_sub [OF t(2)]) simp_all
  then show ?thesis using that only_on_field [OF t(1), of 16 "bytes_of_word 4 (ucast v)" s]
    by (simp add: set_pid_def store32_mapped)
qed

lemma set_stack_base_ok:
  assumes "tasks_apart (vmem s) [t]"
  obtains s' where "set_stack_base t v s = Inr s'" "only_on (task_bytes {t}) s s'"
proof -
  have t: "unat t + 32 \<le> 2 ^ 64" "mapped (vmem s) t 32" using assms by (auto simp: tasks_apart_def)
  have "unat (t + 8) = unat t + 8" using task_offset [OF t(1), of 8] by simp
  then have "mapped (vmem s) (t + 8) 8" using t by (intro mapped_sub [OF t(2)]) simp_all
  then show ?thesis using that only_on_field [OF t(1), of 8 "bytes_of_word 8 v" s]
    by (simp add: set_stack_base_def store64_mapped)
qed

text \<open>
  \<open>task_create\<close> in three steps: the struct, the stack with the initial frame, and the link into
  the ring.
\<close>

definition new_struct :: "nat \<Rightarrow> 'a task_scheme \<Rightarrow> (u64 \<times> 'a task_scheme) res" where
  "new_struct n s =
     rbind (kmalloc n TASK_SIZE s) (\<lambda>(t, s).
     rbind (set_pid t (next_pid s) s) (\<lambda>s. Inr (t, s\<lparr>next_pid := next_pid s + 1\<rparr>)))"

definition new_stack :: "nat \<Rightarrow> u64 \<Rightarrow> u64 \<Rightarrow> u64 \<Rightarrow> 'a task_scheme \<Rightarrow> 'a task_scheme res" where
  "new_stack n exit_addr entry t s =
     rbind (kmalloc n TASK_STACK_SIZE s) (\<lambda>(base, s).
     rbind (set_stack_base t base s) (\<lambda>s.
     rbind (set_state t TASK_READY s) (\<lambda>s.
     rbind (push_frame [exit_addr, entry, 0x202, 0, 0, 0, 0, 0, 0] (base + TASK_STACK_SIZE) s) (\<lambda>(stack, s).
     set_rsp t stack s))))"

definition build_task :: "nat \<Rightarrow> u64 \<Rightarrow> u64 \<Rightarrow> 'a task_scheme \<Rightarrow> (u64 \<times> 'a task_scheme) res" where
  "build_task n exit_addr entry s =
     rbind (new_struct n s) (\<lambda>(t, s). rbind (new_stack n exit_addr entry t s) (\<lambda>s. Inr (t, s)))"

lemma task_create_build:
  "task_create n exit_addr entry s =
     rbind (build_task n exit_addr entry s) (\<lambda>(t, s).
     rbind (last_task n (task_list s) s) (\<lambda>last.
     rbind (set_task_next last t s) (\<lambda>s.
     rbind (set_task_next t (task_list s) s) (\<lambda>s.
     Inr (t, s)))))"
  by (simp add: task_create_def build_task_def new_struct_def new_stack_def rbind_assoc Let_def split_def)

definition start_frame :: "u64 \<Rightarrow> u64 \<Rightarrow> u64 list" where
  "start_frame entry exit_addr = [0, 0, 0, 0, 0, 0, 0x202, entry, exit_addr]"

lemma length_start_frame [simp]: "length (start_frame e x) = 9"
  by (simp add: start_frame_def)

text \<open>Changing the fields of the scheduler leaves the heap alone.\<close>

lemma heap_ok_task [simp]:
  "heap_ok (s\<lparr>next_pid := p\<rparr>) bs = heap_ok s bs" "heap_ok (s\<lparr>current_task := c\<rparr>) bs = heap_ok s bs"
  by (simp_all add: heap_ok_def)

lemma only_on_task:
  assumes "only_on A s t"
  shows "only_on A (s\<lparr>heap_used := u\<rparr>) (t\<lparr>heap_used := u\<rparr>)" "only_on A (s\<lparr>next_pid := p\<rparr>) (t\<lparr>next_pid := p\<rparr>)"
  using assms unfolding only_on_def by (cases s, cases t, auto)+

lemma only_on_scheduler:
  assumes "only_on A (s\<lparr>heap_used := u\<rparr>) t"
  shows "only_on A (s\<lparr>heap_used := heap_used t, current_task := c, task_list := l\<rparr>) (t\<lparr>current_task := c, task_list := l\<rparr>)"
  using assms unfolding only_on_def by (cases s, cases t, auto)

lemma end_block:
  assumes "heap_ok s (as @ [HB b r True])"
  shows "unat b + 32 + unat r = HEAP_HI" "HEAP_LO \<le> unat b" "16 dvd unat r"
  using heap_okD(3) [OF assms] tiles_bounds [of HEAP_LO as] by (auto simp: tiles_append)

lemma struct_apart:
  assumes "heap_ok s bs" "HEAP_LO \<le> unat t" "unat t + 32 \<le> HEAP_HI"
  shows "tasks_apart (vmem s) [t]"
  using mapped_range_mapped [OF heap_okD(1) [OF assms(1)] assms(2,3)] assms(3) heap_region(1) by (simp add: tasks_apart_def)

lemma new_struct_ok:
  assumes h: "heap_ok s (as @ [HB b r True])" "full as" and r: "128 < unat r" and k: "length as + 1 < k"
  shows "\<exists>s' u p. new_struct k s = Inr (b + 32, s') \<and>
    heap_ok s' ((as @ [HB b 32 False]) @ [HB (b + 64) (r - 64) True]) \<and> full (as @ [HB b 32 False]) \<and>
    only_on (extent (HB b r True)) (s\<lparr>heap_used := u, next_pid := p\<rparr>) s'"
proof -
  note eb = end_block [OF h(1)] and hi = heap_region(1)
  have u: "unat (b + 32) = unat b + 32" using eb(1) hi by (simp add: unat_add_numeral)
  have tb: "task_bytes {b + 32} = {unat b + 32..<unat b + 64}" by (auto simp: u)
  obtain s1 where s1: "kmalloc k 32 s = Inr (b + 32, s1)" "heap_ok s1 ((as @ [HB b 32 False]) @ [HB (b + 64) (r - 64) True])"
    "full (as @ [HB b 32 False])" "only_on (extent (HB b r True)) (s\<lparr>heap_used := heap_used s1\<rparr>) s1"
    using kmalloc_end [OF h, of 32 k] r k by (auto simp: algebra_simps)
  have "tasks_apart (vmem s1) [b + 32]"
    by (rule struct_apart [OF s1(2)]) (use eb r u in auto)
  then obtain s2 where s2: "set_pid (b + 32) (next_pid s1) s1 = Inr s2" "only_on (task_bytes {b + 32}) s1 s2"
    using set_pid_ok by blast
  have "only_on (extent (HB b r True)) (s\<lparr>heap_used := heap_used s1\<rparr>) s2"
    by (rule only_on_trans [OF s1(4) s2(2) order_refl]) (use r in \<open>auto simp: u extent_def\<close>)
  note only_on_task(2) [OF this, of "next_pid s2 + 1"]
  moreover have "heap_ok s2 ((as @ [HB b 32 False]) @ [HB (b + 64) (r - 64) True])"
    by (rule heap_ok_payload [OF s1(2) s2(2)]) (auto simp: u payload_def)
  ultimately show ?thesis using s1(1,3) s2(1) by (auto simp: new_struct_def TASK_SIZE_def)
qed

lemma new_stack_ok:
  assumes h: "heap_ok s (as @ [HB c r True])" "full as" and r: "8288 < unat r" and k: "length as + 1 < k"
    and t: "task_bytes {t} \<subseteq> payloads as"
  defines "as' \<equiv> as @ [HB c 8192 False]" and "sp \<equiv> c + 32 + 8192 - 72"
  shows "\<exists>s' u. new_stack k x e t s = Inr s' \<and>
    heap_ok s' (as' @ [HB (c + 8224) (r - 8224) True]) \<and> full as' \<and>
    only_on (task_bytes {t} \<union> extent (HB c r True)) (s\<lparr>heap_used := u\<rparr>) s' \<and>
    task_state t s' = Inr TASK_READY \<and> task_rsp t s' = Inr sp \<and> frame_at (vmem s') sp (start_frame e x)"
proof -
  let ?bs = "as' @ [HB (c + 8224) (r - 8224) True]" and ?top = "c + 32 + 8192" and ?S = "{unat c + 32..<unat c + 8224}"
  note eb = end_block [OF h(1)] and hi = heap_region(1)
  obtain m where til: "tiles HEAP_LO as m" "m = unat c" using heap_okD(3) [OF h(1)] by (auto simp: tiles_append)
  then have tr: "task_bytes {t} \<subseteq> {HEAP_LO..<unat c}" using tiles_payloads t by blast
  then have t': "HEAP_LO \<le> unat t" "unat t + 32 \<le> unat c" by auto
  have u: "unat (c + 32) = unat c + 32" "unat ?top = unat c + 8224" "unat sp = unat c + 8152"
    using eb(1) hi r by (simp_all add: sp_def unat_plus_if' unat_add_numeral)
  have pay: "task_bytes {t} \<subseteq> payloads ?bs" "?S \<subseteq> payloads ?bs" using t by (auto simp: as'_def payload_def)
  have ta: "tasks_apart (vmem z) [t]" if "heap_ok z ?bs" for z :: "'a task_scheme"
    using struct_apart [OF that t'(1)] t'(2) eb(1) by simp
  obtain s4 where s4: "kmalloc k 8192 s = Inr (c + 32, s4)" "heap_ok s4 ?bs" "full as'"
    "only_on (extent (HB c r True)) (s\<lparr>heap_used := heap_used s4\<rparr>) s4"
    using kmalloc_end [OF h, of 8192 k] r k by (auto simp: as'_def algebra_simps)
  obtain s5 where s5: "set_stack_base t (c + 32) s4 = Inr s5" "only_on (task_bytes {t}) s4 s5"
    using set_stack_base_ok [OF ta [OF s4(2)]] .
  note h5 = heap_ok_payload [OF s4(2) s5(2) pay(1)]
  obtain s6 where s6: "set_state t TASK_READY s5 = Inr s6" "only_on (task_bytes {t}) s5 s6" "task_state t s6 = Inr TASK_READY"
    using set_state_ok [OF ta [OF h5], of t TASK_READY] by auto
  note h6 = heap_ok_payload [OF h5 s6(2) pay(1)]
  obtain s7 where s7: "push_frame [x, e, 0x202, 0, 0, 0, 0, 0, 0] ?top s6 = Inr (sp, s7)" "only_on ?S s6 s7"
    "frame_at (vmem s7) sp (start_frame e x)"
  proof -
    have "only_on {unat ?top - 72..<unat ?top} s6 z \<Longrightarrow> only_on ?S s6 z" for z
      using u(2) by (auto elim!: only_on_trans [OF only_on_refl [of "{}"]])
    with push_frame_ok [OF heap_okD(1) [OF h6], of "[x, e, 0x202, 0, 0, 0, 0, 0, 0]" ?top] hi eb u(2) r that
    show ?thesis by (auto simp: sp_def start_frame_def)
  qed
  note h7 = heap_ok_payload [OF h6 s7(2) pay(2)]
  obtain s8 where s8: "set_rsp t sp s7 = Inr s8" "only_on (task_bytes {t}) s7 s8" "task_rsp t s8 = Inr sp"
    "task_state t s8 = task_state t s7" using set_rsp_ok [OF ta [OF h7], of t sp] by auto
  have "task_state t s7 = task_state t s6"
    using only_on_reads(2) [OF s7(2), of "t + 20"] eb hi t' by (simp add: task_state_def load32_def unat_plus_if' disjoint_iff)
  moreover have "frame_at (vmem s8) sp (start_frame e x)"
    using frame_at_on [OF s8(2), of sp "start_frame e x"] s7(3) eb hi r u(3) t' by (simp add: disjoint_iff)
  moreover have "only_on (task_bytes {t} \<union> extent (HB c r True)) (s\<lparr>heap_used := heap_used s4\<rparr>) s8"
    by (rule only_on_trans [OF only_on_trans [OF s4(4) s5(2), of "task_bytes {t} \<union> extent (HB c r True)"]
          only_on_trans [OF s6(2) only_on_trans [OF s7(2) s8(2), of "task_bytes {t} \<union> ?S"], of "task_bytes {t} \<union> ?S"]])
      (use r in \<open>auto simp: extent_def\<close>)
  ultimately show ?thesis
    using s4(1,3) s5(1) s6(1,3) s7(1) s8(1,3,4) heap_ok_payload [OF h7 s8(2) pay(1)]
    by (auto simp: new_stack_def TASK_STACK_SIZE_def)
qed

lemma build_task_ok:
  assumes h: "heap_ok s (as @ [HB b r True])" "full as" and r: "8352 < unat r" and n: "length as + 2 < n"
  defines "t \<equiv> b + 32" and "sp \<equiv> b + 8216" and "as' \<equiv> as @ [HB b 32 False, HB (b + 64) 8192 False]"
  shows "\<exists>s' u p. build_task n x e s = Inr (t, s') \<and>
    heap_ok s' (as' @ [HB (b + 8288) (r - 8288) True]) \<and> full as' \<and>
    only_on (extent (HB b r True)) (s\<lparr>next_pid := p, heap_used := u\<rparr>) s' \<and>
    task_state t s' = Inr TASK_READY \<and> task_rsp t s' = Inr sp \<and> frame_at (vmem s') sp (start_frame e x)"
proof -
  note eb = end_block [OF h(1)] and hi = heap_region(1)
  have u: "unat t = unat b + 32" "unat (b + 64) = unat b + 64"
    using eb(1) hi r by (simp_all add: t_def unat_plus_if')
  have r1: "unat (r - 64) = unat r - 64" using r by (simp add: unat_sub word_le_nat_alt)
  let ?E = "extent (HB b r True)"
  obtain s1 u1 p1 where s1: "new_struct n s = Inr (t, s1)" "heap_ok s1 ((as @ [HB b 32 False]) @ [HB (b + 64) (r - 64) True])"
    "full (as @ [HB b 32 False])" "only_on ?E (s\<lparr>heap_used := u1, next_pid := p1\<rparr>) s1"
    using new_struct_ok [OF h, of n] r n by (auto simp: t_def)
  have tp: "task_bytes {t} \<subseteq> payloads (as @ [HB b 32 False])" by (auto simp: u payload_def)
  have sp: "b + 64 + 32 + 8192 - 72 = sp" "b + 64 + 8224 = b + 8288" "r - 64 - 8224 = r - 8288" by (simp_all add: sp_def)
  have "8288 < unat (r - 64)" "length (as @ [HB b 32 False]) + 1 < n" using r r1 n by auto
  from new_stack_ok [OF s1(2,3) this tp, of x e, unfolded sp]
  obtain s2 u2 where s2: "new_stack n x e t s1 = Inr s2" "heap_ok s2 (as' @ [HB (b + 8288) (r - 8288) True])" "full as'"
    "only_on (task_bytes {t} \<union> extent (HB (b + 64) (r - 64) True)) (s1\<lparr>heap_used := u2\<rparr>) s2"
    "task_state t s2 = Inr TASK_READY" "task_rsp t s2 = Inr sp" "frame_at (vmem s2) sp (start_frame e x)"
    unfolding as'_def by auto
  have "task_bytes {t} \<union> extent (HB (b + 64) (r - 64) True) \<subseteq> ?E" using r r1 u by (auto simp: extent_def)
  from only_on_trans [OF only_on_task(1) [OF s1(4)] s2(4) order_refl this]
  have "only_on ?E (s\<lparr>next_pid := p1, heap_used := u2\<rparr>) s2" by simp
  then show ?thesis using s1(1) s2(1-3,5-7) by (auto simp: build_task_def)
qed

section \<open>Linking it into the ring\<close>

lemma linked_turn: "linked (xs @ ys) (hd (xs @ ys)) s \<Longrightarrow> linked (ys @ xs) (hd (ys @ xs)) s"
  by (cases xs; cases ys) (auto simp: linked_append hd_append)

lemma last_task_walk:
  assumes "linked us z s" "task_list s = z" "us \<noteq> []" "z \<notin> set (tl us)" "length us \<le> n"
  shows "last_task n (hd us) s = Inr (last us)"
  using assms
proof (induction us arbitrary: n)
  case (Cons u us)
  obtain k where k: "n = Suc k" using Cons.prems(5) by (cases n) auto
  show ?case
  proof (cases us)
    case Nil
    then show ?thesis using Cons.prems by (simp add: k)
  next
    case (Cons v vs)
    then have "last_task k (hd us) s = Inr (last us)" using Cons.IH [of k] Cons.prems k by auto
    then show ?thesis using Cons Cons.prems by (auto simp: k)
  qed
qed simp

lemma tasks_apart_subset: "tasks_apart m ts \<Longrightarrow> set us \<subseteq> set ts \<Longrightarrow> tasks_apart m us"
  unfolding tasks_apart_def by blast

lemma link_task:
  assumes "tasks_apart (vmem s) (t # cyc)" "distinct (t # cyc)" "linked cyc (hd cyc) s" "task_list s = hd cyc"
    "cyc \<noteq> []" "length cyc \<le> n"
  obtains l s1 s2 where "last_task n (task_list s) s = Inr l" "set_task_next l t s = Inr s1"
    "set_task_next t (task_list s) s1 = Inr s2" "linked (cyc @ [t]) (hd cyc) s2" "tasks_apart (vmem s2) (t # cyc)"
    "only_on (task_bytes (set (t # cyc))) s s2"
    "\<And>u. u \<in> set (t # cyc) \<Longrightarrow> task_state u s2 = task_state u s"
    "\<And>u. u \<in> set (t # cyc) \<Longrightarrow> task_rsp u s2 = task_rsp u s"
proof -
  let ?z = "hd cyc"
  obtain pre l where cyc: "cyc = pre @ [l]" using assms(5) by (metis rev_exhaust)
  have "?z \<notin> set (tl cyc)" using assms(2,5) by (cases cyc) auto
  then have last: "last_task n (task_list s) s = Inr l"
    using last_task_walk [OF assms(3,4,5) _ assms(6)] assms(4) cyc by simp
  obtain s1 where s1: "set_task_next l t s = Inr s1" "tasks_apart (vmem s1) (t # cyc)" "only_on (task_bytes {l}) s s1"
    "\<And>u. u \<in> set (t # cyc) \<Longrightarrow> task_next u s1 = (if u = l then Inr t else task_next u s)"
    "\<And>u. u \<in> set (t # cyc) \<Longrightarrow> task_state u s1 = task_state u s" "\<And>u. u \<in> set (t # cyc) \<Longrightarrow> task_rsp u s1 = task_rsp u s"
    using set_next_ok [OF assms(1), of l t] cyc by auto
  obtain s2 where s2: "set_task_next t ?z s1 = Inr s2" "tasks_apart (vmem s2) (t # cyc)" "only_on (task_bytes {t}) s1 s2"
    "\<And>u. u \<in> set (t # cyc) \<Longrightarrow> task_next u s2 = (if u = t then Inr ?z else task_next u s1)"
    "\<And>u. u \<in> set (t # cyc) \<Longrightarrow> task_state u s2 = task_state u s1" "\<And>u. u \<in> set (t # cyc) \<Longrightarrow> task_rsp u s2 = task_rsp u s1"
    using set_next_ok [OF s1(2), of t ?z] by auto
  have "linked pre l s2 = linked pre l s"
    using assms(2) s1(4) s2(4) by (intro linked_cong) (auto simp: cyc)
  then have "linked (cyc @ [t]) ?z s2"
    using assms(2,3) s1(4) [of l] s2(4) [of l] s2(4) [of t] by (auto simp: cyc linked_append)
  moreover have "only_on (task_bytes (set (t # cyc))) s s2"
    by (rule only_on_trans [OF s1(3) s2(3)]) (auto simp: cyc task_bytes_def)
  ultimately show ?thesis using that [of l s1 s2] last s1 s2 assms(4) by simp
qed

lemma task_fields_on:
  assumes "only_on A s s'" "A \<inter> {unat t..<unat t + 32} = {}" "unat t + 32 \<le> 2 ^ 64"
  shows "task_state t s' = task_state t s" "task_rsp t s' = task_rsp t s" "task_next t s' = task_next t s"
  using assms(2,3) task_offsets [OF assms(3)]
  by (auto intro!: only_on_reads [OF assms(1)] simp: task_state_def task_rsp_def task_next_def load32_def load64_def disjoint_iff)

section \<open>The system\<close>

text \<open>
  The heap has its free memory in one block at the end; the tasks lie in blocks in use.  The
  ring is listed from the running task on, which \<open>task_list\<close> splits: the first task of all comes
  somewhere in it.
\<close>

definition tasking :: "'a task_scheme \<Rightarrow> hblock list \<Rightarrow> u64 \<Rightarrow> u64 \<Rightarrow> u64 list \<Rightarrow> bool" where
  "tasking s as b r ts \<longleftrightarrow> heap_ok s (as @ [HB b r True]) \<and> full as \<and> scheduled s ts \<and>
     task_bytes (set ts) \<subseteq> payloads as \<and> task_list s \<in> set ts"

text \<open>The place of a new task: just before the first one.\<close>

fun insert_before :: "'b \<Rightarrow> 'b \<Rightarrow> 'b list \<Rightarrow> 'b list" where
  "insert_before z x [] = [x]"
| "insert_before z x (y # ys) = (if y = z then x # y # ys else y # insert_before z x ys)"

definition enter :: "u64 \<Rightarrow> u64 \<Rightarrow> u64 list \<Rightarrow> u64 list" where
  "enter z t ts = hd ts # insert_before z t (tl ts)"

lemma insert_before_append: "z \<notin> set xs \<Longrightarrow> insert_before z x (xs @ ys) = xs @ insert_before z x ys"
  by (induction xs) auto

lemma set_enter: "ts \<noteq> [] \<Longrightarrow> set (enter z t ts) = insert t (set ts)" "ts \<noteq> [] \<Longrightarrow> length (enter z t ts) = Suc (length ts)"
proof -
  have "set (insert_before z t us) = insert t (set us) \<and> length (insert_before z t us) = Suc (length us)" for us
    by (induction us) auto
  then show "ts \<noteq> [] \<Longrightarrow> set (enter z t ts) = insert t (set ts)" "ts \<noteq> [] \<Longrightarrow> length (enter z t ts) = Suc (length ts)"
    by (cases ts; auto simp: enter_def)+
qed

text \<open>The ring from the first task on, which is where \<open>task_create\<close> starts its search.\<close>

lemma ring_from_first:
  assumes "z \<in> set ts" "distinct ts"
  obtains xs ys where "ts = xs @ ys" "ys \<noteq> []" "hd ys = z"
    "enter z t ts = (if xs = [] then ys @ [t] else xs @ t # ys)"
proof -
  obtain xs us where ts: "ts = xs @ z # us" "z \<notin> set xs" using split_list_first [OF assms(1)] by blast
  have "enter z t ts = (if xs = [] then (z # us) @ [t] else xs @ t # z # us)"
  proof (cases xs)
    case Nil
    then have "z \<notin> set us" using assms(2) ts(1) by simp
    then show ?thesis using Nil insert_before_append [of z us t "[]"] by (simp add: enter_def ts(1))
  next
    case (Cons x xs')
    then show ?thesis using ts insert_before_append [of z xs' t "z # us"] by (auto simp: enter_def)
  qed
  then show ?thesis using that [of xs "z # us"] ts(1) by simp
qed

text \<open>What the queue of live tasks gains.\<close>

definition joined :: "(u64 \<times> u64 res) list \<Rightarrow> u64 \<times> u64 res \<Rightarrow> bool \<Rightarrow> (u64 \<times> u64 res) list \<Rightarrow> bool" where
  "joined q p at_end q' \<longleftrightarrow> (\<exists>q1 q2. q = q1 @ q2 \<and> q' = q1 @ p # q2 \<and> q1 \<noteq> [] \<and> (at_end \<longrightarrow> q2 = []))"

lemma queue_joined:
  assumes "ts = xs @ ys" "ys \<noteq> []" "t \<notin> set ts" "waiting s' t" "task_rsp t s' = Inr sp"
    "\<And>u. u \<in> set ts \<Longrightarrow> task_state u s' = task_state u s" "\<And>u. u \<in> set ts \<Longrightarrow> task_rsp u s' = task_rsp u s"
  shows "joined (queue s ts) (t, Inr sp) (xs = []) (queue s' (if xs = [] then ys @ [t] else xs @ t # ys))"
proof -
  have f: "map (\<lambda>u. (u, task_rsp u s')) (filter (waiting s') us) = map (\<lambda>u. (u, task_rsp u s)) (filter (waiting s) us)"
    if "set us \<subseteq> set ts" for us
  proof -
    have "filter (waiting s') us = filter (waiting s) us" using that assms(6) by (intro filter_cong) (auto simp: waiting_def)
    then show ?thesis using that assms(7) by auto
  qed
  show ?thesis
  proof (cases xs)
    case Nil
    then obtain h us where "ts = h # us" "ys = h # us" using assms(1,2) by (cases ys) auto
    then show ?thesis using Nil f [of us] assms(4,5,7)
      by (auto simp: joined_def queue_def intro!: exI [of _ "queue s ts"])
  next
    case (Cons h us)
    have us: "set us \<subseteq> set ts" and ys: "set ys \<subseteq> set ts" by (auto simp: assms(1) Cons)
    let ?q1 = "(h, task_rsp h s) # map (\<lambda>u. (u, task_rsp u s)) (filter (waiting s) us)"
      and ?q2 = "map (\<lambda>u. (u, task_rsp u s)) (filter (waiting s) ys)"
    have "queue s ts = ?q1 @ ?q2" by (simp add: assms(1) Cons queue_def)
    moreover have "queue s' (xs @ t # ys) = ?q1 @ (t, Inr sp) # ?q2"
      using f [of us, OF us] f [of ys, OF ys] assms(1,4,5,7) by (simp add: Cons queue_def)
    ultimately show ?thesis using Cons unfolding joined_def by (intro exI [of _ ?q1] exI [of _ ?q2]) simp
  qed
qed

lemma scheduled_enter:
  assumes "scheduled s ts" "ts = xs @ ys" "ys \<noteq> []" "t \<notin> set ts" "t \<noteq> 0" "waiting s' t"
    "tasks_apart (vmem s') (t # ts)" "linked ((ys @ xs) @ [t]) (hd (ys @ xs)) s'" "current_task s' = current_task s"
    "\<And>u. u \<in> set ts \<Longrightarrow> task_state u s' = task_state u s"
  shows "scheduled s' (if xs = [] then ys @ [t] else xs @ t # ys)"
proof -
  let ?ts = "if xs = [] then ys @ [t] else xs @ t # ys"
  have s: "distinct ts" "0 \<notin> set ts" "hd ts = current_task s" "task_state (hd ts) s = Inr TASK_RUNNING"
    "\<forall>u \<in> set (tl ts). waiting s u \<or> task_state u s = Inr TASK_DEAD"
    using assms(1) by (auto simp: scheduled_def ring_def)
  have set: "set ?ts = insert t (set ts)" "hd ?ts = hd ts" "set (tl ?ts) = insert t (set (tl ts))"
    using assms(2,3) by (cases xs; cases ys; auto)+
  have "linked ?ts (hd ?ts) s'"
    using assms(3,8) linked_turn [of ys "xs @ [t]" s'] by (cases xs) auto
  moreover have "tasks_apart (vmem s') ?ts" by (rule tasks_apart_subset [OF assms(7)]) (use set(1) in simp)
  moreover have "distinct ?ts" using s(1) assms(2,4) by auto
  ultimately have "ring s' ?ts" using s(2) assms(3,5) set(1) by (auto simp: ring_def)
  moreover have "hd ts \<in> set ts" using assms(2,3) by (intro hd_in_set) simp
  moreover have "set (tl ts) \<subseteq> set ts" by (cases ts) auto
  ultimately show ?thesis
    using s(3-5) set assms(6,9,10) by (auto simp: scheduled_def waiting_def subset_iff)
qed

lemma tasks_below:
  assumes "heap_ok s (as @ [HB b r True])" "task_bytes (set ts) \<subseteq> payloads as" "v \<in> set ts"
  shows "{unat v..<unat v + 32} \<subseteq> {HEAP_LO..<unat b}"
proof -
  have "payloads as \<subseteq> {HEAP_LO..<unat b}"
    using heap_okD(3) [OF assms(1)] tiles_payloads [of HEAP_LO as] by (auto simp: tiles_append)
  moreover have "{unat v..<unat v + 32} \<subseteq> task_bytes (set ts)" using assms(3) unfolding task_bytes_def by blast
  ultimately show ?thesis using assms(2) by blast
qed

lemma apart_new:
  assumes "heap_ok s (as @ [HB b r True])" "task_bytes (set ts) \<subseteq> payloads as" "tasks_apart m ts" "32 \<le> unat r"
    "\<forall>x. m x \<noteq> None \<longrightarrow> vmem s' x \<noteq> None" "heap_ok s' bs"
  shows "tasks_apart (vmem s') ((b + 32) # ts)"
proof -
  note eb = end_block [OF assms(1)] and hi = heap_region(1)
  have u: "unat (b + 32) = unat b + 32" using eb(1) hi by (simp add: unat_plus_if')
  have t: "tasks_apart (vmem s') [b + 32]" by (rule struct_apart [OF assms(6)]) (use eb assms(4) u in auto)
  have "apart (b + 32) 32 v 32" "apart v 32 (b + 32) 32" if "v \<in> set ts" for v
    using tasks_below [OF assms(1,2) that] eb hi assms(4) by (auto simp: apart_def u)
  moreover have "mapped (vmem s') v 32" if "v \<in> set ts" for v
    using assms(3,5) that by (auto simp: tasks_apart_def mapped_def)
  ultimately show ?thesis using assms(3) t by (auto simp: tasks_apart_def)
qed

lemma set_next_globals: "set_task_next a v s = Inr s' \<Longrightarrow> task_list s' = task_list s"
  by (auto simp: set_task_next_def store64_def rbind_eq_Inr)

lemma only_on_globals:
  "only_on A s t \<Longrightarrow> task_list t = task_list s" "only_on A s t \<Longrightarrow> current_task t = current_task s"
  unfolding only_on_def by (cases s, cases t, auto)+

lemma link_enter:
  assumes "scheduled s ts" "task_list s \<in> set ts" "tasks_apart (vmem s) (t # ts)" "t \<notin> set ts" "t \<noteq> 0" "waiting s t"
    "task_rsp t s = Inr sp" "length ts \<le> n"
  defines "ts' \<equiv> enter (task_list s) t ts"
  obtains l s1 s2 where "last_task n (task_list s) s = Inr l" "set_task_next l t s = Inr s1"
    "set_task_next t (task_list s1) s1 = Inr s2" "scheduled s2 ts'"
    "joined (queue s ts) (t, Inr sp) (task_list s = current_task s) (queue s2 ts')"
    "only_on (task_bytes (insert t (set ts))) s s2"
proof -
  have ring: "distinct ts" "linked ts (hd ts) s" using assms(1) by (auto simp: scheduled_def ring_def)
  obtain xs ys where xy: "ts = xs @ ys" "ys \<noteq> []" "hd ys = task_list s" "ts' = (if xs = [] then ys @ [t] else xs @ t # ys)"
    using ring_from_first [OF assms(2) ring(1), of t] unfolding ts'_def by metis
  let ?cyc = "ys @ xs"
  have lc: "linked ?cyc (hd ?cyc) s" using ring(2) unfolding xy(1) by (rule linked_turn)
  have cyc: "tasks_apart (vmem s) (t # ?cyc)" "distinct (t # ?cyc)" "task_list s = hd ?cyc" "?cyc \<noteq> []" "length ?cyc \<le> n"
    using tasks_apart_subset [OF assms(3), of "t # ?cyc"] ring(1) assms(4,8) xy(1-3) by auto
  obtain l s1 s2 where l: "last_task n (task_list s) s = Inr l" "set_task_next l t s = Inr s1"
    "set_task_next t (task_list s) s1 = Inr s2" "linked (?cyc @ [t]) (hd ?cyc) s2" "tasks_apart (vmem s2) (t # ?cyc)"
    "only_on (task_bytes (set (t # ?cyc))) s s2"
    "\<And>u. u \<in> set (t # ?cyc) \<Longrightarrow> task_state u s2 = task_state u s" "\<And>u. u \<in> set (t # ?cyc) \<Longrightarrow> task_rsp u s2 = task_rsp u s"
    by (rule link_task [OF cyc(1,2) lc cyc(3-5)], rule that) assumption+
  have set: "set (t # ?cyc) = insert t (set ts)" using xy(1) by auto
  note keep = l(7,8) [unfolded set]
  have "tasks_apart (vmem s2) (t # ts)" by (rule tasks_apart_subset [OF l(5)]) (use set in simp)
  moreover have w: "waiting s2 t" using keep(1) [of t] assms(6) by (simp add: waiting_def)
  ultimately have "scheduled s2 ts'"
    using scheduled_enter [OF assms(1) xy(1,2) assms(4,5) w _ l(4)] keep(1) only_on_globals(2) [OF l(6)] by (simp add: xy(4))
  moreover have "joined (queue s ts) (t, Inr sp) (xs = []) (queue s2 ts')"
    unfolding xy(4) by (rule queue_joined [OF xy(1,2) assms(4) w]) (use keep assms(7) in auto)
  moreover have "task_list s = current_task s \<longleftrightarrow> xs = []"
    using assms(1) xy(1-3) ring(1) by (cases xs; cases ys) (auto simp: scheduled_def)
  ultimately show ?thesis using that [OF l(1,2) _ _ _ l(6) [unfolded set]] l(3) set_next_globals [OF l(2)] by simp
qed

text \<open>Writing outside the structs keeps the ring.\<close>

lemma scheduled_on:
  assumes "scheduled s ts" "only_on A (s\<lparr>next_pid := p, heap_used := u\<rparr>) t" "A \<inter> task_bytes (set ts) = {}"
  shows "scheduled t ts" "queue t ts = queue s ts" "tasks_apart (vmem t) ts"
proof -
  have ta: "tasks_apart (vmem s) ts" using assms(1) by (simp add: scheduled_def ring_def)
  have old: "task_state v t = task_state v s" "task_rsp v t = task_rsp v s" "task_next v t = task_next v s" if "v \<in> set ts" for v
  proof -
    have "A \<inter> {unat v..<unat v + 32} = {}" "unat v + 32 \<le> 2 ^ 64"
      using assms(3) ta that by (auto simp: task_bytes_def tasks_apart_def)
    from task_fields_on [OF assms(2) this] show "task_state v t = task_state v s" "task_rsp v t = task_rsp v s" "task_next v t = task_next v s"
      by (simp_all add: task_state_def task_rsp_def task_next_def load32_def load64_def)
  qed
  have hd: "hd ts \<in> set ts" "set (tl ts) \<subseteq> set ts" using assms(1) by (cases ts, auto simp: scheduled_def ring_def)+
  then have w: "waiting t v = waiting s v" if "v \<in> set (tl ts)" for v using old(1) that by (auto simp: waiting_def)
  have "\<forall>x. vmem s x \<noteq> None \<longrightarrow> vmem t x \<noteq> None" using assms(2) by (simp add: only_on_def)
  then show ta': "tasks_apart (vmem t) ts" using ta by (auto simp: tasks_apart_def mapped_def)
  have "linked ts (hd ts) t = linked ts (hd ts) s" using old(3) by (intro linked_cong) auto
  then show "scheduled t ts"
    using assms(1) ta' hd old w only_on_globals(2) [OF assms(2)] by (auto simp: scheduled_def ring_def subset_iff)
  have "filter (waiting t) (tl ts) = filter (waiting s) (tl ts)" using w by (intro filter_cong) auto
  then show "queue t ts = queue s ts" using hd old(2) by (auto simp: queue_def)
qed

text \<open>\<open>task_create\<close> on the whole.\<close>

lemma task_create_ok:
  assumes T: "tasking s as b r ts" and r: "8352 < unat r" and n: "length as + 2 < n" "length ts \<le> n"
  defines "t \<equiv> b + 32" and "sp \<equiv> b + 8216" and "as' \<equiv> as @ [HB b 32 False, HB (b + 64) 8192 False]"
    and "ts' \<equiv> enter (task_list s) (b + 32) ts"
  shows "\<exists>s' u p. task_create n x e s = Inr (t, s') \<and> tasking s' as' (b + 8288) (r - 8288) ts' \<and>
    joined (queue s ts) (t, Inr sp) (task_list s = current_task s) (queue s' ts') \<and>
    frame_at (vmem s') sp (start_frame e x) \<and> t \<notin> set ts \<and>
    only_on (extent (HB b r True) \<union> task_bytes (set ts)) (s\<lparr>next_pid := p, heap_used := u\<rparr>) s'"
proof -
  have s: "heap_ok s (as @ [HB b r True])" "full as" "scheduled s ts" "task_bytes (set ts) \<subseteq> payloads as" "task_list s \<in> set ts"
    using T by (auto simp: tasking_def)
  note eb = end_block [OF s(1)] and hi = heap_region(1) and lo = tasks_below [OF s(1,4)]
  let ?E = "extent (HB b r True)"
  have E: "?E = {unat b..<HEAP_HI}" using eb(1) by (simp add: extent_def)
  obtain s2 u p where s2: "build_task n x e s = Inr (t, s2)" "heap_ok s2 (as' @ [HB (b + 8288) (r - 8288) True])" "full as'"
    "only_on ?E (s\<lparr>next_pid := p, heap_used := u\<rparr>) s2" "task_state t s2 = Inr TASK_READY" "task_rsp t s2 = Inr sp"
    "frame_at (vmem s2) sp (start_frame e x)"
    using build_task_ok [OF s(1,2) r n(1), of x e] unfolding t_def sp_def as'_def by blast
  have u: "unat t = unat b + 32" "unat sp = unat b + 8216" "unat (b + 64) = unat b + 64"
    using eb(1) hi r by (simp_all add: t_def sp_def unat_plus_if')
  have lo': "task_bytes (set ts) \<subseteq> {HEAP_LO..<unat b}" using lo unfolding task_bytes_def by blast
  then have "?E \<inter> task_bytes (set ts) = {}" by (fastforce simp: E)
  note on = scheduled_on [OF s(3) s2(4) this]
  have new: "t \<notin> set ts" "t \<noteq> 0" using lo [of t] u(1) by auto
  have ne: "ts \<noteq> []" using s(5) by auto
  have glob: "task_list s2 = task_list s" "current_task s2 = current_task s" using only_on_globals [OF s2(4)] by simp_all
  have "tasks_apart (vmem s2) (t # ts)"
    using apart_new [OF s(1,4) on(3) _ _ s2(2)] r by (simp add: t_def)
  then obtain l s3 s4 where s4: "last_task n (task_list s2) s2 = Inr l" "set_task_next l t s2 = Inr s3"
    "set_task_next t (task_list s3) s3 = Inr s4" "scheduled s4 ts'"
    "joined (queue s ts) (t, Inr sp) (task_list s = current_task s) (queue s4 ts')"
    "only_on (task_bytes (insert t (set ts))) s2 s4"
    using link_enter [OF on(1) _ _ new _ s2(6) n(2)] s(5) s2(5) on(2) glob unfolding ts'_def t_def waiting_def by metis
  have run: "task_create n x e s = Inr (t, s4)" using s2(1) s4(1-3) by (simp add: task_create_build)
  have pay: "task_bytes (insert t (set ts)) \<subseteq> payloads as'"
    using s(4) by (auto simp: as'_def payload_def u)
  then have h4: "heap_ok s4 (as' @ [HB (b + 8288) (r - 8288) True])"
    by (intro heap_ok_payload [OF s2(2) s4(6)]) auto
  have set: "set ts' = insert t (set ts)" "task_list s4 \<in> set ts'"
    using set_enter(1) [OF ne] s(5) only_on_globals(1) [OF s4(6)] glob(1) by (auto simp: ts'_def t_def)
  have "frame_at (vmem s4) sp (start_frame e x)"
    using frame_at_on [OF s4(6), of sp "start_frame e x"] s2(7) lo' u eb hi r by (fastforce simp: disjoint_iff)
  moreover have "only_on (?E \<union> task_bytes (set ts)) (s\<lparr>next_pid := p, heap_used := u\<rparr>) s4"
    by (rule only_on_trans [OF s2(4) s4(6)]) (use r eb in \<open>auto simp: E u\<close>)
  ultimately show ?thesis using run h4 s2(3) s4(4,5) pay new(1) set by (auto simp: tasking_def)
qed

lemma scheduler_init_ok:
  assumes h: "heap_ok s (as @ [HB b r True])" "full as" and r: "128 < unat r" and n: "length as + 1 < n"
  shows "\<exists>s' r0. scheduler_init n s = Inr s' \<and> tasking s' (as @ [HB b 32 False]) (b + 64) (r - 64) [b + 32] \<and>
    current_task s' = b + 32 \<and> task_list s' = b + 32 \<and> queue s' [b + 32] = [(b + 32, Inr r0)] \<and>
    only_on (extent (HB b r True)) (s\<lparr>heap_used := heap_used s', current_task := b + 32, task_list := b + 32\<rparr>) s'"
proof -
  let ?t = "b + 32" and ?bs = "(as @ [HB b 32 False]) @ [HB (b + 64) (r - 64) True]"
  note eb = end_block [OF h(1)] and hi = heap_region(1)
  have u: "unat ?t = unat b + 32" using eb(1) hi by (simp add: unat_add_numeral)
  have pay: "task_bytes {?t} \<subseteq> payloads ?bs" by (auto simp: u payload_def)
  obtain s1 where s1: "kmalloc n 32 s = Inr (?t, s1)" "heap_ok s1 ?bs" "full (as @ [HB b 32 False])"
    "only_on (extent (HB b r True)) (s\<lparr>heap_used := heap_used s1\<rparr>) s1"
    using kmalloc_end [OF h, of 32 n] r n by (auto simp: algebra_simps)
  have ta: "tasks_apart (vmem z) [?t]" if "heap_ok z ?bs" for z :: "'a task_scheme"
    by (rule struct_apart [OF that]) (use eb r u in auto)
  obtain s2 where s2: "set_pid ?t 0 s1 = Inr s2" "only_on (task_bytes {?t}) s1 s2" using set_pid_ok [OF ta [OF s1(2)]] .
  note h2 = heap_ok_payload [OF s1(2) s2(2) pay]
  obtain s3 where s3: "set_state ?t TASK_RUNNING s2 = Inr s3" "only_on (task_bytes {?t}) s2 s3" "task_state ?t s3 = Inr TASK_RUNNING"
    using set_state_ok [OF ta [OF h2], of ?t TASK_RUNNING] by auto
  note h3 = heap_ok_payload [OF h2 s3(2) pay]
  obtain s4 where s4: "set_task_next ?t ?t s3 = Inr s4" "only_on (task_bytes {?t}) s3 s4" "task_next ?t s4 = Inr ?t"
    "task_state ?t s4 = task_state ?t s3" using set_next_ok [OF ta [OF h3], of ?t ?t] by auto
  note h4 = heap_ok_payload [OF h3 s4(2) pay]
  let ?s = "s4\<lparr>current_task := ?t, task_list := ?t\<rparr>"
  have f: "task_state ?t ?s = task_state ?t s4" "task_next ?t ?s = task_next ?t s4" "task_rsp ?t ?s = task_rsp ?t s4"
    by (simp_all add: task_state_def task_next_def task_rsp_def load32_def load64_def)
  obtain r0 where r0: "task_rsp ?t s4 = Inr r0" using task_rsp_mapped [OF ta [OF h4], of ?t] by auto
  have "?t \<noteq> 0" using u by auto
  then have "scheduled ?s [?t]" using ta [OF h4] f s4(3,4) s3(3) by (simp add: scheduled_def ring_def)
  moreover have "heap_ok ?s ?bs" using h4 by (simp add: heap_ok_def)
  moreover have "task_bytes (set [?t]) \<subseteq> payloads (as @ [HB b 32 False])" by (auto simp: u payload_def)
  ultimately have "tasking ?s (as @ [HB b 32 False]) (b + 64) (r - 64) [?t]" using s1(3) by (simp add: tasking_def)
  moreover have "only_on (extent (HB b r True)) (s\<lparr>heap_used := heap_used s1\<rparr>) s4"
    by (rule only_on_trans [OF only_on_trans [OF s1(4) s2(2) order_refl] only_on_trans [OF s3(2) s4(2) order_refl order_refl] order_refl])
      (use r in \<open>auto simp: u extent_def\<close>)
  then have "only_on (extent (HB b r True)) (s\<lparr>heap_used := heap_used ?s, current_task := ?t, task_list := ?t\<rparr>) ?s"
    using only_on_scheduler by fastforce
  moreover have "scheduler_init n s = Inr ?s"
    using s1(1) s2(1) s3(1) s4(1) by (simp add: scheduler_init_def TASK_SIZE_def)
  ultimately show ?thesis using r0 f by (auto simp: queue_def)
qed

section \<open>Many tasks\<close>

fun create_all :: "nat \<Rightarrow> u64 \<Rightarrow> u64 list \<Rightarrow> 'a task_scheme \<Rightarrow> (u64 list \<times> 'a task_scheme) res" where
  "create_all n x [] s = Inr ([], s)"
| "create_all n x (e # es) s =
     rbind (task_create n x e s) (\<lambda>(t, s). rbind (create_all n x es s) (\<lambda>(ts, s). Inr (t # ts, s)))"

text \<open>A frame in a block in use and apart from the structs of the tasks.\<close>

definition keeps :: "hblock list \<Rightarrow> u64 list \<Rightarrow> u64 \<Rightarrow> nat \<Rightarrow> bool" where
  "keeps as ts a n \<longleftrightarrow> {unat a..<unat a + n} \<subseteq> payloads as - task_bytes (set ts)"

lemma frame_kept:
  assumes T: "tasking s as b r ts" and k: "keeps as ts a (8 * length ws)" and f: "frame_at (vmem s) a ws"
    and o: "only_on (extent (HB b r True) \<union> task_bytes (set ts)) (s\<lparr>next_pid := p, heap_used := u\<rparr>) s'"
  shows "frame_at (vmem s') a ws"
proof (cases "ws = []")
  case False
  have h: "heap_ok s (as @ [HB b r True])" using T by (simp add: tasking_def)
  have "payloads as \<subseteq> {HEAP_LO..<unat b}"
    using heap_okD(3) [OF h] tiles_payloads [of HEAP_LO as] by (auto simp: tiles_append)
  then have a: "{unat a..<unat a + 8 * length ws} \<subseteq> {HEAP_LO..<unat b} - task_bytes (set ts)"
    using k unfolding keeps_def by blast
  have "0 < 8 * length ws" using False by simp
  then have "unat a + (8 * length ws - 1) \<in> {unat a..<unat a + 8 * length ws}" by simp
  from subsetD [OF a this] have "unat a + (8 * length ws - 1) < unat b" by (simp only: Diff_iff atLeastLessThan_iff)
  then have "unat a + 8 * length ws \<le> unat b" using \<open>0 < 8 * length ws\<close> by linarith
  then show ?thesis
    using frame_at_on [OF o, of a ws] a f end_block [OF h] heap_region(1) by (fastforce simp: extent_def disjoint_iff)
qed (simp add: frame_at_def)

lemma queue_hd: "scheduled s ts \<Longrightarrow> queue s ts \<noteq> []"
  by (simp add: queue_def)

lemma create_all_ok:
  assumes "tasking s as b r ts" "task_list s = current_task s" "8288 * length es + 64 < unat r"
    "length as + 2 * length es + 2 < n" "length ts + length es \<le> n"
  shows "\<exists>new s' as' b' r' ts'. create_all n x es s = Inr (map fst new, s') \<and> tasking s' as' b' r' ts' \<and>
    queue s' ts' = queue s ts @ map (\<lambda>(t, r). (t, Inr r)) new \<and> length new = length es \<and>
    length ts' = length ts + length es \<and>
    (\<forall>i < length es. keeps as' ts' (snd (new ! i)) 72 \<and> frame_at (vmem s') (snd (new ! i)) (start_frame (es ! i) x)) \<and>
    (\<forall>a ws. keeps as ts a (8 * length ws) \<longrightarrow> frame_at (vmem s) a ws \<longrightarrow>
       keeps as' ts' a (8 * length ws) \<and> frame_at (vmem s') a ws)"
  using assms
proof (induction es arbitrary: s as b r ts)
  case Nil
  then show ?case by (intro exI [of _ "[]"]) auto
next
  case (Cons e es)
  let ?t = "b + 32" and ?sp = "b + 8216" and ?as = "as @ [HB b 32 False, HB (b + 64) 8192 False]"
    and ?ts = "enter (task_list s) (b + 32) ts"
  have h: "heap_ok s (as @ [HB b r True])" and ne: "ts \<noteq> []" using Cons.prems(1) by (auto simp: tasking_def)
  note eb = end_block [OF h] and hi = heap_region(1)
  obtain s1 u p where s1: "task_create n x e s = Inr (?t, s1)" "tasking s1 ?as (b + 8288) (r - 8288) ?ts"
    "joined (queue s ts) (?t, Inr ?sp) (task_list s = current_task s) (queue s1 ?ts)"
    "frame_at (vmem s1) ?sp (start_frame e x)" "?t \<notin> set ts"
    "only_on (extent (HB b r True) \<union> task_bytes (set ts)) (s\<lparr>next_pid := p, heap_used := u\<rparr>) s1"
    using task_create_ok [OF Cons.prems(1), of n x e] Cons.prems(3-5) by auto
  have q: "queue s1 ?ts = queue s ts @ [(?t, Inr ?sp)]" using s1(3) Cons.prems(2) by (auto simp: joined_def)
  have glob: "task_list s1 = current_task s1" using only_on_globals [OF s1(6)] Cons.prems(2) by simp
  have r1: "unat (r - 8288) = unat r - 8288" using Cons.prems(3) by (simp add: unat_sub word_le_nat_alt)
  have u: "unat ?t = unat b + 32" "unat ?sp = unat b + 8216" "unat (b + 64) = unat b + 64"
    using eb(1) hi Cons.prems(3) by (simp_all add: unat_plus_if')
  have c: "8288 * length es + 64 < unat (r - 8288)" "length ?as + 2 * length es + 2 < n" "length ?ts + length es \<le> n"
    using r1 Cons.prems(3-5) set_enter(2) [OF ne] by simp_all
  obtain new s' as' b' r' ts' where IH: "create_all n x es s1 = Inr (map fst new, s')" "tasking s' as' b' r' ts'"
    "queue s' ts' = queue s1 ?ts @ map (\<lambda>(t, r). (t, Inr r)) new" "length new = length es"
    "length ts' = length ?ts + length es"
    "\<forall>i < length es. keeps as' ts' (snd (new ! i)) 72 \<and> frame_at (vmem s') (snd (new ! i)) (start_frame (es ! i) x)"
    "\<forall>a ws. keeps ?as ?ts a (8 * length ws) \<longrightarrow> frame_at (vmem s1) a ws \<longrightarrow>
       keeps as' ts' a (8 * length ws) \<and> frame_at (vmem s') a ws"
    using Cons.IH [OF s1(2) glob c] by blast
  have lo: "task_bytes (set ts) \<subseteq> {HEAP_LO..<unat b}"
    using tasks_below [OF h] Cons.prems(1) by (fastforce simp: tasking_def task_bytes_def)
  have ts: "task_bytes (set ?ts) = {unat b + 32..<unat b + 64} \<union> task_bytes (set ts)"
    by (auto simp: set_enter(1) [OF ne] u)
  have "keeps ?as ?ts ?sp 72" using lo Cons.prems(3) unfolding keeps_def ts by (auto simp: u payload_def)
  then have first: "keeps as' ts' ?sp 72 \<and> frame_at (vmem s') ?sp (start_frame e x)"
    using IH(7) [rule_format, of ?sp "start_frame e x"] s1(4) by simp
  have kept: "keeps as' ts' a (8 * length ws) \<and> frame_at (vmem s') a ws"
    if "keeps as ts a (8 * length ws)" "frame_at (vmem s) a ws" for a ws
  proof -
    have "payloads as \<subseteq> {HEAP_LO..<unat b}"
      using heap_okD(3) [OF h] tiles_payloads [of HEAP_LO as] by (auto simp: tiles_append)
    then have "keeps ?as ?ts a (8 * length ws)" using that(1) unfolding keeps_def ts by fastforce
    then show ?thesis using IH(7) frame_kept [OF Cons.prems(1) that s1(6)] by blast
  qed
  have all: "\<forall>i < length (e # es). keeps as' ts' (snd (((?t, ?sp) # new) ! i)) 72 \<and>
      frame_at (vmem s') (snd (((?t, ?sp) # new) ! i)) (start_frame ((e # es) ! i) x)"
    using first IH(6) by (auto simp: less_Suc_eq_0_disj)
  have "create_all n x (e # es) s = Inr (map fst ((?t, ?sp) # new), s')" "length ((?t, ?sp) # new) = length (e # es)"
    "queue s' ts' = queue s ts @ map (\<lambda>(t, r). (t, Inr r)) ((?t, ?sp) # new)" "length ts' = length ts + length (e # es)"
    using s1(1) IH(1,3-5) q set_enter(2) [OF ne] by simp_all
  with IH(2) all kept show ?case by blast
qed

lemma frame_kept_switching:
  assumes "only_on (task_bytes (set ts)) (s\<lparr>current_task := c\<rparr>) s'" "keeps as ts a (8 * length ws)"
    "heap_ok s (as @ bs)" "frame_at (vmem s) a ws"
  shows "frame_at (vmem s') a ws"
proof (cases "ws = []")
  case False
  have "payloads as \<subseteq> {HEAP_LO..<HEAP_HI}" using tiles_payloads [OF heap_okD(3) [OF assms(3)]] by auto
  then have a: "{unat a..<unat a + 8 * length ws} \<subseteq> {HEAP_LO..<HEAP_HI} - task_bytes (set ts)"
    using assms(2) unfolding keeps_def by blast
  have "0 < 8 * length ws" using False by simp
  then have "unat a + (8 * length ws - 1) \<in> {unat a..<unat a + 8 * length ws}" by simp
  from subsetD [OF a this] have "unat a + (8 * length ws - 1) < HEAP_HI" by (simp only: Diff_iff atLeastLessThan_iff)
  then have "unat a + 8 * length ws \<le> 2 ^ 64" using heap_region(1) by linarith
  then show ?thesis using frame_at_on [OF assms(1), of a ws] a assms(4) by (auto simp: disjoint_iff subset_iff)
qed (simp add: frame_at_def)

lemma round_robin_starts:
  assumes s: "heap_ok s (as @ [HB b r True])" "full as" "8288 * length es + 128 < unat r"
    "length as + 2 * length es + 3 < n" and es: "es \<noteq> []"
  shows "\<exists>s0 ts s1 log s2 bs. scheduler_init n s = Inr s0 \<and> create_all n x es s0 = Inr (ts, s1) \<and>
    switches n vs s1 = Inr (log, s2) \<and> heap_ok s2 bs \<and> length ts = length es \<and> length log = length vs \<and>
    (\<forall>i < length vs. fst (log ! i) = (current_task s0 # ts) ! (Suc i mod Suc (length es)) \<and>
       (if i < length es then frame_at (vmem s2) (snd (log ! i)) (start_frame (es ! i) x)
        else snd (log ! i) = vs ! (i - length es)))"
proof -
  obtain s0 r0 where s0: "scheduler_init n s = Inr s0" "tasking s0 (as @ [HB b 32 False]) (b + 64) (r - 64) [b + 32]"
    "current_task s0 = b + 32" "task_list s0 = b + 32" "queue s0 [b + 32] = [(b + 32, Inr r0)]"
    using scheduler_init_ok [OF s(1,2), of n] s(3,4) by auto
  have "unat (r - 64) = unat r - 64" using s(3) by (simp add: unat_sub word_le_nat_alt)
  then have c: "task_list s0 = current_task s0" "8288 * length es + 64 < unat (r - 64)"
    "length (as @ [HB b 32 False]) + 2 * length es + 2 < n" "length [b + 32] + length es \<le> n"
    using s(3,4) s0(3,4) by simp_all
  obtain new s1 as' b' r' ts' where s1: "create_all n x es s0 = Inr (map fst new, s1)" "tasking s1 as' b' r' ts'"
    "queue s1 ts' = queue s0 [b + 32] @ map (\<lambda>(t, r). (t, Inr r)) new" "length new = length es"
    "length ts' = length [b + 32] + length es"
    "\<forall>i < length es. keeps as' ts' (snd (new ! i)) 72 \<and> frame_at (vmem s1) (snd (new ! i)) (start_frame (es ! i) x)"
    using create_all_ok [OF s0(2) c] by blast
  let ?q = "(b + 32, r0) # new"
  have T: "scheduled s1 ts'" "heap_ok s1 (as' @ [HB b' r' True])" "task_bytes (set ts') \<subseteq> payloads as'"
    using s1(2) by (auto simp: tasking_def)
  have "length ts' \<le> n" "queue s1 ts' = map (\<lambda>(t, r). (t, Inr r)) ?q" "2 \<le> length ?q"
    using s(4) s0(5) s1(3-5) es by (auto simp: Suc_le_eq)
  from round_robin [OF T(1) this, of vs] obtain log s2 where l: "switches n vs s1 = Inr (log, s2)" "length log = length vs"
    "\<forall>i < length vs. log ! i = (fst (?q ! (Suc i mod length ?q)),
        if Suc i < length ?q then snd (?q ! Suc i) else vs ! (Suc i - length ?q))"
    "only_on (task_bytes (set ts')) (s1\<lparr>current_task := current_task s2\<rparr>) s2" by blast
  have h2: "heap_ok s2 (as' @ [HB b' r' True])"
    by (rule heap_ok_payload [OF _ l(4)]) (use T(2,3) in auto)
  have "frame_at (vmem s2) (snd (new ! i)) (start_frame (es ! i) x)" if "i < length es" for i
    using frame_kept_switching [OF l(4) _ T(2), of "snd (new ! i)" "start_frame (es ! i) x"] s1(6) that by simp
  moreover have "fst (?q ! j) = ((b + 32) # map fst new) ! j" if "j < Suc (length es)" for j
    using that s1(4) by (cases j) auto
  ultimately have "\<forall>i < length vs. fst (log ! i) = (current_task s0 # map fst new) ! (Suc i mod Suc (length es)) \<and>
       (if i < length es then frame_at (vmem s2) (snd (log ! i)) (start_frame (es ! i) x)
        else snd (log ! i) = vs ! (i - length es))"
    using l(3) s0(3) s1(4) by simp
  then show ?thesis using s0(1) s1(1,4) l(1,2) h2 by (auto intro!: exI [of _ s0] exI [of _ s1] exI [of _ s2])
qed

section \<open>Properties\<close>

text \<open>C21. \<open>task_create\<close> adds one task to the queue and disturbs nothing.  On a heap with room it takes
  two blocks, puts the new task behind all others that the first task of the ring has behind it
  (at the very end when the first task creates it), with a stack from which \<open>switch.asm\<close> pops zero
  registers and enabled interrupts and enters \<open>e\<close>, whose return goes to \<open>task_exit\<close>; blocks in use
  keep their bytes but for the structs of the ring, and heap and ring stay well-formed.\<close>

theorem task_create_joins_queue:
  assumes "tasking s as b r ts" "8352 < unat r" "length as + 2 < n" "length ts \<le> n"
  shows "\<exists>s' as' ts' sp u p. task_create n x e s = Inr (b + 32, s') \<and>
    tasking s' as' (b + 8288) (r - 8288) ts' \<and> set as \<subseteq> set as' \<and> set ts' = insert (b + 32) (set ts) \<and> b + 32 \<notin> set ts \<and>
    joined (queue s ts) (b + 32, Inr sp) (task_list s = current_task s) (queue s' ts') \<and>
    frame_at (vmem s') sp [0, 0, 0, 0, 0, 0, 0x202, e, x] \<and>
    only_on (extent (HB b r True) \<union> task_bytes (set ts)) (s\<lparr>next_pid := p, heap_used := u\<rparr>) s'"
proof -
  have "ts \<noteq> []" using assms(1) by (auto simp: tasking_def)
  then have "set (enter (task_list s) (b + 32) ts) = insert (b + 32) (set ts)" by (rule set_enter(1))
  with task_create_ok [OF assms, of x e] show ?thesis
    unfolding start_frame_def by (metis Un_upper1 set_append)
qed

lemma demo_tasks: "\<exists>s :: task. heap_ok s [initial_block]"
proof -
  obtain s0 :: heap where "heap_ok s0 [initial_block]" using demo_heap by blast
  then have "heap_ok (vmm.extend (heap.extend s0 \<lparr>cr3 = 0\<rparr>) \<lparr>current_task = 0, task_list = 0, next_pid = 1\<rparr>) [initial_block]"
    by (simp add: heap_ok_def vmm.defs heap.defs)
  then show ?thesis by blast
qed

lemma initial_size: "initial_block = HB HEAP_VIRT_START 0xFFFE0 True"
  by (simp add: initial_block_def HEAP_INITIAL_SIZE_def HEAP_HEADER_SIZE_def)

theorem task_create_joins_queue_witness:
  "\<exists>(s :: task) s' t sp. task_create 5 7 9 s = Inr (t, s') \<and> frame_at (vmem s') sp [0, 0, 0, 0, 0, 0, 0x202, 9, 7]"
proof -
  obtain s :: task where "heap_ok s ([] @ [HB HEAP_VIRT_START 0xFFFE0 True])" using demo_tasks initial_size by auto
  from scheduler_init_ok [OF this, of 5] obtain s0 :: task where
    "tasking s0 ([] @ [HB HEAP_VIRT_START 32 False]) (HEAP_VIRT_START + 64) (0xFFFE0 - 64) [HEAP_VIRT_START + 32]"
    by (auto simp: full_def)
  from task_create_joins_queue [OF this, of 5 7 9] show ?thesis by simp blast
qed

text \<open>C7. From \<open>scheduler_init\<close> on every task runs, in the order of creation.  The first yields enter the
  created tasks one after the other, each at its own entry with \<open>task_exit\<close> to return to, however
  many fit into the heap; from then on all tasks, the first included, resume in turn with the
  stack pointers they yielded with, and the heap stays well-formed throughout.\<close>

theorem tasks_start_in_order:
  assumes "heap_ok s (as @ [HB b r True])" "full as" "8288 * length es + 128 < unat r"
    "length as + 2 * length es + 3 < n" "es \<noteq> []"
  shows "\<exists>s0 ts s1 log s2 bs. scheduler_init n s = Inr s0 \<and> create_all n x es s0 = Inr (ts, s1) \<and>
    switches n vs s1 = Inr (log, s2) \<and> heap_ok s2 bs \<and> length ts = length es \<and> length log = length vs \<and>
    (\<forall>i < length vs. fst (log ! i) = (current_task s0 # ts) ! (Suc i mod Suc (length es)) \<and>
       (if i < length es then frame_at (vmem s2) (snd (log ! i)) [0, 0, 0, 0, 0, 0, 0x202, es ! i, x]
        else snd (log ! i) = vs ! (i - length es)))"
  using round_robin_starts [OF assms, of x vs] unfolding start_frame_def .

theorem tasks_start_in_order_witness:
  "\<exists>(s :: task) s0 ts s1 log s2. scheduler_init 20 s = Inr s0 \<and> create_all 20 7 [100, 200] s0 = Inr (ts, s1) \<and>
     switches 20 [1, 2, 3, 4] s1 = Inr (log, s2) \<and> fst (log ! 0) = ts ! 0 \<and> fst (log ! 1) = ts ! 1 \<and> fst (log ! 2) = current_task s0 \<and>
     frame_at (vmem s2) (snd (log ! 1)) [0, 0, 0, 0, 0, 0, 0x202, 200, 7] \<and> snd (log ! 3) = 2"
proof -
  obtain s :: task where s: "heap_ok s ([] @ [HB HEAP_VIRT_START 0xFFFE0 True])" using demo_tasks initial_size by auto
  obtain s0 ts s1 log s2 where r: "scheduler_init 20 s = Inr s0" "create_all 20 7 [100, 200] s0 = Inr (ts, s1)"
    "switches 20 [1, 2, 3, 4] s1 = Inr (log, s2)" "length ts = 2"
    and l: "\<forall>i < length [1, 2, 3, 4 :: u64]. fst (log ! i) = (current_task s0 # ts) ! (Suc i mod Suc (length [100, 200 :: u64])) \<and>
       (if i < length [100, 200 :: u64] then frame_at (vmem s2) (snd (log ! i)) [0, 0, 0, 0, 0, 0, 0x202, [100, 200] ! i, 7]
        else snd (log ! i) = [1, 2, 3, 4] ! (i - length [100, 200 :: u64]))"
    using tasks_start_in_order [OF s, of "[100, 200]" 20 7 "[1, 2, 3, 4]"] by (auto simp: full_def)
  have "fst (log ! 0) = ts ! 0" "fst (log ! 1) = ts ! 1" "fst (log ! 2) = current_task s0" "snd (log ! 3) = 2"
    "frame_at (vmem s2) (snd (log ! 1)) [0, 0, 0, 0, 0, 0, 0x202, 200, 7]"
    using l [rule_format, of 0] l [rule_format, of 1] l [rule_format, of 2] l [rule_format, of 3] by simp_all
  with r(1-3) show ?thesis by blast
qed

end
