(* ===== verification/Ata.thy ===== *)
theory Ata
  imports Serial
begin

text \<open>
  \<open>kernel/drivers/ata.c\<close>: the PIO driver of the primary disk.  The two waiting loops poll
  the status port with a bound on the number of rounds; the drive is the device parameter.
\<close>

definition ATA_PRIMARY_DATA :: u16 where "ATA_PRIMARY_DATA = 0x1F0"
definition ATA_PRIMARY_SECCOUNT :: u16 where "ATA_PRIMARY_SECCOUNT = 0x1F2"
definition ATA_PRIMARY_LBA_LO :: u16 where "ATA_PRIMARY_LBA_LO = 0x1F3"
definition ATA_PRIMARY_LBA_MID :: u16 where "ATA_PRIMARY_LBA_MID = 0x1F4"
definition ATA_PRIMARY_LBA_HI :: u16 where "ATA_PRIMARY_LBA_HI = 0x1F5"
definition ATA_PRIMARY_DRV_HEAD :: u16 where "ATA_PRIMARY_DRV_HEAD = 0x1F6"
definition ATA_PRIMARY_COMM_STAT :: u16 where "ATA_PRIMARY_COMM_STAT = 0x1F7"
definition ATA_CMD_READ_PIO :: u8 where "ATA_CMD_READ_PIO = 0x20"
definition ATA_CMD_WRITE_PIO :: u8 where "ATA_CMD_WRITE_PIO = 0x30"
definition ATA_SR_BSY :: u8 where "ATA_SR_BSY = 0x80"
definition ATA_SR_DRQ :: u8 where "ATA_SR_DRQ = 0x08"
definition ATA_SR_ERR :: u8 where "ATA_SR_ERR = 0x01"

definition ata_wait_bsy :: "device \<Rightarrow> nat \<Rightarrow> 'a machine_scheme \<Rightarrow> 'a machine_scheme res" where
  "ata_wait_bsy dev n s = spin dev n ATA_PRIMARY_COMM_STAT (\<lambda>v. v AND ATA_SR_BSY = 0) s"

fun ata_wait_drq :: "device \<Rightarrow> nat \<Rightarrow> 'a machine_scheme \<Rightarrow> 'a machine_scheme res" where
  "ata_wait_drq dev 0 s = Inl OutOfFuel"
| "ata_wait_drq dev (Suc n) s =
     (let (v, s) = inb dev ATA_PRIMARY_COMM_STAT s in
      if v AND ATA_SR_DRQ = 0 then
        let (v, s) = inb dev ATA_PRIMARY_COMM_STAT s in
        if v AND ATA_SR_ERR \<noteq> 0 then Inl (Panic (str ''ATA Disk Error!''))
        else ata_wait_drq dev n s
      else Inr s)"

definition ata_init :: "device \<Rightarrow> nat \<Rightarrow> 'a machine_scheme \<Rightarrow> 'a machine_scheme res" where
  "ata_init dev n s =
     rbind (serial_puts dev n SERIAL_COM1 (str ''ATA: Initializing PIO driver...\<newline>'') s) (\<lambda>s.
     let (v, s) = inb dev ATA_PRIMARY_COMM_STAT s in
     if v = 0xFF then serial_puts dev n SERIAL_COM1 (str ''ATA: No drive detected on Primary bus.\<newline>'') s
     else serial_puts dev n SERIAL_COM1 (str ''ATA: Drive detected.\<newline>'') s)"

text \<open>The six port writes that name one sector and start a command; both transfers open so.\<close>

definition ata_command :: "u32 \<Rightarrow> u8 \<Rightarrow> 'a machine_scheme \<Rightarrow> 'a machine_scheme" where
  "ata_command lba cmd s =
     (let s = outb ATA_PRIMARY_DRV_HEAD (ucast (0xE0 OR (drop_bit 24 lba AND 0x0F))) s;
          s = outb ATA_PRIMARY_SECCOUNT 1 s;
          s = outb ATA_PRIMARY_LBA_LO (ucast lba) s;
          s = outb ATA_PRIMARY_LBA_MID (ucast (drop_bit 8 lba)) s;
          s = outb ATA_PRIMARY_LBA_HI (ucast (drop_bit 16 lba)) s
      in outb ATA_PRIMARY_COMM_STAT cmd s)"

fun read_words :: "device \<Rightarrow> nat list \<Rightarrow> u64 \<Rightarrow> 'a machine_scheme \<Rightarrow> 'a machine_scheme res" where
  "read_words dev [] ptr s = Inr s"
| "read_words dev (i # is) ptr s =
     (let (w, s) = inw dev ATA_PRIMARY_DATA s in
      rbind (store16 (ptr + 2 * of_nat i) w s) (\<lambda>s. read_words dev is ptr s))"

fun write_words :: "nat list \<Rightarrow> u64 \<Rightarrow> 'a machine_scheme \<Rightarrow> 'a machine_scheme res" where
  "write_words [] ptr s = Inr s"
| "write_words (i # is) ptr s =
     rbind (load16 (ptr + 2 * of_nat i) s) (\<lambda>w. write_words is ptr (outw ATA_PRIMARY_DATA w s))"

definition ata_read_sector :: "device \<Rightarrow> nat \<Rightarrow> u32 \<Rightarrow> u64 \<Rightarrow> 'a machine_scheme \<Rightarrow> 'a machine_scheme res" where
  "ata_read_sector dev n lba buffer s =
     rbind (ata_wait_bsy dev n s) (\<lambda>s.
     let s = ata_command lba ATA_CMD_READ_PIO s in
     rbind (ata_wait_bsy dev n s) (\<lambda>s.
     rbind (ata_wait_drq dev n s) (\<lambda>s.
     rbind (read_words dev [0..<256] buffer s) (\<lambda>s.
     let (_, s) = inb dev ATA_PRIMARY_COMM_STAT s;
         (_, s) = inb dev ATA_PRIMARY_COMM_STAT s;
         (_, s) = inb dev ATA_PRIMARY_COMM_STAT s;
         (_, s) = inb dev ATA_PRIMARY_COMM_STAT s
     in Inr s))))"

definition ata_write_sector :: "device \<Rightarrow> nat \<Rightarrow> u32 \<Rightarrow> u64 \<Rightarrow> 'a machine_scheme \<Rightarrow> 'a machine_scheme res" where
  "ata_write_sector dev n lba buffer s =
     rbind (ata_wait_bsy dev n s) (\<lambda>s.
     let s = ata_command lba ATA_CMD_WRITE_PIO s in
     rbind (ata_wait_bsy dev n s) (\<lambda>s.
     rbind (ata_wait_drq dev n s) (\<lambda>s.
     rbind (write_words [0..<256] buffer s) (\<lambda>s.
     let s = outb ATA_PRIMARY_COMM_STAT 0xE7 s in
     ata_wait_bsy dev n s))))"

end
