(* ===== verification/Drive.thy ===== *)
theory Drive
  imports Ata Strings
begin

text \<open>
  The contract of the disk behind \<open>kernel/drivers/ata.c\<close> and what the driver makes of it.
  A \<open>drive\<close> is the part of the ATA standard the driver uses: the task-file registers, the
  transfer in progress and the sectors; \<open>drive_after\<close> replays the history of port accesses on
  it.  \<open>drive_answers\<close> says of a device what the standard promises: the busy bit clears within
  the bound of a poll, data is requested while a transfer is open, and the data port hands out
  the bytes of the sector in order.
\<close>

unbundle bit_operations_syntax

section \<open>The drive\<close>

datatype phase = Idle | Reading "u8 list" | Writing nat "u8 list"

record drive =
  head_reg :: u8
  count_reg :: u8
  lo_reg :: u8
  mid_reg :: u8
  hi_reg :: u8
  phase :: phase
  sectors :: "nat \<Rightarrow> u8 list"

definition lba_of :: "drive \<Rightarrow> nat" where
  "lba_of d = unat (lo_reg d) + 2 ^ 8 * unat (mid_reg d) + 2 ^ 16 * unat (hi_reg d) + 2 ^ 24 * unat (head_reg d AND 0x0F)"

text \<open>A command is obeyed on one sector, in LBA mode, on drive 0.\<close>

definition drive_command :: "u8 \<Rightarrow> drive \<Rightarrow> drive" where
  "drive_command c d =
     (if head_reg d AND 0xF0 = 0xE0 \<and> count_reg d = 1 then
        if c = ATA_CMD_READ_PIO then d\<lparr>phase := Reading (sectors d (lba_of d))\<rparr>
        else if c = ATA_CMD_WRITE_PIO then d\<lparr>phase := Writing (lba_of d) []\<rparr>
        else d
      else d)"

definition data_in :: "u16 \<Rightarrow> drive \<Rightarrow> drive" where
  "data_in w d =
     (case phase d of
        Writing l bs \<Rightarrow>
          (let bs = bs @ bytes_of_word 2 (ucast w) in
           if length bs < 512 then d\<lparr>phase := Writing l bs\<rparr>
           else d\<lparr>phase := Idle, sectors := (sectors d)(l := bs)\<rparr>)
      | _ \<Rightarrow> d)"

definition data_out :: "drive \<Rightarrow> drive" where
  "data_out d =
     (case phase d of
        Reading bs \<Rightarrow> d\<lparr>phase := (if length bs \<le> 2 then Idle else Reading (drop 2 bs))\<rparr>
      | _ \<Rightarrow> d)"

fun drive_step :: "io \<Rightarrow> drive \<Rightarrow> drive" where
  "drive_step (Out p v) d =
     (if p = ATA_PRIMARY_DRV_HEAD then d\<lparr>head_reg := ucast v\<rparr>
      else if p = ATA_PRIMARY_SECCOUNT then d\<lparr>count_reg := ucast v\<rparr>
      else if p = ATA_PRIMARY_LBA_LO then d\<lparr>lo_reg := ucast v\<rparr>
      else if p = ATA_PRIMARY_LBA_MID then d\<lparr>mid_reg := ucast v\<rparr>
      else if p = ATA_PRIMARY_LBA_HI then d\<lparr>hi_reg := ucast v\<rparr>
      else if p = ATA_PRIMARY_COMM_STAT then drive_command (ucast v) d
      else if p = ATA_PRIMARY_DATA then data_in (ucast v) d
      else d)"
| "drive_step (In p) d = (if p = ATA_PRIMARY_DATA then data_out d else d)"

definition drive_after :: "io list \<Rightarrow> drive \<Rightarrow> drive" where
  "drive_after h d = foldr drive_step h d"

lemma drive_after_Cons [simp]: "drive_after (e # h) d = drive_step e (drive_after h d)"
  by (simp add: drive_after_def)

definition drive_answers :: "device \<Rightarrow> nat \<Rightarrow> drive \<Rightarrow> bool" where
  "drive_answers dev n d \<longleftrightarrow> (\<forall>h.
     (\<exists>k < n. (ucast (dev (replicate k (In ATA_PRIMARY_COMM_STAT) @ h) ATA_PRIMARY_COMM_STAT) :: u8) AND ATA_SR_BSY = 0) \<and>
     (phase (drive_after h d) \<noteq> Idle \<longrightarrow>
        (ucast (dev h ATA_PRIMARY_COMM_STAT) :: u8) AND ATA_SR_ERR = 0 \<and>
        (\<exists>k < n. (ucast (dev (replicate (2 * k) (In ATA_PRIMARY_COMM_STAT) @ h) ATA_PRIMARY_COMM_STAT) :: u8) AND ATA_SR_DRQ \<noteq> 0)) \<and>
     (\<forall>bs. phase (drive_after h d) = Reading bs \<longrightarrow>
        (ucast (dev h ATA_PRIMARY_DATA) :: u16) = ucast (word_of_bytes (take 2 bs))))"

lemmas ata_ports = ATA_PRIMARY_DATA_def ATA_PRIMARY_SECCOUNT_def ATA_PRIMARY_LBA_LO_def ATA_PRIMARY_LBA_MID_def
  ATA_PRIMARY_LBA_HI_def ATA_PRIMARY_DRV_HEAD_def ATA_PRIMARY_COMM_STAT_def

section \<open>Polling\<close>

lemma data_not_status [simp]: "ATA_PRIMARY_DATA \<noteq> ATA_PRIMARY_COMM_STAT"
  by (simp add: ata_ports)

lemma drive_step_ports [simp]:
  "drive_step (In ATA_PRIMARY_COMM_STAT) d = d"
  "drive_step (In ATA_PRIMARY_DATA) d = data_out d"
  "drive_step (Out ATA_PRIMARY_DRV_HEAD v) d = d\<lparr>head_reg := ucast v\<rparr>"
  "drive_step (Out ATA_PRIMARY_SECCOUNT v) d = d\<lparr>count_reg := ucast v\<rparr>"
  "drive_step (Out ATA_PRIMARY_LBA_LO v) d = d\<lparr>lo_reg := ucast v\<rparr>"
  "drive_step (Out ATA_PRIMARY_LBA_MID v) d = d\<lparr>mid_reg := ucast v\<rparr>"
  "drive_step (Out ATA_PRIMARY_LBA_HI v) d = d\<lparr>hi_reg := ucast v\<rparr>"
  "drive_step (Out ATA_PRIMARY_COMM_STAT v) d = drive_command (ucast v) d"
  "drive_step (Out ATA_PRIMARY_DATA v) d = data_in (ucast v) d"
  by (simp_all add: ata_ports)

declare drive_step.simps [simp del]

lemma drive_after_polls [simp]:
  "drive_after (replicate k (In ATA_PRIMARY_COMM_STAT) @ h) d = drive_after h d"
  by (induction k) simp_all

lemma spin_within:
  assumes "ready (ucast (dev (replicate k (In p) @ ports s) p))" "k < n"
  shows "\<exists>j. spin dev n p ready s = Inr (s\<lparr>ports := replicate j (In p) @ ports s\<rparr>)"
  using assms
proof (induction n arbitrary: k s)
  case (Suc n)
  let ?t = "s\<lparr>ports := In p # ports s\<rparr>"
  have one: "s\<lparr>ports := In p # ports s\<rparr> = s\<lparr>ports := replicate 1 (In p) @ ports s\<rparr>" by simp
  show ?case
  proof (cases "ready (ucast (dev (ports s) p))")
    case True
    then have "spin dev (Suc n) p ready s = Inr (s\<lparr>ports := replicate 1 (In p) @ ports s\<rparr>)"
      by (simp add: inb_def)
    then show ?thesis by blast
  next
    case False
    then obtain m where m: "k = Suc m" using Suc.prems(1) by (cases k) auto
    have r: "replicate j (In p) @ ports ?t = replicate (Suc j) (In p) @ ports s" for j
      by (simp add: replicate_app_Cons_same)
    have "\<exists>j. spin dev n p ready ?t = Inr (?t\<lparr>ports := replicate j (In p) @ ports ?t\<rparr>)"
      by (rule Suc.IH [of m]) (use Suc.prems m in \<open>simp_all only: r Suc_less_eq\<close>)
    then obtain j where "spin dev n p ready ?t = Inr (?t\<lparr>ports := replicate j (In p) @ ports ?t\<rparr>)" by blast
    with False have "spin dev (Suc n) p ready s = Inr (s\<lparr>ports := replicate (Suc j) (In p) @ ports s\<rparr>)"
      using r [of j] by (simp add: inb_def)
    then show ?thesis by blast
  qed
qed simp

lemma ata_wait_bsy_ok:
  assumes "drive_answers dev n d"
  shows "\<exists>h. ata_wait_bsy dev n s = Inr (s\<lparr>ports := h\<rparr>) \<and> drive_after h d = drive_after (ports s) d"
proof -
  obtain k where "k < n"
    "(ucast (dev (replicate k (In ATA_PRIMARY_COMM_STAT) @ ports s) ATA_PRIMARY_COMM_STAT) :: u8) AND ATA_SR_BSY = 0"
    using assms unfolding drive_answers_def by blast
  then show ?thesis
    unfolding ata_wait_bsy_def
    using spin_within [of "\<lambda>v. v AND ATA_SR_BSY = 0" dev k ATA_PRIMARY_COMM_STAT s n] drive_after_polls by blast
qed

lemma ata_wait_drq_within:
  assumes "\<forall>j. (ucast (dev (replicate j (In ATA_PRIMARY_COMM_STAT) @ ports s) ATA_PRIMARY_COMM_STAT) :: u8) AND ATA_SR_ERR = 0"
    "(ucast (dev (replicate (2 * k) (In ATA_PRIMARY_COMM_STAT) @ ports s) ATA_PRIMARY_COMM_STAT) :: u8) AND ATA_SR_DRQ \<noteq> 0"
    "k < n"
  shows "\<exists>j. ata_wait_drq dev n s = Inr (s\<lparr>ports := replicate j (In ATA_PRIMARY_COMM_STAT) @ ports s\<rparr>)"
  using assms
proof (induction n arbitrary: k s)
  case (Suc n)
  let ?p = ATA_PRIMARY_COMM_STAT
  let ?t = "s\<lparr>ports := In ?p # In ?p # ports s\<rparr>"
  show ?case
  proof (cases "(ucast (dev (ports s) ?p) :: u8) AND ATA_SR_DRQ = 0")
    case False
    then have "ata_wait_drq dev (Suc n) s = Inr (s\<lparr>ports := replicate 1 (In ?p) @ ports s\<rparr>)"
      by (simp add: inb_def)
    then show ?thesis by blast
  next
    case True
    then obtain m where m: "k = Suc m" using Suc.prems(2) by (cases k) auto
    have r: "replicate j (In ?p) @ ports ?t = replicate (Suc (Suc j)) (In ?p) @ ports s" for j
      by (simp add: replicate_app_Cons_same)
    have e: "(ucast (dev (In ?p # ports s) ?p) :: u8) AND ATA_SR_ERR = 0"
      using Suc.prems(1) [rule_format, of 1] by simp
    have "\<exists>j. ata_wait_drq dev n ?t = Inr (?t\<lparr>ports := replicate j (In ?p) @ ports ?t\<rparr>)"
      by (rule Suc.IH [of ?t m]) (use Suc.prems m in \<open>simp_all only: r\<close>, simp_all)
    then obtain j where "ata_wait_drq dev n ?t = Inr (?t\<lparr>ports := replicate j (In ?p) @ ports ?t\<rparr>)" by blast
    with True e have "ata_wait_drq dev (Suc n) s = Inr (s\<lparr>ports := replicate (Suc (Suc j)) (In ?p) @ ports s\<rparr>)"
      using r [of j] by (simp add: inb_def)
    then show ?thesis by blast
  qed
qed simp

lemma ata_wait_drq_ok:
  assumes "drive_answers dev n d" "phase (drive_after (ports s) d) \<noteq> Idle"
  shows "\<exists>h. ata_wait_drq dev n s = Inr (s\<lparr>ports := h\<rparr>) \<and> drive_after h d = drive_after (ports s) d"
proof -
  obtain k where k: "k < n"
    "(ucast (dev (replicate (2 * k) (In ATA_PRIMARY_COMM_STAT) @ ports s) ATA_PRIMARY_COMM_STAT) :: u8) AND ATA_SR_DRQ \<noteq> 0"
    using assms unfolding drive_answers_def by blast
  have "\<forall>j. (ucast (dev (replicate j (In ATA_PRIMARY_COMM_STAT) @ ports s) ATA_PRIMARY_COMM_STAT) :: u8) AND ATA_SR_ERR = 0"
    using assms unfolding drive_answers_def by simp
  then have "\<exists>j. ata_wait_drq dev n s = Inr (s\<lparr>ports := replicate j (In ATA_PRIMARY_COMM_STAT) @ ports s\<rparr>)"
    using k by (intro ata_wait_drq_within [where k = k])
  then show ?thesis using drive_after_polls by metis
qed

section \<open>Transfers\<close>

lemma bytes_of_in_word:
  assumes "2 \<le> length bs"
  shows "bytes_of_word 2 (ucast (ucast (word_of_bytes (take 2 bs)) :: u16)) = take 2 bs"
proof -
  obtain x cs where "bs = x # cs" using assms by (cases bs) auto
  moreover from this obtain y zs where "cs = y # zs" using assms by (cases cs) auto
  ultimately have bs: "bs = x # y # zs" by simp
  let ?w = "ucast x OR push_bit 8 (ucast y) :: u64"
  have big: "\<not> bit c (i + 8)" for c :: u8 and i using bit_imp_le_length [of c "i + 8"] by auto
  have "ucast (ucast (ucast ?w :: u16) :: u64) = x"
    by (rule bit_word_eqI) (simp add: bit_simps)
  moreover have "ucast (drop_bit 8 (ucast (ucast ?w :: u16) :: u64)) = y"
    by (rule bit_word_eqI) (simp add: bit_simps big add.commute)
  ultimately show ?thesis by (simp add: bs numeral_2_eq_2)
qed

lemma out_word_of_bytes:
  assumes "length bs = 2"
  shows "bytes_of_word 2 (ucast (ucast (ucast (ucast (word_of_bytes bs) :: u16) :: u32) :: u16)) = bs"
proof -
  have "ucast (ucast w :: u32) = w" for w :: u16 by (rule bit_word_eqI) (simp add: bit_simps)
  with bytes_of_in_word [of bs] assms show ?thesis by simp
qed

lemma read_words_ok:
  assumes "drive_answers dev n d" "phase (drive_after (ports s) d) = Reading bs" "length bs = 2 * Suc m"
    "k + Suc m = 256" "mapped (vmem s) (p + 2 * of_nat k) (length bs)"
  shows "\<exists>h. read_words dev [k..<256] p s = Inr (s\<lparr>vmem := mem_upd (vmem s) (p + 2 * of_nat k) bs, ports := h\<rparr>) \<and>
    drive_after h d = (drive_after (ports s) d)\<lparr>phase := Idle\<rparr>"
  using assms(2-)
proof (induction m arbitrary: k s bs)
  case 0
  let ?s = "s\<lparr>ports := In ATA_PRIMARY_DATA # ports s\<rparr>"
  have w: "(ucast (dev (ports s) ATA_PRIMARY_DATA) :: u16) = ucast (word_of_bytes (take 2 bs))"
    using assms(1) 0(1) unfolding drive_answers_def by blast
  have b: "bytes_of_word 2 (ucast (ucast (word_of_bytes (take 2 bs)) :: u16)) = bs"
    using 0(2) by (subst bytes_of_in_word) simp_all
  have "mapped (vmem s) (p + 2 * of_nat k) 2" using 0 by simp
  then have "store16 (p + 2 * of_nat k) (ucast (word_of_bytes (take 2 bs))) ?s =
      Inr (?s\<lparr>vmem := mem_upd (vmem s) (p + 2 * of_nat k) bs\<rparr>)"
    by (simp add: store16_mapped b)
  moreover have "[k..<256] = [k]" using 0(3) by (simp add: upt_rec)
  moreover have "k < 256" using 0(3) by simp
  ultimately show ?case
    using 0(1,2) w by (intro exI [of _ "In ATA_PRIMARY_DATA # ports s"]) (simp add: inw_def data_out_def)
next
  case (Suc m)
  let ?s = "s\<lparr>ports := In ATA_PRIMARY_DATA # ports s\<rparr>"
  let ?t = "?s\<lparr>vmem := mem_upd (vmem s) (p + 2 * of_nat k) (take 2 bs)\<rparr>"
  have w: "(ucast (dev (ports s) ATA_PRIMARY_DATA) :: u16) = ucast (word_of_bytes (take 2 bs))"
    using assms(1) Suc.prems(1) unfolding drive_answers_def by blast
  have b: "bytes_of_word 2 (ucast (ucast (word_of_bytes (take 2 bs)) :: u16)) = take 2 bs"
    by (rule bytes_of_in_word) (use Suc.prems(2) in simp)
  have e: "p + 2 * of_nat (Suc k) = p + 2 * of_nat k + of_nat (length (take 2 bs))"
    using Suc.prems(2) by simp
  have "mapped (vmem s) (p + 2 * of_nat k) 2"
    using Suc.prems(2,4) unfolding mapped_def by simp
  then have st: "store16 (p + 2 * of_nat k) (ucast (word_of_bytes (take 2 bs))) ?s = Inr ?t"
    by (simp add: store16_mapped b)
  have mp: "mapped (vmem ?t) (p + 2 * of_nat (Suc k)) (length (drop 2 bs))"
  proof -
    have "mapped (vmem s) (p + 2 * of_nat k + of_nat 2) (length bs - 2)"
      unfolding mapped_def
    proof (intro allI impI)
      fix i assume "i < length bs - 2"
      then have "vmem s (p + 2 * of_nat k + of_nat (2 + i)) \<noteq> None"
        using Suc.prems(4) [unfolded mapped_def, rule_format, of "2 + i"] by simp
      then show "vmem s (p + 2 * of_nat k + of_nat 2 + of_nat i) \<noteq> None" by (simp add: add.assoc)
    qed
    then show ?thesis using Suc.prems(2) unfolding e by (simp add: mapped_mem_upd)
  qed
  have ph: "phase (drive_after (ports ?t) d) = Reading (drop 2 bs)"
    using Suc.prems(1,2) by (simp add: data_out_def)
  obtain h where h: "read_words dev [Suc k..<256] p ?t =
      Inr (?t\<lparr>vmem := mem_upd (vmem ?t) (p + 2 * of_nat (Suc k)) (drop 2 bs), ports := h\<rparr>)"
    "drive_after h d = (drive_after (ports ?t) d)\<lparr>phase := Idle\<rparr>"
    using Suc.IH [OF ph _ _ mp] Suc.prems(2,3) by auto
  have "mem_upd (vmem ?t) (p + 2 * of_nat (Suc k)) (drop 2 bs) = mem_upd (vmem s) (p + 2 * of_nat k) bs"
    unfolding e using mem_upd_append [of "take 2 bs" "drop 2 bs" "vmem s" "p + 2 * of_nat k"] Suc.prems(2,3) by simp
  moreover have "[k..<256] = k # [Suc k..<256]" using Suc.prems(3) by (intro upt_conv_Cons) simp
  moreover have "drive_after h d = (drive_after (ports s) d)\<lparr>phase := Idle\<rparr>"
    using h(2) Suc.prems(1) by (simp add: data_out_def)
  ultimately show ?case
    using h(1) w st by (intro exI [of _ h]) (simp add: inw_def)
qed

lemma rd_bytes_part:
  "rd_bytes m a k = Inr bs \<Longrightarrow> i + n \<le> k \<Longrightarrow> rd_bytes m (a + of_nat i) n = Inr (take n (drop i bs))"
  unfolding rd_bytes_eq_Inr by (auto simp: add.assoc simp flip: of_nat_add)

lemma write_words_ok:
  assumes "phase (drive_after (ports s) d) = Writing l (take (2 * k) bs)" "length bs = 512"
    "k + Suc m = 256" "rd_bytes (vmem s) p 512 = Inr bs"
  shows "\<exists>h. write_words [k..<256] p s = Inr (s\<lparr>ports := h\<rparr>) \<and>
    drive_after h d = (drive_after (ports s) d)\<lparr>phase := Idle,
      sectors := (sectors (drive_after (ports s) d))(l := bs)\<rparr>"
  using assms
proof (induction m arbitrary: k s)
  case (0 k s)
  have k: "k = 255" using 0(3) by simp
  let ?c = "take 2 (drop 510 bs)"
  have "rd_bytes (vmem s) (p + of_nat 510) 2 = Inr ?c" using 0(4) by (rule rd_bytes_part) simp
  then have l: "load16 (p + 2 * of_nat k) s = Inr (ucast (word_of_bytes ?c))" by (simp add: load16_def k)
  have u: "[k..<256] = [k]" by (simp add: k upt_rec)
  have "?c = drop 510 bs" using 0(2) by simp
  moreover have "take 510 bs @ drop 510 bs = bs" by simp
  ultimately have "take 510 bs @ ?c = bs" by simp
  moreover have "length ?c = 2" using 0(2) by simp
  ultimately have "drive_step (Out ATA_PRIMARY_DATA (ucast (ucast (word_of_bytes ?c) :: u16))) (drive_after (ports s) d)
      = (drive_after (ports s) d)\<lparr>phase := Idle, sectors := (sectors (drive_after (ports s) d))(l := bs)\<rparr>"
    using 0(1,2) by (simp add: data_in_def out_word_of_bytes k)
  then show ?case
    using l u by (intro exI [of _ "Out ATA_PRIMARY_DATA (ucast (ucast (word_of_bytes ?c) :: u16)) # ports s"])
      (simp add: outw_def del: fun_upd_apply)
next
  case (Suc m k s)
  let ?c = "take 2 (drop (2 * k) bs)"
  let ?t = "s\<lparr>ports := Out ATA_PRIMARY_DATA (ucast (ucast (word_of_bytes ?c) :: u16)) # ports s\<rparr>"
  have "rd_bytes (vmem s) (p + of_nat (2 * k)) 2 = Inr ?c"
    using Suc.prems(4) by (rule rd_bytes_part) (use Suc.prems(3) in simp)
  then have l: "load16 (p + 2 * of_nat k) s = Inr (ucast (word_of_bytes ?c))" by (simp add: load16_def)
  have u: "[k..<256] = k # [Suc k..<256]" using Suc.prems(3) by (intro upt_conv_Cons) simp
  have c: "take (2 * k) bs @ ?c = take (2 * Suc k) bs"
    using take_add [of "2 * k" 2 bs] by (simp add: add.commute)
  have "length ?c = 2" using Suc.prems(2,3) by simp
  with c have t: "drive_after (ports ?t) d = (drive_after (ports s) d)\<lparr>phase := Writing l (take (2 * Suc k) bs)\<rparr>"
    using Suc.prems(1-3) by (simp add: data_in_def out_word_of_bytes)
  then have ph: "phase (drive_after (ports ?t) d) = Writing l (take (2 * Suc k) bs)" by simp
  have e: "Suc k + Suc m = 256" "rd_bytes (vmem ?t) p 512 = Inr bs" using Suc.prems(3,4) by simp_all
  obtain h where h: "write_words [Suc k..<256] p ?t = Inr (?t\<lparr>ports := h\<rparr>)"
    "drive_after h d = (drive_after (ports ?t) d)\<lparr>phase := Idle,
      sectors := (sectors (drive_after (ports ?t) d))(l := bs)\<rparr>"
    using Suc.IH [OF ph Suc.prems(2) e] by blast
  have "drive_after h d = (drive_after (ports s) d)\<lparr>phase := Idle,
      sectors := (sectors (drive_after (ports s) d))(l := bs)\<rparr>"
    using h(2) unfolding t by simp
  with h(1) l u show ?case
    by (intro exI [of _ h]) (simp add: outw_def del: fun_upd_apply)
qed

text \<open>The registers hold the sector number; a command opens the transfer of that sector.\<close>

lemma lba_bytes:
  fixes lba :: u32
  shows "unat (ucast lba :: u8) + 2 ^ 8 * unat (ucast (drop_bit 8 lba) :: u8) + 2 ^ 16 * unat (ucast (drop_bit 16 lba) :: u8)
    + 2 ^ 24 * unat (ucast (0xE0 OR (drop_bit 24 lba AND 0x0F)) AND 0x0F :: u8) = unat lba mod 2 ^ 28"
proof -
  let ?n = "unat lba"
  have n: "?n mod 4294967296 = ?n" using unsigned_less [of lba, where ?'a = nat] by simp
  have b: "unat (ucast (drop_bit k lba) :: u8) = ?n div 2 ^ k mod 2 ^ 8" for k
    using n by (simp only: unsigned_ucast_eq unsigned_drop_bit_eq) (simp add: take_bit_eq_mod drop_bit_eq_div)
  have "(0xE0 :: u32) = push_bit 4 14" "(0x0F :: u32) = mask 4" "(0x0F :: u8) = mask 4"
    by (simp_all add: mask_eq_exp_minus_1 push_bit_eq_mult)
  moreover have "ucast (push_bit 4 14 OR (drop_bit 24 lba AND mask 4)) AND mask 4 = (ucast (take_bit 4 (drop_bit 24 lba)) :: u8)"
    by (rule bit_word_eqI) (auto simp only: bit_simps possible_bit_word, simp_all)
  ultimately have "ucast (0xE0 OR (drop_bit 24 lba AND 0x0F)) AND 0x0F = (ucast (take_bit 4 (drop_bit 24 lba)) :: u8)" by simp
  moreover have "unat (ucast (take_bit 4 (drop_bit 24 lba)) :: u8) = ?n div 2 ^ 24 mod 2 ^ 4"
    using n by (simp only: unsigned_ucast_eq unsigned_drop_bit_eq unsigned_take_bit_eq) (simp add: take_bit_eq_mod drop_bit_eq_div mod_mod_cancel)
  moreover have "?n mod 2 ^ 28 = ?n mod 2 ^ 8 + 2 ^ 8 * (?n div 2 ^ 8 mod 2 ^ 8) + 2 ^ 16 * (?n div 2 ^ 16 mod 2 ^ 8)
      + 2 ^ 24 * (?n div 2 ^ 24 mod 2 ^ 4)"
    using mod_mult2_eq [of ?n "2 ^ 8" "2 ^ 8"] mod_mult2_eq [of ?n "2 ^ 16" "2 ^ 8"] mod_mult2_eq [of ?n "2 ^ 24" "2 ^ 4"] by simp
  ultimately show ?thesis using b [of 0] b [of 8] b [of 16] by simp
qed

abbreviation sector_number :: "u32 \<Rightarrow> nat" where "sector_number lba \<equiv> unat lba mod 2 ^ 28"

lemma head_mode: "ucast (0xE0 OR (drop_bit 24 lba AND 0x0F) :: u32) AND 0xF0 = (0xE0 :: u8)"
proof (rule bit_word_eqI)
  fix i assume "i < LENGTH(8)"
  then have "i \<in> {0, 1, 2, 3, 4, 5, 6, 7}" by auto
  then show "bit (ucast (0xE0 OR (drop_bit 24 lba AND 0x0F) :: u32) AND 0xF0 :: u8) i = bit (0xE0 :: u8) i"
    by (elim insertE emptyE) (simp_all add: bit_and_iff bit_or_iff bit_ucast_iff)
qed

lemma u8_out [simp]: "ucast (ucast c :: u32) = (c :: u8)"
  by (rule bit_word_eqI) (simp add: bit_simps)

lemma ata_command_after:
  shows "sectors (drive_after (ports (ata_command lba c s)) d) = sectors (drive_after (ports s) d)"
    "c = ATA_CMD_READ_PIO \<Longrightarrow>
      phase (drive_after (ports (ata_command lba c s)) d) = Reading (sectors (drive_after (ports s) d) (sector_number lba))"
    "c = ATA_CMD_WRITE_PIO \<Longrightarrow> phase (drive_after (ports (ata_command lba c s)) d) = Writing (sector_number lba) []"
    "\<exists>h. ata_command lba c s = s\<lparr>ports := h\<rparr>"
  using lba_bytes [of lba]
  by (auto simp: ata_command_def outb_def Let_def drive_command_def head_mode lba_of_def
      ATA_CMD_READ_PIO_def ATA_CMD_WRITE_PIO_def)

definition drive_idle :: "drive \<Rightarrow> 'a machine_scheme \<Rightarrow> bool" where
  "drive_idle d s \<longleftrightarrow> phase (drive_after (ports s) d) = Idle \<and> (\<forall>l. length (sectors (drive_after (ports s) d) l) = 512)"

definition sector_on :: "drive \<Rightarrow> 'a machine_scheme \<Rightarrow> nat \<Rightarrow> u8 list" where
  "sector_on d s = sectors (drive_after (ports s) d)"

lemma status_reads [simp]:
  "snd (inb dev p s) = s\<lparr>ports := In p # ports s\<rparr>"
  by (simp add: inb_def)

lemma ata_read_sector_ok:
  assumes "drive_answers dev n d" "drive_idle d s" "mapped (vmem s) p 512"
  shows "\<exists>h. ata_read_sector dev n lba p s =
      Inr (s\<lparr>vmem := mem_upd (vmem s) p (sector_on d s (sector_number lba)), ports := h\<rparr>) \<and>
    drive_idle d (s\<lparr>ports := h\<rparr>) \<and> sector_on d (s\<lparr>ports := h\<rparr>) = sector_on d s"
proof -
  let ?bs = "sector_on d s (sector_number lba)"
  have len: "length ?bs = 512" using assms(2) by (simp add: drive_idle_def sector_on_def)
  obtain h1 where h1: "ata_wait_bsy dev n s = Inr (s\<lparr>ports := h1\<rparr>)" "drive_after h1 d = drive_after (ports s) d"
    using ata_wait_bsy_ok [OF assms(1)] by blast
  obtain h2 where h2: "ata_command lba ATA_CMD_READ_PIO (s\<lparr>ports := h1\<rparr>) = s\<lparr>ports := h2\<rparr>"
    "phase (drive_after h2 d) = Reading ?bs"
    "sectors (drive_after h2 d) = sectors (drive_after (ports s) d)"
    using ata_command_after(4) [of lba ATA_CMD_READ_PIO "s\<lparr>ports := h1\<rparr>"]
      ata_command_after(1,2) [where lba = lba and c = ATA_CMD_READ_PIO and s = "s\<lparr>ports := h1\<rparr>" and d = d] h1(2)
    by (auto simp: sector_on_def)
  obtain h3 where h3: "ata_wait_bsy dev n (s\<lparr>ports := h2\<rparr>) = Inr (s\<lparr>ports := h3\<rparr>)" "drive_after h3 d = drive_after h2 d"
    using ata_wait_bsy_ok [OF assms(1), of "s\<lparr>ports := h2\<rparr>"] by auto
  obtain h4 where h4: "ata_wait_drq dev n (s\<lparr>ports := h3\<rparr>) = Inr (s\<lparr>ports := h4\<rparr>)" "drive_after h4 d = drive_after h2 d"
    using ata_wait_drq_ok [OF assms(1), of "s\<lparr>ports := h3\<rparr>"] h2(2) h3(2) by auto
  obtain h5 where h5: "read_words dev [0..<256] p (s\<lparr>ports := h4\<rparr>) = Inr (s\<lparr>vmem := mem_upd (vmem s) p ?bs, ports := h5\<rparr>)"
    "drive_after h5 d = (drive_after h2 d)\<lparr>phase := Idle\<rparr>"
    using read_words_ok [OF assms(1), of "s\<lparr>ports := h4\<rparr>" ?bs 255 0 p] h2(2) h4(2) len assms(3) by auto
  let ?x = "In ATA_PRIMARY_COMM_STAT"
  have "ata_read_sector dev n lba p s =
      Inr (s\<lparr>vmem := mem_upd (vmem s) p ?bs, ports := ?x # ?x # ?x # ?x # h5\<rparr>)"
    using h1(1) h2(1) h3(1) h4(1) h5(1) by (simp add: ata_read_sector_def Let_def split_def)
  with h5(2) h2(3) assms(2) show ?thesis
    by (intro exI [of _ "?x # ?x # ?x # ?x # h5"]) (simp add: drive_idle_def sector_on_def)
qed

lemma ata_write_sector_ok:
  assumes "drive_answers dev n d" "drive_idle d s" "rd_bytes (vmem s) p 512 = Inr bs"
  shows "\<exists>h. ata_write_sector dev n lba p s = Inr (s\<lparr>ports := h\<rparr>) \<and>
    drive_idle d (s\<lparr>ports := h\<rparr>) \<and>
    sector_on d (s\<lparr>ports := h\<rparr>) = (sector_on d s)(sector_number lba := bs)"
proof -
  have len: "length bs = 512" using assms(3) by (simp add: rd_bytes_eq_Inr)
  obtain h1 where h1: "ata_wait_bsy dev n s = Inr (s\<lparr>ports := h1\<rparr>)" "drive_after h1 d = drive_after (ports s) d"
    using ata_wait_bsy_ok [OF assms(1)] by blast
  obtain h2 where h2: "ata_command lba ATA_CMD_WRITE_PIO (s\<lparr>ports := h1\<rparr>) = s\<lparr>ports := h2\<rparr>"
    "phase (drive_after h2 d) = Writing (sector_number lba) []"
    "sectors (drive_after h2 d) = sectors (drive_after (ports s) d)"
    using ata_command_after(4) [of lba ATA_CMD_WRITE_PIO "s\<lparr>ports := h1\<rparr>"]
      ata_command_after(1,3) [where lba = lba and c = ATA_CMD_WRITE_PIO and s = "s\<lparr>ports := h1\<rparr>" and d = d] h1(2)
    by auto
  obtain h3 where h3: "ata_wait_bsy dev n (s\<lparr>ports := h2\<rparr>) = Inr (s\<lparr>ports := h3\<rparr>)" "drive_after h3 d = drive_after h2 d"
    using ata_wait_bsy_ok [OF assms(1), of "s\<lparr>ports := h2\<rparr>"] by auto
  obtain h4 where h4: "ata_wait_drq dev n (s\<lparr>ports := h3\<rparr>) = Inr (s\<lparr>ports := h4\<rparr>)" "drive_after h4 d = drive_after h2 d"
    using ata_wait_drq_ok [OF assms(1), of "s\<lparr>ports := h3\<rparr>"] h2(2) h3(2) by auto
  obtain h5 where h5: "write_words [0..<256] p (s\<lparr>ports := h4\<rparr>) = Inr (s\<lparr>ports := h5\<rparr>)"
    "drive_after h5 d = (drive_after h2 d)\<lparr>phase := Idle, sectors := (sectors (drive_after h2 d))(sector_number lba := bs)\<rparr>"
    using write_words_ok [of "s\<lparr>ports := h4\<rparr>" d "sector_number lba" 0 bs 255 p] h2(2) h4(2) len assms(3) by auto
  let ?s = "outb ATA_PRIMARY_COMM_STAT 0xE7 (s\<lparr>ports := h5\<rparr>)"
  have fl: "drive_after (ports ?s) d = drive_after h5 d"
    by (simp add: outb_def drive_command_def ATA_CMD_READ_PIO_def ATA_CMD_WRITE_PIO_def)
  obtain h6 where h6: "ata_wait_bsy dev n ?s = Inr (s\<lparr>ports := h6\<rparr>)" "drive_after h6 d = drive_after h5 d"
    using ata_wait_bsy_ok [OF assms(1), of ?s] fl by (auto simp: outb_def)
  have "ata_write_sector dev n lba p s = Inr (s\<lparr>ports := h6\<rparr>)"
    using h1(1) h2(1) h3(1) h4(1) h5(1) h6(1) by (simp add: ata_write_sector_def Let_def)
  with h5(2) h6(2) h2(3) len assms(2) show ?thesis
    by (intro exI [of _ h6]) (simp add: drive_idle_def sector_on_def)
qed
section \<open>The debug port and the drive\<close>

text \<open>A line sent to the UART does not touch the drive.\<close>

lemma serial_puts_drive:
  assumes "uart_answers dev SERIAL_COM1" "0 < n"
  shows "\<exists>h. serial_puts dev n SERIAL_COM1 cs s = Inr (s\<lparr>ports := h\<rparr>) \<and> drive_after h d = drive_after (ports s) d"
proof (induction cs arbitrary: s)
  case (Cons c cs)
  let ?put = "\<lambda>c s. s\<lparr>ports := Out SERIAL_COM1 (ucast (c :: u8)) # In (SERIAL_COM1 + 5) # ports s\<rparr>"
  let ?t = "?put c (if c = 10 then ?put 13 s else s)"
  have st: "drive_step (Out SERIAL_COM1 v) e = e" "drive_step (In (SERIAL_COM1 + 5)) e = e" for v e
    by (simp_all add: drive_step.simps ata_ports SERIAL_COM1_def)
  obtain h where "serial_puts dev n SERIAL_COM1 cs ?t = Inr (?t\<lparr>ports := h\<rparr>)" "drive_after h d = drive_after (ports ?t) d"
    using Cons.IH [of ?t] by blast
  then show ?case
    by (intro exI [of _ h]) (simp add: serial_putchar_ready [OF assms] st split: if_splits)
qed (auto intro!: exI [of _ "ports s" for s])

lemma drive_answers_bound: "drive_answers dev n d \<Longrightarrow> 0 < n"
  unfolding drive_answers_def by (metis not_less_zero gr_zeroI)

section \<open>A drive that answers\<close>

definition drive_device :: "drive \<Rightarrow> device" where
  "drive_device d h p =
     (if p = ATA_PRIMARY_COMM_STAT then 0x48
      else if p = ATA_PRIMARY_DATA then
        (case phase (drive_after h d) of Reading bs \<Rightarrow> ucast (word_of_bytes (take 2 bs)) | _ \<Rightarrow> 0)
      else 0x20)"

definition blank_drive :: drive where
  "blank_drive = \<lparr>head_reg = 0, count_reg = 0, lo_reg = 0, mid_reg = 0, hi_reg = 0, phase = Idle,
     sectors = (\<lambda>l. replicate 512 0)\<rparr>"

lemma drive_device_answers [simp]: "0 < n \<Longrightarrow> drive_answers (drive_device d) n d"
  by (auto simp: drive_answers_def drive_device_def ATA_SR_BSY_def ATA_SR_ERR_def ATA_SR_DRQ_def
      intro!: exI [of _ 0] bit_word_eqI simp: bit_simps)

lemma drive_device_uart [simp]: "uart_answers (drive_device d) SERIAL_COM1"
  by (simp add: uart_answers_def drive_device_def SERIAL_COM1_def ata_ports serial_transmit_empty_def)

section \<open>A command that fails\<close>

text \<open>The status byte that the \<open>j\<close>-th poll after a history answers.\<close>

definition status_poll :: "device \<Rightarrow> io list \<Rightarrow> nat \<Rightarrow> u8" where
  "status_poll dev h j = ucast (dev (replicate j (In ATA_PRIMARY_COMM_STAT) @ h) ATA_PRIMARY_COMM_STAT)"

text \<open>
  After a history that ends with a command: the drive is busy for \<open>b\<close> polls; then it does not
  request data, and raises its error bit at the latest in round \<open>k\<close> of the loop that waits for data.
  A round polls twice, first for the request and then for the error.
\<close>

definition command_fails :: "device \<Rightarrow> nat \<Rightarrow> nat \<Rightarrow> io list \<Rightarrow> bool" where
  "command_fails dev b k h \<longleftrightarrow>
     (\<forall>j < b. status_poll dev h j AND ATA_SR_BSY \<noteq> 0) \<and> status_poll dev h b AND ATA_SR_BSY = 0 \<and>
     (\<forall>j \<le> k. status_poll dev h (Suc b + 2 * j) AND ATA_SR_DRQ = 0) \<and>
     status_poll dev h (Suc b + 2 * k + 1) AND ATA_SR_ERR \<noteq> 0"

lemma replicate_poll: "replicate j x @ x # h = replicate (Suc j) x @ h"
  by (simp add: replicate_app_Cons_same)

lemma status_poll_Suc: "status_poll dev (In ATA_PRIMARY_COMM_STAT # h) j = status_poll dev h (Suc j)"
  by (simp only: status_poll_def replicate_poll)

lemma wait_bsy_exact:
  assumes "\<forall>j < b. status_poll dev (ports s) j AND ATA_SR_BSY \<noteq> 0" "status_poll dev (ports s) b AND ATA_SR_BSY = 0" "b < n"
  shows "ata_wait_bsy dev n s = Inr (s\<lparr>ports := replicate (Suc b) (In ATA_PRIMARY_COMM_STAT) @ ports s\<rparr>)"
  using assms
proof (induction b arbitrary: s n)
  case 0
  then show ?case by (simp add: ata_wait_bsy_def spin_ready status_poll_def)
next
  case (Suc b)
  obtain m where n: "n = Suc m" using Suc.prems(3) by (cases n) auto
  let ?t = "s\<lparr>ports := In ATA_PRIMARY_COMM_STAT # ports s\<rparr>"
  have "status_poll dev (ports s) 0 AND ATA_SR_BSY \<noteq> 0" using Suc.prems(1) by blast
  then have "ata_wait_bsy dev n s = ata_wait_bsy dev m ?t"
    by (simp add: ata_wait_bsy_def n inb_def status_poll_def)
  also have "\<dots> = Inr (?t\<lparr>ports := replicate (Suc b) (In ATA_PRIMARY_COMM_STAT) @ ports ?t\<rparr>)"
    by (rule Suc.IH) (use Suc.prems n in \<open>simp_all add: status_poll_Suc\<close>)
  finally show ?case by (simp add: replicate_poll del: replicate_Suc)
qed

lemma wait_drq_fails:
  assumes "\<forall>j \<le> k. status_poll dev (ports s) (2 * j) AND ATA_SR_DRQ = 0" "status_poll dev (ports s) (2 * k + 1) AND ATA_SR_ERR \<noteq> 0" "k < n"
  shows "ata_wait_drq dev n s = Inl (Panic (str ''ATA Disk Error!''))"
  using assms
proof (induction k arbitrary: s n)
  case 0
  then show ?case by (cases n) (simp_all add: inb_def status_poll_def)
next
  case (Suc k)
  obtain m where n: "n = Suc m" using Suc.prems(3) by (cases n) auto
  let ?p = "In ATA_PRIMARY_COMM_STAT"
  let ?t = "s\<lparr>ports := ?p # ?p # ports s\<rparr>"
  have "ata_wait_drq dev m ?t = Inl (Panic (str ''ATA Disk Error!''))"
  proof (rule Suc.IH)
    show "\<forall>j \<le> k. status_poll dev (ports ?t) (2 * j) AND ATA_SR_DRQ = 0"
    proof (intro allI impI)
      fix j
      assume "j \<le> k"
      then show "status_poll dev (ports ?t) (2 * j) AND ATA_SR_DRQ = 0"
        using Suc.prems(1) [rule_format, of "Suc j"] by (simp add: status_poll_Suc)
    qed
  qed (use Suc.prems n in \<open>simp_all add: status_poll_Suc\<close>)
  moreover have "status_poll dev (ports s) 0 AND ATA_SR_DRQ = 0" using Suc.prems(1) [rule_format, of 0] by simp
  ultimately show ?case by (simp add: n inb_def status_poll_def)
qed

lemma failed_command:
  assumes "command_fails dev b k (ports s)" "b < n" "k < n"
  shows "rbind (ata_wait_bsy dev n s) (\<lambda>s. rbind (ata_wait_drq dev n s) g) = Inl (Panic (str ''ATA Disk Error!''))"
proof -
  let ?t = "s\<lparr>ports := replicate (Suc b) (In ATA_PRIMARY_COMM_STAT) @ ports s\<rparr>"
  have f: "\<forall>j < b. status_poll dev (ports s) j AND ATA_SR_BSY \<noteq> 0" "status_poll dev (ports s) b AND ATA_SR_BSY = 0"
    "\<forall>j \<le> k. status_poll dev (ports s) (Suc b + 2 * j) AND ATA_SR_DRQ = 0" "status_poll dev (ports s) (Suc b + 2 * k + 1) AND ATA_SR_ERR \<noteq> 0"
    using assms(1) by (simp_all add: command_fails_def)
  have p: "status_poll dev (ports ?t) j = status_poll dev (ports s) (Suc b + j)" for j
    by (simp add: status_poll_def replicate_add [symmetric] add.commute flip: append_assoc replicate_Suc)
  have "\<forall>j \<le> k. status_poll dev (ports ?t) (2 * j) AND ATA_SR_DRQ = 0" "status_poll dev (ports ?t) (2 * k + 1) AND ATA_SR_ERR \<noteq> 0"
    using f(3,4) unfolding p add.assoc by blast+
  then have "ata_wait_drq dev n ?t = Inl (Panic (str ''ATA Disk Error!''))" by (rule wait_drq_fails [OF _ _ assms(3)])
  then show ?thesis by (simp add: wait_bsy_exact [OF f(1,2) assms(2)])
qed

text \<open>A drive with a bad sector, for the example: the first poll after a command for sector 7 finds it
  busy, and it raises its error bit from the fifth poll on; otherwise it is as \<open>drive_device\<close>.\<close>

fun polls :: "io list \<Rightarrow> nat" where
  "polls (In p # h) = (if p = ATA_PRIMARY_COMM_STAT then Suc (polls h) else 0)"
| "polls h = 0"

fun names_seven :: "io list \<Rightarrow> bool" where
  "names_seven (In p # h) = (p = ATA_PRIMARY_COMM_STAT \<and> names_seven h)"
| "names_seven (Out p v # Out q hi # Out q' mid # Out q'' lo # h) =
     (p = ATA_PRIMARY_COMM_STAT \<and> q = ATA_PRIMARY_LBA_HI \<and> hi = 0 \<and> q' = ATA_PRIMARY_LBA_MID \<and> mid = 0 \<and> q'' = ATA_PRIMARY_LBA_LO \<and> lo = 7)"
| "names_seven h = False"

definition bad_sector :: device where
  "bad_sector h p =
     (if p = ATA_PRIMARY_COMM_STAT \<and> names_seven h
      then if polls h = 0 then 0x80 else if polls h < 4 then 0x40 else 0x41
      else drive_device blank_drive h p)"

lemma polls_replicate: "polls (replicate j (In ATA_PRIMARY_COMM_STAT) @ Out q v # h) = j"
  by (induction j) simp_all

lemma names_replicate: "names_seven (replicate j (In ATA_PRIMARY_COMM_STAT) @ h) = names_seven h"
  by (induction j) simp_all

section \<open>Properties\<close>

text \<open>C27. A sector written to the drive is read back as it was written, whatever buffers are used,
  and every other sector of the disk keeps its bytes.\<close>

theorem sector_roundtrip:
  assumes "drive_answers dev n d" "drive_idle d s" "rd_bytes (vmem s) p 512 = Inr bs" "mapped (vmem s) q 512"
  shows "\<exists>t u. ata_write_sector dev n lba p s = Inr t \<and> ata_read_sector dev n lba q t = Inr u \<and>
    load_bytes q 512 u = Inr bs \<and>
    (\<forall>l. l \<noteq> sector_number lba \<longrightarrow> sector_on d u l = sector_on d s l)"
proof -
  have len: "length bs = 512" using assms(3) by (simp add: rd_bytes_eq_Inr)
  obtain h where h: "ata_write_sector dev n lba p s = Inr (s\<lparr>ports := h\<rparr>)" "drive_idle d (s\<lparr>ports := h\<rparr>)"
    "sector_on d (s\<lparr>ports := h\<rparr>) = (sector_on d s)(sector_number lba := bs)"
    using ata_write_sector_ok [OF assms(1-3)] by blast
  obtain h' where h': "ata_read_sector dev n lba q (s\<lparr>ports := h\<rparr>) = Inr (s\<lparr>vmem := mem_upd (vmem s) q bs, ports := h'\<rparr>)"
    "sector_on d (s\<lparr>ports := h'\<rparr>) = sector_on d (s\<lparr>ports := h\<rparr>)"
    using ata_read_sector_ok [OF assms(1) h(2), of q lba] assms(4) h(3) by auto
  let ?u = "s\<lparr>vmem := mem_upd (vmem s) q bs, ports := h'\<rparr>"
  have "sector_on d ?u = sector_on d (s\<lparr>ports := h'\<rparr>)" by (simp add: sector_on_def)
  then have "\<forall>l. l \<noteq> sector_number lba \<longrightarrow> sector_on d ?u l = sector_on d s l" using h'(2) h(3) by simp
  moreover have "load_bytes q 512 ?u = Inr bs" using len by (simp add: load_bytes_def rd_bytes_upd_same)
  ultimately show ?thesis using h(1) h'(1) by blast
qed

theorem sector_roundtrip_witness:
  "\<exists>t u. ata_write_sector (drive_device blank_drive) 1 7 0x1000
       \<lparr>vmem = (\<lambda>a. Some (if unat a < 0x2000 then 65 else 0)), ports = []\<rparr> = Inr t \<and>
     ata_read_sector (drive_device blank_drive) 1 7 0x2000 t = Inr u \<and>
     load_bytes 0x2000 512 u = Inr (replicate 512 65)"
proof -
  let ?s = "\<lparr>vmem = (\<lambda>a. Some (if unat a < 0x2000 then 65 else 0)), ports = []\<rparr>"
  have "drive_idle blank_drive ?s" by (simp add: drive_idle_def drive_after_def blank_drive_def)
  moreover have "rd_bytes (vmem ?s) 0x1000 512 = Inr (replicate 512 65)"
  proof -
    have "unat (0x1000 + of_nat i :: u64) < 0x2000" if "i < 512" for i
      using that by (subst unat_add_of_nat) simp_all
    then show ?thesis unfolding rd_bytes_eq_Inr by simp
  qed
  moreover have "mapped (vmem ?s) 0x2000 512" by (simp add: mapped_def)
  ultimately show ?thesis
    using sector_roundtrip [OF drive_device_answers, of 1 blank_drive ?s "0x1000" "replicate 512 65" "0x2000" 7]
    by auto
qed

text \<open>C38. A disk error stops the machine.  When the drive has become ready and then, after the command
  for a sector, is busy for some polls, does not request data, and raises its error bit in
  whatever round of the wait, the driver panics with its message: neither a read nor a write of
  that sector returns.  Nothing is assumed of other sectors, of the polls before the command or
  of the rounds before the error.\<close>

theorem ata_error_panics:
  fixes s :: "'a machine_scheme"
  assumes "\<exists>j < n. status_poll dev (ports s) j AND ATA_SR_BSY = 0" "b < n" "k < n"
    and "\<forall>cmd \<in> {ATA_CMD_READ_PIO, ATA_CMD_WRITE_PIO}. \<forall>t :: 'a machine_scheme. command_fails dev b k (ports (ata_command lba cmd t))"
  shows "ata_read_sector dev n lba p s = Inl (Panic (str ''ATA Disk Error!'')) \<and>
    ata_write_sector dev n lba p s = Inl (Panic (str ''ATA Disk Error!''))"
proof -
  obtain j where "j < n" "status_poll dev (ports s) j AND ATA_SR_BSY = 0" using assms(1) by blast
  then obtain u where "ata_wait_bsy dev n s = Inr u"
    using spin_within [of "\<lambda>v. v AND ATA_SR_BSY = 0" dev j ATA_PRIMARY_COMM_STAT s n] by (auto simp: ata_wait_bsy_def status_poll_def)
  moreover have "command_fails dev b k (ports (ata_command lba ATA_CMD_READ_PIO u))"
    "command_fails dev b k (ports (ata_command lba ATA_CMD_WRITE_PIO u))" using assms(4) by blast+
  ultimately show ?thesis
    by (simp add: ata_read_sector_def ata_write_sector_def Let_def failed_command [OF _ assms(2,3)])
qed

theorem ata_error_panics_witness:
  "ata_read_sector bad_sector 5 7 0x1000 \<lparr>vmem = Map.empty, ports = []\<rparr> = Inl (Panic (str ''ATA Disk Error!'')) \<and>
   bad_sector (ports (ata_command 7 ATA_CMD_READ_PIO \<lparr>vmem = Map.empty, ports = []\<rparr>)) ATA_PRIMARY_COMM_STAT = 0x80"
proof -
  let ?s = "\<lparr>vmem = Map.empty, ports = []\<rparr> :: machine"
  have n: "names_seven (ports (ata_command 7 cmd t))" "polls (replicate j (In ATA_PRIMARY_COMM_STAT) @ ports (ata_command 7 cmd t)) = j"
    for cmd j and t :: machine
    by (simp_all add: ata_command_def polls_replicate outb_def)
  have st: "status_poll bad_sector (ports (ata_command 7 cmd t)) j = (if j = 0 then 0x80 else if j < 4 then 0x40 else 0x41)"
    for cmd j and t :: machine
    by (simp add: status_poll_def bad_sector_def names_replicate n)
  have "command_fails bad_sector 1 1 (ports (ata_command 7 cmd t))" for cmd and t :: machine
    by (auto simp: command_fails_def st ATA_SR_BSY_def ATA_SR_DRQ_def ATA_SR_ERR_def)
  then have f: "\<forall>cmd \<in> {ATA_CMD_READ_PIO, ATA_CMD_WRITE_PIO}. \<forall>t :: machine. command_fails bad_sector 1 1 (ports (ata_command 7 cmd t))"
    by blast
  have "status_poll bad_sector (ports ?s) 0 AND ATA_SR_BSY = 0"
    by (simp add: status_poll_def bad_sector_def drive_device_def ATA_SR_BSY_def)
  then have r: "\<exists>j < 5. status_poll bad_sector (ports ?s) j AND ATA_SR_BSY = 0" by (intro exI [of _ 0]) simp
  have "bad_sector (ports (ata_command 7 ATA_CMD_READ_PIO ?s)) ATA_PRIMARY_COMM_STAT = 0x80"
    using n(1) n(2) [of 0] by (simp add: bad_sector_def)
  then show ?thesis using ata_error_panics [OF r _ _ f, of "0x1000"] by simp
qed

end
