(* ===== verification/Block.thy ===== *)
theory Block
  imports Task Ata
begin

text \<open>
  \<open>fs/block_device.c\<close>: the cache of eight 1 KB disk blocks, written back lazily and
  replaced least recently used first, with a CRC-32 over the data of a block.  The buffers
  are a static array whose address the linker chooses (the field \<open>buffers\<close>): programs
  reach the data of a block through its address.
\<close>

definition BLOCK_DATA_SIZE :: nat where "BLOCK_DATA_SIZE = 1008"
definition NUM_BUFFERS :: nat where "NUM_BUFFERS = 8"
definition DISK_BLOCK_OFFSET_SECTORS :: u32 where "DISK_BLOCK_OFFSET_SECTORS = 1024"

record block_cache = task +
  buffers :: u64
  most_recent_buffer :: u32

section \<open>CRC-32\<close>

definition crc_shift :: "u32 \<Rightarrow> u32" where
  "crc_shift crc = drop_bit 1 crc XOR (0xEDB88320 AND (0 - (crc AND 1)))"

fun crc_bytes :: "u8 list \<Rightarrow> u32 \<Rightarrow> u32" where
  "crc_bytes [] crc = crc"
| "crc_bytes (b # bs) crc = crc_bytes bs ((crc_shift ^^ 8) (crc XOR ucast b))"

definition calculate_crc32 :: "u64 \<Rightarrow> nat \<Rightarrow> 'a machine_scheme \<Rightarrow> u32 res" where
  "calculate_crc32 data n s = rbind (load_bytes data n s) (\<lambda>bs. Inr (NOT (crc_bytes bs 0xFFFFFFFF)))"

section \<open>The buffers\<close>

text \<open>
  One \<open>block_buffer_t\<close> has 1040 bytes: block number at 0, dirty at 4, valid at 5, time of
  the last use at 8, and at 16 the block itself: type, previous, next, CRC, then the data
  at 32.
\<close>

definition buf_addr :: "nat \<Rightarrow> 'a block_cache_scheme \<Rightarrow> u64" where
  "buf_addr i s = buffers s + 1040 * of_nat i"

definition buf_block_num :: "nat \<Rightarrow> 'a block_cache_scheme \<Rightarrow> u32 res" where "buf_block_num i s = load32 (buf_addr i s) s"
definition buf_dirty :: "nat \<Rightarrow> 'a block_cache_scheme \<Rightarrow> u8 res" where "buf_dirty i s = load8 (buf_addr i s + 4) s"
definition buf_valid :: "nat \<Rightarrow> 'a block_cache_scheme \<Rightarrow> u8 res" where "buf_valid i s = load8 (buf_addr i s + 5) s"
definition buf_last_used :: "nat \<Rightarrow> 'a block_cache_scheme \<Rightarrow> u64 res" where "buf_last_used i s = load64 (buf_addr i s + 8) s"

definition set_block_num :: "nat \<Rightarrow> u32 \<Rightarrow> 'a block_cache_scheme \<Rightarrow> 'a block_cache_scheme res" where
  "set_block_num i v s = store32 (buf_addr i s) v s"
definition set_dirty :: "nat \<Rightarrow> u8 \<Rightarrow> 'a block_cache_scheme \<Rightarrow> 'a block_cache_scheme res" where
  "set_dirty i v s = store8 (buf_addr i s + 4) v s"
definition set_valid :: "nat \<Rightarrow> u8 \<Rightarrow> 'a block_cache_scheme \<Rightarrow> 'a block_cache_scheme res" where
  "set_valid i v s = store8 (buf_addr i s + 5) v s"
definition set_last_used :: "nat \<Rightarrow> u64 \<Rightarrow> 'a block_cache_scheme \<Rightarrow> 'a block_cache_scheme res" where
  "set_last_used i v s = store64 (buf_addr i s + 8) v s"

definition buf_block :: "nat \<Rightarrow> 'a block_cache_scheme \<Rightarrow> u64" where "buf_block i s = buf_addr i s + 16"

definition blk_type :: "u64 \<Rightarrow> u64" where "blk_type b = b"
definition blk_crc :: "u64 \<Rightarrow> u64" where "blk_crc b = b + 12"
definition blk_data :: "u64 \<Rightarrow> u64" where "blk_data b = b + 16"

definition block_init :: "device \<Rightarrow> nat \<Rightarrow> 'a block_cache_scheme \<Rightarrow> 'a block_cache_scheme res" where
  "block_init dev n s =
     rbind (memset (buffers s) 0 (NUM_BUFFERS * 1040) s) (\<lambda>s.
     rbind (ata_init dev n s) (\<lambda>s.
     serial_puts dev n SERIAL_COM1 (str ''FS: Block cache initialized\<newline>'') s))"

definition write_buffer_to_disk :: "device \<Rightarrow> nat \<Rightarrow> nat \<Rightarrow> 'a block_cache_scheme \<Rightarrow> 'a block_cache_scheme res" where
  "write_buffer_to_disk dev n idx s =
     rbind (buf_valid idx s) (\<lambda>v.
     rbind (if v \<noteq> 0 then buf_dirty idx s else Inr 0) (\<lambda>d.
     if v = 0 \<or> d = 0 then Inr s
     else
       rbind (calculate_crc32 (blk_data (buf_block idx s)) BLOCK_DATA_SIZE s) (\<lambda>crc.
       rbind (store32 (blk_crc (buf_block idx s)) crc s) (\<lambda>s.
       rbind (buf_block_num idx s) (\<lambda>bn.
       let start_sector = DISK_BLOCK_OFFSET_SECTORS + bn * 2 in
       rbind (ata_write_sector dev n start_sector (buf_block idx s) s) (\<lambda>s.
       rbind (ata_write_sector dev n (start_sector + 1) (buf_block idx s + 512) s) (\<lambda>s.
       set_dirty idx 0 s)))))))"

fun find_buffer :: "nat list \<Rightarrow> u32 \<Rightarrow> 'a block_cache_scheme \<Rightarrow> nat option res" where
  "find_buffer [] block_num s = Inr None"
| "find_buffer (i # is) block_num s =
     rbind (buf_valid i s) (\<lambda>v.
     rbind (if v \<noteq> 0 then buf_block_num i s else Inr 0) (\<lambda>bn.
     if v \<noteq> 0 \<and> bn = block_num then Inr (Some i) else find_buffer is block_num s))"

fun find_oldest :: "nat list \<Rightarrow> nat \<Rightarrow> u64 \<Rightarrow> 'a block_cache_scheme \<Rightarrow> nat res" where
  "find_oldest [] oldest_idx oldest_time s = Inr oldest_idx"
| "find_oldest (i # is) oldest_idx oldest_time s =
     rbind (buf_valid i s) (\<lambda>v.
     if v = 0 then Inr i
     else
       rbind (buf_last_used i s) (\<lambda>t.
       if t < oldest_time then find_oldest is i t s
       else find_oldest is oldest_idx oldest_time s))"

definition block_get :: "device \<Rightarrow> nat \<Rightarrow> u32 \<Rightarrow> 'a block_cache_scheme \<Rightarrow> (u64 \<times> 'a block_cache_scheme) res" where
  "block_get dev n block_num s =
     rbind (find_buffer [0..<NUM_BUFFERS] block_num s) (\<lambda>r.
     case r of
       Some i \<Rightarrow>
         rbind (set_last_used i (kernel_ticks s) s) (\<lambda>s.
         let s = s\<lparr>most_recent_buffer := of_nat i\<rparr> in Inr (buf_block i s, s))
     | None \<Rightarrow>
         rbind (find_oldest [0..<NUM_BUFFERS] 0 0xFFFFFFFFFFFFFFFF s) (\<lambda>oldest_idx.
         rbind (write_buffer_to_disk dev n oldest_idx s) (\<lambda>s.
         let start_sector = DISK_BLOCK_OFFSET_SECTORS + block_num * 2 in
         rbind (ata_read_sector dev n start_sector (buf_block oldest_idx s) s) (\<lambda>s.
         rbind (ata_read_sector dev n (start_sector + 1) (buf_block oldest_idx s + 512) s) (\<lambda>s.
         rbind (calculate_crc32 (blk_data (buf_block oldest_idx s)) BLOCK_DATA_SIZE s) (\<lambda>expected_crc.
         rbind (load32 (blk_crc (buf_block oldest_idx s)) s) (\<lambda>crc.
         rbind
           (if crc \<noteq> 0 \<and> crc \<noteq> expected_crc
            then serial_puts dev n SERIAL_COM1 (str ''FS WARNING: CRC mismatch on block load!\<newline>'') s
            else Inr s) (\<lambda>s.
         rbind (set_block_num oldest_idx block_num s) (\<lambda>s.
         rbind (set_valid oldest_idx 1 s) (\<lambda>s.
         rbind (set_dirty oldest_idx 0 s) (\<lambda>s.
         rbind (set_last_used oldest_idx (kernel_ticks s) s) (\<lambda>s.
         let s = s\<lparr>most_recent_buffer := of_nat oldest_idx\<rparr>
         in Inr (buf_block oldest_idx s, s)))))))))))))"

definition block_update :: "'a block_cache_scheme \<Rightarrow> 'a block_cache_scheme res" where
  "block_update s =
     rbind (buf_valid (unat (most_recent_buffer s)) s) (\<lambda>v.
     if v \<noteq> 0 then set_dirty (unat (most_recent_buffer s)) 1 s else Inr s)"

fun flush_buffers :: "device \<Rightarrow> nat \<Rightarrow> nat list \<Rightarrow> 'a block_cache_scheme \<Rightarrow> 'a block_cache_scheme res" where
  "flush_buffers dev n [] s = Inr s"
| "flush_buffers dev n (i # is) s = rbind (write_buffer_to_disk dev n i s) (\<lambda>s. flush_buffers dev n is s)"

definition block_flush :: "device \<Rightarrow> nat \<Rightarrow> 'a block_cache_scheme \<Rightarrow> 'a block_cache_scheme res" where
  "block_flush dev n s = flush_buffers dev n [0..<NUM_BUFFERS] s"

end
