(* ===== verification/Crc.thy ===== *)
theory Crc
  imports Block
begin
text \<open>
  What the CRC-32 of \<open>fs/block_device.c\<close> detects.  One step of the bit loop is linear
  over exclusive-or and injective, so the difference of two checksums depends only on the
  difference of the data and never vanishes once a difference of at most four bytes has gone
  in.
\<close>

unbundle bit_operations_syntax

section \<open>The shift register\<close>

lemma crc_shift_alt: "crc_shift x = drop_bit 1 x XOR (if bit x 0 then 0xEDB88320 else 0)"
proof -
  have "x AND 1 = of_bool (bit x 0)" by (simp add: and_one_eq bit_0 odd_iff_mod_2_eq_one flip: mod_2_eq_odd)
  then show ?thesis by (simp add: crc_shift_def)
qed

lemma xor_0: "x XOR y = 0 \<longleftrightarrow> x = (y :: u32)"
  by (metis xor.assoc xor.right_neutral xor_self_eq)

lemma xor_cancel: "x XOR z = y XOR z \<longleftrightarrow> x = (y :: u32)"
proof -
  have "(x XOR z) XOR (y XOR z) = x XOR y" by (rule bit_word_eqI) (auto simp: bit_xor_iff)
  with xor_0 [of "x XOR z" "y XOR z"] xor_0 [of x y] show ?thesis by metis
qed

lemma crc_shift_xor: "crc_shift (x XOR y) = crc_shift x XOR crc_shift y"
  by (simp add: crc_shift_alt bit_xor_iff drop_bit_xor xor.assoc xor.left_commute)

lemma crc_shift_eq_0: "crc_shift x = 0 \<longleftrightarrow> x = 0"
proof
  assume z: "crc_shift x = 0"
  have "\<not> bit x 0"
  proof
    assume "bit x 0"
    then have "drop_bit 1 x = 0xEDB88320" using z by (simp add: crc_shift_alt xor_0)
    then have "bit (drop_bit 1 x) 31 = bit (0xEDB88320 :: u32) 31" by simp
    then show False using bit_imp_le_length [of x 32] by (auto simp: bit_drop_bit_eq)
  qed
  then have "drop_bit 1 x = 0" using z by (simp add: crc_shift_alt)
  show "x = 0"
  proof (rule bit_word_eqI)
    fix i assume "i < LENGTH(32)"
    show "bit x i = bit (0 :: u32) i"
    proof (cases i)
      case 0
      with \<open>\<not> bit x 0\<close> show ?thesis by simp
    next
      case (Suc j)
      have "bit (drop_bit 1 x) j = False" unfolding \<open>drop_bit 1 x = 0\<close> by simp
      with Suc show ?thesis by (simp add: bit_drop_bit_eq)
    qed
  qed
qed (simp add: crc_shift_def)

abbreviation crc_round :: "u32 \<Rightarrow> u32" where "crc_round \<equiv> crc_shift ^^ 8"

lemma funpow_xor: "(crc_shift ^^ n) (x XOR y) = (crc_shift ^^ n) x XOR (crc_shift ^^ n) y"
  by (induction n) (simp_all add: crc_shift_xor)

lemma funpow_eq_0: "(crc_shift ^^ n) x = 0 \<longleftrightarrow> x = 0"
  by (induction n) (simp_all add: crc_shift_eq_0)

text \<open>A byte that has been shifted up by eight comes down again without meeting the polynomial.\<close>

lemma crc_shift_push:
  assumes "\<And>i. 24 \<le> i \<Longrightarrow> \<not> bit y i" "k < 8"
  shows "crc_shift (push_bit (Suc k) y) = push_bit k y"
proof -
  have "drop_bit 1 (push_bit (Suc k) y) = push_bit k y"
  proof (rule bit_word_eqI)
    fix i assume i: "i < LENGTH(32)"
    have "i = 31 \<Longrightarrow> \<not> bit y (i - k)" using assms by auto
    then show "bit (drop_bit 1 (push_bit (Suc k) y)) i = bit (push_bit k y) i"
      using i by (cases "i = 31") (auto simp: bit_drop_bit_eq bit_push_bit_iff simp del: push_bit_Suc)
  qed
  moreover have "\<not> bit (push_bit (Suc k) y) 0" by (simp add: bit_push_bit_iff del: push_bit_Suc)
  ultimately show ?thesis by (simp add: crc_shift_alt del: push_bit_Suc)
qed

lemma crc_round_push:
  assumes "\<And>i. 24 \<le> i \<Longrightarrow> \<not> bit y i"
  shows "crc_round (push_bit 8 y) = y"
proof -
  have "(crc_shift ^^ k) (push_bit 8 y) = push_bit (8 - k) y" if "k \<le> 8" for k
    using that
  proof (induction k)
    case (Suc k)
    then have "8 - k = Suc (8 - Suc k)" "8 - Suc k < 8" by simp_all
    with Suc show ?case using crc_shift_push [OF assms, of "8 - Suc k"] by simp
  qed simp
  from this [of 8] show ?thesis by simp
qed

section \<open>Bursts\<close>

text \<open>Up to four bytes as one word, and their effect on the register.\<close>

fun burst :: "u8 list \<Rightarrow> u32" where
  "burst [] = 0"
| "burst (e # es) = ucast e XOR push_bit 8 (burst es)"

lemma burst_bits: "8 * length es \<le> i \<Longrightarrow> \<not> bit (burst es) i"
proof (induction es arbitrary: i)
  case (Cons e es)
  have "\<not> bit (burst es) (i - 8)" by (rule Cons.IH) (use Cons.prems in simp)
  moreover have "\<not> bit (ucast e :: u32) i" using Cons.prems by (auto simp: bit_ucast_iff dest: bit_imp_le_length)
  ultimately show ?case by (auto simp: bit_xor_iff bit_push_bit_iff)
qed simp

lemma burst_nonzero:
  assumes "length es \<le> 4" "e \<in> set es" "e \<noteq> 0"
  shows "burst es \<noteq> 0"
  using assms
proof (induction es)
  case (Cons d es)
  show ?case
  proof (cases "d = 0")
    case True
    then have "burst es \<noteq> 0" using Cons by auto
    then obtain i where i: "bit (burst es) i" by (auto simp: bit_eq_iff)
    have "i < 24" using burst_bits [of es i] Cons.prems(1) i by force
    then have "bit (burst (d # es)) (i + 8)" using i by (simp add: True bit_push_bit_iff)
    then show ?thesis by auto
  next
    case False
    then obtain i where i: "bit d i" by (auto simp: bit_eq_iff)
    then have "i < 8" using bit_imp_le_length by force
    then have "bit (burst (d # es)) i" using i by (simp add: bit_xor_iff bit_push_bit_iff bit_ucast_iff)
    then show ?thesis by auto
  qed
qed simp

lemma crc_bytes_burst:
  "length es \<le> 4 \<Longrightarrow> crc_bytes es d = (crc_shift ^^ (8 * length es)) (d XOR burst es)"
proof (induction es arbitrary: d)
  case (Cons e es)
  have "\<And>i. 24 \<le> i \<Longrightarrow> \<not> bit (burst es) i" using burst_bits [of es] Cons.prems by auto
  then have "crc_round (d XOR ucast e) XOR burst es = crc_round (d XOR burst (e # es))"
    using crc_round_push by (simp add: funpow_xor xor.assoc del: funpow.simps)
  then have "(crc_shift ^^ (8 * length es)) (crc_round (d XOR ucast e) XOR burst es)
      = (crc_shift ^^ (8 * length es + 8)) (d XOR burst (e # es))"
    by (simp only: funpow_add comp_apply)
  moreover have "8 * length es + 8 = 8 * length (e # es)" by simp
  ultimately show ?case using Cons by (simp only: crc_bytes.simps length_Cons)
qed simp

text \<open>The difference of the registers after two inputs of the same length.\<close>

fun differences :: "u8 list \<Rightarrow> u8 list \<Rightarrow> u8 list" where
  "differences (x # xs) (y # ys) = (x XOR y) # differences xs ys"
| "differences _ _ = []"

lemma length_differences: "length xs = length ys \<Longrightarrow> length (differences xs ys) = length xs"
  by (induction xs ys rule: differences.induct) simp_all

lemma differences_nonzero: "length xs = length ys \<Longrightarrow> xs \<noteq> ys \<Longrightarrow> \<exists>e \<in> set (differences xs ys). e \<noteq> 0"
proof (induction xs ys rule: differences.induct)
  case (1 x xs y ys)
  have "x XOR y = 0 \<longleftrightarrow> x = y" by (metis xor.assoc xor.right_neutral xor_self_eq)
  with 1 show ?case by auto
qed simp_all

lemma crc_bytes_differences:
  "length xs = length ys \<Longrightarrow> crc_bytes xs c XOR crc_bytes ys c' = crc_bytes (differences xs ys) (c XOR c')"
proof (induction xs ys arbitrary: c c' rule: differences.induct)
  case (1 x xs y ys)
  have "(c XOR ucast x) XOR (c' XOR ucast y) = (c XOR c') XOR ucast (x XOR y)"
    by (rule bit_word_eqI) (auto simp: bit_xor_iff bit_ucast_iff)
  then have "crc_round (c XOR ucast x) XOR crc_round (c' XOR ucast y) = crc_round ((c XOR c') XOR ucast (x XOR y))"
    by (simp only: funpow_xor [symmetric])
  with 1 show ?case by (simp del: funpow.simps)
qed simp_all

lemma crc_bytes_same: "crc_bytes zs c = crc_bytes zs c' \<longleftrightarrow> c = c'"
proof (induction zs arbitrary: c c')
  case (Cons z zs)
  have inj: "crc_round x = crc_round y \<longleftrightarrow> x = y" for x y
    using funpow_eq_0 [of 8 "x XOR y"] unfolding funpow_xor xor_0 .
  with Cons.IH show ?case by (simp only: crc_bytes.simps xor_cancel)
qed simp

lemma crc_bytes_append: "crc_bytes (xs @ ys) c = crc_bytes ys (crc_bytes xs c)"
  by (induction xs arbitrary: c) simp_all

section \<open>Properties\<close>

text \<open>C24. The checksum of a block detects every burst of errors of up to four bytes: two
  contents that differ in a window of at most four consecutive bytes, however long the block,
  never have the same CRC.\<close>

theorem crc_detects_burst:
  assumes "load_bytes a n s = Inr (xs @ ys @ zs)" "load_bytes a' n' t = Inr (xs @ ys' @ zs)"
    "length ys = length ys'" "length ys \<le> 4" "ys \<noteq> ys'"
  shows "\<exists>c c'. calculate_crc32 a n s = Inr c \<and> calculate_crc32 a' n' t = Inr c' \<and> c \<noteq> c'"
proof -
  let ?c = "crc_bytes xs 0xFFFFFFFF"
  let ?es = "differences ys ys'"
  have "length ?es \<le> 4" using length_differences [OF assms(3)] assms(4) by simp
  moreover obtain e where "e \<in> set ?es" "e \<noteq> 0" using differences_nonzero [OF assms(3,5)] by blast
  ultimately have "crc_bytes ?es 0 \<noteq> 0" using burst_nonzero crc_bytes_burst [of ?es 0] funpow_eq_0 by simp
  then have "crc_bytes ys ?c \<noteq> crc_bytes ys' ?c"
    using crc_bytes_differences [OF assms(3), of ?c ?c] by (metis xor_self_eq)
  then have "crc_bytes (xs @ ys @ zs) 0xFFFFFFFF \<noteq> crc_bytes (xs @ ys' @ zs) 0xFFFFFFFF"
    by (simp add: crc_bytes_append crc_bytes_same)
  then have "NOT (crc_bytes (xs @ ys @ zs) 0xFFFFFFFF) \<noteq> NOT (crc_bytes (xs @ ys' @ zs) 0xFFFFFFFF)"
    by (metis bit.double_compl)
  with assms(1,2) show ?thesis by (simp add: calculate_crc32_def)
qed

theorem crc_detects_burst_witness:
  "\<exists>c c'. calculate_crc32 0x1000 3 (kbd_boot\<lparr>vmem := [0x1000 \<mapsto> 65, 0x1001 \<mapsto> 66, 0x1002 \<mapsto> 67]\<rparr>) = Inr c \<and>
     calculate_crc32 0x1000 3 (kbd_boot\<lparr>vmem := [0x1000 \<mapsto> 65, 0x1001 \<mapsto> 98, 0x1002 \<mapsto> 67]\<rparr>) = Inr c' \<and>
     c \<noteq> c'"
proof -
  let ?s = "kbd_boot\<lparr>vmem := [0x1000 \<mapsto> 65, 0x1001 \<mapsto> 66, 0x1002 \<mapsto> 67]\<rparr>"
  let ?t = "kbd_boot\<lparr>vmem := [0x1000 \<mapsto> 65, 0x1001 \<mapsto> 98, 0x1002 \<mapsto> 67]\<rparr>"
  have "load_bytes 0x1000 3 ?s = Inr ([65] @ [66] @ [67])" "load_bytes 0x1000 3 ?t = Inr ([65] @ [98] @ [67])"
    by (simp_all add: load_bytes_def rd8_def numeral_3_eq_3)
  from crc_detects_burst [OF this] show ?thesis by simp
qed

end
