(* ===== verification/Cache.thy ===== *)
theory Cache
  imports Block Drive
begin

text \<open>
  The cache of \<open>fs/block_device.c\<close> on a drive that keeps its contract.  A first layer reads
  the eight static buffers off the memory as a list of records and shows of every operation what
  it does to that list and to the sectors; a second layer forgets buffers and sectors and keeps
  the contents of each block, which the operations preserve.
\<close>

unbundle bit_operations_syntax

section \<open>The buffers as records\<close>

record buffer =
  b_num :: u32
  b_dirty :: u8
  b_valid :: u8
  b_pad :: "u8 list"
  b_used :: u64
  b_block :: "u8 list"

text \<open>The bytes of one \<open>block_buffer_t\<close>: the two bytes after the flags are padding.\<close>

definition buffer_bytes :: "buffer \<Rightarrow> u8 list" where
  "buffer_bytes b = bytes_of_word 4 (ucast (b_num b)) @ [b_dirty b, b_valid b] @ b_pad b @
     bytes_of_word 8 (b_used b) @ b_block b"

definition buffer_shape :: "buffer \<Rightarrow> bool" where
  "buffer_shape b \<longleftrightarrow> length (b_pad b) = 2 \<and> length (b_block b) = 1024"

definition holds_buffers :: "buffer list \<Rightarrow> 'a block_cache_scheme \<Rightarrow> bool" where
  "holds_buffers bfs s \<longleftrightarrow> length bfs = 8 \<and> unat (buffers s) + 8320 \<le> 2 ^ 64 \<and>
     (\<forall>i < 8. buffer_shape (bfs ! i) \<and> rd_bytes (vmem s) (buf_addr i s) 1040 = Inr (buffer_bytes (bfs ! i)))"

lemma length_buffer_bytes: "buffer_shape b \<Longrightarrow> length (buffer_bytes b) = 1040"
  by (simp add: buffer_shape_def buffer_bytes_def)

lemma holds_buffers_bound:
  assumes "holds_buffers bfs s" "i < 8"
  shows "unat (buf_addr i s) = unat (buffers s) + 1040 * i" "unat (buf_addr i s) + 1040 \<le> 2 ^ 64"
proof -
  have b: "unat (buffers s) + 1040 * i + 1040 \<le> 2 ^ 64" using assms by (simp add: holds_buffers_def)
  have "buf_addr i s = buffers s + of_nat (1040 * i)" by (simp add: buf_addr_def)
  moreover have "unat (buffers s) + 1040 * i < 2 ^ 64" using b by simp
  ultimately show "unat (buf_addr i s) = unat (buffers s) + 1040 * i" by (simp only: unat_add_of_nat)
  with b show "unat (buf_addr i s) + 1040 \<le> 2 ^ 64" by simp
qed

text \<open>A load from a buffer reads the bytes of its record, a store changes them and no other buffer.\<close>

lemma buffer_load:
  assumes "holds_buffers bfs s" "i < 8" "off + n \<le> 1040"
  shows "rd_bytes (vmem s) (buf_addr i s + of_nat off) n = Inr (take n (drop off (buffer_bytes (bfs ! i))))"
  by (rule rd_bytes_part) (use assms in \<open>auto simp: holds_buffers_def\<close>)

lemma rd_bytes_upd_within:
  assumes "rd_bytes m a k = Inr bs" "off + length cs \<le> k" "k < 2 ^ 64"
  shows "rd_bytes (mem_upd m (a + of_nat off) cs) a k = Inr (take off bs @ cs @ drop (off + length cs) bs)"
  unfolding rd_bytes_eq_Inr
proof (intro conjI allI impI)
  have len: "length bs = k" using assms(1) by (simp add: rd_bytes_eq_Inr)
  then show "length (take off bs @ cs @ drop (off + length cs) bs) = k" using assms(2) by simp
  fix i assume i: "i < k"
  have "unat (a + of_nat i - (a + of_nat off)) = (if off \<le> i then i - off else i + 2 ^ 64 - off)"
  proof -
    have "a + of_nat i - (a + of_nat off) = of_nat i - (of_nat off :: u64)" by simp
    moreover have "unat (of_nat i :: u64) = i" "unat (of_nat off :: u64) = off"
      using i assms(2,3) by simp_all
    ultimately show ?thesis by (simp only: unat_sub_if') simp
  qed
  moreover have "m (a + of_nat i) = Some (bs ! i)" using assms(1) i by (simp add: rd_bytes_eq_Inr)
  ultimately show "mem_upd m (a + of_nat off) cs (a + of_nat i) = Some ((take off bs @ cs @ drop (off + length cs) bs) ! i)"
    using i assms(2,3) len by (auto simp: mem_upd_def nth_append)
qed

lemma buffer_store:
  assumes "holds_buffers bfs s" "i < 8" "off + length cs \<le> 1040"
    "take off (buffer_bytes (bfs ! i)) @ cs @ drop (off + length cs) (buffer_bytes (bfs ! i)) = buffer_bytes b"
    "buffer_shape b" and cs: "cs \<noteq> []"
  shows "mapped (vmem s) (buf_addr i s + of_nat off) (length cs)"
    and "holds_buffers (bfs[i := b]) (s\<lparr>vmem := mem_upd (vmem s) (buf_addr i s + of_nat off) cs\<rparr>)"
proof -
  have r: "rd_bytes (vmem s) (buf_addr i s) 1040 = Inr (buffer_bytes (bfs ! i))"
    using assms(1,2) by (simp add: holds_buffers_def)
  then have "mapped (vmem s) (buf_addr i s) 1040" by (auto simp: rd_bytes_eq_Inr mapped_def)
  then show "mapped (vmem s) (buf_addr i s + of_nat off) (length cs)"
    using assms(3) unfolding mapped_def by (auto simp: add.assoc simp flip: of_nat_add)
  let ?s = "s\<lparr>vmem := mem_upd (vmem s) (buf_addr i s + of_nat off) cs\<rparr>"
  have a: "buf_addr j ?s = buf_addr j s" for j by (simp add: buf_addr_def)
  have "buffer_shape (bfs[i := b] ! j) \<and> rd_bytes (vmem ?s) (buf_addr j ?s) 1040 = Inr (buffer_bytes (bfs[i := b] ! j))"
    if j: "j < 8" for j
  proof (cases "j = i")
    case True
    then show ?thesis
      using rd_bytes_upd_within [OF r assms(3)] assms(1,2,4,5)
      by (simp add: a holds_buffers_def)
  next
    case False
    have "apart (buf_addr i s + of_nat off) (length cs) (buf_addr j s) 1040"
    proof -
      have "0 < length cs" using cs by simp
      then have "off < 1040" using assms(3) by linarith
      have "unat (buf_addr i s + of_nat off) = unat (buf_addr i s) + off"
        using holds_buffers_bound [OF assms(1,2)] \<open>off < 1040\<close> by (intro unat_add_of_nat) linarith
      moreover have "1040 * i + 1040 \<le> 1040 * j \<or> 1040 * j + 1040 \<le> 1040 * i" using False by linarith
      ultimately show ?thesis
        using holds_buffers_bound [OF assms(1,2)] holds_buffers_bound [OF assms(1) j] assms(3)
        unfolding apart_def by linarith
    qed
    then have "rd_bytes (vmem ?s) (buf_addr j s) 1040 = rd_bytes (vmem s) (buf_addr j s) 1040"
      by (simp add: rd_bytes_upd_apart)
    then show ?thesis using False assms(1) j by (simp add: a holds_buffers_def)
  qed
  then show "holds_buffers (bfs[i := b]) ?s" using assms(1) by (simp add: holds_buffers_def)
qed

text \<open>Memory outside the static array is never written.\<close>

definition outside_same :: "u64 \<Rightarrow> memory \<Rightarrow> memory \<Rightarrow> bool" where
  "outside_same base m m' \<longleftrightarrow> (\<forall>x. 8320 \<le> unat (x - base) \<longrightarrow> m' x = m x)"

lemma outside_same_refl [simp]: "outside_same base m m"
  by (simp add: outside_same_def)

lemma outside_same_trans: "outside_same base m m' \<Longrightarrow> outside_same base m' m'' \<Longrightarrow> outside_same base m m''"
  by (simp add: outside_same_def)

lemma outside_same_upd:
  assumes "i < 8" "off + length cs \<le> 1040"
  shows "outside_same (buffers s) m (mem_upd m (buf_addr i s + of_nat off) cs)"
  unfolding outside_same_def
proof (intro allI impI)
  fix x assume x: "8320 \<le> unat (x - buffers s)"
  let ?o = "1040 * i + off"
  have o: "?o + length cs \<le> 8320" using assms by linarith
  have "x - (buf_addr i s + of_nat off) = x - buffers s - of_nat ?o" by (simp add: buf_addr_def)
  moreover have "unat (of_nat ?o :: u64) = ?o" using o by (intro unat_of_nat_lt) simp
  ultimately have "unat (x - (buf_addr i s + of_nat off)) = unat (x - buffers s) - ?o"
    using x o by (simp only: unat_sub_if') simp
  then have "\<not> unat (x - (buf_addr i s + of_nat off)) < length cs" using x o by linarith
  then show "mem_upd m (buf_addr i s + of_nat off) cs x = m x" by (simp add: mem_upd_def)
qed

section \<open>Fields\<close>

definition checksum :: "u8 list \<Rightarrow> u32" where
  "checksum blk = NOT (crc_bytes (drop 16 blk) 0xFFFFFFFF)"

lemma buffer_reads:
  assumes "holds_buffers bfs s" "i < 8"
  shows "buf_block_num i s = Inr (b_num (bfs ! i))"
    and "buf_dirty i s = Inr (b_dirty (bfs ! i))"
    and "buf_valid i s = Inr (b_valid (bfs ! i))"
    and "buf_last_used i s = Inr (b_used (bfs ! i))"
    and "load_bytes (buf_block i s) 1024 s = Inr (b_block (bfs ! i))"
proof -
  have sh: "length (b_pad (bfs ! i)) = 2" "length (b_block (bfs ! i)) = 1024"
    using assms by (simp_all add: holds_buffers_def buffer_shape_def)
  note ld = buffer_load [OF assms]
  show "buf_block_num i s = Inr (b_num (bfs ! i))"
    using ld [of 0 4] by (simp add: buf_block_num_def load32_def rd32_def buffer_bytes_def)
  have r1: "rd8 (vmem s) (buf_addr i s + of_nat k) = Inr (buffer_bytes (bfs ! i) ! k)" if "k < 1040" for k
  proof -
    have "vmem s (buf_addr i s + of_nat k) = Some (buffer_bytes (bfs ! i) ! k)"
      using assms that by (simp add: holds_buffers_def rd_bytes_eq_Inr)
    then show ?thesis by (simp add: rd8_def)
  qed
  show "buf_dirty i s = Inr (b_dirty (bfs ! i))"
    using r1 [of 4] by (simp add: buf_dirty_def load8_def buffer_bytes_def nth_append)
  show "buf_valid i s = Inr (b_valid (bfs ! i))"
    using r1 [of 5] by (simp add: buf_valid_def load8_def buffer_bytes_def nth_append)
  show "buf_last_used i s = Inr (b_used (bfs ! i))"
    using ld [of 8 8] sh by (simp add: buf_last_used_def load64_def rd64_def buffer_bytes_def)
  show "load_bytes (buf_block i s) 1024 s = Inr (b_block (bfs ! i))"
    using ld [of 16 1024] sh by (simp add: buf_block_def load_bytes_def buffer_bytes_def)
qed

lemma bytes_of_word_eq_Nil [simp]: "bytes_of_word n w = [] \<longleftrightarrow> n = 0"
  by (cases n) simp_all

lemma buffer_writes:
  fixes s :: "'a block_cache_scheme"
  assumes "holds_buffers bfs s" "i < 8"
  shows "\<exists>m. set_block_num i n s = Inr (s\<lparr>vmem := m\<rparr>) \<and> outside_same (buffers s) (vmem s) m \<and>
      holds_buffers (bfs[i := (bfs ! i)\<lparr>b_num := n\<rparr>]) (s\<lparr>vmem := m\<rparr>)"
    and "\<exists>m. set_dirty i d s = Inr (s\<lparr>vmem := m\<rparr>) \<and> outside_same (buffers s) (vmem s) m \<and>
      holds_buffers (bfs[i := (bfs ! i)\<lparr>b_dirty := d\<rparr>]) (s\<lparr>vmem := m\<rparr>)"
    and "\<exists>m. set_valid i d s = Inr (s\<lparr>vmem := m\<rparr>) \<and> outside_same (buffers s) (vmem s) m \<and>
      holds_buffers (bfs[i := (bfs ! i)\<lparr>b_valid := d\<rparr>]) (s\<lparr>vmem := m\<rparr>)"
    and "\<exists>m. set_last_used i t s = Inr (s\<lparr>vmem := m\<rparr>) \<and> outside_same (buffers s) (vmem s) m \<and>
      holds_buffers (bfs[i := (bfs ! i)\<lparr>b_used := t\<rparr>]) (s\<lparr>vmem := m\<rparr>)"
proof -
  let ?b = "bfs ! i"
  have sh: "length (b_pad ?b) = 2" "length (b_block ?b) = 1024"
    using assms by (simp_all add: holds_buffers_def buffer_shape_def)
  note st = buffer_store [OF assms] and out = outside_same_upd [OF assms(2)]
  show "\<exists>m. set_block_num i n s = Inr (s\<lparr>vmem := m\<rparr>) \<and> outside_same (buffers s) (vmem s) m \<and>
      holds_buffers (bfs[i := ?b\<lparr>b_num := n\<rparr>]) (s\<lparr>vmem := m\<rparr>)"
    using st [of 0 "bytes_of_word 4 (ucast n)" "?b\<lparr>b_num := n\<rparr>"] out [of 0 "bytes_of_word 4 (ucast n)"] sh
    by (intro exI [of _ "mem_upd (vmem s) (buf_addr i s) (bytes_of_word 4 (ucast n))"])
      (simp add: set_block_num_def store32_mapped buffer_bytes_def buffer_shape_def)
  show "\<exists>m. set_dirty i d s = Inr (s\<lparr>vmem := m\<rparr>) \<and> outside_same (buffers s) (vmem s) m \<and>
      holds_buffers (bfs[i := ?b\<lparr>b_dirty := d\<rparr>]) (s\<lparr>vmem := m\<rparr>)"
    using st [of 4 "[d]" "?b\<lparr>b_dirty := d\<rparr>"] out [of 4 "[d]"] sh
    by (intro exI [of _ "mem_upd (vmem s) (buf_addr i s + 4) [d]"])
      (simp add: set_dirty_def store8_mapped buffer_bytes_def buffer_shape_def)
  show "\<exists>m. set_valid i d s = Inr (s\<lparr>vmem := m\<rparr>) \<and> outside_same (buffers s) (vmem s) m \<and>
      holds_buffers (bfs[i := ?b\<lparr>b_valid := d\<rparr>]) (s\<lparr>vmem := m\<rparr>)"
    using st [of 5 "[d]" "?b\<lparr>b_valid := d\<rparr>"] out [of 5 "[d]"] sh
    by (intro exI [of _ "mem_upd (vmem s) (buf_addr i s + 5) [d]"])
      (simp add: set_valid_def store8_mapped buffer_bytes_def buffer_shape_def take_Cons' drop_Cons')
  show "\<exists>m. set_last_used i t s = Inr (s\<lparr>vmem := m\<rparr>) \<and> outside_same (buffers s) (vmem s) m \<and>
      holds_buffers (bfs[i := ?b\<lparr>b_used := t\<rparr>]) (s\<lparr>vmem := m\<rparr>)"
    using st [of 8 "bytes_of_word 8 t" "?b\<lparr>b_used := t\<rparr>"] out [of 8 "bytes_of_word 8 t"] sh
    by (intro exI [of _ "mem_upd (vmem s) (buf_addr i s + 8) (bytes_of_word 8 t)"])
      (simp add: set_last_used_def store64_mapped buffer_bytes_def buffer_shape_def)
qed

definition overwrite :: "nat \<Rightarrow> u8 list \<Rightarrow> u8 list \<Rightarrow> u8 list" where
  "overwrite off cs blk = take off blk @ cs @ drop (off + length cs) blk"

lemma length_overwrite [simp]: "off + length cs \<le> length blk \<Longrightarrow> length (overwrite off cs blk) = length blk"
  by (simp add: overwrite_def)

lemma block_write:
  fixes s :: "'a block_cache_scheme"
  assumes "holds_buffers bfs s" "i < 8" "cs \<noteq> []" "off + length cs \<le> 1024"
  defines "m \<equiv> mem_upd (vmem s) (buf_block i s + of_nat off) cs"
  shows "mapped (vmem s) (buf_block i s + of_nat off) (length cs)"
    and "outside_same (buffers s) (vmem s) m"
    and "holds_buffers (bfs[i := (bfs ! i)\<lparr>b_block := overwrite off cs (b_block (bfs ! i))\<rparr>]) (s\<lparr>vmem := m\<rparr>)"
proof -
  let ?b = "bfs ! i"
  let ?c = "?b\<lparr>b_block := overwrite off cs (b_block ?b)\<rparr>"
  have sh: "length (b_pad ?b) = 2" "length (b_block ?b) = 1024"
    using assms(1,2) by (simp_all add: holds_buffers_def buffer_shape_def)
  define h where "h = bytes_of_word 4 (ucast (b_num ?b)) @ [b_dirty ?b, b_valid ?b] @ b_pad ?b @ bytes_of_word 8 (b_used ?b)"
  have h: "length h = 16" "buffer_bytes ?b = h @ b_block ?b" "buffer_bytes ?c = h @ b_block ?c"
    using sh by (simp_all add: h_def buffer_bytes_def)
  have o: "(16 + off) + length cs \<le> 1040" using assms(4) by simp
  have a: "buf_block i s + of_nat off = buf_addr i s + of_nat (16 + off)" by (simp add: buf_block_def)
  have c: "take (16 + off) (buffer_bytes ?b) @ cs @ drop (16 + off + length cs) (buffer_bytes ?b) = buffer_bytes ?c"
    using h by (simp add: overwrite_def)
  have w: "buffer_shape ?c" using sh assms(4) by (simp add: buffer_shape_def)
  note st = buffer_store [OF assms(1,2) o c w assms(3)]
  show "mapped (vmem s) (buf_block i s + of_nat off) (length cs)" unfolding a by (rule st(1))
  show "outside_same (buffers s) (vmem s) m" unfolding m_def a by (rule outside_same_upd [OF assms(2) o])
  show "holds_buffers (bfs[i := ?c]) (s\<lparr>vmem := m\<rparr>)" unfolding m_def a by (rule st(2))
qed

lemma block_read:
  assumes "holds_buffers bfs s" "i < 8" "off + n \<le> 1024"
  shows "rd_bytes (vmem s) (buf_block i s + of_nat off) n = Inr (take n (drop off (b_block (bfs ! i))))"
  using rd_bytes_part [of "vmem s" "buf_block i s" 1024 "b_block (bfs ! i)" off n]
    buffer_reads(5) [OF assms(1,2)] assms(3) by (simp add: load_bytes_def)

section \<open>The cache as a function of buffers and sectors\<close>

type_synonym cache = "buffer list \<times> (nat \<Rightarrow> u8 list)"

definition first_sector :: "u32 \<Rightarrow> nat" where
  "first_sector n = sector_number (DISK_BLOCK_OFFSET_SECTORS + n * 2)"

definition disk_block :: "(nat \<Rightarrow> u8 list) \<Rightarrow> u32 \<Rightarrow> u8 list" where
  "disk_block D n = D (first_sector n) @ D (Suc (first_sector n))"

definition stamped :: "u8 list \<Rightarrow> u8 list" where
  "stamped blk = overwrite 12 (bytes_of_word 4 (ucast (checksum blk))) blk"

definition write_back :: "nat \<Rightarrow> cache \<Rightarrow> cache" where
  "write_back i c =
     (let b = fst c ! i; l = first_sector (b_num b); blk = stamped (b_block b) in
      if b_valid b = 0 \<or> b_dirty b = 0 then c
      else ((fst c)[i := b\<lparr>b_block := blk, b_dirty := 0\<rparr>], (snd c)(l := take 512 blk, Suc l := drop 512 blk)))"

definition cached :: "drive \<Rightarrow> cache \<Rightarrow> 'a block_cache_scheme \<Rightarrow> bool" where
  "cached d c s \<longleftrightarrow> holds_buffers (fst c) s \<and> drive_idle d s \<and> sector_on d s = snd c"

text \<open>What an operation of the cache may change: the array, the port history and the last buffer used.\<close>

definition only_cache :: "'a block_cache_scheme \<Rightarrow> 'a block_cache_scheme \<Rightarrow> bool" where
  "only_cache s s' \<longleftrightarrow> outside_same (buffers s) (vmem s) (vmem s') \<and>
     s'\<lparr>vmem := vmem s, ports := ports s, most_recent_buffer := most_recent_buffer s\<rparr> = s"

lemma only_cache_refl [simp]: "only_cache s s"
  by (simp add: only_cache_def)

lemma only_cache_buffers: "only_cache s s' \<Longrightarrow> buffers s' = buffers s \<and> kernel_ticks s' = kernel_ticks s"
  unfolding only_cache_def by (cases s, cases s') simp

lemma only_cache_trans [trans]: "only_cache s s' \<Longrightarrow> only_cache s' s'' \<Longrightarrow> only_cache s s''"
  unfolding only_cache_def by (cases s, cases s', cases s'') (auto intro: outside_same_trans)

lemma only_cache_vmem: "outside_same (buffers s) (vmem s) m \<Longrightarrow> only_cache s (s\<lparr>vmem := m\<rparr>)"
  unfolding only_cache_def by (cases s) simp

lemma only_cache_ports [simp]: "only_cache s (t\<lparr>ports := h\<rparr>) = only_cache s t"
  unfolding only_cache_def by (cases s, cases t) simp

lemma only_cache_recent [simp]: "only_cache s (t\<lparr>most_recent_buffer := k\<rparr>) = only_cache s t"
  unfolding only_cache_def by (cases s, cases t) simp

lemma only_cache_upd: "outside_same (buffers s) (vmem s) m \<Longrightarrow> only_cache s (s\<lparr>vmem := m, ports := h\<rparr>)"
  unfolding only_cache_def by (cases s) simp

lemma holds_buffers_cong [simp]:
  "holds_buffers bfs (s\<lparr>ports := h\<rparr>) = holds_buffers bfs s"
  "holds_buffers bfs (s\<lparr>most_recent_buffer := k\<rparr>) = holds_buffers bfs s"
  by (simp_all add: holds_buffers_def buf_addr_def)

lemma holds_buffers_vmem_ports [simp]:
  "holds_buffers bfs (s\<lparr>ports := h, vmem := m\<rparr>) = holds_buffers bfs (s\<lparr>vmem := m\<rparr>)"
  by (simp add: holds_buffers_def buf_addr_def)

lemma drive_cong [simp]:
  "drive_idle d (s\<lparr>vmem := m\<rparr>) = drive_idle d s" "sector_on d (s\<lparr>vmem := m\<rparr>) = sector_on d s"
  "drive_idle d (s\<lparr>vmem := m, ports := h\<rparr>) = drive_idle d (s\<lparr>ports := h\<rparr>)"
  "sector_on d (s\<lparr>vmem := m, ports := h\<rparr>) = sector_on d (s\<lparr>ports := h\<rparr>)"
  "drive_idle d (r\<lparr>most_recent_buffer := k\<rparr>) = drive_idle d r"
  "sector_on d (r\<lparr>most_recent_buffer := k\<rparr>) = sector_on d r"
  by (simp_all add: drive_idle_def sector_on_def)

lemma buf_block_cong [simp]:
  "buf_block i (s\<lparr>vmem := m\<rparr>) = buf_block i s" "buf_block i (s\<lparr>ports := h\<rparr>) = buf_block i s"
  "buf_block i (s\<lparr>most_recent_buffer := k\<rparr>) = buf_block i s"
  "buf_addr i (s\<lparr>vmem := m\<rparr>) = buf_addr i s" "buf_addr i (s\<lparr>ports := h\<rparr>) = buf_addr i s"
  by (simp_all add: buf_block_def buf_addr_def)

lemma second_sector: "sector_number (DISK_BLOCK_OFFSET_SECTORS + n * 2 + 1) = Suc (first_sector n)"
proof -
  let ?x = "DISK_BLOCK_OFFSET_SECTORS + n * 2"
  define q where "q = (512 + unat n) mod 2 ^ 31"
  have "unat ?x = (2 * (512 + unat n)) mod (2 * 2 ^ 31)"
    by (simp add: DISK_BLOCK_OFFSET_SECTORS_def unat_word_ariths mod_simps mult.commute)
  then have u: "unat ?x = 2 * q" by (simp only: q_def mult_mod_right)
  moreover have "q < 2 ^ 31" by (simp add: q_def)
  ultimately have "unat (?x + 1) = Suc (2 * q)" by (simp add: unat_plus_if')
  moreover have "Suc (2 * q) mod 2 ^ 28 = Suc (2 * q mod 2 ^ 28)"
  proof -
    have "even (2 * q mod 2 ^ 28)" by (simp add: dvd_mod)
    moreover have "even (2 ^ 28 :: nat)" by simp
    ultimately have "Suc (2 * q mod 2 ^ 28) \<noteq> 2 ^ 28" by (metis even_Suc)
    then show ?thesis unfolding mod_Suc by simp
  qed
  ultimately show ?thesis by (simp only: first_sector_def u)
qed

lemma cached_checksum:
  assumes "holds_buffers bfs s" "i < 8"
  shows "calculate_crc32 (blk_data (buf_block i s)) BLOCK_DATA_SIZE s = Inr (checksum (b_block (bfs ! i)))"
proof -
  have "length (b_block (bfs ! i)) = 1024" using assms by (simp add: holds_buffers_def buffer_shape_def)
  then show ?thesis
    using block_read [OF assms, of 16 1008]
    by (simp add: calculate_crc32_def blk_data_def BLOCK_DATA_SIZE_def load_bytes_def checksum_def)
qed

lemma write_buffer_to_disk_refines:
  assumes "drive_answers dev n d" "cached d c s" "i < 8"
  shows "\<exists>s'. write_buffer_to_disk dev n i s = Inr s' \<and> cached d (write_back i c) s' \<and> only_cache s s'"
proof (cases "b_valid (fst c ! i) = 0 \<or> b_dirty (fst c ! i) = 0")
  case True
  have "holds_buffers (fst c) s" using assms(2) by (simp add: cached_def)
  note rd = buffer_reads [OF this assms(3)]
  have "write_buffer_to_disk dev n i s = Inr s" using True rd by (auto simp: write_buffer_to_disk_def)
  then show ?thesis using True assms(2) by (simp add: write_back_def)
next
  case False
  obtain bfs D where c: "c = (bfs, D)" by (cases c)
  have hb: "holds_buffers bfs s" and idle: "drive_idle d s" and D: "sector_on d s = D"
    using assms(2) by (simp_all add: cached_def c)
  let ?b = "bfs ! i" and ?l = "first_sector (b_num (bfs ! i))" and ?crc = "checksum (b_block (bfs ! i))"
  let ?blk = "stamped (b_block ?b)"
  note rd = buffer_reads [OF hb assms(3)]
  have len: "length (b_block ?b) = 1024" "length bfs = 8"
    using hb assms(3) by (simp_all add: holds_buffers_def buffer_shape_def)
  let ?cs = "bytes_of_word 4 (ucast ?crc)" and ?bfs1 = "bfs[i := ?b\<lparr>b_block := ?blk\<rparr>]"
  define m where "m = mem_upd (vmem s) (buf_block i s + of_nat 12) ?cs"
  have w: "mapped (vmem s) (buf_block i s + of_nat 12) 4" "outside_same (buffers s) (vmem s) m"
    "holds_buffers ?bfs1 (s\<lparr>vmem := m\<rparr>)"
    using block_write [OF hb assms(3), of ?cs 12] by (simp_all add: m_def stamped_def)
  let ?t = "s\<lparr>vmem := m\<rparr>"
  have st: "store32 (blk_crc (buf_block i s)) ?crc s = Inr ?t"
    using w(1) by (simp add: blk_crc_def store32_mapped m_def)
  have num: "buf_block_num i ?t = Inr (b_num ?b)"
    using buffer_reads(1) [OF w(3) assms(3)] len assms(3) by simp
  have lo: "rd_bytes (vmem ?t) (buf_block i s) 512 = Inr (take 512 ?blk)"
    using block_read [OF w(3) assms(3), of 0 512] len assms(3) by simp
  have hi: "rd_bytes (vmem ?t) (buf_block i s + 512) 512 = Inr (drop 512 ?blk)"
    using block_read [OF w(3) assms(3), of 512 512] len assms(3) by (simp add: stamped_def)
  obtain h where h: "ata_write_sector dev n (DISK_BLOCK_OFFSET_SECTORS + b_num ?b * 2) (buf_block i s) ?t = Inr (?t\<lparr>ports := h\<rparr>)"
    "drive_idle d (?t\<lparr>ports := h\<rparr>)" "sector_on d (?t\<lparr>ports := h\<rparr>) = D(?l := take 512 ?blk)"
    using ata_write_sector_ok [OF assms(1) _ lo] idle D by (force simp: first_sector_def)
  obtain h' where h': "ata_write_sector dev n (DISK_BLOCK_OFFSET_SECTORS + b_num ?b * 2 + 1) (buf_block i s + 512) (?t\<lparr>ports := h\<rparr>)
      = Inr (?t\<lparr>ports := h'\<rparr>)"
    "drive_idle d (?t\<lparr>ports := h'\<rparr>)"
    "sector_on d (?t\<lparr>ports := h'\<rparr>) = D(?l := take 512 ?blk, Suc ?l := drop 512 ?blk)"
    using ata_write_sector_ok [OF assms(1) h(2), of "buf_block i s + 512" "drop 512 ?blk"] hi h(3)
    unfolding second_sector [symmetric] by force
  let ?u = "?t\<lparr>ports := h'\<rparr>"
  have hu: "holds_buffers ?bfs1 ?u" using w(3) by simp
  obtain m' where m': "set_dirty i 0 ?u = Inr (?u\<lparr>vmem := m'\<rparr>)" "outside_same (buffers s) (vmem ?u) m'"
    "holds_buffers (?bfs1[i := (?bfs1 ! i)\<lparr>b_dirty := 0\<rparr>]) (?u\<lparr>vmem := m'\<rparr>)"
    using buffer_writes(2) [OF hu assms(3), of 0] by auto
  have "write_buffer_to_disk dev n i s = Inr (?u\<lparr>vmem := m'\<rparr>)"
    using False rd cached_checksum [OF hb assms(3)] st num h(1) h'(1) m'(1)
    by (simp add: write_buffer_to_disk_def c Let_def)
  moreover have "only_cache s (?u\<lparr>vmem := m'\<rparr>)"
    using w(2) m'(2) only_cache_vmem [of s m'] outside_same_trans by (auto simp: only_cache_def)
  moreover have "cached d (write_back i c) (?u\<lparr>vmem := m'\<rparr>)"
    using False m'(3) h'(2,3) len assms(3) by (simp add: cached_def write_back_def c Let_def)
  ultimately show ?thesis by blast
qed

section \<open>Finding a buffer\<close>

definition lookup :: "buffer list \<Rightarrow> u32 \<Rightarrow> nat option" where
  "lookup bfs n = List.find (\<lambda>i. b_valid (bfs ! i) \<noteq> 0 \<and> b_num (bfs ! i) = n) [0..<8]"

fun oldest :: "buffer list \<Rightarrow> nat list \<Rightarrow> nat \<Rightarrow> u64 \<Rightarrow> nat" where
  "oldest bfs [] v t = v"
| "oldest bfs (i # is) v t =
     (if b_valid (bfs ! i) = 0 then i
      else if b_used (bfs ! i) < t then oldest bfs is i (b_used (bfs ! i))
      else oldest bfs is v t)"

definition victim :: "buffer list \<Rightarrow> nat" where
  "victim bfs = oldest bfs [0..<8] 0 0xFFFFFFFFFFFFFFFF"

lemma find_buffer_lookup:
  assumes "holds_buffers bfs s"
  shows "find_buffer [0..<NUM_BUFFERS] n s = Inr (lookup bfs n)"
proof -
  have "find_buffer is n s = Inr (List.find (\<lambda>i. b_valid (bfs ! i) \<noteq> 0 \<and> b_num (bfs ! i) = n) is)"
    if "\<forall>i \<in> set is. i < 8" for "is"
    using that by (induction "is") (auto simp: buffer_reads [OF assms])
  then show ?thesis by (simp add: lookup_def NUM_BUFFERS_def)
qed

lemma find_oldest_victim:
  assumes "holds_buffers bfs s"
  shows "find_oldest [0..<NUM_BUFFERS] 0 0xFFFFFFFFFFFFFFFF s = Inr (victim bfs)"
proof -
  have "find_oldest is v t s = Inr (oldest bfs is v t)" if "\<forall>i \<in> set is. i < 8" for "is" v t
    using that by (induction "is" arbitrary: v t) (auto simp: buffer_reads [OF assms])
  then show ?thesis by (simp add: victim_def NUM_BUFFERS_def)
qed

lemma lookup_Some: "lookup bfs n = Some i \<Longrightarrow> i < 8 \<and> b_valid (bfs ! i) \<noteq> 0 \<and> b_num (bfs ! i) = n"
  by (auto simp: lookup_def find_Some_iff)

lemma lookup_None: "lookup bfs n = None \<Longrightarrow> i < 8 \<Longrightarrow> b_valid (bfs ! i) \<noteq> 0 \<Longrightarrow> b_num (bfs ! i) \<noteq> n"
  by (auto simp: lookup_def find_None_iff)

text \<open>The buffer replaced: the first one not in use, else the first of those used least recently.\<close>

definition replaced_first :: "buffer list \<Rightarrow> nat \<Rightarrow> bool" where
  "replaced_first bfs v \<longleftrightarrow> v < 8 \<and>
     (if \<exists>i < 8. b_valid (bfs ! i) = 0 then b_valid (bfs ! v) = 0 \<and> (\<forall>i < v. b_valid (bfs ! i) \<noteq> 0)
      else (\<forall>i < 8. b_used (bfs ! v) \<le> b_used (bfs ! i)) \<and> (\<forall>i < v. b_used (bfs ! v) < b_used (bfs ! i)))"

lemma u64_max: "x \<le> (0xFFFFFFFFFFFFFFFF :: u64)"
  using unat_u64_less [of x] by (simp add: word_le_nat_alt del: unat_u64_less)

lemma oldest_spec:
  assumes "k \<le> 8" "v < 8" "\<forall>i < k. b_valid (bfs ! i) \<noteq> 0" "\<forall>i < k. t \<le> b_used (bfs ! i)"
    "v < k \<and> t = b_used (bfs ! v) \<and> (\<forall>i < v. t < b_used (bfs ! i)) \<or> v = 0 \<and> t = 0xFFFFFFFFFFFFFFFF"
  shows "replaced_first bfs (oldest bfs [k..<8] v t)"
  using assms
proof (induction "8 - k" arbitrary: k v t)
  case 0
  then have k: "k = 8" by simp
  have "t = b_used (bfs ! v) \<and> (\<forall>i < v. t < b_used (bfs ! i))"
  proof (cases "v = 0 \<and> t = 0xFFFFFFFFFFFFFFFF")
    case True
    have "t \<le> b_used (bfs ! 0)" using 0 k by auto
    with True u64_max [of "b_used (bfs ! 0)"] show ?thesis by auto
  qed (use 0 in auto)
  with 0 k show ?case by (auto simp: replaced_first_def)
next
  case (Suc j)
  then have k: "k < 8" "[k..<8] = k # [Suc k..<8]" by (simp_all add: upt_conv_Cons)
  have j: "j = 8 - Suc k" using Suc.hyps(2) by simp
  consider "b_valid (bfs ! k) = 0" | "b_valid (bfs ! k) \<noteq> 0" "b_used (bfs ! k) < t"
    | "b_valid (bfs ! k) \<noteq> 0" "\<not> b_used (bfs ! k) < t" by blast
  then show ?case
  proof cases
    case 1
    then show ?thesis using k Suc.prems by (auto simp: replaced_first_def)
  next
    case 2
    have "replaced_first bfs (oldest bfs [Suc k..<8] k (b_used (bfs ! k)))"
    proof (rule Suc.hyps(1) [OF j])
      show "\<forall>i < Suc k. b_used (bfs ! k) \<le> b_used (bfs ! i)"
        using 2 Suc.prems(4) by (auto simp: less_Suc_eq)
      show "k < Suc k \<and> b_used (bfs ! k) = b_used (bfs ! k) \<and> (\<forall>i < k. b_used (bfs ! k) < b_used (bfs ! i)) \<or>
          k = 0 \<and> b_used (bfs ! k) = 0xFFFFFFFFFFFFFFFF"
        using 2 Suc.prems(4) by auto
    qed (use 2 k Suc.prems in \<open>auto simp: less_Suc_eq\<close>)
    then show ?thesis using 2 k by simp
  next
    case 3
    have "replaced_first bfs (oldest bfs [Suc k..<8] v t)"
      by (rule Suc.hyps(1) [OF j]) (use 3 k Suc.prems in \<open>auto simp: less_Suc_eq\<close>)
    then show ?thesis using 3 k by simp
  qed
qed

lemma victim_spec: "replaced_first bfs (victim bfs)"
  unfolding victim_def by (rule oldest_spec) simp_all

lemma victim_less [simp]: "victim bfs < 8"
  using victim_spec by (simp add: replaced_first_def)

section \<open>Fetching a block\<close>

definition fetch :: "u64 \<Rightarrow> u32 \<Rightarrow> cache \<Rightarrow> nat \<times> cache" where
  "fetch now n c =
     (case lookup (fst c) n of
        Some i \<Rightarrow> (i, ((fst c)[i := (fst c ! i)\<lparr>b_used := now\<rparr>], snd c))
      | None \<Rightarrow>
          let v = victim (fst c); c = write_back v c
          in (v, ((fst c)[v := (fst c ! v)\<lparr>b_block := disk_block (snd c) n, b_num := n, b_valid := 1,
                                        b_dirty := 0, b_used := now\<rparr>], snd c)))"

lemma length_disk_block: "cached d c s \<Longrightarrow> length (disk_block (snd c) n) = 1024"
  by (auto simp: cached_def drive_idle_def sector_on_def disk_block_def)

lemma load_block:
  assumes "drive_answers dev n d" "cached d c s" "i < 8"
  shows "\<exists>s1 s2. ata_read_sector dev n (DISK_BLOCK_OFFSET_SECTORS + bn * 2) (buf_block i s) s = Inr s1 \<and>
    ata_read_sector dev n (DISK_BLOCK_OFFSET_SECTORS + bn * 2 + 1) (buf_block i s1 + 512) s1 = Inr s2 \<and>
    cached d ((fst c)[i := (fst c ! i)\<lparr>b_block := disk_block (snd c) bn\<rparr>], snd c) s2 \<and> only_cache s s2 \<and>
    buf_block i s1 = buf_block i s \<and> buf_block i s2 = buf_block i s"
proof -
  obtain bfs D where c: "c = (bfs, D)" by (cases c)
  have hb: "holds_buffers bfs s" and idle: "drive_idle d s" and D: "sector_on d s = D"
    using assms(2) by (simp_all add: cached_def c)
  let ?b = "bfs ! i"
  let ?lo = "D (first_sector bn)" and ?hi = "D (Suc (first_sector bn))"
  have len: "length ?lo = 512" "length ?hi = 512" "length (b_block ?b) = 1024" "length bfs = 8"
    using hb idle D assms(3) by (auto simp: holds_buffers_def buffer_shape_def drive_idle_def sector_on_def)
  then have ne: "?lo \<noteq> []" "?hi \<noteq> []" by auto
  let ?m = "mem_upd (vmem s) (buf_block i s + of_nat 0) ?lo"
  note w = block_write [OF hb assms(3) ne(1), of 0]
  have mp: "mapped (vmem s) (buf_block i s) 512" using w(1) len by simp
  obtain h where h: "ata_read_sector dev n (DISK_BLOCK_OFFSET_SECTORS + bn * 2) (buf_block i s) s = Inr (s\<lparr>vmem := ?m, ports := h\<rparr>)"
    "drive_idle d (s\<lparr>ports := h\<rparr>)" "sector_on d (s\<lparr>ports := h\<rparr>) = D"
    using ata_read_sector_ok [OF assms(1) idle mp] D by (force simp: first_sector_def)
  let ?t = "s\<lparr>vmem := ?m, ports := h\<rparr>" and ?bfs = "bfs[i := ?b\<lparr>b_block := overwrite 0 ?lo (b_block ?b)\<rparr>]"
  have ht: "holds_buffers ?bfs ?t" using w(3) len by simp
  let ?m' = "mem_upd (vmem ?t) (buf_block i ?t + of_nat 512) ?hi"
  note w' = block_write [OF ht assms(3) ne(2), of 512]
  have mp': "mapped (vmem ?t) (buf_block i ?t + 512) 512" using w'(1) len by simp
  obtain h' where h': "ata_read_sector dev n (DISK_BLOCK_OFFSET_SECTORS + bn * 2 + 1) (buf_block i ?t + 512) ?t =
      Inr (?t\<lparr>vmem := ?m', ports := h'\<rparr>)"
    "drive_idle d (?t\<lparr>ports := h'\<rparr>)" "sector_on d (?t\<lparr>ports := h'\<rparr>) = D"
    using ata_read_sector_ok [OF assms(1) _ mp', where lba = "DISK_BLOCK_OFFSET_SECTORS + bn * 2 + 1"] h(2,3)
    unfolding second_sector by force
  let ?u = "?t\<lparr>vmem := ?m', ports := h'\<rparr>"
  have "overwrite 512 ?hi (overwrite 0 ?lo (b_block ?b)) = disk_block D bn"
    using len by (simp add: overwrite_def disk_block_def)
  then have "cached d (bfs[i := ?b\<lparr>b_block := disk_block D bn\<rparr>], D) ?u"
    using w'(3) len assms(3) h'(2,3) by (simp add: cached_def)
  moreover have "only_cache s ?t" using w(2) len by (intro only_cache_upd) simp
  moreover have "only_cache ?t ?u" using w'(2) len by (intro only_cache_upd) simp
  ultimately have "cached d (bfs[i := ?b\<lparr>b_block := disk_block D bn\<rparr>], D) ?u" "only_cache s ?u"
    using only_cache_trans by blast+
  moreover have "buf_block i ?t = buf_block i s" "buf_block i ?u = buf_block i s" by simp_all
  ultimately show ?thesis unfolding c fst_conv snd_conv using h(1) h'(1) by blast
qed

lemma log_line:
  assumes "uart_answers dev SERIAL_COM1" "0 < n" "cached d c s"
  shows "\<exists>s'. serial_puts dev n SERIAL_COM1 cs s = Inr s' \<and> cached d c s' \<and> only_cache s s'"
proof -
  obtain h where "serial_puts dev n SERIAL_COM1 cs s = Inr (s\<lparr>ports := h\<rparr>)" "drive_after h d = drive_after (ports s) d"
    using serial_puts_drive [OF assms(1,2)] by blast
  then show ?thesis
    using assms(3) by (intro exI [of _ "s\<lparr>ports := h\<rparr>"]) (auto simp: cached_def drive_idle_def sector_on_def)
qed

lemma fetch_chain:
  fixes s :: "'a block_cache_scheme"
  assumes "cached d c s" "i < 8"
  shows "\<exists>s'. rbind (set_block_num i bn s) (\<lambda>s. rbind (set_valid i 1 s) (\<lambda>s. rbind (set_dirty i 0 s) (\<lambda>s.
      rbind (set_last_used i (kernel_ticks s) s) Inr))) = Inr s' \<and>
    cached d ((fst c)[i := (fst c ! i)\<lparr>b_num := bn, b_valid := 1, b_dirty := 0, b_used := kernel_ticks s\<rparr>], snd c) s' \<and>
    only_cache s s' \<and> buf_block i s' = buf_block i s"
proof -
  obtain bfs D where c: "c = (bfs, D)" by (cases c)
  have hb: "holds_buffers bfs s" using assms(1) by (simp add: cached_def c)
  then have len: "length bfs = 8" by (simp add: holds_buffers_def)
  obtain m1 where m1: "set_block_num i bn s = Inr (s\<lparr>vmem := m1\<rparr>)" "outside_same (buffers s) (vmem s) m1"
    "holds_buffers (bfs[i := (bfs ! i)\<lparr>b_num := bn\<rparr>]) (s\<lparr>vmem := m1\<rparr>)"
    using buffer_writes(1) [OF hb assms(2)] by blast
  obtain m2 where m2: "set_valid i 1 (s\<lparr>vmem := m1\<rparr>) = Inr (s\<lparr>vmem := m2\<rparr>)" "outside_same (buffers s) m1 m2"
    "holds_buffers (bfs[i := (bfs ! i)\<lparr>b_num := bn, b_valid := 1\<rparr>]) (s\<lparr>vmem := m2\<rparr>)"
    using buffer_writes(3) [OF m1(3) assms(2), of 1] len assms(2) by auto
  obtain m3 where m3: "set_dirty i 0 (s\<lparr>vmem := m2\<rparr>) = Inr (s\<lparr>vmem := m3\<rparr>)" "outside_same (buffers s) m2 m3"
    "holds_buffers (bfs[i := (bfs ! i)\<lparr>b_num := bn, b_valid := 1, b_dirty := 0\<rparr>]) (s\<lparr>vmem := m3\<rparr>)"
    using buffer_writes(2) [OF m2(3) assms(2), of 0] len assms(2) by auto
  obtain m4 where m4: "set_last_used i (kernel_ticks s) (s\<lparr>vmem := m3\<rparr>) = Inr (s\<lparr>vmem := m4\<rparr>)" "outside_same (buffers s) m3 m4"
    "holds_buffers (bfs[i := (bfs ! i)\<lparr>b_num := bn, b_valid := 1, b_dirty := 0, b_used := kernel_ticks s\<rparr>]) (s\<lparr>vmem := m4\<rparr>)"
    using buffer_writes(4) [OF m3(3) assms(2), of "kernel_ticks s"] len assms(2) by auto
  have "outside_same (buffers s) (vmem s) m4"
    using m1(2) m2(2) m3(2) m4(2) outside_same_trans by blast
  then show ?thesis
    using m1(1) m2(1) m3(1) m4(1,3) assms(1)
    by (intro exI [of _ "s\<lparr>vmem := m4\<rparr>"]) (simp add: cached_def c only_cache_vmem)
qed

lemma block_get_refines:
  fixes s :: "'a block_cache_scheme"
  assumes "drive_answers dev n d" "uart_answers dev SERIAL_COM1" "cached d c s"
  shows "\<exists>s' v c'. block_get dev n bn s = Inr (buf_block v s', s') \<and> fetch (kernel_ticks s) bn c = (v, c') \<and>
    cached d c' s' \<and> only_cache s s' \<and> v < 8 \<and> most_recent_buffer s' = of_nat v"
proof (cases "lookup (fst c) bn")
  case (Some i)
  have hb: "holds_buffers (fst c) s" using assms(3) by (simp add: cached_def)
  have i: "i < 8" using lookup_Some [OF Some] by simp
  obtain m where m: "set_last_used i (kernel_ticks s) s = Inr (s\<lparr>vmem := m\<rparr>)" "outside_same (buffers s) (vmem s) m"
    "holds_buffers ((fst c)[i := (fst c ! i)\<lparr>b_used := kernel_ticks s\<rparr>]) (s\<lparr>vmem := m\<rparr>)"
    using buffer_writes(4) [OF hb i] by blast
  let ?s = "s\<lparr>vmem := m, most_recent_buffer := of_nat i\<rparr>"
  have "block_get dev n bn s = Inr (buf_block i ?s, ?s)"
    using find_buffer_lookup [OF hb] Some m(1) by (simp add: block_get_def Let_def)
  moreover have "cached d ((fst c)[i := (fst c ! i)\<lparr>b_used := kernel_ticks s\<rparr>], snd c) ?s"
    using m(3) assms(3) by (simp add: cached_def)
  moreover have "only_cache s ?s" using only_cache_vmem [OF m(2)] by simp
  ultimately show ?thesis using i Some by (intro exI [of _ ?s] exI [of _ i]) (simp add: fetch_def)
next
  case None
  have hb: "holds_buffers (fst c) s" using assms(3) by (simp add: cached_def)
  let ?v = "victim (fst c)"
  let ?c1 = "write_back ?v c"
  let ?c2 = "((fst ?c1)[?v := (fst ?c1 ! ?v)\<lparr>b_block := disk_block (snd ?c1) bn\<rparr>], snd ?c1)"
  obtain s1 where s1: "write_buffer_to_disk dev n ?v s = Inr s1" "cached d ?c1 s1" "only_cache s s1"
    using write_buffer_to_disk_refines [OF assms(1,3) victim_less] by blast
  obtain s2 s3 where s3: "ata_read_sector dev n (DISK_BLOCK_OFFSET_SECTORS + bn * 2) (buf_block ?v s1) s1 = Inr s2"
    "ata_read_sector dev n (DISK_BLOCK_OFFSET_SECTORS + bn * 2 + 1) (buf_block ?v s2 + 512) s2 = Inr s3"
    "cached d ?c2 s3" "only_cache s1 s3"
    using load_block [OF assms(1) s1(2) victim_less] by blast
  have hb3: "holds_buffers (fst ?c2) s3" using s3(3) by (simp add: cached_def)
  obtain crc where crc: "load32 (blk_crc (buf_block ?v s3)) s3 = Inr crc"
    using block_read [OF hb3 victim_less, of 12 4] by (auto simp: load32_def rd32_def blk_crc_def)
  note sum = cached_checksum [OF hb3 victim_less [of "fst c"]]
  obtain s4 where s4: "(if crc \<noteq> 0 \<and> crc \<noteq> checksum (b_block (fst ?c2 ! ?v))
      then serial_puts dev n SERIAL_COM1 (str ''FS WARNING: CRC mismatch on block load!\<newline>'') s3 else Inr s3) = Inr s4"
    "cached d ?c2 s4" "only_cache s3 s4"
    using log_line [OF assms(2) _ s3(3)] drive_answers_bound [OF assms(1)] s3(3) by (metis only_cache_refl)
  obtain s5 where s5: "rbind (set_block_num ?v bn s4) (\<lambda>s. rbind (set_valid ?v 1 s) (\<lambda>s. rbind (set_dirty ?v 0 s) (\<lambda>s.
      rbind (set_last_used ?v (kernel_ticks s) s) Inr))) = Inr s5"
    "cached d ((fst ?c2)[?v := (fst ?c2 ! ?v)\<lparr>b_num := bn, b_valid := 1, b_dirty := 0, b_used := kernel_ticks s4\<rparr>], snd ?c2) s5"
    "only_cache s4 s5" "buf_block ?v s5 = buf_block ?v s4"
    using fetch_chain [OF s4(2) victim_less] by blast
  let ?s = "s5\<lparr>most_recent_buffer := of_nat ?v\<rparr>"
  have k: "only_cache s s4" using s1(3) s3(4) s4(3) only_cache_trans by metis
  then have t: "kernel_ticks s4 = kernel_ticks s" by (simp add: only_cache_buffers)
  have b: "buf_block ?v ?s = buf_block ?v s5" by simp
  obtain t1 t2 t3 where ch: "set_block_num ?v bn s4 = Inr t1" "set_valid ?v 1 t1 = Inr t2" "set_dirty ?v 0 t2 = Inr t3"
    "set_last_used ?v (kernel_ticks t3) t3 = Inr s5"
    using s5(1) by (auto simp: rbind_eq_Inr)
  have "block_get dev n bn s = Inr (buf_block ?v ?s, ?s)"
    using find_buffer_lookup [OF hb] None find_oldest_victim [OF hb] s1(1) s3(1,2) sum crc s4(1) ch
    by (simp add: block_get_def Let_def)
  moreover have "cached d (snd (fetch (kernel_ticks s) bn c)) ?s"
  proof -
    have "cached d ((fst ?c2)[?v := (fst ?c2 ! ?v)\<lparr>b_num := bn, b_valid := 1, b_dirty := 0, b_used := kernel_ticks s\<rparr>], snd ?c2) ?s"
      using s5(2) t by (simp add: cached_def)
    moreover have "length (fst ?c1) = 8" using s1(2) by (simp add: cached_def holds_buffers_def)
    ultimately show ?thesis using None by (simp add: fetch_def Let_def)
  qed
  moreover have "only_cache s ?s" using k s5(3) only_cache_trans by auto
  ultimately show ?thesis using None by (intro exI [of _ ?s] exI [of _ ?v]) (simp add: fetch_def Let_def)
qed

lemma block_update_refines:
  assumes "cached d c s" "most_recent_buffer s = of_nat v" "v < 8" "b_valid (fst c ! v) \<noteq> 0"
  shows "\<exists>s'. block_update s = Inr s' \<and> cached d ((fst c)[v := (fst c ! v)\<lparr>b_dirty := 1\<rparr>], snd c) s' \<and> only_cache s s'"
proof -
  have hb: "holds_buffers (fst c) s" using assms(1) by (simp add: cached_def)
  have v: "unat (most_recent_buffer s) = v" using assms(2,3) by (simp add: unat_of_nat take_bit_nat_eq_self)
  obtain m where "set_dirty v 1 s = Inr (s\<lparr>vmem := m\<rparr>)" "outside_same (buffers s) (vmem s) m"
    "holds_buffers ((fst c)[v := (fst c ! v)\<lparr>b_dirty := 1\<rparr>]) (s\<lparr>vmem := m\<rparr>)"
    using buffer_writes(2) [OF hb assms(3)] by blast
  then show ?thesis
    using assms(1,4) buffer_reads(3) [OF hb assms(3)] v
    by (intro exI [of _ "s\<lparr>vmem := m\<rparr>"]) (simp add: block_update_def cached_def only_cache_vmem)
qed

lemma block_flush_refines:
  assumes "drive_answers dev n d" "cached d c s"
  shows "\<exists>s'. block_flush dev n s = Inr s' \<and> cached d (fold write_back [0..<8] c) s' \<and> only_cache s s'"
proof -
  have "\<exists>s'. flush_buffers dev n is s = Inr s' \<and> cached d (fold write_back is c) s' \<and> only_cache s s'"
    if "\<forall>i \<in> set is. i < 8" for "is"
    using that assms(2)
  proof (induction "is" arbitrary: c s)
    case (Cons i "is")
    then obtain t where "write_buffer_to_disk dev n i s = Inr t" "cached d (write_back i c) t" "only_cache s t"
      using write_buffer_to_disk_refines [OF assms(1), of c s i] by auto
    moreover from Cons.IH [OF _ this(2)] Cons.prems(1) obtain s' where
      "flush_buffers dev n is t = Inr s'" "cached d (fold write_back is (write_back i c)) s'" "only_cache t s'" by auto
    ultimately show ?case using only_cache_trans by fastforce
  qed simp
  then show ?thesis by (simp add: block_flush_def NUM_BUFFERS_def)
qed

end
