(* ===== verification/Filesystem.thy ===== *)
theory Filesystem
  imports Block
begin

text \<open>
  \<open>fs/filesystem.c\<close>: the superblock in block 1 and the allocation bitmap in block 2.
\<close>

definition FS_MAGIC :: u32 where "FS_MAGIC = 0x48545246"

definition fs_format :: "device \<Rightarrow> nat \<Rightarrow> 'a block_cache_scheme \<Rightarrow> 'a block_cache_scheme res" where
  "fs_format dev n s =
     rbind (serial_puts dev n SERIAL_COM1 (str ''FS: Formatting empty disk...\<newline>'') s) (\<lambda>s.
     rbind (block_get dev n 1 s) (\<lambda>(sb, s).
     rbind (memset (blk_data sb) 0 BLOCK_DATA_SIZE s) (\<lambda>s.
     rbind (store32 (blk_type sb) FS_MAGIC s) (\<lambda>s.
     rbind (store32 (blk_data sb) 10000 s) (\<lambda>s.
     rbind (block_update s) (\<lambda>s.
     rbind (block_get dev n 2 s) (\<lambda>(bitmap, s).
     rbind (memset (blk_data bitmap) 0 BLOCK_DATA_SIZE s) (\<lambda>s.
     rbind (store8 (blk_data bitmap) 0x1F s) (\<lambda>s.
     rbind (block_update s) (\<lambda>s.
     rbind (block_flush dev n s) (\<lambda>s.
     serial_puts dev n SERIAL_COM1 (str ''FS: Format complete.\<newline>'') s)))))))))))"

definition fs_init :: "device \<Rightarrow> nat \<Rightarrow> 'a block_cache_scheme \<Rightarrow> 'a block_cache_scheme res" where
  "fs_init dev n s =
     rbind (block_get dev n 1 s) (\<lambda>(sb, s).
     rbind (load32 (blk_type sb) s) (\<lambda>ty.
     if ty \<noteq> FS_MAGIC then fs_format dev n s
     else serial_puts dev n SERIAL_COM1 (str ''FS: Valid Superblock found.\<newline>'') s))"

text \<open>The search loops of \<open>fs_alloc_block\<close> over the bytes and bits of the bitmap.\<close>

fun free_bit :: "nat list \<Rightarrow> u8 \<Rightarrow> nat option" where
  "free_bit [] b = None"
| "free_bit (k # ks) b = (if b AND push_bit k 1 = 0 then Some k else free_bit ks b)"

fun alloc_from :: "nat list \<Rightarrow> u64 \<Rightarrow> 'a block_cache_scheme \<Rightarrow> (u32 \<times> 'a block_cache_scheme) res" where
  "alloc_from [] data s = Inl (Panic (str ''FS: Disk Full!''))"
| "alloc_from (i # is) data s =
     rbind (load8 (data + of_nat i) s) (\<lambda>b.
     case (if b \<noteq> 0xFF then free_bit [0..<8] b else None) of
       None \<Rightarrow> alloc_from is data s
     | Some k \<Rightarrow>
         rbind (store8 (data + of_nat i) (b OR push_bit k 1) s) (\<lambda>s.
         rbind (block_update s) (\<lambda>s. Inr (of_nat (i * 8 + k), s))))"

definition fs_alloc_block :: "device \<Rightarrow> nat \<Rightarrow> 'a block_cache_scheme \<Rightarrow> (u32 \<times> 'a block_cache_scheme) res" where
  "fs_alloc_block dev n s =
     rbind (block_get dev n 2 s) (\<lambda>(bitmap, s). alloc_from [0..<BLOCK_DATA_SIZE] (blk_data bitmap) s)"

end
