(* ===== verification/Stack.thy ===== *)
theory Stack
  imports Filesystem
begin

text \<open>
  \<open>vm/stack/stack.c\<close>: the data stack, the return stack and the instruction pointer of
  the Forth machine.  Both stacks are arrays of 256 cells with an index; the abstraction
  \<open>dstack\<close>/\<open>rstack\<close> reads them as lists with the top first.  The laws of such a bounded
  stack are the locale \<open>bounded_stack\<close>, which both stacks interpret.
\<close>

definition DATA_STACK_SIZE :: int where "DATA_STACK_SIZE = 256"
definition RETURN_STACK_SIZE :: int where "RETURN_STACK_SIZE = 256"

record stacks = block_cache +
  ds :: "i64 list"
  dsp :: int
  rs :: "u64 list"
  rsp_idx :: int
  ip :: u64

text \<open>The static initialisers of the kernel, with some address for the block buffers.\<close>

definition stacks_boot :: "memory \<Rightarrow> stacks" where
  "stacks_boot m = kbd.extend (kbd_boot\<lparr>vmem := m\<rparr>)
     \<lparr>pmm_total_pages = 0, pmm_used_pages = 0, pmm_total_memory = 0,
      heap_head = 0, heap_end = 0, heap_total = 0, heap_used = 0, cr3 = 0,
      current_task = 0, task_list = 0, next_pid = 1,
      buffers = KERNEL_VIRT_BASE + 0x180000, most_recent_buffer = 0,
      ds = replicate 256 0, dsp = 0, rs = replicate 256 0, rsp_idx = 0, ip = 0\<rparr>"

section \<open>The operations\<close>

definition ds_push :: "i64 \<Rightarrow> 'a stacks_scheme \<Rightarrow> 'a stacks_scheme" where
  "ds_push v s =
     (if dsp s \<ge> DATA_STACK_SIZE then vga_puts (str '' Data Stack Overflow!\<newline>'') s
      else s\<lparr>ds := (ds s)[nat (dsp s) := v], dsp := dsp s + 1\<rparr>)"

definition ds_pop :: "'a stacks_scheme \<Rightarrow> i64 \<times> 'a stacks_scheme" where
  "ds_pop s =
     (if dsp s \<le> 0 then (0, vga_puts (str '' Stack Underflow!\<newline>'') s)
      else (ds s ! nat (dsp s - 1), s\<lparr>dsp := dsp s - 1\<rparr>))"

definition ds_peek :: "'a stacks_scheme \<Rightarrow> i64" where
  "ds_peek s = (if dsp s \<le> 0 then 0 else ds s ! nat (dsp s - 1))"

definition ds_pick :: "int \<Rightarrow> 'a stacks_scheme \<Rightarrow> i64 \<times> 'a stacks_scheme" where
  "ds_pick n s =
     (if n < 0 \<or> n \<ge> dsp s then (0, vga_puts (str '' Invalid PICK!\<newline>'') s)
      else (ds s ! nat (dsp s - 1 - n), s))"

definition ds_depth :: "'a stacks_scheme \<Rightarrow> i64" where
  "ds_depth s = word_of_int (dsp s)"

definition ds_clear :: "'a stacks_scheme \<Rightarrow> 'a stacks_scheme" where
  "ds_clear s = s\<lparr>dsp := 0\<rparr>"

fun ds_print_cells :: "i64 list \<Rightarrow> 'a stacks_scheme \<Rightarrow> 'a stacks_scheme" where
  "ds_print_cells [] s = s"
| "ds_print_cells (v # vs) s =
     (let s = vga_puts (ltoa v 10) s
      in ds_print_cells vs (vga_putchar 32 s))"

definition ds_print :: "'a stacks_scheme \<Rightarrow> 'a stacks_scheme" where
  "ds_print s =
     (let s = vga_puts (str ''<'') s;
          s = vga_puts (itoa (word_of_int (dsp s)) 10) s;
          s = vga_puts (str ''> '') s
      in ds_print_cells (take (nat (dsp s)) (ds s)) s)"

definition rs_push :: "u64 \<Rightarrow> 'a stacks_scheme \<Rightarrow> 'a stacks_scheme" where
  "rs_push v s =
     (if rsp_idx s \<ge> RETURN_STACK_SIZE then vga_puts (str '' Return Stack Overflow!\<newline>'') s
      else s\<lparr>rs := (rs s)[nat (rsp_idx s) := v], rsp_idx := rsp_idx s + 1\<rparr>)"

definition rs_pop :: "'a stacks_scheme \<Rightarrow> u64 \<times> 'a stacks_scheme" where
  "rs_pop s =
     (if rsp_idx s \<le> 0 then (0, vga_puts (str '' Return Stack Underflow!\<newline>'') s)
      else (rs s ! nat (rsp_idx s - 1), s\<lparr>rsp_idx := rsp_idx s - 1\<rparr>))"

definition rs_peek :: "'a stacks_scheme \<Rightarrow> u64" where
  "rs_peek s = (if rsp_idx s \<le> 0 then 0 else rs s ! nat (rsp_idx s - 1))"

definition rs_depth :: "'a stacks_scheme \<Rightarrow> u64" where
  "rs_depth s = word_of_int (rsp_idx s)"

definition rs_clear :: "'a stacks_scheme \<Rightarrow> 'a stacks_scheme" where
  "rs_clear s = s\<lparr>rsp_idx := 0\<rparr>"

definition ip_set :: "u64 \<Rightarrow> 'a stacks_scheme \<Rightarrow> 'a stacks_scheme" where
  "ip_set addr s = s\<lparr>ip := addr\<rparr>"

definition ip_get :: "'a stacks_scheme \<Rightarrow> u64" where
  "ip_get s = ip s"

definition ip_fetch_advance :: "'a stacks_scheme \<Rightarrow> (u64 \<times> 'a stacks_scheme) res" where
  "ip_fetch_advance s =
     rbind (rd64 (vmem s) (ip s)) (\<lambda>val. Inr (val, s\<lparr>ip := ip s + 8\<rparr>))"

section \<open>Well-formedness and the stacks as lists\<close>

definition stacks_ok :: "'a stacks_scheme \<Rightarrow> bool" where
  "stacks_ok s \<longleftrightarrow>
     length (ds s) = 256 \<and> 0 \<le> dsp s \<and> dsp s \<le> 256 \<and>
     length (rs s) = 256 \<and> 0 \<le> rsp_idx s \<and> rsp_idx s \<le> 256"

definition dstack :: "'a stacks_scheme \<Rightarrow> i64 list" where
  "dstack s = rev (take (nat (dsp s)) (ds s))"

definition rstack :: "'a stacks_scheme \<Rightarrow> u64 list" where
  "rstack s = rev (take (nat (rsp_idx s)) (rs s))"

named_theorems stack_simps

lemma vga_only_stack:
  assumes "vga_only s s'"
  shows "ds s' = ds s" "dsp s' = dsp s" "rs s' = rs s" "rsp_idx s' = rsp_idx s" "ip s' = ip s"
    "stacks.more s' = stacks.more s"
  using assms by (cases s; cases s'; simp add: vga_only_def vga.defs)+

lemma vga_stack [simp]:
  "ds (vga_puts cs s) = ds s" "dsp (vga_puts cs s) = dsp s" "rs (vga_puts cs s) = rs s"
  "rsp_idx (vga_puts cs s) = rsp_idx s" "ip (vga_puts cs s) = ip s"
  "stacks.more (vga_puts cs s) = stacks.more s"
  "ds (vga_putchar c s) = ds s" "dsp (vga_putchar c s) = dsp s" "rs (vga_putchar c s) = rs s"
  "rsp_idx (vga_putchar c s) = rsp_idx s" "ip (vga_putchar c s) = ip s"
  "stacks.more (vga_putchar c s) = stacks.more s"
  by (rule vga_only_stack, blast)+

lemma length_dstack: "stacks_ok s \<Longrightarrow> length (dstack s) = nat (dsp s)"
  by (simp add: stacks_ok_def dstack_def nat_le_iff)

lemma length_rstack: "stacks_ok s \<Longrightarrow> length (rstack s) = nat (rsp_idx s)"
  by (simp add: stacks_ok_def rstack_def nat_le_iff)

lemma dstack_eq_iff_len: "stacks_ok s \<Longrightarrow> dsp s = int (length (dstack s))"
  by (simp add: length_dstack) (simp add: stacks_ok_def)

lemma rstack_eq_iff_len: "stacks_ok s \<Longrightarrow> rsp_idx s = int (length (rstack s))"
  by (simp add: length_rstack) (simp add: stacks_ok_def)

lemma stacks_ok_push [simp]: "stacks_ok s \<Longrightarrow> stacks_ok (ds_push v s)"
  by (auto simp: stacks_ok_def ds_push_def DATA_STACK_SIZE_def)

lemma stacks_ok_pop [simp]: "stacks_ok s \<Longrightarrow> stacks_ok (snd (ds_pop s))"
  by (auto simp: stacks_ok_def ds_pop_def)

lemma stacks_ok_rs_push [simp]: "stacks_ok s \<Longrightarrow> stacks_ok (rs_push v s)"
  by (auto simp: stacks_ok_def rs_push_def RETURN_STACK_SIZE_def)

lemma stacks_ok_rs_pop [simp]: "stacks_ok s \<Longrightarrow> stacks_ok (snd (rs_pop s))"
  by (auto simp: stacks_ok_def rs_pop_def)

lemma take_Suc_update: "i < length xs \<Longrightarrow> take (Suc i) (xs[i := v]) = take i xs @ [v]"
  by (simp add: take_Suc_conv_app_nth)

lemma dstack_push:
  assumes "stacks_ok s" "length (dstack s) < 256"
  shows "dstack (ds_push v s) = v # dstack s"
proof -
  have "dsp s < 256" "nat (dsp s) < length (ds s)" "0 \<le> dsp s"
    using assms by (auto simp: length_dstack stacks_ok_def)
  then show ?thesis
    by (simp add: dstack_def ds_push_def DATA_STACK_SIZE_def nat_add_distrib take_Suc_update)
qed

lemma rstack_push:
  assumes "stacks_ok s" "length (rstack s) < 256"
  shows "rstack (rs_push v s) = v # rstack s"
proof -
  have "rsp_idx s < 256" "nat (rsp_idx s) < length (rs s)" "0 \<le> rsp_idx s"
    using assms by (auto simp: length_rstack stacks_ok_def)
  then show ?thesis
    by (simp add: rstack_def rs_push_def RETURN_STACK_SIZE_def nat_add_distrib take_Suc_update)
qed

lemma rev_take_step:
  assumes "0 < n" "n \<le> int (length xs)"
  shows "rev (take (nat n) xs) = xs ! nat (n - 1) # rev (take (nat (n - 1)) xs)"
proof -
  have "nat n = Suc (nat (n - 1))" "nat (n - 1) < length xs" using assms by auto
  then show ?thesis by (simp only: take_Suc_conv_app_nth) simp
qed

lemma dstack_Cons:
  assumes "stacks_ok s" "dstack s = v # vs"
  shows "0 < dsp s" "ds s ! nat (dsp s - 1) = v" "rev (take (nat (dsp s - 1)) (ds s)) = vs"
proof -
  have pos: "0 < dsp s" using dstack_eq_iff_len [OF assms(1)] assms(2) by simp
  have "dsp s \<le> int (length (ds s))" using assms(1) by (simp add: stacks_ok_def)
  from rev_take_step [OF pos this] assms(2)
  show "0 < dsp s" "ds s ! nat (dsp s - 1) = v" "rev (take (nat (dsp s - 1)) (ds s)) = vs"
    using pos by (auto simp: dstack_def)
qed

lemma rstack_Cons:
  assumes "stacks_ok s" "rstack s = v # vs"
  shows "0 < rsp_idx s" "rs s ! nat (rsp_idx s - 1) = v" "rev (take (nat (rsp_idx s - 1)) (rs s)) = vs"
proof -
  have pos: "0 < rsp_idx s" using rstack_eq_iff_len [OF assms(1)] assms(2) by simp
  have "rsp_idx s \<le> int (length (rs s))" using assms(1) by (simp add: stacks_ok_def)
  from rev_take_step [OF pos this] assms(2)
  show "0 < rsp_idx s" "rs s ! nat (rsp_idx s - 1) = v" "rev (take (nat (rsp_idx s - 1)) (rs s)) = vs"
    using pos by (auto simp: rstack_def)
qed

section \<open>One step of each operation\<close>

text \<open>
  A pop that does not underflow, as one update: \<open>ds_drop\<close>/\<open>rs_drop\<close>.  The simplifier
  runs a sequence of pushes and pops on the abstract stack with these equations.
\<close>

definition ds_drop :: "'a stacks_scheme \<Rightarrow> 'a stacks_scheme" where
  "ds_drop s = s\<lparr>dsp := dsp s - 1\<rparr>"

definition rs_drop :: "'a stacks_scheme \<Rightarrow> 'a stacks_scheme" where
  "rs_drop s = s\<lparr>rsp_idx := rsp_idx s - 1\<rparr>"

lemma dstack_top:
  assumes "stacks_ok s" "dstack s \<noteq> []"
  shows "0 < dsp s" "ds s ! nat (dsp s - 1) = hd (dstack s)"
    "rev (take (nat (dsp s - 1)) (ds s)) = tl (dstack s)"
  using dstack_Cons [OF assms(1), of "hd (dstack s)" "tl (dstack s)"] assms(2) by simp_all

lemma rstack_top:
  assumes "stacks_ok s" "rstack s \<noteq> []"
  shows "0 < rsp_idx s" "rs s ! nat (rsp_idx s - 1) = hd (rstack s)"
    "rev (take (nat (rsp_idx s - 1)) (rs s)) = tl (rstack s)"
  using rstack_Cons [OF assms(1), of "hd (rstack s)" "tl (rstack s)"] assms(2) by simp_all

lemma ds_pop_Cons [stack_simps]:
  "stacks_ok s \<Longrightarrow> dstack s \<noteq> [] \<Longrightarrow> ds_pop s = (hd (dstack s), ds_drop s)"
  using dstack_top [of s] by (simp add: ds_pop_def ds_drop_def)

lemma rs_pop_Cons [stack_simps]:
  "stacks_ok s \<Longrightarrow> rstack s \<noteq> [] \<Longrightarrow> rs_pop s = (hd (rstack s), rs_drop s)"
  using rstack_top [of s] by (simp add: rs_pop_def rs_drop_def)

lemma ds_pop_Nil:
  "stacks_ok s \<Longrightarrow> dstack s = [] \<Longrightarrow> ds_pop s = (0, vga_puts (str '' Stack Underflow!\<newline>'') s)"
  using dstack_eq_iff_len [of s] by (simp add: ds_pop_def)

lemma rs_pop_Nil:
  "stacks_ok s \<Longrightarrow> rstack s = [] \<Longrightarrow>
     rs_pop s = (0, vga_puts (str '' Return Stack Underflow!\<newline>'') s)"
  using rstack_eq_iff_len [of s] by (simp add: rs_pop_def)

lemma ds_push_full:
  "stacks_ok s \<Longrightarrow> length (dstack s) = 256 \<Longrightarrow>
     ds_push v s = vga_puts (str '' Data Stack Overflow!\<newline>'') s"
  using dstack_eq_iff_len [of s] by (simp add: ds_push_def DATA_STACK_SIZE_def)

lemma rs_push_full:
  "stacks_ok s \<Longrightarrow> length (rstack s) = 256 \<Longrightarrow>
     rs_push v s = vga_puts (str '' Return Stack Overflow!\<newline>'') s"
  using rstack_eq_iff_len [of s] by (simp add: rs_push_def RETURN_STACK_SIZE_def)

lemma stacks_ok_vga [simp]:
  "stacks_ok (vga_puts cs s) = stacks_ok s" "stacks_ok (vga_putchar c s) = stacks_ok s"
  by (simp_all add: stacks_ok_def)

lemma dstack_vga [simp]:
  "dstack (vga_puts cs s) = dstack s" "dstack (vga_putchar c s) = dstack s"
  "rstack (vga_puts cs s) = rstack s" "rstack (vga_putchar c s) = rstack s"
  by (simp_all add: dstack_def rstack_def)

lemma dstack_drop [stack_simps]:
  "stacks_ok s \<Longrightarrow> dstack s \<noteq> [] \<Longrightarrow> dstack (ds_drop s) = tl (dstack s)"
  using dstack_top(3) [of s] by (simp add: ds_drop_def dstack_def)

lemma rstack_rs_drop [stack_simps]:
  "stacks_ok s \<Longrightarrow> rstack s \<noteq> [] \<Longrightarrow> rstack (rs_drop s) = tl (rstack s)"
  using rstack_top(3) [of s] by (simp add: rs_drop_def rstack_def)

lemma stacks_ok_drop [stack_simps]: "stacks_ok s \<Longrightarrow> dstack s \<noteq> [] \<Longrightarrow> stacks_ok (ds_drop s)"
  using dstack_top(1) [of s] by (simp add: ds_drop_def stacks_ok_def)

lemma stacks_ok_rs_drop [stack_simps]: "stacks_ok s \<Longrightarrow> rstack s \<noteq> [] \<Longrightarrow> stacks_ok (rs_drop s)"
  using rstack_top(1) [of s] by (simp add: rs_drop_def stacks_ok_def)

lemma dstack_le: "stacks_ok s \<Longrightarrow> length (dstack s) \<le> 256"
  by (auto simp: length_dstack stacks_ok_def)

lemma rstack_le: "stacks_ok s \<Longrightarrow> length (rstack s) \<le> 256"
  by (auto simp: length_rstack stacks_ok_def)

lemma dstack_other [stack_simps]:
  "dstack (rs_push v s) = dstack s" "dstack (rs_drop s) = dstack s"
  "rstack (ds_push v s) = rstack s" "rstack (ds_drop s) = rstack s"
  by (simp_all add: dstack_def rstack_def rs_push_def rs_drop_def ds_push_def ds_drop_def)

lemma dstack_upd [simp]:
  "dstack (s\<lparr>ip := x\<rparr>) = dstack s" "rstack (s\<lparr>ip := x\<rparr>) = rstack s"
  "dstack (s\<lparr>vmem := m\<rparr>) = dstack s" "rstack (s\<lparr>vmem := m\<rparr>) = rstack s"
  "stacks_ok (s\<lparr>ip := x\<rparr>) = stacks_ok s" "stacks_ok (s\<lparr>vmem := m\<rparr>) = stacks_ok s"
  by (simp_all add: dstack_def rstack_def stacks_ok_def)

lemma ds_peek_Cons [stack_simps]: "stacks_ok s \<Longrightarrow> dstack s \<noteq> [] \<Longrightarrow> ds_peek s = hd (dstack s)"
  using dstack_top(1,2) [of s] by (simp add: ds_peek_def)

lemma rs_peek_Cons [stack_simps]: "stacks_ok s \<Longrightarrow> rstack s \<noteq> [] \<Longrightarrow> rs_peek s = hd (rstack s)"
  using rstack_top(1,2) [of s] by (simp add: rs_peek_def)

lemma ds_pick_nth [stack_simps]:
  assumes "stacks_ok s" "0 \<le> n" "nat n < length (dstack s)"
  shows "ds_pick n s = (dstack s ! nat n, s)"
proof -
  have n: "n < dsp s" and len: "dsp s \<le> int (length (ds s))"
    using assms by (auto simp: length_dstack stacks_ok_def)
  have idx: "nat (dsp s) - Suc (nat n) = nat (dsp s - 1 - n)" using assms(2) n by arith
  have "nat n < nat (dsp s)" "nat (dsp s) \<le> length (ds s)" using assms(2) n len by auto
  then have "dstack s ! nat n = ds s ! nat (dsp s - 1 - n)"
    using assms(2) by (simp add: dstack_def rev_nth min_absorb2 idx nth_take)
  then show ?thesis using assms(2) n by (simp add: ds_pick_def)
qed

lemmas stack_step = ds_pop_Cons rs_pop_Cons dstack_drop rstack_rs_drop stacks_ok_drop
  stacks_ok_rs_drop dstack_push rstack_push dstack_other ds_peek_Cons rs_peek_Cons ds_pick_nth

section \<open>The contract of a bounded stack\<close>

text \<open>Popping \<open>n\<close> values one after the other.\<close>

primrec pop_n :: "('s \<Rightarrow> 'v \<times> 's) \<Rightarrow> nat \<Rightarrow> 's \<Rightarrow> 'v list \<times> 's" where
  "pop_n pop 0 s = ([], s)"
| "pop_n pop (Suc n) s =
     (let (v, s') = pop s; (vs, s'') = pop_n pop n s' in (v # vs, s''))"

text \<open>
  What the Forth words rely on, for either stack: below the capacity a push puts a value
  on top, a push on a full stack changes no cell, a pop takes the top off, a pop of the
  empty stack answers zero, and all of them keep the representation well-formed.
\<close>

locale bounded_stack =
  fixes push :: "'v::zero \<Rightarrow> 's \<Rightarrow> 's"
    and pop :: "'s \<Rightarrow> 'v \<times> 's"
    and cells :: "'s \<Rightarrow> 'v list"
    and ok :: "'s \<Rightarrow> bool"
    and cap :: nat
  assumes ok_push: "ok s \<Longrightarrow> ok (push v s)"
    and ok_pop: "ok s \<Longrightarrow> ok (snd (pop s))"
    and cells_push: "ok s \<Longrightarrow> length (cells s) < cap \<Longrightarrow> cells (push v s) = v # cells s"
    and cells_push_full: "ok s \<Longrightarrow> length (cells s) = cap \<Longrightarrow> cells (push v s) = cells s"
    and pop_top: "ok s \<Longrightarrow> cells s \<noteq> [] \<Longrightarrow> fst (pop s) = hd (cells s)"
    and cells_pop: "ok s \<Longrightarrow> cells (snd (pop s)) = tl (cells s)"
    and pop_empty: "ok s \<Longrightarrow> cells s = [] \<Longrightarrow> fst (pop s) = 0"
    and cells_bound: "ok s \<Longrightarrow> length (cells s) \<le> cap"
begin

lemma push_all_cells:
  "ok s \<Longrightarrow> length vs + length (cells s) \<le> cap \<Longrightarrow>
     ok (fold push vs s) \<and> cells (fold push vs s) = rev vs @ cells s"
  by (induction vs arbitrary: s) (auto simp: ok_push cells_push)

lemma pop_n_cells:
  "ok s \<Longrightarrow> n \<le> length (cells s) \<Longrightarrow>
     fst (pop_n pop n s) = take n (cells s) \<and> cells (snd (pop_n pop n s)) = drop n (cells s)"
proof (induction n arbitrary: s)
  case 0
  show ?case by simp
next
  case (Suc n)
  then obtain v vs where c: "cells s = v # vs" by (cases "cells s") auto
  have "fst (pop s) = v" "cells (snd (pop s)) = vs" "ok (snd (pop s))"
    using pop_top [of s] cells_pop [of s] ok_pop [of s] Suc.prems(1) c by auto
  with Suc.IH [of "snd (pop s)"] Suc.prems(2) c show ?case
    by (auto simp: split_def Let_def)
qed

text \<open>Last in, first out, for any batch that fits.\<close>

lemma lifo:
  assumes "ok s" "length vs + length (cells s) \<le> cap"
  shows "fst (pop_n pop (length vs) (fold push vs s)) = rev vs"
    and "cells (snd (pop_n pop (length vs) (fold push vs s))) = cells s"
  using push_all_cells [OF assms] pop_n_cells [of "fold push vs s" "length vs"] by auto

text \<open>No sequence of pushes, whatever its length, grows the stack beyond its capacity.\<close>

lemma push_all_bound: "ok s \<Longrightarrow> ok (fold push vs s) \<and> length (cells (fold push vs s)) \<le> cap"
  by (induction vs arbitrary: s) (auto simp: ok_push cells_bound)

text \<open>Once full, a stack ignores what is pushed.\<close>

lemma push_all_full:
  "ok s \<Longrightarrow> length (cells s) = cap \<Longrightarrow> cells (fold push vs s) = cells s"
  by (induction vs arbitrary: s) (auto simp: ok_push cells_push_full)

end

interpretation data_stack: bounded_stack ds_push ds_pop dstack stacks_ok 256
proof unfold_locales
  fix s :: "'a stacks_scheme" and v :: i64
  assume ok: "stacks_ok s"
  show "stacks_ok (ds_push v s)" "stacks_ok (snd (ds_pop s))" using ok by simp_all
  show "length (dstack s) < 256 \<Longrightarrow> dstack (ds_push v s) = v # dstack s" by (rule dstack_push [OF ok])
  show "length (dstack s) = 256 \<Longrightarrow> dstack (ds_push v s) = dstack s" by (simp add: ds_push_full [OF ok])
  show "dstack s \<noteq> [] \<Longrightarrow> fst (ds_pop s) = hd (dstack s)" using ok by (simp add: ds_pop_Cons)
  show "dstack (snd (ds_pop s)) = tl (dstack s)"
    using ok by (cases "dstack s = []") (simp_all add: ds_pop_Nil stack_step)
  show "dstack s = [] \<Longrightarrow> fst (ds_pop s) = 0" using ok by (simp add: ds_pop_Nil)
  show "length (dstack s) \<le> 256" by (rule dstack_le [OF ok])
qed

interpretation return_stack: bounded_stack rs_push rs_pop rstack stacks_ok 256
proof unfold_locales
  fix s :: "'a stacks_scheme" and v :: u64
  assume ok: "stacks_ok s"
  show "stacks_ok (rs_push v s)" "stacks_ok (snd (rs_pop s))" using ok by simp_all
  show "length (rstack s) < 256 \<Longrightarrow> rstack (rs_push v s) = v # rstack s" by (rule rstack_push [OF ok])
  show "length (rstack s) = 256 \<Longrightarrow> rstack (rs_push v s) = rstack s" by (simp add: rs_push_full [OF ok])
  show "rstack s \<noteq> [] \<Longrightarrow> fst (rs_pop s) = hd (rstack s)" using ok by (simp add: rs_pop_Cons)
  show "rstack (snd (rs_pop s)) = tl (rstack s)"
    using ok by (cases "rstack s = []") (simp_all add: rs_pop_Nil stack_step)
  show "rstack s = [] \<Longrightarrow> fst (rs_pop s) = 0" using ok by (simp add: rs_pop_Nil)
  show "length (rstack s) \<le> 256" by (rule rstack_le [OF ok])
qed

text \<open>C34. Every stack operation of the machine keeps both stack representations well-formed:
  arrays of 256 cells and indices between 0 and 256, whatever is pushed or popped, on full
  and on empty stacks too.\<close>

theorem stack_ops_well_formed:
  assumes "stacks_ok s"
  shows "stacks_ok (ds_push v s) \<and> stacks_ok (snd (ds_pop s)) \<and> stacks_ok (snd (ds_pick n s))
    \<and> stacks_ok (ds_clear s) \<and> stacks_ok (rs_push u s) \<and> stacks_ok (snd (rs_pop s))
    \<and> stacks_ok (rs_clear s) \<and> stacks_ok (ip_set a s)"
  using assms
  by (simp add: ds_pick_def ip_set_def) (simp add: stacks_ok_def ds_clear_def rs_clear_def)

lemma stacks_boot_ok: "stacks_ok (stacks_boot m)" "dstack (stacks_boot m) = []" "rstack (stacks_boot m) = []"
  by (simp_all add: stacks_boot_def stacks_ok_def dstack_def rstack_def kbd.defs)

theorem stack_ops_well_formed_witness:
  "stacks_ok (snd (ds_pop (stacks_boot Map.empty)))"
  using stack_ops_well_formed [OF stacks_boot_ok(1)] by blast

text \<open>Values pushed on the data stack come off it in reverse order, and the stack is then
  as it was, for every batch that fits; a push on the full stack changes no cell and
  reports the overflow on the screen.\<close>

theorem data_stack_lifo:
  assumes "stacks_ok s" "length vs + length (dstack s) \<le> 256"
  shows "fst (pop_n ds_pop (length vs) (fold ds_push vs s)) = rev vs
    \<and> dstack (snd (pop_n ds_pop (length vs) (fold ds_push vs s))) = dstack s
    \<and> (length (dstack s) = 256 \<longrightarrow>
         ds_push v s = vga_puts (str '' Data Stack Overflow!\<newline>'') s)"
  using data_stack.lifo [OF assms] ds_push_full [OF assms(1)] by blast

theorem data_stack_lifo_witness:
  "fst (pop_n ds_pop (length [1, 2, 3]) (fold ds_push [1, 2, 3] (stacks_boot Map.empty))) = [3, 2, 1]"
  using data_stack_lifo [OF stacks_boot_ok(1), of "[1, 2, 3]"] by (simp add: stacks_boot_ok)

text \<open>The same for the return stack.\<close>

theorem return_stack_lifo:
  assumes "stacks_ok s" "length vs + length (rstack s) \<le> 256"
  shows "fst (pop_n rs_pop (length vs) (fold rs_push vs s)) = rev vs
    \<and> rstack (snd (pop_n rs_pop (length vs) (fold rs_push vs s))) = rstack s
    \<and> (length (rstack s) = 256 \<longrightarrow>
         rs_push v s = vga_puts (str '' Return Stack Overflow!\<newline>'') s)"
  using return_stack.lifo [OF assms] rs_push_full [OF assms(1)] by blast

theorem return_stack_lifo_witness:
  "fst (pop_n rs_pop (length [7, 8]) (fold rs_push [7, 8] (stacks_boot Map.empty))) = [8, 7]"
  using return_stack_lifo [OF stacks_boot_ok(1), of "[7, 8]"] by (simp add: stacks_boot_ok)

end
