(* ===== verification/Blocks.thy ===== *)
theory Blocks
  imports Cache Stack
begin

text \<open>
  What a client of \<open>fs/block_device.c\<close> sees: a store of blocks.  \<open>contents\<close> forgets which
  blocks are in buffers and which only on the disk; the cache keeps it under every operation, up
  to the CRC field, which belongs to the cache.
\<close>

unbundle bit_operations_syntax

section \<open>Contents of a block\<close>

definition contents :: "cache \<Rightarrow> u32 \<Rightarrow> u8 list" where
  "contents c n = (case lookup (fst c) n of Some i \<Rightarrow> b_block (fst c ! i) | None \<Rightarrow> disk_block (snd c) n)"

text \<open>A block without its CRC field.\<close>

definition payload :: "u8 list \<Rightarrow> u8 list" where
  "payload blk = take 12 blk @ drop 16 blk"

text \<open>The blocks that fit under the 28-bit sector numbers of the driver; larger ones alias them.\<close>

definition block_exists :: "u32 \<Rightarrow> bool" where
  "block_exists n \<longleftrightarrow> unat n < 2 ^ 27 - 512"

definition shaped :: "cache \<Rightarrow> bool" where
  "shaped c \<longleftrightarrow> length (fst c) = 8 \<and> (\<forall>i < 8. length (b_block (fst c ! i)) = 1024) \<and> (\<forall>l. length (snd c l) = 512)"

definition coherent :: "cache \<Rightarrow> bool" where
  "coherent c \<longleftrightarrow> shaped c \<and>
     (\<forall>i < 8. \<forall>j < 8. b_valid (fst c ! i) \<noteq> 0 \<and> b_valid (fst c ! j) \<noteq> 0 \<and> b_num (fst c ! i) = b_num (fst c ! j) \<longrightarrow> i = j) \<and>
     (\<forall>i < 8. b_valid (fst c ! i) \<noteq> 0 \<longrightarrow> block_exists (b_num (fst c ! i)) \<and>
        (b_dirty (fst c ! i) = 0 \<longrightarrow> b_block (fst c ! i) = disk_block (snd c) (b_num (fst c ! i))))"

lemma coherent_unique:
  "coherent c \<Longrightarrow> i < 8 \<Longrightarrow> j < 8 \<Longrightarrow> b_valid (fst c ! i) \<noteq> 0 \<Longrightarrow> b_valid (fst c ! j) \<noteq> 0 \<Longrightarrow>
     b_num (fst c ! i) = b_num (fst c ! j) \<Longrightarrow> i = j"
  unfolding coherent_def by blast

lemma coherent_buffer:
  assumes "coherent c" "i < 8" "b_valid (fst c ! i) \<noteq> 0"
  shows "block_exists (b_num (fst c ! i))"
    and "b_dirty (fst c ! i) = 0 \<Longrightarrow> b_block (fst c ! i) = disk_block (snd c) (b_num (fst c ! i))"
  using assms unfolding coherent_def by blast+

lemma cached_shaped: "cached d c s \<Longrightarrow> shaped c"
  by (auto simp: cached_def shaped_def holds_buffers_def buffer_shape_def drive_idle_def sector_on_def)

lemma first_sector_exists: "block_exists n \<Longrightarrow> first_sector n = 1024 + 2 * unat n"
  by (simp add: block_exists_def first_sector_def DISK_BLOCK_OFFSET_SECTORS_def unat_word_ariths)

lemma sectors_distinct:
  assumes "block_exists n" "block_exists m" "n \<noteq> m"
  shows "first_sector n \<noteq> first_sector m" "first_sector n \<noteq> Suc (first_sector m)" "Suc (first_sector n) \<noteq> first_sector m"
proof -
  have "unat n \<noteq> unat m" using assms(3) by (simp add: word_unat_eq_iff)
  then show "first_sector n \<noteq> first_sector m" "first_sector n \<noteq> Suc (first_sector m)" "Suc (first_sector n) \<noteq> first_sector m"
    unfolding first_sector_exists [OF assms(1)] first_sector_exists [OF assms(2)] by presburger+
qed

lemma lookup_eq_Some:
  assumes "coherent c"
  shows "lookup (fst c) n = Some i \<longleftrightarrow> i < 8 \<and> b_valid (fst c ! i) \<noteq> 0 \<and> b_num (fst c ! i) = n"
proof
  assume i: "i < 8 \<and> b_valid (fst c ! i) \<noteq> 0 \<and> b_num (fst c ! i) = n"
  then obtain j where j: "lookup (fst c) n = Some j" using lookup_None by (metis option.exhaust)
  with lookup_Some [OF j] i have "i = j" using assms unfolding coherent_def by blast
  with j show "lookup (fst c) n = Some i" by simp
qed (rule lookup_Some)

lemma contents_cached:
  "coherent c \<Longrightarrow> i < 8 \<Longrightarrow> b_valid (fst c ! i) \<noteq> 0 \<Longrightarrow> contents c (b_num (fst c ! i)) = b_block (fst c ! i)"
  by (simp add: contents_def lookup_eq_Some [THEN iffD2])

lemma contents_disk:
  "(\<And>i. i < 8 \<Longrightarrow> b_valid (fst c ! i) \<noteq> 0 \<Longrightarrow> b_num (fst c ! i) \<noteq> n) \<Longrightarrow> contents c n = disk_block (snd c) n"
  using lookup_Some [of "fst c" n] by (auto simp: contents_def split: option.splits)

lemma length_contents: "coherent c \<Longrightarrow> length (contents c n) = 1024"
  using lookup_Some [of "fst c" n]
  by (auto simp: contents_def coherent_def shaped_def disk_block_def split: option.splits)

section \<open>Payloads\<close>

lemma payload_eq_iff:
  assumes "length x = 1024" "length y = 1024"
  shows "payload x = payload y \<longleftrightarrow> (\<forall>i < 1024. i < 12 \<or> 16 \<le> i \<longrightarrow> x ! i = y ! i)"
proof
  assume p: "payload x = payload y"
  then have "take 12 x = take 12 y" "drop 16 x = drop 16 y" using assms by (simp_all add: payload_def)
  then have "x ! i = y ! i" if "i < 12" for i using that by (metis nth_take)
  moreover have "x ! i = y ! i" if "16 \<le> i" "i < 1024" for i
  proof -
    have "drop 16 x ! (i - 16) = drop 16 y ! (i - 16)" using \<open>drop 16 x = drop 16 y\<close> by simp
    then show ?thesis using that assms by simp
  qed
  ultimately show "\<forall>i < 1024. i < 12 \<or> 16 \<le> i \<longrightarrow> x ! i = y ! i" by blast
next
  assume e: "\<forall>i < 1024. i < 12 \<or> 16 \<le> i \<longrightarrow> x ! i = y ! i"
  have "take 12 x = take 12 y"
  proof (rule nth_equalityI)
    fix i assume "i < length (take 12 x)"
    then show "take 12 x ! i = take 12 y ! i" using e [rule_format, of i] assms by simp
  qed (simp add: assms)
  moreover have "drop 16 x = drop 16 y"
  proof (rule nth_equalityI)
    fix i assume "i < length (drop 16 x)"
    then show "drop 16 x ! i = drop 16 y ! i" using e [rule_format, of "16 + i"] assms by simp
  qed (simp add: assms)
  ultimately show "payload x = payload y" by (simp add: payload_def)
qed

lemma nth_overwrite:
  "off + length cs \<le> length blk \<Longrightarrow> i < length blk \<Longrightarrow>
     overwrite off cs blk ! i = (if off \<le> i \<and> i < off + length cs then cs ! (i - off) else blk ! i)"
  by (auto simp: overwrite_def nth_append)

lemma payload_stamped: "length x = 1024 \<Longrightarrow> payload (stamped x) = payload x"
  by (subst payload_eq_iff) (auto simp: stamped_def nth_overwrite)

lemma length_stamped [simp]: "length x = 1024 \<Longrightarrow> length (stamped x) = 1024"
  by (simp add: stamped_def)

lemma payload_overwrite:
  assumes "payload x = payload y" "length x = 1024" "length y = 1024" "off + length cs \<le> 1024"
  shows "payload (overwrite off cs x) = payload (overwrite off cs y)"
  using assms by (simp add: payload_eq_iff nth_overwrite)

section \<open>The cache keeps the contents\<close>

lemma disk_block_upd:
  assumes "block_exists n" "block_exists m" "length blk = 1024"
  shows "disk_block (D(first_sector n := take 512 blk, Suc (first_sector n) := drop 512 blk)) m =
    (if m = n then blk else disk_block D m)"
proof (cases "m = n")
  case False
  then show ?thesis using sectors_distinct [OF assms(1,2)] sectors_distinct [OF assms(2,1)] by (simp add: disk_block_def)
qed (simp add: disk_block_def)

lemma write_back_coherent:
  assumes "coherent c" "i < 8"
  shows "coherent (write_back i c)"
    and "block_exists n \<Longrightarrow> payload (contents (write_back i c) n) = payload (contents c n)"
    and "b_valid (fst (write_back i c) ! j) = b_valid (fst c ! j)"
    and "b_num (fst (write_back i c) ! j) = b_num (fst c ! j)"
    and "b_valid (fst c ! i) \<noteq> 0 \<Longrightarrow> b_dirty (fst (write_back i c) ! i) = 0"
    and "b_dirty (fst c ! j) = 0 \<Longrightarrow> b_dirty (fst (write_back i c) ! j) = 0"
proof -
  obtain bfs D where c: "c = (bfs, D)" by (cases c)
  let ?b = "bfs ! i"
  have len: "length bfs = 8" "\<And>j. j < 8 \<Longrightarrow> length (b_block (bfs ! j)) = 1024" "\<And>l. length (D l) = 512"
    using assms(1) by (simp_all add: coherent_def shaped_def c)
  let ?w = "b_valid ?b \<noteq> 0 \<and> b_dirty ?b \<noteq> 0"
  have f: "fst (write_back i c) ! j = (if j = i \<and> ?w then ?b\<lparr>b_block := stamped (b_block ?b), b_dirty := 0\<rparr> else bfs ! j)" for j
    using len(1) assms(2) by (simp add: write_back_def c Let_def nth_list_update)
  show "b_valid (fst (write_back i c) ! j) = b_valid (fst c ! j)"
    "b_num (fst (write_back i c) ! j) = b_num (fst c ! j)"
    "b_valid (fst c ! i) \<noteq> 0 \<Longrightarrow> b_dirty (fst (write_back i c) ! i) = 0"
    "b_dirty (fst c ! j) = 0 \<Longrightarrow> b_dirty (fst (write_back i c) ! j) = 0"
    unfolding f by (simp_all add: c)
  have ds: "disk_block (snd (write_back i c)) m =
      (if m = b_num ?b \<and> ?w then stamped (b_block ?b) else disk_block D m)" if "block_exists m" for m
  proof (cases ?w)
    case True
    then have "block_exists (b_num ?b)" using assms by (simp add: coherent_def c)
    then show ?thesis
      using True disk_block_upd [OF _ that] len(2) [OF assms(2)] by (simp add: write_back_def c Let_def)
  qed (auto simp: write_back_def c)
  have sh: "shaped (write_back i c)"
    using len assms(2) by (simp add: shaped_def write_back_def c Let_def nth_list_update)
  have uniq: "j = k" if "j < 8" "k < 8" "b_valid (bfs ! j) \<noteq> 0" "b_valid (bfs ! k) \<noteq> 0" "b_num (bfs ! j) = b_num (bfs ! k)" for j k
    using assms(1) that unfolding coherent_def c fst_conv by blast
  have ex: "block_exists (b_num (bfs ! j))" "b_dirty (bfs ! j) = 0 \<Longrightarrow> b_block (bfs ! j) = disk_block D (b_num (bfs ! j))"
    if "j < 8" "b_valid (bfs ! j) \<noteq> 0" for j
    using assms(1) that unfolding coherent_def c fst_conv snd_conv by blast+
  show coh: "coherent (write_back i c)"
    unfolding coherent_def
  proof (intro conjI sh allI impI)
    fix j k assume "j < 8" "k < 8" "b_valid (fst (write_back i c) ! j) \<noteq> 0 \<and> b_valid (fst (write_back i c) ! k) \<noteq> 0 \<and>
      b_num (fst (write_back i c) ! j) = b_num (fst (write_back i c) ! k)"
    then show "j = k" unfolding f by (intro uniq) (auto split: if_splits)
  next
    fix j assume j: "j < 8" "b_valid (fst (write_back i c) ! j) \<noteq> 0"
    then have jv: "b_valid (bfs ! j) \<noteq> 0" "b_num (fst (write_back i c) ! j) = b_num (bfs ! j)"
      unfolding f by (auto split: if_splits)
    then show "block_exists (b_num (fst (write_back i c) ! j))" using ex(1) j(1) by simp
    assume d: "b_dirty (fst (write_back i c) ! j) = 0"
    show "b_block (fst (write_back i c) ! j) = disk_block (snd (write_back i c)) (b_num (fst (write_back i c) ! j))"
    proof (cases "j = i \<and> ?w")
      case True
      then show ?thesis using ds [OF ex(1) [OF j(1) jv(1)]] jv(2) by (simp add: f)
    next
      case False
      then have "b_dirty (bfs ! j) = 0" using d unfolding f by (auto split: if_splits)
      then have b: "b_block (bfs ! j) = disk_block D (b_num (bfs ! j))" by (rule ex(2) [OF j(1) jv(1)])
      have "\<not> (b_num (bfs ! j) = b_num ?b \<and> ?w)" using False uniq [OF j(1) assms(2) jv(1)] by blast
      then have "disk_block (snd (write_back i c)) (b_num (bfs ! j)) = disk_block D (b_num (bfs ! j))"
        unfolding ds [OF ex(1) [OF j(1) jv(1)]] by (rule if_not_P)
      moreover have "fst (write_back i c) ! j = bfs ! j" unfolding f using False by (rule if_not_P)
      ultimately show ?thesis using b by simp
    qed
  qed
  show "payload (contents (write_back i c) n) = payload (contents c n)" if n: "block_exists n"
  proof (cases "lookup bfs n")
    case (Some j)
    then have "j < 8" "b_valid (bfs ! j) \<noteq> 0" "b_num (bfs ! j) = n" using lookup_Some by auto
    then have "lookup (fst (write_back i c)) n = Some j" unfolding lookup_eq_Some [OF coh] f by auto
    then have "contents (write_back i c) n = b_block (fst (write_back i c) ! j)" by (simp add: contents_def)
    moreover have "contents c n = b_block (bfs ! j)" using Some by (simp add: contents_def c)
    moreover have "payload (b_block (fst (write_back i c) ! j)) = payload (b_block (bfs ! j))"
      unfolding f using payload_stamped [OF len(2) [OF assms(2)]] by simp
    ultimately show ?thesis by simp
  next
    case None
    note no = lookup_None [OF None]
    have "contents (write_back i c) n = disk_block (snd (write_back i c)) n"
      by (rule contents_disk) (use no in \<open>auto simp: f split: if_splits\<close>)
    moreover have "disk_block (snd (write_back i c)) n = disk_block D n" using ds [OF n] no [OF assms(2)] by auto
    ultimately show ?thesis using None by (simp add: contents_def c)
  qed
qed

text \<open>Changing one buffer, its number kept: what the other blocks hold is untouched.\<close>

lemma buffer_update_coherent:
  assumes "coherent c" "i < 8" "b_valid (fst c ! i) \<noteq> 0" "b_num b = b_num (fst c ! i)" "b_valid b \<noteq> 0"
    "length (b_block b) = 1024" "b_dirty b = 0 \<Longrightarrow> b_block b = disk_block (snd c) (b_num b)"
  defines "c' \<equiv> ((fst c)[i := b], snd c)"
  shows "coherent c'" "contents c' n = (if n = b_num b then b_block b else contents c n)"
proof -
  obtain bfs D where c: "c = (bfs, D)" by (cases c)
  have len: "length bfs = 8" using assms(1) by (simp add: coherent_def shaped_def c)
  have f: "fst c' ! j = (if j = i then b else bfs ! j)" "b_num (fst c' ! j) = b_num (bfs ! j)"
    "b_valid (fst c' ! j) \<noteq> 0 \<longleftrightarrow> b_valid (bfs ! j) \<noteq> 0" for j
    using len assms(2-5) by (auto simp: c'_def c nth_list_update)
  have sh: "shaped c'"
    using assms(1,2,6) len by (auto simp: coherent_def shaped_def c'_def c nth_list_update)
  show coh: "coherent c'"
    unfolding coherent_def f(2,3)
  proof (intro conjI sh allI impI)
    fix j k assume "j < 8" "k < 8" "b_valid (bfs ! j) \<noteq> 0 \<and> b_valid (bfs ! k) \<noteq> 0 \<and> b_num (bfs ! j) = b_num (bfs ! k)"
    then show "j = k" using coherent_unique [OF assms(1)] by (simp add: c)
  next
    fix j assume j: "j < 8" "b_valid (bfs ! j) \<noteq> 0"
    then show "block_exists (b_num (bfs ! j))" using coherent_buffer(1) [OF assms(1)] by (simp add: c)
    assume d: "b_dirty (fst c' ! j) = 0"
    show "b_block (fst c' ! j) = disk_block (snd c') (b_num (bfs ! j))"
    proof (cases "j = i")
      case True
      then show ?thesis using d assms(4,7) by (simp add: f(1)) (simp add: c'_def c)
    next
      case False
      then show ?thesis using d j coherent_buffer(2) [OF assms(1)] by (simp add: f(1)) (simp add: c'_def c)
    qed
  qed
  show "contents c' n = (if n = b_num b then b_block b else contents c n)"
  proof (cases "lookup bfs n")
    case (Some j)
    then have j: "j < 8" "b_valid (bfs ! j) \<noteq> 0" "b_num (bfs ! j) = n" using lookup_Some by auto
    then have "lookup (fst c') n = Some j" unfolding lookup_eq_Some [OF coh] f(2,3) by simp
    moreover have "j = i \<longleftrightarrow> n = b_num b"
      using j coherent_unique [OF assms(1) _ assms(2) _ assms(3), of j] assms(4) by (auto simp: c)
    ultimately show ?thesis using Some by (simp add: contents_def f(1) c)
  next
    case None
    have "contents c' n = disk_block D n"
      using contents_disk [of c' n] lookup_None [OF None] unfolding f(2,3) by (simp add: c'_def c)
    moreover have "n \<noteq> b_num b" using lookup_None [OF None assms(2)] assms(3,4) by (auto simp: c)
    ultimately show ?thesis using None by (simp add: contents_def c)
  qed
qed

text \<open>Putting a block from the disk into a clean buffer changes no contents.\<close>

lemma buffer_replace_coherent:
  assumes "coherent c" "i < 8" "b_valid (fst c ! i) \<noteq> 0 \<Longrightarrow> b_dirty (fst c ! i) = 0"
    "lookup (fst c) (b_num b) = None" "block_exists (b_num b)" "b_valid b \<noteq> 0"
    "b_block b = disk_block (snd c) (b_num b)"
  defines "c' \<equiv> ((fst c)[i := b], snd c)"
  shows "coherent c'" "contents c' n = contents c n"
proof -
  obtain bfs D where c: "c = (bfs, D)" by (cases c)
  have len: "length bfs = 8" using assms(1) by (simp add: coherent_def shaped_def c)
  have f: "fst c' ! j = (if j = i then b else bfs ! j)" for j
    using len assms(2) by (simp add: c'_def c nth_list_update)
  note no = lookup_None [OF assms(4), unfolded c fst_conv]
  have "length (b_block b) = 1024" using assms(1,7) by (simp add: coherent_def shaped_def c disk_block_def)
  then have sh: "shaped c'"
    using assms(1,2) len by (auto simp: coherent_def shaped_def c'_def c nth_list_update)
  show coh: "coherent c'"
    unfolding coherent_def
  proof (intro conjI sh allI impI)
    fix j k assume "j < 8" "k < 8" "b_valid (fst c' ! j) \<noteq> 0 \<and> b_valid (fst c' ! k) \<noteq> 0 \<and> b_num (fst c' ! j) = b_num (fst c' ! k)"
    moreover have "\<forall>j < 8. \<forall>k < 8. b_valid (bfs ! j) \<noteq> 0 \<and> b_valid (bfs ! k) \<noteq> 0 \<and> b_num (bfs ! j) = b_num (bfs ! k) \<longrightarrow> j = k"
      using assms(1) unfolding coherent_def c fst_conv by blast
    ultimately show "j = k" using no unfolding f by (auto split: if_splits)
  next
    fix j assume j: "j < 8" "b_valid (fst c' ! j) \<noteq> 0"
    have o: "block_exists (b_num (bfs ! j)) \<and> (b_dirty (bfs ! j) = 0 \<longrightarrow> b_block (bfs ! j) = disk_block D (b_num (bfs ! j)))"
      if "b_valid (bfs ! j) \<noteq> 0"
      using assms(1) j(1) that unfolding coherent_def c fst_conv snd_conv by blast
    show "block_exists (b_num (fst c' ! j))" using j o assms(5) unfolding f by (auto split: if_splits)
    assume "b_dirty (fst c' ! j) = 0"
    then show "b_block (fst c' ! j) = disk_block (snd c') (b_num (fst c' ! j))"
      using j o assms(7) unfolding f by (auto simp: c'_def c split: if_splits)
  qed
  have num: "contents c' (b_num b) = disk_block D (b_num b)"
    using contents_cached [OF coh assms(2)] assms(6,7) by (simp add: f c)
  show "contents c' n = contents c n"
  proof (cases "lookup bfs n")
    case (Some j)
    then have j: "j < 8" "b_valid (bfs ! j) \<noteq> 0" "b_num (bfs ! j) = n" using lookup_Some by auto
    then have nb: "n \<noteq> b_num b" using no by blast
    have o: "contents c n = b_block (bfs ! j)" using Some by (simp add: contents_def c)
    show ?thesis
    proof (cases "j = i")
      case False
      then have "lookup (fst c') n = Some j" unfolding lookup_eq_Some [OF coh] f using j by simp
      then show ?thesis using False o by (simp add: contents_def f)
    next
      case True
      have "contents c' n = disk_block (snd c') n"
      proof (rule contents_disk)
        fix k assume k: "k < 8" "b_valid (fst c' ! k) \<noteq> 0"
        have "k = j" if "k \<noteq> i" "b_num (bfs ! k) = n"
          using coherent_unique [OF assms(1) k(1) j(1)] j k(2) that unfolding f by (simp add: c)
        then show "b_num (fst c' ! k) \<noteq> n" using True nb unfolding f by auto
      qed
      moreover have "b_block (bfs ! j) = disk_block D n"
        using assms(1,3) j True unfolding coherent_def c fst_conv snd_conv by blast
      ultimately show ?thesis using o by (simp add: c'_def c)
    qed
  next
    case None
    have "contents c n = disk_block D n" using None by (simp add: contents_def c)
    moreover have "contents c' n = disk_block (snd c') n" if "n \<noteq> b_num b"
    proof (rule contents_disk)
      fix k assume k: "k < 8" "b_valid (fst c' ! k) \<noteq> 0"
      then show "b_num (fst c' ! k) \<noteq> n"
        using lookup_None [OF None k(1)] that unfolding f by (cases "k = i") auto
    qed
    ultimately show ?thesis using num by (cases "n = b_num b") (simp_all add: c'_def c)
  qed
qed

lemma fetch_coherent:
  assumes "coherent c" "block_exists n" "fetch now n c = (v, c')"
  shows "coherent c'" "v < 8" "b_valid (fst c' ! v) \<noteq> 0" "b_num (fst c' ! v) = n"
    "block_exists m \<Longrightarrow> payload (contents c' m) = payload (contents c m)"
proof -
  have "coherent c' \<and> v < 8 \<and> b_valid (fst c' ! v) \<noteq> 0 \<and> b_num (fst c' ! v) = n \<and>
    (\<forall>m. block_exists m \<longrightarrow> payload (contents c' m) = payload (contents c m))"
  proof (cases "lookup (fst c) n")
    case (Some i)
    let ?b = "(fst c ! i)\<lparr>b_used := now\<rparr>"
    have i: "i < 8" "b_valid (fst c ! i) \<noteq> 0" "b_num (fst c ! i) = n" using lookup_Some [OF Some] by auto
    have len: "length (fst c) = 8" "length (b_block ?b) = 1024" using assms(1) i(1) by (simp_all add: coherent_def shaped_def)
    have d: "b_dirty ?b = 0 \<Longrightarrow> b_block ?b = disk_block (snd c) (b_num ?b)"
      using assms(1) i(1,2) by (simp add: coherent_def)
    have c': "v = i" "c' = ((fst c)[i := ?b], snd c)" using assms(3) Some by (auto simp: fetch_def)
    note u = buffer_update_coherent [OF assms(1) i(1,2) _ _ len(2) d]
    have "coherent c'" unfolding c' by (rule u(1)) (use i in simp_all)
    moreover have "contents c' m = contents c m" for m
      unfolding c' using u(2) [of m] contents_cached [OF assms(1) i(1,2)] i(2) by simp
    ultimately show ?thesis using i len(1) c' by simp
  next
    case None
    let ?v = "victim (fst c)"
    let ?w = "write_back ?v c"
    let ?b = "(fst ?w ! ?v)\<lparr>b_block := disk_block (snd ?w) n, b_num := n, b_valid := 1, b_dirty := 0, b_used := now\<rparr>"
    have c': "v = ?v" "c' = ((fst ?w)[?v := ?b], snd ?w)" using assms(3) None by (auto simp: fetch_def Let_def)
    note wb = write_back_coherent [OF assms(1) victim_less [of "fst c"]]
    have lk: "lookup (fst ?w) n = None"
      using lookup_None [OF None] lookup_Some [of "fst ?w" n] unfolding wb(3,4) by (cases "lookup (fst ?w) n") auto
    have cl: "b_valid (fst ?w ! ?v) \<noteq> 0 \<Longrightarrow> b_dirty (fst ?w ! ?v) = 0" using wb(3,5) by simp
    have len: "length (fst ?w) = 8" using wb(1) by (simp add: coherent_def shaped_def)
    note r = buffer_replace_coherent [OF wb(1) victim_less [of "fst c"] cl, of ?b]
    have "coherent c'" unfolding c' by (rule r(1)) (simp_all add: lk assms(2))
    moreover have "contents c' m = contents ?w m" for m
      unfolding c' by (rule r(2)) (simp_all add: lk assms(2))
    ultimately show ?thesis using wb(2) len c' by simp
  qed
  then show "coherent c'" "v < 8" "b_valid (fst c' ! v) \<noteq> 0" "b_num (fst c' ! v) = n"
    "block_exists m \<Longrightarrow> payload (contents c' m) = payload (contents c m)" by blast+
qed

section \<open>Requests\<close>

text \<open>
  A client's use of the cache as the file system and the block words make it: get a block and
  read it, get a block, write into it and mark it with \<open>block_update\<close>, or flush.
\<close>

datatype request = Read_block u32 | Write_block u32 nat "u8 list" | Flush

fun request_ok :: "request \<Rightarrow> bool" where
  "request_ok (Read_block b) \<longleftrightarrow> block_exists b"
| "request_ok (Write_block b off cs) \<longleftrightarrow> block_exists b \<and> cs \<noteq> [] \<and> off + length cs \<le> 1024"
| "request_ok Flush \<longleftrightarrow> True"

fun serve :: "device \<Rightarrow> nat \<Rightarrow> request \<Rightarrow> 'a block_cache_scheme \<Rightarrow> (u8 list \<times> 'a block_cache_scheme) res" where
  "serve dev n (Read_block b) s =
     rbind (block_get dev n b s) (\<lambda>(a, s). rbind (load_bytes a 1024 s) (\<lambda>bs. Inr (payload bs, s)))"
| "serve dev n (Write_block b off cs) s =
     rbind (block_get dev n b s) (\<lambda>(a, s). rbind (store_bytes (a + of_nat off) cs s) (\<lambda>s.
     rbind (block_update s) (\<lambda>s. Inr ([], s))))"
| "serve dev n Flush s = rbind (block_flush dev n s) (\<lambda>s. Inr ([], s))"

fun serve_all :: "device \<Rightarrow> nat \<Rightarrow> request list \<Rightarrow> 'a block_cache_scheme \<Rightarrow> (u8 list list \<times> 'a block_cache_scheme) res" where
  "serve_all dev n [] s = Inr ([], s)"
| "serve_all dev n (r # reqs) s =
     rbind (serve dev n r s) (\<lambda>(x, s). rbind (serve_all dev n reqs s) (\<lambda>(xs, s). Inr (x # xs, s)))"

text \<open>The specification: a plain map from block numbers to blocks.\<close>

fun answer :: "request \<Rightarrow> (u32 \<Rightarrow> u8 list) \<Rightarrow> u8 list \<times> (u32 \<Rightarrow> u8 list)" where
  "answer (Read_block b) B = (payload (B b), B)"
| "answer (Write_block b off cs) B = ([], B(b := overwrite off cs (B b)))"
| "answer Flush B = ([], B)"

fun answer_all :: "request list \<Rightarrow> (u32 \<Rightarrow> u8 list) \<Rightarrow> u8 list list \<times> (u32 \<Rightarrow> u8 list)" where
  "answer_all [] B = ([], B)"
| "answer_all (r # reqs) B =
     (let (x, B) = answer r B; (xs, B) = answer_all reqs B in (x # xs, B))"

text \<open>The relation between the two: the cache is coherent and holds the blocks of the map.\<close>

definition serves :: "drive \<Rightarrow> (u32 \<Rightarrow> u8 list) \<Rightarrow> 'a block_cache_scheme \<Rightarrow> bool" where
  "serves d B s \<longleftrightarrow> (\<exists>c. cached d c s \<and> coherent c \<and>
     (\<forall>m. block_exists m \<longrightarrow> length (B m) = 1024 \<and> payload (contents c m) = payload (B m)))"

lemma serve_read:
  assumes "drive_answers dev n d" "uart_answers dev SERIAL_COM1" "cached d c s" "coherent c"
    "\<And>m. block_exists m \<Longrightarrow> length (B m) = 1024 \<and> payload (contents c m) = payload (B m)"
    and b: "block_exists b"
  shows "\<exists>s'. serve dev n (Read_block b) s = Inr (payload (B b), s') \<and> serves d B s' \<and> only_cache s s'"
proof -
  obtain s' v c' where g: "block_get dev n b s = Inr (buf_block v s', s')" "fetch (kernel_ticks s) b c = (v, c')"
    "cached d c' s'" "only_cache s s'"
    using block_get_refines [OF assms(1,2) assms(3)] by blast
  note f = fetch_coherent [OF assms(4) b g(2)]
  have "load_bytes (buf_block v s') 1024 s' = Inr (contents c' b)"
    using buffer_reads(5) [of "fst c'" s' v] g(3) f(2) contents_cached [OF f(1-3)] f(4) by (simp add: cached_def)
  then have "serve dev n (Read_block b) s = Inr (payload (B b), s')"
    using g(1) f(5) [OF b] assms(5) [OF b] by simp
  moreover have "serves d B s'" unfolding serves_def using g(3) f(1,5) assms(5) by (intro exI [of _ c']) simp
  ultimately show ?thesis using g(4) by blast
qed

text \<open>Between \<open>block_get\<close> and \<open>block_update\<close> a client edits the block it holds.\<close>

definition editing :: "drive \<Rightarrow> (u32 \<Rightarrow> u8 list) \<Rightarrow> u32 \<Rightarrow> nat \<Rightarrow> u8 list \<Rightarrow> 'a block_cache_scheme \<Rightarrow> bool" where
  "editing d B b v blk s \<longleftrightarrow> v < 8 \<and> block_exists b \<and> length blk = 1024 \<and> most_recent_buffer s = of_nat v \<and>
     (\<exists>c. cached d ((fst c)[v := (fst c ! v)\<lparr>b_block := blk\<rparr>], snd c) s \<and> coherent c \<and>
        b_valid (fst c ! v) \<noteq> 0 \<and> b_num (fst c ! v) = b \<and>
        (\<forall>m. block_exists m \<longrightarrow> length (B m) = 1024 \<and> payload (contents c m) = payload (B m)))"

lemma edit_get:
  assumes "drive_answers dev n d" "uart_answers dev SERIAL_COM1" "serves d B s" "block_exists b"
  shows "\<exists>s' v blk. block_get dev n b s = Inr (buf_block v s', s') \<and> editing d B b v blk s' \<and>
    payload blk = payload (B b) \<and> serves d B s' \<and> only_cache s s'"
proof -
  obtain c where c: "cached d c s" "coherent c"
    and B: "\<And>m. block_exists m \<Longrightarrow> length (B m) = 1024 \<and> payload (contents c m) = payload (B m)"
    using assms(3) unfolding serves_def by blast
  obtain s' v c' where g: "block_get dev n b s = Inr (buf_block v s', s')" "fetch (kernel_ticks s) b c = (v, c')"
    "cached d c' s'" "only_cache s s'" "most_recent_buffer s' = of_nat v"
    using block_get_refines [OF assms(1,2) c(1)] by blast
  note f = fetch_coherent [OF c(2) assms(4) g(2)]
  let ?blk = "b_block (fst c' ! v)"
  have blk: "?blk = contents c' b" using contents_cached [OF f(1-3)] f(4) by simp
  have "length ?blk = 1024" unfolding blk by (rule length_contents [OF f(1)])
  moreover have "((fst c')[v := (fst c' ! v)\<lparr>b_block := ?blk\<rparr>], snd c') = c'" by simp
  ultimately have "editing d B b v ?blk s'"
    unfolding editing_def using g(3,5) f assms(4) B by (intro conjI exI [of _ c']) simp_all
  moreover have "payload ?blk = payload (B b)" using f(5) [OF assms(4)] B [OF assms(4)] by (simp add: blk)
  moreover have "serves d B s'" unfolding serves_def using g(3) f(1,5) B by (intro exI [of _ c']) simp
  ultimately show ?thesis using g(1,4) by blast
qed

lemma editing_holds:
  assumes "editing d B b v blk s"
  shows "\<exists>bfs. holds_buffers bfs s \<and> b_block (bfs ! v) = blk"
proof -
  obtain c where c: "cached d ((fst c)[v := (fst c ! v)\<lparr>b_block := blk\<rparr>], snd c) s" "coherent c" "v < 8"
    using assms unfolding editing_def by blast
  then have "v < length (fst c)" by (simp add: coherent_def shaped_def)
  with c(1) show ?thesis unfolding cached_def
    by (intro exI [of _ "(fst c)[v := (fst c ! v)\<lparr>b_block := blk\<rparr>]"]) simp
qed

lemma edit_read:
  assumes "editing d B b v blk s" "off + n \<le> 1024"
  shows "rd_bytes (vmem s) (buf_block v s + of_nat off) n = Inr (take n (drop off blk))"
proof -
  obtain bfs where "holds_buffers bfs s" "b_block (bfs ! v) = blk" using editing_holds [OF assms(1)] by blast
  moreover have "v < 8" using assms(1) by (simp add: editing_def)
  ultimately show ?thesis using block_read assms(2) by blast
qed

lemma edit_store:
  assumes "editing d B b v blk s" "cs \<noteq> []" "off + length cs \<le> 1024"
  shows "\<exists>s'. store_bytes (buf_block v s + of_nat off) cs s = Inr s' \<and> editing d B b v (overwrite off cs blk) s' \<and>
    buf_block v s' = buf_block v s \<and> only_cache s s'"
proof -
  obtain c where e: "v < 8" "block_exists b" "length blk = 1024" "most_recent_buffer s = of_nat v"
    and c: "cached d ((fst c)[v := (fst c ! v)\<lparr>b_block := blk\<rparr>], snd c) s" "coherent c"
      "b_valid (fst c ! v) \<noteq> 0" "b_num (fst c ! v) = b"
    and B: "\<forall>m. block_exists m \<longrightarrow> length (B m) = 1024 \<and> payload (contents c m) = payload (B m)"
    using assms(1) unfolding editing_def by blast
  let ?bfs = "(fst c)[v := (fst c ! v)\<lparr>b_block := blk\<rparr>]"
  let ?s = "s\<lparr>vmem := mem_upd (vmem s) (buf_block v s + of_nat off) cs\<rparr>"
  have hb: "holds_buffers ?bfs s" using c(1) by (simp add: cached_def)
  have len: "length (fst c) = 8" using c(2) by (simp add: coherent_def shaped_def)
  note w = block_write [OF hb e(1) assms(2,3)]
  have "store_bytes (buf_block v s + of_nat off) cs s = Inr ?s" using w(1) assms(3) by (simp add: store_bytes_mapped)
  moreover have "cached d ((fst c)[v := (fst c ! v)\<lparr>b_block := overwrite off cs blk\<rparr>], snd c) ?s"
    using w(3) c(1) e(1) len by (simp add: cached_def)
  then have "editing d B b v (overwrite off cs blk) ?s"
    unfolding editing_def using e c B assms(3) by (intro conjI exI [of _ c]) simp_all
  ultimately show ?thesis using only_cache_vmem [OF w(2)] by auto
qed

lemma edit_update:
  assumes "editing d B b v blk s" "length x = 1024" "payload blk = payload x"
  shows "\<exists>s'. block_update s = Inr s' \<and> serves d (B(b := x)) s' \<and> only_cache s s'"
proof -
  obtain c where e: "v < 8" "block_exists b" "length blk = 1024" "most_recent_buffer s = of_nat v"
    and c: "cached d ((fst c)[v := (fst c ! v)\<lparr>b_block := blk\<rparr>], snd c) s" "coherent c"
      "b_valid (fst c ! v) \<noteq> 0" "b_num (fst c ! v) = b"
    and B: "\<forall>m. block_exists m \<longrightarrow> length (B m) = 1024 \<and> payload (contents c m) = payload (B m)"
    using assms(1) unfolding editing_def by blast
  let ?b = "(fst c ! v)\<lparr>b_block := blk, b_dirty := 1\<rparr>"
  have len: "length (fst c) = 8" using c(2) by (simp add: coherent_def shaped_def)
  obtain s' where s': "block_update s = Inr s'" "cached d ((fst c)[v := ?b], snd c) s'" "only_cache s s'"
    using block_update_refines [OF c(1) e(4,1)] c(3) e(1) len by auto
  note u = buffer_update_coherent [OF c(2) e(1) c(3), of ?b]
  have "coherent ((fst c)[v := ?b], snd c)" by (rule u(1)) (use c(3) e(3) in simp_all)
  moreover have "contents ((fst c)[v := ?b], snd c) m = (if m = b then blk else contents c m)" for m
    using u(2) [of m] c(3,4) e(3) by simp
  ultimately have "serves d (B(b := x)) s'"
    unfolding serves_def using s'(2) B assms(2,3) by (intro exI [of _ "((fst c)[v := ?b], snd c)"]) simp
  then show ?thesis using s'(1,3) by blast
qed

lemma serve_write:
  assumes "drive_answers dev n d" "uart_answers dev SERIAL_COM1" "serves d B s"
    and b: "block_exists b" "cs \<noteq> []" "off + length cs \<le> 1024"
  shows "\<exists>s'. serve dev n (Write_block b off cs) s = Inr ([], s') \<and>
    serves d (B(b := overwrite off cs (B b))) s' \<and> only_cache s s'"
proof -
  obtain s1 v blk where g: "block_get dev n b s = Inr (buf_block v s1, s1)" "editing d B b v blk s1"
    "payload blk = payload (B b)" "only_cache s s1" using edit_get [OF assms(1-3) b(1)] by blast
  obtain s2 where s2: "store_bytes (buf_block v s1 + of_nat off) cs s1 = Inr s2"
    "editing d B b v (overwrite off cs blk) s2" "only_cache s1 s2" using edit_store [OF g(2) b(2,3)] by blast
  have "length blk = 1024" "length (B b) = 1024" using g(2) unfolding editing_def by blast+
  then obtain s' where "block_update s2 = Inr s'" "serves d (B(b := overwrite off cs (B b))) s'" "only_cache s2 s'"
    using edit_update [OF s2(2), of "overwrite off cs (B b)"] payload_overwrite [OF g(3)] b(3) by auto
  with g(1,4) s2(1,3) show ?thesis by (auto intro: only_cache_trans)
qed

lemma fold_write_back:
  assumes "coherent c" "\<forall>i \<in> set is. i < 8"
  shows "coherent (fold write_back is c) \<and>
    (\<forall>m. block_exists m \<longrightarrow> payload (contents (fold write_back is c) m) = payload (contents c m)) \<and>
    (\<forall>j. b_valid (fst (fold write_back is c) ! j) = b_valid (fst c ! j) \<and>
      (j \<in> set is \<and> b_valid (fst c ! j) \<noteq> 0 \<or> b_dirty (fst c ! j) = 0 \<longrightarrow>
         b_dirty (fst (fold write_back is c) ! j) = 0))"
  using assms
proof (induction "is" arbitrary: c)
  case (Cons i "is")
  note w = write_back_coherent [OF Cons.prems(1), of i]
  then show ?case using Cons.IH [of "write_back i c"] Cons.prems(2) by auto
qed simp

text \<open>After a flush every block is on the disk.\<close>

lemma serve_flush:
  assumes "drive_answers dev n d" "serves d B s"
  shows "\<exists>s'. block_flush dev n s = Inr s' \<and> serves d B s' \<and> only_cache s s' \<and> drive_idle d s' \<and>
    (\<forall>m. block_exists m \<longrightarrow> payload (disk_block (sector_on d s') m) = payload (B m))"
proof -
  obtain c where c: "cached d c s" "coherent c"
    and B: "\<And>m. block_exists m \<Longrightarrow> length (B m) = 1024 \<and> payload (contents c m) = payload (B m)"
    using assms(2) unfolding serves_def by blast
  let ?c = "fold write_back [0..<8] c"
  obtain s' where s': "block_flush dev n s = Inr s'" "cached d ?c s'" "only_cache s s'"
    using block_flush_refines [OF assms(1) c(1)] by blast
  have f: "coherent ?c" "\<And>m. block_exists m \<Longrightarrow> payload (contents ?c m) = payload (contents c m)"
    "\<And>j. b_valid (fst ?c ! j) = b_valid (fst c ! j)"
    "\<And>j. j < 8 \<Longrightarrow> b_valid (fst c ! j) \<noteq> 0 \<Longrightarrow> b_dirty (fst ?c ! j) = 0"
    using fold_write_back [OF c(2), of "[0..<8]"] by simp_all
  have pc: "payload (contents ?c m) = payload (B m)" if "block_exists m" for m using f(2) B that by simp
  have "contents ?c m = disk_block (snd ?c) m" for m
  proof (cases "lookup (fst ?c) m")
    case (Some i)
    then have i: "i < 8" "b_valid (fst ?c ! i) \<noteq> 0" "b_num (fst ?c ! i) = m" using lookup_Some by auto
    then have "b_dirty (fst ?c ! i) = 0" using f(4) [of i] f(3) [of i] by simp
    then show ?thesis using coherent_buffer(2) [OF f(1) i(1,2)] i(3) Some by (simp add: contents_def)
  qed (simp add: contents_def)
  moreover have "snd ?c = sector_on d s'" "drive_idle d s'" using s'(2) by (simp_all add: cached_def)
  moreover have "serves d B s'" unfolding serves_def using s'(2) f(1) pc B by (intro exI [of _ ?c]) simp
  ultimately show ?thesis using s'(1,3) pc by metis
qed

lemma serve_refines:
  assumes "drive_answers dev n d" "uart_answers dev SERIAL_COM1" "serves d B s" "request_ok r"
  shows "\<exists>s'. serve dev n r s = Inr (fst (answer r B), s') \<and> serves d (snd (answer r B)) s' \<and> only_cache s s'"
proof -
  obtain c where c: "cached d c s" "coherent c"
    and B: "\<And>m. block_exists m \<Longrightarrow> length (B m) = 1024 \<and> payload (contents c m) = payload (B m)"
    using assms(3) unfolding serves_def by blast
  show ?thesis
    using serve_read [OF assms(1,2) c B] serve_write [OF assms(1-3)] serve_flush [OF assms(1,3)] assms(4)
    by (cases r) auto
qed

lemma serve_all_refines:
  assumes "drive_answers dev n d" "uart_answers dev SERIAL_COM1"
  shows "serves d B s \<Longrightarrow> \<forall>r \<in> set reqs. request_ok r \<Longrightarrow>
    \<exists>s'. serve_all dev n reqs s = Inr (fst (answer_all reqs B), s') \<and> serves d (snd (answer_all reqs B)) s' \<and> only_cache s s'"
proof (induction reqs arbitrary: B s)
  case (Cons r reqs)
  obtain t where t: "serve dev n r s = Inr (fst (answer r B), t)" "serves d (snd (answer r B)) t" "only_cache s t"
    using serve_refines [OF assms Cons.prems(1), of r] Cons.prems(2) by auto
  obtain s' where "serve_all dev n reqs t = Inr (fst (answer_all reqs (snd (answer r B))), s')"
    "serves d (snd (answer_all reqs (snd (answer r B)))) s'" "only_cache t s'"
    using Cons.IH [OF t(2)] Cons.prems(2) by auto
  with t show ?case by (auto simp: split_def Let_def intro: only_cache_trans)
qed simp

section \<open>Initialisation\<close>

definition blank_buffer :: buffer where
  "blank_buffer = \<lparr>b_num = 0, b_dirty = 0, b_valid = 0, b_pad = [0, 0], b_used = 0, b_block = replicate 1024 0\<rparr>"

lemma bytes_of_word_0 [simp]: "bytes_of_word n 0 = replicate n 0"
  by (induction n) simp_all

lemma blank_buffer_bytes: "buffer_bytes blank_buffer = replicate 1040 0"
proof -
  have "[0, 0] = replicate 2 (0 :: u8)" by (simp add: numeral_2_eq_2)
  then show ?thesis by (simp only: buffer_bytes_def blank_buffer_def buffer.select_convs ucast_0 bytes_of_word_0)
      (simp flip: replicate_add)
qed

lemma block_init_holds:
  assumes "mapped (vmem s) (buffers s) 8320" "unat (buffers s) + 8320 \<le> 2 ^ 64"
  shows "holds_buffers (replicate 8 blank_buffer) (s\<lparr>vmem := mem_upd (vmem s) (buffers s) (replicate 8320 0)\<rparr>)"
proof -
  let ?m = "mem_upd (vmem s) (buffers s) (replicate 8320 0)"
  have "rd_bytes ?m (buffers s) 8320 = Inr (replicate 8320 0)" by (rule rd_bytes_upd_same) simp_all
  then have "rd_bytes ?m (buffers s + of_nat (1040 * i)) 1040 = Inr (replicate 1040 0)" if "i < 8" for i
    using rd_bytes_part [of ?m "buffers s" 8320 "replicate 8320 0" "1040 * i" 1040] that by (simp add: min_def)
  then show ?thesis
    using assms(2) by (simp add: holds_buffers_def buf_addr_def blank_buffer_bytes)
      (simp add: buffer_shape_def blank_buffer_def)
qed

lemma ata_init_drive:
  assumes "uart_answers dev SERIAL_COM1" "0 < n"
  shows "\<exists>h. ata_init dev n s = Inr (s\<lparr>ports := h\<rparr>) \<and> drive_after h d = drive_after (ports s) d"
proof -
  obtain h where h: "serial_puts dev n SERIAL_COM1 (str ''ATA: Initializing PIO driver...\<newline>'') s = Inr (s\<lparr>ports := h\<rparr>)"
    "drive_after h d = drive_after (ports s) d" using serial_puts_drive [OF assms] by blast
  let ?t = "s\<lparr>ports := In ATA_PRIMARY_COMM_STAT # h\<rparr>"
  have "\<exists>h'. serial_puts dev n SERIAL_COM1 cs ?t = Inr (s\<lparr>ports := h'\<rparr>) \<and> drive_after h' d = drive_after (ports s) d" for cs
    using serial_puts_drive [OF assms, of cs ?t d] h(2) by auto
  then show ?thesis using h(1) by (simp add: ata_init_def inb_def Let_def)
qed

lemma block_init_serves:
  assumes "drive_answers dev n d" "uart_answers dev SERIAL_COM1" "drive_idle d s"
    "mapped (vmem s) (buffers s) 8320" "unat (buffers s) + 8320 \<le> 2 ^ 64"
  shows "\<exists>s'. block_init dev n s = Inr s' \<and> serves d (disk_block (sector_on d s)) s' \<and> only_cache s s'"
proof -
  note n = drive_answers_bound [OF assms(1)]
  let ?m = "mem_upd (vmem s) (buffers s) (replicate 8320 0)"
  let ?c = "(replicate 8 blank_buffer, sector_on d s)"
  obtain h where h: "ata_init dev n (s\<lparr>vmem := ?m\<rparr>) = Inr (s\<lparr>vmem := ?m, ports := h\<rparr>)"
    "drive_after h d = drive_after (ports s) d" using ata_init_drive [OF assms(2) n, of "s\<lparr>vmem := ?m\<rparr>" d] by auto
  let ?t = "s\<lparr>vmem := ?m, ports := h\<rparr>"
  have t: "cached d ?c ?t"
    using block_init_holds [OF assms(4,5)] assms(3) h(2) by (simp add: cached_def drive_idle_def sector_on_def)
  obtain s' where s': "serial_puts dev n SERIAL_COM1 (str ''FS: Block cache initialized\<newline>'') ?t = Inr s'"
    "cached d ?c s'" "only_cache ?t s'" using log_line [OF assms(2) n t] by blast
  have "coherent ?c"
    using cached_shaped [OF t] unfolding coherent_def by (simp add: blank_buffer_def)
  moreover have "contents ?c m = disk_block (sector_on d s) m" for m
    by (subst contents_disk) (simp_all add: blank_buffer_def)
  moreover have "length (disk_block (sector_on d s) m) = 1024" for m
    using length_disk_block [OF t] by simp
  ultimately have "serves d (disk_block (sector_on d s)) s'"
    unfolding serves_def using s'(2) by (intro exI [of _ ?c]) simp
  moreover have "outside_same (buffers s) (vmem s) ?m"
    by (auto simp: outside_same_def mem_upd_def)
  then have "only_cache s s'" using only_cache_trans [OF only_cache_upd s'(3)] by simp
  moreover have "block_init dev n s = Inr s'"
    using memset_mapped [of s "buffers s" 8320 0] assms(4) h(1) s'(1) by (simp add: block_init_def NUM_BUFFERS_def)
  ultimately show ?thesis by blast
qed

lemma boot_ports [simp]: "ports (stacks_boot m) = []"
  by (simp add: stacks_boot_def kbd.defs kbd_boot_def timer.defs timer_boot_def vga.defs vga_boot_def)

lemma boot_drive_idle: "drive_idle blank_drive (stacks_boot m)"
  by (simp add: drive_idle_def drive_after_def blank_drive_def)

lemma boot_buffers:
  "mapped (vmem (stacks_boot (\<lambda>a. Some b))) (buffers (stacks_boot (\<lambda>a. Some b))) 8320"
  "unat (buffers (stacks_boot (\<lambda>a. Some b))) + 8320 \<le> 2 ^ 64"
  by (simp_all add: stacks_boot_def kbd.defs kbd_boot_def mapped_def KERNEL_VIRT_BASE_def)

section \<open>Properties\<close>

text \<open>The buffer that \<open>block_get\<close> gives up is the first one not in use and, when all are in use,
  the first of those used least recently, also when the tick counter has reached its maximum.\<close>

theorem find_oldest_lru:
  assumes "holds_buffers bfs s"
  shows "\<exists>v < 8. find_oldest [0..<NUM_BUFFERS] 0 0xFFFFFFFFFFFFFFFF s = Inr v \<and>
    (if \<exists>i < 8. b_valid (bfs ! i) = 0 then b_valid (bfs ! v) = 0 \<and> (\<forall>i < v. b_valid (bfs ! i) \<noteq> 0)
     else (\<forall>i < 8. b_used (bfs ! v) \<le> b_used (bfs ! i)) \<and> (\<forall>i < v. b_used (bfs ! v) < b_used (bfs ! i)))"
  using find_oldest_victim [OF assms] victim_spec [of bfs] by (auto simp only: replaced_first_def)

theorem find_oldest_lru_witness:
  "find_oldest [0..<NUM_BUFFERS] 0 0xFFFFFFFFFFFFFFFF
     ((stacks_boot (\<lambda>a. Some 1))\<lparr>vmem := mem_upd (vmem (stacks_boot (\<lambda>a. Some 1)))
        (buffers (stacks_boot (\<lambda>a. Some 1))) (replicate 8320 0)\<rparr>) = Inr 0"
  using find_oldest_lru [OF block_init_holds [OF boot_buffers [of 1]]]
  by (auto simp: blank_buffer_def split: if_splits)

text \<open>C5. The cache is transparent.  From \<open>block_init\<close> on, any sequence of block reads, block
  writes (get, store, mark) and flushes returns exactly what a plain array of blocks that starts
  with the contents of the disk returns, whatever buffers are hit, replaced or written back on
  the way; and memory outside the buffers is never written.  The blocks are those below
  \<open>2 ^ 27 - 512\<close>, whose sectors have numbers of 28 bits; what is compared is the block without the
  CRC field, which the cache itself computes.\<close>

theorem cache_transparent:
  assumes "drive_answers dev n d" "uart_answers dev SERIAL_COM1" "drive_idle d s"
    "mapped (vmem s) (buffers s) 8320" "unat (buffers s) + 8320 \<le> 2 ^ 64" "\<forall>r \<in> set reqs. request_ok r"
  shows "\<exists>t u. block_init dev n s = Inr t \<and>
    serve_all dev n reqs t = Inr (fst (answer_all reqs (disk_block (sector_on d s))), u) \<and> only_cache s u"
proof -
  obtain t where t: "block_init dev n s = Inr t" "serves d (disk_block (sector_on d s)) t" "only_cache s t"
    using block_init_serves [OF assms(1-5)] by blast
  then show ?thesis using serve_all_refines [OF assms(1,2) t(2) assms(6)] only_cache_trans by blast
qed

theorem cache_transparent_witness:
  "\<exists>t u. block_init (drive_device blank_drive) 1 (stacks_boot (\<lambda>a. Some 0)) = Inr t \<and>
     serve_all (drive_device blank_drive) 1
       [Write_block 7 16 [1, 2, 3], Flush, Write_block 7 17 [9], Read_block 7] t =
     Inr ([[], [], [], replicate 12 0 @ [1, 9, 3] @ replicate 1005 0], u)"
proof -
  have sec: "sector_on blank_drive (stacks_boot m) = (\<lambda>l. replicate 512 0)" for m
    by (simp add: sector_on_def drive_after_def blank_drive_def)
  have blk: "disk_block (sector_on blank_drive (stacks_boot m)) 7 = replicate 1024 0" for m
    by (simp add: disk_block_def sec flip: replicate_add)
  have r: "replicate 1024 (0 :: u8) = replicate 16 0 @ 0 # 0 # 0 # replicate 1005 0"
    by (simp flip: replicate_Suc replicate_add)
  have "payload (overwrite 17 [9] (overwrite 16 [1, 2, 3] (replicate 1024 0))) = replicate 12 0 @ [1, 9, 3] @ replicate 1005 0"
    unfolding r by (simp add: overwrite_def payload_def min_def)
  then show ?thesis
    using cache_transparent [OF drive_device_answers drive_device_uart boot_drive_idle boot_buffers,
        of 1 "[Write_block 7 16 [1, 2, 3], Flush, Write_block 7 17 [9], Read_block 7]" 0]
    by (auto simp: blk block_exists_def)
qed

text \<open>C14. Nothing is lost.  After any such sequence \<open>block_flush\<close> leaves on the disk, for every block
  below \<open>2 ^ 27 - 512\<close>, what the plain array holds, the CRC field aside: a machine that starts again from
  that disk sees every write.\<close>

theorem flush_persists:
  assumes "drive_answers dev n d" "uart_answers dev SERIAL_COM1" "drive_idle d s"
    "mapped (vmem s) (buffers s) 8320" "unat (buffers s) + 8320 \<le> 2 ^ 64" "\<forall>r \<in> set reqs. request_ok r"
  shows "\<exists>t xs u v. block_init dev n s = Inr t \<and> serve_all dev n reqs t = Inr (xs, u) \<and> block_flush dev n u = Inr v \<and>
    (\<forall>m. block_exists m \<longrightarrow>
       payload (disk_block (sector_on d v) m) = payload (snd (answer_all reqs (disk_block (sector_on d s))) m))"
proof -
  let ?B = "disk_block (sector_on d s)"
  obtain t where t: "block_init dev n s = Inr t" "serves d ?B t" using block_init_serves [OF assms(1-5)] by blast
  obtain u where u: "serve_all dev n reqs t = Inr (fst (answer_all reqs ?B), u)" "serves d (snd (answer_all reqs ?B)) u"
    using serve_all_refines [OF assms(1,2) t(2) assms(6)] by blast
  with t(1) serve_flush [OF assms(1) u(2)] show ?thesis by blast
qed

theorem flush_persists_witness:
  "\<exists>t xs u v. block_init (drive_device blank_drive) 1 (stacks_boot (\<lambda>a. Some 0)) = Inr t \<and>
     serve_all (drive_device blank_drive) 1 [Write_block 7 16 [1, 2, 3]] t = Inr (xs, u) \<and>
     block_flush (drive_device blank_drive) 1 u = Inr v \<and>
     take 3 (drop 12 (payload (disk_block (sector_on blank_drive v) 7))) = [1, 2, 3]"
proof -
  let ?reqs = "[Write_block 7 16 [1, 2, 3]]" and ?s = "stacks_boot (\<lambda>a. Some 0)"
  have ok: "\<forall>r \<in> set ?reqs. request_ok r" by (simp add: block_exists_def)
  have len: "length (disk_block (sector_on blank_drive ?s) 7) = 1024"
    using boot_drive_idle by (auto simp: drive_idle_def sector_on_def disk_block_def)
  then have "take 3 (drop 12 (payload (overwrite 16 [1, 2, 3] (disk_block (sector_on blank_drive ?s) 7)))) = [1, 2, 3]"
    by (simp add: overwrite_def payload_def)
  then show ?thesis
    using flush_persists [OF drive_device_answers drive_device_uart boot_drive_idle boot_buffers ok, of 1]
    by (force simp: block_exists_def)
qed

end
