(* ===== verification/Volume.thy ===== *)
theory Volume
  imports Blocks
begin

text \<open>
  \<open>fs/filesystem.c\<close> on top of the block cache: formatting and mounting the volume, and the
  allocation of blocks from its bitmap, as functions of the plain array of blocks that the cache
  implements.
\<close>

unbundle bit_operations_syntax

section \<open>Editing a block by its payload\<close>

definition edits :: "drive \<Rightarrow> (u32 \<Rightarrow> u8 list) \<Rightarrow> u32 \<Rightarrow> nat \<Rightarrow> u8 list \<Rightarrow> 'a block_cache_scheme \<Rightarrow> bool" where
  "edits d B b v x s \<longleftrightarrow> (\<exists>blk. editing d B b v blk s \<and> length blk = 1024 \<and> length x = 1024 \<and> payload blk = payload x)"

lemma serves_length: "serves d B s \<Longrightarrow> block_exists m \<Longrightarrow> length (B m) = 1024"
  unfolding serves_def by blast

lemma edits_get:
  assumes "drive_answers dev n d" "uart_answers dev SERIAL_COM1" "serves d B s" "block_exists b"
  shows "\<exists>s' v. block_get dev n b s = Inr (buf_block v s', s') \<and> edits d B b v (B b) s' \<and> serves d B s' \<and>
    only_cache s s'"
proof -
  obtain s' v blk where g: "block_get dev n b s = Inr (buf_block v s', s')" "editing d B b v blk s'"
    "payload blk = payload (B b)" "serves d B s'" "only_cache s s'" using edit_get [OF assms] by blast
  moreover have "length blk = 1024" using g(2) by (simp add: editing_def)
  ultimately show ?thesis unfolding edits_def using serves_length [OF assms(3,4)] by blast
qed

lemma edits_store:
  assumes "edits d B b v x s" "cs \<noteq> []" "off + length cs \<le> 1024"
  shows "\<exists>s'. store_bytes (buf_block v s + of_nat off) cs s = Inr s' \<and> edits d B b v (overwrite off cs x) s' \<and>
    buf_block v s' = buf_block v s \<and> only_cache s s'"
proof -
  obtain blk where e: "editing d B b v blk s" "length blk = 1024" "length x = 1024" "payload blk = payload x"
    using assms(1) unfolding edits_def by blast
  obtain s' where s': "store_bytes (buf_block v s + of_nat off) cs s = Inr s'" "editing d B b v (overwrite off cs blk) s'"
    "buf_block v s' = buf_block v s" "only_cache s s'" using edit_store [OF e(1) assms(2,3)] by blast
  have "edits d B b v (overwrite off cs x) s'"
    unfolding edits_def using s'(2) e payload_overwrite [OF e(4,2,3) assms(3)] assms(3)
    by (intro exI [of _ "overwrite off cs blk"]) simp
  with s' show ?thesis by blast
qed

lemma edits_update:
  assumes "edits d B b v x s"
  shows "\<exists>s'. block_update s = Inr s' \<and> serves d (B(b := x)) s' \<and> only_cache s s'"
  using assms edit_update unfolding edits_def by blast

lemma edits_load8:
  assumes "edits d B b v x s" "16 \<le> off" "off < 1024"
  shows "load8 (buf_block v s + of_nat off) s = Inr (x ! off)"
proof -
  obtain blk where e: "editing d B b v blk s" "length blk = 1024" "length x = 1024" "payload blk = payload x"
    using assms(1) unfolding edits_def by blast
  have "rd_bytes (vmem s) (buf_block v s + of_nat off) 1 = Inr (take 1 (drop off blk))"
    using edit_read [OF e(1), of off 1] assms(3) by simp
  moreover have "take 1 (drop off blk) = [x ! off]"
    using e assms(2,3) by (simp add: payload_eq_iff take_Suc_conv_app_nth)
  ultimately show ?thesis by (simp add: load8_def rbind_eq_Inr)
qed

lemma edits_load_type:
  assumes "edits d B b v x s"
  shows "load32 (blk_type (buf_block v s)) s = Inr (ucast (word_of_bytes (take 4 x)))"
proof -
  obtain blk where e: "editing d B b v blk s" "payload blk = payload x" "length blk = 1024" "length x = 1024"
    using assms unfolding edits_def by blast
  have "take 12 blk = take 12 x" using e(2-4) by (simp add: payload_def)
  then have "take 4 (take 12 blk) = take 4 (take 12 x)" by (rule arg_cong)
  then have "take 4 blk = take 4 x" by simp
  then show ?thesis using edit_read [OF e(1), of 0 4] by (simp add: load32_def rd32_def blk_type_def)
qed

text \<open>The stores of the file system in terms of byte lists.\<close>

lemma store32_bytes: "store32 a v s = store_bytes a (bytes_of_word 4 (ucast v)) s"
  by (simp add: store32_def store_bytes_def wr32_def)

lemma store8_bytes: "store8 a b s = store_bytes a [b] s"
  by (simp add: store8_def store_bytes_def)

lemma serves_log:
  assumes "drive_answers dev n d" "uart_answers dev SERIAL_COM1" "serves d B s"
  shows "\<exists>s'. serial_puts dev n SERIAL_COM1 cs s = Inr s' \<and> serves d B s' \<and> only_cache s s' \<and>
    sector_on d s' = sector_on d s"
proof -
  obtain c where c: "cached d c s" "coherent c"
    "\<forall>m. block_exists m \<longrightarrow> length (B m) = 1024 \<and> payload (contents c m) = payload (B m)"
    using assms(3) unfolding serves_def by blast
  obtain s' where s': "serial_puts dev n SERIAL_COM1 cs s = Inr s'" "cached d c s'" "only_cache s s'"
    using log_line [OF assms(2) drive_answers_bound [OF assms(1)] c(1)] by blast
  then have "serves d B s'" unfolding serves_def using c(2,3) by blast
  moreover have "sector_on d s' = sector_on d s" using c(1) s'(2) by (simp add: cached_def)
  ultimately show ?thesis using s' by blast
qed

section \<open>Allocation\<close>

definition taken :: "u8 list \<Rightarrow> nat \<Rightarrow> bool" where
  "taken bitmap k \<longleftrightarrow> bit (bitmap ! (k div 8)) (k mod 8)"

lemma free_bit_find: "free_bit ks b = List.find (\<lambda>k. \<not> bit b k) ks"
  by (induction ks) (simp_all add: bit_iff_and_push_bit_not_eq_0)

lemma free_bit_Some: "free_bit [0..<8] b = Some k \<longleftrightarrow> k < 8 \<and> \<not> bit b k \<and> (\<forall>j < k. bit b j)"
  by (auto simp: free_bit_find find_Some_iff)

lemma full_byte: "b = (0xFF :: u8) \<longleftrightarrow> (\<forall>k < 8. bit b k)"
proof -
  have "(0xFF :: u8) = mask 8" by (simp add: mask_eq_exp_minus_1)
  then show ?thesis by (auto simp: bit_eq_iff bit_mask_iff)
qed

lemma free_bit_None: "(if b \<noteq> 0xFF then free_bit [0..<8] b else None) = None \<longleftrightarrow> (\<forall>k < 8. bit b k)"
  using full_byte [of b] by (auto simp: free_bit_find find_None_iff)

definition mark_taken :: "nat \<Rightarrow> u8 list \<Rightarrow> u8 list" where
  "mark_taken k blk = overwrite (16 + k div 8) [blk ! (16 + k div 8) OR push_bit (k mod 8) 1] blk"

lemma alloc_from_lowest:
  assumes "edits d B b v x s" "i \<le> 1008" "\<forall>j < 8 * i. taken (drop 16 x) j"
  shows "if \<forall>k < 8064. taken (drop 16 x) k
    then alloc_from [i..<BLOCK_DATA_SIZE] (blk_data (buf_block v s)) s = Inl (Panic (str ''FS: Disk Full!''))
    else \<exists>k < 8064. \<not> taken (drop 16 x) k \<and> (\<forall>j < k. taken (drop 16 x) j) \<and>
      (\<exists>s'. alloc_from [i..<BLOCK_DATA_SIZE] (blk_data (buf_block v s)) s = Inr (of_nat k, s') \<and>
         serves d (B(b := mark_taken k x)) s' \<and> only_cache s s')"
  using assms(2,3)
proof (induction "1008 - i" arbitrary: i)
  case 0
  then have "i = 1008" by simp
  with 0 show ?case by (simp add: BLOCK_DATA_SIZE_def)
next
  case (Suc m)
  let ?bm = "drop 16 x" and ?data = "blk_data (buf_block v s)"
  let ?b = "x ! (16 + i)"
  have i: "i < 1008" "m = 1008 - Suc i" using Suc.hyps(2) by simp_all
  have len: "length x = 1024" using assms(1) unfolding edits_def by blast
  have u: "[i..<BLOCK_DATA_SIZE] = i # [Suc i..<BLOCK_DATA_SIZE]"
    using i(1) by (intro upt_conv_Cons) (simp add: BLOCK_DATA_SIZE_def)
  have a: "?data + of_nat i = buf_block v s + of_nat (16 + i)" by (simp add: blk_data_def)
  have ld: "load8 (?data + of_nat i) s = Inr ?b" unfolding a by (rule edits_load8 [OF assms(1)]) (use i in simp_all)
  have tk: "taken ?bm (8 * i + k) \<longleftrightarrow> bit ?b k" if "k < 8" for k
    using that i(1) len by (simp add: taken_def)
  show ?case
  proof (cases "if ?b \<noteq> 0xFF then free_bit [0..<8] ?b else None")
    case None
    have full: "\<forall>k < 8. bit ?b k" using None unfolding free_bit_None .
    have "\<forall>j < 8 * Suc i. taken ?bm j"
    proof (intro allI impI)
      fix j assume j: "j < 8 * Suc i"
      show "taken ?bm j"
      proof (cases "j < 8 * i")
        case False
        then have "j = 8 * i + (j - 8 * i)" "j - 8 * i < 8" using j by simp_all
        then show ?thesis using tk full by metis
      qed (use Suc.prems(2) in blast)
    qed
    moreover have "alloc_from [i..<BLOCK_DATA_SIZE] ?data s = alloc_from [Suc i..<BLOCK_DATA_SIZE] ?data s"
      using None by (simp add: u ld)
    ultimately show ?thesis using Suc.hyps(1) [OF i(2)] i(1) by simp
  next
    case (Some k)
    then have k: "k < 8" "\<not> bit ?b k" "\<forall>j < k. bit ?b j" by (auto simp: free_bit_Some split: if_splits)
    let ?k = "8 * i + k"
    have kk: "?k < 8064" "?k div 8 = i" "?k mod 8 = k" using i(1) k(1) by simp_all
    have nt: "\<not> taken ?bm ?k" using tk [OF k(1)] k(2) by simp
    have low: "\<forall>j < ?k. taken ?bm j"
    proof (intro allI impI)
      fix j assume j: "j < ?k"
      show "taken ?bm j"
      proof (cases "j < 8 * i")
        case False
        then have "j = 8 * i + (j - 8 * i)" "j - 8 * i < k" using j by simp_all
        then show ?thesis using tk k(1,3) by (metis less_trans)
      qed (use Suc.prems(2) in blast)
    qed
    have mk: "mark_taken ?k x = overwrite (16 + i) [?b OR push_bit k 1] x" unfolding mark_taken_def kk(2,3) ..
    obtain s1 where s1: "store_bytes (buf_block v s + of_nat (16 + i)) [?b OR push_bit k 1] s = Inr s1"
      "edits d B b v (mark_taken ?k x) s1" "only_cache s s1"
      using edits_store [OF assms(1), of "[?b OR push_bit k 1]" "16 + i"] i(1) unfolding mk by auto
    obtain s2 where s2: "block_update s1 = Inr s2" "serves d (B(b := mark_taken ?k x)) s2" "only_cache s1 s2"
      using edits_update [OF s1(2)] by blast
    have st: "store8 (?data + of_nat i) (?b OR push_bit k 1) s = Inr s1" unfolding a store8_bytes by (rule s1(1))
    have "alloc_from [i..<BLOCK_DATA_SIZE] ?data s = Inr (of_nat ?k, s2)"
      using Some s2(1) by (simp add: u ld st mult.commute [of 8] del: push_bit_of_1)
    moreover have "only_cache s s2" using s1(3) s2(3) by (rule only_cache_trans)
    ultimately show ?thesis using nt low kk(1) s2(2) by (auto intro!: exI [of _ ?k])
  qed
qed

section \<open>Formatting\<close>

definition formatted_superblock :: "u8 list \<Rightarrow> u8 list" where
  "formatted_superblock x = overwrite 16 (bytes_of_word 4 10000)
     (overwrite 0 (bytes_of_word 4 (ucast FS_MAGIC)) (overwrite 16 (replicate 1008 0) x))"

definition formatted_bitmap :: "u8 list \<Rightarrow> u8 list" where
  "formatted_bitmap x = overwrite 16 [0x1F] (overwrite 16 (replicate 1008 0) x)"

definition formatted :: "(u32 \<Rightarrow> u8 list) \<Rightarrow> u32 \<Rightarrow> u8 list" where
  "formatted B = B(1 := formatted_superblock (B 1), 2 := formatted_bitmap (B 2))"

lemma fs_format_refines:
  assumes "drive_answers dev n d" "uart_answers dev SERIAL_COM1" "serves d B s"
  shows "\<exists>s'. fs_format dev n s = Inr s' \<and> serves d (formatted B) s' \<and> only_cache s s' \<and>
    (\<forall>m. block_exists m \<longrightarrow> payload (disk_block (sector_on d s') m) = payload (formatted B m))"
proof -
  have ex: "block_exists 1" "block_exists 2" by (simp_all add: block_exists_def)
  obtain s0 where s0: "serial_puts dev n SERIAL_COM1 (str ''FS: Formatting empty disk...\<newline>'') s = Inr s0"
    "serves d B s0" "only_cache s s0" using serves_log [OF assms] by blast
  obtain s1 v where s1: "block_get dev n 1 s0 = Inr (buf_block v s1, s1)" "edits d B 1 v (B 1) s1" "only_cache s0 s1"
    using edits_get [OF assms(1,2) s0(2) ex(1)] by blast
  let ?p = "buf_block v s1"
  obtain s2 where s2: "store_bytes (?p + 16) (replicate 1008 0) s1 = Inr s2"
    "edits d B 1 v (overwrite 16 (replicate 1008 0) (B 1)) s2" "buf_block v s2 = ?p" "only_cache s1 s2"
    using edits_store [OF s1(2), of "replicate 1008 0" 16] by auto
  obtain s3 where s3: "store32 ?p FS_MAGIC s2 = Inr s3"
    "edits d B 1 v (overwrite 0 (bytes_of_word 4 (ucast FS_MAGIC)) (overwrite 16 (replicate 1008 0) (B 1))) s3"
    "buf_block v s3 = ?p" "only_cache s2 s3"
    using edits_store [OF s2(2), of "bytes_of_word 4 (ucast FS_MAGIC)" 0] s2(3) by (auto simp: store32_bytes)
  obtain s4 where s4: "store32 (?p + 16) 10000 s3 = Inr s4" "edits d B 1 v (formatted_superblock (B 1)) s4" "only_cache s3 s4"
    using edits_store [OF s3(2), of "bytes_of_word 4 10000" 16] s3(3) by (auto simp: store32_bytes formatted_superblock_def)
  obtain s5 where s5: "block_update s4 = Inr s5" "serves d (B(1 := formatted_superblock (B 1))) s5" "only_cache s4 s5"
    using edits_update [OF s4(2)] by blast
  let ?B = "B(1 := formatted_superblock (B 1))"
  obtain s6 w where s6: "block_get dev n 2 s5 = Inr (buf_block w s6, s6)" "edits d ?B 2 w (B 2) s6" "only_cache s5 s6"
    using edits_get [OF assms(1,2) s5(2) ex(2)] by auto
  let ?q = "buf_block w s6"
  obtain s7 where s7: "store_bytes (?q + 16) (replicate 1008 0) s6 = Inr s7"
    "edits d ?B 2 w (overwrite 16 (replicate 1008 0) (B 2)) s7" "buf_block w s7 = ?q" "only_cache s6 s7"
    using edits_store [OF s6(2), of "replicate 1008 0" 16] by auto
  obtain s8 where s8: "store8 (?q + 16) 0x1F s7 = Inr s8" "edits d ?B 2 w (formatted_bitmap (B 2)) s8" "only_cache s7 s8"
    using edits_store [OF s7(2), of "[0x1F]" 16] s7(3) by (auto simp: store8_bytes formatted_bitmap_def)
  obtain s9 where s9: "block_update s8 = Inr s9" "serves d (formatted B) s9" "only_cache s8 s9"
    using edits_update [OF s8(2)] by (auto simp: formatted_def)
  obtain s10 where s10: "block_flush dev n s9 = Inr s10" "serves d (formatted B) s10" "only_cache s9 s10"
    "\<forall>m. block_exists m \<longrightarrow> payload (disk_block (sector_on d s10) m) = payload (formatted B m)"
    using serve_flush [OF assms(1) s9(2)] by blast
  obtain s11 where s11: "serial_puts dev n SERIAL_COM1 (str ''FS: Format complete.\<newline>'') s10 = Inr s11"
    "serves d (formatted B) s11" "only_cache s10 s11" "sector_on d s11 = sector_on d s10"
    using serves_log [OF assms(1,2) s10(2)] by blast
  have "fs_format dev n s = Inr s11"
    using s0(1) s1(1) s2(1) s3(1) s4(1) s5(1) s6(1) s7(1) s8(1) s9(1) s10(1) s11(1)
    by (simp add: fs_format_def memset_def BLOCK_DATA_SIZE_def blk_data_def blk_type_def)
  moreover have "only_cache s s11"
  proof -
    note s0(3) also note s1(3) also note s2(4) also note s3(4) also note s4(3) also note s5(3) also note s6(3)
    also note s7(4) also note s8(3) also note s9(3) also note s10(3) also note s11(3)
    finally show ?thesis .
  qed
  ultimately show ?thesis using s10(4) s11(2,4) by auto
qed

text \<open>Mounting: a volume with the magic number is left as it is, any other one is formatted.\<close>

lemma fs_init_refines:
  assumes "drive_answers dev n d" "uart_answers dev SERIAL_COM1" "serves d B s"
  shows "\<exists>s'. fs_init dev n s = Inr s' \<and> only_cache s s' \<and>
    (if ucast (word_of_bytes (take 4 (B 1))) = FS_MAGIC then serves d B s'
     else serves d (formatted B) s' \<and>
       (\<forall>m. block_exists m \<longrightarrow> payload (disk_block (sector_on d s') m) = payload (formatted B m)))"
proof -
  have ex: "block_exists 1" by (simp add: block_exists_def)
  obtain s1 v where s1: "block_get dev n 1 s = Inr (buf_block v s1, s1)" "edits d B 1 v (B 1) s1"
    "serves d B s1" "only_cache s s1" using edits_get [OF assms ex] by blast
  note ty = edits_load_type [OF s1(2)]
  show ?thesis
  proof (cases "ucast (word_of_bytes (take 4 (B 1))) = FS_MAGIC")
    case True
    with serves_log [OF assms(1,2) s1(3)] s1(1,4) ty show ?thesis
      by (auto simp: fs_init_def intro: only_cache_trans)
  next
    case False
    with fs_format_refines [OF assms(1,2) s1(3)] s1(1,4) ty show ?thesis
      by (auto simp: fs_init_def intro: only_cache_trans)
  qed
qed

section \<open>Properties\<close>

text \<open>A fresh machine with a blank disk, as the state of the witnesses.\<close>

lemma boot_blocks: "sector_on blank_drive (stacks_boot m) = (\<lambda>l. replicate 512 0)"
  by (simp add: sector_on_def drive_after_def blank_drive_def)

lemma boot_serves:
  "\<exists>s. block_init (drive_device blank_drive) 1 (stacks_boot (\<lambda>a. Some 0)) = Inr s \<and>
     serves blank_drive (\<lambda>m. replicate 1024 0) s"
proof -
  have "disk_block (\<lambda>l. replicate 512 0) = (\<lambda>m. replicate 1024 0)"
    by (rule ext) (simp add: disk_block_def flip: replicate_add)
  then show ?thesis
    using block_init_serves [OF drive_device_answers drive_device_uart boot_drive_idle boot_buffers, of 1 0]
    unfolding boot_blocks by auto
qed

lemma blank_magic: "ucast (word_of_bytes (take 4 (replicate 1024 0))) \<noteq> FS_MAGIC"
proof -
  have "take 4 (replicate 1024 0) = [0, 0, 0, 0 :: u8]" by (simp add: numeral_eq_Suc min_def)
  then show ?thesis by (simp add: FS_MAGIC_def)
qed

lemma formatted_magic: "length (B 1) = 1024 \<Longrightarrow> take 4 (payload (formatted B 1)) = str ''FRTH''"
proof -
  have "bytes_of_word 4 (ucast FS_MAGIC) = str ''FRTH''" by code_simp
  moreover assume "length (B 1) = 1024"
  ultimately show ?thesis
    by (simp add: formatted_def formatted_superblock_def overwrite_def payload_def str_def)
qed

lemma mount_blank:
  "\<exists>s s'. block_init (drive_device blank_drive) 1 (stacks_boot (\<lambda>a. Some 0)) = Inr s \<and>
     fs_init (drive_device blank_drive) 1 s = Inr s' \<and> serves blank_drive (formatted (\<lambda>m. replicate 1024 0)) s'"
proof -
  obtain s where s: "block_init (drive_device blank_drive) 1 (stacks_boot (\<lambda>a. Some 0)) = Inr s"
    "serves blank_drive (\<lambda>m. replicate 1024 0) s" using boot_serves by blast
  then show ?thesis
    using fs_init_refines [OF drive_device_answers drive_device_uart s(2), of 1] blank_magic by auto
qed

text \<open>C29. Mounting.  \<open>fs_init\<close> leaves a volume whose superblock carries the magic number as it is, and
  formats any other: superblock and bitmap get their initial bytes, no other block changes, and
  the format has reached the disk when it returns.\<close>

theorem fs_init_formats:
  assumes "drive_answers dev n d" "uart_answers dev SERIAL_COM1" "serves d B s"
  shows "\<exists>s'. fs_init dev n s = Inr s' \<and> only_cache s s' \<and>
    (if ucast (word_of_bytes (take 4 (B 1))) = FS_MAGIC then serves d B s'
     else serves d (formatted B) s' \<and>
       (\<forall>m. block_exists m \<longrightarrow> payload (disk_block (sector_on d s') m) = payload (formatted B m)))"
  by (rule fs_init_refines [OF assms])

theorem fs_init_formats_witness:
  "\<exists>s s'. block_init (drive_device blank_drive) 1 (stacks_boot (\<lambda>a. Some 0)) = Inr s \<and>
     fs_init (drive_device blank_drive) 1 s = Inr s' \<and>
     take 4 (payload (disk_block (sector_on blank_drive s') 1)) = str ''FRTH''"
proof -
  let ?B = "\<lambda>m. replicate 1024 0 :: u8 list" and ?dev = "drive_device blank_drive"
  obtain s where s: "block_init ?dev 1 (stacks_boot (\<lambda>a. Some 0)) = Inr s" "serves blank_drive ?B s"
    using boot_serves by blast
  obtain s' where s': "fs_init ?dev 1 s = Inr s'"
    "\<forall>m. block_exists m \<longrightarrow> payload (disk_block (sector_on blank_drive s') m) = payload (formatted ?B m)"
    using fs_init_formats [OF drive_device_answers drive_device_uart s(2), of 1] blank_magic by auto
  have "payload (disk_block (sector_on blank_drive s') 1) = payload (formatted ?B 1)"
    using s'(2) by (simp add: block_exists_def)
  then show ?thesis using s(1) s'(1) formatted_magic by auto
qed

text \<open>C20. Allocation.  \<open>fs_alloc_block\<close> hands out the lowest block whose bit in the bitmap of block 2 is
  clear, sets that bit and nothing else, so the next call gives another block; when all 8064 bits
  are set it stops the machine with the panic message.\<close>

theorem fs_alloc_lowest:
  assumes "drive_answers dev n d" "uart_answers dev SERIAL_COM1" "serves d B s"
  shows "if \<forall>k < 8064. taken (drop 16 (B 2)) k
    then fs_alloc_block dev n s = Inl (Panic (str ''FS: Disk Full!''))
    else \<exists>k < 8064. \<not> taken (drop 16 (B 2)) k \<and> (\<forall>j < k. taken (drop 16 (B 2)) j) \<and>
      (\<exists>s'. fs_alloc_block dev n s = Inr (of_nat k, s') \<and> serves d (B(2 := mark_taken k (B 2))) s' \<and> only_cache s s')"
proof -
  have "block_exists 2" by (simp add: block_exists_def)
  then obtain s1 v where s1: "block_get dev n 2 s = Inr (buf_block v s1, s1)" "edits d B 2 v (B 2) s1" "only_cache s s1"
    using edits_get [OF assms] by blast
  then have "fs_alloc_block dev n s = alloc_from [0..<BLOCK_DATA_SIZE] (blk_data (buf_block v s1)) s1"
    by (simp add: fs_alloc_block_def)
  then show ?thesis
    using alloc_from_lowest [OF s1(2), of 0] only_cache_trans [OF s1(3)] by (auto split: if_splits)
qed

theorem fs_alloc_lowest_witness:
  "\<exists>s s' s''. block_init (drive_device blank_drive) 1 (stacks_boot (\<lambda>a. Some 0)) = Inr s \<and>
     fs_init (drive_device blank_drive) 1 s = Inr s' \<and> fs_alloc_block (drive_device blank_drive) 1 s' = Inr (5, s'')"
proof -
  let ?B = "formatted (\<lambda>m. replicate 1024 0)" and ?dev = "drive_device blank_drive"
  obtain s s' where s: "block_init ?dev 1 (stacks_boot (\<lambda>a. Some 0)) = Inr s"
    "fs_init ?dev 1 s = Inr s'" "serves blank_drive ?B s'" using mount_blank by blast
  have bm: "drop 16 (?B 2) = 0x1F # replicate 1007 0"
    by (simp add: formatted_def formatted_bitmap_def overwrite_def)
  have low: "taken (drop 16 (?B 2)) j" if "j < 5" for j
  proof -
    have "j \<in> {0, 1, 2, 3, 4}" using that by auto
    then show ?thesis using bm by (auto simp: taken_def)
  qed
  have five: "\<not> taken (drop 16 (?B 2)) 5" using bm by (simp add: taken_def)
  have nf: "\<not> (\<forall>k < 8064. taken (drop 16 (?B 2)) k)"
  proof
    assume "\<forall>k < 8064. taken (drop 16 (?B 2)) k"
    then have "taken (drop 16 (?B 2)) 5" by (elim allE [of _ 5]) simp
    with five show False by blast
  qed
  obtain k s'' where "\<not> taken (drop 16 (?B 2)) k" "\<forall>j < k. taken (drop 16 (?B 2)) j" "fs_alloc_block ?dev 1 s' = Inr (of_nat k, s'')"
    using fs_alloc_lowest [OF drive_device_answers [OF zero_less_one] drive_device_uart s(3)] unfolding if_not_P [OF nf] by blast
  moreover from this low five have "k = 5" by (meson linorder_neqE_nat)
  ultimately show ?thesis using s(1,2) by auto
qed

end
