(* ===== verification/Words.thy ===== *)
theory Words
  imports Stack
begin

text \<open>
  The primitives of \<open>vm/core/forth.c\<close> that work on the stacks alone: stack shuffling,
  arithmetic, logic and comparison, the return-stack words and the SIMD words.  Each is
  one definition over \<open>ds_push\<close>/\<open>ds_pop\<close>, in the order of the pops and pushes of the C
  text.  Signed overflow, which C leaves undefined, wraps; a division whose quotient does
  not fit raises the CPU's divide error; shift counts are taken modulo 64, all as the
  compiled code does on x86-64.
\<close>

section \<open>Stack shuffling\<close>

definition w_dup :: "'a stacks_scheme \<Rightarrow> 'a stacks_scheme" where
  "w_dup s = ds_push (ds_peek s) s"
definition w_drop :: "'a stacks_scheme \<Rightarrow> 'a stacks_scheme" where
  "w_drop s = snd (ds_pop s)"
definition w_swap :: "'a stacks_scheme \<Rightarrow> 'a stacks_scheme" where
  "w_swap s = (let (b, s) = ds_pop s; (a, s) = ds_pop s; s = ds_push b s in ds_push a s)"
definition w_over :: "'a stacks_scheme \<Rightarrow> 'a stacks_scheme" where
  "w_over s = (let (v, s) = ds_pick 1 s in ds_push v s)"
definition w_rot :: "'a stacks_scheme \<Rightarrow> 'a stacks_scheme" where
  "w_rot s = (let (c, s) = ds_pop s; (b, s) = ds_pop s; (a, s) = ds_pop s;
                  s = ds_push b s; s = ds_push c s in ds_push a s)"
definition w_nip :: "'a stacks_scheme \<Rightarrow> 'a stacks_scheme" where
  "w_nip s = (let (t, s) = ds_pop s; (_, s) = ds_pop s in ds_push t s)"
definition w_tuck :: "'a stacks_scheme \<Rightarrow> 'a stacks_scheme" where
  "w_tuck s = (let (b, s) = ds_pop s; (a, s) = ds_pop s;
                   s = ds_push b s; s = ds_push a s in ds_push b s)"
definition w_2dup :: "'a stacks_scheme \<Rightarrow> 'a stacks_scheme" where
  "w_2dup s = (let b = ds_peek s; (a, s) = ds_pick 1 s; s = ds_push a s in ds_push b s)"
definition w_2drop :: "'a stacks_scheme \<Rightarrow> 'a stacks_scheme" where
  "w_2drop s = snd (ds_pop (snd (ds_pop s)))"
definition w_2swap :: "'a stacks_scheme \<Rightarrow> 'a stacks_scheme" where
  "w_2swap s = (let (d, s) = ds_pop s; (c, s) = ds_pop s; (b, s) = ds_pop s; (a, s) = ds_pop s;
                    s = ds_push c s; s = ds_push d s; s = ds_push a s in ds_push b s)"
definition w_qdup :: "'a stacks_scheme \<Rightarrow> 'a stacks_scheme" where
  "w_qdup s = (let t = ds_peek s in if t \<noteq> 0 then ds_push t s else s)"
definition w_depth :: "'a stacks_scheme \<Rightarrow> 'a stacks_scheme" where
  "w_depth s = ds_push (ds_depth s) s"

text \<open>The SSE2 words: \<open>punpcklqdq\<close> doubles the value, \<open>paddq\<close> adds lane by lane.\<close>

definition w_vdup :: "'a stacks_scheme \<Rightarrow> 'a stacks_scheme" where
  "w_vdup s =
     (if sint (ds_depth s) < 1 then s
      else let (top, s) = ds_pop s; (vec0, vec1) = (top, top); s = ds_push vec0 s
           in ds_push vec1 s)"
definition w_vplus :: "'a stacks_scheme \<Rightarrow> 'a stacks_scheme" where
  "w_vplus s =
     (if sint (ds_depth s) < 4 then vga_puts (str '' Stack Underflow for V+\<newline>'') s
      else let (b1, s) = ds_pop s; (b0, s) = ds_pop s; (a1, s) = ds_pop s; (a0, s) = ds_pop s;
               (r0, r1) = (a0 + b0, a1 + b1); s = ds_push r0 s
           in ds_push r1 s)"

section \<open>Arithmetic\<close>

definition w_plus :: "'a stacks_scheme \<Rightarrow> 'a stacks_scheme" where
  "w_plus s = (let (b, s) = ds_pop s; (a, s) = ds_pop s in ds_push (a + b) s)"
definition w_minus :: "'a stacks_scheme \<Rightarrow> 'a stacks_scheme" where
  "w_minus s = (let (b, s) = ds_pop s; (a, s) = ds_pop s in ds_push (a - b) s)"
definition w_mul :: "'a stacks_scheme \<Rightarrow> 'a stacks_scheme" where
  "w_mul s = (let (b, s) = ds_pop s; (a, s) = ds_pop s in ds_push (a * b) s)"

text \<open>C division truncates; \<open>idiv\<close> traps when the quotient is \<open>2 ^ 63\<close>.\<close>

definition c_div :: "i64 \<Rightarrow> i64 \<Rightarrow> i64 res" where
  "c_div a b =
     (let q = sgn (sint a) * sgn (sint b) * (\<bar>sint a\<bar> div \<bar>sint b\<bar>)
      in if b = 0 \<or> q = 2 ^ 63 then Inl DivideError else Inr (word_of_int q))"
definition c_mod :: "i64 \<Rightarrow> i64 \<Rightarrow> i64 res" where
  "c_mod a b =
     (let q = sgn (sint a) * sgn (sint b) * (\<bar>sint a\<bar> div \<bar>sint b\<bar>)
      in if b = 0 \<or> q = 2 ^ 63 then Inl DivideError
         else Inr (word_of_int (sgn (sint a) * (\<bar>sint a\<bar> mod \<bar>sint b\<bar>))))"

definition w_div :: "'a stacks_scheme \<Rightarrow> 'a stacks_scheme res" where
  "w_div s =
     (let (b, s) = ds_pop s in
      if b = 0 then (let s = vga_puts (str '' Div/0!\<newline>'') s in Inr (ds_push 0 s))
      else let (a, s) = ds_pop s in rbind (c_div a b) (\<lambda>q. Inr (ds_push q s)))"
definition w_mod :: "'a stacks_scheme \<Rightarrow> 'a stacks_scheme res" where
  "w_mod s =
     (let (b, s) = ds_pop s in
      if b = 0 then (let s = vga_puts (str '' Div/0!\<newline>'') s in Inr (ds_push 0 s))
      else let (a, s) = ds_pop s in rbind (c_mod a b) (\<lambda>r. Inr (ds_push r s)))"
definition w_divmod :: "'a stacks_scheme \<Rightarrow> 'a stacks_scheme res" where
  "w_divmod s =
     (let (b, s) = ds_pop s in
      if b = 0 then (let s = vga_puts (str '' Div/0!\<newline>'') s; s = ds_push 0 s in Inr (ds_push 0 s))
      else let (a, s) = ds_pop s in
           rbind (c_mod a b) (\<lambda>r. let s = ds_push r s in
           rbind (c_div a b) (\<lambda>q. Inr (ds_push q s))))"

definition w_negate :: "'a stacks_scheme \<Rightarrow> 'a stacks_scheme" where
  "w_negate s = (let (v, s) = ds_pop s in ds_push (- v) s)"
definition w_abs :: "'a stacks_scheme \<Rightarrow> 'a stacks_scheme" where
  "w_abs s = (let (v, s) = ds_pop s in ds_push (if v <s 0 then - v else v) s)"
definition w_min :: "'a stacks_scheme \<Rightarrow> 'a stacks_scheme" where
  "w_min s = (let (b, s) = ds_pop s; (a, s) = ds_pop s in ds_push (if a <s b then a else b) s)"
definition w_max :: "'a stacks_scheme \<Rightarrow> 'a stacks_scheme" where
  "w_max s = (let (b, s) = ds_pop s; (a, s) = ds_pop s in ds_push (if b <s a then a else b) s)"
definition w_1plus :: "'a stacks_scheme \<Rightarrow> 'a stacks_scheme" where
  "w_1plus s = (let (v, s) = ds_pop s in ds_push (v + 1) s)"
definition w_1minus :: "'a stacks_scheme \<Rightarrow> 'a stacks_scheme" where
  "w_1minus s = (let (v, s) = ds_pop s in ds_push (v - 1) s)"
definition w_2star :: "'a stacks_scheme \<Rightarrow> 'a stacks_scheme" where
  "w_2star s = (let (v, s) = ds_pop s in ds_push (push_bit 1 v) s)"
definition w_2slash :: "'a stacks_scheme \<Rightarrow> 'a stacks_scheme" where
  "w_2slash s = (let (v, s) = ds_pop s in ds_push (signed_drop_bit 1 v) s)"

section \<open>Logic and comparison\<close>

definition w_and :: "'a stacks_scheme \<Rightarrow> 'a stacks_scheme" where
  "w_and s = (let (b, s) = ds_pop s; (a, s) = ds_pop s in ds_push (a AND b) s)"
definition w_or :: "'a stacks_scheme \<Rightarrow> 'a stacks_scheme" where
  "w_or s = (let (b, s) = ds_pop s; (a, s) = ds_pop s in ds_push (a OR b) s)"
definition w_xor :: "'a stacks_scheme \<Rightarrow> 'a stacks_scheme" where
  "w_xor s = (let (b, s) = ds_pop s; (a, s) = ds_pop s in ds_push (a XOR b) s)"
definition w_invert :: "'a stacks_scheme \<Rightarrow> 'a stacks_scheme" where
  "w_invert s = (let (v, s) = ds_pop s in ds_push (NOT v) s)"
definition w_lshift :: "'a stacks_scheme \<Rightarrow> 'a stacks_scheme" where
  "w_lshift s = (let (n, s) = ds_pop s; (v, s) = ds_pop s in ds_push (push_bit (unat (n AND 63)) v) s)"
definition w_rshift :: "'a stacks_scheme \<Rightarrow> 'a stacks_scheme" where
  "w_rshift s = (let (n, s) = ds_pop s; (v, s) = ds_pop s in ds_push (drop_bit (unat (n AND 63)) v) s)"
definition w_eq :: "'a stacks_scheme \<Rightarrow> 'a stacks_scheme" where
  "w_eq s = (let (b, s) = ds_pop s; (a, s) = ds_pop s in ds_push (if a = b then - 1 else 0) s)"
definition w_neq :: "'a stacks_scheme \<Rightarrow> 'a stacks_scheme" where
  "w_neq s = (let (b, s) = ds_pop s; (a, s) = ds_pop s in ds_push (if a \<noteq> b then - 1 else 0) s)"
definition w_lt :: "'a stacks_scheme \<Rightarrow> 'a stacks_scheme" where
  "w_lt s = (let (b, s) = ds_pop s; (a, s) = ds_pop s in ds_push (if a <s b then - 1 else 0) s)"
definition w_gt :: "'a stacks_scheme \<Rightarrow> 'a stacks_scheme" where
  "w_gt s = (let (b, s) = ds_pop s; (a, s) = ds_pop s in ds_push (if b <s a then - 1 else 0) s)"
definition w_le :: "'a stacks_scheme \<Rightarrow> 'a stacks_scheme" where
  "w_le s = (let (b, s) = ds_pop s; (a, s) = ds_pop s in ds_push (if a \<le>s b then - 1 else 0) s)"
definition w_ge :: "'a stacks_scheme \<Rightarrow> 'a stacks_scheme" where
  "w_ge s = (let (b, s) = ds_pop s; (a, s) = ds_pop s in ds_push (if b \<le>s a then - 1 else 0) s)"
definition w_0eq :: "'a stacks_scheme \<Rightarrow> 'a stacks_scheme" where
  "w_0eq s = (let (v, s) = ds_pop s in ds_push (if v = 0 then - 1 else 0) s)"
definition w_0lt :: "'a stacks_scheme \<Rightarrow> 'a stacks_scheme" where
  "w_0lt s = (let (v, s) = ds_pop s in ds_push (if v <s 0 then - 1 else 0) s)"
definition w_0gt :: "'a stacks_scheme \<Rightarrow> 'a stacks_scheme" where
  "w_0gt s = (let (v, s) = ds_pop s in ds_push (if 0 <s v then - 1 else 0) s)"

section \<open>Return-stack words and loop control\<close>

definition w_to_r :: "'a stacks_scheme \<Rightarrow> 'a stacks_scheme" where
  "w_to_r s = (let (v, s) = ds_pop s in rs_push v s)"
definition w_from_r :: "'a stacks_scheme \<Rightarrow> 'a stacks_scheme" where
  "w_from_r s = (let (v, s) = rs_pop s in ds_push v s)"
definition w_r_fetch :: "'a stacks_scheme \<Rightarrow> 'a stacks_scheme" where
  "w_r_fetch s = ds_push (rs_peek s) s"
definition w_i :: "'a stacks_scheme \<Rightarrow> 'a stacks_scheme" where
  "w_i s = ds_push (rs_peek s) s"
definition rt_do :: "'a stacks_scheme \<Rightarrow> 'a stacks_scheme" where
  "rt_do s = (let (i, s) = ds_pop s; (l, s) = ds_pop s; s = rs_push l s in rs_push i s)"
definition rt_loop :: "'a stacks_scheme \<Rightarrow> 'a stacks_scheme res" where
  "rt_loop s =
     rbind (ip_fetch_advance s) (\<lambda>(t, s).
       let (i, s) = rs_pop s; l = rs_peek s; i = i + 1
       in if i <s l then (let s = rs_push i s in Inr (ip_set t s))
          else Inr (snd (rs_pop s)))"
definition rt_branch :: "'a stacks_scheme \<Rightarrow> 'a stacks_scheme res" where
  "rt_branch s = rbind (ip_fetch_advance s) (\<lambda>(t, s). Inr (ip_set t s))"
definition rt_0branch :: "'a stacks_scheme \<Rightarrow> 'a stacks_scheme res" where
  "rt_0branch s =
     rbind (ip_fetch_advance s) (\<lambda>(t, s).
       let (c, s) = ds_pop s in Inr (if c = 0 then ip_set t s else s))"

section \<open>The words as a type\<close>

datatype stack_word =
    W_dup | W_drop | W_swap | W_over | W_rot | W_nip | W_tuck | W_2dup | W_2drop | W_2swap
  | W_qdup | W_depth | W_vdup | W_vplus

datatype arith_word =
    W_plus | W_minus | W_mul | W_div | W_mod | W_divmod | W_negate | W_abs | W_min | W_max
  | W_1plus | W_1minus | W_2star | W_2slash

datatype logic_word =
    W_and | W_or | W_xor | W_invert | W_lshift | W_rshift | W_eq | W_neq | W_lt | W_gt
  | W_le | W_ge | W_0eq | W_0lt | W_0gt

datatype rstack_word = W_to_r | W_from_r | W_r_fetch | W_i | Rt_do | Rt_loop | Rt_branch | Rt_0branch

primrec run_stack_word :: "stack_word \<Rightarrow> 'a stacks_scheme \<Rightarrow> 'a stacks_scheme" where
  "run_stack_word W_dup = w_dup" | "run_stack_word W_drop = w_drop"
| "run_stack_word W_swap = w_swap" | "run_stack_word W_over = w_over"
| "run_stack_word W_rot = w_rot" | "run_stack_word W_nip = w_nip"
| "run_stack_word W_tuck = w_tuck" | "run_stack_word W_2dup = w_2dup"
| "run_stack_word W_2drop = w_2drop" | "run_stack_word W_2swap = w_2swap"
| "run_stack_word W_qdup = w_qdup" | "run_stack_word W_depth = w_depth"
| "run_stack_word W_vdup = w_vdup" | "run_stack_word W_vplus = w_vplus"

primrec run_arith_word :: "arith_word \<Rightarrow> 'a stacks_scheme \<Rightarrow> 'a stacks_scheme res" where
  "run_arith_word W_plus s = Inr (w_plus s)" | "run_arith_word W_minus s = Inr (w_minus s)"
| "run_arith_word W_mul s = Inr (w_mul s)" | "run_arith_word W_div s = w_div s"
| "run_arith_word W_mod s = w_mod s" | "run_arith_word W_divmod s = w_divmod s"
| "run_arith_word W_negate s = Inr (w_negate s)" | "run_arith_word W_abs s = Inr (w_abs s)"
| "run_arith_word W_min s = Inr (w_min s)" | "run_arith_word W_max s = Inr (w_max s)"
| "run_arith_word W_1plus s = Inr (w_1plus s)" | "run_arith_word W_1minus s = Inr (w_1minus s)"
| "run_arith_word W_2star s = Inr (w_2star s)" | "run_arith_word W_2slash s = Inr (w_2slash s)"

primrec run_logic_word :: "logic_word \<Rightarrow> 'a stacks_scheme \<Rightarrow> 'a stacks_scheme" where
  "run_logic_word W_and = w_and" | "run_logic_word W_or = w_or" | "run_logic_word W_xor = w_xor"
| "run_logic_word W_invert = w_invert" | "run_logic_word W_lshift = w_lshift"
| "run_logic_word W_rshift = w_rshift" | "run_logic_word W_eq = w_eq" | "run_logic_word W_neq = w_neq"
| "run_logic_word W_lt = w_lt" | "run_logic_word W_gt = w_gt" | "run_logic_word W_le = w_le"
| "run_logic_word W_ge = w_ge" | "run_logic_word W_0eq = w_0eq" | "run_logic_word W_0lt = w_0lt"
| "run_logic_word W_0gt = w_0gt"

primrec run_rstack_word :: "rstack_word \<Rightarrow> 'a stacks_scheme \<Rightarrow> 'a stacks_scheme res" where
  "run_rstack_word W_to_r s = Inr (w_to_r s)" | "run_rstack_word W_from_r s = Inr (w_from_r s)"
| "run_rstack_word W_r_fetch s = Inr (w_r_fetch s)" | "run_rstack_word W_i s = Inr (w_i s)"
| "run_rstack_word Rt_do s = Inr (rt_do s)" | "run_rstack_word Rt_loop s = rt_loop s"
| "run_rstack_word Rt_branch s = rt_branch s" | "run_rstack_word Rt_0branch s = rt_0branch s"

section \<open>What the words promise: stack effects on lists\<close>

text \<open>
  The contract a Forth programmer reads off the stack comments, as functions on the stack
  as a list with its top first.  A word's effect is undefined (\<open>None\<close>) when the stack is
  too short, and for a division by zero or one whose quotient does not fit.
\<close>

definition eff1 :: "(i64 \<Rightarrow> i64 list) \<Rightarrow> i64 list \<Rightarrow> i64 list option" where
  "eff1 f xs = (case xs of a # r \<Rightarrow> Some (f a @ r) | _ \<Rightarrow> None)"
definition eff2 :: "(i64 \<Rightarrow> i64 \<Rightarrow> i64 list) \<Rightarrow> i64 list \<Rightarrow> i64 list option" where
  "eff2 f xs = (case xs of b # a # r \<Rightarrow> Some (f a b @ r) | _ \<Rightarrow> None)"
definition eff3 :: "(i64 \<Rightarrow> i64 \<Rightarrow> i64 \<Rightarrow> i64 list) \<Rightarrow> i64 list \<Rightarrow> i64 list option" where
  "eff3 f xs = (case xs of c # b # a # r \<Rightarrow> Some (f a b c @ r) | _ \<Rightarrow> None)"
definition eff4 :: "(i64 \<Rightarrow> i64 \<Rightarrow> i64 \<Rightarrow> i64 \<Rightarrow> i64 list) \<Rightarrow> i64 list \<Rightarrow> i64 list option" where
  "eff4 f xs = (case xs of d # c # b # a # r \<Rightarrow> Some (f a b c d @ r) | _ \<Rightarrow> None)"

definition divides_ok :: "i64 \<Rightarrow> i64 \<Rightarrow> bool" where
  "divides_ok a b \<longleftrightarrow> b \<noteq> 0 \<and> \<not> (sint a = - (2 ^ 63) \<and> sint b = - 1)"

definition eff_div :: "(i64 \<Rightarrow> i64 \<Rightarrow> i64 list) \<Rightarrow> i64 list \<Rightarrow> i64 list option" where
  "eff_div f xs =
     (case xs of b # a # r \<Rightarrow> if divides_ok a b then Some (f a b @ r) else None | _ \<Rightarrow> None)"

definition quot :: "i64 \<Rightarrow> i64 \<Rightarrow> i64" where
  "quot a b = word_of_int (sgn (sint a) * sgn (sint b) * (\<bar>sint a\<bar> div \<bar>sint b\<bar>))"
definition remd :: "i64 \<Rightarrow> i64 \<Rightarrow> i64" where
  "remd a b = word_of_int (sgn (sint a) * (\<bar>sint a\<bar> mod \<bar>sint b\<bar>))"

primrec stack_effect :: "stack_word \<Rightarrow> i64 list \<Rightarrow> i64 list option" where
  "stack_effect W_dup = eff1 (\<lambda>a. [a, a])"
| "stack_effect W_drop = eff1 (\<lambda>a. [])"
| "stack_effect W_swap = eff2 (\<lambda>a b. [a, b])"
| "stack_effect W_over = eff2 (\<lambda>a b. [a, b, a])"
| "stack_effect W_rot = eff3 (\<lambda>a b c. [a, c, b])"
| "stack_effect W_nip = eff2 (\<lambda>a b. [b])"
| "stack_effect W_tuck = eff2 (\<lambda>a b. [b, a, b])"
| "stack_effect W_2dup = eff2 (\<lambda>a b. [b, a, b, a])"
| "stack_effect W_2drop = eff2 (\<lambda>a b. [])"
| "stack_effect W_2swap = eff4 (\<lambda>a b c d. [b, a, d, c])"
| "stack_effect W_qdup = eff1 (\<lambda>a. if a = 0 then [a] else [a, a])"
| "stack_effect W_depth = (\<lambda>xs. Some (of_nat (length xs) # xs))"
| "stack_effect W_vdup = eff1 (\<lambda>a. [a, a])"
| "stack_effect W_vplus = eff4 (\<lambda>a0 a1 b0 b1. [a1 + b1, a0 + b0])"

primrec arith_effect :: "arith_word \<Rightarrow> i64 list \<Rightarrow> i64 list option" where
  "arith_effect W_plus = eff2 (\<lambda>a b. [a + b])"
| "arith_effect W_minus = eff2 (\<lambda>a b. [a - b])"
| "arith_effect W_mul = eff2 (\<lambda>a b. [a * b])"
| "arith_effect W_div = eff_div (\<lambda>a b. [quot a b])"
| "arith_effect W_mod = eff_div (\<lambda>a b. [remd a b])"
| "arith_effect W_divmod = eff_div (\<lambda>a b. [quot a b, remd a b])"
| "arith_effect W_negate = eff1 (\<lambda>a. [- a])"
| "arith_effect W_abs = eff1 (\<lambda>a. [word_of_int \<bar>sint a\<bar>])"
| "arith_effect W_min = eff2 (\<lambda>a b. [word_of_int (min (sint a) (sint b))])"
| "arith_effect W_max = eff2 (\<lambda>a b. [word_of_int (max (sint a) (sint b))])"
| "arith_effect W_1plus = eff1 (\<lambda>a. [a + 1])"
| "arith_effect W_1minus = eff1 (\<lambda>a. [a - 1])"
| "arith_effect W_2star = eff1 (\<lambda>a. [2 * a])"
| "arith_effect W_2slash = eff1 (\<lambda>a. [word_of_int (sint a div 2)])"

definition flag :: "bool \<Rightarrow> i64" where
  "flag c = (if c then - 1 else 0)"

primrec logic_effect :: "logic_word \<Rightarrow> i64 list \<Rightarrow> i64 list option" where
  "logic_effect W_and = eff2 (\<lambda>a b. [a AND b])"
| "logic_effect W_or = eff2 (\<lambda>a b. [a OR b])"
| "logic_effect W_xor = eff2 (\<lambda>a b. [a XOR b])"
| "logic_effect W_invert = eff1 (\<lambda>a. [- 1 - a])"
| "logic_effect W_lshift = eff2 (\<lambda>a n. [a * 2 ^ (unat n mod 64)])"
| "logic_effect W_rshift = eff2 (\<lambda>a n. [a div 2 ^ (unat n mod 64)])"
| "logic_effect W_eq = eff2 (\<lambda>a b. [flag (sint a = sint b)])"
| "logic_effect W_neq = eff2 (\<lambda>a b. [flag (sint a \<noteq> sint b)])"
| "logic_effect W_lt = eff2 (\<lambda>a b. [flag (sint a < sint b)])"
| "logic_effect W_gt = eff2 (\<lambda>a b. [flag (sint a > sint b)])"
| "logic_effect W_le = eff2 (\<lambda>a b. [flag (sint a \<le> sint b)])"
| "logic_effect W_ge = eff2 (\<lambda>a b. [flag (sint a \<ge> sint b)])"
| "logic_effect W_0eq = eff1 (\<lambda>a. [flag (sint a = 0)])"
| "logic_effect W_0lt = eff1 (\<lambda>a. [flag (sint a < 0)])"
| "logic_effect W_0gt = eff1 (\<lambda>a. [flag (sint a > 0)])"

text \<open>
  \<open>ds_only s s'\<close>: nothing but the data stack differs, in particular nothing was printed.
\<close>

definition ds_only :: "'a stacks_scheme \<Rightarrow> 'a stacks_scheme \<Rightarrow> bool" where
  "ds_only s s' \<longleftrightarrow> s'\<lparr>ds := ds s, dsp := dsp s\<rparr> = s"

lemma ds_only_refl [simp]: "ds_only s s"
  by (simp add: ds_only_def)

lemma ds_only_drop [stack_simps]: "ds_only s t \<Longrightarrow> ds_only s (ds_drop t)"
  by (simp add: ds_only_def ds_drop_def)

lemma ds_only_push [stack_simps]:
  "ds_only s t \<Longrightarrow> stacks_ok t \<Longrightarrow> length (dstack t) < 256 \<Longrightarrow> ds_only s (ds_push v t)"
  using dstack_eq_iff_len [of t]
  by (simp add: ds_only_def ds_push_def DATA_STACK_SIZE_def)

lemma ds_only_trans: "ds_only s t \<Longrightarrow> ds_only t u \<Longrightarrow> ds_only s u"
  unfolding ds_only_def by (cases s, cases t, cases u) simp

lemma sint_of_nat: "n < 2 ^ 63 \<Longrightarrow> sint (of_nat n :: i64) = int n"
  by (simp add: signed_of_nat signed_take_bit_int_eq_self)

lemma depth_of_nat: "stacks_ok s \<Longrightarrow> ds_depth s = of_nat (length (dstack s))"
  using dstack_eq_iff_len [of s] by (simp add: ds_depth_def)

lemma sint_depth: "stacks_ok s \<Longrightarrow> sint (ds_depth s) = int (length (dstack s))"
  using dstack_le [of s] by (simp add: depth_of_nat sint_of_nat)

lemma w_depth_eq: "stacks_ok s \<Longrightarrow> w_depth s = ds_push (of_nat (length (dstack s))) s"
  by (simp add: w_depth_def depth_of_nat)

lemmas word_run = stack_step ds_only_drop ds_only_push stacks_ok_push

lemmas eff_defs = eff1_def eff2_def eff3_def eff4_def eff_div_def

lemmas stack_word_defs = w_dup_def w_drop_def w_swap_def w_over_def w_rot_def w_nip_def w_tuck_def
  w_2dup_def w_2drop_def w_2swap_def w_qdup_def w_depth_eq w_vdup_def w_vplus_def

lemma stack_word_refines:
  assumes "stacks_ok s" "stack_effect w (dstack s) = Some xs" "length xs \<le> 256"
  shows "stacks_ok (run_stack_word w s) \<and> dstack (run_stack_word w s) = xs
    \<and> ds_only s (run_stack_word w s)"
  using assms dstack_le [OF assms(1)]
  by (cases w) (auto simp: eff_defs stack_word_defs word_run sint_depth split_def Let_def
      split: list.splits if_splits)

lemmas arith_word_defs = w_plus_def w_minus_def w_mul_def w_div_def w_mod_def w_divmod_def
  w_negate_def w_abs_def w_min_def w_max_def w_1plus_def w_1minus_def w_2star_def w_2slash_def

lemmas logic_word_defs = w_and_def w_or_def w_xor_def w_invert_def w_lshift_def w_rshift_def
  w_eq_def w_neq_def w_lt_def w_gt_def w_le_def w_ge_def w_0eq_def w_0lt_def w_0gt_def

text \<open>The machine operations compute what the effects say on integers.\<close>

lemma quotient_bound:
  assumes "b \<noteq> 0"
  shows "sgn (sint a) * sgn (sint b) * (\<bar>sint a\<bar> div \<bar>sint b\<bar>) = 2 ^ 63
    \<longleftrightarrow> sint (a :: i64) = - (2 ^ 63) \<and> sint (b :: i64) = - 1"
proof -
  let ?A = "\<bar>sint a\<bar>" and ?B = "\<bar>sint b\<bar>"
  have b0: "sint b \<noteq> 0" using assms by (metis signed_0 signed_word_eqI)
  have lo: "- (2 ^ 63) \<le> sint a" and hi: "sint a < 2 ^ 63"
    using sint_greater_eq [of a] sint_less [of a] by simp_all
  have nonneg: "0 \<le> ?A div ?B" by (simp add: div_int_pos_iff)
  have le: "?A div ?B \<le> ?A" using zdiv_mono2 [of ?A 1 ?B] b0 by simp
  show ?thesis
  proof
    assume q: "sgn (sint a) * sgn (sint b) * (?A div ?B) = 2 ^ 63"
    from nonneg have pos: "sgn (sint a) * sgn (sint b) = 1" and big: "?A div ?B = 2 ^ 63"
      using q by (auto simp: sgn_if split: if_splits)
    with le lo hi have a: "sint a = - (2 ^ 63)" by linarith
    with pos have "sint b < 0" by (auto simp: sgn_if split: if_splits)
    moreover have "?B = 1"
    proof (rule ccontr)
      assume "?B \<noteq> 1"
      then have "2 \<le> ?B" using b0 by linarith
      then have "?A div ?B \<le> ?A div 2" by (intro zdiv_mono2) simp_all
      with big a show False by simp
    qed
    ultimately show "sint a = - (2 ^ 63) \<and> sint b = - 1" using a by simp
  qed simp
qed

lemma c_div_ok: "divides_ok a b \<Longrightarrow> c_div a b = Inr (quot a b)"
  using quotient_bound [of b a] by (auto simp: c_div_def quot_def divides_ok_def Let_def)

lemma c_mod_ok: "divides_ok a b \<Longrightarrow> c_mod a b = Inr (remd a b)"
  using quotient_bound [of b a] by (auto simp: c_mod_def remd_def divides_ok_def Let_def)

lemma divides_ok_0 [simp]: "\<not> divides_ok a 0"
  by (simp add: divides_ok_def)

lemma abs_eff: "(if v <s 0 then - v else v) = word_of_int \<bar>sint (v :: i64)\<bar>"
  by (simp add: word_sless_alt abs_if)

lemma min_eff: "(if a <s b then a else b) = word_of_int (min (sint a) (sint (b :: i64)))"
  by (simp add: word_sless_alt min_def)

lemma max_eff: "(if b <s a then a else b) = word_of_int (max (sint a) (sint (b :: i64)))"
  by (simp add: word_sless_alt max_def)

lemma half_eff: "signed_drop_bit (Suc 0) (v :: i64) = word_of_int (sint v div 2)"
proof -
  have "signed_drop_bit (Suc 0) v = word_of_int (sint (signed_drop_bit (Suc 0) v))" by simp
  also have "\<dots> = word_of_int (drop_bit (Suc 0) (sint v))" by (simp only: sint_signed_drop_bit_eq)
  finally show ?thesis by (simp add: drop_bit_Suc)
qed

lemma shift_count: "unat ((n :: i64) AND 63) = unat n mod 64"
proof -
  have "(63 :: i64) = mask 6" by (simp add: mask_eq_exp_minus_1)
  then have "n AND 63 = take_bit 6 n" by (simp add: take_bit_eq_mask)
  then show ?thesis by (simp add: unsigned_take_bit_eq take_bit_eq_mod unat_mod_distrib)
qed

lemma lshift_eff: "push_bit (unat (n AND 63)) a = a * 2 ^ (unat n mod 64)" for n a :: i64
  by (simp add: shift_count push_bit_eq_mult)

lemma rshift_eff: "drop_bit (unat (n AND 63)) a = a div 2 ^ (unat n mod 64)" for n a :: i64
  by (simp add: shift_count drop_bit_eq_div)

lemma invert_eff: "NOT (a :: i64) = - 1 - a"
  by (simp add: not_eq_complement)

lemma arith_word_refines:
  assumes "stacks_ok s" "arith_effect w (dstack s) = Some xs" "length xs \<le> 256"
  shows "\<exists>s'. run_arith_word w s = Inr s' \<and> stacks_ok s' \<and> dstack s' = xs \<and> ds_only s s'"
  using assms dstack_le [OF assms(1)]
  by (cases w) (auto simp: eff_defs arith_word_defs word_run c_div_ok c_mod_ok abs_eff min_eff max_eff half_eff
      push_bit_eq_mult split_def Let_def
      split: list.splits if_splits)

lemma logic_word_refines:
  assumes "stacks_ok s" "logic_effect w (dstack s) = Some xs" "length xs \<le> 256"
  shows "stacks_ok (run_logic_word w s) \<and> dstack (run_logic_word w s) = xs
    \<and> ds_only s (run_logic_word w s)"
  using assms dstack_le [OF assms(1)]
  by (cases w) (auto simp: eff_defs logic_word_defs word_run flag_def lshift_eff rshift_eff invert_eff
      word_sless_alt word_sle_eq signed_eq_0_iff split_def Let_def
      dest: signed_word_eqI split: list.splits if_splits)

section \<open>Properties\<close>

lemma pushed_ok:
  "length vs \<le> 256 \<Longrightarrow> stacks_ok (fold ds_push vs (stacks_boot m))
     \<and> dstack (fold ds_push vs (stacks_boot m)) = rev vs"
  using data_stack.push_all_cells [OF stacks_boot_ok(1), of vs m] by (simp add: stacks_boot_ok)

text \<open>C33. The stack-shuffling words, the depth word and the two SIMD words implement their stack
  effects: whenever the effect is defined and its result fits, running the word gives
  exactly that stack, changes nothing but the data stack, and prints nothing.  In
  particular \<open>V+\<close> adds two pairs of cells lane by lane.\<close>

theorem stack_words_refine:
  assumes "stacks_ok s" "stack_effect w (dstack s) = Some xs" "length xs \<le> 256"
  shows "stacks_ok (run_stack_word w s) \<and> dstack (run_stack_word w s) = xs
    \<and> ds_only s (run_stack_word w s)"
  by (rule stack_word_refines [OF assms])

theorem stack_words_refine_witness:
  "dstack (run_stack_word W_vplus (fold ds_push [1, 2, 30, 40] (stacks_boot Map.empty))) = [42, 31]"
  using stack_words_refine [of "fold ds_push [1, 2, 30, 40] (stacks_boot Map.empty)" W_vplus "[42, 31]"]
    pushed_ok [of "[1, 2, 30, 40]" Map.empty]
  by (simp add: eff_defs del: fold.simps)

text \<open>The arithmetic words compute on two's complement integers: sums, differences and
  products modulo \<open>2 ^ 64\<close>, division truncating towards zero, minimum and maximum as
  signed values; where the effect is defined the word returns and changes nothing else.\<close>

theorem arith_words_refine:
  assumes "stacks_ok s" "arith_effect w (dstack s) = Some xs" "length xs \<le> 256"
  shows "\<exists>s'. run_arith_word w s = Inr s' \<and> stacks_ok s' \<and> dstack s' = xs \<and> ds_only s s'"
  by (rule arith_word_refines [OF assms])

theorem arith_words_refine_witness:
  "\<exists>s'. run_arith_word W_divmod (fold ds_push [- 7, 2] (stacks_boot Map.empty)) = Inr s'
     \<and> dstack s' = [- 3, - 1]"
  using arith_words_refine [of "fold ds_push [- 7, 2] (stacks_boot Map.empty)" W_divmod "[- 3, - 1]"]
    pushed_ok [of "[- 7, 2]" Map.empty]
  by (auto simp: eff_defs divides_ok_def quot_def remd_def simp del: fold.simps)

text \<open>The bitwise words and the comparisons implement their effects; comparisons are of
  signed values and answer minus one or zero.\<close>

theorem logic_words_refine:
  assumes "stacks_ok s" "logic_effect w (dstack s) = Some xs" "length xs \<le> 256"
  shows "stacks_ok (run_logic_word w s) \<and> dstack (run_logic_word w s) = xs
    \<and> ds_only s (run_logic_word w s)"
  by (rule logic_word_refines [OF assms])

theorem logic_words_refine_witness:
  "dstack (run_logic_word W_lt (fold ds_push [- 1, 1] (stacks_boot Map.empty))) = [- 1]"
  using logic_words_refine [of "fold ds_push [- 1, 1] (stacks_boot Map.empty)" W_lt "[- 1]"]
    pushed_ok [of "[- 1, 1]" Map.empty]
  by (simp add: eff_defs flag_def del: fold.simps)

text \<open>Division by zero: \<open>/\<close> and \<open>MOD\<close> report it and push a zero, \<open>/MOD\<close> pushes two, but
  the dividend is never popped and stays below, so the stack ends one cell deeper than
  after a division that succeeds.  The one quotient that does not fit, the least integer
  by minus one, is not checked and raises the divide error.\<close>

theorem division_by_zero:
  assumes "stacks_ok s" "dstack s = 0 # a # xs"
  shows "(\<exists>s'. w_div s = Inr s' \<and> dstack s' = 0 # a # xs)
    \<and> (\<exists>s'. w_mod s = Inr s' \<and> dstack s' = 0 # a # xs)
    \<and> (length xs < 254 \<longrightarrow> (\<exists>s'. w_divmod s = Inr s' \<and> dstack s' = 0 # 0 # a # xs))
    \<and> (\<forall>t ys. stacks_ok t \<and> dstack t = - 1 # (- (2 ^ 63)) # ys \<longrightarrow> w_div t = Inl DivideError)"
proof (intro conjI allI impI)
  have len: "length xs \<le> 254" using dstack_le [OF assms(1)] assms(2) by simp
  show "\<exists>s'. w_div s = Inr s' \<and> dstack s' = 0 # a # xs"
    "\<exists>s'. w_mod s = Inr s' \<and> dstack s' = 0 # a # xs"
    using assms len by (auto simp: w_div_def w_mod_def word_run split_def)
  show "\<exists>s'. w_divmod s = Inr s' \<and> dstack s' = 0 # 0 # a # xs" if "length xs < 254"
    using assms that by (auto simp: w_divmod_def word_run split_def Let_def)
  fix t ys assume "stacks_ok t \<and> dstack t = - 1 # (- (2 ^ 63)) # ys"
  then show "w_div t = Inl DivideError"
    by (simp add: w_div_def word_run split_def c_div_def)
qed

theorem division_by_zero_witness:
  "\<exists>s'. w_divmod (fold ds_push [5, 0] (stacks_boot Map.empty)) = Inr s' \<and> dstack s' = [0, 0, 5]"
proof -
  have "stacks_ok (fold ds_push [5, 0] (stacks_boot Map.empty))"
    "dstack (fold ds_push [5, 0] (stacks_boot Map.empty)) = 0 # 5 # []"
    using pushed_ok [of "[5, 0]" Map.empty] by simp_all
  from division_by_zero [OF this] show ?thesis by (elim conjE) simp
qed

end
