(* ===== verification/Dictionary.thy ===== *)
theory Dictionary
  imports Words
begin

text \<open>
  \<open>vm/dictionary/dictionary.c\<close> and \<open>dictionary.h\<close>: the word headers laid out in
  memory (link, flags and length, name, padding, code field, parameter field), the
  \<open>HERE\<close> pointer, and the search from the latest word backwards.  The abstraction reads
  the chain of headers as a list of entries, newest first; \<open>dict_find\<close> is shown to be a
  lookup in that list and \<open>dict_create\<close> to put a new entry in front of it.
\<close>

definition F_IMMEDIATE :: u8 where "F_IMMEDIATE = 0x80"
definition F_HIDDEN :: u8 where "F_HIDDEN = 0x40"
definition F_LENMASK :: u8 where "F_LENMASK = 0x1F"
definition DICT_VIRT_BASE :: u64 where "DICT_VIRT_BASE = 0xFFFF800010000000"
definition DICT_SIZE :: u64 where "DICT_SIZE = 0x100000"

record dict = stacks +
  dict_base :: u64
  dict_here :: u64
  dict_latest :: u64

section \<open>Initialisation\<close>

text \<open>
  The dictionary takes 256 contiguous pages and maps them at \<open>DICT_VIRT_BASE\<close>.  What an
  access through the new tables sees once \<open>cr3\<close> has been reloaded is up to the memory
  management unit: the parameter \<open>mmu\<close> turns the memory before into the memory after.
\<close>

definition dict_init :: "device \<Rightarrow> nat \<Rightarrow> (memory \<Rightarrow> memory) \<Rightarrow> 'a dict_scheme \<Rightarrow> 'a dict_scheme res" where
  "dict_init dev n mmu s =
     (let s = s\<lparr>dict_base := DICT_VIRT_BASE\<rparr>;
          s = s\<lparr>dict_here := dict_base s\<rparr>;
          s = s\<lparr>dict_latest := 0\<rparr>
      in
      rbind (pmm_alloc_pages (DICT_SIZE div PAGE_SIZE) s) (\<lambda>(phys_base, s).
      if phys_base = 0 then Inl (Panic (str ''DICT: Out of physical memory!''))
      else
        rbind (vmm_map_range DICT_VIRT_BASE phys_base DICT_SIZE (PTE_PRESENT OR PTE_WRITABLE) s) (\<lambda>(r, s).
        if r \<noteq> 0 then Inl (Panic (str ''DICT: Failed to map virtual memory!''))
        else
          let s = s\<lparr>vmem := mmu (vmem s)\<rparr> in
          rbind (memset (dict_base s) 0 (unat DICT_SIZE) s) (\<lambda>s.
          rbind (serial_puts dev n SERIAL_COM1 (str ''DICT: Virtual '') s) (\<lambda>s.
          rbind (serial_put_hex dev n SERIAL_COM1 DICT_VIRT_BASE s) (\<lambda>s.
          rbind (serial_puts dev n SERIAL_COM1 (str '' mapped to PA '') s) (\<lambda>s.
          rbind (serial_put_hex dev n SERIAL_COM1 phys_base s) (\<lambda>s.
          serial_puts dev n SERIAL_COM1 (str ''\<newline>'') s))))))))"

section \<open>Building words\<close>

definition dict_align :: "'a dict_scheme \<Rightarrow> 'a dict_scheme" where
  "dict_align s = s\<lparr>dict_here := align8 (dict_here s)\<rparr>"

definition dict_comma :: "u64 \<Rightarrow> 'a dict_scheme \<Rightarrow> 'a dict_scheme res" where
  "dict_comma value s =
     (let s = dict_align s in
      rbind (store64 (dict_here s) value s) (\<lambda>s.
      Inr (s\<lparr>dict_here := dict_here s + 8\<rparr>)))"

definition dict_c_comma :: "u8 \<Rightarrow> 'a dict_scheme \<Rightarrow> 'a dict_scheme res" where
  "dict_c_comma value s =
     rbind (store8 (dict_here s) value s) (\<lambda>s.
     Inr (s\<lparr>dict_here := dict_here s + 1\<rparr>))"

definition dict_create :: "cstring \<Rightarrow> u8 \<Rightarrow> 'a dict_scheme \<Rightarrow> 'a dict_scheme res" where
  "dict_create name flags s =
     (let name_len = (of_nat (length name) :: u8);
          name_len = (if name_len > 31 then 31 else name_len);
          s = dict_align s;
          entry_start = dict_here s
      in
      rbind (store64 (dict_here s) (dict_latest s) s) (\<lambda>s.
      let s = s\<lparr>dict_here := dict_here s + 8\<rparr> in
      rbind (store8 (dict_here s) ((flags AND 0xE0) OR (name_len AND F_LENMASK)) s) (\<lambda>s.
      let s = s\<lparr>dict_here := dict_here s + 1\<rparr> in
      rbind (store_bytes (dict_here s) (take (unat name_len) name) s) (\<lambda>s.
      let s = s\<lparr>dict_here := dict_here s + ucast name_len\<rparr>;
          s = dict_align s
      in Inr (s\<lparr>dict_latest := entry_start\<rparr>)))))"

definition dict_set_code :: "u64 \<Rightarrow> 'a dict_scheme \<Rightarrow> 'a dict_scheme res" where
  "dict_set_code code s =
     rbind (store64 (dict_here s) code s) (\<lambda>s.
     Inr (s\<lparr>dict_here := dict_here s + 8\<rparr>))"

definition dict_add_primitive :: "cstring \<Rightarrow> u64 \<Rightarrow> u8 \<Rightarrow> 'a dict_scheme \<Rightarrow> 'a dict_scheme res" where
  "dict_add_primitive name func flags s =
     rbind (dict_create name flags s) (\<lambda>s. dict_set_code func s)"

section \<open>Reading words\<close>

definition dict_get_link :: "u64 \<Rightarrow> 'a dict_scheme \<Rightarrow> u64 res" where
  "dict_get_link entry s = load64 entry s"

definition dict_get_flags_len :: "u64 \<Rightarrow> 'a dict_scheme \<Rightarrow> u8 res" where
  "dict_get_flags_len entry s = load8 (entry + 8) s"

definition dict_get_name_len :: "u64 \<Rightarrow> 'a dict_scheme \<Rightarrow> u8 res" where
  "dict_get_name_len entry s = rbind (load8 (entry + 8) s) (\<lambda>b. Inr (b AND F_LENMASK))"

definition dict_get_flags :: "u64 \<Rightarrow> 'a dict_scheme \<Rightarrow> u8 res" where
  "dict_get_flags entry s = rbind (load8 (entry + 8) s) (\<lambda>b. Inr (b AND 0xE0))"

definition dict_get_name :: "u64 \<Rightarrow> u64" where
  "dict_get_name entry = entry + 9"

definition dict_get_code_field :: "u64 \<Rightarrow> 'a dict_scheme \<Rightarrow> u64 res" where
  "dict_get_code_field entry s =
     rbind (dict_get_name_len entry s) (\<lambda>name_len.
     let p = entry + 8 + 1 + ucast name_len in Inr (align8 p))"

definition dict_get_param_field :: "u64 \<Rightarrow> 'a dict_scheme \<Rightarrow> u64 res" where
  "dict_get_param_field entry s =
     rbind (dict_get_code_field entry s) (\<lambda>cf. Inr (cf + 8))"

section \<open>Searching\<close>

text \<open>The comparison loop, with \<open>char\<close> signed, and the walk along the links.\<close>

definition fold_case :: "u8 \<Rightarrow> u8" where
  "fold_case c = (if 97 \<le> sint c \<and> sint c \<le> 122 then c - 32 else c)"

fun name_matches :: "memory \<Rightarrow> u64 \<Rightarrow> cstring \<Rightarrow> bool res" where
  "name_matches m p [] = Inr True"
| "name_matches m p (c # cs) =
     rbind (rd8 m p) (\<lambda>x.
     if fold_case x \<noteq> fold_case c then Inr False else name_matches m (p + 1) cs)"

fun dict_find_from :: "nat \<Rightarrow> u64 \<Rightarrow> cstring \<Rightarrow> 'a dict_scheme \<Rightarrow> u64 res" where
  "dict_find_from 0 entry name s = Inl OutOfFuel"
| "dict_find_from (Suc n) entry name s =
     (if entry = 0 then Inr 0
      else
        rbind (dict_get_flags_len entry s) (\<lambda>flags_len.
        rbind
          (if flags_len AND F_HIDDEN = 0 \<and> unat (flags_len AND F_LENMASK) = length name
           then name_matches (vmem s) (dict_get_name entry) name
           else Inr False) (\<lambda>found.
        if found then Inr entry
        else rbind (dict_get_link entry s) (\<lambda>link. dict_find_from n link name s))))"

definition dict_find :: "nat \<Rightarrow> cstring \<Rightarrow> 'a dict_scheme \<Rightarrow> u64 res" where
  "dict_find fuel name s = dict_find_from fuel (dict_latest s) name s"

fun list_words_from :: "nat \<Rightarrow> u64 \<Rightarrow> u32 \<Rightarrow> 'a dict_scheme \<Rightarrow> (u32 \<times> 'a dict_scheme) res" where
  "list_words_from 0 entry count s = Inl OutOfFuel"
| "list_words_from (Suc n) entry count s =
     (if entry = 0 then Inr (count, s)
      else
        rbind (dict_get_flags_len entry s) (\<lambda>flags_len.
        rbind
          (if flags_len AND F_HIDDEN = 0 then
             rbind (rd_bytes (vmem s) (dict_get_name entry) (unat (flags_len AND F_LENMASK))) (\<lambda>name.
             let s = vga_puts name s; s = vga_putchar 32 s; count = count + 1
             in Inr (count, if sint count mod 10 = 0 then vga_putchar 10 s else s))
           else Inr (count, s)) (\<lambda>(count, s).
        rbind (dict_get_link entry s) (\<lambda>link. list_words_from n link count s))))"

definition dict_list_words :: "nat \<Rightarrow> 'a dict_scheme \<Rightarrow> 'a dict_scheme res" where
  "dict_list_words fuel s =
     rbind (list_words_from fuel (dict_latest s) 0 s) (\<lambda>(count, s).
     let s = vga_putchar 10 s; s = vga_puts (itoa count 10) s
     in Inr (vga_puts (str '' words total\<newline>'') s))"

section \<open>The chain of headers as a list of entries\<close>

datatype entry = Entry (e_addr: u64) (e_flags: u8) (e_name: cstring)

fun chain :: "memory \<Rightarrow> u64 \<Rightarrow> entry list \<Rightarrow> bool" where
  "chain m a [] \<longleftrightarrow> a = 0"
| "chain m a (Entry b fl nm # es) \<longleftrightarrow>
     a \<noteq> 0 \<and> b = a \<and> length nm \<le> 31 \<and> fl AND F_LENMASK = 0 \<and>
     rd8 m (a + 8) = Inr (fl OR of_nat (length nm)) \<and>
     rd_bytes m (a + 9) (length nm) = Inr nm \<and>
     (\<exists>l. rd64 m a = Inr l \<and> chain m l es)"

text \<open>What a search promises: the newest visible entry whose name is equal up to case.\<close>

fun lookup :: "entry list \<Rightarrow> cstring \<Rightarrow> u64" where
  "lookup [] name = 0"
| "lookup (Entry a fl nm # es) name =
     (if fl AND F_HIDDEN = 0 \<and> map fold_case nm = map fold_case name then a else lookup es name)"

lemma len_bits:
  "\<forall>n \<in> {0..<32::nat}. (of_nat n :: u8) AND 0x40 = 0 \<and> (of_nat n :: u8) AND 0x1F = of_nat n
     \<and> (of_nat n :: u8) AND 0xE0 = 0"
  by (simp add: atLeastLessThan_nat_numeral)

lemma flag_byte:
  assumes "n \<le> 31" "fl AND F_LENMASK = 0"
  shows "(fl OR of_nat n) AND F_HIDDEN = fl AND F_HIDDEN"
    and "(fl OR of_nat n) AND F_LENMASK = of_nat n"
  using bspec [OF len_bits, of n] assms
  by (simp_all add: F_HIDDEN_def F_LENMASK_def bit.conj_disj_distrib2)

lemma name_matches_eq:
  "rd_bytes m p (length name) = Inr nm \<Longrightarrow>
     name_matches m p name = Inr (map fold_case nm = map fold_case name)"
proof (induction name arbitrary: p nm)
  case Nil
  then show ?case by simp
next
  case (Cons c cs)
  then obtain x xs where "rd8 m p = Inr x" "rd_bytes m (p + 1) (length cs) = Inr xs" "nm = x # xs"
    by (auto simp: rbind_eq_Inr)
  with Cons.IH show ?case by simp
qed

text \<open>The walk is the lookup, and as many steps as there are entries, plus one, are enough.\<close>

lemma dict_find_from_lookup:
  "chain (vmem s) a es \<Longrightarrow> length es < n \<Longrightarrow> dict_find_from n a name s = Inr (lookup es name)"
proof (induction n arbitrary: a es)
  case 0
  then show ?case by simp
next
  case (Suc n)
  show ?case
  proof (cases es)
    case Nil
    with Suc.prems show ?thesis by simp
  next
    case (Cons e es')
    obtain b fl nm where e: "e = Entry b fl nm" by (cases e) auto
    from Suc.prems(1) Cons e obtain l where
      c: "a \<noteq> 0" "b = a" "length nm \<le> 31" "fl AND F_LENMASK = 0"
        "rd8 (vmem s) (a + 8) = Inr (fl OR of_nat (length nm))"
        "rd_bytes (vmem s) (a + 9) (length nm) = Inr nm"
        "rd64 (vmem s) a = Inr l" "chain (vmem s) l es'"
      by auto
    have rest: "dict_find_from n l name s = Inr (lookup es' name)"
      by (rule Suc.IH [OF c(8)]) (use Suc.prems(2) Cons in simp)
    have len: "unat (of_nat (length nm) :: u8) = length nm"
      using c(3) by (simp add: unat_of_nat take_bit_nat_eq_self)
    have neq: "length nm \<noteq> length name \<Longrightarrow> map fold_case nm \<noteq> map fold_case name"
      by (metis length_map)
    show ?thesis
      using c rest len neq name_matches_eq [of "vmem s" "a + 9" name nm]
      by (auto simp: Cons e dict_get_flags_len_def dict_get_link_def dict_get_name_def load8_def
          load64_def flag_byte)
  qed
qed

lemma lookup_in: "lookup es name \<noteq> 0 \<Longrightarrow> lookup es name \<in> e_addr ` set es"
  by (induction es name rule: lookup.induct) auto

section \<open>Well-formed dictionaries\<close>

definition DICT_END :: nat where "DICT_END = 0xFFFF800010100000"

definition below :: "entry \<Rightarrow> nat \<Rightarrow> bool" where
  "below e h \<longleftrightarrow> 8 dvd unat (e_addr e) \<and> unat DICT_VIRT_BASE \<le> unat (e_addr e) \<and>
     unat (e_addr e) + 9 + length (e_name e) \<le> h"

definition dict_ok :: "'a dict_scheme \<Rightarrow> entry list \<Rightarrow> bool" where
  "dict_ok s es \<longleftrightarrow>
     mapped (vmem s) DICT_VIRT_BASE (unat DICT_SIZE) \<and>
     unat DICT_VIRT_BASE \<le> unat (dict_here s) \<and>
     chain (vmem s) (dict_latest s) es \<and>
     (\<forall>e \<in> set es. below e (unat (dict_here s)))"

lemma dict_region: "unat DICT_VIRT_BASE = 0xFFFF800010000000" "unat DICT_SIZE = 0x100000"
  by (simp_all add: DICT_VIRT_BASE_def DICT_SIZE_def)

lemma dict_mapped:
  assumes "mapped m DICT_VIRT_BASE (unat DICT_SIZE)" "unat DICT_VIRT_BASE \<le> unat a"
    "unat a + n \<le> DICT_END"
  shows "mapped m a n"
  using assms by (intro mapped_sub [OF assms(1)]) (simp_all add: dict_region DICT_END_def)

lemma chain_same_below:
  assumes "same_below h m m'" "h < 2 ^ 64" "\<forall>e \<in> set es. below e h"
  shows "chain m' a es = chain m a es"
  using assms(3)
proof (induction es arbitrary: a)
  case Nil
  show ?case by simp
next
  case (Cons e es)
  obtain b fl nm where e: "e = Entry b fl nm" by (cases e) auto
  have bd: "unat b + 9 + length nm \<le> h" using Cons.prems by (simp add: e below_def)
  have u: "unat (b + 8) = unat b + 8" "unat (b + 9) = unat b + 9"
    using bd assms(2) by (simp_all add: unat_add_numeral)
  have "rd8 m' (b + 8) = rd8 m (b + 8)" "rd_bytes m' (b + 9) (length nm) = rd_bytes m (b + 9) (length nm)"
    "rd64 m' b = rd64 m b"
    using bd u assms(2)
    by (auto intro!: same_below_rd8 [OF assms(1)] same_below_rd_bytes [OF assms(1)]
        same_below_rd64 [OF assms(1)])
  with Cons show ?case by (cases "b = a") (simp_all add: e)
qed

text \<open>
  What the builders change: memory from the old \<open>HERE\<close> up and the two pointers.
\<close>

definition dict_frame :: "'a dict_scheme \<Rightarrow> 'a dict_scheme \<Rightarrow> bool" where
  "dict_frame s s' \<longleftrightarrow>
     s'\<lparr>vmem := vmem s, dict_here := dict_here s, dict_latest := dict_latest s\<rparr> = s \<and>
     same_below (unat (dict_here s)) (vmem s) (vmem s') \<and>
     unat (dict_here s) \<le> unat (dict_here s') \<and>
     (\<forall>x. mapped (vmem s) x 1 \<longrightarrow> mapped (vmem s') x 1)"

lemma mapped_1_n: "(\<forall>x. mapped m x 1 \<longrightarrow> mapped m' x 1) \<Longrightarrow> mapped m a n \<Longrightarrow> mapped m' a n"
  by (simp add: mapped_def)

lemma dict_frame_trans:
  assumes "dict_frame s t" "dict_frame t u"
  shows "dict_frame s u"
proof -
  have "same_below (unat (dict_here s)) (vmem t) (vmem u)"
    using assms by (auto simp: dict_frame_def intro: same_below_mono)
  moreover have "u\<lparr>vmem := vmem s, dict_here := dict_here s, dict_latest := dict_latest s\<rparr> = s"
    using assms unfolding dict_frame_def by (cases s, cases t, cases u) auto
  ultimately show ?thesis
    using assms unfolding dict_frame_def by (meson le_trans same_below_trans)
qed

lemma here_bounds:
  assumes "unat (h :: u64) + n \<le> DICT_END" "unat DICT_VIRT_BASE \<le> unat h"
  shows "unat h + n < 2 ^ 64" "unat h \<le> unat (align8 h)" "unat (align8 h) \<le> unat h + 7"
    "8 dvd unat (align8 h)" "unat DICT_VIRT_BASE \<le> unat (align8 h)"
  using assms align8_bounds [of h] by (auto simp: DICT_END_def)

text \<open>A cell compiled at \<open>HERE\<close> is stored at the next aligned address.\<close>

lemma dict_comma_ok:
  assumes "dict_ok s es" "unat (dict_here s) + 15 \<le> DICT_END"
  shows "\<exists>s'. dict_comma v s = Inr s' \<and> dict_ok s' es \<and> dict_frame s s' \<and>
    dict_latest s' = dict_latest s \<and>
    dict_here s' = align8 (dict_here s) + 8 \<and> rd64 (vmem s') (align8 (dict_here s)) = Inr v"
proof -
  let ?h = "align8 (dict_here s)"
  let ?m = "mem_upd (vmem s) ?h (bytes_of_word 8 v)"
  let ?s' = "s\<lparr>dict_here := ?h + 8, vmem := ?m\<rparr>"
  have ok: "mapped (vmem s) DICT_VIRT_BASE (unat DICT_SIZE)" "unat DICT_VIRT_BASE \<le> unat (dict_here s)"
    "chain (vmem s) (dict_latest s) es" "\<forall>e \<in> set es. below e (unat (dict_here s))"
    using assms(1) by (auto simp: dict_ok_def)
  note hb = here_bounds [OF assms(2) ok(2)]
  have h8: "unat (?h + 8) = unat ?h + 8" using hb by (intro unat_add_numeral) simp
  have map: "mapped (vmem s) ?h 8"
    using hb assms(2) by (intro dict_mapped [OF ok(1)]) auto
  have sb: "same_below (unat (dict_here s)) (vmem s) ?m"
    using hb by (intro same_below_upd) auto
  have "dict_comma v s = Inr ?s'"
    using map by (simp add: dict_comma_def dict_align_def store64_mapped)
  moreover have "dict_ok ?s' es"
    using ok hb h8 chain_same_below [OF sb _ ok(4)]
    by (auto simp: dict_ok_def mapped_mem_upd below_def)
  moreover have "dict_frame s ?s'"
    using sb hb h8 by (auto simp: dict_frame_def mapped_mem_upd)
  ultimately show ?thesis by (intro exI [of _ ?s']) (simp add: rd64_upd_same)
qed

text \<open>
  A new header: the entry is the newest of the chain, hidden or immediate as asked, its
  name cut to 31 characters, and its code field is where \<open>HERE\<close> is left.
\<close>

lemma create_name_len:
  assumes "length (nm :: cstring) < 256"
  shows "unat (if (of_nat (length nm) :: u8) > 31 then 31 else of_nat (length nm) :: u8) = min 31 (length nm)"
proof -
  have "unat (of_nat (length nm) :: u8) = length nm"
    using assms by (simp add: unat_of_nat take_bit_nat_eq_self)
  then show ?thesis by (auto simp: word_less_nat_alt)
qed

lemma store_header:
  fixes h :: u64
  assumes "mapped m h (9 + length nm)" "unat h + 9 + length nm < 2 ^ 64"
  shows "let m' = mem_upd (mem_upd (mem_upd m h (bytes_of_word 8 l)) (h + 8) [b]) (h + 9) nm in
     rd64 m' h = Inr l \<and> rd8 m' (h + 8) = Inr b \<and> rd_bytes m' (h + 9) (length nm) = Inr nm \<and>
     mapped m h 8 \<and> mapped m (h + 8) 1 \<and> mapped m (h + 9) (length nm)"
proof -
  have u: "unat (h + 8) = unat h + 8" "unat (h + 9) = unat h + 9"
    using assms(2) by (simp_all add: unat_add_numeral)
  have "mapped m h 8" "mapped m (h + 8) 1" "mapped m (h + 9) (length nm)"
    using assms(2) u by (auto intro!: mapped_sub [OF assms(1)])
  moreover have "apart (h + 9) (length nm) h 8" "apart (h + 9) (length nm) (h + 8) 1"
    "apart (h + 8) 1 h 8"
    using u assms(2) by (simp_all add: apart_def)
  ultimately show ?thesis
    using assms(2) by (simp add: Let_def mem_simps)
qed

lemma dict_create_ok:
  assumes "dict_ok s es" "length nm < 256" "unat (dict_here s) + 64 \<le> DICT_END"
  defines "h \<equiv> align8 (dict_here s)" and "nm' \<equiv> take 31 nm"
  shows "\<exists>s'. dict_create nm fl s = Inr s' \<and> dict_ok s' (Entry h (fl AND 0xE0) nm' # es) \<and>
    dict_frame s s' \<and> dict_latest s' = h \<and> dict_get_code_field h s' = Inr (dict_here s') \<and>
    8 dvd unat (dict_here s') \<and> unat (dict_here s') \<le> unat (dict_here s) + 54"
proof -
  define len where "len = (if (of_nat (length nm) :: u8) > 31 then 31 else of_nat (length nm) :: u8)"
  let ?b = "(fl AND 0xE0) OR (len AND F_LENMASK)"
  let ?m = "mem_upd (mem_upd (mem_upd (vmem s) h (bytes_of_word 8 (dict_latest s))) (h + 8) [?b]) (h + 9) nm'"
  let ?h' = "align8 (h + 9 + ucast len)"
  let ?s' = "s\<lparr>vmem := ?m, dict_here := ?h', dict_latest := h\<rparr>"
  have ok: "mapped (vmem s) DICT_VIRT_BASE (unat DICT_SIZE)" "unat DICT_VIRT_BASE \<le> unat (dict_here s)"
    "chain (vmem s) (dict_latest s) es" "\<forall>e \<in> set es. below e (unat (dict_here s))"
    using assms(1) by (auto simp: dict_ok_def)
  note hb = here_bounds [OF assms(3) ok(2), folded h_def]
  have len: "unat len = length nm'" "length nm' \<le> 31"
    using create_name_len [OF assms(2)] by (simp_all add: len_def nm'_def min.commute)
  have tk: "take (length nm') nm = nm'" by (simp add: nm'_def min_def)
  have lenw: "len = of_nat (length nm')" by (metis len(1) of_nat_unat ucast_id)
  have mask: "len AND F_LENMASK = of_nat (length nm')"
    using bspec [OF len_bits, of "length nm'"] len(2) by (simp add: lenw F_LENMASK_def)
  have fin: "unat h + 9 + length nm' + 7 \<le> DICT_END" "unat h + 9 + length nm' + 7 < 2 ^ 64"
    using hb(3) assms(3) len(2) by (simp_all add: DICT_END_def)
  have mp: "mapped (vmem s) h (9 + length nm')"
    using hb(5) fin(1) by (intro dict_mapped [OF ok(1)]) auto
  have room: "unat h + 9 + length nm' < 2 ^ 64" using fin(2) by simp
  note st = store_header [OF mp room, of "dict_latest s" ?b, unfolded Let_def]
  have u: "unat (h + 8) = unat h + 8" "unat (h + 9) = unat h + 9"
    "unat (h + 9 + ucast len) = unat h + 9 + length nm'"
  proof -
    show "unat (h + 8) = unat h + 8" and h9: "unat (h + 9) = unat h + 9"
      using fin(2) by (simp_all add: unat_add_numeral)
    have "(ucast len :: u64) = of_nat (length nm')" by (metis len(1) of_nat_unat)
    then show "unat (h + 9 + ucast len) = unat h + 9 + length nm'"
      using unat_add_of_nat [of "h + 9" "length nm'"] h9 fin(2) by simp
  qed
  have run: "dict_create nm fl s = Inr ?s'"
    using st fin(2) len tk unfolding dict_create_def
    by (simp add: Let_def dict_align_def mem_simps add.assoc flip: h_def len_def)
  have sb: "same_below (unat (dict_here s)) (vmem s) ?m"
    using hb(2) u fin(2)
    by (intro same_below_trans [OF same_below_trans [OF same_below_upd same_below_upd] same_below_upd])
      simp_all
  have nz: "(fl AND 0xE0) AND F_LENMASK = 0" by (simp add: F_LENMASK_def and.assoc)
  have code: "dict_get_code_field h ?s' = Inr ?h'"
  proof -
    have "rd8 ?m (h + 8) = Inr ((fl AND 0xE0) OR of_nat (length nm'))" using st by (simp add: mask)
    then show ?thesis
      using flag_byte(2) [OF len(2) nz]
      by (simp only: dict_get_code_field_def dict_get_name_len_def load8_def rbind_simps Let_def lenw)
        (simp add: add.assoc)
  qed
  have chain: "chain ?m h (Entry h (fl AND 0xE0) nm' # es)"
  proof -
    have "h \<noteq> 0" using hb(5) by (auto simp: DICT_VIRT_BASE_def)
    moreover have "chain ?m (dict_latest s) es"
      using chain_same_below [OF sb _ ok(4)] ok(3) hb(1) by simp
    ultimately show ?thesis using st len(2) nz by (simp add: mask)
  qed
  have h': "unat ?h' \<le> unat h + 9 + length nm' + 7" "unat h + 9 + length nm' \<le> unat ?h'" "8 dvd unat ?h'"
    using align8_bounds [of "h + 9 + ucast len"] u(3) fin(2) by simp_all
  have "dict_ok ?s' (Entry h (fl AND 0xE0) nm' # es)"
    using ok hb(2,4,5) h' chain u(1) by (auto simp: dict_ok_def mapped_mem_upd below_def)
  moreover have "dict_frame s ?s'"
    using sb hb(2) h' by (auto simp: dict_frame_def mapped_mem_upd)
  ultimately show ?thesis
    using run code h' hb(3) len(2) by (intro exI [of _ ?s']) simp
qed

text \<open>
  A cell stored at an aligned \<open>HERE\<close>, as \<open>dict_set_code\<close> does: nothing below changes.
\<close>

lemma dict_set_code_ok:
  assumes "dict_ok s es" "8 dvd unat (dict_here s)" "unat (dict_here s) + 8 \<le> DICT_END"
  shows "\<exists>s'. dict_set_code v s = Inr s' \<and> dict_ok s' es \<and> dict_frame s s' \<and>
    dict_latest s' = dict_latest s \<and> dict_here s' = dict_here s + 8 \<and>
    unat (dict_here s') = unat (dict_here s) + 8 \<and> rd64 (vmem s') (dict_here s) = Inr v"
proof -
  let ?h = "dict_here s"
  let ?m = "mem_upd (vmem s) ?h (bytes_of_word 8 v)"
  let ?s' = "s\<lparr>vmem := ?m, dict_here := ?h + 8\<rparr>"
  have ok: "mapped (vmem s) DICT_VIRT_BASE (unat DICT_SIZE)" "unat DICT_VIRT_BASE \<le> unat ?h"
    "chain (vmem s) (dict_latest s) es" "\<forall>e \<in> set es. below e (unat ?h)"
    using assms(1) by (auto simp: dict_ok_def)
  have lt: "unat ?h + 8 < 2 ^ 64" "unat ?h < 2 ^ 64" using assms(3) by (simp_all add: DICT_END_def)
  have h8: "unat (?h + 8) = unat ?h + 8" using lt by (intro unat_add_numeral) simp
  have map: "mapped (vmem s) ?h 8"
    using assms(3) ok(2) by (intro dict_mapped [OF ok(1)]) auto
  have sb: "same_below (unat ?h) (vmem s) ?m"
    using lt by (intro same_below_upd) auto
  have "dict_set_code v s = Inr ?s'"
    using map by (simp add: dict_set_code_def store64_mapped)
  moreover have "dict_ok ?s' es"
    using ok h8 chain_same_below [OF sb lt(2) ok(4)]
    by (auto simp: dict_ok_def mapped_mem_upd below_def)
  moreover have "dict_frame s ?s'"
    using sb h8 by (auto simp: dict_frame_def mapped_mem_upd)
  ultimately show ?thesis using h8 by (intro exI [of _ ?s']) (simp add: rd64_upd_same)
qed

lemma code_field_frame:
  assumes "dict_get_code_field a s = Inr c" "same_below h (vmem s) (vmem s')" "unat a + 9 \<le> h" "h \<le> 2 ^ 64"
  shows "dict_get_code_field a s' = Inr c"
proof -
  have "unat (a + 8) = unat a + 8" using assms(3,4) by (simp add: unat_add_numeral)
  then have "rd8 (vmem s') (a + 8) = rd8 (vmem s) (a + 8)"
    using assms(2,3) by (intro same_below_rd8) auto
  with assms(1) show ?thesis
    by (simp add: dict_get_code_field_def dict_get_name_len_def load8_def)
qed

lemma code_field_below:
  assumes "dict_ok s (Entry a fl nm # es)" "unat (dict_here s) \<le> DICT_END"
  shows "unat a + 9 \<le> unat (dict_here s)" "unat (dict_here s) < 2 ^ 64"
  using assms by (auto simp: dict_ok_def below_def DICT_END_def)

lemma dict_add_primitive_ok:
  assumes "dict_ok s es" "length nm < 256" "unat (dict_here s) + 64 \<le> DICT_END"
  defines "h \<equiv> align8 (dict_here s)" and "nm' \<equiv> take 31 nm"
  shows "\<exists>s' cf. dict_add_primitive nm func fl s = Inr s' \<and> dict_ok s' (Entry h (fl AND 0xE0) nm' # es) \<and>
    dict_frame s s' \<and> dict_latest s' = h \<and> dict_get_code_field h s' = Inr cf \<and>
    rd64 (vmem s') cf = Inr func \<and> dict_here s' = cf + 8 \<and>
    8 dvd unat (dict_here s') \<and> unat (dict_here s') \<le> unat (dict_here s) + 62"
proof -
  obtain t where t: "dict_create nm fl s = Inr t" "dict_ok t (Entry h (fl AND 0xE0) nm' # es)"
    "dict_frame s t" "dict_latest t = h" "dict_get_code_field h t = Inr (dict_here t)"
    "8 dvd unat (dict_here t)" "unat (dict_here t) \<le> unat (dict_here s) + 54"
    using dict_create_ok [OF assms(1-3)] unfolding h_def nm'_def by blast
  have "unat (dict_here t) + 8 \<le> DICT_END" using t(7) assms(3) by simp
  from dict_set_code_ok [OF t(2,6) this, of func]
  obtain s' where s': "dict_set_code func t = Inr s'" "dict_ok s' (Entry h (fl AND 0xE0) nm' # es)"
    "dict_frame t s'" "dict_latest s' = dict_latest t" "dict_here s' = dict_here t + 8"
    "unat (dict_here s') = unat (dict_here t) + 8" "rd64 (vmem s') (dict_here t) = Inr func"
    by blast
  have "dict_get_code_field h s' = Inr (dict_here t)"
    using code_field_below [OF t(2)] \<open>unat (dict_here t) + 8 \<le> DICT_END\<close> s'(3)
    by (intro code_field_frame [OF t(5), of "unat (dict_here t)"]) (auto simp: dict_frame_def DICT_END_def)
  with t s' dict_frame_trans [OF t(3) s'(3)] show ?thesis
    by (intro exI [of _ s'] exI [of _ "dict_here t"]) (auto simp: dict_add_primitive_def)
qed

section \<open>Properties\<close>

lemma dict_find_lookup:
  "dict_ok s es \<Longrightarrow> length es < fuel \<Longrightarrow> dict_find fuel name s = Inr (lookup es name)"
  by (simp add: dict_find_def dict_find_from_lookup dict_ok_def)

text \<open>An empty dictionary as \<open>dict_init\<close> leaves it, with the region mapped and cleared.\<close>

definition dict_region_mem :: memory where
  "dict_region_mem a = (if unat DICT_VIRT_BASE \<le> unat a \<and> unat a < DICT_END then Some 0 else None)"

definition dict_empty :: "memory \<Rightarrow> dict" where
  "dict_empty m = stacks.extend (stacks_boot m)
     \<lparr>dict_base = DICT_VIRT_BASE, dict_here = DICT_VIRT_BASE, dict_latest = 0\<rparr>"

lemma dict_region_mapped [simp]: "mapped dict_region_mem DICT_VIRT_BASE (unat DICT_SIZE)"
proof -
  have "unat (DICT_VIRT_BASE + of_nat i) = unat DICT_VIRT_BASE + i" if "i < unat DICT_SIZE" for i
    using that by (intro unat_add_of_nat) (simp add: dict_region)
  then show ?thesis by (simp add: mapped_def dict_region_mem_def DICT_END_def dict_region)
qed

lemma dict_empty_simps [simp]:
  "vmem (dict_empty m) = m" "dict_here (dict_empty m) = DICT_VIRT_BASE" "dict_latest (dict_empty m) = 0"
  by (simp_all add: dict_empty_def stacks_boot_def kbd_boot_def timer_boot_def vga_boot_def stacks.defs kbd.defs timer.defs vga.defs machine.defs)

lemma dict_empty_ok [simp]: "dict_ok (dict_empty dict_region_mem) []"
  by (simp add: dict_ok_def)

text \<open>C25. Adding a primitive to a well-formed dictionary puts its entry in front of the chain
  (hidden and immediate bits as given), aligned, without touching what lies below \<open>HERE\<close>,
  with its code in the code field; and \<open>dict_find\<close> then finds it under every spelling
  that differs in case only, and finds every other name as before.\<close>

theorem dict_add_primitive_find:
  assumes "dict_ok s es" "length nm \<le> 31" "fl AND F_HIDDEN = 0"
    "unat (dict_here s) + 64 \<le> DICT_END" "length es + 1 < fuel"
  shows "\<exists>s' cf. dict_add_primitive nm func fl s = Inr s'
    \<and> dict_ok s' (Entry (align8 (dict_here s)) (fl AND 0xE0) nm # es)
    \<and> same_below (unat (dict_here s)) (vmem s) (vmem s')
    \<and> dict_get_code_field (align8 (dict_here s)) s' = Inr cf \<and> rd64 (vmem s') cf = Inr func
    \<and> (\<forall>q. dict_find fuel q s' =
          (if map fold_case nm = map fold_case q then Inr (align8 (dict_here s)) else dict_find fuel q s))"
proof -
  let ?e = "Entry (align8 (dict_here s)) (fl AND 0xE0) nm"
  have nm: "take 31 nm = nm" "length nm < 256" using assms(2) by simp_all
  obtain s' cf where s': "dict_add_primitive nm func fl s = Inr s'" "dict_ok s' (?e # es)"
    "dict_frame s s'" "dict_get_code_field (align8 (dict_here s)) s' = Inr cf" "rd64 (vmem s') cf = Inr func"
    using dict_add_primitive_ok [OF assms(1) nm(2) assms(4), of func fl] unfolding nm(1) by blast
  have hid: "(fl AND 0xE0) AND F_HIDDEN = 0"
    using assms(3) by (metis and.assoc and.commute and_zero_eq)
  have "dict_find fuel q s' = Inr (lookup (?e # es) q)" for q
    by (rule dict_find_lookup [OF s'(2)]) (use assms(5) in simp)
  moreover have "dict_find fuel q s = Inr (lookup es q)" for q
    by (rule dict_find_lookup [OF assms(1)]) (use assms(5) in simp)
  ultimately show ?thesis
    using s' hid by (intro exI [of _ s'] exI [of _ cf]) (simp add: dict_frame_def)
qed

theorem dict_add_primitive_find_witness:
  "\<exists>s'. dict_add_primitive (str ''DUP'') 0xFFFF800000100000 0 (dict_empty dict_region_mem) = Inr s' \<and>
     dict_find 5 (str ''dup'') s' = Inr DICT_VIRT_BASE \<and> dict_find 5 (str ''drop'') s' = Inr 0"
proof -
  have a: "align8 DICT_VIRT_BASE = DICT_VIRT_BASE" by (simp add: align8_def DICT_VIRT_BASE_def)
  have f: "map fold_case (str ''DUP'') = map fold_case (str ''dup'')"
    "map fold_case (str ''DUP'') \<noteq> map fold_case (str ''drop'')"
    by (simp_all add: str_def fold_case_def)
  have e: "dict_find 5 q (dict_empty dict_region_mem) = Inr 0" for q
    by (simp add: dict_find_def numeral_eq_Suc)
  show ?thesis
    using dict_add_primitive_find [OF dict_empty_ok, of "str ''DUP''" 0 5 "0xFFFF800000100000"] f
    by (auto simp: a e str_def dict_region DICT_END_def)
qed

text \<open>A word whose name is longer than 31 characters gets an entry with the name cut, but
  the search compares the whole name asked for: under its own name it is never found, what
  that name meant before stays visible.\<close>

theorem long_name_not_found:
  assumes "dict_ok s es" "31 < length nm" "length nm < 256" "unat (dict_here s) + 64 \<le> DICT_END"
    "length es + 1 < fuel"
  shows "\<exists>s'. dict_create nm fl s = Inr s' \<and> dict_latest s' \<noteq> dict_latest s
    \<and> dict_find fuel nm s' = dict_find fuel nm s
    \<and> (fl AND F_HIDDEN = 0 \<longrightarrow> dict_find fuel (take 31 nm) s' = Inr (dict_latest s'))"
proof -
  let ?e = "Entry (align8 (dict_here s)) (fl AND 0xE0) (take 31 nm)"
  obtain s' where s': "dict_create nm fl s = Inr s'" "dict_ok s' (?e # es)"
    "dict_latest s' = align8 (dict_here s)"
    using dict_create_ok [OF assms(1,3,4), of fl] by blast
  have find: "dict_find fuel q s' = Inr (lookup (?e # es) q)"
    "dict_find fuel q s = Inr (lookup es q)" for q
    using dict_find_lookup [OF s'(2)] dict_find_lookup [OF assms(1)] assms(5) by auto
  have "length (map fold_case (take 31 nm)) \<noteq> length (map fold_case nm)" using assms(2) by simp
  then have ne: "map fold_case (take 31 nm) \<noteq> map fold_case nm" by metis
  have hid: "fl AND F_HIDDEN = 0 \<Longrightarrow> (fl AND 0xE0) AND F_HIDDEN = 0"
    by (metis and.assoc and.commute and_zero_eq)
  have "dict_latest s' \<noteq> dict_latest s"
  proof -
    have ok: "chain (vmem s) (dict_latest s) es" "\<forall>e \<in> set es. below e (unat (dict_here s))"
      "unat DICT_VIRT_BASE \<le> unat (dict_here s)"
      using assms(1) by (auto simp: dict_ok_def)
    note hb = here_bounds [OF assms(4) ok(3)]
    show ?thesis
    proof (cases es)
      case Nil
      with ok(1) have "dict_latest s = 0" by simp
      then show ?thesis using hb(5) s'(3) by (auto simp: dict_region)
    next
      case (Cons e es')
      then have "dict_latest s = e_addr e" using ok(1) by (cases e) simp
      with Cons ok(2) have "unat (dict_latest s) + 9 \<le> unat (dict_here s)" by (simp add: below_def)
      with s'(3) hb(2) show ?thesis by auto
    qed
  qed
  with s' find ne hid show ?thesis by (intro exI [of _ s']) simp
qed

theorem long_name_not_found_witness:
  "\<exists>s'. dict_create (replicate 40 65) 0 (dict_empty dict_region_mem) = Inr s' \<and>
     dict_find 3 (replicate 40 65) s' = Inr 0"
proof -
  have e: "dict_find 3 q (dict_empty dict_region_mem) = Inr 0" for q
    by (simp add: dict_find_def numeral_eq_Suc)
  show ?thesis
    using long_name_not_found [OF dict_empty_ok, of "replicate 40 65" 3 0]
    by (auto simp: e dict_region DICT_END_def)
qed

end
