(* ===== verification/Parser.thy ===== *)
theory Parser
  imports Dictionary
begin

text \<open>
  The static variables of \<open>vm/core/forth.c\<close> and its parser: words, delimited text and
  numbers.  \<open>parse_ptr\<close> points into a zero-terminated line, so the model keeps what is
  left of that line.
\<close>

definition STATE_INTERPRET :: int where "STATE_INTERPRET = 0"
definition STATE_COMPILE :: int where "STATE_COMPILE = 1"
definition INPUT_BUF_SIZE :: int where "INPUT_BUF_SIZE = 256"

record forth = dict +
  forth_state :: int
  forth_base :: int
  input_buffer :: "u8 list"
  input_pos :: int
  parse_ptr :: cstring
  fork_target_xt :: u64

definition forth_get_state :: "'a forth_scheme \<Rightarrow> int" where "forth_get_state s = forth_state s"
definition forth_set_state :: "int \<Rightarrow> 'a forth_scheme \<Rightarrow> 'a forth_scheme" where
  "forth_set_state v s = s\<lparr>forth_state := v\<rparr>"
definition forth_get_base :: "'a forth_scheme \<Rightarrow> int" where "forth_get_base s = forth_base s"
definition forth_set_base :: "int \<Rightarrow> 'a forth_scheme \<Rightarrow> 'a forth_scheme" where
  "forth_set_base b s = s\<lparr>forth_base := b\<rparr>"

section \<open>Words and delimited text\<close>

text \<open>The copying loops take at most a given number of characters; they return what they
  copied and what is left.\<close>

fun take_word :: "nat \<Rightarrow> cstring \<Rightarrow> cstring \<times> cstring" where
  "take_word 0 cs = ([], cs)"
| "take_word (Suc n) [] = ([], [])"
| "take_word (Suc n) (c # cs) =
     (if isspace (sint c) then ([], c # cs)
      else let (w, rest) = take_word n cs in (c # w, rest))"

definition parse_word :: "nat \<Rightarrow> 'a forth_scheme \<Rightarrow> cstring \<times> 'a forth_scheme" where
  "parse_word max_len s =
     (let p = skip_space (parse_ptr s) in
      if p = [] then ([], s\<lparr>parse_ptr := p\<rparr>)
      else let (out, p) = take_word (max_len - 1) p in (out, s\<lparr>parse_ptr := p\<rparr>))"

fun take_until :: "u8 \<Rightarrow> nat \<Rightarrow> cstring \<Rightarrow> cstring \<times> cstring" where
  "take_until d 0 cs = ([], cs)"
| "take_until d (Suc n) [] = ([], [])"
| "take_until d (Suc n) (c # cs) =
     (if c = d then ([], c # cs)
      else let (w, rest) = take_until d n cs in (c # w, rest))"

definition parse_until :: "u8 \<Rightarrow> nat \<Rightarrow> 'a forth_scheme \<Rightarrow> cstring \<times> 'a forth_scheme" where
  "parse_until delim max_len s =
     (let p = parse_ptr s;
          p = (if char_at p 0 = 32 then tl p else p);
          (out, p) = take_until delim (max_len - 1) p;
          p = (if char_at p 0 = delim then tl p else p)
      in (out, s\<lparr>parse_ptr := p\<rparr>))"

section \<open>Numbers\<close>

definition try_parse_number :: "cstring \<Rightarrow> 'a forth_scheme \<Rightarrow> i64 option" where
  "try_parse_number word s =
     (let base = forth_base s;
          (base, word) =
            (if char_at word 0 = 48 \<and> (char_at word 1 = 120 \<or> char_at word 1 = 88) then (16, tl (tl word))
             else if char_at word 0 = 36 then (16, tl word)
             else if char_at word 0 = 35 then (10, tl word)
             else if char_at word 0 = 37 then (2, tl word)
             else (base, word));
          (val, rest) = strtol word base
      in if rest = [] \<and> rest \<noteq> word then Some val else None)"

section \<open>What parsing promises\<close>

text \<open>
  The reference for the words of a line: its maximal runs of characters that are no white
  space.
\<close>

abbreviation space :: "u8 \<Rightarrow> bool" where "space c \<equiv> isspace (sint c)"

primrec runs :: "cstring \<Rightarrow> cstring list" where
  "runs [] = [[]]"
| "runs (c # cs) =
     (if space c then [] # runs cs else (c # hd (runs cs)) # tl (runs cs))"

definition line_words :: "cstring \<Rightarrow> cstring list" where
  "line_words line = filter (\<lambda>w. w \<noteq> []) (runs line)"

text \<open>What the outer interpreter gets when it calls \<open>parse_word\<close> until the line is used up.\<close>

fun parse_words :: "nat \<Rightarrow> nat \<Rightarrow> 'a forth_scheme \<Rightarrow> cstring list" where
  "parse_words 0 max_len s = []"
| "parse_words (Suc n) max_len s =
     (let (w, s) = parse_word max_len s in if w = [] then [] else w # parse_words n max_len s)"

lemma runs_neq_Nil [simp]: "runs cs \<noteq> []"
  by (cases cs) auto

lemma hd_runs: "hd (runs cs) = takeWhile (\<lambda>c. \<not> space c) cs"
  by (induction cs) auto

lemma tl_runs:
  "tl (runs cs) = (case dropWhile (\<lambda>c. \<not> space c) cs of [] \<Rightarrow> [] | _ # r \<Rightarrow> runs r)"
  by (induction cs) auto

lemma line_words_skip: "line_words (skip_space cs) = line_words cs"
  by (induction cs) (auto simp: line_words_def skip_space_def)

lemma line_words_Nil [simp]: "line_words [] = []"
  by (simp add: line_words_def)

lemma runs_space_free: "\<forall>c \<in> set cs. \<not> space c \<Longrightarrow> dropWhile (\<lambda>c. \<not> space c) cs = []"
  by (simp add: dropWhile_eq_Nil_conv)

lemma line_words_run:
  assumes "cs \<noteq> []" "\<not> space (hd cs)"
  shows "line_words cs = takeWhile (\<lambda>c. \<not> space c) cs # line_words (dropWhile (\<lambda>c. \<not> space c) cs)"
proof -
  have "runs cs = takeWhile (\<lambda>c. \<not> space c) cs # tl (runs cs)"
    by (metis hd_runs list.collapse runs_neq_Nil)
  moreover have "filter (\<lambda>w. w \<noteq> []) (tl (runs cs)) = line_words (dropWhile (\<lambda>c. \<not> space c) cs)"
  proof (cases "dropWhile (\<lambda>c. \<not> space c) cs")
    case (Cons d r)
    then have "space d" by (metis dropWhile_eq_Cons_conv)
    with Cons show ?thesis by (simp add: tl_runs line_words_def)
  qed (subst tl_runs, simp only: list.case line_words_Nil filter.simps)
  moreover have "takeWhile (\<lambda>c. \<not> space c) cs \<noteq> []" using assms by (cases cs) auto
  ultimately show ?thesis by (metis (mono_tags, lifting) filter.simps(2) line_words_def)
qed

lemma take_word_run:
  "length (takeWhile (\<lambda>c. \<not> space c) cs) \<le> n \<Longrightarrow>
     take_word n cs = (takeWhile (\<lambda>c. \<not> space c) cs, dropWhile (\<lambda>c. \<not> space c) cs)"
proof (induction n cs rule: take_word.induct)
  case (1 cs)
  then show ?case by (cases cs) (auto split: if_splits)
qed (auto split: if_splits)

lemma take_word_long:
  "n \<le> length (takeWhile (\<lambda>c. \<not> space c) cs) \<Longrightarrow> take_word n cs = (take n cs, drop n cs)"
  by (induction n cs rule: take_word.induct) (auto split: if_splits)

lemma skip_space_start: "skip_space cs \<noteq> [] \<Longrightarrow> \<not> space (hd (skip_space cs))"
  unfolding skip_space_def by (rule hd_dropWhile)

lemma skip_space_length: "length (skip_space cs) \<le> length cs"
  by (simp add: skip_space_def length_dropWhile_le)

lemma parse_word_run:
  assumes "skip_space (parse_ptr s) = w @ rest" "w \<noteq> []" "\<forall>c \<in> set w. \<not> space c"
    "rest = [] \<or> space (hd rest)" "length w < max_len"
  shows "parse_word max_len s = (w, s\<lparr>parse_ptr := rest\<rparr>)"
proof -
  have "takeWhile (\<lambda>c. \<not> space c) (w @ rest) = w" "dropWhile (\<lambda>c. \<not> space c) (w @ rest) = rest"
    using assms(3,4) by (cases rest; auto simp: takeWhile_append dropWhile_append)+
  then show ?thesis
    using assms take_word_run [of "w @ rest" "max_len - 1"] by (simp add: parse_word_def Let_def)
qed

lemma parse_words_runs:
  assumes "length (parse_ptr s) < n" "\<forall>w \<in> set (line_words (parse_ptr s)). length w < max_len"
  shows "parse_words n max_len s = line_words (parse_ptr s)"
  using assms
proof (induction n arbitrary: s)
  case 0
  then show ?case by simp
next
  case (Suc n)
  let ?p = "skip_space (parse_ptr s)"
  show ?case
  proof (cases "?p = []")
    case True
    then show ?thesis
      using line_words_skip [of "parse_ptr s"] by (simp add: parse_word_def)
  next
    case False
    let ?w = "takeWhile (\<lambda>c. \<not> space c) ?p" and ?r = "dropWhile (\<lambda>c. \<not> space c) ?p"
    have lw: "line_words (parse_ptr s) = ?w # line_words ?r"
      using line_words_run [OF False skip_space_start [OF False]] by (simp add: line_words_skip)
    have w: "?w \<noteq> []" using skip_space_start [OF False] False by (cases ?p) auto
    have "length ?w < max_len" using Suc.prems(2) lw by simp
    then have pw: "parse_word max_len s = (?w, s\<lparr>parse_ptr := ?r\<rparr>)"
      using False by (simp add: parse_word_def take_word_run Let_def)
    have "length ?w + length ?r = length ?p" by (metis length_append takeWhile_dropWhile_id)
    then have "length ?r < n"
      using w Suc.prems(1) skip_space_length [of "parse_ptr s"] by (cases ?w) auto
    then have "parse_words n max_len (s\<lparr>parse_ptr := ?r\<rparr>) = line_words ?r"
      using Suc.IH [of "s\<lparr>parse_ptr := ?r\<rparr>"] Suc.prems(2) lw by simp
    with pw w lw show ?thesis by simp
  qed
qed

text \<open>C26. Reading a line word by word yields exactly its maximal runs of characters that are
  no white space, in order, provided each fits the 63 characters of the token buffer; a
  longer run is cut after 63 characters and the rest is read as the next word.\<close>

theorem parse_word_splits_line:
  "((\<forall>w \<in> set (line_words (parse_ptr s)). length w \<le> 63) \<longrightarrow>
      parse_words (Suc (length (parse_ptr s))) 64 s = line_words (parse_ptr s)) \<and>
   (63 < length (takeWhile (\<lambda>c. \<not> space c) (skip_space (parse_ptr s))) \<longrightarrow>
      parse_word 64 s = (take 63 (skip_space (parse_ptr s)),
        s\<lparr>parse_ptr := drop 63 (skip_space (parse_ptr s))\<rparr>))"
proof (intro conjI impI)
  assume "\<forall>w \<in> set (line_words (parse_ptr s)). length w \<le> 63"
  then show "parse_words (Suc (length (parse_ptr s))) 64 s = line_words (parse_ptr s)"
    by (intro parse_words_runs) auto
next
  assume long: "63 < length (takeWhile (\<lambda>c. \<not> space c) (skip_space (parse_ptr s)))"
  then have "skip_space (parse_ptr s) \<noteq> []" by auto
  with long take_word_long [of 63 "skip_space (parse_ptr s)"] show
    "parse_word 64 s = (take 63 (skip_space (parse_ptr s)),
        s\<lparr>parse_ptr := drop 63 (skip_space (parse_ptr s))\<rparr>)"
    by (simp add: parse_word_def Let_def)
qed

text \<open>The kernel before any word has been typed, for the examples.\<close>

definition forth_idle :: "dict \<Rightarrow> forth" where
  "forth_idle d = dict.extend d
     \<lparr>forth_state = STATE_INTERPRET, forth_base = 10, input_buffer = replicate 256 0, input_pos = 0,
      parse_ptr = [], fork_target_xt = 0\<rparr>"

theorem parse_word_splits_line_witness:
  "parse_words 13 64 ((forth_idle (dict_empty Map.empty))\<lparr>parse_ptr := str '' 1  DUP +\<newline>ok''\<rparr>)
     = [str ''1'', str ''DUP'', str ''+'', str ''ok''] \<and>
   parse_word 64 ((forth_idle (dict_empty Map.empty))\<lparr>parse_ptr := replicate 70 65\<rparr>)
     = (replicate 63 65, (forth_idle (dict_empty Map.empty))\<lparr>parse_ptr := replicate 7 65\<rparr>)"
proof
  let ?s = "(forth_idle (dict_empty Map.empty))\<lparr>parse_ptr := str '' 1  DUP +\<newline>ok''\<rparr>"
  have "line_words (str '' 1  DUP +\<newline>ok'') = [str ''1'', str ''DUP'', str ''+'', str ''ok'']"
    by (simp add: str_def line_words_def isspace_def)
  moreover have "Suc (length (str '' 1  DUP +\<newline>ok'')) = 13" by (simp add: str_def)
  moreover have "\<forall>w \<in> {str ''1'', str ''DUP'', str ''+'', str ''ok''}. length w \<le> 63" by (simp add: str_def)
  ultimately show "parse_words 13 64 ?s = [str ''1'', str ''DUP'', str ''+'', str ''ok'']"
    using conjunct1 [OF parse_word_splits_line [of ?s]] by (simp del: parse_words.simps)
next
  let ?s = "(forth_idle (dict_empty Map.empty))\<lparr>parse_ptr := replicate 70 65\<rparr>"
  have sp: "\<not> space 65" by (simp add: isspace_def)
  then have "skip_space (replicate 70 65) = replicate 70 65" by (simp add: skip_space_def)
  moreover have "takeWhile (\<lambda>c. \<not> space c) (replicate 70 65) = replicate 70 65"
    using sp by (intro takeWhile_replicate [THEN trans]) auto
  ultimately show "parse_word 64 ?s
     = (replicate 63 65, (forth_idle (dict_empty Map.empty))\<lparr>parse_ptr := replicate 7 65\<rparr>)"
    using parse_word_splits_line [of ?s] by (simp add: drop_replicate)
qed

lemma digit_loop_digits:
  assumes "base_ok b" "c \<in> set (digit_loop (v :: u64) (of_int b))"
  shows "\<exists>d :: u64. unat d < nat b \<and> c = digit_char d"
  using assms
proof (induction v "of_int b :: u64" rule: digit_loop.induct)
  case (1 v)
  from 1(3) consider "c = digit_char (v mod of_int b)"
    | "v div of_int b \<noteq> 0 \<and> 2 \<le> unat (of_int b :: u64)" "c \<in> set (digit_loop (v div of_int b) (of_int b))"
    by (subst (asm) digit_loop.simps) (auto split: if_splits)
  moreover have "unat (v mod of_int b) < nat b"
    using 1(2) by (simp add: unat_mod_distrib base_word) (simp add: base_ok_def)
  ultimately show ?case using 1(1) 1(2) by cases blast+
qed

lemma hex_digit_table:
  "\<forall>d \<in> {0..<16::nat}. 48 \<le> digit_char (of_nat d :: u64) \<and> digit_char (of_nat d :: u64) \<noteq> 88
     \<and> digit_char (of_nat d :: u64) \<noteq> 120"
  by (simp add: digit_char_def atLeastLessThan_nat_numeral)

text \<open>Neither a prefix letter nor a prefix sign can appear in a printed number.\<close>

lemma printed_chars:
  assumes "b = 10 \<or> b = 16" "c \<in> set (ltoa v b)"
  shows "c = 45 \<or> 48 \<le> c \<and> c \<noteq> 88 \<and> c \<noteq> 120"
proof -
  have b: "base_ok b" using assms(1) by (auto simp: base_ok_def)
  have "c = 45 \<or> (\<exists>w. c \<in> set (digit_loop (w :: u64) (of_int b)))"
    using assms(2) by (auto simp: ltoa_rev [OF b] split: if_splits)
  then consider "c = 45" | d :: u64 where "unat d < nat b" "c = digit_char d"
    using digit_loop_digits [OF b, of c] by blast
  then show ?thesis
  proof cases
    case 2
    then have "unat d < 16" using assms(1) by auto
    with 2 show ?thesis using bspec [OF hex_digit_table, of "unat d"] by simp
  qed simp
qed

text \<open>C30. What \<open>.\<close> prints in decimal or hexadecimal is read back by the interpreter in the
  same base as the same number, whatever the 64-bit value.\<close>

theorem printed_number_parses:
  assumes "forth_base s = 10 \<or> forth_base s = 16"
  shows "try_parse_number (ltoa v (forth_base s)) s = Some v"
proof -
  let ?w = "ltoa v (forth_base s)"
  have rt: "strtol ?w (forth_base s) = (v, [])" using assms by (intro strtol_ltoa) auto
  obtain c cs where cs: "?w = c # cs"
    using assms by (cases ?w) (auto simp: ltoa_rev base_ok_def split: if_splits)
  note ch = printed_chars [OF assms]
  have c: "c \<noteq> 36" "c \<noteq> 35" "c \<noteq> 37" using ch [of c v] cs by auto
  have "char_at ?w 1 \<noteq> 120" "char_at ?w 1 \<noteq> 88"
    using ch [of "hd cs" v] cs by (cases cs; auto)+
  then show ?thesis using c rt cs by (simp add: try_parse_number_def)
qed

theorem printed_number_parses_witness:
  "try_parse_number (ltoa (- 9223372036854775808) 10) (forth_idle (dict_empty Map.empty))
     = Some (- 9223372036854775808)"
  using printed_number_parses [of "forth_idle (dict_empty Map.empty)"] by (simp add: forth_idle_def dict.defs)

end
