(* ===== verification/Primitives.thy ===== *)
theory Primitives
  imports Parser
begin

text \<open>
  The primitives of \<open>vm/core/forth.c\<close> that need more than the stacks: memory, output, the
  compiling words, inspection, blocks and tasks.  A code field holds the address of a C
  function; the addresses that the linker gives to the functions of \<open>forth.c\<close> are part of
  the \<open>platform\<close>, with the devices behind the ports and the bound for library loops.
\<close>

datatype memory_word =
  W_fetch | W_store | W_cfetch | W_cstore | W_plus_store | W_here | W_allot | W_comma | W_c_comma

datatype io_word =
    W_dot | W_u_dot | W_dot_s | W_emit | W_cr | W_space | W_spaces | W_type | W_dot_quote
  | W_paren | W_dot_hex | W_words | W_clear | W_decimal | W_hex | W_base | W_status | W_dump

datatype compiler_word =
    W_colon | W_semicolon | W_create | W_variable | W_constant | W_immediate | W_tick | W_see
  | W_if | W_else | W_then | W_begin | W_until | W_again | W_while | W_repeat | W_do | W_loop

datatype system_word = W_execute | W_load | W_fork | W_yield | W_block | W_update | W_flush | W_bye | W_edit

datatype fsym =
    Do_colon | Do_literal | Do_variable | Do_constant
  | F_stack stack_word | F_arith arith_word | F_logic logic_word | F_rstack rstack_word
  | F_memory memory_word | F_io io_word | F_compiler compiler_word | F_system system_word

record platform =
  devices :: device
  loop_bound :: nat
  link :: "fsym \<Rightarrow> u64"
  thread_wrapper :: u64
  exit_routine :: u64

section \<open>Memory\<close>

definition w_fetch :: "'a forth_scheme \<Rightarrow> 'a forth_scheme res" where
  "w_fetch s = (let (a, s) = ds_pop s in rbind (load64 a s) (\<lambda>v. Inr (ds_push v s)))"
definition w_store :: "'a forth_scheme \<Rightarrow> 'a forth_scheme res" where
  "w_store s = (let (a, s) = ds_pop s; (v, s) = ds_pop s in store64 a v s)"
definition w_cfetch :: "'a forth_scheme \<Rightarrow> 'a forth_scheme res" where
  "w_cfetch s = (let (a, s) = ds_pop s in rbind (load8 a s) (\<lambda>v. Inr (ds_push (ucast v) s)))"
definition w_cstore :: "'a forth_scheme \<Rightarrow> 'a forth_scheme res" where
  "w_cstore s = (let (a, s) = ds_pop s; (v, s) = ds_pop s in store8 a (ucast v) s)"
definition w_plus_store :: "'a forth_scheme \<Rightarrow> 'a forth_scheme res" where
  "w_plus_store s =
     (let (a, s) = ds_pop s; (v, s) = ds_pop s in
      rbind (load64 a s) (\<lambda>old. store64 a (old + v) s))"

definition w_here :: "'a forth_scheme \<Rightarrow> 'a forth_scheme" where
  "w_here s = ds_push (dict_here s) s"
definition w_allot :: "'a forth_scheme \<Rightarrow> 'a forth_scheme" where
  "w_allot s = (let (n, s) = ds_pop s in s\<lparr>dict_here := dict_here s + n\<rparr>)"
definition w_comma :: "'a forth_scheme \<Rightarrow> 'a forth_scheme res" where
  "w_comma s = (let (v, s) = ds_pop s in dict_comma v s)"
definition w_c_comma :: "'a forth_scheme \<Rightarrow> 'a forth_scheme res" where
  "w_c_comma s = (let (v, s) = ds_pop s in dict_c_comma (ucast v) s)"

primrec run_memory_word :: "memory_word \<Rightarrow> 'a forth_scheme \<Rightarrow> 'a forth_scheme res" where
  "run_memory_word W_fetch s = w_fetch s" | "run_memory_word W_store s = w_store s"
| "run_memory_word W_cfetch s = w_cfetch s" | "run_memory_word W_cstore s = w_cstore s"
| "run_memory_word W_plus_store s = w_plus_store s"
| "run_memory_word W_here s = Inr (w_here s)" | "run_memory_word W_allot s = Inr (w_allot s)"
| "run_memory_word W_comma s = w_comma s" | "run_memory_word W_c_comma s = w_c_comma s"

section \<open>Output\<close>

definition w_dot :: "'a forth_scheme \<Rightarrow> 'a forth_scheme" where
  "w_dot s = (let (v, s) = ds_pop s; buf = ltoa v (forth_base s); s = vga_puts buf s in vga_putchar 32 s)"
definition w_u_dot :: "'a forth_scheme \<Rightarrow> 'a forth_scheme" where
  "w_u_dot s = (let (v, s) = ds_pop s; buf = ultoa v (forth_base s); s = vga_puts buf s in vga_putchar 32 s)"
definition w_dot_s :: "'a forth_scheme \<Rightarrow> 'a forth_scheme" where "w_dot_s s = ds_print s"
definition w_emit :: "'a forth_scheme \<Rightarrow> 'a forth_scheme" where
  "w_emit s = (let (v, s) = ds_pop s in vga_putchar (ucast v) s)"
definition w_cr :: "'a forth_scheme \<Rightarrow> 'a forth_scheme" where "w_cr s = vga_putchar 10 s"
definition w_space :: "'a forth_scheme \<Rightarrow> 'a forth_scheme" where "w_space s = vga_putchar 32 s"
definition w_spaces :: "'a forth_scheme \<Rightarrow> 'a forth_scheme" where
  "w_spaces s = (let (n, s) = ds_pop s in (vga_putchar 32 ^^ nat (sint n)) s)"

fun type_chars :: "nat \<Rightarrow> u64 \<Rightarrow> 'a forth_scheme \<Rightarrow> 'a forth_scheme res" where
  "type_chars 0 a s = Inr s"
| "type_chars (Suc n) a s = rbind (load8 a s) (\<lambda>c. type_chars n (a + 1) (vga_putchar c s))"

definition w_type :: "'a forth_scheme \<Rightarrow> 'a forth_scheme res" where
  "w_type s = (let (len, s) = ds_pop s; (a, s) = ds_pop s in type_chars (nat (sint len)) a s)"
definition w_dot_quote :: "'a forth_scheme \<Rightarrow> 'a forth_scheme" where
  "w_dot_quote s = (let (buf, s) = parse_until 34 128 s in vga_puts buf s)"
definition w_paren :: "'a forth_scheme \<Rightarrow> 'a forth_scheme" where
  "w_paren s = snd (parse_until 41 256 s)"
definition w_dot_hex :: "'a forth_scheme \<Rightarrow> 'a forth_scheme" where
  "w_dot_hex s = (let (v, s) = ds_pop s; s = vga_put_hex v s in vga_putchar 32 s)"

definition w_words :: "nat \<Rightarrow> 'a forth_scheme \<Rightarrow> 'a forth_scheme res" where "w_words n s = dict_list_words n s"
definition w_clear :: "'a forth_scheme \<Rightarrow> 'a forth_scheme" where "w_clear s = vga_clear s"
definition w_decimal :: "'a forth_scheme \<Rightarrow> 'a forth_scheme" where "w_decimal s = s\<lparr>forth_base := 10\<rparr>"
definition w_hex :: "'a forth_scheme \<Rightarrow> 'a forth_scheme" where "w_hex s = s\<lparr>forth_base := 16\<rparr>"
definition w_base :: "'a forth_scheme \<Rightarrow> 'a forth_scheme" where
  "w_base s = ds_push (word_of_int (forth_base s)) s"

definition w_status :: "'a forth_scheme \<Rightarrow> 'a forth_scheme" where
  "w_status s =
     (let s = vga_puts (str ''=== System Status ===\<newline>'') s;
          s = vga_puts (str ''Ticks:       '') s; s = vga_puts (ultoa (kernel_ticks s) 10) s; s = vga_putchar 10 s;
          s = vga_puts (str ''Dict HERE:   '') s; s = vga_put_hex (dict_here s) s; s = vga_putchar 10 s;
          s = vga_puts (str ''Stack depth: '') s; s = vga_puts (itoa (ucast (ds_depth s)) 10) s; s = vga_putchar 10 s;
          s = vga_puts (str ''State:       '') s;
          s = vga_puts (if forth_state s \<noteq> 0 then str ''COMPILE'' else str ''INTERPRET'') s
      in vga_putchar 10 s)"

text \<open>The two loops of \<open>DUMP\<close>: the bytes one by one, and a row as characters.\<close>

fun dump_row :: "nat list \<Rightarrow> u64 \<Rightarrow> 'a forth_scheme \<Rightarrow> 'a forth_scheme res" where
  "dump_row [] a s = Inr s"
| "dump_row (j # js) a s =
     rbind (load8 (a - of_nat j) s) (\<lambda>c.
     dump_row js a (vga_putchar (if sint c \<ge> 32 \<and> sint c < 127 then c else 46) s))"

fun dump_from :: "nat \<Rightarrow> nat \<Rightarrow> u64 \<Rightarrow> 'a forth_scheme \<Rightarrow> 'a forth_scheme res" where
  "dump_from i 0 a s = Inr s"
| "dump_from i (Suc n) a s =
     (let s = (if i mod 16 = 0 then vga_puts (str '': '') (vga_put_hex (a + of_nat i) s) else s) in
      rbind (load8 (a + of_nat i) s) (\<lambda>b.
      let buf = utoa (ucast b) 16;
          s = (if b < 16 then vga_putchar 48 s else s);
          s = vga_puts buf s;
          s = vga_putchar 32 s
      in
      rbind
        (if i mod 16 = 15 then
           rbind (dump_row (rev [0..<16]) (a + of_nat i) (vga_puts (str '' | '') s)) (\<lambda>s.
           Inr (vga_putchar 10 s))
         else Inr s) (\<lambda>s. dump_from (i + 1) n a s)))"

definition w_dump :: "'a forth_scheme \<Rightarrow> 'a forth_scheme res" where
  "w_dump s =
     (let (count, s) = ds_pop s; (a, s) = ds_pop s in
      rbind (dump_from 0 (nat (sint count)) a s) (\<lambda>s.
      Inr (if sint count mod 16 \<noteq> 0 then vga_putchar 10 s else s)))"

primrec run_io_word :: "io_word \<Rightarrow> nat \<Rightarrow> 'a forth_scheme \<Rightarrow> 'a forth_scheme res" where
  "run_io_word W_dot n s = Inr (w_dot s)" | "run_io_word W_u_dot n s = Inr (w_u_dot s)"
| "run_io_word W_dot_s n s = Inr (w_dot_s s)" | "run_io_word W_emit n s = Inr (w_emit s)"
| "run_io_word W_cr n s = Inr (w_cr s)" | "run_io_word W_space n s = Inr (w_space s)"
| "run_io_word W_spaces n s = Inr (w_spaces s)" | "run_io_word W_type n s = w_type s"
| "run_io_word W_dot_quote n s = Inr (w_dot_quote s)" | "run_io_word W_paren n s = Inr (w_paren s)"
| "run_io_word W_dot_hex n s = Inr (w_dot_hex s)" | "run_io_word W_words n s = w_words n s"
| "run_io_word W_clear n s = Inr (w_clear s)" | "run_io_word W_decimal n s = Inr (w_decimal s)"
| "run_io_word W_hex n s = Inr (w_hex s)" | "run_io_word W_base n s = Inr (w_base s)"
| "run_io_word W_status n s = Inr (w_status s)" | "run_io_word W_dump n s = w_dump s"

section \<open>The compiler\<close>

definition w_colon :: "platform \<Rightarrow> 'a forth_scheme \<Rightarrow> 'a forth_scheme res" where
  "w_colon P s =
     (let (name, s) = parse_word 64 s in
      if name = [] then Inr s
      else
        rbind (dict_create name F_HIDDEN s) (\<lambda>s.
        rbind (dict_set_code (link P Do_colon) s) (\<lambda>s.
        Inr (s\<lparr>forth_state := STATE_COMPILE\<rparr>))))"

definition SENTINEL_EXIT :: u64 where "SENTINEL_EXIT = 0xDEADC0DE00000000"

definition w_semicolon :: "'a forth_scheme \<Rightarrow> 'a forth_scheme res" where
  "w_semicolon s =
     rbind (dict_comma SENTINEL_EXIT s) (\<lambda>s.
     rbind (load8 (dict_latest s + 8) s) (\<lambda>b.
     rbind (store8 (dict_latest s + 8) (b AND NOT F_HIDDEN) s) (\<lambda>s.
     Inr (s\<lparr>forth_state := STATE_INTERPRET\<rparr>))))"

definition w_create :: "platform \<Rightarrow> 'a forth_scheme \<Rightarrow> 'a forth_scheme res" where
  "w_create P s =
     (let (name, s) = parse_word 64 s in
      if name = [] then Inr s
      else rbind (dict_create name 0 s) (\<lambda>s. dict_set_code (link P Do_variable) s))"

definition w_variable :: "platform \<Rightarrow> 'a forth_scheme \<Rightarrow> 'a forth_scheme res" where
  "w_variable P s = rbind (w_create P s) (\<lambda>s. dict_comma 0 s)"

definition w_constant :: "platform \<Rightarrow> 'a forth_scheme \<Rightarrow> 'a forth_scheme res" where
  "w_constant P s =
     (let (name, s) = parse_word 64 s in
      if name = [] then Inr s
      else
        rbind (dict_create name 0 s) (\<lambda>s.
        rbind (dict_set_code (link P Do_constant) s) (\<lambda>s.
        let (v, s) = ds_pop s in dict_comma v s)))"

definition w_immediate :: "'a forth_scheme \<Rightarrow> 'a forth_scheme res" where
  "w_immediate s =
     (if dict_latest s \<noteq> 0 then
        rbind (load8 (dict_latest s + 8) s) (\<lambda>b. store8 (dict_latest s + 8) (b XOR F_IMMEDIATE) s)
      else Inr s)"

definition w_tick :: "nat \<Rightarrow> 'a forth_scheme \<Rightarrow> 'a forth_scheme res" where
  "w_tick n s =
     (let (name, s) = parse_word 64 s in
      if name \<noteq> [] then
        rbind (dict_find n name s) (\<lambda>entry.
        if entry \<noteq> 0 then Inr (ds_push entry s)
        else let s = vga_puts name s in Inr (vga_puts (str '' ? Not found\<newline>'') s))
      else Inr s)"

text \<open>\<open>SEE\<close>: the name, the kind of word, and the body cell by cell up to the sentinel.\<close>

definition in_dictionary :: "u64 \<Rightarrow> bool" where
  "in_dictionary a \<longleftrightarrow> \<not> (a < DICT_VIRT_BASE \<or> a \<ge> DICT_VIRT_BASE + DICT_SIZE)"

definition put_name :: "u64 \<Rightarrow> 'a forth_scheme \<Rightarrow> 'a forth_scheme res" where
  "put_name entry s =
     rbind (dict_get_name_len entry s) (\<lambda>nlen.
     rbind (type_chars (unat nlen) (dict_get_name entry) s) (\<lambda>s.
     Inr (vga_putchar 32 s)))"

fun see_body :: "platform \<Rightarrow> nat \<Rightarrow> u64 \<Rightarrow> 'a forth_scheme \<Rightarrow> 'a forth_scheme res" where
  "see_body P 0 pfa s = Inl OutOfFuel"
| "see_body P (Suc n) pfa s =
     rbind (load64 pfa s) (\<lambda>cell.
     if cell = SENTINEL_EXIT then Inr s
     else if cell = link P Do_literal then
       let pfa = pfa + 8 in
       rbind (load64 pfa s) (\<lambda>v.
       let s = vga_puts (ltoa v 10) s; s = vga_putchar 32 s in see_body P n (pfa + 8) s)
     else
       rbind (if in_dictionary cell then put_name cell s else Inr (vga_puts (str ''??? '') s)) (\<lambda>s.
       see_body P n (pfa + 8) s))"

definition w_see :: "platform \<Rightarrow> 'a forth_scheme \<Rightarrow> 'a forth_scheme res" where
  "w_see P s =
     (let (name, s) = parse_word 64 s in
      if name = [] then Inr s
      else
        rbind (dict_find (loop_bound P) name s) (\<lambda>entry.
        if entry = 0 then Inr (vga_puts (str '' ? Not found\<newline>'') s)
        else
          rbind (dict_get_code_field entry s) (\<lambda>cf.
          rbind (put_name entry (vga_puts (str '': '') s)) (\<lambda>s.
          rbind (load64 cf s) (\<lambda>code.
          if code = link P Do_variable then Inr (vga_puts (str ''VARIABLE\<newline>'') s)
          else if code = link P Do_constant then Inr (vga_puts (str ''CONSTANT\<newline>'') s)
          else if code \<noteq> link P Do_colon then Inr (vga_puts (str ''<native>\<newline>'') s)
          else
            rbind (dict_get_param_field entry s) (\<lambda>pfa.
            rbind (see_body P (loop_bound P) pfa s) (\<lambda>s.
            Inr (vga_puts (str '';\<newline>'') s))))))))"

section \<open>Control structures\<close>

definition w_if :: "platform \<Rightarrow> 'a forth_scheme \<Rightarrow> 'a forth_scheme res" where
  "w_if P s =
     rbind (dict_comma (link P (F_rstack Rt_0branch)) s) (\<lambda>s.
     dict_comma 0 (ds_push (dict_here s) s))"

definition w_else :: "platform \<Rightarrow> 'a forth_scheme \<Rightarrow> 'a forth_scheme res" where
  "w_else P s =
     rbind (dict_comma (link P (F_rstack Rt_branch)) s) (\<lambda>s.
     let e = dict_here s in
     rbind (dict_comma 0 s) (\<lambda>s.
     let (a, s) = ds_pop s in
     rbind (store64 a (dict_here s) s) (\<lambda>s. Inr (ds_push e s))))"

definition w_then :: "'a forth_scheme \<Rightarrow> 'a forth_scheme res" where
  "w_then s = (let (a, s) = ds_pop s in store64 a (dict_here s) s)"

definition w_begin :: "'a forth_scheme \<Rightarrow> 'a forth_scheme" where
  "w_begin s = ds_push (dict_here s) s"

definition w_until :: "platform \<Rightarrow> 'a forth_scheme \<Rightarrow> 'a forth_scheme res" where
  "w_until P s =
     (let (b, s) = ds_pop s in
      rbind (dict_comma (link P (F_rstack Rt_0branch)) s) (\<lambda>s. dict_comma b s))"

definition w_again :: "platform \<Rightarrow> 'a forth_scheme \<Rightarrow> 'a forth_scheme res" where
  "w_again P s =
     (let (b, s) = ds_pop s in
      rbind (dict_comma (link P (F_rstack Rt_branch)) s) (\<lambda>s. dict_comma b s))"

definition w_while :: "platform \<Rightarrow> 'a forth_scheme \<Rightarrow> 'a forth_scheme res" where
  "w_while P s =
     rbind (dict_comma (link P (F_rstack Rt_0branch)) s) (\<lambda>s.
     dict_comma 0 (ds_push (dict_here s) s))"

definition w_repeat :: "platform \<Rightarrow> 'a forth_scheme \<Rightarrow> 'a forth_scheme res" where
  "w_repeat P s =
     (let (w, s) = ds_pop s; (b, s) = ds_pop s in
      rbind (dict_comma (link P (F_rstack Rt_branch)) s) (\<lambda>s.
      rbind (dict_comma b s) (\<lambda>s.
      store64 w (dict_here s) s)))"

definition w_do :: "platform \<Rightarrow> 'a forth_scheme \<Rightarrow> 'a forth_scheme res" where
  "w_do P s = rbind (dict_comma (link P (F_rstack Rt_do)) s) (\<lambda>s. Inr (ds_push (dict_here s) s))"

definition w_loop :: "platform \<Rightarrow> 'a forth_scheme \<Rightarrow> 'a forth_scheme res" where
  "w_loop P s =
     (let (d, s) = ds_pop s in
      rbind (dict_comma (link P (F_rstack Rt_loop)) s) (\<lambda>s. dict_comma d s))"

primrec run_compiler_word :: "compiler_word \<Rightarrow> platform \<Rightarrow> 'a forth_scheme \<Rightarrow> 'a forth_scheme res" where
  "run_compiler_word W_colon P s = w_colon P s" | "run_compiler_word W_semicolon P s = w_semicolon s"
| "run_compiler_word W_create P s = w_create P s" | "run_compiler_word W_variable P s = w_variable P s"
| "run_compiler_word W_constant P s = w_constant P s" | "run_compiler_word W_immediate P s = w_immediate s"
| "run_compiler_word W_tick P s = w_tick (loop_bound P) s" | "run_compiler_word W_see P s = w_see P s"
| "run_compiler_word W_if P s = w_if P s" | "run_compiler_word W_else P s = w_else P s"
| "run_compiler_word W_then P s = w_then s" | "run_compiler_word W_begin P s = Inr (w_begin s)"
| "run_compiler_word W_until P s = w_until P s" | "run_compiler_word W_again P s = w_again P s"
| "run_compiler_word W_while P s = w_while P s" | "run_compiler_word W_repeat P s = w_repeat P s"
| "run_compiler_word W_do P s = w_do P s" | "run_compiler_word W_loop P s = w_loop P s"

section \<open>Blocks and tasks\<close>

definition w_fork :: "platform \<Rightarrow> 'a forth_scheme \<Rightarrow> 'a forth_scheme res" where
  "w_fork P s =
     (let (xt, s) = ds_pop s; s = s\<lparr>fork_target_xt := xt\<rparr> in
      rbind (task_create (loop_bound P) (exit_routine P) (thread_wrapper P) s) (\<lambda>(new_task, s).
      rbind (task_pid new_task s) (\<lambda>pid. Inr (ds_push (ucast pid) s))))"

text \<open>A switch to another task leaves this one; what the others do meanwhile is not followed.\<close>

definition w_yield :: "platform \<Rightarrow> 'a forth_scheme \<Rightarrow> 'a forth_scheme res" where
  "w_yield P s =
     rbind (yield (loop_bound P) s) (\<lambda>(sw, s).
     case sw of None \<Rightarrow> Inr s | Some _ \<Rightarrow> Inl Unmodelled)"

definition w_block :: "platform \<Rightarrow> 'a forth_scheme \<Rightarrow> 'a forth_scheme res" where
  "w_block P s =
     (let (v, s) = ds_pop s in
      rbind (block_get (devices P) (loop_bound P) (ucast v) s) (\<lambda>(blk, s).
      Inr (ds_push (blk_data blk) s)))"

definition w_update :: "'a forth_scheme \<Rightarrow> 'a forth_scheme res" where "w_update s = block_update s"
definition w_flush :: "platform \<Rightarrow> 'a forth_scheme \<Rightarrow> 'a forth_scheme res" where
  "w_flush P s = block_flush (devices P) (loop_bound P) s"

definition w_bye :: "'a forth_scheme \<Rightarrow> 'a forth_scheme res" where
  "w_bye s = (let s = vga_puts (str ''\<newline>System halted.\<newline>'') s in Inl Halted)"

section \<open>The block editor\<close>

text \<open>One turn of \<open>run_editor\<close> draws the screen and handles one key.\<close>

fun draw_cells :: "nat list \<Rightarrow> u64 \<Rightarrow> nat \<Rightarrow> 'a forth_scheme \<Rightarrow> 'a forth_scheme res" where
  "draw_cells [] data cursor s = Inr s"
| "draw_cells (i # is) data cursor s =
     (let s = (if i mod 64 = 0 \<and> i \<noteq> 0 then vga_putchar 10 s else s);
          s = (if i = cursor then vga_set_color VGA_COLOR_BLACK VGA_COLOR_LIGHT_GREY s else s)
      in
      rbind (load8 (data + of_nat i) s) (\<lambda>c.
      let c = (if sint c < 32 \<or> sint c > 126 then 46 else c);
          s = vga_putchar c s;
          s = (if i = cursor then vga_set_color VGA_COLOR_LIGHT_GREY VGA_COLOR_BLACK s else s)
      in draw_cells is data cursor s))"

definition draw_editor :: "u32 \<Rightarrow> u64 \<Rightarrow> nat \<Rightarrow> 'a forth_scheme \<Rightarrow> 'a forth_scheme res" where
  "draw_editor block_num data cursor s =
     (let s = vga_clear s;
          s = vga_set_color VGA_COLOR_WHITE VGA_COLOR_BLUE s;
          s = vga_puts (str ''=== VECTOR FORTH BLOCK EDITOR === [Block '') s;
          s = vga_puts (itoa block_num 10) s;
          s = vga_puts (str ''] === (Press ESC to Save/Exit) ===\<newline>'') s;
          s = vga_set_color VGA_COLOR_LIGHT_GREY VGA_COLOR_BLACK s
      in draw_cells [0..<960] data cursor s)"

text \<open>Waiting for a key: with no other task to run, only an interrupt ends the wait.\<close>

definition wait_key :: "platform \<Rightarrow> 'a forth_scheme \<Rightarrow> (u8 \<times> 'a forth_scheme) res" where
  "wait_key P s =
     rbind (if keyboard_available s then Inr s
            else rbind (w_yield P s) (\<lambda>s. Inl Halted)) (\<lambda>s.
     keyboard_getchar s)"

definition editor_key :: "u8 \<Rightarrow> u64 \<Rightarrow> nat \<Rightarrow> 'a forth_scheme \<Rightarrow> (nat \<times> 'a forth_scheme) res" where
  "editor_key key data cursor s =
     (if key = 8 then
        (if cursor > 0 then
           let cursor = cursor - 1 in
           rbind (store8 (data + of_nat cursor) 0 s) (\<lambda>s. Inr (cursor, s))
         else Inr (cursor, s))
      else if key = 10 then
        let cursor = (cursor div 64 + 1) * 64 in Inr (if cursor \<ge> 960 then 959 else cursor, s)
      else if sint key \<ge> 32 \<and> sint key \<le> 126 then
        rbind (store8 (data + of_nat cursor) key s) (\<lambda>s.
        Inr (if cursor < 959 then cursor + 1 else cursor, s))
      else Inr (cursor, s))"

fun editor_loop :: "platform \<Rightarrow> nat \<Rightarrow> u32 \<Rightarrow> u64 \<Rightarrow> nat \<Rightarrow> 'a forth_scheme \<Rightarrow> 'a forth_scheme res" where
  "editor_loop P 0 block_num data cursor s = Inl OutOfFuel"
| "editor_loop P (Suc n) block_num data cursor s =
     rbind (draw_editor block_num data cursor s) (\<lambda>s.
     rbind (wait_key P s) (\<lambda>(key, s).
     if key = 27 then Inr s
     else rbind (editor_key key data cursor s) (\<lambda>(cursor, s). editor_loop P n block_num data cursor s)))"

definition run_editor :: "platform \<Rightarrow> u32 \<Rightarrow> 'a forth_scheme \<Rightarrow> 'a forth_scheme res" where
  "run_editor P block_num s =
     rbind (block_get (devices P) (loop_bound P) block_num s) (\<lambda>(blk, s).
     rbind (editor_loop P (loop_bound P) block_num (blk_data blk) 0 s) (\<lambda>s.
     rbind (block_update s) (\<lambda>s.
     rbind (block_flush (devices P) (loop_bound P) s) (\<lambda>s.
     Inr (vga_clear s)))))"

definition w_edit :: "platform \<Rightarrow> 'a forth_scheme \<Rightarrow> 'a forth_scheme res" where
  "w_edit P s = (let (v, s) = ds_pop s in run_editor P (ucast v) s)"

end
