(* ===== verification/Forth.thy ===== *)
theory Forth
  imports Primitives
begin

text \<open>
  The interpreters of \<open>vm/core/forth.c\<close>: the inner interpreter over threaded code, the
  outer interpreter over the words of a line, and the read-eval-print loop.  They call each
  other (a word can load a block of source), so they are one recursion on fuel.
\<close>

section \<open>Calling a code field\<close>

definition all_fsyms :: "fsym list" where
  "all_fsyms =
     [Do_colon, Do_literal, Do_variable, Do_constant]
     @ map F_stack [W_dup, W_drop, W_swap, W_over, W_rot, W_nip, W_tuck, W_2dup, W_2drop, W_2swap,
         W_qdup, W_depth, W_vdup, W_vplus]
     @ map F_arith [W_plus, W_minus, W_mul, W_div, W_mod, W_divmod, W_negate, W_abs, W_min, W_max,
         W_1plus, W_1minus, W_2star, W_2slash]
     @ map F_logic [W_and, W_or, W_xor, W_invert, W_lshift, W_rshift, W_eq, W_neq, W_lt, W_gt,
         W_le, W_ge, W_0eq, W_0lt, W_0gt]
     @ map F_rstack [W_to_r, W_from_r, W_r_fetch, W_i, Rt_do, Rt_loop, Rt_branch, Rt_0branch]
     @ map F_memory [W_fetch, W_store, W_cfetch, W_cstore, W_plus_store, W_here, W_allot, W_comma, W_c_comma]
     @ map F_io [W_dot, W_u_dot, W_dot_s, W_emit, W_cr, W_space, W_spaces, W_type, W_dot_quote,
         W_paren, W_dot_hex, W_words, W_clear, W_decimal, W_hex, W_base, W_status, W_dump]
     @ map F_compiler [W_colon, W_semicolon, W_create, W_variable, W_constant, W_immediate, W_tick,
         W_see, W_if, W_else, W_then, W_begin, W_until, W_again, W_while, W_repeat, W_do, W_loop]
     @ map F_system [W_execute, W_load, W_fork, W_yield, W_block, W_update, W_flush, W_bye, W_edit]"

text \<open>The function at an address, by the link map.\<close>

definition fsym_at :: "platform \<Rightarrow> u64 \<Rightarrow> fsym option" where
  "fsym_at P a = find (\<lambda>f. link P f = a) all_fsyms"

text \<open>The functions that do not call an interpreter.\<close>

fun run_fsym :: "platform \<Rightarrow> fsym \<Rightarrow> 'a forth_scheme \<Rightarrow> 'a forth_scheme res" where
  "run_fsym P Do_colon s = Inr s"
| "run_fsym P Do_literal s = rbind (ip_fetch_advance s) (\<lambda>(v, s). Inr (ds_push v s))"
| "run_fsym P Do_variable s = Inr s"
| "run_fsym P Do_constant s = Inr s"
| "run_fsym P (F_stack w) s = Inr (run_stack_word w s)"
| "run_fsym P (F_arith w) s = run_arith_word w s"
| "run_fsym P (F_logic w) s = Inr (run_logic_word w s)"
| "run_fsym P (F_rstack w) s = run_rstack_word w s"
| "run_fsym P (F_memory w) s = run_memory_word w s"
| "run_fsym P (F_io w) s = run_io_word w (loop_bound P) s"
| "run_fsym P (F_compiler w) s = run_compiler_word w P s"
| "run_fsym P (F_system W_fork) s = w_fork P s"
| "run_fsym P (F_system W_yield) s = w_yield P s"
| "run_fsym P (F_system W_block) s = w_block P s"
| "run_fsym P (F_system W_update) s = w_update s"
| "run_fsym P (F_system W_flush) s = w_flush P s"
| "run_fsym P (F_system W_bye) s = w_bye s"
| "run_fsym P (F_system W_edit) s = w_edit P s"
| "run_fsym P (F_system W_execute) s = Inl Unmodelled"
| "run_fsym P (F_system W_load) s = Inl Unmodelled"

text \<open>The 1008 bytes of a block as a line: what is not printable becomes a space.\<close>

definition block_text :: "u64 \<Rightarrow> 'a forth_scheme \<Rightarrow> cstring res" where
  "block_text blk s =
     rbind (load_bytes (blk_data blk) BLOCK_DATA_SIZE s) (\<lambda>bs.
     Inr (map (\<lambda>c. if sint c < 32 \<or> sint c > 126 then 32 else c) bs))"

section \<open>The interpreters\<close>

text \<open>
  \<open>eval_loop\<close> is the loop of \<open>forth_eval\<close>, \<open>call_native\<close> the call through a code
  field.  Each turn of a loop and each call between the interpreters takes one unit of fuel.
\<close>

fun forth_execute :: "platform \<Rightarrow> nat \<Rightarrow> u64 \<Rightarrow> 'a forth_scheme \<Rightarrow> 'a forth_scheme res"
  and forth_inner :: "platform \<Rightarrow> nat \<Rightarrow> 'a forth_scheme \<Rightarrow> 'a forth_scheme res"
  and call_native :: "platform \<Rightarrow> nat \<Rightarrow> u64 \<Rightarrow> 'a forth_scheme \<Rightarrow> 'a forth_scheme res"
  and eval_loop :: "platform \<Rightarrow> nat \<Rightarrow> 'a forth_scheme \<Rightarrow> 'a forth_scheme res"
where
  "forth_execute P 0 entry s = Inl OutOfFuel"
| "forth_execute P (Suc n) entry s =
     rbind (dict_get_code_field entry s) (\<lambda>code_field.
     rbind (load64 code_field s) (\<lambda>code.
     if code = link P Do_colon then
       let s = rs_push (ip_get s) s in
       rbind (dict_get_param_field entry s) (\<lambda>p. forth_inner P n (ip_set p s))
     else if code = link P Do_variable then
       rbind (dict_get_param_field entry s) (\<lambda>p. Inr (ds_push p s))
     else if code = link P Do_constant then
       rbind (dict_get_param_field entry s) (\<lambda>p.
       rbind (load64 p s) (\<lambda>v. Inr (ds_push v s)))
     else call_native P n code s))"
| "forth_inner P 0 s = Inl OutOfFuel"
| "forth_inner P (Suc n) s =
     rbind (ip_fetch_advance s) (\<lambda>(cell, s).
     if cell = SENTINEL_EXIT then
       let (saved_ip, s) = rs_pop s; s = ip_set saved_ip s
       in if saved_ip = 0 then Inr s else forth_inner P n s
     else if cell = link P Do_literal then
       rbind (ip_fetch_advance s) (\<lambda>(v, s). forth_inner P n (ds_push v s))
     else
       let entry = cell in
       if entry < DICT_VIRT_BASE \<or> entry \<ge> DICT_VIRT_BASE + DICT_SIZE then
         Inr (vga_puts (str '' Invalid word address!\<newline>'') s)
       else
         rbind (dict_get_code_field entry s) (\<lambda>code_field.
         rbind (load64 code_field s) (\<lambda>code.
         if code = link P Do_colon then
           let s = rs_push (ip_get s) s in
           rbind (dict_get_param_field entry s) (\<lambda>p. forth_inner P n (ip_set p s))
         else if code = link P Do_variable then
           rbind (dict_get_param_field entry s) (\<lambda>p. forth_inner P n (ds_push p s))
         else if code = link P Do_constant then
           rbind (dict_get_param_field entry s) (\<lambda>p.
           rbind (load64 p s) (\<lambda>v. forth_inner P n (ds_push v s)))
         else rbind (call_native P n code s) (\<lambda>s. forth_inner P n s))))"
| "call_native P 0 code s = Inl OutOfFuel"
| "call_native P (Suc n) code s =
     (case fsym_at P code of
        None \<Rightarrow> Inl (BadCall code)
      | Some (F_system W_execute) \<Rightarrow>
          (let (xt, s) = ds_pop s in forth_execute P n xt s)
      | Some (F_system W_load) \<Rightarrow>
          (let (v, s) = ds_pop s; blk_num = (ucast v :: u32) in
           rbind (block_get (devices P) (loop_bound P) blk_num s) (\<lambda>(blk, s).
           let saved_ptr = parse_ptr s in
           rbind (block_text blk s) (\<lambda>buf.
           let s = vga_puts (str ''\<newline>[Loading Block '') s;
               s = vga_puts (itoa blk_num 10) s;
               s = vga_puts (str ''...]\<newline>'') s
           in
           rbind (eval_loop P n (s\<lparr>parse_ptr := buf\<rparr>)) (\<lambda>s.
           Inr (s\<lparr>parse_ptr := saved_ptr\<rparr>)))))
      | Some f \<Rightarrow> run_fsym P f s)"
| "eval_loop P 0 s = Inl OutOfFuel"
| "eval_loop P (Suc n) s =
     (let (token, s) = parse_word 64 s in
      if token = [] then
        Inr (if forth_state s = STATE_INTERPRET then vga_puts (str '' ok\<newline>'') s else s)
      else
        rbind (dict_find (loop_bound P) token s) (\<lambda>entry.
        if entry \<noteq> 0 then
          rbind (dict_get_flags entry s) (\<lambda>flags.
          rbind
            (if forth_state s = STATE_COMPILE \<and> flags AND F_IMMEDIATE = 0 then dict_comma entry s
             else forth_execute P n entry s) (\<lambda>s.
          eval_loop P n s))
        else
          case try_parse_number token s of
            Some num \<Rightarrow>
              rbind
                (if forth_state s = STATE_COMPILE then
                   rbind (dict_comma (link P Do_literal) s) (\<lambda>s. dict_comma num s)
                 else Inr (ds_push num s)) (\<lambda>s.
              eval_loop P n s)
          | None \<Rightarrow>
              let s = vga_puts token s; s = vga_puts (str '' ? Unknown word\<newline>'') s
              in Inr (s\<lparr>forth_state := STATE_INTERPRET\<rparr>)))"

definition forth_eval :: "platform \<Rightarrow> nat \<Rightarrow> cstring \<Rightarrow> 'a forth_scheme \<Rightarrow> 'a forth_scheme res" where
  "forth_eval P n line s = eval_loop P n (s\<lparr>parse_ptr := line\<rparr>)"

definition forth_thread_wrapper :: "platform \<Rightarrow> nat \<Rightarrow> 'a forth_scheme \<Rightarrow> 'a forth_scheme res" where
  "forth_thread_wrapper P n s =
     (if fork_target_xt s \<noteq> 0 then forth_execute P n (fork_target_xt s) s else Inr s)"

section \<open>Start-up\<close>

text \<open>The primitives in the order in which they are registered; \<open>[39]\<close> is the tick.\<close>

definition primitives :: "(cstring \<times> fsym \<times> u8) list" where
  "primitives =
     [(str ''DUP'', F_stack W_dup, 0), (str ''DROP'', F_stack W_drop, 0),
      (str ''SWAP'', F_stack W_swap, 0), (str ''OVER'', F_stack W_over, 0),
      (str ''ROT'', F_stack W_rot, 0), (str ''NIP'', F_stack W_nip, 0),
      (str ''TUCK'', F_stack W_tuck, 0), (str ''2DUP'', F_stack W_2dup, 0),
      (str ''2DROP'', F_stack W_2drop, 0), (str ''2SWAP'', F_stack W_2swap, 0),
      (str ''?DUP'', F_stack W_qdup, 0), (str ''DEPTH'', F_stack W_depth, 0),
      (str ''+'', F_arith W_plus, 0), (str ''-'', F_arith W_minus, 0),
      (str ''*'', F_arith W_mul, 0), (str ''/'', F_arith W_div, 0),
      (str ''MOD'', F_arith W_mod, 0), (str ''/MOD'', F_arith W_divmod, 0),
      (str ''NEGATE'', F_arith W_negate, 0), (str ''ABS'', F_arith W_abs, 0),
      (str ''MIN'', F_arith W_min, 0), (str ''MAX'', F_arith W_max, 0),
      (str ''1+'', F_arith W_1plus, 0), (str ''1-'', F_arith W_1minus, 0),
      (str ''2*'', F_arith W_2star, 0), (str ''2/'', F_arith W_2slash, 0),
      (str ''AND'', F_logic W_and, 0), (str ''OR'', F_logic W_or, 0),
      (str ''XOR'', F_logic W_xor, 0), (str ''INVERT'', F_logic W_invert, 0),
      (str ''LSHIFT'', F_logic W_lshift, 0), (str ''RSHIFT'', F_logic W_rshift, 0),
      (str ''='', F_logic W_eq, 0), (str ''<>'', F_logic W_neq, 0),
      (str ''<'', F_logic W_lt, 0), (str ''>'', F_logic W_gt, 0),
      (str ''<='', F_logic W_le, 0), (str ''>='', F_logic W_ge, 0),
      (str ''0='', F_logic W_0eq, 0), (str ''0<'', F_logic W_0lt, 0),
      (str ''0>'', F_logic W_0gt, 0), (str ''>R'', F_rstack W_to_r, 0),
      (str ''R>'', F_rstack W_from_r, 0), (str ''R@'', F_rstack W_r_fetch, 0),
      (str ''@'', F_memory W_fetch, 0), (str ''!'', F_memory W_store, 0),
      (str ''C@'', F_memory W_cfetch, 0), (str ''C!'', F_memory W_cstore, 0),
      (str ''+!'', F_memory W_plus_store, 0), (str ''HERE'', F_memory W_here, 0),
      (str ''ALLOT'', F_memory W_allot, 0), (str '','', F_memory W_comma, 0),
      (str ''C,'', F_memory W_c_comma, 0), (str ''.'', F_io W_dot, 0),
      (str ''U.'', F_io W_u_dot, 0), (str ''.S'', F_io W_dot_s, 0),
      (str ''.HEX'', F_io W_dot_hex, 0), (str ''EMIT'', F_io W_emit, 0),
      (str ''CR'', F_io W_cr, 0), (str ''SPACE'', F_io W_space, 0),
      (str ''SPACES'', F_io W_spaces, 0), (str ''TYPE'', F_io W_type, 0),
      (str ''.\"'', F_io W_dot_quote, F_IMMEDIATE), (str ''('', F_io W_paren, F_IMMEDIATE),
      (str '':'', F_compiler W_colon, 0), (str '';'', F_compiler W_semicolon, F_IMMEDIATE),
      (str ''VARIABLE'', F_compiler W_variable, 0), (str ''CONSTANT'', F_compiler W_constant, 0),
      (str ''CREATE'', F_compiler W_create, 0), (str ''IMMEDIATE'', F_compiler W_immediate, 0),
      ([39], F_compiler W_tick, 0), (str ''EXECUTE'', F_system W_execute, 0),
      (str ''SEE'', F_compiler W_see, 0), (str ''IF'', F_compiler W_if, F_IMMEDIATE),
      (str ''ELSE'', F_compiler W_else, F_IMMEDIATE), (str ''THEN'', F_compiler W_then, F_IMMEDIATE),
      (str ''BEGIN'', F_compiler W_begin, F_IMMEDIATE), (str ''UNTIL'', F_compiler W_until, F_IMMEDIATE),
      (str ''AGAIN'', F_compiler W_again, F_IMMEDIATE), (str ''WHILE'', F_compiler W_while, F_IMMEDIATE),
      (str ''REPEAT'', F_compiler W_repeat, F_IMMEDIATE), (str ''DO'', F_compiler W_do, F_IMMEDIATE),
      (str ''LOOP'', F_compiler W_loop, F_IMMEDIATE), (str ''I'', F_rstack W_i, 0),
      (str ''WORDS'', F_io W_words, 0), (str ''STATUS'', F_io W_status, 0),
      (str ''DUMP'', F_io W_dump, 0), (str ''FORK'', F_system W_fork, 0),
      (str ''YIELD'', F_system W_yield, 0), (str ''CLEAR'', F_io W_clear, 0),
      (str ''BYE'', F_system W_bye, 0), (str ''BASE'', F_io W_base, 0),
      (str ''DECIMAL'', F_io W_decimal, 0), (str ''HEX'', F_io W_hex, 0),
      (str ''BLOCK'', F_system W_block, 0), (str ''UPDATE'', F_system W_update, 0),
      (str ''FLUSH'', F_system W_flush, 0), (str ''EDIT'', F_system W_edit, 0),
      (str ''VDUP'', F_stack W_vdup, 0), (str ''V+'', F_stack W_vplus, 0),
      (str ''LOAD'', F_system W_load, 0)]"

fun add_primitives :: "platform \<Rightarrow> (cstring \<times> fsym \<times> u8) list \<Rightarrow> 'a forth_scheme \<Rightarrow> 'a forth_scheme res" where
  "add_primitives P [] s = Inr s"
| "add_primitives P ((name, f, flags) # ps) s =
     rbind (dict_add_primitive name (link P f) flags s) (\<lambda>s. add_primitives P ps s)"

definition register_primitives :: "platform \<Rightarrow> 'a forth_scheme \<Rightarrow> 'a forth_scheme res" where
  "register_primitives P s = add_primitives P primitives s"

definition forth_init :: "platform \<Rightarrow> (memory \<Rightarrow> memory) \<Rightarrow> 'a forth_scheme \<Rightarrow> 'a forth_scheme res" where
  "forth_init P mmu s =
     (let s = ds_clear s; s = rs_clear s in
      rbind (dict_init (devices P) (loop_bound P) mmu s) (\<lambda>s.
      rbind (register_primitives P s) (\<lambda>s.
      let s = vga_set_color VGA_COLOR_LIGHT_GREEN VGA_COLOR_BLACK s;
          s = vga_puts (str ''\<newline>  Vector Forth OS v0.1\<newline>  Threaded-Code Compiler Ready\<newline>\<newline>'') s
      in Inr (vga_set_color VGA_COLOR_LIGHT_GREY VGA_COLOR_BLACK s))))"

section \<open>The read-eval-print loop\<close>

definition prompt :: "cstring \<Rightarrow> 'a forth_scheme \<Rightarrow> 'a forth_scheme" where
  "prompt p s =
     (let s = vga_set_color VGA_COLOR_LIGHT_CYAN VGA_COLOR_BLACK s; s = vga_puts p s
      in vga_set_color VGA_COLOR_WHITE VGA_COLOR_BLACK s)"

definition repl_start :: "'a forth_scheme \<Rightarrow> 'a forth_scheme" where
  "repl_start s = prompt (str ''> '') (s\<lparr>input_pos := 0\<rparr>)"

definition repl_key :: "platform \<Rightarrow> nat \<Rightarrow> u8 \<Rightarrow> 'a forth_scheme \<Rightarrow> 'a forth_scheme res" where
  "repl_key P n c s =
     (if c = 10 then
        let s = s\<lparr>input_buffer := (input_buffer s)[nat (input_pos s) := 0]\<rparr>;
            s = vga_putchar 10 s
        in
        rbind (if input_pos s > 0 then forth_eval P n (takeWhile (\<lambda>c. c \<noteq> 0) (input_buffer s)) s else Inr s) (\<lambda>s.
        let s = s\<lparr>input_pos := 0\<rparr>
        in Inr (prompt (if forth_state s = STATE_COMPILE then str ''| '' else str ''> '') s))
      else if c = 8 then
        Inr (if input_pos s > 0 then
               let s = s\<lparr>input_pos := input_pos s - 1\<rparr>;
                   s = vga_putchar 8 s; s = vga_putchar 32 s
               in vga_putchar 8 s
             else s)
      else if sint c \<ge> 32 \<and> input_pos s < INPUT_BUF_SIZE - 1 then
        let s = vga_putchar c s
        in Inr (s\<lparr>input_buffer := (input_buffer s)[nat (input_pos s) := c], input_pos := input_pos s + 1\<rparr>)
      else Inr s)"

text \<open>
  One turn of the loop.  Without a key it yields and waits for an interrupt.  The loop
  itself never ends: \<open>forth_run P n k\<close> is the state after \<open>k\<close> turns.
\<close>

definition repl_step :: "platform \<Rightarrow> nat \<Rightarrow> 'a forth_scheme \<Rightarrow> 'a forth_scheme res" where
  "repl_step P n s =
     (if keyboard_available s then rbind (keyboard_getchar s) (\<lambda>(c, s). repl_key P n c s)
      else w_yield P s)"

fun repl_steps :: "platform \<Rightarrow> nat \<Rightarrow> nat \<Rightarrow> 'a forth_scheme \<Rightarrow> 'a forth_scheme res" where
  "repl_steps P n 0 s = Inr s"
| "repl_steps P n (Suc k) s = rbind (repl_step P n s) (\<lambda>s. repl_steps P n k s)"

definition forth_run :: "platform \<Rightarrow> nat \<Rightarrow> nat \<Rightarrow> 'a forth_scheme \<Rightarrow> 'a forth_scheme res" where
  "forth_run P n k s = repl_steps P n k (repl_start s)"

end
