(* ===== verification/Threaded.thy ===== *)
theory Threaded
  imports Forth
begin
text \<open>
  What threaded code means.  The body of a colon word is a list of cells in the dictionary;
  \<open>means\<close> gives such a list its effect on the data stack as a list, by the stack effects
  of the words in it.  The inner interpreter is shown to compute that effect, to restore the
  return stack and the instruction pointer, and to change nothing else.
\<close>

section \<open>Link maps\<close>

definition link_ok :: "platform \<Rightarrow> bool" where
  "link_ok P \<longleftrightarrow> inj (link P) \<and> (\<forall>f. \<not> in_dictionary (link P f) \<and> link P f \<noteq> SENTINEL_EXIT)"

lemma all_fsyms_all: "f \<in> set all_fsyms"
proof (cases f)
  case (F_stack w) then show ?thesis by (cases w) (simp_all add: all_fsyms_def)
next
  case (F_arith w) then show ?thesis by (cases w) (simp_all add: all_fsyms_def)
next
  case (F_logic w) then show ?thesis by (cases w) (simp_all add: all_fsyms_def)
next
  case (F_rstack w) then show ?thesis by (cases w) (simp_all add: all_fsyms_def)
next
  case (F_memory w) then show ?thesis by (cases w) (simp_all add: all_fsyms_def)
next
  case (F_io w) then show ?thesis by (cases w) (simp_all add: all_fsyms_def)
next
  case (F_compiler w) then show ?thesis by (cases w) (simp_all add: all_fsyms_def)
next
  case (F_system w) then show ?thesis by (cases w) (simp_all add: all_fsyms_def)
qed (simp_all add: all_fsyms_def)

lemma find_link: "inj L \<Longrightarrow> f \<in> set fs \<Longrightarrow> find (\<lambda>g. L g = L f) fs = Some f"
  by (induction fs) (auto dest: injD)

lemma fsym_at_link [simp]: "link_ok P \<Longrightarrow> fsym_at P (link P f) = Some f"
  by (simp add: fsym_at_def link_ok_def find_link all_fsyms_all)

lemma link_eq [simp]: "link_ok P \<Longrightarrow> link P f = link P g \<longleftrightarrow> f = g"
  by (auto simp: link_ok_def dest: injD)

lemma link_cell:
  "link_ok P \<Longrightarrow> in_dictionary e \<Longrightarrow> e \<noteq> link P f"
  "link_ok P \<Longrightarrow> link P f \<noteq> SENTINEL_EXIT"
  "in_dictionary e \<Longrightarrow> e \<noteq> SENTINEL_EXIT"
  by (auto simp: link_ok_def in_dictionary_def SENTINEL_EXIT_def DICT_VIRT_BASE_def DICT_SIZE_def)

section \<open>Words and bodies in memory\<close>

definition word_at :: "memory \<Rightarrow> u64 \<Rightarrow> u64 \<Rightarrow> u64 \<Rightarrow> bool" where
  "word_at m e code p \<longleftrightarrow>
     (\<exists>b. rd8 m (e + 8) = Inr b \<and> p = align8 (e + 9 + ucast (b AND F_LENMASK)) + 8 \<and>
        rd64 m (p - 8) = Inr code)"

fun cells_at :: "memory \<Rightarrow> u64 \<Rightarrow> u64 list \<Rightarrow> bool" where
  "cells_at m a [] \<longleftrightarrow> True"
| "cells_at m a (c # cs) \<longleftrightarrow> rd64 m a = Inr c \<and> a + 8 \<noteq> 0 \<and> cells_at m (a + 8) cs"

lemma word_at_fields:
  assumes "word_at (vmem s) e code p"
  shows "dict_get_code_field e s = Inr (p - 8)" "dict_get_param_field e s = Inr p"
    "load64 (p - 8) s = Inr code"
  using assms
  by (auto simp: word_at_def dict_get_code_field_def dict_get_param_field_def dict_get_name_len_def
      load8_def load64_def Let_def add.commute add.left_commute)

lemma cells_at_append:
  "cells_at m a (cs @ bs) \<longleftrightarrow> cells_at m a cs \<and> cells_at m (a + 8 * of_nat (length cs)) bs"
  by (induction cs arbitrary: a) (auto simp: algebra_simps)

section \<open>The meaning of a body\<close>

fun pure_effect :: "fsym \<Rightarrow> i64 list \<Rightarrow> i64 list option" where
  "pure_effect (F_stack w) = stack_effect w"
| "pure_effect (F_arith w) = arith_effect w"
| "pure_effect (F_logic w) = logic_effect w"
| "pure_effect _ = (\<lambda>_. None)"

text \<open>
  \<open>means P m d cs xs ys\<close>: with at most \<open>d\<close> nested calls of colon words, the cells \<open>cs\<close>
  turn the stack \<open>xs\<close> into \<open>ys\<close>.
\<close>

inductive means :: "platform \<Rightarrow> memory \<Rightarrow> nat \<Rightarrow> u64 list \<Rightarrow> i64 list \<Rightarrow> i64 list \<Rightarrow> bool" for P m where
  nothing: "means P m d [] xs xs"
| literal: "length xs < 256 \<Longrightarrow> means P m d cs (v # xs) ys \<Longrightarrow>
     means P m d (link P Do_literal # v # cs) xs ys"
| var: "in_dictionary e \<Longrightarrow> word_at m e (link P Do_variable) p \<Longrightarrow> length xs < 256 \<Longrightarrow>
     means P m d cs (p # xs) ys \<Longrightarrow> means P m d (e # cs) xs ys"
| const: "in_dictionary e \<Longrightarrow> word_at m e (link P Do_constant) p \<Longrightarrow> rd64 m p = Inr v \<Longrightarrow>
     length xs < 256 \<Longrightarrow> means P m d cs (v # xs) ys \<Longrightarrow> means P m d (e # cs) xs ys"
| primitive: "in_dictionary e \<Longrightarrow> word_at m e (link P f) p \<Longrightarrow> pure_effect f xs = Some zs \<Longrightarrow>
     length zs \<le> 256 \<Longrightarrow> means P m d cs zs ys \<Longrightarrow> means P m d (e # cs) xs ys"
| colon: "in_dictionary e \<Longrightarrow> word_at m e (link P Do_colon) p \<Longrightarrow> cells_at m p (b @ [SENTINEL_EXIT]) \<Longrightarrow>
     means P m d b xs zs \<Longrightarrow> means P m (Suc d) cs zs ys \<Longrightarrow> means P m (Suc d) (e # cs) xs ys"

inductive_cases means_Nil: "means P m d [] xs ys"

section \<open>What the inner interpreter changes\<close>

text \<open>The stacks and the instruction pointer may differ; the return stack is the same list.\<close>

definition quiet :: "'a stacks_scheme \<Rightarrow> 'a stacks_scheme \<Rightarrow> bool" where
  "quiet s t \<longleftrightarrow> t\<lparr>ds := ds s, dsp := dsp s, rs := rs s, ip := ip s\<rparr> = s \<and>
     rstack t = rstack s \<and> stacks_ok t"

lemma quiet_refl: "stacks_ok s \<Longrightarrow> quiet s s"
  by (simp add: quiet_def)

lemma quiet_trans:
  assumes "quiet s t" "quiet t u"
  shows "quiet s u"
proof -
  have "u\<lparr>ds := ds s, dsp := dsp s, rs := rs s, ip := ip s\<rparr>
      = (u\<lparr>ds := ds t, dsp := dsp t, rs := rs t, ip := ip t\<rparr>)\<lparr>ds := ds s, dsp := dsp s, rs := rs s, ip := ip s\<rparr>"
    by simp
  also have "\<dots> = s" using assms by (simp add: quiet_def)
  finally show ?thesis using assms by (simp add: quiet_def)
qed

lemma quiet_ip: "quiet s t \<Longrightarrow> quiet s (t\<lparr>ip := a\<rparr>)"
  by (simp add: quiet_def rstack_def stacks_ok_def)

lemma quiet_vmem:
  assumes "quiet s t"
  shows "vmem t = vmem s"
proof -
  have eq: "t\<lparr>ds := ds s, dsp := dsp s, rs := rs s, ip := ip s\<rparr> = s" using assms by (simp add: quiet_def)
  have "vmem t = vmem (t\<lparr>ds := ds s, dsp := dsp s, rs := rs s, ip := ip s\<rparr>)" by simp
  then show ?thesis by (simp only: eq)
qed

lemma ds_only_rest:
  assumes "ds_only s t"
  shows "rs t = rs s" "rsp_idx t = rsp_idx s" "ip t = ip s"
proof -
  have eq: "t\<lparr>ds := ds s, dsp := dsp s\<rparr> = s" using assms by (simp add: ds_only_def)
  have "rs t = rs (t\<lparr>ds := ds s, dsp := dsp s\<rparr>)" "rsp_idx t = rsp_idx (t\<lparr>ds := ds s, dsp := dsp s\<rparr>)"
    "ip t = ip (t\<lparr>ds := ds s, dsp := dsp s\<rparr>)" by simp_all
  then show "rs t = rs s" "rsp_idx t = rsp_idx s" "ip t = ip s" by (simp_all only: eq)
qed

lemma quiet_ds_only:
  assumes "ds_only s t" "stacks_ok t"
  shows "quiet s t" "ip t = ip s"
proof -
  have "t\<lparr>ds := ds s, dsp := dsp s\<rparr> = s" using assms(1) by (simp add: ds_only_def)
  then have "(t\<lparr>ds := ds s, dsp := dsp s\<rparr>)\<lparr>rs := rs s, ip := ip s\<rparr> = s\<lparr>rs := rs s, ip := ip s\<rparr>"
    by (rule arg_cong)
  then have "t\<lparr>ds := ds s, dsp := dsp s, rs := rs s, ip := ip s\<rparr> = s" by simp
  moreover have "rstack t = rstack s" using ds_only_rest [OF assms(1)] by (simp add: rstack_def)
  ultimately show "quiet s t" using assms(2) unfolding quiet_def by blast
  show "ip t = ip s" by (rule ds_only_rest [OF assms(1)])
qed

lemma quiet_push:
  assumes "stacks_ok s" "length (dstack s) < 256"
  shows "quiet s (ds_push v s)" "dstack (ds_push v s) = v # dstack s" "ip (ds_push v s) = ip s"
  using quiet_ds_only [OF ds_only_push [OF ds_only_refl assms]] dstack_push [OF assms] assms(1) by auto

text \<open>A return address is pushed, the body runs, and the sentinel pops it again.\<close>

lemma quiet_call:
  assumes "stacks_ok s" "length (rstack s) < 256" "quiet ((rs_push a s)\<lparr>ip := p\<rparr>) t"
  shows "fst (rs_pop t) = a" "quiet s (snd (rs_pop t))" "dstack (snd (rs_pop t)) = dstack t"
proof -
  let ?u = "(rs_push a s)\<lparr>ip := p\<rparr>"
  have idx: "rsp_idx s < 256" "0 \<le> rsp_idx s"
    using assms(1,2) rstack_eq_iff_len [OF assms(1)] by (auto simp: stacks_ok_def)
  have push: "rs_push a s = s\<lparr>rs := (rs s)[nat (rsp_idx s) := a], rsp_idx := rsp_idx s + 1\<rparr>"
    using idx by (simp add: rs_push_def RETURN_STACK_SIZE_def)
  have ok: "stacks_ok t" and rt: "rstack t = a # rstack s"
    using assms(3) rstack_push [OF assms(1,2), of a] by (auto simp: quiet_def rstack_def)
  have eq: "t\<lparr>ds := ds ?u, dsp := dsp ?u, rs := rs ?u, ip := ip ?u\<rparr> = ?u"
    using assms(3) by (simp add: quiet_def)
  show "fst (rs_pop t) = a" using rs_pop_Cons [OF ok] rt by simp
  have pop: "snd (rs_pop t) = t\<lparr>rsp_idx := rsp_idx t - 1\<rparr>"
    using rs_pop_Cons [OF ok] rt by (simp add: rs_drop_def)
  show "dstack (snd (rs_pop t)) = dstack t" by (simp add: pop dstack_def)
  have ridx: "rsp_idx t = rsp_idx s + 1"
    using rstack_eq_iff_len [OF ok] rstack_eq_iff_len [OF assms(1)] rt by simp
  have "(t\<lparr>rsp_idx := rsp_idx s, ds := ds s, dsp := dsp s, rs := rs s, ip := ip s\<rparr>)
      = (t\<lparr>ds := ds ?u, dsp := dsp ?u, rs := rs ?u, ip := ip ?u\<rparr>)
          \<lparr>rsp_idx := rsp_idx s, rs := rs s, ip := ip s\<rparr>"
    by (simp add: push)
  also have "\<dots> = s" by (simp only: eq) (simp add: push)
  finally have "snd (rs_pop t)\<lparr>ds := ds s, dsp := dsp s, rs := rs s, ip := ip s\<rparr> = s"
    by (simp add: pop ridx)
  moreover have "rstack (snd (rs_pop t)) = rstack s" "stacks_ok (snd (rs_pop t))"
    using stacks_ok_rs_pop [OF ok] return_stack.cells_pop [OF ok] rt by simp_all
  ultimately show "quiet s (snd (rs_pop t))" by (simp add: quiet_def)
qed

section \<open>One cell\<close>

lemmas interpreter_simps = forth_execute.simps forth_inner.simps call_native.simps eval_loop.simps

declare interpreter_simps [simp del]

lemma fetch_cell:
  "cells_at (vmem s) (ip s) (c # cs) \<Longrightarrow> ip_fetch_advance s = Inr (c, s\<lparr>ip := ip s + 8\<rparr>)"
  by (simp add: ip_fetch_advance_def)

lemma inner_literal:
  assumes "link_ok P" "cells_at (vmem s) (ip s) (link P Do_literal # v # cs)"
  shows "forth_inner P (Suc n) s = forth_inner P n (ds_push v (s\<lparr>ip := ip s + 16\<rparr>))"
  using assms
  by (simp add: forth_inner.simps(2) ip_fetch_advance_def link_cell add.assoc)

lemma in_dictionary_range:
  "in_dictionary e \<Longrightarrow> \<not> e < DICT_VIRT_BASE" "in_dictionary e \<Longrightarrow> \<not> e \<ge> DICT_VIRT_BASE + DICT_SIZE"
  by (auto simp: in_dictionary_def)

lemma inner_word:
  assumes "link_ok P" "cells_at (vmem s) (ip s) (e # cs)" "in_dictionary e" "word_at (vmem s) e code p"
  shows "forth_inner P (Suc n) s =
    (let s' = s\<lparr>ip := ip s + 8\<rparr> in
     if code = link P Do_colon then forth_inner P n ((rs_push (ip s + 8) s')\<lparr>ip := p\<rparr>)
     else if code = link P Do_variable then forth_inner P n (ds_push p s')
     else if code = link P Do_constant then rbind (rd64 (vmem s) p) (\<lambda>v. forth_inner P n (ds_push v s'))
     else rbind (call_native P n code s') (forth_inner P n))"
proof -
  have w: "word_at (vmem (s\<lparr>ip := ip s + 8\<rparr>)) e code p" using assms(4) by simp
  have r: "vmem (rs_push a t) = vmem t" for a and t :: "'a forth_scheme"
    by (simp add: rs_push_def vga_vmem)
  have w': "word_at (vmem (rs_push (ip s + 8) (s\<lparr>ip := ip s + 8\<rparr>))) e code p" using assms(4) by (simp add: r)
  have c: "rd64 (vmem s) (p - 8) = Inr code" using assms(4) by (auto simp: word_at_def)
  show ?thesis
    unfolding forth_inner.simps(2)
    by (simp add: c fetch_cell [OF assms(2)] link_cell(2) [OF assms(1)] link_cell(1) [OF assms(1,3)]
        link_cell(3) [OF assms(3)] in_dictionary_range [OF assms(3)] word_at_fields [OF w]
        word_at_fields [OF w'] ip_get_def ip_set_def load64_def Let_def)
qed

lemma inner_sentinel:
  assumes "cells_at (vmem s) (ip s) (SENTINEL_EXIT # cs)"
  shows "forth_inner P (Suc n) s =
    (let (a, t) = rs_pop (s\<lparr>ip := ip s + 8\<rparr>); t = t\<lparr>ip := a\<rparr>
     in if a = 0 then Inr t else forth_inner P n t)"
  unfolding forth_inner.simps(2)
  by (simp add: fetch_cell [OF assms] ip_set_def Let_def split: prod.split)

lemma pure_run:
  assumes "stacks_ok s" "pure_effect f (dstack s) = Some zs" "length zs \<le> 256"
  shows "\<exists>t. run_fsym P f s = Inr t \<and> quiet s t \<and> ip t = ip s \<and> dstack t = zs"
proof (cases f)
  case (F_stack w)
  with stack_word_refines [OF assms(1), of w zs] assms show ?thesis by (auto intro: quiet_ds_only)
next
  case (F_arith w)
  with arith_word_refines [OF assms(1), of w zs] assms show ?thesis
    using quiet_ds_only by fastforce
next
  case (F_logic w)
  with logic_word_refines [OF assms(1), of w zs] assms show ?thesis by (auto intro: quiet_ds_only)
qed (use assms in simp_all)

lemma pure_neq: "pure_effect f xs = Some zs \<Longrightarrow>
   f \<noteq> Do_colon \<and> f \<noteq> Do_variable \<and> f \<noteq> Do_constant \<and> f \<noteq> F_system w"
  by (cases f) auto

lemma pure_call:
  assumes "link_ok P" "pure_effect f xs = Some zs"
  shows "call_native P (Suc n) (link P f) s = run_fsym P f s"
  using assms pure_neq [OF assms(2)]
  by (cases f) (auto simp: call_native.simps(2))

section \<open>Straight-line bodies\<close>

lemma vmem_ip [simp]: "stacks_ok (s\<lparr>ip := a\<rparr>) = stacks_ok s" "dstack (s\<lparr>ip := a\<rparr>) = dstack s"
  "rstack (s\<lparr>ip := a\<rparr>) = rstack s"
  by (simp_all add: stacks_ok_def dstack_def rstack_def)

text \<open>The interpreter goes from one state to another, whatever fuel is left afterwards.\<close>

definition runs_to :: "platform \<Rightarrow> 'a forth_scheme \<Rightarrow> 'a forth_scheme \<Rightarrow> bool" where
  "runs_to P s t \<longleftrightarrow> (\<exists>n. \<forall>k. forth_inner P (n + k) s = forth_inner P k t)"

lemma runs_to_refl [simp]: "runs_to P s s"
  unfolding runs_to_def by (rule exI [of _ 0]) simp

lemma runs_to_step:
  assumes "\<And>k. forth_inner P (Suc k) s = forth_inner P k u" "runs_to P u t"
  shows "runs_to P s t"
proof -
  obtain n where "\<And>k. forth_inner P (n + k) u = forth_inner P k t" using assms(2) by (auto simp: runs_to_def)
  then have "\<forall>k. forth_inner P (Suc n + k) s = forth_inner P k t" using assms(1) by simp
  then show ?thesis unfolding runs_to_def by blast
qed

lemma runs_to_trans:
  assumes "runs_to P s t" "runs_to P t u"
  shows "runs_to P s u"
proof -
  obtain n m where "\<And>k. forth_inner P (n + k) s = forth_inner P k t"
    "\<And>k. forth_inner P (m + k) t = forth_inner P k u"
    using assms by (auto simp: runs_to_def)
  then have "\<forall>k. forth_inner P ((n + m) + k) s = forth_inner P k u" by (simp add: add.assoc)
  then show ?thesis unfolding runs_to_def by blast
qed

text \<open>What is known after a cell that changed the data stack only.\<close>

lemma quiet_next:
  assumes "quiet s u" "dstack u = zs" "ip u = ip s + 8 * of_nat j" "cells_at (vmem s) (ip s) (bs @ cs)"
    "length bs = j" "length (rstack s) + d \<le> 256"
  shows "vmem u = vmem s" "stacks_ok u" "cells_at (vmem s) (ip u) cs" "length (rstack u) + d \<le> 256"
  using assms by (auto simp: quiet_vmem cells_at_append) (simp_all add: quiet_def)

lemma rs_push_other [simp]: "vmem (rs_push a s) = vmem s" "dstack (rs_push a s) = dstack s"
  by (simp_all add: rs_push_def vga_vmem dstack_def)

lemma step_then:
  fixes s u :: "'a forth_scheme"
  assumes "runs_to P s u" "quiet s u" "dstack u = zs" "ip u = ip s + 8 * of_nat (length bs)"
    and "cells_at (vmem s) (ip s) (bs @ cs)" "length (rstack s) + d \<le> 256"
    and rest: "\<And>s' :: 'a forth_scheme. vmem s' = vmem s \<Longrightarrow> stacks_ok s' \<Longrightarrow> dstack s' = zs \<Longrightarrow> cells_at (vmem s) (ip s') cs \<Longrightarrow>
      length (rstack s') + d \<le> 256 \<Longrightarrow>
      \<exists>t. runs_to P s' t \<and> quiet s' t \<and> dstack t = ys \<and> ip t = ip s' + 8 * of_nat (length cs)"
  shows "\<exists>t. runs_to P s t \<and> quiet s t \<and> dstack t = ys \<and> ip t = ip s + 8 * of_nat (length (bs @ cs))"
proof -
  note n = quiet_next [OF assms(2-5) refl assms(6)]
  obtain t where t: "runs_to P u t" "quiet u t" "dstack t = ys" "ip t = ip u + 8 * of_nat (length cs)"
    using rest [OF n(1,2) assms(3) n(3,4)] by blast
  have "ip t = ip s + 8 * of_nat (length (bs @ cs))" using t(4) assms(4) by (simp add: algebra_simps)
  with t runs_to_trans [OF assms(1) t(1)] quiet_trans [OF assms(2) t(2)] show ?thesis by blast
qed

lemma push_cell:
  assumes "stacks_ok s" "length (dstack s) < 256"
  shows "quiet s (ds_push v (s\<lparr>ip := a\<rparr>))" "dstack (ds_push v (s\<lparr>ip := a\<rparr>)) = v # dstack s"
    "ip (ds_push v (s\<lparr>ip := a\<rparr>)) = a"
  using quiet_push [of "s\<lparr>ip := a\<rparr>" v] assms quiet_trans [OF quiet_ip [OF quiet_refl]] by auto

lemma literal_cell:
  assumes "link_ok P" "cells_at (vmem s) (ip s) (link P Do_literal # v # cs)"
  shows "runs_to P s (ds_push v (s\<lparr>ip := ip s + 16\<rparr>))"
  using inner_literal [OF assms] by (intro runs_to_step [OF _ runs_to_refl])

lemma word_cell:
  assumes "link_ok P" "cells_at (vmem s) (ip s) (e # cs)" "in_dictionary e" "word_at (vmem s) e code p"
  shows "code = link P Do_variable \<Longrightarrow> runs_to P s (ds_push p (s\<lparr>ip := ip s + 8\<rparr>))"
    and "code = link P Do_constant \<Longrightarrow> rd64 (vmem s) p = Inr v \<Longrightarrow> runs_to P s (ds_push v (s\<lparr>ip := ip s + 8\<rparr>))"
    and "code = link P Do_colon \<Longrightarrow> runs_to P s ((rs_push (ip s + 8) (s\<lparr>ip := ip s + 8\<rparr>))\<lparr>ip := p\<rparr>)"
    and "code = link P f \<Longrightarrow> pure_effect f xs = Some zs \<Longrightarrow> run_fsym P f (s\<lparr>ip := ip s + 8\<rparr>) = Inr u \<Longrightarrow> runs_to P s u"
proof -
  note w = inner_word [OF assms]
  show "code = link P Do_variable \<Longrightarrow> runs_to P s (ds_push p (s\<lparr>ip := ip s + 8\<rparr>))"
    "code = link P Do_constant \<Longrightarrow> rd64 (vmem s) p = Inr v \<Longrightarrow> runs_to P s (ds_push v (s\<lparr>ip := ip s + 8\<rparr>))"
    "code = link P Do_colon \<Longrightarrow> runs_to P s ((rs_push (ip s + 8) (s\<lparr>ip := ip s + 8\<rparr>))\<lparr>ip := p\<rparr>)"
    by (intro runs_to_step [OF _ runs_to_refl]; simp add: w assms(1))+
  assume a: "code = link P f" "pure_effect f xs = Some zs" "run_fsym P f (s\<lparr>ip := ip s + 8\<rparr>) = Inr u"
  have "rbind (call_native P k (link P f) (s\<lparr>ip := ip s + 8\<rparr>)) (forth_inner P k) = forth_inner P k u" for k
    using a(3) by (cases k)
      (simp_all add: call_native.simps(1) forth_inner.simps(1) pure_call [OF assms(1) a(2)])
  then show "runs_to P s u"
    using pure_neq [OF a(2)] by (intro runs_to_step [OF _ runs_to_refl]) (simp add: w a(1) assms(1))
qed

text \<open>The sentinel at the end of a called body returns to the caller.\<close>

lemma return_cell:
  assumes "stacks_ok s" "length (rstack s) < 256" "quiet ((rs_push a s)\<lparr>ip := p\<rparr>) t" "a \<noteq> 0"
    "rd64 (vmem s) (ip t) = Inr SENTINEL_EXIT" "ip t + 8 \<noteq> 0"
  obtains r where "runs_to P t r" "quiet s r" "dstack r = dstack t" "ip r = a"
proof -
  let ?t = "t\<lparr>ip := ip t + 8\<rparr>"
  let ?r = "(snd (rs_pop ?t))\<lparr>ip := a\<rparr>"
  note c = quiet_call [OF assms(1,2) quiet_ip [OF assms(3), of "ip t + 8"]]
  have "vmem t = vmem s" using quiet_vmem [OF assms(3)] by simp
  then have "forth_inner P (Suc k) t = forth_inner P k ?r" for k
    using inner_sentinel [of t "[]" P k] assms(4-6) c(1) by (simp add: split_def Let_def)
  then have "runs_to P t ?r" by (rule runs_to_step) simp
  with c quiet_ip [OF c(2), of a] that [of ?r] show ?thesis by simp
qed

text \<open>One unit of fuel per cell, and one for each return of a called word.\<close>

lemma means_inner:
  assumes "means P m d cs xs ys" "link_ok P"
  shows "vmem s = m \<Longrightarrow> stacks_ok s \<Longrightarrow> dstack s = xs \<Longrightarrow> cells_at m (ip s) cs \<Longrightarrow>
    length (rstack s) + d \<le> 256 \<Longrightarrow>
    \<exists>t. runs_to P s t \<and> quiet s t \<and> dstack t = ys \<and> ip t = ip s + 8 * of_nat (length cs)"
  using assms(1)
proof (induction arbitrary: s rule: means.induct)
  case (nothing d xs)
  then show ?case by (intro exI [of _ s]) (simp add: quiet_refl)
next
  case (literal xs d cs v ys)
  have l: "runs_to P s (ds_push v (s\<lparr>ip := ip s + 16\<rparr>))"
    using literal.prems by (intro literal_cell [OF assms(2)]) auto
  have p: "stacks_ok s" "length (dstack s) < 256" using literal.prems literal.hyps by simp_all
  show ?case
    using step_then [OF l push_cell(1,2) [OF p], of "[link P Do_literal, v]" cs d ys] push_cell(3) [OF p]
      literal.IH literal.prems by simp
next
  case (var e p xs d cs ys)
  have w: "runs_to P s (ds_push p (s\<lparr>ip := ip s + 8\<rparr>))"
    using word_cell(1) [OF assms(2), of s e cs] var.prems var.hyps by simp
  have q: "stacks_ok s" "length (dstack s) < 256" using var.prems var.hyps by simp_all
  show ?case
    using step_then [OF w push_cell(1,2) [OF q], of "[e]" cs d ys] push_cell(3) [OF q] var.IH var.prems by simp
next
  case (const e p v xs d cs ys)
  have w: "runs_to P s (ds_push v (s\<lparr>ip := ip s + 8\<rparr>))"
    using word_cell(2) [OF assms(2), of s e cs] const.prems const.hyps by simp
  have q: "stacks_ok s" "length (dstack s) < 256" using const.prems const.hyps by simp_all
  show ?case
    using step_then [OF w push_cell(1,2) [OF q], of "[e]" cs d ys] push_cell(3) [OF q] const.IH const.prems by simp
next
  case (primitive e f p xs zs d cs ys)
  let ?s = "s\<lparr>ip := ip s + 8\<rparr>"
  obtain u where u: "run_fsym P f ?s = Inr u" "quiet ?s u" "ip u = ip ?s" "dstack u = zs"
    using pure_run [of ?s f zs P] primitive.prems primitive.hyps by auto
  have q: "quiet s u" using quiet_trans [OF quiet_ip [OF quiet_refl] u(2)] primitive.prems by simp
  have w: "runs_to P s u"
    using word_cell(4) [OF assms(2), of s e cs] primitive.prems primitive.hyps u(1) by simp
  show ?case
    using step_then [OF w q u(4), of "[e]" cs d ys] u(3) primitive.IH primitive.prems by simp
next
  case (colon e p b d xs zs cs ys)
  let ?s = "s\<lparr>ip := ip s + 8\<rparr>"
  let ?u = "(rs_push (ip s + 8) ?s)\<lparr>ip := p\<rparr>"
  have deep: "stacks_ok ?s" "length (rstack ?s) < 256" using colon.prems by simp_all
  have "length (rstack ?u) + d \<le> 256" using colon.prems rstack_push [OF deep] by simp
  then obtain t where t: "runs_to P ?u t" "quiet ?u t" "dstack t = zs" "ip t = p + 8 * of_nat (length b)"
    using colon.IH(1) [of ?u] colon.prems colon.hyps(3) by (auto simp: cells_at_append)
  obtain r where r: "runs_to P t r" "quiet ?s r" "dstack r = dstack t" "ip r = ip s + 8"
    using return_cell [OF deep t(2)] colon.prems colon.hyps(3) t(4) by (auto simp: cells_at_append)
  have w: "runs_to P s ?u"
    using word_cell(3) [OF assms(2), of s e cs] colon.prems colon.hyps by simp
  have q: "quiet s r" using quiet_trans [OF quiet_ip [OF quiet_refl] r(2)] colon.prems by simp
  show ?case
    using step_then [OF runs_to_trans [OF w runs_to_trans [OF t(1) r(1)]] q, of zs "[e]" cs "Suc d" ys]
      colon.IH(2) colon.prems t(3) r(3,4) by simp
qed

section \<open>Calling a colon word\<close>

lemma execute_colon:
  assumes "word_at (vmem s) e (link P Do_colon) p"
  shows "forth_execute P (Suc n) e s = forth_inner P n ((rs_push (ip s) s)\<lparr>ip := p\<rparr>)"
proof -
  have w: "word_at (vmem (rs_push (ip s) s)) e (link P Do_colon) p" using assms by simp
  have c: "rd64 (vmem s) (p - 8) = Inr (link P Do_colon)" using assms by (auto simp: word_at_def)
  show ?thesis
    by (simp add: forth_execute.simps(2) word_at_fields [OF assms] word_at_fields(2) [OF w] c load64_def
        ip_get_def ip_set_def)
qed

text \<open>The body of a called word runs to its sentinel, with the return address on the stack.\<close>

lemma body_runs:
  assumes "link_ok P" "stacks_ok s" "length (rstack s) + d < 256" "cells_at (vmem s) p (b @ cs)"
    "means P (vmem s) d b (dstack s) ys"
  obtains t where "runs_to P ((rs_push a s)\<lparr>ip := p\<rparr>) t" "quiet ((rs_push a s)\<lparr>ip := p\<rparr>) t"
    "dstack t = ys" "ip t = p + 8 * of_nat (length b)" "cells_at (vmem t) (ip t) cs"
proof -
  let ?u = "(rs_push a s)\<lparr>ip := p\<rparr>"
  have "length (rstack ?u) + d \<le> 256" using assms(3) rstack_push [OF assms(2), of a] by simp
  then obtain t where t: "runs_to P ?u t" "quiet ?u t" "dstack t = ys" "ip t = p + 8 * of_nat (length b)"
    using means_inner [OF assms(5,1), of ?u] assms(2,4) by (auto simp: cells_at_append)
  moreover have "vmem t = vmem s" using quiet_vmem [OF t(2)] by simp
  ultimately show ?thesis using that [of t] assms(4) by (simp add: cells_at_append)
qed

lemma last_return:
  assumes "stacks_ok s" "length (rstack s) < 256" "quiet ((rs_push 0 s)\<lparr>ip := p\<rparr>) t"
    "cells_at (vmem t) (ip t) [SENTINEL_EXIT]"
  obtains r where "\<And>n. forth_inner P (Suc n) t = Inr r" "quiet s r" "dstack r = dstack t" "ip r = 0"
proof -
  let ?t = "t\<lparr>ip := ip t + 8\<rparr>"
  let ?r = "(snd (rs_pop ?t))\<lparr>ip := 0\<rparr>"
  note c = quiet_call [OF assms(1,2) quiet_ip [OF assms(3), of "ip t + 8"]]
  have "forth_inner P (Suc n) t = Inr ?r" for n
    using inner_sentinel [OF assms(4)] c(1) by (simp add: split_def Let_def)
  with c quiet_ip [OF c(2), of 0] that [of ?r] show ?thesis by simp
qed

section \<open>Control structures\<close>

lemma stray_cell:
  assumes "link_ok P" "cells_at (vmem s) (ip s) (link P f # cs)" "f \<noteq> Do_literal"
  shows "forth_inner P (Suc n) s = Inr (vga_puts (str '' Invalid word address!\<newline>'') (s\<lparr>ip := ip s + 8\<rparr>))"
  using assms
  by (auto simp: forth_inner.simps(2) fetch_cell [OF assms(2)] link_cell link_ok_def in_dictionary_def)

text \<open>The run-time routine whose address a control word compiles first.\<close>

fun compiled_routine :: "compiler_word \<Rightarrow> rstack_word option" where
  "compiled_routine W_if = Some Rt_0branch"
| "compiled_routine W_while = Some Rt_0branch"
| "compiled_routine W_until = Some Rt_0branch"
| "compiled_routine W_again = Some Rt_branch"
| "compiled_routine W_do = Some Rt_do"
| "compiled_routine W_loop = Some Rt_loop"
| "compiled_routine _ = None"

lemma dict_ok_cong:
  "vmem t = vmem s \<Longrightarrow> dict_here t = dict_here s \<Longrightarrow> dict_latest t = dict_latest s \<Longrightarrow> dict_ok t es = dict_ok s es"
  by (simp add: dict_ok_def)

lemma vga_only_dict:
  assumes "vga_only s s'"
  shows "dict_here s' = dict_here s" "dict_latest s' = dict_latest s" "dict_base s' = dict_base s"
    "dict.more s' = dict.more s"
  using assms by (cases s; cases s'; simp add: vga_only_def vga.defs)+

lemma ds_push_dict [simp]:
  "vmem (ds_push v s) = vmem s" "dict_here (ds_push v s) = dict_here s" "dict_latest (ds_push v s) = dict_latest s"
  by (simp_all add: ds_push_def vga_vmem vga_only_dict [OF vga_only_puts])

lemma ds_pop_dict [simp]:
  "vmem (snd (ds_pop s)) = vmem s" "dict_here (snd (ds_pop s)) = dict_here s"
  "dict_latest (snd (ds_pop s)) = dict_latest s"
  by (simp_all add: ds_pop_def vga_vmem vga_only_dict [OF vga_only_puts])

lemma dict_ok_stack [simp]: "dict_ok (ds_push v s) es = dict_ok s es" "dict_ok (snd (ds_pop s)) es = dict_ok s es"
  by (intro dict_ok_cong; simp)+

text \<open>Two cells compiled one after the other; the second one does not touch the first.\<close>

lemma two_cells:
  fixes s :: "'a dict_scheme"
  assumes "dict_ok s es" "unat (dict_here s) + 30 \<le> DICT_END"
  shows "\<exists>t. dict_comma v s = Inr t \<and> rd64 (vmem t) (align8 (dict_here s)) = Inr v \<and> dict_ok t es \<and>
    (\<forall>(u :: 'a dict_scheme) w. vmem u = vmem t \<longrightarrow> dict_here u = dict_here t \<longrightarrow> dict_latest u = dict_latest t \<longrightarrow>
       (\<exists>u'. dict_comma w u = Inr u' \<and> rd64 (vmem u') (align8 (dict_here s)) = Inr v))"
proof -
  obtain t where t: "dict_comma v s = Inr t" "dict_ok t es" "dict_here t = align8 (dict_here s) + 8"
    "rd64 (vmem t) (align8 (dict_here s)) = Inr v"
    using dict_comma_ok [OF assms(1), of v] assms(2) by auto
  have base: "unat DICT_VIRT_BASE \<le> unat (dict_here s)" using assms(1) by (simp add: dict_ok_def)
  note hb = here_bounds [OF assms(2) base]
  have h: "unat (dict_here t) = unat (align8 (dict_here s)) + 8"
    unfolding t(3) using hb by (intro unat_add_numeral) simp
  have room: "unat (dict_here t) + 15 \<le> DICT_END" using h hb(3) assms(2) by simp
  have "\<exists>u'. dict_comma w u = Inr u' \<and> rd64 (vmem u') (align8 (dict_here s)) = Inr v"
    if u: "vmem u = vmem t" "dict_here u = dict_here t" "dict_latest u = dict_latest t"
    for u :: "'a dict_scheme" and w
  proof -
    have "dict_ok u es" using t(2) dict_ok_cong [OF u] by simp
    then obtain u' where u': "dict_comma w u = Inr u'" "dict_frame u u'"
      using dict_comma_ok [of u es w] room u(2) by auto
    have "rd64 (vmem u') (align8 (dict_here s)) = rd64 (vmem u) (align8 (dict_here s))"
      using u'(2) u(2) h hb(1) room by (intro same_below_rd64 [of "unat (dict_here u)"]) (auto simp: dict_frame_def DICT_END_def)
    with u' t(4) u(1) show ?thesis by simp
  qed
  with t show ?thesis by blast
qed

lemma control_word_compiles:
  fixes s :: "'a forth_scheme"
  assumes "dict_ok s es" "unat (dict_here s) + 30 \<le> DICT_END" "compiled_routine w = Some r"
  shows "\<exists>t. run_compiler_word w P s = Inr t \<and> rd64 (vmem t) (align8 (dict_here s)) = Inr (link P (F_rstack r))"
proof -
  let ?s = "snd (ds_pop s)"
  let ?c = "link P (F_rstack r)"
  have ok: "dict_ok ?s es" "unat (dict_here ?s) + 30 \<le> DICT_END" using assms(1,2) by simp_all
  obtain t where t: "dict_comma ?c s = Inr t" "rd64 (vmem t) (align8 (dict_here s)) = Inr ?c"
    and t2: "\<And>(u :: 'a forth_scheme) w. vmem u = vmem t \<Longrightarrow> dict_here u = dict_here t \<Longrightarrow> dict_latest u = dict_latest t \<Longrightarrow>
       \<exists>u'. dict_comma w u = Inr u' \<and> rd64 (vmem u') (align8 (dict_here s)) = Inr ?c"
    using two_cells [OF assms(1,2), of ?c] by blast
  obtain p where p: "dict_comma ?c ?s = Inr p" "rd64 (vmem p) (align8 (dict_here s)) = Inr ?c"
    and p2: "\<And>w. \<exists>u'. dict_comma w p = Inr u' \<and> rd64 (vmem u') (align8 (dict_here s)) = Inr ?c"
    using two_cells [OF ok, of ?c] by auto
  obtain u where u: "dict_comma 0 (ds_push (dict_here t) t) = Inr u" "rd64 (vmem u) (align8 (dict_here s)) = Inr ?c"
    using t2 [of "ds_push (dict_here t) t" 0] by auto
  obtain q where q: "dict_comma (fst (ds_pop s)) p = Inr q" "rd64 (vmem q) (align8 (dict_here s)) = Inr ?c"
    using p2 by blast
  from assms(3) show ?thesis
    by (cases w) (use t u p q in \<open>auto simp: w_if_def w_while_def w_until_def w_again_def w_do_def w_loop_def
        split_def Let_def\<close>)
qed


end
