(* ===== verification/Registry.thy ===== *)
theory Registry
  imports Threaded
begin
text \<open>
  The dictionary after \<open>register_primitives\<close>: one entry for each primitive, with its
  function in the code field, found under its name in any case.
\<close>

section \<open>Words in a growing dictionary\<close>

text \<open>A word whose header and code field lie below \<open>HERE\<close>: building more words keeps it.\<close>

definition has_word :: "platform \<Rightarrow> 'a dict_scheme \<Rightarrow> u64 \<Rightarrow> fsym \<Rightarrow> bool" where
  "has_word P s a f \<longleftrightarrow>
     in_dictionary a \<and> unat a + 9 \<le> unat (dict_here s) \<and>
     (\<exists>p. word_at (vmem s) a (link P f) p \<and> 8 \<le> unat p \<and> unat p \<le> unat (dict_here s))"

lemma word_at_same_below:
  assumes "word_at m a c p" "same_below h m m'" "unat a + 9 \<le> h" "8 \<le> unat p" "unat p \<le> h" "h < 2 ^ 64"
  shows "word_at m' a c p"
proof -
  have a: "unat (a + 8) = unat a + 8" using assms(3,6) by (simp add: unat_add_numeral)
  have p: "unat (p - 8) = unat p - 8" using assms(4) by (simp add: unat_sub word_le_nat_alt)
  have "rd8 m' (a + 8) = rd8 m (a + 8)"
    using a assms(3) by (intro same_below_rd8 [OF assms(2)]) simp
  moreover have "rd64 m' (p - 8) = rd64 m (p - 8)"
    using p assms(4-6) by (intro same_below_rd64 [OF assms(2)]) auto
  ultimately show ?thesis using assms(1) by (simp add: word_at_def)
qed

lemma has_word_frame:
  assumes "has_word P s a f" "dict_frame s t"
  shows "has_word P t a f"
proof -
  obtain p where p: "word_at (vmem s) a (link P f) p" "8 \<le> unat p" "unat p \<le> unat (dict_here s)"
    using assms(1) by (auto simp: has_word_def)
  have "unat a + 9 \<le> unat (dict_here s)" "in_dictionary a" using assms(1) by (auto simp: has_word_def)
  moreover have "same_below (unat (dict_here s)) (vmem s) (vmem t)" "unat (dict_here s) \<le> unat (dict_here t)"
    using assms(2) by (auto simp: dict_frame_def)
  moreover have "unat (dict_here s) < 2 ^ 64" using unat_u64_less [of "dict_here s"] by simp
  ultimately show ?thesis
    using p word_at_same_below [OF p(1)] unfolding has_word_def by (meson le_trans)
qed

lemma code_field_word_at:
  assumes "dict_get_code_field a s = Inr cf" "rd64 (vmem s) cf = Inr c"
  shows "word_at (vmem s) a c (cf + 8)"
  using assms
  by (auto simp: word_at_def dict_get_code_field_def dict_get_name_len_def load8_def rbind_eq_Inr Let_def
      add.commute add.left_commute)

lemma entry_in_dictionary:
  assumes "unat DICT_VIRT_BASE \<le> unat a" "unat a < DICT_END"
  shows "in_dictionary a"
proof -
  have "unat (DICT_VIRT_BASE + DICT_SIZE) = DICT_END" by (simp add: DICT_VIRT_BASE_def DICT_SIZE_def DICT_END_def)
  with assms show ?thesis by (simp add: in_dictionary_def word_le_nat_alt word_less_nat_alt)
qed

lemma add_primitive_word:
  assumes "dict_ok s es" "length nm \<le> 31" "unat (dict_here s) + 64 \<le> DICT_END"
  shows "\<exists>t. dict_add_primitive nm (link P f) fl s = Inr t \<and>
    dict_ok t (Entry (align8 (dict_here s)) (fl AND 0xE0) nm # es) \<and> dict_frame s t \<and>
    has_word P t (align8 (dict_here s)) f \<and> unat (dict_here t) \<le> unat (dict_here s) + 62"
proof -
  let ?a = "align8 (dict_here s)"
  have nm: "take 31 nm = nm" "length nm < 256" using assms(2) by simp_all
  obtain t cf where t: "dict_add_primitive nm (link P f) fl s = Inr t"
    "dict_ok t (Entry ?a (fl AND 0xE0) nm # es)" "dict_frame s t" "dict_get_code_field ?a t = Inr cf"
    "rd64 (vmem t) cf = Inr (link P f)" "dict_here t = cf + 8" "unat (dict_here t) \<le> unat (dict_here s) + 62"
    using dict_add_primitive_ok [OF assms(1) nm(2) assms(3), of "link P f" fl] unfolding nm(1) by blast
  have "unat DICT_VIRT_BASE \<le> unat (dict_here s)" using assms(1) by (simp add: dict_ok_def)
  note hb = here_bounds [OF assms(3) this]
  have low: "unat ?a + 9 \<le> unat (dict_here t)" using t(2) by (auto simp: dict_ok_def below_def)
  have "in_dictionary ?a" using hb(3,5) assms(3) by (intro entry_in_dictionary) simp_all
  moreover have "8 \<le> unat (cf + 8)" using low t(6) hb(5) by (simp add: dict_region)
  ultimately have "has_word P t ?a f"
    using code_field_word_at [OF t(4,5)] low t(6) by (auto simp: has_word_def intro!: exI [of _ "cf + 8"])
  with t show ?thesis by blast
qed

text \<open>The entry that belongs to a line of the table of primitives.\<close>

definition entry_for :: "platform \<Rightarrow> 'a dict_scheme \<Rightarrow> entry \<Rightarrow> cstring \<times> fsym \<times> u8 \<Rightarrow> bool" where
  "entry_for P s e pr \<longleftrightarrow> (case pr of (nm, f, fl) \<Rightarrow>
     e_name e = nm \<and> e_flags e = fl AND 0xE0 \<and> e_addr e \<noteq> 0 \<and> has_word P s (e_addr e) f)"

lemma add_primitives_ok:
  assumes "dict_ok s es" "\<forall>pr \<in> set ps. length (fst pr) \<le> 31"
    "unat (dict_here s) + 64 * (length ps + 1) \<le> DICT_END"
  shows "\<exists>t es'. add_primitives P ps s = Inr t \<and> dict_frame s t \<and> dict_ok t (es' @ es) \<and>
    list_all2 (entry_for P t) es' (rev ps) \<and> unat (dict_here t) \<le> unat (dict_here s) + 62 * length ps"
  using assms
proof (induction ps arbitrary: s es)
  case Nil
  then show ?case by (intro exI [of _ s] exI [of _ "[]"]) (simp add: dict_frame_def)
next
  case (Cons pr ps)
  obtain nm f fl where pr: "pr = (nm, f, fl)" by (cases pr) auto
  let ?e = "Entry (align8 (dict_here s)) (fl AND 0xE0) nm"
  have "length nm \<le> 31" "unat (dict_here s) + 64 \<le> DICT_END" using Cons.prems(2,3) by (auto simp: pr)
  from add_primitive_word [OF Cons.prems(1) this, of P f fl]
  obtain u where u: "dict_add_primitive nm (link P f) fl s = Inr u" "dict_ok u (?e # es)" "dict_frame s u"
    "has_word P u (align8 (dict_here s)) f" "unat (dict_here u) \<le> unat (dict_here s) + 62" by blast
  obtain t es' where t: "add_primitives P ps u = Inr t" "dict_frame u t" "dict_ok t (es' @ ?e # es)"
    "list_all2 (entry_for P t) es' (rev ps)" "unat (dict_here t) \<le> unat (dict_here u) + 62 * length ps"
    using Cons.IH [OF u(2)] Cons.prems(2,3) u(5) by auto
  have "chain (vmem u) (dict_latest u) (?e # es)" using u(2) by (simp add: dict_ok_def)
  then have "align8 (dict_here s) \<noteq> 0" by auto
  then have "entry_for P t ?e pr" using has_word_frame [OF u(4) t(2)] by (simp add: entry_for_def pr)
  then have "list_all2 (entry_for P t) (es' @ [?e]) (rev (pr # ps))" using t(4) by (simp add: list_all2_appendI)
  with t u dict_frame_trans [OF u(3) t(2)] show ?case
    by (intro exI [of _ t] exI [of _ "es' @ [?e]"]) (simp add: pr)
qed

section \<open>Looking up a primitive\<close>

lemma lookup_absent: "\<forall>e \<in> set es. map fold_case (e_name e) \<noteq> map fold_case q \<Longrightarrow> lookup es q = 0"
  by (induction es q rule: lookup.induct) auto

lemma lookup_table:
  assumes "list_all2 (entry_for P s) es prs" "distinct (map (\<lambda>pr. map fold_case (fst pr)) prs)"
    "\<forall>pr \<in> set prs. snd (snd pr) AND F_HIDDEN = 0" "(nm, f, fl) \<in> set prs"
    "map fold_case q = map fold_case nm"
  shows "\<exists>e \<in> set es. lookup es q = e_addr e \<and> entry_for P s e (nm, f, fl)"
  using assms
proof (induction es prs rule: list_all2_induct)
  case Nil
  then show ?case by simp
next
  case (Cons e es pr prs)
  obtain nm' f' fl' where pr: "pr = (nm', f', fl')" by (cases pr) auto
  have e: "e = Entry (e_addr e) (fl' AND 0xE0) nm'" "entry_for P s e pr"
    using Cons.hyps(1) by (cases e; simp add: entry_for_def pr)+
  have vis: "(fl' AND 0xE0) AND F_HIDDEN = 0"
    using Cons.prems(2) by (simp add: pr) (metis and.assoc and.commute and_zero_eq)
  show ?case
  proof (cases "map fold_case nm' = map fold_case q")
    case True
    have "pr = (nm, f, fl)"
    proof (rule ccontr)
      assume "pr \<noteq> (nm, f, fl)"
      then have "(nm, f, fl) \<in> set prs" using Cons.prems(3) by auto
      then have "map fold_case nm \<in> (\<lambda>pr. map fold_case (fst pr)) ` set prs" by force
      with Cons.prems(1,4) True show False by (simp add: pr)
    qed
    moreover have "lookup (e # es) q = e_addr e" by (subst e(1)) (simp add: True vis)
    ultimately show ?thesis using e(2) by auto
  next
    case False
    then have "(nm, f, fl) \<in> set prs" using Cons.prems(3,4) by (auto simp: pr)
    moreover have "lookup (e # es) q = lookup es q" by (subst e(1)) (simp add: False)
    ultimately show ?thesis using Cons by auto
  qed
qed

lemma primitives_table:
  "length primitives = 101"
  "\<forall>pr \<in> set primitives. length (fst pr) \<le> 31 \<and> snd (snd pr) AND F_HIDDEN = 0 \<and> snd (snd pr) AND 0xE0 = snd (snd pr)"
  by (simp_all add: primitives_def str_def F_IMMEDIATE_def F_HIDDEN_def)

lemma primitives_distinct: "distinct (map (\<lambda>pr. map fold_case (fst pr)) primitives)"
  by code_simp

lemma entry_flags:
  assumes "chain m a es" "Entry b fl nm \<in> set es"
  shows "rd8 m (b + 8) = Inr (fl OR of_nat (length nm))" "length nm \<le> 31" "fl AND F_LENMASK = 0" "b \<noteq> 0"
  using assms by (induction m a es rule: chain.induct) auto

lemma get_flags_entry:
  assumes "dict_ok s es" "Entry a fl nm \<in> set es" "fl AND 0xE0 = fl"
  shows "dict_get_flags a s = Inr fl"
proof -
  note e = entry_flags [of "vmem s" "dict_latest s" es a fl nm]
  have "chain (vmem s) (dict_latest s) es" using assms(1) by (simp add: dict_ok_def)
  then have "rd8 (vmem s) (a + 8) = Inr (fl OR of_nat (length nm))" "length nm \<le> 31"
    using e assms(2) by auto
  moreover have "of_nat (length nm) AND (0xE0 :: u8) = 0"
    using bspec [OF len_bits, of "length nm"] calculation(2) by simp
  ultimately show ?thesis
    using assms(3) by (simp add: dict_get_flags_def load8_def bit.conj_disj_distrib2)
qed

lemma register_primitives_ok:
  assumes "dict_ok s []" "dict_here s = DICT_VIRT_BASE"
  obtains t es where "register_primitives P s = Inr t" "dict_frame s t" "dict_ok t es"
    "list_all2 (entry_for P t) es (rev primitives)" "length es = 101"
    "unat (dict_here t) \<le> unat DICT_VIRT_BASE + 6262"
proof -
  have room: "unat (dict_here s) + 64 * (length primitives + 1) \<le> DICT_END"
    by (simp add: primitives_table(1) assms(2) dict_region DICT_END_def)
  have len: "\<forall>pr \<in> set primitives. length (fst pr) \<le> 31" using primitives_table(2) by blast
  obtain t es where t: "add_primitives P primitives s = Inr t" "dict_frame s t" "dict_ok t es"
    "list_all2 (entry_for P t) es (rev primitives)"
    "unat (dict_here t) \<le> unat (dict_here s) + 62 * length primitives"
    using add_primitives_ok [OF assms(1) len room, of P] by auto
  have "length es = 101" using list_all2_lengthD [OF t(4)] by (simp add: primitives_table(1))
  with t that show ?thesis by (simp add: register_primitives_def primitives_table(1) assms(2))
qed

lemma primitive_entry:
  assumes "list_all2 (entry_for P t) es (rev primitives)" "(nm, f, fl) \<in> set primitives"
    "map fold_case q = map fold_case nm"
  shows "has_word P t (lookup es q) f \<and> (\<exists>nm'. Entry (lookup es q) fl nm' \<in> set es) \<and> lookup es q \<noteq> 0"
proof -
  have "distinct (map (\<lambda>pr. map fold_case (fst pr)) (rev primitives))"
    using primitives_distinct by (simp add: rev_map [symmetric])
  moreover have "\<forall>pr \<in> set (rev primitives). snd (snd pr) AND F_HIDDEN = 0" using primitives_table(2) by simp
  ultimately obtain e where e: "e \<in> set es" "lookup es q = e_addr e" "entry_for P t e (nm, f, fl)"
    using lookup_table [OF assms(1), of nm f fl q] assms(2,3) by auto
  have "fl AND 0xE0 = fl" using bspec [OF primitives_table(2) assms(2)] by simp
  then have "Entry (e_addr e) fl (e_name e) \<in> set es" using e(1,3) by (cases e) (auto simp: entry_for_def)
  with e show ?thesis by (auto simp: entry_for_def)
qed

lemma table_absent:
  assumes "list_all2 (entry_for P t) es (rev primitives)"
    "map fold_case q \<notin> (\<lambda>(nm, f, fl). map fold_case nm) ` set primitives"
  shows "lookup es q = 0"
proof (rule lookup_absent, intro ballI)
  fix e assume "e \<in> set es"
  then obtain i where i: "i < length es" "es ! i = e" by (auto simp: in_set_conv_nth)
  obtain nm f fl where pr: "rev primitives ! i = (nm, f, fl)" by (cases "rev primitives ! i") auto
  have "entry_for P t e (nm, f, fl)" using list_all2_nthD [OF assms(1) i(1)] i(2) pr by simp
  moreover have "(nm, f, fl) \<in> set primitives"
    using i(1) list_all2_lengthD [OF assms(1)] pr by (metis nth_mem set_rev)
  ultimately show "map fold_case (e_name e) \<noteq> map fold_case q" using assms(2) by (force simp: entry_for_def)
qed

text \<open>What a search finds in a dictionary that holds the table.\<close>

lemma table_found:
  assumes "dict_ok t es" "list_all2 (entry_for P t) es (rev primitives)" "101 < n"
  shows "(nm, f, fl) \<in> set primitives \<Longrightarrow> map fold_case q = map fold_case nm \<Longrightarrow>
      \<exists>a. dict_find n q t = Inr a \<and> a \<noteq> 0 \<and> dict_get_flags a t = Inr fl \<and> has_word P t a f"
    "map fold_case q \<notin> (\<lambda>(nm, f, fl). map fold_case nm) ` set primitives \<Longrightarrow> dict_find n q t = Inr 0"
proof -
  have "length es = 101" using list_all2_lengthD [OF assms(2)] by (simp add: primitives_table(1))
  then have find: "dict_find n q t = Inr (lookup es q)" by (intro dict_find_lookup [OF assms(1)]) (use assms(3) in simp)
  show "\<exists>a. dict_find n q t = Inr a \<and> a \<noteq> 0 \<and> dict_get_flags a t = Inr fl \<and> has_word P t a f"
    if "(nm, f, fl) \<in> set primitives" "map fold_case q = map fold_case nm"
    using primitive_entry [OF assms(2) that] get_flags_entry [OF assms(1)] bspec [OF primitives_table(2) that(1)]
    by (auto simp: find)
  show "dict_find n q t = Inr 0" if "map fold_case q \<notin> (\<lambda>(nm, f, fl). map fold_case nm) ` set primitives"
    using table_absent [OF assms(2) that] by (simp add: find)
qed

text \<open>C12. In a fresh dictionary \<open>register_primitives\<close> succeeds, and then each of the 101
  primitives is found under its name in any spelling of case, with its immediate flag and
  with the address of its C function in the code field; no other name is found.\<close>

theorem register_primitives_found:
  assumes "dict_ok s []" "dict_here s = DICT_VIRT_BASE" "101 < n"
  shows "\<exists>t. register_primitives P s = Inr t \<and> dict_frame s t \<and>
    (\<forall>(nm, f, fl) \<in> set primitives. \<forall>q. map fold_case q = map fold_case nm \<longrightarrow>
       (\<exists>a. dict_find n q t = Inr a \<and> a \<noteq> 0 \<and> dict_get_flags a t = Inr fl \<and> has_word P t a f)) \<and>
    (\<forall>q. map fold_case q \<notin> (\<lambda>(nm, f, fl). map fold_case nm) ` set primitives \<longrightarrow> dict_find n q t = Inr 0)"
proof -
  obtain t es where t: "register_primitives P s = Inr t" "dict_frame s t" "dict_ok t es"
    "list_all2 (entry_for P t) es (rev primitives)"
    using register_primitives_ok [OF assms(1,2), of P] by blast
  show ?thesis using t(1,2) table_found [OF t(3,4) assms(3)] by blast
qed

text \<open>A link map for the examples: the functions one after the other in the kernel image.\<close>

fun position :: "fsym \<Rightarrow> fsym list \<Rightarrow> nat" where
  "position f [] = 0"
| "position f (g # gs) = (if f = g then 0 else Suc (position f gs))"

definition demo_platform :: platform where
  "demo_platform = \<lparr>devices = uart_ready, loop_bound = 1000,
     link = (\<lambda>f. KERNEL_VIRT_BASE + 0x101000 + 16 * of_nat (position f all_fsyms)),
     thread_wrapper = KERNEL_VIRT_BASE + 0x102000, exit_routine = KERNEL_VIRT_BASE + 0x103000\<rparr>"

definition forth_empty :: forth where
  "forth_empty = forth_idle (dict_empty dict_region_mem)"

lemma forth_empty_simps [simp]:
  "dict_ok forth_empty []" "dict_here forth_empty = DICT_VIRT_BASE" "stacks_ok forth_empty"
  "dstack forth_empty = []" "rstack forth_empty = []" "ip forth_empty = 0"
  "forth_state forth_empty = STATE_INTERPRET" "forth_base forth_empty = 10" "parse_ptr forth_empty = []"
  "vmem forth_empty = dict_region_mem"
  by (simp_all add: forth_empty_def forth_idle_def dict_empty_def stacks_boot_def kbd_boot_def timer_boot_def
      vga_boot_def dict.defs stacks.defs kbd.defs timer.defs vga.defs machine.defs stacks_ok_def dstack_def
      rstack_def dict_ok_def)

lemma position_nth: "f \<in> set fs \<Longrightarrow> fs ! position f fs = f \<and> position f fs < length fs"
  by (induction fs) auto

lemma demo_link_ok [simp]: "link_ok demo_platform"
proof -
  have len: "length all_fsyms = 109" by (simp add: all_fsyms_def)
  have pos: "position f all_fsyms < 109" for f using position_nth [OF all_fsyms_all, of f] len by simp
  have inj: "inj (\<lambda>f. position f all_fsyms)"
    by (rule injI) (metis all_fsyms_all position_nth)
  have addr: "unat (link demo_platform f) = 0xFFFF800000101000 + 16 * position f all_fsyms" for f
  proof -
    have "link demo_platform f = of_nat (0xFFFF800000101000 + 16 * position f all_fsyms)"
      by (simp add: demo_platform_def KERNEL_VIRT_BASE_def)
    then show ?thesis using pos [of f] by (simp only:) (intro unat_of_nat_lt, simp)
  qed
  have lo: "unat (link demo_platform f) < 0xFFFF800000102000" for f using addr [of f] pos [of f] by simp
  show ?thesis
    unfolding link_ok_def
  proof (intro conjI allI)
    show "inj (link demo_platform)"
    proof (rule injI)
      fix f g assume "link demo_platform f = link demo_platform g"
      then have "unat (link demo_platform f) = unat (link demo_platform g)" by simp
      then have "position f all_fsyms = position g all_fsyms" by (simp add: addr)
      with inj show "f = g" by (auto dest: injD)
    qed
  next
    fix f
    have "link demo_platform f < DICT_VIRT_BASE" using lo [of f] by (simp add: word_less_nat_alt DICT_VIRT_BASE_def)
    then show "\<not> in_dictionary (link demo_platform f)" by (simp add: in_dictionary_def)
    have "unat SENTINEL_EXIT < unat (link demo_platform f)" by (simp add: addr SENTINEL_EXIT_def)
    then show "link demo_platform f \<noteq> SENTINEL_EXIT" by auto
  qed
qed

theorem register_primitives_found_witness:
  "\<exists>t :: forth. register_primitives demo_platform forth_empty = Inr t \<and>
     (\<exists>a. dict_find 200 (str ''dup'') t = Inr a \<and> has_word demo_platform t a (F_stack W_dup)) \<and>
     dict_find 200 (str ''DUPLICATE'') t = Inr 0"
proof -
  have "(str ''DUP'', F_stack W_dup, 0) \<in> set primitives" by (simp add: primitives_def)
  moreover have "map fold_case (str ''dup'') = map fold_case (str ''DUP'')" by (simp add: str_def fold_case_def)
  moreover have "map fold_case (str ''DUPLICATE'') \<notin> (\<lambda>(nm, f, fl). map fold_case nm) ` set primitives"
    by code_simp
  moreover obtain t :: forth where "register_primitives demo_platform forth_empty = Inr t"
    "\<forall>(nm, f, fl) \<in> set primitives. \<forall>q. map fold_case q = map fold_case nm \<longrightarrow>
       (\<exists>a. dict_find 200 q t = Inr a \<and> a \<noteq> 0 \<and> dict_get_flags a t = Inr fl \<and> has_word demo_platform t a f)"
    "\<forall>q. map fold_case q \<notin> (\<lambda>(nm, f, fl). map fold_case nm) ` set primitives \<longrightarrow> dict_find 200 q t = Inr 0"
    using register_primitives_found [of forth_empty 200 demo_platform] by auto
  ultimately show ?thesis by blast
qed

end
