(* ===== verification/Compile.thy ===== *)
theory Compile
  imports Registry
begin
text \<open>
  The outer interpreter as a compiler: what evaluating \<open>: name ... ;\<close> puts into the
  dictionary, and what calling the new word then computes.
\<close>

section \<open>Cells at the end of the dictionary\<close>

fun commas :: "u64 list \<Rightarrow> 'a dict_scheme \<Rightarrow> 'a dict_scheme res" where
  "commas [] s = Inr s"
| "commas (c # cs) s = rbind (dict_comma c s) (\<lambda>s. commas cs s)"

lemma commas_Nil [simp]: "commas [] = Inr"
  by (rule ext) simp

lemma word_offset:
  fixes a b :: u64
  assumes "unat a = unat b + 8 * n"
  shows "a = b + 8 * of_nat n"
proof -
  have "a = of_nat (unat a)" by simp
  also have "\<dots> = b + 8 * of_nat n" by (simp only: assms) simp
  finally show ?thesis .
qed

lemma cells_same_below:
  assumes "same_below h m m'" "unat a + 8 * length cs \<le> h" "h < 2 ^ 64"
  shows "cells_at m a cs \<Longrightarrow> cells_at m' a cs"
  using assms(2)
proof (induction cs arbitrary: a)
  case (Cons c cs)
  have a: "unat (a + 8) = unat a + 8" using Cons.prems(2) assms(3) by (intro unat_add_numeral) simp
  have "rd64 m' a = rd64 m a" using Cons.prems(2) assms(3) by (intro same_below_rd64 [OF assms(1)]) auto
  moreover have "cells_at m' (a + 8) cs" using Cons.IH [of "a + 8"] Cons.prems a by simp
  ultimately show ?case using Cons.prems(1) by simp
qed simp

lemma commas_ok:
  assumes "dict_ok s es" "8 dvd unat (dict_here s)" "unat (dict_here s) + 8 * length cs + 15 \<le> DICT_END"
  shows "\<exists>t. commas cs s = Inr t \<and> dict_ok t es \<and> dict_frame s t \<and> dict_latest t = dict_latest s \<and>
    unat (dict_here t) = unat (dict_here s) + 8 * length cs \<and> cells_at (vmem t) (dict_here s) cs"
  using assms
proof (induction cs arbitrary: s)
  case Nil
  then show ?case by (intro exI [of _ s]) (simp add: dict_frame_def)
next
  case (Cons c cs)
  have al: "align8 (dict_here s) = dict_here s" using Cons.prems(2,3) by (intro align8_aligned) (simp_all add: DICT_END_def)
  obtain u where u: "dict_comma c s = Inr u" "dict_ok u es" "dict_frame s u" "dict_latest u = dict_latest s"
    "dict_here u = dict_here s + 8" "rd64 (vmem u) (dict_here s) = Inr c"
    using dict_comma_ok [OF Cons.prems(1), of c] Cons.prems(3) al by auto
  have h: "unat (dict_here s + 8) = unat (dict_here s) + 8"
    using Cons.prems(3) by (intro unat_add_numeral) (simp add: DICT_END_def)
  have "8 dvd unat (dict_here u)" using Cons.prems(2) h by (simp add: u(5))
  then obtain t where t: "commas cs u = Inr t" "dict_ok t es" "dict_frame u t" "dict_latest t = dict_latest u"
    "unat (dict_here t) = unat (dict_here u) + 8 * length cs" "cells_at (vmem t) (dict_here u) cs"
    using Cons.IH [OF u(2)] Cons.prems(3) h by (auto simp: u(5))
  have "rd64 (vmem t) (dict_here s) = rd64 (vmem u) (dict_here s)"
    using t(3) h u(5) Cons.prems(3)
    by (intro same_below_rd64 [of "unat (dict_here u)"]) (auto simp: dict_frame_def DICT_END_def)
  moreover have "dict_here s + 8 \<noteq> 0" using h by (metis add_is_0 unat_0 zero_neq_numeral)
  ultimately have "cells_at (vmem t) (dict_here s) (c # cs)" using t(6) u(5,6) by simp
  with t u h dict_frame_trans [OF u(3) t(3)] show ?case by (intro exI [of _ t]) simp
qed

section \<open>What compilation changes\<close>

text \<open>Memory from the old \<open>HERE\<close> up, the dictionary pointers, the parser and the state.\<close>

definition comp_frame :: "'a forth_scheme \<Rightarrow> 'a forth_scheme \<Rightarrow> bool" where
  "comp_frame s t \<longleftrightarrow>
     t\<lparr>vmem := vmem s, dict_here := dict_here s, dict_latest := dict_latest s, parse_ptr := parse_ptr s,
       forth_state := forth_state s\<rparr> = s \<and>
     same_below (unat (dict_here s)) (vmem s) (vmem t) \<and> unat (dict_here s) \<le> unat (dict_here t) \<and>
     (\<forall>x. mapped (vmem s) x 1 \<longrightarrow> mapped (vmem t) x 1)"

lemma comp_frame_dict:
  assumes "dict_frame s t"
  shows "comp_frame s t"
proof -
  have "t\<lparr>vmem := vmem s, dict_here := dict_here s, dict_latest := dict_latest s\<rparr> = s"
    using assms by (simp add: dict_frame_def)
  then have "t\<lparr>vmem := vmem s, dict_here := dict_here s, dict_latest := dict_latest s\<rparr>
      \<lparr>parse_ptr := parse_ptr s, forth_state := forth_state s\<rparr> = s\<lparr>parse_ptr := parse_ptr s, forth_state := forth_state s\<rparr>"
    by (rule arg_cong)
  then show ?thesis using assms by (simp add: dict_frame_def comp_frame_def)
qed

lemma dict_frame_forth:
  assumes "dict_frame s t"
  shows "forth_state t = forth_state s" "parse_ptr t = parse_ptr s" "forth_base t = forth_base s"
proof -
  let ?t = "t\<lparr>vmem := vmem s, dict_here := dict_here s, dict_latest := dict_latest s\<rparr>"
  have eq: "?t = s" using assms by (simp add: dict_frame_def)
  have "forth_state t = forth_state ?t" "parse_ptr t = parse_ptr ?t" "forth_base t = forth_base ?t" by simp_all
  then show "forth_state t = forth_state s" "parse_ptr t = parse_ptr s" "forth_base t = forth_base s"
    by (simp_all only: eq)
qed

lemma comp_frame_trans:
  assumes "comp_frame s t" "comp_frame t u"
  shows "comp_frame s u"
proof -
  let ?f = "\<lambda>a b. a\<lparr>vmem := vmem b, dict_here := dict_here b, dict_latest := dict_latest b, parse_ptr := parse_ptr b,
       forth_state := forth_state b\<rparr>"
  have "?f u s = ?f (?f u t) s" by simp
  also have "\<dots> = s" using assms by (simp add: comp_frame_def)
  finally have "?f u s = s" .
  moreover have "same_below (unat (dict_here s)) (vmem t) (vmem u)"
    using assms by (auto simp: comp_frame_def intro: same_below_mono)
  ultimately show ?thesis
    using assms unfolding comp_frame_def by (meson le_trans same_below_trans)
qed

lemma comp_frame_upd: "comp_frame s t \<Longrightarrow> comp_frame s (t\<lparr>parse_ptr := p\<rparr>)"
   "comp_frame s t \<Longrightarrow> comp_frame s (t\<lparr>forth_state := v\<rparr>)"
  by (simp_all add: comp_frame_def)

lemma comp_frame_same:
  assumes "comp_frame s t"
  shows "forth_base t = forth_base s" "ds t = ds s" "dsp t = dsp s" "rs t = rs s" "rsp_idx t = rsp_idx s" "ip t = ip s"
proof -
  let ?t = "t\<lparr>vmem := vmem s, dict_here := dict_here s, dict_latest := dict_latest s, parse_ptr := parse_ptr s,
       forth_state := forth_state s\<rparr>"
  have eq: "?t = s" using assms by (simp add: comp_frame_def)
  have "forth_base t = forth_base ?t" "ds t = ds ?t" "dsp t = dsp ?t" "rs t = rs ?t" "rsp_idx t = rsp_idx ?t"
    "ip t = ip ?t" by simp_all
  then show "forth_base t = forth_base s" "ds t = ds s" "dsp t = dsp s" "rs t = rs s" "rsp_idx t = rsp_idx s"
    "ip t = ip s" by (simp_all only: eq)
qed

lemma comp_frame_refl [simp]: "comp_frame s s"
  by (simp add: comp_frame_def)

lemma has_word_comp: "has_word P s a f \<Longrightarrow> comp_frame s t \<Longrightarrow> has_word P t a f"
proof -
  assume a: "has_word P s a f" "comp_frame s t"
  let ?t = "s\<lparr>vmem := vmem t, dict_here := dict_here t\<rparr>"
  have "dict_frame s ?t" using a(2) by (simp add: comp_frame_def dict_frame_def)
  from has_word_frame [OF a(1) this] show ?thesis by (simp add: has_word_def)
qed

section \<open>Reading the next word\<close>

lemma parse_next:
  assumes "line_words (parse_ptr s) = tok # ws" "length tok \<le> 63"
  obtains p where "parse_word 64 s = (tok, s\<lparr>parse_ptr := p\<rparr>)" "line_words p = ws" "tok \<noteq> []"
proof -
  let ?p = "skip_space (parse_ptr s)"
  have ne: "?p \<noteq> []" using assms(1) line_words_skip [of "parse_ptr s"] by auto
  let ?w = "takeWhile (\<lambda>c. \<not> space c) ?p" and ?r = "dropWhile (\<lambda>c. \<not> space c) ?p"
  have "line_words (parse_ptr s) = ?w # line_words ?r"
    using line_words_run [OF ne skip_space_start [OF ne]] by (simp add: line_words_skip)
  then have w: "?w = tok" "line_words ?r = ws" using assms(1) by simp_all
  have "tok \<noteq> []" using w(1) skip_space_start [OF ne] ne by (cases ?p) auto
  moreover have "parse_word 64 s = (tok, s\<lparr>parse_ptr := ?r\<rparr>)"
    using ne take_word_run [of ?p 63] w(1) assms(2) by (simp add: parse_word_def Let_def)
  ultimately show ?thesis using that [of ?r] w(2) by simp
qed

lemma parse_end:
  assumes "line_words (parse_ptr s) = []"
  shows "parse_word 64 s = ([], s\<lparr>parse_ptr := []\<rparr>)"
proof -
  have "skip_space (parse_ptr s) = []"
    using line_words_run [of "skip_space (parse_ptr s)"] skip_space_start [of "parse_ptr s"] assms
    by (auto simp: line_words_skip)
  then show ?thesis by (simp add: parse_word_def)
qed

section \<open>One word of a definition\<close>

definition immediate :: "entry list \<Rightarrow> u64 \<Rightarrow> bool" where
  "immediate es a \<longleftrightarrow> (\<exists>fl nm. Entry a fl nm \<in> set es \<and> fl AND F_IMMEDIATE \<noteq> 0)"

text \<open>What a word compiles to: the address of the entry it names, or a literal.\<close>

definition token_cells :: "platform \<Rightarrow> entry list \<Rightarrow> 'a forth_scheme \<Rightarrow> cstring \<Rightarrow> u64 list option" where
  "token_cells P es s tok =
     (if lookup es tok \<noteq> 0 then (if immediate es (lookup es tok) then None else Some [lookup es tok])
      else map_option (\<lambda>v. [link P Do_literal, v]) (try_parse_number tok s))"

lemma lookup_entry: "lookup es q \<noteq> 0 \<Longrightarrow> \<exists>fl nm. Entry (lookup es q) fl nm \<in> set es"
  by (induction es q rule: lookup.induct) (auto split: if_splits)

lemma high_bit: "\<forall>n \<in> {0..<32::nat}. (of_nat n :: u8) AND 0x80 = 0"
  by (simp add: atLeastLessThan_nat_numeral)

lemma get_flags_found:
  assumes "dict_ok s es" "Entry a fl nm \<in> set es"
  obtains b where "dict_get_flags a s = Inr b" "b AND F_IMMEDIATE = fl AND F_IMMEDIATE"
proof -
  have "chain (vmem s) (dict_latest s) es" using assms(1) by (simp add: dict_ok_def)
  note e = entry_flags [OF this assms(2)]
  have "((fl OR of_nat (length nm)) AND 0xE0) AND F_IMMEDIATE = (fl OR of_nat (length nm)) AND 0x80"
    by (simp add: F_IMMEDIATE_def and.assoc)
  also have "\<dots> = fl AND F_IMMEDIATE"
    using bspec [OF high_bit, of "length nm"] e(2) by (simp add: F_IMMEDIATE_def bit.conj_disj_distrib2)
  finally show ?thesis using that e(1) by (simp add: dict_get_flags_def load8_def)
qed

lemma get_flags_immediate:
  assumes "dict_ok s es" "lookup es q \<noteq> 0"
  obtains b where "dict_get_flags (lookup es q) s = Inr b"
    "\<not> immediate es (lookup es q) \<Longrightarrow> b AND F_IMMEDIATE = 0"
  using lookup_entry [OF assms(2)] get_flags_found [OF assms(1)] unfolding immediate_def by metis

lemma try_parse_base: "forth_base t = forth_base s \<Longrightarrow> try_parse_number w t = try_parse_number w s"
  by (simp add: try_parse_number_def)

lemma eval_compiles:
  assumes "dict_ok s es" "length es < loop_bound P" "forth_state s = STATE_COMPILE"
    "parse_word 64 s = (tok, s\<lparr>parse_ptr := p\<rparr>)" "tok \<noteq> []" "token_cells P es s tok = Some cs"
  shows "eval_loop P (Suc n) s = rbind (commas cs (s\<lparr>parse_ptr := p\<rparr>)) (\<lambda>t. eval_loop P n t)"
proof -
  let ?s = "s\<lparr>parse_ptr := p\<rparr>"
  have ok: "dict_ok ?s es" using assms(1) dict_ok_cong [of ?s s es] by simp
  have find: "dict_find (loop_bound P) tok ?s = Inr (lookup es tok)" by (rule dict_find_lookup [OF ok assms(2)])
  show ?thesis
  proof (cases "lookup es tok = 0")
    case True
    then obtain v where "try_parse_number tok ?s = Some v" "cs = [link P Do_literal, v]"
      using assms(6) try_parse_base [of ?s s tok] by (auto simp: token_cells_def)
    with True show ?thesis
      by (simp add: eval_loop.simps(2) assms(3,4,5) find rbind_assoc)
  next
    case False
    then have "\<not> immediate es (lookup es tok)" "cs = [lookup es tok]"
      using assms(6) by (auto simp: token_cells_def split: if_splits)
    then obtain b where "dict_get_flags (lookup es tok) ?s = Inr b" "b AND F_IMMEDIATE = 0"
      using get_flags_immediate [OF ok False] by metis
    with False \<open>cs = [lookup es tok]\<close> show ?thesis
      by (simp add: eval_loop.simps(2) assms(3,4,5) find)
  qed
qed

text \<open>The names before the colon word that is being compiled, which itself is still hidden.\<close>

lemma compile_body:
  assumes "dict_ok s es" "length es < loop_bound P" "forth_state s = STATE_COMPILE"
    "line_words (parse_ptr s) = toks @ ws" "\<forall>w \<in> set toks. length w \<le> 63"
    "list_all2 (\<lambda>tok cs. token_cells P es s tok = Some cs) toks css"
    "8 dvd unat (dict_here s)" "unat (dict_here s) + 8 * length (concat css) + 15 \<le> DICT_END"
  shows "\<exists>t. (\<forall>n. eval_loop P (length toks + n) s = eval_loop P n t) \<and> dict_ok t es \<and> comp_frame s t \<and>
    forth_state t = STATE_COMPILE \<and> dict_latest t = dict_latest s \<and> line_words (parse_ptr t) = ws \<and>
    unat (dict_here t) = unat (dict_here s) + 8 * length (concat css) \<and>
    cells_at (vmem t) (dict_here s) (concat css)"
  using assms
proof (induction toks arbitrary: s css)
  case Nil
  then show ?case by (intro exI [of _ s]) simp
next
  case (Cons tok toks)
  obtain cs css' where css: "css = cs # css'" "token_cells P es s tok = Some cs"
    "list_all2 (\<lambda>tok cs. token_cells P es s tok = Some cs) toks css'"
    using Cons.prems(6) by (auto simp: list_all2_Cons1)
  obtain p where p: "parse_word 64 s = (tok, s\<lparr>parse_ptr := p\<rparr>)" "line_words p = toks @ ws" "tok \<noteq> []"
    using parse_next [of s tok "toks @ ws"] Cons.prems(4,5) by auto
  let ?s = "s\<lparr>parse_ptr := p\<rparr>"
  have ok: "dict_ok ?s es" using Cons.prems(1) dict_ok_cong [of ?s s es] by simp
  obtain u where u: "commas cs ?s = Inr u" "dict_ok u es" "dict_frame ?s u" "dict_latest u = dict_latest ?s"
    "unat (dict_here u) = unat (dict_here ?s) + 8 * length cs" "cells_at (vmem u) (dict_here ?s) cs"
    using commas_ok [OF ok, of cs] Cons.prems(7,8) css(1) by auto
  have step: "eval_loop P (Suc n) s = eval_loop P n u" for n
    using eval_compiles [OF Cons.prems(1-3) p(1,3) css(2), of n] u(1) by simp
  have su: "comp_frame s u" by (rule comp_frame_trans [OF _ comp_frame_dict [OF u(3)]]) (simp add: comp_frame_def)
  note fu = dict_frame_forth [OF u(3)]
  have al: "8 dvd unat (dict_here u)" using u(5) Cons.prems(7) by simp
  have tc: "token_cells P es u = token_cells P es s"
    by (rule ext) (simp add: token_cells_def try_parse_base [of u s] fu)
  obtain t where t: "\<And>n. eval_loop P (length toks + n) u = eval_loop P n t" "dict_ok t es" "comp_frame u t"
    "forth_state t = STATE_COMPILE" "dict_latest t = dict_latest u" "line_words (parse_ptr t) = ws"
    "unat (dict_here t) = unat (dict_here u) + 8 * length (concat css')"
    "cells_at (vmem t) (dict_here u) (concat css')"
    using Cons.IH [of u css'] u(2,5) fu p(2) tc al css Cons.prems(2-8) by auto
  have "same_below (unat (dict_here u)) (vmem u) (vmem t)" using t(3) by (simp add: comp_frame_def)
  moreover have "unat (dict_here s) + 8 * length cs \<le> unat (dict_here u)" "cells_at (vmem u) (dict_here s) cs"
    using u(5,6) by simp_all
  ultimately have "cells_at (vmem t) (dict_here s) cs"
    using cells_same_below [of "unat (dict_here u)" "vmem u" "vmem t" "dict_here s" cs] by simp
  moreover have "dict_here u = dict_here s + 8 * of_nat (length cs)"
    using word_offset [OF u(5)] by simp
  ultimately have "cells_at (vmem t) (dict_here s) (concat css)"
    using t(8) by (simp add: css(1) cells_at_append)
  with t u(4,5) step su comp_frame_trans [OF su t(3)] show ?case
    by (intro exI [of _ t]) (simp add: css(1))
qed

section \<open>Opening and closing a definition\<close>

text \<open>An immediate or interpreted primitive is called at once.\<close>

lemma eval_calls:
  assumes "dict_ok s es" "length es < loop_bound P" "link_ok P"
    "parse_word 64 s = (tok, s\<lparr>parse_ptr := p\<rparr>)" "tok \<noteq> []" "lookup es tok \<noteq> 0"
    "forth_state s = STATE_INTERPRET \<or> Entry (lookup es tok) F_IMMEDIATE nm \<in> set es"
    "has_word P s (lookup es tok) (F_compiler w)"
  shows "eval_loop P (Suc (Suc (Suc n))) s =
    rbind (run_compiler_word w P (s\<lparr>parse_ptr := p\<rparr>)) (\<lambda>t. eval_loop P (Suc (Suc n)) t)"
proof -
  let ?s = "s\<lparr>parse_ptr := p\<rparr>"
  let ?e = "lookup es tok"
  have ok: "dict_ok ?s es" using assms(1) dict_ok_cong [of ?s s es] by simp
  have find: "dict_find (loop_bound P) tok ?s = Inr ?e" by (rule dict_find_lookup [OF ok assms(2)])
  have "\<exists>b. dict_get_flags ?e ?s = Inr b \<and> (forth_state s = STATE_INTERPRET \<or> b AND F_IMMEDIATE \<noteq> 0)"
  proof (cases "forth_state s = STATE_INTERPRET")
    case True
    obtain fl nm' where "Entry ?e fl nm' \<in> set es" using lookup_entry [OF assms(6)] by blast
    with True get_flags_found [OF ok] show ?thesis by blast
  next
    case False
    then have "Entry ?e F_IMMEDIATE nm \<in> set es" using assms(7) by simp
    then obtain b where "dict_get_flags ?e ?s = Inr b" "b AND F_IMMEDIATE = F_IMMEDIATE AND F_IMMEDIATE"
      using get_flags_found [OF ok] by blast
    then show ?thesis by (intro exI [of _ b]) (simp add: F_IMMEDIATE_def)
  qed
  then obtain b where b: "dict_get_flags ?e ?s = Inr b"
    "forth_state s = STATE_INTERPRET \<or> b AND F_IMMEDIATE \<noteq> 0" by blast
  obtain q where q: "word_at (vmem ?s) ?e (link P (F_compiler w)) q" using assms(8) by (auto simp: has_word_def)
  have c: "rd64 (vmem s) (q - 8) = Inr (link P (F_compiler w))" using q by (auto simp: word_at_def)
  have "forth_execute P (Suc (Suc n)) ?e ?s = run_compiler_word w P ?s"
    by (simp add: forth_execute.simps(2) call_native.simps(2) word_at_fields [OF q] c load64_def assms(3))
  then show ?thesis
    using b(2) assms(6)
    by (elim disjE) (simp_all add: eval_loop.simps(2) [of P "Suc (Suc n)"] assms(4,5) find b(1) STATE_COMPILE_def STATE_INTERPRET_def)
qed

lemma colon_opens:
  assumes "dict_ok s es" "line_words (parse_ptr s) = name # ws" "length name \<le> 31"
    "unat (dict_here s) + 64 \<le> DICT_END"
  shows "\<exists>t p. w_colon P s = Inr t \<and> dict_ok t (Entry (align8 (dict_here s)) F_HIDDEN name # es) \<and> comp_frame s t \<and>
    forth_state t = STATE_COMPILE \<and> dict_latest t = align8 (dict_here s) \<and> line_words (parse_ptr t) = ws \<and>
    8 dvd unat (dict_here t) \<and> unat (dict_here t) \<le> unat (dict_here s) + 62 \<and>
    word_at (vmem t) (align8 (dict_here s)) (link P Do_colon) (dict_here t)"
proof -
  obtain q where q: "parse_word 64 s = (name, s\<lparr>parse_ptr := q\<rparr>)" "line_words q = ws" "name \<noteq> []"
    using parse_next [OF assms(2)] assms(3) by auto
  let ?s = "s\<lparr>parse_ptr := q\<rparr>" and ?a = "align8 (dict_here s)"
  have ok: "dict_ok ?s es" using assms(1) dict_ok_cong [of ?s s es] by simp
  have nm: "take 31 name = name" "length name < 256" "unat (dict_here ?s) + 64 \<le> DICT_END"
    using assms(3,4) by simp_all
  have fl: "F_HIDDEN AND 0xE0 = F_HIDDEN" by (simp add: F_HIDDEN_def)
  obtain u cf where u: "dict_add_primitive name (link P Do_colon) F_HIDDEN ?s = Inr u"
    "dict_ok u (Entry ?a F_HIDDEN name # es)" "dict_frame ?s u" "dict_latest u = ?a"
    "dict_get_code_field ?a u = Inr cf" "rd64 (vmem u) cf = Inr (link P Do_colon)" "dict_here u = cf + 8"
    "8 dvd unat (dict_here u)" "unat (dict_here u) \<le> unat (dict_here ?s) + 62"
    using dict_add_primitive_ok [OF ok nm(2,3), of "link P Do_colon" F_HIDDEN] unfolding nm(1) fl by auto
  let ?t = "u\<lparr>forth_state := STATE_COMPILE\<rparr>"
  have "w_colon P s = Inr ?t"
    using u(1) q(1,3) by (auto simp: w_colon_def dict_add_primitive_def rbind_eq_Inr)
  moreover have "comp_frame s ?t"
    using comp_frame_trans [OF _ comp_frame_upd(2) [OF comp_frame_dict [OF u(3)]], of s]
    by (simp add: comp_frame_def)
  moreover have "dict_ok ?t (Entry ?a F_HIDDEN name # es)" using u(2) dict_ok_cong [of ?t u] by simp
  moreover have "word_at (vmem u) ?a (link P Do_colon) (dict_here u)"
    using code_field_word_at [OF u(5,6)] u(7) by simp
  ultimately show ?thesis
    using u(4,8,9) q(2) dict_frame_forth [OF u(3)] by (intro exI [of _ ?t]) simp
qed

text \<open>Clearing the hidden bit turns the entry into a visible one and changes nothing else.\<close>

lemma reveal_byte:
  "\<forall>n \<in> {0..<32::nat}. (0x40 OR of_nat n) AND NOT 0x40 = (of_nat n :: u8) \<and> (of_nat n :: u8) AND 0x1F = of_nat n"
  by (simp add: atLeastLessThan_nat_numeral)

lemma hidden_entry:
  assumes "chain m a (Entry a F_HIDDEN nm # es)" "unat a + 24 + length nm < 2 ^ 64" "word_at m a c p"
  shows "rd8 m (a + 8) = Inr (F_HIDDEN OR of_nat (length nm))"
    "(F_HIDDEN OR of_nat (length nm)) AND NOT F_HIDDEN = (of_nat (length nm) :: u8)"
    "(of_nat (length nm) :: u8) AND F_LENMASK = of_nat (length nm)"
    "p = align8 (a + 9 + of_nat (length nm)) + 8" "unat a + 9 \<le> unat (p - 8)" "unat (a + 8) = unat a + 8"
    "unat p = unat (p - 8) + 8"
    "p = align8 (a + 9 + ucast (of_nat (length nm) :: u8)) + 8"
proof -
  have len: "length nm \<le> 31" and b: "rd8 m (a + 8) = Inr (F_HIDDEN OR of_nat (length nm))"
    using assms(1) by auto
  note r = bspec [OF reveal_byte, of "length nm"]
  show "rd8 m (a + 8) = Inr (F_HIDDEN OR of_nat (length nm))" by (rule b)
  show "(F_HIDDEN OR of_nat (length nm)) AND NOT F_HIDDEN = (of_nat (length nm) :: u8)"
    "(of_nat (length nm) :: u8) AND F_LENMASK = of_nat (length nm)"
    using r len by (simp_all add: F_HIDDEN_def F_LENMASK_def)
  have fl: "F_HIDDEN AND F_LENMASK = 0" by (simp add: F_HIDDEN_def F_LENMASK_def)
  have uc: "(ucast (of_nat (length nm) :: u8) :: u64) = of_nat (length nm)"
  proof -
    have "unat (of_nat (length nm) :: u8) = length nm"
      using len by (simp add: unat_of_nat take_bit_nat_eq_self)
    then show ?thesis by (metis of_nat_unat)
  qed
  show p: "p = align8 (a + 9 + of_nat (length nm)) + 8"
    using assms(3) b flag_byte(2) [OF len fl] by (auto simp: word_at_def uc)
  then show "p = align8 (a + 9 + ucast (of_nat (length nm) :: u8)) + 8" unfolding uc .
  show "unat (a + 8) = unat a + 8" using assms(2) by (simp add: unat_add_numeral)
  have n: "unat (a + 9 + of_nat (length nm)) = unat a + 9 + length nm"
    using assms(2) unat_add_of_nat [of "a + 9" "length nm"] by (simp add: unat_add_numeral)
  then have al: "unat a + 9 + length nm \<le> unat (align8 (a + 9 + of_nat (length nm)))"
    "unat (align8 (a + 9 + of_nat (length nm))) \<le> unat a + 9 + length nm + 7"
    using align8_bounds [of "a + 9 + of_nat (length nm)"] assms(2) by simp_all
  then show "unat a + 9 \<le> unat (p - 8)" by (simp add: p)
  show "unat p = unat (p - 8) + 8" using al assms(2) by (simp add: p unat_add_numeral)
qed

lemma reveal:
  assumes "chain m a (Entry a F_HIDDEN nm # es)" "unat a + 24 + length nm < 2 ^ 64" "word_at m a c p"
    "\<forall>e \<in> set es. below e (unat a)"
  defines "m' \<equiv> mem_upd m (a + 8) [(F_HIDDEN OR of_nat (length nm)) AND NOT F_HIDDEN]"
  shows "chain m' a (Entry a 0 nm # es)" "word_at m' a c p"
proof -
  note h = hidden_entry [OF assms(1-3)]
  have m': "m' = mem_upd m (a + 8) [of_nat (length nm)]" by (simp add: m'_def h(2))
  have r: "unat (a + 9) = unat a + 9" using assms(2) by (simp add: unat_add_numeral)
  have ap: "apart (a + 8) 1 a 8" "apart (a + 8) 1 (a + 9) (length nm)" "apart (a + 8) 1 (p - 8) 8"
    using h(5-7) r assms(2) unat_u64_less [of p] by (simp_all add: apart_def)
  obtain l where l: "rd64 m a = Inr l" "chain m l es" using assms(1) by auto
  have "same_below (unat a) m m'"
    unfolding m' using h(6) assms(2) by (intro same_below_upd) simp_all
  then have "chain m' l es" using chain_same_below [OF _ _ assms(4)] l(2) by simp
  then show "chain m' a (Entry a 0 nm # es)"
    using assms(1) l(1) ap unfolding m' by (auto simp: rd8_upd_same rd64_upd_apart rd_bytes_upd_apart)
  have "rd64 m' (p - 8) = Inr c" using assms(3) ap(3) by (auto simp: m' word_at_def rd64_upd_apart)
  moreover have "rd8 m' (a + 8) = Inr (of_nat (length nm))" by (simp add: m' rd8_upd_same)
  moreover have "p = align8 (a + 9 + ucast ((of_nat (length nm) :: u8) AND F_LENMASK)) + 8"
    unfolding h(3) by (rule h(8))
  ultimately show "word_at m' a c p" unfolding word_at_def by blast
qed

lemma cells_at_above:
  assumes "unat x < unat a" "unat a + 8 * length cs < 2 ^ 64"
  shows "cells_at (mem_upd m x [b]) a cs = cells_at m a cs"
  using assms
proof (induction cs arbitrary: a)
  case (Cons c cs)
  have "unat (a + 8) = unat a + 8" using Cons.prems by (intro unat_add_numeral) simp
  moreover have "apart x 1 a 8" using Cons.prems by (simp add: apart_def)
  ultimately show ?case using Cons.IH [of "a + 8"] Cons.prems by (simp add: rd64_upd_apart)
qed simp

lemma semicolon_closes:
  assumes "dict_ok s (Entry a F_HIDDEN nm # es)" "dict_latest s = a" "\<forall>e \<in> set es. below e (unat a)"
    "8 dvd unat (dict_here s)" "unat (dict_here s) + 23 \<le> DICT_END" "length nm \<le> 31"
    "word_at (vmem s) a c p" "cells_at (vmem s) p cs" "unat (dict_here s) = unat p + 8 * length cs"
  shows "\<exists>t. w_semicolon s = Inr t \<and> dict_ok t (Entry a 0 nm # es) \<and> dict_latest t = a \<and>
    word_at (vmem t) a c p \<and> cells_at (vmem t) p (cs @ [SENTINEL_EXIT]) \<and> forth_state t = STATE_INTERPRET \<and>
    parse_ptr t = parse_ptr s \<and> dict_here t = dict_here s + 8 \<and> unat (dict_here t) = unat (dict_here s) + 8 \<and>
    same_below (unat a) (vmem s) (vmem t) \<and> (\<forall>x. mapped (vmem s) x 1 \<longrightarrow> mapped (vmem t) x 1) \<and>
    t\<lparr>vmem := vmem s, dict_here := dict_here s, forth_state := forth_state s\<rparr> = s"
proof -
  let ?b = "(F_HIDDEN OR of_nat (length nm)) AND NOT F_HIDDEN :: u8"
  obtain u where u: "dict_comma SENTINEL_EXIT s = Inr u" "dict_ok u (Entry a F_HIDDEN nm # es)" "dict_frame s u"
    "dict_latest u = a" "unat (dict_here u) = unat (dict_here s) + 8" "cells_at (vmem u) (dict_here s) [SENTINEL_EXIT]"
    using commas_ok [OF assms(1,4), of "[SENTINEL_EXIT]"] assms(2,5) by auto
  let ?m = "mem_upd (vmem u) (a + 8) [?b]"
  let ?t = "u\<lparr>vmem := ?m, forth_state := STATE_INTERPRET\<rparr>"
  have sb: "same_below (unat (dict_here s)) (vmem s) (vmem u)"
    "u\<lparr>vmem := vmem s, dict_here := dict_here s, dict_latest := dict_latest s\<rparr> = s"
    "\<forall>x. mapped (vmem s) x 1 \<longrightarrow> mapped (vmem u) x 1"
    using u(3) by (auto simp: dict_frame_def)
  have here: "unat (dict_here s) < 2 ^ 64 - 64" using assms(5) by (simp add: DICT_END_def)
  have ab: "unat a + 9 + length nm \<le> unat (dict_here s)" using assms(1) by (auto simp: dict_ok_def below_def)
  have room: "unat a + 24 + length nm < 2 ^ 64" using ab here by simp
  have "chain (vmem s) (dict_latest s) (Entry a F_HIDDEN nm # es)"
    "chain (vmem u) (dict_latest u) (Entry a F_HIDDEN nm # es)"
    using assms(1) u(2) unfolding dict_ok_def by blast+
  then have ch: "chain (vmem s) a (Entry a F_HIDDEN nm # es)" "chain (vmem u) a (Entry a F_HIDDEN nm # es)"
    by (simp_all only: assms(2) u(4))
  note h = hidden_entry [OF ch(1) room assms(7)]
  have p: "8 \<le> unat p" "unat p \<le> unat (dict_here s)" "unat a + 9 \<le> unat (dict_here s)" "unat (a + 8) < unat p"
    using h(5-7) assms(9) ab by linarith+
  have w: "word_at (vmem u) a c p"
    using word_at_same_below [OF assms(7) sb(1) p(3,1,2)] here by simp
  note r = reveal [OF ch(2) room w assms(3)]
  have "cells_at (vmem u) p cs"
    using assms(8,9) here by (intro cells_same_below [OF sb(1)]) simp_all
  moreover have eq: "dict_here s = p + 8 * of_nat (length cs)" by (rule word_offset [OF assms(9)])
  ultimately have "cells_at (vmem u) p (cs @ [SENTINEL_EXIT])" using u(6) by (simp add: cells_at_append)
  then have body: "cells_at ?m p (cs @ [SENTINEL_EXIT])"
    using cells_at_above [OF p(4), of "cs @ [SENTINEL_EXIT]"] assms(9) here by simp
  have du: "mapped (vmem u) DICT_VIRT_BASE (unat DICT_SIZE)" "unat DICT_VIRT_BASE \<le> unat (dict_here u)"
    "\<forall>e \<in> set (Entry a F_HIDDEN nm # es). below e (unat (dict_here u))"
    using u(2) unfolding dict_ok_def by blast+
  then have "unat DICT_VIRT_BASE \<le> unat a" by (simp add: below_def)
  then have mp: "mapped (vmem u) (a + 8) 1"
    using h(6) ab assms(5) by (intro dict_mapped [OF du(1)]) linarith+
  have "w_semicolon s = Inr ?t"
    using u(1,4) hidden_entry(1) [OF ch(2) room w] mp
    by (simp add: w_semicolon_def load8_def store8_mapped)
  moreover have "dict_ok ?t (Entry a 0 nm # es)"
    using du u(4) r(1) mapped_mem_upd [OF du(1)] by (simp add: dict_ok_def below_def)
  moreover have "same_below (unat a) (vmem s) ?m"
    using h(6) room ab same_below_mono [OF sb(1), of "unat a"]
    by (intro same_below_trans [OF _ same_below_upd]) simp_all
  moreover have "?t\<lparr>vmem := vmem s, dict_here := dict_here s, forth_state := forth_state s\<rparr> = s"
  proof -
    have "dict_latest u = dict_latest s" using u(4) assms(2) by simp
    have "u\<lparr>vmem := vmem s, dict_here := dict_here s\<rparr>
        = u\<lparr>vmem := vmem s, dict_here := dict_here s, dict_latest := dict_latest u\<rparr>" by simp
    also have "\<dots> = s" using sb(2) by (simp only: \<open>dict_latest u = dict_latest s\<close>)
    finally have "u\<lparr>vmem := vmem s, dict_here := dict_here s\<rparr> = s" .
    then have "u\<lparr>vmem := vmem s, dict_here := dict_here s\<rparr>\<lparr>forth_state := forth_state s\<rparr> = s\<lparr>forth_state := forth_state s\<rparr>"
      by (rule arg_cong)
    then show ?thesis by simp
  qed
  moreover have "dict_here u = dict_here s + 8"
    using word_offset [of "dict_here u" "dict_here s" 1] u(5) by simp
  ultimately show ?thesis
    using r(2) body u(4,5) sb(3) dict_frame_forth(2) [OF u(3)]
    by (intro exI [of _ ?t]) (simp add: mapped_mem_upd)
qed

section \<open>A whole definition\<close>

text \<open>The entry a name leads to: its function, its flags.\<close>

definition finds :: "platform \<Rightarrow> 'a dict_scheme \<Rightarrow> entry list \<Rightarrow> cstring \<Rightarrow> fsym \<Rightarrow> u8 \<Rightarrow> bool" where
  "finds P s es nm f fl \<longleftrightarrow>
     has_word P s (lookup es nm) f \<and> (\<exists>nm'. Entry (lookup es nm) fl nm' \<in> set es) \<and> lookup es nm \<noteq> 0"

lemma hidden_first:
  "lookup (Entry a F_HIDDEN nm # es) = lookup es" "immediate (Entry a F_HIDDEN nm # es) = immediate es"
  by (auto simp: fun_eq_iff immediate_def F_HIDDEN_def F_IMMEDIATE_def)

lemma token_cells_cong:
  "forth_base t = forth_base s \<Longrightarrow> token_cells P (Entry a F_HIDDEN nm # es) t = token_cells P es s"
  by (rule ext) (simp add: token_cells_def hidden_first try_parse_base [of t s])

lemma below_mono: "below e h \<Longrightarrow> h \<le> h' \<Longrightarrow> below e h'"
  by (auto simp: below_def)

lemma line_done:
  assumes "line_words (parse_ptr s) = []" "forth_state s = STATE_INTERPRET"
  shows "eval_loop P (Suc n) s = Inr (vga_puts (str '' ok\<newline>'') (s\<lparr>parse_ptr := []\<rparr>))"
  using assms by (simp add: eval_loop.simps(2) parse_end)

text \<open>The first two words of the line: the colon and the name.\<close>

lemma colon_line:
  assumes "link_ok P" "dict_ok s es" "length es < loop_bound P" "forth_state s = STATE_INTERPRET"
    "line_words (parse_ptr s) = str '':'' # name # ws" "length name \<le> 31"
    "finds P s es (str '':'') (F_compiler W_colon) fl" "unat (dict_here s) + 64 \<le> DICT_END"
  obtains u where "\<And>m. eval_loop P (Suc (Suc (Suc m))) s = eval_loop P (Suc (Suc m)) u"
    "dict_ok u (Entry (align8 (dict_here s)) F_HIDDEN name # es)" "comp_frame s u" "forth_state u = STATE_COMPILE"
    "dict_latest u = align8 (dict_here s)" "line_words (parse_ptr u) = ws" "8 dvd unat (dict_here u)"
    "unat (dict_here u) \<le> unat (dict_here s) + 62"
    "word_at (vmem u) (align8 (dict_here s)) (link P Do_colon) (dict_here u)"
proof -
  let ?a = "align8 (dict_here s)"
  obtain q where q: "parse_word 64 s = (str '':'', s\<lparr>parse_ptr := q\<rparr>)" "line_words q = name # ws"
    using parse_next [OF assms(5)] by (auto simp: str_def)
  let ?q = "s\<lparr>parse_ptr := q\<rparr>"
  have sq: "comp_frame s ?q" by (simp add: comp_frame_def)
  have okq: "dict_ok ?q es" using assms(2) dict_ok_cong [of ?q s es] by simp
  have room: "unat (dict_here ?q) + 64 \<le> DICT_END" "line_words (parse_ptr ?q) = name # ws"
    using assms(8) q(2) by simp_all
  obtain u where u: "w_colon P ?q = Inr u" "dict_ok u (Entry ?a F_HIDDEN name # es)" "comp_frame ?q u"
    "forth_state u = STATE_COMPILE" "dict_latest u = ?a" "line_words (parse_ptr u) = ws" "8 dvd unat (dict_here u)"
    "unat (dict_here u) \<le> unat (dict_here s) + 62" "word_at (vmem u) ?a (link P Do_colon) (dict_here u)"
    using colon_opens [OF okq room(2) assms(6) room(1), of P] by auto
  have f: "lookup es (str '':'') \<noteq> 0" "has_word P s (lookup es (str '':'')) (F_compiler W_colon)"
    using assms(7) by (auto simp: finds_def)
  have "eval_loop P (Suc (Suc (Suc m))) s = eval_loop P (Suc (Suc m)) u" for m
    using eval_calls [OF assms(2,3,1) q(1) _ f(1) _ f(2), of _ m] u(1) assms(4) by (simp add: str_def)
  with u(2,4-9) comp_frame_trans [OF sq u(3)] that show ?thesis by blast
qed

text \<open>The last word of the line: the semicolon, in a definition that began at or after the \<open>HERE\<close> of \<open>s\<close>.\<close>

lemma semicolon_line:
  assumes "link_ok P" "dict_ok t (Entry a F_HIDDEN nm # es)" "length es + 1 < loop_bound P" "forth_state t = STATE_COMPILE"
    "line_words (parse_ptr t) = [str '';'']" "dict_latest t = a" "length nm \<le> 31"
    "finds P t es (str '';'') (F_compiler W_semicolon) F_IMMEDIATE"
    "\<forall>e \<in> set es. below e (unat a)" "8 dvd unat (dict_here t)" "unat (dict_here t) + 23 \<le> DICT_END"
    "word_at (vmem t) a (link P Do_colon) p" "cells_at (vmem t) p cs" "unat (dict_here t) = unat p + 8 * length cs"
    "comp_frame s t" "unat (dict_here s) \<le> unat a"
  obtains v where "\<And>m. eval_loop P (Suc (Suc (Suc m))) t = Inr (vga_puts (str '' ok\<newline>'') v)"
    "dict_ok v (Entry a 0 nm # es)" "dict_latest v = a" "word_at (vmem v) a (link P Do_colon) p"
    "cells_at (vmem v) p (cs @ [SENTINEL_EXIT])" "forth_state v = STATE_INTERPRET" "comp_frame s v"
proof -
  let ?es = "Entry a F_HIDDEN nm # es"
  obtain r where r: "parse_word 64 t = (str '';'', t\<lparr>parse_ptr := r\<rparr>)" "line_words r = []"
    using parse_next [OF assms(5)] by (auto simp: str_def)
  let ?r = "t\<lparr>parse_ptr := r\<rparr>"
  obtain nm' where f: "lookup ?es (str '';'') \<noteq> 0" "has_word P t (lookup ?es (str '';'')) (F_compiler W_semicolon)"
    "Entry (lookup ?es (str '';'')) F_IMMEDIATE nm' \<in> set ?es"
    using assms(8) unfolding finds_def hidden_first by auto
  have okr: "dict_ok ?r ?es" using assms(2) dict_ok_cong [of ?r t ?es] by simp
  obtain v where v: "w_semicolon ?r = Inr v" "dict_ok v (Entry a 0 nm # es)" "dict_latest v = a"
    "word_at (vmem v) a (link P Do_colon) p" "cells_at (vmem v) p (cs @ [SENTINEL_EXIT])"
    "forth_state v = STATE_INTERPRET" "parse_ptr v = r" "unat (dict_here v) = unat (dict_here t) + 8"
    "same_below (unat a) (vmem t) (vmem v)" "\<forall>x. mapped (vmem t) x 1 \<longrightarrow> mapped (vmem v) x 1"
    "v\<lparr>vmem := vmem ?r, dict_here := dict_here ?r, forth_state := forth_state ?r\<rparr> = ?r"
    using semicolon_closes [OF okr _ assms(9) _ _ assms(7), of "link P Do_colon" p cs] assms(6,10-14) by auto
  let ?v = "v\<lparr>parse_ptr := []\<rparr>"
  have len: "length ?es < loop_bound P" using assms(3) by simp
  have run: "eval_loop P (Suc (Suc (Suc m))) t = Inr (vga_puts (str '' ok\<newline>'') ?v)" for m
  proof -
    have "eval_loop P (Suc (Suc (Suc m))) t = eval_loop P (Suc (Suc m)) v"
      using eval_calls [OF assms(2) len assms(1) r(1) _ f(1) disjI2 [OF f(3)] f(2), of m] v(1) by (simp add: str_def)
    also have "\<dots> = Inr (vga_puts (str '' ok\<newline>'') ?v)" using v(6,7) r(2) by (intro line_done) simp_all
    finally show ?thesis .
  qed
  let ?f = "\<lambda>x y. x\<lparr>vmem := vmem y, dict_here := dict_here y, dict_latest := dict_latest y,
     parse_ptr := parse_ptr y, forth_state := forth_state y\<rparr>"
  have "?f ?v s = ?f (v\<lparr>vmem := vmem ?r, dict_here := dict_here ?r, forth_state := forth_state ?r\<rparr>) s" by simp
  also have "\<dots> = ?f t s" by (simp only: v(11)) simp
  also have "\<dots> = s" using assms(15) by (simp add: comp_frame_def)
  finally have "?f ?v s = s" .
  moreover have "same_below (unat (dict_here s)) (vmem s) (vmem v)"
    using assms(15) same_below_mono [OF v(9) assms(16)] by (auto simp: comp_frame_def intro: same_below_trans)
  ultimately have "comp_frame s ?v" using assms(15) v(8,10) by (auto simp: comp_frame_def)
  moreover have "dict_ok ?v (Entry a 0 nm # es)" using v(2) dict_ok_cong [of ?v v] by simp
  ultimately show ?thesis using that [of ?v] run v(3-6) by simp
qed

lemma definition_compiles:
  assumes "link_ok P" "dict_ok s es" "length es + 1 < loop_bound P" "forth_state s = STATE_INTERPRET"
    "line_words line = str '':'' # name # toks @ [str '';'']" "length name \<le> 31" "\<forall>w \<in> set toks. length w \<le> 63"
    "finds P s es (str '':'') (F_compiler W_colon) fl" "finds P s es (str '';'') (F_compiler W_semicolon) F_IMMEDIATE"
    "list_all2 (\<lambda>tok cs. token_cells P es s tok = Some cs) toks css"
    "unat (dict_here s) + 8 * length (concat css) + 128 \<le> DICT_END"
  shows "\<exists>t p. (\<forall>k. forth_eval P (length toks + 4 + k) line s = Inr (vga_puts (str '' ok\<newline>'') t)) \<and>
    dict_ok t (Entry (align8 (dict_here s)) 0 name # es) \<and> dict_latest t = align8 (dict_here s) \<and>
    word_at (vmem t) (align8 (dict_here s)) (link P Do_colon) p \<and>
    cells_at (vmem t) p (concat css @ [SENTINEL_EXIT]) \<and> forth_state t = STATE_INTERPRET \<and> comp_frame s t"
proof -
  let ?a = "align8 (dict_here s)" and ?s = "s\<lparr>parse_ptr := line\<rparr>"
  let ?es = "Entry ?a F_HIDDEN name # es"
  have s0: "comp_frame s ?s" by (simp add: comp_frame_def)
  have start: "dict_ok ?s es" "length es < loop_bound P" "forth_state ?s = STATE_INTERPRET"
    "line_words (parse_ptr ?s) = str '':'' # name # toks @ [str '';'']" "finds P ?s es (str '':'') (F_compiler W_colon) fl"
    "unat (dict_here ?s) + 64 \<le> DICT_END"
    using assms(2-5,8,11) dict_ok_cong [of ?s s es] has_word_comp [OF _ s0] by (auto simp: finds_def)
  obtain u where u: "\<And>m. eval_loop P (Suc (Suc (Suc m))) ?s = eval_loop P (Suc (Suc m)) u" "dict_ok u ?es"
    "comp_frame ?s u" "forth_state u = STATE_COMPILE" "dict_latest u = ?a" "line_words (parse_ptr u) = toks @ [str '';'']"
    "8 dvd unat (dict_here u)" "unat (dict_here u) \<le> unat (dict_here s) + 62"
    "word_at (vmem u) ?a (link P Do_colon) (dict_here u)"
    using colon_line [OF assms(1) start(1-4) assms(6) start(5,6)] by auto
  have su: "comp_frame s u" by (rule comp_frame_trans [OF s0 u(3)])
  have body: "length ?es < loop_bound P" "unat (dict_here u) + 8 * length (concat css) + 15 \<le> DICT_END"
    "list_all2 (\<lambda>tok cs. token_cells P ?es u tok = Some cs) toks css"
    using u(8) assms(3,10,11) by (simp_all add: token_cells_cong [OF comp_frame_same(1) [OF su]])
  obtain t where t: "\<And>n. eval_loop P (length toks + n) u = eval_loop P n t" "dict_ok t ?es" "comp_frame u t"
    "forth_state t = STATE_COMPILE" "dict_latest t = ?a" "line_words (parse_ptr t) = [str '';'']"
    "unat (dict_here t) = unat (dict_here u) + 8 * length (concat css)"
    "cells_at (vmem t) (dict_here u) (concat css)"
    using compile_body [OF u(2) body(1) u(4,6) assms(7) body(3) u(7) body(2)] u(5) by auto
  have st: "comp_frame s t" by (rule comp_frame_trans [OF su t(3)])
  have "unat DICT_VIRT_BASE \<le> unat (dict_here s)" using assms(2) by (simp add: dict_ok_def)
  then have hb: "unat (dict_here s) \<le> unat ?a" using here_bounds(2) [of "dict_here s" 64] assms(11) by simp
  have older: "\<forall>e \<in> set es. below e (unat ?a)"
    using assms(2) below_mono [OF _ hb] by (auto simp: dict_ok_def)
  have au: "unat ?a + 9 \<le> unat (dict_here u)" using u(2) by (auto simp: dict_ok_def below_def)
  have w: "word_at (vmem t) ?a (link P Do_colon) (dict_here u)"
    using t(3) au by (intro word_at_same_below [OF u(9)]) (auto simp: comp_frame_def)
  have semi: "finds P t es (str '';'') (F_compiler W_semicolon) F_IMMEDIATE"
    using assms(9) has_word_comp [OF _ st] by (auto simp: finds_def)
  have room: "8 dvd unat (dict_here t)" "unat (dict_here t) + 23 \<le> DICT_END" using t(7) u(7,8) assms(11) by simp_all
  obtain v where v: "\<And>m. eval_loop P (Suc (Suc (Suc m))) t = Inr (vga_puts (str '' ok\<newline>'') v)"
    "dict_ok v (Entry ?a 0 name # es)" "dict_latest v = ?a" "word_at (vmem v) ?a (link P Do_colon) (dict_here u)"
    "cells_at (vmem v) (dict_here u) (concat css @ [SENTINEL_EXIT])" "forth_state v = STATE_INTERPRET" "comp_frame s v"
    using semicolon_line [OF assms(1) t(2) assms(3) t(4,6,5) assms(6) semi older room w t(8,7) st hb] by blast
  have "forth_eval P (length toks + 4 + k) line s = Inr (vga_puts (str '' ok\<newline>'') v)" for k
  proof -
    have "forth_eval P (length toks + 4 + k) line s = eval_loop P (Suc (Suc (Suc (length toks + Suc k)))) ?s"
      by (simp add: forth_eval_def numeral_eq_Suc)
    also have "\<dots> = eval_loop P (length toks + Suc (Suc (Suc k))) u" unfolding u(1) by simp
    also have "\<dots> = Inr (vga_puts (str '' ok\<newline>'') v)" by (simp only: t(1) v(1))
    finally show ?thesis .
  qed
  with v(2-7) show ?thesis by blast
qed

section \<open>Interpreting a line and calling a definition of it\<close>

text \<open>
  \<open>computes P s es toks xs ys\<close>: the numbers and primitives that the words \<open>toks\<close> name turn
  the stack \<open>xs\<close> into \<open>ys\<close>.
\<close>

inductive computes :: "platform \<Rightarrow> 'a forth_scheme \<Rightarrow> entry list \<Rightarrow> cstring list \<Rightarrow> i64 list \<Rightarrow> i64 list \<Rightarrow> bool"
  for P s es where
  no_word: "computes P s es [] xs xs"
| a_number: "lookup es tok = 0 \<Longrightarrow> try_parse_number tok s = Some v \<Longrightarrow> length xs < 256 \<Longrightarrow>
     computes P s es toks (v # xs) ys \<Longrightarrow> computes P s es (tok # toks) xs ys"
| a_primitive: "finds P s es tok f 0 \<Longrightarrow> \<not> immediate es (lookup es tok) \<Longrightarrow> pure_effect f xs = Some zs \<Longrightarrow>
     length zs \<le> 256 \<Longrightarrow> computes P s es toks zs ys \<Longrightarrow> computes P s es (tok # toks) xs ys"

lemma has_word_at:
  "has_word P s a f \<Longrightarrow> comp_frame s t \<Longrightarrow> \<exists>p. word_at (vmem t) a (link P f) p \<and> in_dictionary a"
  using has_word_comp [of P s a f t] unfolding has_word_def by blast

lemma computes_compiles:
  assumes "computes P s es toks xs ys"
  shows "\<exists>css. list_all2 (\<lambda>tok cs. token_cells P es s tok = Some cs) toks css \<and>
    length (concat css) \<le> 2 * length toks \<and>
    (\<forall>t. comp_frame s t \<longrightarrow> means P (vmem t) 0 (concat css) xs ys)"
  using assms
proof (induction rule: computes.induct)
  case (no_word xs)
  show ?case by (intro exI [of _ "[]"]) (simp add: means.nothing)
next
  case (a_number tok v xs toks ys)
  then obtain css where "list_all2 (\<lambda>tok cs. token_cells P es s tok = Some cs) toks css"
    "length (concat css) \<le> 2 * length toks" "\<forall>t. comp_frame s t \<longrightarrow> means P (vmem t) 0 (concat css) (v # xs) ys"
    by blast
  then show ?case using a_number.hyps
    by (intro exI [of _ "[link P Do_literal, v] # css"]) (auto simp: token_cells_def intro: means.literal)
next
  case (a_primitive tok f xs zs toks ys)
  then obtain css where "list_all2 (\<lambda>tok cs. token_cells P es s tok = Some cs) toks css"
    "length (concat css) \<le> 2 * length toks" "\<forall>t. comp_frame s t \<longrightarrow> means P (vmem t) 0 (concat css) zs ys"
    by blast
  moreover have "token_cells P es s tok = Some [lookup es tok]" "has_word P s (lookup es tok) f"
    using a_primitive.hyps(1,2) by (simp_all add: token_cells_def finds_def)
  ultimately show ?case using a_primitive.hyps(3,4) has_word_at [of P s "lookup es tok" f]
    by (intro exI [of _ "[lookup es tok] # css"]) (auto intro: means.primitive)
qed

text \<open>What interpreting such words changes: the parser's position and the data stack.\<close>

lemma eval_number:
  assumes "dict_ok s es" "length es < loop_bound P" "forth_state s = STATE_INTERPRET"
    "parse_word 64 s = (tok, s\<lparr>parse_ptr := p\<rparr>)" "tok \<noteq> []" "lookup es tok = 0" "try_parse_number tok s = Some v"
  shows "eval_loop P (Suc n) s = eval_loop P n (ds_push v (s\<lparr>parse_ptr := p\<rparr>))"
proof -
  let ?s = "s\<lparr>parse_ptr := p\<rparr>"
  have ok: "dict_ok ?s es" using assms(1) dict_ok_cong [of ?s s es] by simp
  then have "dict_find (loop_bound P) tok ?s = Inr 0" using dict_find_lookup [OF ok assms(2)] assms(6) by simp
  then show ?thesis
    using assms(7) try_parse_base [of ?s s tok]
    by (simp add: eval_loop.simps(2) assms(3-5) STATE_INTERPRET_def STATE_COMPILE_def)
qed

lemma execute_pure:
  assumes "link_ok P" "has_word P s e f" "pure_effect f xs = Some zs"
  shows "forth_execute P (Suc (Suc n)) e s = run_fsym P f s"
proof -
  obtain q where q: "word_at (vmem s) e (link P f) q" using assms(2) by (auto simp: has_word_def)
  have c: "rd64 (vmem s) (q - 8) = Inr (link P f)" using q by (auto simp: word_at_def)
  show ?thesis
    using pure_neq [OF assms(3)] pure_call [OF assms(1,3), of n s]
    by (simp add: forth_execute.simps(2) word_at_fields [OF q] c load64_def assms(1))
qed

lemma eval_execute:
  assumes "dict_ok s es" "length es < loop_bound P" "forth_state s = STATE_INTERPRET"
    "parse_word 64 s = (tok, s\<lparr>parse_ptr := p\<rparr>)" "tok \<noteq> []" "lookup es tok \<noteq> 0"
    "forth_execute P n (lookup es tok) (s\<lparr>parse_ptr := p\<rparr>) = Inr t"
  shows "eval_loop P (Suc n) s = eval_loop P n t"
proof -
  let ?s = "s\<lparr>parse_ptr := p\<rparr>" and ?e = "lookup es tok"
  have ok: "dict_ok ?s es" using assms(1) dict_ok_cong [of ?s s es] by simp
  have find: "dict_find (loop_bound P) tok ?s = Inr ?e" by (rule dict_find_lookup [OF ok assms(2)])
  obtain fl nm where "Entry ?e fl nm \<in> set es" using lookup_entry [OF assms(6)] by blast
  then obtain b where "dict_get_flags ?e ?s = Inr b" using get_flags_found [OF ok] by blast
  then show ?thesis
    using assms(6,7)
    by (simp add: eval_loop.simps(2) [of P n] assms(3-5) find STATE_COMPILE_def STATE_INTERPRET_def)
qed

lemma eval_primitive:
  assumes "link_ok P" "dict_ok s es" "length es < loop_bound P" "forth_state s = STATE_INTERPRET"
    "parse_word 64 s = (tok, s\<lparr>parse_ptr := p\<rparr>)" "tok \<noteq> []" "finds P s es tok f fl" "pure_effect f xs = Some zs"
    "run_fsym P f (s\<lparr>parse_ptr := p\<rparr>) = Inr t"
  shows "eval_loop P (Suc (Suc (Suc n))) s = eval_loop P (Suc (Suc n)) t"
proof -
  let ?s = "s\<lparr>parse_ptr := p\<rparr>"
  have e: "has_word P ?s (lookup es tok) f" "lookup es tok \<noteq> 0"
    using assms(7) by (auto simp: finds_def has_word_def)
  have "forth_execute P (Suc (Suc n)) (lookup es tok) ?s = Inr t"
    using execute_pure [OF assms(1) e(1) assms(8), of n] assms(9) by simp
  then show ?thesis by (rule eval_execute [OF assms(2-6) e(2)])
qed

lemma quiet_forth:
  fixes s t :: "'a forth_scheme"
  assumes "quiet s t"
  shows "forth_state t = forth_state s" "parse_ptr t = parse_ptr s" "forth_base t = forth_base s"
    "vmem t = vmem s" "dict_here t = dict_here s" "dict_latest t = dict_latest s"
proof -
  let ?t = "t\<lparr>ds := ds s, dsp := dsp s, rs := rs s, ip := ip s\<rparr>"
  have eq: "?t = s" using assms by (simp add: quiet_def)
  have "forth_state t = forth_state ?t" "parse_ptr t = parse_ptr ?t" "forth_base t = forth_base ?t"
    "vmem t = vmem ?t" "dict_here t = dict_here ?t" "dict_latest t = dict_latest ?t" by simp_all
  then show "forth_state t = forth_state s" "parse_ptr t = parse_ptr s" "forth_base t = forth_base s"
    "vmem t = vmem s" "dict_here t = dict_here s" "dict_latest t = dict_latest s" by (simp_all only: eq)
qed

lemma stacks_parse [simp]:
  "stacks_ok (s\<lparr>parse_ptr := p\<rparr>) = stacks_ok s" "dstack (s\<lparr>parse_ptr := p\<rparr>) = dstack s"
  "rstack (s\<lparr>parse_ptr := p\<rparr>) = rstack s"
  by (simp_all add: stacks_ok_def dstack_def rstack_def)

lemma quiet_parse:
  assumes "quiet s t"
  shows "quiet (s\<lparr>parse_ptr := p\<rparr>) (t\<lparr>parse_ptr := p\<rparr>)"
proof -
  let ?f = "\<lambda>t. t\<lparr>ds := ds s, dsp := dsp s, rs := rs s, ip := ip s\<rparr>"
  have q: "?f t = s" "rstack t = rstack s" "stacks_ok t" using assms by (simp_all add: quiet_def)
  have "?f (t\<lparr>parse_ptr := p\<rparr>) = (?f t)\<lparr>parse_ptr := p\<rparr>" by simp
  also have "\<dots> = s\<lparr>parse_ptr := p\<rparr>" by (simp only: q(1))
  finally show ?thesis using q(2,3) unfolding quiet_def by simp
qed

lemma finds_cong:
  "vmem t = vmem s \<Longrightarrow> dict_here t = dict_here s \<Longrightarrow> finds P t es nm f fl = finds P s es nm f fl"
  by (simp add: finds_def has_word_def)

lemma computes_cong:
  assumes "computes P s es toks xs ys" "vmem t = vmem s" "dict_here t = dict_here s" "forth_base t = forth_base s"
  shows "computes P t es toks xs ys"
  using assms(1)
proof (induction rule: computes.induct)
  case (a_number tok v xs toks ys)
  then show ?case by (intro computes.a_number) (simp_all add: try_parse_base [OF assms(4)])
next
  case (a_primitive tok f xs zs toks ys)
  then show ?case by (intro computes.a_primitive [of P t es tok f]) (simp_all add: finds_cong [OF assms(2,3)])
qed (rule computes.no_word)

lemma interpret_words:
  assumes "computes P s es toks xs ys" "link_ok P"
  shows "dict_ok u es \<Longrightarrow> length es < loop_bound P \<Longrightarrow> forth_state u = STATE_INTERPRET \<Longrightarrow> stacks_ok u \<Longrightarrow>
    vmem u = vmem s \<Longrightarrow> dict_here u = dict_here s \<Longrightarrow> forth_base u = forth_base s \<Longrightarrow>
    dstack u = xs \<Longrightarrow> line_words (parse_ptr u) = toks @ ws \<Longrightarrow> \<forall>w \<in> set toks. length w \<le> 63 \<Longrightarrow>
    \<exists>t. (\<forall>n. eval_loop P (length toks + (n + 2)) u = eval_loop P (n + 2) t) \<and>
      quiet (u\<lparr>parse_ptr := parse_ptr t\<rparr>) t \<and> ip t = ip u \<and> dstack t = ys \<and> line_words (parse_ptr t) = ws"
  using assms(1)
proof (induction arbitrary: u rule: computes.induct)
  case (no_word xs)
  then show ?case by (intro exI [of _ u]) (simp add: quiet_refl)
next
  case (a_number tok v xs toks ys)
  obtain p where p: "parse_word 64 u = (tok, u\<lparr>parse_ptr := p\<rparr>)" "line_words p = toks @ ws" "tok \<noteq> []"
    using parse_next [of u tok "toks @ ws"] a_number.prems by auto
  let ?u = "u\<lparr>parse_ptr := p\<rparr>" and ?v = "ds_push v (u\<lparr>parse_ptr := p\<rparr>)"
  have "try_parse_number tok u = Some v" using a_number.hyps(2) try_parse_base [of u s tok] a_number.prems(7) by simp
  then have step: "eval_loop P (Suc n) u = eval_loop P n ?v" for n
    using eval_number [OF a_number.prems(1-3) p(1,3) a_number.hyps(1)] by simp
  have ok: "stacks_ok ?u" "length (dstack ?u) < 256" using a_number.prems(4,8) a_number.hyps(3) by simp_all
  note q = quiet_push [OF ok, of v]
  note f = quiet_forth [OF q(1)]
  have "dict_ok ?v es" using a_number.prems(1) dict_ok_cong [of ?v u es] f by simp
  then obtain t where t: "\<And>n. eval_loop P (length toks + (n + 2)) ?v = eval_loop P (n + 2) t"
    "quiet (?v\<lparr>parse_ptr := parse_ptr t\<rparr>) t" "ip t = ip ?v" "dstack t = ys" "line_words (parse_ptr t) = ws"
    using a_number.IH [of ?v] a_number.prems q f p(2) by (auto simp: quiet_def)
  have "quiet (u\<lparr>parse_ptr := parse_ptr t\<rparr>) t"
    using quiet_trans [OF quiet_parse [OF q(1), of "parse_ptr t"] t(2)] by simp
  with t step q(3) show ?case by (intro exI [of _ t]) simp
next
  case (a_primitive tok f xs zs toks ys)
  obtain p where p: "parse_word 64 u = (tok, u\<lparr>parse_ptr := p\<rparr>)" "line_words p = toks @ ws" "tok \<noteq> []"
    using parse_next [of u tok "toks @ ws"] a_primitive.prems by auto
  let ?u = "u\<lparr>parse_ptr := p\<rparr>"
  obtain v where v: "run_fsym P f ?u = Inr v" "quiet ?u v" "ip v = ip ?u" "dstack v = zs"
    using pure_run [of ?u f zs P] a_primitive.prems(4,8) a_primitive.hyps(3,4) by auto
  note g = quiet_forth [OF v(2)]
  have "finds P u es tok f 0" using a_primitive.hyps(1) finds_cong [of u s P es tok f 0] a_primitive.prems by simp
  then have step: "eval_loop P (Suc (Suc (Suc n))) u = eval_loop P (Suc (Suc n)) v" for n
    using eval_primitive [OF assms(2) a_primitive.prems(1-3) p(1,3) _ a_primitive.hyps(3) v(1)] by simp
  have "dict_ok v es" using a_primitive.prems(1) dict_ok_cong [of v u es] g by simp
  then obtain t where t: "\<And>n. eval_loop P (length toks + (n + 2)) v = eval_loop P (n + 2) t"
    "quiet (v\<lparr>parse_ptr := parse_ptr t\<rparr>) t" "ip t = ip v" "dstack t = ys" "line_words (parse_ptr t) = ws"
    using a_primitive.IH [of v] a_primitive.prems v g p(2) by (auto simp: quiet_def)
  have "quiet (u\<lparr>parse_ptr := parse_ptr t\<rparr>) t"
    using quiet_trans [OF quiet_parse [OF v(2), of "parse_ptr t"] t(2)] by simp
  with t step [of "length toks + _"] v(3) show ?case by (intro exI [of _ t]) simp
qed

end
