(* ===== verification/Language.thy ===== *)
theory Language
  imports Compile
begin
text \<open>
  The language as a whole: what colon words compute, that interpreting a line and calling a
  definition of it agree, and where the code departs from Forth.
\<close>

section \<open>Calling a colon word from the outer interpreter\<close>

lemma runs_to_E:
  assumes "runs_to P s t"
  obtains n where "\<And>k. forth_inner P (n + k) s = forth_inner P k t"
  using assms by (auto simp: runs_to_def)

lemma colon_call:
  assumes "link_ok P" "stacks_ok s" "ip s = 0" "length (rstack s) + d < 256"
    "word_at (vmem s) e (link P Do_colon) p" "cells_at (vmem s) p (b @ [SENTINEL_EXIT])"
    "means P (vmem s) d b (dstack s) ys"
  obtains n t where "\<And>k. forth_execute P (n + k) e s = Inr t" "dstack t = ys" "quiet s t" "ip t = 0"
proof -
  let ?u = "(rs_push 0 s)\<lparr>ip := p\<rparr>"
  obtain t where t: "runs_to P ?u t" "quiet ?u t" "dstack t = ys" "cells_at (vmem t) (ip t) [SENTINEL_EXIT]"
    using body_runs [OF assms(1,2,4,6,7), of 0] by blast
  obtain r where r: "\<And>n. forth_inner P (Suc n) t = Inr r" "quiet s r" "dstack r = dstack t" "ip r = 0"
    using last_return [OF assms(2) _ t(2,4), of P] assms(4) by auto
  obtain n where n: "\<And>k. forth_inner P (n + k) ?u = forth_inner P k t" using runs_to_E [OF t(1)] by blast
  have "forth_execute P (Suc (Suc n) + k) e s = Inr r" for k
  proof -
    have "forth_execute P (Suc (Suc n) + k) e s = forth_inner P (n + Suc k) ?u"
      using execute_colon [OF assms(5), of "n + Suc k"] assms(3) by simp
    then show ?thesis by (simp only: n r(1))
  qed
  with r t(3) show ?thesis by (intro that [of "Suc (Suc n)" r]) simp_all
qed

lemma vga_forth [simp]:
  fixes s :: "'a forth_scheme"
  shows "forth_state (vga_puts cs s) = forth_state s" "forth_base (vga_puts cs s) = forth_base s"
    "parse_ptr (vga_puts cs s) = parse_ptr s" "dict_here (vga_puts cs s) = dict_here s"
    "dict_latest (vga_puts cs s) = dict_latest s" "vmem (vga_puts cs s) = vmem s"
proof -
  let ?t = "vga_puts cs s"
  note d = vga_only_dict [OF vga_only_puts [OF vga_only_refl], of cs s]
  show "forth_state ?t = forth_state s" "forth_base ?t = forth_base s" "parse_ptr ?t = parse_ptr s"
    using d(4) by (cases s; cases ?t; simp)+
  show "dict_here ?t = dict_here s" "dict_latest ?t = dict_latest s" by (rule d)+
  show "vmem ?t = vmem s" by (rule vga_vmem)
qed

text \<open>A line that is the name of a colon word.\<close>

lemma name_line:
  assumes "link_ok P" "dict_ok s (Entry a 0 name # es)" "length es + 1 < loop_bound P"
    "forth_state s = STATE_INTERPRET" "line_words line = [name]" "length name \<le> 31"
    "stacks_ok s" "ip s = 0" "length (rstack s) + d < 256"
    "word_at (vmem s) a (link P Do_colon) p" "cells_at (vmem s) p (b @ [SENTINEL_EXIT])"
    "means P (vmem s) d b (dstack s) ys"
  obtains n t where "\<And>k. forth_eval P (n + k) line s = Inr (vga_puts (str '' ok\<newline>'') t)"
    "dstack t = ys" "quiet s (t\<lparr>parse_ptr := parse_ptr s\<rparr>)" "ip t = 0"
proof -
  let ?es = "Entry a 0 name # es"
  let ?s = "s\<lparr>parse_ptr := line\<rparr>"
  have ok: "dict_ok ?s ?es" using assms(2) dict_ok_cong [of ?s s ?es] by simp
  obtain q where q: "parse_word 64 ?s = (name, ?s\<lparr>parse_ptr := q\<rparr>)" "line_words q = []" "name \<noteq> []"
    using parse_next [of ?s name "[]"] assms(5,6) by auto
  let ?q = "?s\<lparr>parse_ptr := q\<rparr>"
  have a: "lookup ?es name = a" "a \<noteq> 0"
    using assms(2) by (auto simp: F_HIDDEN_def dict_ok_def)
  obtain n t where t: "\<And>k. forth_execute P (n + k) a ?q = Inr t" "dstack t = ys" "quiet ?q t" "ip t = 0"
    using colon_call [OF assms(1), of ?q d a p b ys] assms(7-12) by auto
  note f = quiet_forth [OF t(3)]
  let ?t = "t\<lparr>parse_ptr := []\<rparr>"
  have len: "length ?es < loop_bound P" "forth_state ?s = STATE_INTERPRET" using assms(3,4) by simp_all
  have run: "forth_eval P (Suc (Suc n) + k) line s = Inr (vga_puts (str '' ok\<newline>'') ?t)" for k
  proof -
    have "forth_eval P (Suc (Suc n) + k) line s = eval_loop P (Suc (n + Suc k)) ?s" by (simp add: forth_eval_def)
    also have "\<dots> = eval_loop P (n + Suc k) t"
      by (rule eval_execute [OF ok len q(1,3)]) (simp_all only: a t(1) not_False_eq_True)
    also have "\<dots> = eval_loop P (Suc (n + k)) t" by simp
    also have "\<dots> = Inr (vga_puts (str '' ok\<newline>'') ?t)"
      using f(1,2) q(2) assms(4) by (intro line_done) simp_all
    finally show ?thesis .
  qed
  have "quiet s (t\<lparr>parse_ptr := parse_ptr s\<rparr>)" using quiet_parse [OF t(3), of "parse_ptr s"] by simp
  with run t show ?thesis by (intro that [of "Suc (Suc n)" ?t]) simp_all
qed

section \<open>Properties\<close>

text \<open>C1. A colon word computes what its body means: called from the outer interpreter, it
  returns with the data stack that the stack effects of its words give, in order, literals,
  variables, constants and calls of other colon words included, and with the return stack,
  the instruction pointer and everything else as they were.\<close>

theorem colon_word_computes:
  assumes "link_ok P" "stacks_ok s" "ip s = 0" "length (rstack s) + d < 256"
    "word_at (vmem s) e (link P Do_colon) p" "cells_at (vmem s) p (b @ [SENTINEL_EXIT])"
    "means P (vmem s) d b (dstack s) ys"
  shows "\<exists>n t. (\<forall>k. forth_execute P (n + k) e s = Inr t) \<and> dstack t = ys \<and> quiet s t \<and> ip t = 0"
  using colon_call [OF assms] by metis

text \<open>C2. Interpreting and compiling agree on straight-line arithmetic.  For a line of numbers and
  words of the stack, arithmetic and logic groups that are defined on the stack they meet
  (\<open>computes\<close>), typing the line, or typing \<open>: name <line> ;\<close> and then \<open>name\<close>, leaves the same
  data stack; the definition itself leaves the stack alone, and both times the system says
  ok and the return stack is as before.  Words that act at compile time, control structures and
  EXECUTE are not among them: they behave differently in a definition.\<close>

theorem interpret_compile_agree:
  assumes "link_ok P" "dict_ok s es" "length es + 1 < loop_bound P" "forth_state s = STATE_INTERPRET"
    "stacks_ok s" "ip s = 0" "length (rstack s) < 256"
    "finds P s es (str '':'') (F_compiler W_colon) fl" "finds P s es (str '';'') (F_compiler W_semicolon) F_IMMEDIATE"
    "computes P s es toks (dstack s) ys" "\<forall>w \<in> set toks. length w \<le> 63" "length name \<le> 31"
    "unat (dict_here s) + 16 * length toks + 128 \<le> DICT_END"
    "line_words prog = toks" "line_words line = str '':'' # name # toks @ [str '';'']" "line_words call = [name]"
  shows "\<exists>n t u v.
    (\<forall>k. forth_eval P (n + k) prog s = Inr (vga_puts (str '' ok\<newline>'') t)) \<and> dstack t = ys \<and> rstack t = rstack s \<and>
    (\<forall>k. forth_eval P (n + k) line s = Inr (vga_puts (str '' ok\<newline>'') u)) \<and> dstack u = dstack s \<and>
    (\<forall>k. forth_eval P (n + k) call (vga_puts (str '' ok\<newline>'') u) = Inr (vga_puts (str '' ok\<newline>'') v)) \<and>
    dstack v = ys \<and> rstack v = rstack s \<and> ip v = 0"
proof -
  have bound: "length es < loop_bound P" using assms(3) by simp
  \<comment> \<open>interpreting\<close>
  let ?s = "s\<lparr>parse_ptr := prog\<rparr>"
  have "dict_ok ?s es" using assms(2) dict_ok_cong [of ?s s es] by simp
  then obtain t where t: "\<And>n. eval_loop P (length toks + (n + 2)) ?s = eval_loop P (n + 2) t"
    "quiet (?s\<lparr>parse_ptr := parse_ptr t\<rparr>) t" "dstack t = ys" "line_words (parse_ptr t) = []"
    using interpret_words [OF assms(10,1), of ?s "[]"] bound assms(4,5,11,14) by auto
  have direct: "forth_eval P (length toks + 2 + k) prog s = Inr (vga_puts (str '' ok\<newline>'') (t\<lparr>parse_ptr := []\<rparr>))" for k
  proof -
    have "forth_eval P (length toks + 2 + k) prog s = eval_loop P (Suc (Suc k)) t"
      using t(1) [of k] by (simp add: forth_eval_def)
    then show ?thesis using line_done [OF t(4)] quiet_forth(1) [OF t(2)] assms(4) by simp
  qed
  have rt: "rstack t = rstack s" using t(2) by (simp add: quiet_def)
  \<comment> \<open>the definition\<close>
  obtain css where css: "list_all2 (\<lambda>tok cs. token_cells P es s tok = Some cs) toks css"
    "length (concat css) \<le> 2 * length toks" "\<And>t. comp_frame s t \<Longrightarrow> means P (vmem t) 0 (concat css) (dstack s) ys"
    using computes_compiles [OF assms(10)] by blast
  have room: "unat (dict_here s) + 8 * length (concat css) + 128 \<le> DICT_END" using css(2) assms(13) by simp
  let ?a = "align8 (dict_here s)"
  obtain u p where u: "\<And>k. forth_eval P (length toks + 4 + k) line s = Inr (vga_puts (str '' ok\<newline>'') u)"
    "dict_ok u (Entry ?a 0 name # es)" "word_at (vmem u) ?a (link P Do_colon) p"
    "cells_at (vmem u) p (concat css @ [SENTINEL_EXIT])" "forth_state u = STATE_INTERPRET" "comp_frame s u"
    using definition_compiles [OF assms(1-4,15,12,11,8,9) css(1) room] by blast
  note su = comp_frame_same [OF u(6)]
  have same: "dstack u = dstack s" "rstack u = rstack s" "stacks_ok u = stacks_ok s"
    using su by (simp_all add: dstack_def rstack_def stacks_ok_def)
  \<comment> \<open>the call\<close>
  let ?u = "vga_puts (str '' ok\<newline>'') u"
  have pre: "dict_ok ?u (Entry ?a 0 name # es)" "forth_state ?u = STATE_INTERPRET" "stacks_ok ?u" "ip ?u = 0"
    "length (rstack ?u) + 0 < 256" "word_at (vmem ?u) ?a (link P Do_colon) p"
    "cells_at (vmem ?u) p (concat css @ [SENTINEL_EXIT])" "means P (vmem ?u) 0 (concat css) (dstack ?u) ys"
    using u(2-5) same su assms(5-7) css(3) [OF u(6)] dict_ok_cong [of ?u u] by simp_all
  obtain m v where v: "\<And>k. forth_eval P (m + k) call ?u = Inr (vga_puts (str '' ok\<newline>'') v)"
    "dstack v = ys" "quiet ?u (v\<lparr>parse_ptr := parse_ptr ?u\<rparr>)" "ip v = 0"
    using name_line [OF assms(1) pre(1) assms(3) pre(2) assms(16,12) pre(3-8)] by blast
  have rv: "rstack v = rstack s" using v(3) same(2) by (simp add: quiet_def)
  let ?n = "length toks + 4 + m"
  have e: "?n + k = length toks + 2 + (m + 2 + k)" "?n + k = length toks + 4 + (m + k)"
    "?n + k = m + (length toks + 4 + k)" for k by simp_all
  have "forth_eval P (?n + k) prog s = Inr (vga_puts (str '' ok\<newline>'') (t\<lparr>parse_ptr := []\<rparr>))" for k
    by (simp only: e(1) direct)
  moreover have "forth_eval P (?n + k) line s = Inr (vga_puts (str '' ok\<newline>'') u)" for k by (simp only: e(2) u(1))
  moreover have "forth_eval P (?n + k) call ?u = Inr (vga_puts (str '' ok\<newline>'') v)" for k by (simp only: e(3) v(1))
  ultimately show ?thesis
    using t(3) rt same(1) v(2,4) rv
    by (intro exI [of _ ?n] exI [of _ "t\<lparr>parse_ptr := []\<rparr>"] exI [of _ u] exI [of _ v]) simp
qed

text \<open>C13. Control structures do not work inside a definition.  Each of the words compiles the
  address of a run-time routine, which is no dictionary entry; the inner interpreter runs
  the body up to that cell, prints an error and gives up, leaving the return address on the
  return stack and the instruction pointer in the middle of the word.\<close>

theorem control_structures_abort:
  assumes "link_ok P" "stacks_ok s" "length (rstack s) + d < 256"
    "word_at (vmem s) e (link P Do_colon) p" "cells_at (vmem s) p (b @ link P (F_rstack r) # c)"
    "means P (vmem s) d b (dstack s) ys"
  shows "(\<exists>n t. (\<forall>k. forth_execute P (n + k) e s = Inr (vga_puts (str '' Invalid word address!\<newline>'') t)) \<and>
      dstack t = ys \<and> rstack t = ip s # rstack s \<and> ip t = p + 8 * of_nat (length b + 1)) \<and>
    (\<forall>u :: forth. \<forall>es w. dict_ok u es \<longrightarrow> unat (dict_here u) + 30 \<le> DICT_END \<longrightarrow> compiled_routine w = Some r \<longrightarrow>
      (\<exists>u'. run_compiler_word w P u = Inr u' \<and> rd64 (vmem u') (align8 (dict_here u)) = Inr (link P (F_rstack r))))"
proof (intro conjI allI impI)
  let ?u = "(rs_push (ip s) s)\<lparr>ip := p\<rparr>"
  obtain t where t: "runs_to P ?u t" "quiet ?u t" "dstack t = ys" "ip t = p + 8 * of_nat (length b)"
    "cells_at (vmem t) (ip t) (link P (F_rstack r) # c)"
    using body_runs [OF assms(1-3,5,6), of "ip s"] by blast
  let ?t = "t\<lparr>ip := ip t + 8\<rparr>"
  obtain n where n: "\<And>k. forth_inner P (n + k) ?u = forth_inner P k t" using t(1) by (auto simp: runs_to_def)
  have "forth_inner P (Suc k) t = Inr (vga_puts (str '' Invalid word address!\<newline>'') ?t)" for k
    using stray_cell [OF assms(1) t(5)] by simp
  then have "\<forall>k. forth_execute P (Suc (Suc n) + k) e s = Inr (vga_puts (str '' Invalid word address!\<newline>'') ?t)"
    using n execute_colon [OF assms(4)] by (metis add_Suc add_Suc_right)
  moreover have "rstack ?t = ip s # rstack s"
    using t(2) rstack_push [OF assms(2), of "ip s"] assms(3) by (simp add: quiet_def)
  moreover have "ip ?t = p + 8 * of_nat (length b + 1)" using t(4) by (simp add: algebra_simps)
  ultimately show "\<exists>n t. (\<forall>k. forth_execute P (n + k) e s = Inr (vga_puts (str '' Invalid word address!\<newline>'') t)) \<and>
      dstack t = ys \<and> rstack t = ip s # rstack s \<and> ip t = p + 8 * of_nat (length b + 1)"
    using t(3) by (intro exI [of _ "Suc (Suc n)"] exI [of _ ?t]) simp
qed (rule control_word_compiles)


section \<open>EXECUTE inside a definition\<close>

lemma stray_value:
  assumes "link_ok P" "rd64 (vmem s) (ip s) = Inr v" "v \<noteq> SENTINEL_EXIT" "v \<noteq> link P Do_literal" "\<not> in_dictionary v"
  shows "forth_inner P (Suc n) s = Inr (vga_puts (str '' Invalid word address!\<newline>'') (s\<lparr>ip := ip s + 8\<rparr>))"
proof -
  have "v < DICT_VIRT_BASE \<or> v \<ge> DICT_VIRT_BASE + DICT_SIZE" using assms(5) by (auto simp: in_dictionary_def)
  then show ?thesis using assms(2-4) by (simp add: forth_inner.simps(2) ip_fetch_advance_def)
qed

text \<open>
  The primitive starts an inner interpreter of its own, which does not stop at the end of the
  word it was given: it goes on with the caller's cells and returns at the caller's sentinel.
\<close>

lemma execute_cell:
  assumes "link_ok P" "stacks_ok s" "cells_at (vmem s) (ip s) (x # cs)" "in_dictionary x"
    "word_at (vmem s) x (link P (F_system W_execute)) q" "dstack s = e # xs" "word_at (vmem s) e (link P Do_colon) p"
  defines "s' \<equiv> (snd (ds_pop s))\<lparr>ip := ip s + 8\<rparr>"
  shows "quiet s s'" "dstack s' = xs"
    "forth_inner P (Suc (Suc (Suc n))) s =
       rbind (forth_inner P n ((rs_push (ip s + 8) s')\<lparr>ip := p\<rparr>)) (forth_inner P (Suc (Suc n)))"
proof -
  let ?s = "s\<lparr>ip := ip s + 8\<rparr>"
  have ne: "dstack s \<noteq> []" "dstack ?s \<noteq> []" and ok: "stacks_ok ?s" using assms(2,6) by simp_all
  have s': "s' = ds_drop ?s" using ds_pop_Cons [OF assms(2) ne(1)] by (simp add: s'_def ds_drop_def)
  have pop: "ds_pop ?s = (e, s')" using ds_pop_Cons [OF ok ne(2)] assms(6) s' by simp
  show d: "dstack s' = xs" using dstack_drop [OF ok ne(2)] assms(6) s' by simp
  have "rstack s' = rstack s" "stacks_ok s'"
    using stacks_ok_drop [OF ok ne(2)] s' by (simp_all add: rstack_def ds_drop_def)
  then show "quiet s s'" by (simp add: quiet_def s' ds_drop_def)
  have vm: "vmem s' = vmem s" "ip s' = ip s + 8" by (simp_all add: s' ds_drop_def)
  have w: "word_at (vmem s') e (link P Do_colon) p" using assms(7) by (simp only: vm)
  have "call_native P (Suc (Suc n)) (link P (F_system W_execute)) ?s = forth_execute P (Suc n) e s'"
    using pop assms(1) by (simp add: call_native.simps(2))
  also have "\<dots> = forth_inner P n ((rs_push (ip s') s')\<lparr>ip := p\<rparr>)" by (rule execute_colon [OF w])
  finally have "call_native P (Suc (Suc n)) (link P (F_system W_execute)) ?s =
      forth_inner P n ((rs_push (ip s + 8) s')\<lparr>ip := p\<rparr>)" by (simp only: vm)
  then show "forth_inner P (Suc (Suc (Suc n))) s =
      rbind (forth_inner P n ((rs_push (ip s + 8) s')\<lparr>ip := p\<rparr>)) (forth_inner P (Suc (Suc n)))"
    using inner_word [OF assms(1,3,4,5), of "Suc (Suc n)"] assms(1) by simp
qed

lemma nested_run:
  assumes "link_ok P" "stacks_ok s" "length (rstack s) + d < 255"
    "cells_at (vmem s) (ip t) (x # c @ [SENTINEL_EXIT])" "in_dictionary x"
    "word_at (vmem s) x (link P (F_system W_execute)) q"
    "word_at (vmem s) e (link P Do_colon) pe" "cells_at (vmem s) pe (be @ [SENTINEL_EXIT])"
    "quiet ((rs_push 0 s)\<lparr>ip := p\<rparr>) t" "dstack t = e # xs"
    "means P (vmem s) d be xs zs" "means P (vmem s) d c zs ys"
  obtains n r where "\<And>k. forth_inner P (n + Suc k) t = forth_inner P (n + k) r" "quiet s r" "dstack r = ys"
    "ip r = 0" "0 < n"
proof -
  let ?u = "(rs_push 0 s)\<lparr>ip := p\<rparr>"
  have vt: "vmem t = vmem s" "rstack t = 0 # rstack s" "stacks_ok t"
    using quiet_vmem [OF assms(9)] assms(9) rstack_push [OF assms(2), of 0] assms(3) by (simp_all add: quiet_def)
  define t' where "t' = (snd (ds_pop t))\<lparr>ip := ip t + 8\<rparr>"
  have cells: "cells_at (vmem t) (ip t) (x # c @ [SENTINEL_EXIT])" "word_at (vmem t) x (link P (F_system W_execute)) q"
    "word_at (vmem t) e (link P Do_colon) pe"
    using assms(4,6,7) vt(1) by simp_all
  note x = execute_cell [OF assms(1) vt(3) cells(1) assms(5) cells(2) assms(10) cells(3), folded t'_def]
  have t': "vmem t' = vmem s" "rstack t' = rstack t" "stacks_ok t'" "ip t' = ip t + 8"
    using quiet_vmem [OF x(1)] x(1) vt(1) by (simp_all add: quiet_def t'_def)
  have deep: "length (rstack t') + d < 256" "length (rstack t') < 256" "length (rstack t') + d \<le> 256"
    using t'(2) vt(2) assms(3) by simp_all
  \<comment> \<open>the word that was given to EXECUTE\<close>
  have bm: "cells_at (vmem t') pe (be @ [SENTINEL_EXIT])" "means P (vmem t') d be (dstack t') zs"
    using assms(8,11) t'(1) x(2) by simp_all
  obtain w where w: "runs_to P ((rs_push (ip t + 8) t')\<lparr>ip := pe\<rparr>) w" "quiet ((rs_push (ip t + 8) t')\<lparr>ip := pe\<rparr>) w"
    "dstack w = zs" "cells_at (vmem w) (ip w) [SENTINEL_EXIT]"
    using body_runs [OF assms(1) t'(3) deep(1) bm, of "ip t + 8"] by blast
  have vw: "vmem w = vmem t'" using quiet_vmem [OF w(2)] by simp
  have a: "ip t + 8 \<noteq> 0" "rd64 (vmem t') (ip w) = Inr SENTINEL_EXIT" "ip w + 8 \<noteq> 0"
    using assms(4) w(4) vw by simp_all
  obtain r where r: "runs_to P w r" "quiet t' r" "dstack r = zs" "ip r = ip t + 8"
    using return_cell [OF t'(3) deep(2) w(2) a] w(3) by metis
  \<comment> \<open>the rest of the caller\<close>
  have rc: "vmem r = vmem s" "stacks_ok r" "cells_at (vmem s) (ip r) (c @ [SENTINEL_EXIT])" "length (rstack r) + d \<le> 256"
    using quiet_vmem [OF r(2)] r(2,4) t'(1) deep(3) assms(4) by (simp_all add: quiet_def)
  obtain z where z: "runs_to P r z" "quiet r z" "dstack z = ys" "ip z = ip r + 8 * of_nat (length c)"
    using means_inner [OF assms(12,1) rc(1,2) r(3) _ rc(4)] rc(3) by (auto simp: cells_at_append)
  have "quiet t z" using quiet_trans [OF quiet_trans [OF x(1) r(2)] z(2)] .
  then have uz: "quiet ?u z" by (rule quiet_trans [OF assms(9)])
  have cz: "cells_at (vmem z) (ip z) [SENTINEL_EXIT]"
    using rc(1,3) z(4) quiet_vmem [OF z(2)] by (simp add: cells_at_append)
  obtain f where f: "\<And>n. forth_inner P (Suc n) z = Inr f" "quiet s f" "dstack f = dstack z" "ip f = 0"
    using last_return [OF assms(2) _ uz cz, of P] assms(3) by auto
  obtain n where n: "\<And>k. forth_inner P (n + k) ((rs_push (ip t + 8) t')\<lparr>ip := pe\<rparr>) = forth_inner P k z"
    using runs_to_E [OF runs_to_trans [OF w(1) runs_to_trans [OF r(1) z(1)]]] by blast
  have "forth_inner P (Suc (Suc (Suc n)) + Suc k) t = forth_inner P (Suc (Suc (Suc n)) + k) f" for k
    using x(3) [of "n + Suc k"] by (simp add: n f(1) del: add_Suc_right) simp
  then show ?thesis using f(2-4) z(3) that [of "Suc (Suc (Suc n))" f] by simp
qed

text \<open>C31. EXECUTE breaks the definition that contains it.  The nested interpreter runs the word
  it is given and then the rest of the caller up to the caller's end; the outer one goes on
  at address 0.  When nothing is mapped there it takes the fault; when the cell there is not a
  word it stops with an error, with the instruction pointer behind the cell, at 8, although the data stack holds the right result.\<close>

theorem execute_in_colon:
  assumes "link_ok P" "stacks_ok s" "ip s = 0" "length (rstack s) + d < 255"
    "word_at (vmem s) a (link P Do_colon) p" "cells_at (vmem s) p (b @ x # c @ [SENTINEL_EXIT])"
    "in_dictionary x" "word_at (vmem s) x (link P (F_system W_execute)) q"
    "word_at (vmem s) e (link P Do_colon) pe" "cells_at (vmem s) pe (be @ [SENTINEL_EXIT])"
    "means P (vmem s) d b (dstack s) (e # xs)" "means P (vmem s) d be xs zs" "means P (vmem s) d c zs ys"
  shows "\<exists>n t. dstack t = ys \<and> rstack t = rstack s \<and> ip t = 8 \<and>
    (\<forall>err. rd64 (vmem s) 0 = Inl err \<longrightarrow> (\<forall>k. forth_execute P (n + k) a s = Inl err)) \<and>
    (\<forall>v. rd64 (vmem s) 0 = Inr v \<and> v \<noteq> SENTINEL_EXIT \<and> v \<noteq> link P Do_literal \<and> \<not> in_dictionary v \<longrightarrow>
       (\<forall>k. forth_execute P (n + k) a s = Inr (vga_puts (str '' Invalid word address!\<newline>'') t)))"
proof -
  let ?u = "(rs_push 0 s)\<lparr>ip := p\<rparr>"
  have deep: "length (rstack s) + d < 256" using assms(4) by simp
  obtain t where t: "runs_to P ?u t" "quiet ?u t" "dstack t = e # xs" "ip t = p + 8 * of_nat (length b)"
    "cells_at (vmem t) (ip t) (x # c @ [SENTINEL_EXIT])"
    using body_runs [OF assms(1,2) deep assms(6,11), of 0] by blast
  have ct: "cells_at (vmem s) (ip t) (x # c @ [SENTINEL_EXIT])" using t(5) quiet_vmem [OF t(2)] by simp
  obtain n r where r: "\<And>k. forth_inner P (n + Suc k) t = forth_inner P (n + k) r" "quiet s r" "dstack r = ys"
    "ip r = 0" "0 < n"
    using nested_run [OF assms(1,2,4) ct assms(7-10) t(2,3) assms(12,13)] by blast
  obtain m where m: "\<And>k. forth_inner P (m + k) ?u = forth_inner P k t" using runs_to_E [OF t(1)] by blast
  obtain n' where n': "n = Suc n'" using r(5) by (cases n) auto
  have run: "forth_execute P (Suc (m + Suc n) + k) a s = forth_inner P (Suc (n' + k)) r" for k
  proof -
    have "forth_execute P (Suc (m + Suc n) + k) a s = forth_inner P (m + (n + Suc k)) ?u"
      using execute_colon [OF assms(5), of "m + Suc n + k"] assms(3) by (simp add: add.assoc)
    also have "\<dots> = forth_inner P (n + k) r" by (simp only: m r(1))
    finally show ?thesis by (simp add: n')
  qed
  have vr: "vmem r = vmem s" by (rule quiet_vmem [OF r(2)])
  let ?t = "r\<lparr>ip := 8\<rparr>"
  have "forth_execute P (Suc (m + Suc n) + k) a s = Inl err" if "rd64 (vmem s) 0 = Inl err" for k err
    unfolding run using that vr r(4) by (simp add: forth_inner.simps(2) ip_fetch_advance_def)
  moreover have "forth_execute P (Suc (m + Suc n) + k) a s = Inr (vga_puts (str '' Invalid word address!\<newline>'') ?t)"
    if "rd64 (vmem s) 0 = Inr v" "v \<noteq> SENTINEL_EXIT" "v \<noteq> link P Do_literal" "\<not> in_dictionary v" for k v
    unfolding run using stray_value [OF assms(1), of r v "n' + k"] that vr r(4) by simp
  moreover have "rstack ?t = rstack s" "dstack ?t = ys" using r(2,3) by (simp_all add: quiet_def)
  ultimately show ?thesis
    by (intro exI [of _ "Suc (m + Suc n)"] exI [of _ ?t] conjI) auto
qed

section \<open>Examples\<close>

lemma add_colon:
  assumes "dict_ok s es" "length nm \<le> 31" "unat (dict_here s) + 8 * length cs + 96 \<le> DICT_END"
  obtains t p where "dict_frame s t" "dict_ok t (Entry (align8 (dict_here s)) 0 nm # es)"
    "word_at (vmem t) (align8 (dict_here s)) (link P Do_colon) p" "cells_at (vmem t) p cs"
    "in_dictionary (align8 (dict_here s))" "unat (align8 (dict_here s)) + 9 \<le> unat (dict_here t)" "8 \<le> unat p"
    "unat p + 8 * length cs = unat (dict_here t)" "unat (dict_here t) \<le> unat (dict_here s) + 62 + 8 * length cs"
proof -
  let ?a = "align8 (dict_here s)" and ?e = "Entry (align8 (dict_here s)) 0 nm"
  have nm: "take 31 nm = nm" "length nm < 256" "(0 :: u8) AND 0xE0 = 0" using assms(2) by simp_all
  have room: "unat (dict_here s) + 64 \<le> DICT_END" using assms(3) by simp
  obtain u cf where u: "dict_ok u (?e # es)" "dict_frame s u" "dict_get_code_field ?a u = Inr cf"
    "rd64 (vmem u) cf = Inr (link P Do_colon)" "dict_here u = cf + 8" "8 dvd unat (dict_here u)"
    "unat (dict_here u) \<le> unat (dict_here s) + 62"
    using dict_add_primitive_ok [OF assms(1) nm(2) room, of "link P Do_colon" 0] unfolding nm(1,3) by blast
  have "unat DICT_VIRT_BASE \<le> unat (dict_here s)" using assms(1) by (simp add: dict_ok_def)
  note hb = here_bounds [OF room this]
  have low: "unat ?a + 9 \<le> unat (dict_here u)" using u(1) by (auto simp: dict_ok_def below_def)
  have dic: "in_dictionary ?a" using hb(3,5) assms(3) by (intro entry_in_dictionary) simp_all
  have room2: "unat (dict_here u) + 8 * length cs + 15 \<le> DICT_END" using u(7) assms(3) by simp
  obtain t where t: "dict_ok t (?e # es)" "dict_frame u t"
    "unat (dict_here t) = unat (dict_here u) + 8 * length cs" "cells_at (vmem t) (dict_here u) cs"
    using commas_ok [OF u(1,6) room2] by blast
  have p: "8 \<le> unat (dict_here u)" using low by simp
  have "word_at (vmem u) ?a (link P Do_colon) (dict_here u)" using code_field_word_at [OF u(3,4)] u(5) by simp
  moreover have "same_below (unat (dict_here u)) (vmem u) (vmem t)" using t(2) by (simp add: dict_frame_def)
  ultimately have "word_at (vmem t) ?a (link P Do_colon) (dict_here u)"
    using low p unat_u64_less [of "dict_here u"] by (auto intro: word_at_same_below)
  then show ?thesis
    using that [OF dict_frame_trans [OF u(2) t(2)] t(1) _ t(4) dic] low p t(3) u(7) by linarith
qed

lemma word_stays:
  assumes "word_at (vmem s) a c p" "cells_at (vmem s) p cs" "dict_frame s t" "unat a + 9 \<le> unat (dict_here s)" "8 \<le> unat p"
    "unat p + 8 * length cs \<le> unat (dict_here s)"
  shows "word_at (vmem t) a c p" "cells_at (vmem t) p cs"
proof -
  have sb: "same_below (unat (dict_here s)) (vmem s) (vmem t)" using assms(3) by (simp add: dict_frame_def)
  show "word_at (vmem t) a c p" using word_at_same_below [OF assms(1) sb assms(4,5)] assms(6) by simp
  show "cells_at (vmem t) p cs" using cells_same_below [OF sb assms(6) _ assms(2)] by simp
qed

lemma dict_frame_stacks:
  fixes s t :: "'a forth_scheme"
  assumes "dict_frame s t"
  shows "stacks_ok t = stacks_ok s" "dstack t = dstack s" "rstack t = rstack s" "ip t = ip s"
  using comp_frame_same [OF comp_frame_dict [OF assms]] by (simp_all add: stacks_ok_def dstack_def rstack_def)

text \<open>The system after start-up, on the example platform.\<close>

lemma demo_system:
  obtains s :: forth and es where "dict_ok s es" "length es = 101" "forth_state s = STATE_INTERPRET" "stacks_ok s"
    "ip s = 0" "dstack s = []" "rstack s = []" "forth_base s = 10" "unat (dict_here s) \<le> unat DICT_VIRT_BASE + 6262"
    "list_all2 (entry_for demo_platform s) es (rev primitives)" "rd64 (vmem s) 0 = Inl (PageFault 0)"
proof -
  obtain s :: forth and es where s: "dict_frame forth_empty s" "dict_ok s es"
    "list_all2 (entry_for demo_platform s) es (rev primitives)" "length es = 101"
    "unat (dict_here s) \<le> unat DICT_VIRT_BASE + 6262"
    using register_primitives_ok [OF forth_empty_simps(1,2), of demo_platform] by metis
  note same = dict_frame_stacks [OF s(1)] dict_frame_forth [OF s(1)]
  have "same_below (unat (dict_here forth_empty)) (vmem forth_empty) (vmem s)"
    using s(1) unfolding dict_frame_def by blast
  then have "rd64 (vmem s) 0 = rd64 (vmem forth_empty) 0"
    by (rule same_below_rd64) (simp_all add: dict_region)
  moreover have "rd64 (vmem forth_empty) 0 = Inl (PageFault 0)"
  proof -
    have eight: "(8 :: nat) = Suc 7" by simp
    have "rd_bytes dict_region_mem 0 8 = Inl (PageFault 0)"
      by (subst eight, subst rd_bytes.simps) (simp add: rd8_def dict_region_mem_def dict_region)
    then show ?thesis by (simp add: rd64_def)
  qed
  ultimately show ?thesis using that [of s es] s same by simp
qed

lemma not_immediate:
  assumes "dict_ok s es" "Entry a 0 nm \<in> set es"
  shows "\<not> immediate es a"
proof
  assume "immediate es a"
  then obtain fl nm' where e: "Entry a fl nm' \<in> set es" "fl AND F_IMMEDIATE \<noteq> 0" by (auto simp: immediate_def)
  obtain b where "dict_get_flags a s = Inr b" "b AND F_IMMEDIATE = fl AND F_IMMEDIATE"
    using get_flags_found [OF assms(1) e(1)] by blast
  moreover obtain c where "dict_get_flags a s = Inr c" "c AND F_IMMEDIATE = 0 AND F_IMMEDIATE"
    using get_flags_found [OF assms] by blast
  ultimately show False using e(2) by simp
qed

text \<open>On the fresh system \<open>7 DUP *\<close> leaves 49.\<close>

lemma demo_finds:
  assumes "list_all2 (entry_for demo_platform s) es (rev primitives)" "(nm, f, fl) \<in> set primitives"
  shows "finds demo_platform s es nm f fl"
  using primitive_entry [OF assms refl] unfolding finds_def by blast

lemma demo_computes:
  assumes "dict_ok s es" "list_all2 (entry_for demo_platform s) es (rev primitives)" "forth_base s = 10"
  shows "computes demo_platform s es [str ''7'', str ''DUP'', str ''*''] [] [49]"
proof -
  have seven: "lookup es (str ''7'') = 0"
    using table_absent [OF assms(2)] by (simp add: primitives_def str_def fold_case_def)
  have num: "try_parse_number (str ''7'') s = Some 7" 
  proof -
    have "strtol (str ''7'') 10 = (7, [])" by code_simp
    then show ?thesis by (simp add: try_parse_number_def assms(3)) (simp add: str_def)
  qed
  have dup: "finds demo_platform s es (str ''DUP'') (F_stack W_dup) 0"
    and mul: "finds demo_platform s es (str ''*'') (F_arith W_mul) 0"
    by (intro demo_finds [OF assms(2)]; simp add: primitives_def)+
  have plain: "\<not> immediate es (lookup es (str ''DUP''))" "\<not> immediate es (lookup es (str ''*''))"
    using dup mul not_immediate [OF assms(1)] by (auto simp: finds_def)
  have "computes demo_platform s es [str ''*''] [7, 7] [49]"
    by (rule computes.a_primitive [OF mul plain(2), of _ "[49]"]) (simp_all add: eff2_def computes.no_word)
  then have "computes demo_platform s es [str ''DUP'', str ''*''] [7] [49]"
    by (intro computes.a_primitive [OF dup plain(1), of _ "[7, 7]"]) (simp_all only: pure_effect.simps stack_effect.simps eff1_def list.case, simp_all)
  then show ?thesis by (intro computes.a_number [OF seven num]) simp_all
qed

theorem colon_word_computes_witness:
  "\<exists>(s :: forth) a n t. dstack s = [] \<and> (\<forall>k. forth_execute demo_platform (n + k) a s = Inr t) \<and> dstack t = [49]"
proof -
  obtain s :: forth and es where s: "dict_ok s es" "stacks_ok s" "ip s = 0" "dstack s = []" "rstack s = []"
    "forth_base s = 10" "unat (dict_here s) \<le> unat DICT_VIRT_BASE + 6262"
    "list_all2 (entry_for demo_platform s) es (rev primitives)"
    using demo_system by metis
  obtain css where css: "length (concat css) \<le> 6"
    "\<And>t. comp_frame s t \<Longrightarrow> means demo_platform (vmem t) 0 (concat css) [] [49]"
    using computes_compiles [OF demo_computes [OF s(1,8,6)]] by auto
  have room: "unat (dict_here s) + 8 * length (concat css @ [SENTINEL_EXIT]) + 96 \<le> DICT_END" "length (str ''F'') \<le> 31"
    using s(7) css(1) by (simp_all add: DICT_END_def dict_region str_def)
  obtain t p where t: "dict_frame s t" "word_at (vmem t) (align8 (dict_here s)) (link demo_platform Do_colon) p"
    "cells_at (vmem t) p (concat css @ [SENTINEL_EXIT])"
    using add_colon [OF s(1) room(2,1), of demo_platform] by metis
  note same = dict_frame_stacks [OF t(1)]
  have "stacks_ok t" "ip t = 0" "length (rstack t) + 0 < 256" "dstack t = []"
    using s(2-5) same by simp_all
  moreover have "means demo_platform (vmem t) 0 (concat css) (dstack t) [49]"
    using css(2) [OF comp_frame_dict [OF t(1)]] calculation(4) by simp
  ultimately show ?thesis
    using colon_word_computes [OF demo_link_ok _ _ _ t(2,3)] by metis
qed

theorem interpret_compile_agree_witness:
  "\<exists>(s :: forth) n t u v. (\<forall>k. forth_eval demo_platform (n + k) (str ''7 DUP *'') s = Inr t) \<and> dstack t = [49] \<and>
     (\<forall>k. forth_eval demo_platform (n + k) (str '': F 7 DUP * ;'') s = Inr u) \<and> dstack u = [] \<and>
     (\<forall>k. forth_eval demo_platform (n + k) (str ''F'') u = Inr v) \<and> dstack v = [49]"
proof -
  obtain s :: forth and es where s: "dict_ok s es" "length es = 101" "forth_state s = STATE_INTERPRET" "stacks_ok s"
    "ip s = 0" "dstack s = []" "rstack s = []" "forth_base s = 10" "unat (dict_here s) \<le> unat DICT_VIRT_BASE + 6262"
    "list_all2 (entry_for demo_platform s) es (rev primitives)"
    using demo_system by metis
  have words: "finds demo_platform s es (str '':'') (F_compiler W_colon) 0"
    "finds demo_platform s es (str '';'') (F_compiler W_semicolon) F_IMMEDIATE"
    by (intro demo_finds [OF s(10)]; simp add: primitives_def)+
  have spelt: "line_words (str ''7 DUP *'') = [str ''7'', str ''DUP'', str ''*'']"
    "line_words (str '': F 7 DUP * ;'') = str '':'' # str ''F'' # [str ''7'', str ''DUP'', str ''*''] @ [str '';'']"
    "line_words (str ''F'') = [str ''F'']"
    by code_simp+
  have comp: "computes demo_platform s es [str ''7'', str ''DUP'', str ''*''] (dstack s) [49]"
    using demo_computes [OF s(1,10,8)] s(6) by simp
  have short: "\<forall>w \<in> set [str ''7'', str ''DUP'', str ''*'']. length w \<le> 63" "length (str ''F'') \<le> 31"
    by (simp_all add: str_def)
  have bounds: "length es + 1 < loop_bound demo_platform" "length (rstack s) < 256"
    "unat (dict_here s) + 16 * length [str ''7'', str ''DUP'', str ''*''] + 128 \<le> DICT_END"
    using s(2,7,9) by (simp_all add: demo_platform_def DICT_END_def dict_region)
  show ?thesis
    using interpret_compile_agree [OF demo_link_ok s(1) bounds(1) s(3-5) bounds(2) words comp short bounds(3) spelt]
      s(6) by (metis dstack_vga(1))
qed

theorem control_structures_abort_witness:
  "\<exists>(s :: forth) a n t. (\<forall>k. forth_execute demo_platform (n + k) a s =
     Inr (vga_puts (str '' Invalid word address!\<newline>'') t)) \<and> rstack s = [] \<and> rstack t = [0]"
proof -
  obtain s :: forth and es where s: "dict_ok s es" "stacks_ok s" "ip s = 0" "rstack s = []"
    "unat (dict_here s) \<le> unat DICT_VIRT_BASE + 6262"
    using demo_system by metis
  let ?b = "[] @ link demo_platform (F_rstack Rt_0branch) # []"
  have room: "unat (dict_here s) + 8 * length ?b + 96 \<le> DICT_END" "length (str ''F'') \<le> 31"
    using s(5) by (simp_all add: DICT_END_def dict_region str_def)
  obtain t p where t: "dict_frame s t" "word_at (vmem t) (align8 (dict_here s)) (link demo_platform Do_colon) p"
    "cells_at (vmem t) p ?b"
    using add_colon [OF s(1) room(2,1), of demo_platform] by metis
  note same = dict_frame_stacks [OF t(1)]
  have pre: "stacks_ok t" "ip t = 0" "rstack t = []"
    using s(2-4) same by simp_all
  then have deep: "length (rstack t) + 0 < 256" by simp
  show ?thesis
    using control_structures_abort [OF demo_link_ok pre(1) deep t(2,3) means.nothing] pre(2,3) by metis
qed

theorem execute_in_colon_witness:
  "\<exists>(s :: forth) a n. \<forall>k. forth_execute demo_platform (n + k) a s = Inl (PageFault 0)"
proof -
  obtain s :: forth and es where s: "dict_ok s es" "stacks_ok s" "ip s = 0" "dstack s = []" "rstack s = []"
    "unat (dict_here s) \<le> unat DICT_VIRT_BASE + 6262"
    "list_all2 (entry_for demo_platform s) es (rev primitives)" "rd64 (vmem s) 0 = Inl (PageFault 0)"
    using demo_system by metis
  let ?P = demo_platform
  obtain x where x: "has_word ?P s x (F_system W_execute)"
    using demo_finds [OF s(7), of "str ''EXECUTE''" "F_system W_execute" 0] by (auto simp: finds_def primitives_def)
  have room: "unat (dict_here s) + 8 * length [SENTINEL_EXIT] + 96 \<le> DICT_END" "length (str ''F'') \<le> 31"
    using s(6) by (simp_all add: DICT_END_def dict_region str_def)
  let ?e = "align8 (dict_here s)"
  obtain t pe where t: "dict_frame s t" "dict_ok t (Entry ?e 0 (str ''F'') # es)" "word_at (vmem t) ?e (link ?P Do_colon) pe"
    "cells_at (vmem t) pe [SENTINEL_EXIT]" "unat ?e + 9 \<le> unat (dict_here t)" "8 \<le> unat pe"
    "unat pe + 8 * length [SENTINEL_EXIT] = unat (dict_here t)"
    "unat (dict_here t) \<le> unat (dict_here s) + 62 + 8 * length [SENTINEL_EXIT]"
    using add_colon [OF s(1) room(2,1), of ?P] by metis
  let ?b = "[link ?P Do_literal, ?e] @ x # [] @ [SENTINEL_EXIT]"
  have room2: "unat (dict_here t) + 8 * length ?b + 96 \<le> DICT_END"
    using t(8) s(6) by (simp add: DICT_END_def dict_region)
  obtain u p where u: "dict_frame t u" "word_at (vmem u) (align8 (dict_here t)) (link ?P Do_colon) p" "cells_at (vmem u) p ?b"
    using add_colon [OF t(2) room(2) room2, of ?P] by metis
  have su: "dict_frame s u" by (rule dict_frame_trans [OF t(1) u(1)])
  note e = word_stays [OF t(3,4) u(1) t(5,6) eq_imp_le [OF t(7)]]
  obtain q where xq: "in_dictionary x" "word_at (vmem u) x (link ?P (F_system W_execute)) q"
    using has_word_frame [OF x su] by (auto simp: has_word_def)
  note same = dict_frame_stacks [OF su]
  have pre: "stacks_ok u" "ip u = 0" "length (rstack u) + 0 < 255" "dstack u = []"
    using s(2-5) same by simp_all
  have "same_below (unat (dict_here s)) (vmem s) (vmem u)" using su by (simp add: dict_frame_def)
  moreover have "unat DICT_VIRT_BASE \<le> unat (dict_here s)" using s(1) by (simp add: dict_ok_def)
  ultimately have fault: "rd64 (vmem u) 0 = Inl (PageFault 0)"
    using same_below_rd64 [of "unat (dict_here s)" "vmem s" "vmem u" 0] s(8) unat_u64_less [of "dict_here s"]
    by (simp add: dict_region)
  have m: "means ?P (vmem u) 0 [link ?P Do_literal, ?e] (dstack u) (?e # [])"
    using pre(4) by (auto intro: means.intros)
  have eb: "cells_at (vmem u) pe ([] @ [SENTINEL_EXIT])" using e(2) by simp
  show ?thesis
    using execute_in_colon [OF demo_link_ok pre(1-3) u(2,3) xq e(1) eb m means.nothing means.nothing] fault by metis
qed

end
