(* ===== verification/Typing.thy ===== *)
theory Typing
  imports Language
begin

text \<open>
  A type system for threaded code, as the stack comments of Forth: a body takes \<open>i\<close> cells, leaves
  \<open>j\<close> and needs room for \<open>lim\<close> in between.  Words whose effect on the depth depends on the data
  (\<open>?DUP\<close>) and words that can fail on some data (the divisions) have no type.  A typed body is
  safe to call: no underflow, no overflow, no stray cell, and it comes back.
\<close>

section \<open>Types of words and bodies\<close>

text \<open>The stack comment of a primitive: the cells it takes and the cells it leaves.\<close>

primrec stack_type :: "stack_word \<Rightarrow> (nat \<times> nat) option" where
  "stack_type W_dup = Some (1, 2)" | "stack_type W_drop = Some (1, 0)"
| "stack_type W_swap = Some (2, 2)" | "stack_type W_over = Some (2, 3)"
| "stack_type W_rot = Some (3, 3)" | "stack_type W_nip = Some (2, 1)"
| "stack_type W_tuck = Some (2, 3)" | "stack_type W_2dup = Some (2, 4)"
| "stack_type W_2drop = Some (2, 0)" | "stack_type W_2swap = Some (4, 4)"
| "stack_type W_qdup = None" | "stack_type W_depth = Some (0, 1)"
| "stack_type W_vdup = Some (1, 2)" | "stack_type W_vplus = Some (4, 2)"

primrec arith_type :: "arith_word \<Rightarrow> (nat \<times> nat) option" where
  "arith_type W_plus = Some (2, 1)" | "arith_type W_minus = Some (2, 1)"
| "arith_type W_mul = Some (2, 1)" | "arith_type W_div = None"
| "arith_type W_mod = None" | "arith_type W_divmod = None"
| "arith_type W_negate = Some (1, 1)" | "arith_type W_abs = Some (1, 1)"
| "arith_type W_min = Some (2, 1)" | "arith_type W_max = Some (2, 1)"
| "arith_type W_1plus = Some (1, 1)" | "arith_type W_1minus = Some (1, 1)"
| "arith_type W_2star = Some (1, 1)" | "arith_type W_2slash = Some (1, 1)"

primrec logic_type :: "logic_word \<Rightarrow> nat \<times> nat" where
  "logic_type W_and = (2, 1)" | "logic_type W_or = (2, 1)" | "logic_type W_xor = (2, 1)"
| "logic_type W_invert = (1, 1)" | "logic_type W_lshift = (2, 1)" | "logic_type W_rshift = (2, 1)"
| "logic_type W_eq = (2, 1)" | "logic_type W_neq = (2, 1)" | "logic_type W_lt = (2, 1)"
| "logic_type W_gt = (2, 1)" | "logic_type W_le = (2, 1)" | "logic_type W_ge = (2, 1)"
| "logic_type W_0eq = (1, 1)" | "logic_type W_0lt = (1, 1)" | "logic_type W_0gt = (1, 1)"

fun word_type :: "fsym \<Rightarrow> (nat \<times> nat) option" where
  "word_type (F_stack w) = stack_type w"
| "word_type (F_arith w) = arith_type w"
| "word_type (F_logic w) = Some (logic_type w)"
| "word_type _ = None"

text \<open>\<open>typed P m d cs i j lim\<close>: at most \<open>d\<close> nested calls, from \<open>i\<close> cells to \<open>j\<close>, never above \<open>lim\<close>.\<close>

inductive typed :: "platform \<Rightarrow> memory \<Rightarrow> nat \<Rightarrow> u64 list \<Rightarrow> nat \<Rightarrow> nat \<Rightarrow> nat \<Rightarrow> bool" for P m where
  t_end: "i \<le> lim \<Longrightarrow> typed P m d [] i i lim"
| t_literal: "i < lim \<Longrightarrow> typed P m d cs (Suc i) j lim \<Longrightarrow> typed P m d (link P Do_literal # v # cs) i j lim"
| t_var: "in_dictionary e \<Longrightarrow> word_at m e (link P Do_variable) p \<Longrightarrow> i < lim \<Longrightarrow>
     typed P m d cs (Suc i) j lim \<Longrightarrow> typed P m d (e # cs) i j lim"
| t_const: "in_dictionary e \<Longrightarrow> word_at m e (link P Do_constant) p \<Longrightarrow> rd64 m p = Inr v \<Longrightarrow> i < lim \<Longrightarrow>
     typed P m d cs (Suc i) j lim \<Longrightarrow> typed P m d (e # cs) i j lim"
| t_primitive: "in_dictionary e \<Longrightarrow> word_at m e (link P f) p \<Longrightarrow> word_type f = Some (a, b) \<Longrightarrow>
     r + b \<le> lim \<Longrightarrow> typed P m d cs (r + b) j lim \<Longrightarrow> typed P m d (e # cs) (r + a) j lim"
| t_colon: "in_dictionary e \<Longrightarrow> word_at m e (link P Do_colon) p \<Longrightarrow> cells_at m p (b @ [SENTINEL_EXIT]) \<Longrightarrow>
     typed P m d b i k lim \<Longrightarrow> typed P m (Suc d) cs k j lim \<Longrightarrow> typed P m (Suc d) (e # cs) i j lim"

section \<open>Soundness\<close>

text \<open>A primitive works on the cells its type names and on nothing below them.\<close>

lemma split_eff:
  "Suc 0 = length xs \<Longrightarrow> \<exists>a. xs = [a]" "length xs = 1 \<Longrightarrow> \<exists>a. xs = [a]" "length xs = 2 \<Longrightarrow> \<exists>a b. xs = [a, b]"
  "length xs = 3 \<Longrightarrow> \<exists>a b c. xs = [a, b, c]" "length xs = 4 \<Longrightarrow> \<exists>a b c d. xs = [a, b, c, d]"
  by (auto simp: length_Suc_conv eval_nat_numeral dest!: sym [of "Suc 0"])

lemma word_type_effect:
  assumes "word_type f = Some (a, b)" "length xs = a"
  shows "\<exists>zs. length zs = b \<and> pure_effect f (xs @ ys) = Some (zs @ ys)"
proof (cases f)
  case (F_stack w)
  with assms show ?thesis
    by (cases w) (auto simp: eff_defs dest!: split_eff intro: exI [of _ "[of_nat (length ys)]"])
next
  case (F_arith w)
  with assms show ?thesis by (cases w) (auto simp: eff_defs dest!: split_eff)
next
  case (F_logic w)
  with assms show ?thesis by (cases w) (auto simp: eff_defs dest!: split_eff)
qed (use assms in simp_all)

text \<open>Progress and preservation in one: a typed body has a meaning on every stack of its type.\<close>

lemma typed_means:
  "typed P m d cs i j lim \<Longrightarrow> length xs = i \<Longrightarrow> lim + length ys \<le> 256 \<Longrightarrow>
     \<exists>zs. length zs = j \<and> means P m d cs (xs @ ys) (zs @ ys)"
proof (induction arbitrary: xs rule: typed.induct)
  case (t_end i lim d)
  then show ?case using means.nothing by blast
next
  case (t_literal i lim d cs j v)
  then obtain zs where "length zs = j" "means P m d cs ((v # xs) @ ys) (zs @ ys)"
    using t_literal.IH [of "v # xs"] by auto
  then show ?case using t_literal means.literal [of "xs @ ys" P m d cs v "zs @ ys"] by auto
next
  case (t_var e p i lim d cs j)
  then obtain zs where "length zs = j" "means P m d cs ((p # xs) @ ys) (zs @ ys)"
    using t_var.IH [of "p # xs"] by auto
  then show ?case using t_var means.var [of e m P p "xs @ ys" d cs "zs @ ys"] by auto
next
  case (t_const e p v i lim d cs j)
  then obtain zs where "length zs = j" "means P m d cs ((v # xs) @ ys) (zs @ ys)"
    using t_const.IH [of "v # xs"] by auto
  then show ?case using t_const means.const [of e m P p v "xs @ ys" d cs "zs @ ys"] by auto
next
  case (t_primitive e f p a b r lim d cs j)
  define us where "us = take a xs"
  have xs: "xs = us @ drop a xs" "length us = a" "length (drop a xs) = r"
    using t_primitive.prems by (simp_all add: us_def)
  obtain vs where vs: "length vs = b" "pure_effect f (us @ drop a xs @ ys) = Some (vs @ drop a xs @ ys)"
    using word_type_effect [OF t_primitive.hyps(3) xs(2)] by blast
  obtain zs where zs: "length zs = j" "means P m d cs ((vs @ drop a xs) @ ys) (zs @ ys)"
    using t_primitive.IH [of "vs @ drop a xs"] t_primitive.prems vs(1) xs(3) by auto
  have "pure_effect f (xs @ ys) = Some ((vs @ drop a xs) @ ys)" using vs(2) xs(1) by (metis append.assoc)
  moreover have "length ((vs @ drop a xs) @ ys) \<le> 256"
    using t_primitive.hyps(4) t_primitive.prems(2) vs(1) xs(3) by simp
  ultimately show ?case using means.primitive [OF t_primitive.hyps(1,2) _ _ zs(2)] zs(1) by blast
next
  case (t_colon e p b d i k lim cs j)
  obtain us where us: "length us = k" "means P m d b (xs @ ys) (us @ ys)"
    using t_colon.IH(1) [OF t_colon.prems] by blast
  obtain zs where "length zs = j" "means P m (Suc d) cs (us @ ys) (zs @ ys)"
    using t_colon.IH(2) [OF us(1) t_colon.prems(2)] by blast
  then show ?case using means.colon [OF t_colon.hyps(1-3) us(2)] by blast
qed

text \<open>Types are stable under a deeper stack.\<close>

lemma typed_frame: "typed P m d cs i j lim \<Longrightarrow> typed P m d cs (i + n) (j + n) (lim + n)"
proof (induction rule: typed.induct)
  case (t_primitive e f p a b r lim d cs j)
  have "typed P m d (e # cs) ((r + n) + a) (j + n) (lim + n)"
    using t_primitive by (intro typed.t_primitive [where f = f and a = a and b = b and r = "r + n"])
      (simp_all add: ac_simps)
  then show ?case by (simp add: ac_simps)
qed (auto intro: typed.intros)

section \<open>Properties\<close>

text \<open>C6. Typed words are safe.  A colon word whose body has the type \<open>i\<close> to \<open>j\<close> within \<open>lim\<close>, called on
  any stack that holds \<open>i\<close> cells over others and leaves room for \<open>lim\<close>, returns: it leaves \<open>j\<close> cells
  over the same others, with no underflow or overflow message and no fault, and with the return
  stack, the instruction pointer and everything else as they were.\<close>

theorem typed_word_safe:
  assumes "link_ok P" "stacks_ok s" "ip s = 0" "length (rstack s) + d < 256"
    "word_at (vmem s) e (link P Do_colon) p" "cells_at (vmem s) p (b @ [SENTINEL_EXIT])"
    "typed P (vmem s) d b i j lim" "dstack s = xs @ ys" "length xs = i" "lim + length ys \<le> 256"
  shows "\<exists>n t zs. (\<forall>k. forth_execute P (n + k) e s = Inr t) \<and> dstack t = zs @ ys \<and> length zs = j \<and>
    quiet s t \<and> ip t = 0"
proof -
  obtain zs where "length zs = j" "means P (vmem s) d b (dstack s) (zs @ ys)"
    using typed_means [OF assms(7,9,10)] assms(8) by auto
  with colon_call [OF assms(1-6)] show ?thesis by metis
qed

theorem typed_word_safe_witness:
  "\<exists>(s :: forth) a n t x. dstack s = [] \<and> (\<forall>k. forth_execute demo_platform (n + k) a s = Inr t) \<and> dstack t = [x]"
proof -
  let ?P = demo_platform
  obtain s :: forth and es where s: "dict_ok s es" "stacks_ok s" "ip s = 0" "dstack s = []" "rstack s = []"
    "unat (dict_here s) \<le> unat DICT_VIRT_BASE + 6262" "list_all2 (entry_for ?P s) es (rev primitives)"
    using demo_system by metis
  define b where "b = [link ?P Do_literal, 7, lookup es (str ''DUP''), lookup es (str ''*'')]"
  have room: "unat (dict_here s) + 8 * length (b @ [SENTINEL_EXIT]) + 96 \<le> DICT_END" "length (str ''F'') \<le> 31"
    using s(6) by (simp_all add: b_def DICT_END_def dict_region str_def)
  obtain t p where t: "dict_frame s t" "word_at (vmem t) (align8 (dict_here s)) (link ?P Do_colon) p"
    "cells_at (vmem t) p (b @ [SENTINEL_EXIT])"
    using add_colon [OF s(1) room(2,1), of ?P] by metis
  have w: "\<exists>p. word_at (vmem t) (lookup es nm) (link ?P f) p \<and> in_dictionary (lookup es nm)"
    if "(nm, f, 0) \<in> set primitives" for nm f
    using demo_finds [OF s(7) that] has_word_at [OF _ comp_frame_dict [OF t(1)]] by (auto simp: finds_def)
  obtain p1 p2 where dup: "word_at (vmem t) (lookup es (str ''DUP'')) (link ?P (F_stack W_dup)) p1"
      "in_dictionary (lookup es (str ''DUP''))"
    and mul: "word_at (vmem t) (lookup es (str ''*'')) (link ?P (F_arith W_mul)) p2" "in_dictionary (lookup es (str ''*''))"
    using w [of "str ''DUP''" "F_stack W_dup"] w [of "str ''*''" "F_arith W_mul"] by (auto simp: primitives_def)
  have "typed ?P (vmem t) 0 [lookup es (str ''*'')] (0 + 2) 1 2"
    by (rule t_primitive [OF mul(2,1), where b = 1]) (simp_all add: t_end)
  then have "typed ?P (vmem t) 0 [lookup es (str ''DUP''), lookup es (str ''*'')] (0 + 1) 1 2"
    by (intro t_primitive [OF dup(2,1)]) simp_all
  then have ty: "typed ?P (vmem t) 0 b 0 1 2" unfolding b_def by (intro t_literal) simp_all
  note same = dict_frame_stacks [OF t(1)]
  have "stacks_ok t" "ip t = 0" "length (rstack t) + 0 < 256" "dstack t = [] @ []"
    using s(2-5) same by simp_all
  from typed_word_safe [OF demo_link_ok this(1-3) t(2,3) ty this(4)] obtain n u zs where
    "\<forall>k. forth_execute ?P (n + k) (align8 (dict_here s)) t = Inr u" "dstack u = zs @ []" "length zs = 1" by auto
  moreover from this have "\<exists>x. dstack u = [x]" by (auto simp: length_Suc_conv)
  moreover have "dstack t = []" using s(4) same by simp
  ultimately show ?thesis by blast
qed

end
