(* ===== verification/Repl.thy ===== *)
theory Repl
  imports Registry
begin
text \<open>
  The read-eval-print loop as a line editor: the keys typed up to a newline, and the line
  that is evaluated.
\<close>

section \<open>A line editor\<close>

text \<open>What a key does to the line: a backspace deletes, a printing character is added while
  there is room, anything else is ignored.\<close>

definition edit_line :: "u8 \<Rightarrow> cstring \<Rightarrow> cstring" where
  "edit_line c line =
     (if c = 8 then butlast line
      else if sint c \<ge> 32 \<and> length line < 255 then line @ [c]
      else line)"

text \<open>The keys one after the other through the loop body.\<close>

fun repl_keys :: "platform \<Rightarrow> nat \<Rightarrow> cstring \<Rightarrow> 'a forth_scheme \<Rightarrow> 'a forth_scheme res" where
  "repl_keys P n [] s = Inr s"
| "repl_keys P n (c # cs) s = rbind (repl_key P n c s) (\<lambda>s. repl_keys P n cs s)"

lemma repl_keys_Nil [simp]: "repl_keys P n [] = Inr"
  by (rule ext) simp

lemma repl_keys_append: "repl_keys P n (cs @ ds') s = rbind (repl_keys P n cs s) (\<lambda>s. repl_keys P n ds' s)"
  proof (induction cs arbitrary: s)
  case (Cons c cs)
  show ?case by (simp add: rbind_assoc) (rule rbind_cong [OF refl], rule Cons.IH)
qed simp

text \<open>The buffer holds the line; everything but the screen and the editor's variables is as before.\<close>

definition editor_only :: "'a forth_scheme \<Rightarrow> 'a forth_scheme \<Rightarrow> bool" where
  "editor_only s t \<longleftrightarrow> vga_only s (t\<lparr>input_buffer := input_buffer s, input_pos := input_pos s\<rparr>)"

definition holds_line :: "cstring \<Rightarrow> 'a forth_scheme \<Rightarrow> bool" where
  "holds_line line s \<longleftrightarrow>
     length (input_buffer s) = 256 \<and> input_pos s = int (length line) \<and> length line \<le> 255 \<and>
     take (length line) (input_buffer s) = line \<and> 0 \<notin> set line"

lemma vga_only_more:
  fixes s t :: "'a forth_scheme"
  assumes "vga_only s t"
  shows "vga_only (s\<lparr>input_buffer := b, input_pos := p\<rparr>) (t\<lparr>input_buffer := b, input_pos := p\<rparr>)"
  using assms by (cases s; cases t; simp add: vga_only_def vga.defs)

lemma editor_only_step:
  fixes s t u :: "'a forth_scheme"
  assumes "editor_only s t" "vga_only t u"
  shows "editor_only s (u\<lparr>input_buffer := b, input_pos := p\<rparr>)"
proof -
  have "vga_only (t\<lparr>input_buffer := input_buffer s, input_pos := input_pos s\<rparr>)
      (u\<lparr>input_buffer := input_buffer s, input_pos := input_pos s\<rparr>)"
    using vga_only_more [OF assms(2)] .
  with assms(1) show ?thesis unfolding editor_only_def by (auto intro: vga_only_trans)
qed

lemma vga_only_input:
  fixes s t :: "'a forth_scheme"
  assumes "vga_only s t"
  shows "input_buffer t = input_buffer s" "input_pos t = input_pos s"
  using assms by (cases s; cases t; simp add: vga_only_def vga.defs)+

lemma editor_only_same:
  fixes s t u :: "'a forth_scheme"
  assumes "editor_only s t" "vga_only t u"
  shows "editor_only s u"
  using editor_only_step [OF assms, of "input_pos u" "input_buffer u"] by simp

lemma edit_step:
  fixes s t :: "'a forth_scheme"
  assumes "holds_line line t" "editor_only s t" "c \<noteq> 10"
  shows "\<exists>u. repl_key P n c t = Inr u \<and> holds_line (edit_line c line) u \<and> editor_only s u"
proof -
  have len: "length (input_buffer t) = 256" "input_pos t = int (length line)" "length line \<le> 255"
    "take (length line) (input_buffer t) = line" "0 \<notin> set line"
    using assms(1) by (auto simp: holds_line_def)
  consider (erase) "c = 8" "line \<noteq> []" | (nothing) "c = 8" "line = []" | (typed) "c \<noteq> 8" "sint c \<ge> 32" "length line < 255"
    | (ignored) "c \<noteq> 8" "\<not> (sint c \<ge> 32 \<and> length line < 255)" by blast
  then show ?thesis
  proof cases
    case erase
    let ?t = "t\<lparr>input_pos := input_pos t - 1\<rparr>"
    let ?u = "vga_putchar 8 (vga_putchar 32 (vga_putchar 8 ?t))"
    have v: "vga_only ?t ?u" by blast
    note i = vga_only_input [OF v]
    have "editor_only s (t\<lparr>input_buffer := input_buffer t, input_pos := input_pos t - 1\<rparr>)"
      by (rule editor_only_step [OF assms(2)]) simp
    then have "editor_only s ?u" using editor_only_same [OF _ v] by simp
    moreover have "holds_line (butlast line) ?u"
    proof -
      have "take (length line - 1) (take (length line) (input_buffer t)) = take (length line - 1) line"
        by (simp only: len(4))
      then have "take (length line - 1) (input_buffer t) = butlast line" by (simp add: butlast_conv_take)
      moreover have "0 \<notin> set (butlast line)" using len(5) in_set_butlastD by metis
      moreover have "input_pos ?u = int (length (butlast line))" using i(2) len(2) erase(2) by (cases line) simp_all
      moreover have "length (input_buffer ?u) = 256" "length (butlast line) \<le> 255" using i(1) len(1,3) by simp_all
      ultimately show ?thesis using i(1) unfolding holds_line_def by simp
    qed
    ultimately show ?thesis using erase len(2) by (intro exI [of _ ?u]) (simp add: repl_key_def edit_line_def)
  next
    case nothing
    then show ?thesis using assms len(2) by (intro exI [of _ t]) (simp add: repl_key_def edit_line_def)
  next
    case typed
    let ?t = "vga_putchar c t"
    let ?u = "?t\<lparr>input_buffer := (input_buffer ?t)[nat (input_pos ?t) := c], input_pos := input_pos ?t + 1\<rparr>"
    have v: "vga_only t ?t" by blast
    note i = vga_only_input [OF v]
    have "c \<noteq> 0" using typed(2) by auto
    then have "holds_line (line @ [c]) ?u"
      using len typed i by (auto simp: holds_line_def take_Suc_conv_app_nth)
    moreover have "editor_only s ?u" by (rule editor_only_step [OF assms(2) v])
    moreover have "repl_key P n c t = Inr ?u"
      using typed len(2) assms(3) by (simp add: repl_key_def INPUT_BUF_SIZE_def Let_def)
    ultimately show ?thesis using typed by (intro exI [of _ ?u]) (simp add: edit_line_def)
  next
    case ignored
    then have "repl_key P n c t = Inr t"
      using assms(3) len(2) by (auto simp: repl_key_def INPUT_BUF_SIZE_def)
    with ignored assms show ?thesis by (intro exI [of _ t]) (auto simp: edit_line_def)
  qed
qed

lemma edit_steps:
  assumes "holds_line line t" "editor_only s t" "10 \<notin> set cs"
  shows "\<exists>u. repl_keys P n cs t = Inr u \<and> holds_line (fold edit_line cs line) u \<and> editor_only s u"
  using assms
proof (induction cs arbitrary: t line)
  case Nil
  then show ?case by (intro exI [of _ t]) simp
next
  case (Cons c cs)
  obtain u where u: "repl_key P n c t = Inr u" "holds_line (edit_line c line) u" "editor_only s u"
    using edit_step [OF Cons.prems(1,2), of c P n] Cons.prems(3) by auto
  then show ?case using Cons.IH [OF u(2,3)] Cons.prems(3) by simp
qed

lemma take_until_zero:
  assumes "take k xs = line" "length line = k" "k < length xs" "0 \<notin> set line"
  shows "takeWhile (\<lambda>c. c \<noteq> 0) (xs[k := 0]) = (line :: cstring)"
proof -
  have "xs[k := 0] = line @ 0 # drop (Suc k) xs"
    using assms(1,3) by (simp add: upd_conv_take_nth_drop)
  moreover have "\<And>x. x \<in> set line \<Longrightarrow> x \<noteq> 0" using assms(4) by auto
  ultimately show ?thesis by (simp add: takeWhile_append2)
qed

section \<open>Properties\<close>

text \<open>C15. The prompt is a line editor.  After any keys without a newline the buffer holds the
  line that editing them gives (at most 255 characters, control and non-ASCII keys ignored),
  and a newline evaluates exactly that line, once, or nothing when the line is empty; then
  the prompt shows the interpreter's state.  The keys themselves change only the screen and
  the editor's own variables.\<close>

theorem repl_evaluates_edited_line:
  fixes s :: "'a forth_scheme"
  assumes "length (input_buffer s) = 256" "input_pos s = 0" "10 \<notin> set cs"
  defines "line \<equiv> fold edit_line cs []"
  shows "length line \<le> 255 \<and> 0 \<notin> set line \<and>
    (\<exists>u. editor_only s u \<and>
       repl_keys P n (cs @ [10]) s =
         rbind (if line = [] then Inr u else forth_eval P n line u) (\<lambda>t.
         Inr (prompt (if forth_state t = STATE_COMPILE then str ''| '' else str ''> '') (t\<lparr>input_pos := 0\<rparr>))))"
proof -
  have "holds_line [] s" using assms(1,2) by (simp add: holds_line_def)
  moreover have "editor_only s s" by (simp add: editor_only_def)
  ultimately obtain u where u: "repl_keys P n cs s = Inr u" "holds_line line u" "editor_only s u"
    using edit_steps [of "[]" s s cs P n] assms(3) unfolding line_def by blast
  have len: "length (input_buffer u) = 256" "input_pos u = int (length line)" "length line \<le> 255"
    "take (length line) (input_buffer u) = line" "0 \<notin> set line"
    using u(2) by (auto simp: holds_line_def)
  let ?u = "u\<lparr>input_buffer := (input_buffer u)[nat (input_pos u) := 0]\<rparr>"
  let ?v = "vga_putchar 10 ?u"
  have v: "vga_only ?u ?v" by blast
  note i = vga_only_input [OF v]
  have "editor_only s (u\<lparr>input_buffer := (input_buffer u)[nat (input_pos u) := 0], input_pos := input_pos u\<rparr>)"
    by (rule editor_only_step [OF u(3)]) simp
  then have "editor_only s ?v" using editor_only_same [OF _ v] by simp
  moreover have "takeWhile (\<lambda>c. c \<noteq> 0) (input_buffer ?v) = line"
    using take_until_zero [OF len(4)] len i by simp
  ultimately show ?thesis
    using u(1) len i(2) by (intro conjI exI [of _ ?v]) (auto simp: repl_keys_append repl_key_def Let_def rbind_assoc)
qed

theorem repl_evaluates_edited_line_witness:
  "\<exists>u :: forth. repl_keys demo_platform 100 [49, 120, 8, 50, 27, 10] forth_empty =
     rbind (forth_eval demo_platform 100 (str ''12'') u) (\<lambda>t.
     Inr (prompt (if forth_state t = STATE_COMPILE then str ''| '' else str ''> '') (t\<lparr>input_pos := 0\<rparr>)))"
proof -
  let ?s = forth_empty
  have start: "length (input_buffer ?s) = 256" "input_pos ?s = 0" "10 \<notin> set [49, 120, 8, 50, 27 :: u8]"
    by (simp_all add: forth_empty_def forth_idle_def dict.defs)
  have line: "fold edit_line [49, 120, 8, 50, 27] [] = str ''12''" "str ''12'' \<noteq> []"
    by (simp_all add: edit_line_def str_def)
  show ?thesis
    using repl_evaluates_edited_line [OF start, of demo_platform 100] unfolding line(1) using line(2) by auto
qed

end
