(* ===== verification/Interrupts.thy ===== *)
theory Interrupts
  imports Forth
begin
text \<open>
  \<open>kernel/interrupts\<close>: the descriptor table (\<open>idt.c\<close>), the two 8259 interrupt
  controllers, the report of a CPU exception (\<open>isr.c\<close>) and the dispatch of hardware
  interrupts (\<open>irq.c\<close>).  The entry stubs are assembly: their addresses are arguments, and
  they call the handlers with the frame they pushed.
\<close>

definition IDT_PRESENT :: u8 where "IDT_PRESENT = 0x80"
definition IDT_DPL0 :: u8 where "IDT_DPL0 = 0x00"
definition IDT_INTERRUPT :: u8 where "IDT_INTERRUPT = 0x0E"
definition IDT_FLAGS_INTERRUPT :: u8 where "IDT_FLAGS_INTERRUPT = IDT_PRESENT OR IDT_DPL0 OR IDT_INTERRUPT"
definition IDT_ENTRIES :: nat where "IDT_ENTRIES = 256"

definition PIC1_COMMAND :: u16 where "PIC1_COMMAND = 0x20"
definition PIC1_DATA :: u16 where "PIC1_DATA = 0x21"
definition PIC2_COMMAND :: u16 where "PIC2_COMMAND = 0xA0"
definition PIC2_DATA :: u16 where "PIC2_DATA = 0xA1"
definition PIC_EOI :: u8 where "PIC_EOI = 0x20"
definition ICW1_ICW4 :: u8 where "ICW1_ICW4 = 0x01"
definition ICW1_INIT :: u8 where "ICW1_INIT = 0x10"
definition ICW4_8086 :: u8 where "ICW4_8086 = 0x01"
definition IRQ_BASE :: u8 where "IRQ_BASE = 0x20"

record idt_entry =
  offset_low :: u16
  selector :: u16
  ist :: u8
  gate_flags :: u8
  offset_mid :: u16
  offset_high :: u32
  reserved :: u32

record interrupt_frame =
  f_rdx :: u64
  f_rcx :: u64
  f_rbx :: u64
  f_rax :: u64
  int_no :: u64
  err_code :: u64
  f_rip :: u64
  f_cs :: u64
  f_rflags :: u64
  f_rsp :: u64

text \<open>The table is only reached through its gates, so it is a list and not memory.\<close>

record interrupts = forth +
  idt :: "idt_entry list"
  idtr_limit :: u16
  idtr_base :: u64
  idt_register :: "(u16 \<times> u64) option"

section \<open>The descriptor table\<close>

definition empty_gate :: idt_entry where
  "empty_gate = \<lparr>offset_low = 0, selector = 0, ist = 0, gate_flags = 0, offset_mid = 0, offset_high = 0, reserved = 0\<rparr>"

definition idt_set_gate :: "u8 \<Rightarrow> u64 \<Rightarrow> u16 \<Rightarrow> u8 \<Rightarrow> u8 \<Rightarrow> 'a interrupts_scheme \<Rightarrow> 'a interrupts_scheme" where
  "idt_set_gate vector handler sel flags ist_no s =
     s\<lparr>idt := (idt s)[unat vector := (idt s ! unat vector)
        \<lparr>offset_low := ucast (handler AND 0xFFFF), selector := sel, ist := ist_no AND 7, gate_flags := flags,
         offset_mid := ucast (drop_bit 16 handler AND 0xFFFF), offset_high := ucast (drop_bit 32 handler AND 0xFFFFFFFF),
         reserved := 0\<rparr>]\<rparr>"

section \<open>The interrupt controllers\<close>

definition io_wait :: "'a machine_scheme \<Rightarrow> 'a machine_scheme" where "io_wait s = outb 0x80 0 s"

definition pic_init :: "'a machine_scheme \<Rightarrow> 'a machine_scheme" where
  "pic_init s =
     (let s = io_wait (outb PIC1_COMMAND (ICW1_INIT OR ICW1_ICW4) s);
          s = io_wait (outb PIC2_COMMAND (ICW1_INIT OR ICW1_ICW4) s);
          s = io_wait (outb PIC1_DATA IRQ_BASE s);
          s = io_wait (outb PIC2_DATA (IRQ_BASE + 8) s);
          s = io_wait (outb PIC1_DATA 0x04 s);
          s = io_wait (outb PIC2_DATA 0x02 s);
          s = io_wait (outb PIC1_DATA ICW4_8086 s);
          s = io_wait (outb PIC2_DATA ICW4_8086 s);
          s = outb PIC1_DATA 0xFC s
      in outb PIC2_DATA 0xFF s)"

definition pic_send_eoi :: "u8 \<Rightarrow> 'a machine_scheme \<Rightarrow> 'a machine_scheme" where
  "pic_send_eoi irq s =
     (let s = (if irq \<ge> 8 then outb PIC2_COMMAND PIC_EOI s else s) in outb PIC1_COMMAND PIC_EOI s)"

text \<open>
  The mask register of a line, and the line's number in it.  \<open>1 << irq\<close> is an \<open>int\<close>; the
  byte written is its low byte, and a shift of 32 or more, which C leaves undefined, is
  \<open>Unmodelled\<close>.
\<close>

definition pic_line :: "u8 \<Rightarrow> u16 \<times> u8" where
  "pic_line irq = (if irq < 8 then (PIC1_DATA, irq) else (PIC2_DATA, irq - 8))"

definition pic_set_mask :: "device \<Rightarrow> u8 \<Rightarrow> 'a machine_scheme \<Rightarrow> 'a machine_scheme res" where
  "pic_set_mask dev irq s =
     (let (port, irq) = pic_line irq; (v, s) = inb dev port s in
      if irq \<ge> 32 then Inl Unmodelled else Inr (outb port (v OR push_bit (unat irq) 1) s))"

definition pic_clear_mask :: "device \<Rightarrow> u8 \<Rightarrow> 'a machine_scheme \<Rightarrow> 'a machine_scheme res" where
  "pic_clear_mask dev irq s =
     (let (port, irq) = pic_line irq; (v, s) = inb dev port s in
      if irq \<ge> 32 then Inl Unmodelled else Inr (outb port (v AND NOT (push_bit (unat irq) 1)) s))"

section \<open>Initialisation\<close>

text \<open>The calls of \<open>idt_set_gate\<close> one after the other: 32 exceptions, then 16 interrupts.\<close>

fun set_gates :: "(u8 \<times> u64) list \<Rightarrow> 'a interrupts_scheme \<Rightarrow> 'a interrupts_scheme" where
  "set_gates [] s = s"
| "set_gates ((v, handler) # gs) s = set_gates gs (idt_set_gate v handler 0x08 IDT_FLAGS_INTERRUPT 0 s)"

definition idt_init :: "(nat \<Rightarrow> u64) \<Rightarrow> (nat \<Rightarrow> u64) \<Rightarrow> u64 \<Rightarrow> 'a interrupts_scheme \<Rightarrow> 'a interrupts_scheme" where
  "idt_init isr_stub irq_stub idt_addr s =
     (let s = s\<lparr>idt := replicate IDT_ENTRIES empty_gate\<rparr>;
          s = pic_init s;
          s = set_gates (map (\<lambda>i. (of_nat i, isr_stub i)) [0..<32]) s;
          s = set_gates (map (\<lambda>i. (of_nat (32 + i), irq_stub i)) [0..<16]) s;
          s = s\<lparr>idtr_limit := of_nat (16 * IDT_ENTRIES - 1)\<rparr>;
          s = s\<lparr>idtr_base := idt_addr\<rparr>
      in s\<lparr>idt_register := Some (idtr_limit s, idtr_base s)\<rparr>)"

section \<open>CPU exceptions\<close>

definition exception_messages :: "cstring list" where
  "exception_messages =
     [str ''Division By Zero'', str ''Debug'', str ''Non Maskable Interrupt'', str ''Breakpoint'', str ''Overflow'',
      str ''Bound Range Exceeded'', str ''Invalid Opcode'', str ''Device Not Available'', str ''Double Fault'',
      str ''Coprocessor Segment Overrun'', str ''Invalid TSS'', str ''Segment Not Present'',
      str ''Stack-Segment Fault'', str ''General Protection Fault'', str ''Page Fault'', str ''Reserved'',
      str ''x87 Floating-Point'', str ''Alignment Check'', str ''Machine Check'', str ''SIMD Floating-Point'',
      str ''Virtualization'', str ''Control Protection'', str ''Reserved'', str ''Reserved'', str ''Reserved'',
      str ''Reserved'', str ''Reserved'', str ''Reserved'', str ''Reserved'', str ''VMM Communication'',
      str ''Security Exception'', str ''Reserved'']"

definition put_register :: "cstring \<Rightarrow> u64 \<Rightarrow> 'a vga_scheme \<Rightarrow> 'a vga_scheme" where
  "put_register label v s = vga_putchar 10 (vga_put_hex v (vga_puts label s))"

definition page_fault_report :: "u64 \<Rightarrow> u64 \<Rightarrow> 'a vga_scheme \<Rightarrow> 'a vga_scheme" where
  "page_fault_report cr2 err s =
     (let s = put_register (str ''CR2: '') cr2 s;
          s = vga_puts (if err AND 1 \<noteq> 0 then str ''  Page-level protection violation\<newline>'' else str ''  Page not present\<newline>'') s;
          s = vga_puts (if err AND 2 \<noteq> 0 then str ''  Write access\<newline>'' else str ''  Read access\<newline>'') s
      in vga_puts (if err AND 4 \<noteq> 0 then str ''  User mode\<newline>'' else str ''  Supervisor mode\<newline>'') s)"

text \<open>The report up to the halt loop, with \<open>cr2\<close> the faulting address that the CPU gives.\<close>

definition isr_report :: "device \<Rightarrow> nat \<Rightarrow> u64 \<Rightarrow> interrupt_frame \<Rightarrow> 'a vga_scheme \<Rightarrow> 'a vga_scheme res" where
  "isr_report dev n cr2 frame s =
     (let message = exception_messages ! unat (int_no frame);
          s = vga_set_color VGA_COLOR_WHITE VGA_COLOR_RED s;
          s = vga_clear s;
          s = vga_puts (str ''=== CPU EXCEPTION ===\<newline>\<newline>'') s;
          s = vga_puts (str ''Exception: '') s;
          s = vga_puts message s;
          s = vga_putchar 10 s;
          s = vga_puts (str ''INT: '') s;
          s = vga_puts (itoa (ucast (int_no frame)) 10) s;
          s = vga_putchar 10 s;
          s = put_register (str ''ERR: '') (err_code frame) s;
          s = put_register (str ''RIP: '') (f_rip frame) s;
          s = put_register (str ''CS:  '') (f_cs frame) s;
          s = put_register (str ''FLG: '') (f_rflags frame) s;
          s = put_register (str ''RSP: '') (f_rsp frame) s;
          s = put_register (str ''RAX: '') (f_rax frame) s;
          s = put_register (str ''RBX: '') (f_rbx frame) s;
          s = put_register (str ''RCX: '') (f_rcx frame) s;
          s = put_register (str ''RDX: '') (f_rdx frame) s;
          s = (if int_no frame = 14 then page_fault_report cr2 (err_code frame) s else s)
      in
      rbind (serial_puts dev n SERIAL_COM1 (str ''\<newline>!!! EXCEPTION '') s) (\<lambda>s.
      rbind (serial_puts dev n SERIAL_COM1 message s) (\<lambda>s.
      rbind (serial_puts dev n SERIAL_COM1 (str '' at RIP='') s) (\<lambda>s.
      rbind (serial_put_hex dev n SERIAL_COM1 (f_rip frame) s) (\<lambda>s.
      rbind (serial_puts dev n SERIAL_COM1 (str ''\<newline>'') s) (\<lambda>s.
      Inr (vga_puts (str ''\<newline>System halted.\<newline>'') s)))))))"

definition isr_handler_c :: "device \<Rightarrow> nat \<Rightarrow> u64 \<Rightarrow> interrupt_frame \<Rightarrow> 'a vga_scheme \<Rightarrow> 'a vga_scheme res" where
  "isr_handler_c dev n cr2 frame s =
     (if int_no frame < 32 then rbind (isr_report dev n cr2 frame s) (\<lambda>_. Inl Halted) else Inr s)"

section \<open>Hardware interrupts\<close>

definition irq_handler_c :: "device \<Rightarrow> interrupt_frame \<Rightarrow> 'a kbd_scheme \<Rightarrow> 'a kbd_scheme" where
  "irq_handler_c dev frame s =
     (let irq = int_no frame - ucast IRQ_BASE in
      if irq = 0 then pic_send_eoi (ucast irq) (timer_handler_c s)
      else if irq = 1 then pic_send_eoi (ucast irq) (keyboard_handler_c dev s)
      else if irq = 7 then
        let s = outb PIC1_COMMAND 0x0B s; (v, s) = inb dev PIC1_COMMAND s
        in if v AND 0x80 = 0 then s else pic_send_eoi (ucast irq) s
      else if irq = 15 then
        let s = outb PIC2_COMMAND 0x0B s; (v, s) = inb dev PIC2_COMMAND s
        in if v AND 0x80 = 0 then outb PIC1_COMMAND PIC_EOI s else pic_send_eoi (ucast irq) s
      else pic_send_eoi (ucast irq) s)"

end
