(* ===== verification/Gates.thy ===== *)
theory Gates
  imports Interrupts
begin

text \<open>
  What the tables and controllers of \<open>kernel/interrupts\<close> amount to.  The two 8259
  controllers are hardware: \<open>pic\<close> is the documented part of the chip that the code relies on
  (initialisation words, mask, in-service register, end of interrupt), run over the port accesses
  of the model.  On it, \<open>idt_init\<close> routes every line to its stub, and the handlers acknowledge
  every interrupt.
\<close>

unbundle bit_operations_syntax

section \<open>The controllers\<close>

record pic =
  p_base :: u8
  p_expects :: nat
  p_mask :: u8
  p_in_service :: u8
  p_read_isr :: bool

definition pic_command :: "u8 \<Rightarrow> pic \<Rightarrow> pic" where
  "pic_command v p =
     (if v AND 0x10 \<noteq> 0 then p\<lparr>p_expects := 2, p_mask := 0, p_in_service := 0, p_read_isr := False\<rparr>
      else if v AND 0x08 \<noteq> 0 then (if v AND 2 \<noteq> 0 then p\<lparr>p_read_isr := (v AND 1 \<noteq> 0)\<rparr> else p)
      else if v AND 0xE0 = 0x20 then p\<lparr>p_in_service := p_in_service p AND (p_in_service p - 1)\<rparr>
      else p)"

definition pic_data :: "u8 \<Rightarrow> pic \<Rightarrow> pic" where
  "pic_data v p =
     (if p_expects p = 2 then p\<lparr>p_base := v AND 0xF8, p_expects := 3\<rparr>
      else if p_expects p = 3 then p\<lparr>p_expects := 4\<rparr>
      else if p_expects p = 4 then p\<lparr>p_expects := 0\<rparr>
      else p\<lparr>p_mask := v\<rparr>)"

fun pic_event :: "io \<Rightarrow> pic \<times> pic \<Rightarrow> pic \<times> pic" where
  "pic_event (In p) (m, sl) = (m, sl)"
| "pic_event (Out p v) (m, sl) =
     (if p = PIC1_COMMAND then (pic_command (ucast v) m, sl)
      else if p = PIC1_DATA then (pic_data (ucast v) m, sl)
      else if p = PIC2_COMMAND then (m, pic_command (ucast v) sl)
      else if p = PIC2_DATA then (m, pic_data (ucast v) sl)
      else (m, sl))"

text \<open>The history of port accesses has the newest first.\<close>

primrec pics_after :: "io list \<Rightarrow> pic \<times> pic \<Rightarrow> pic \<times> pic" where
  "pics_after [] ps = ps"
| "pics_after (e # es) ps = pic_event e (pics_after es ps)"

text \<open>What reading the command ports gives from a history \<open>h\<close> on, where the controllers stood at \<open>ps\<close>.\<close>

definition pics_answer :: "device \<Rightarrow> io list \<Rightarrow> pic \<times> pic \<Rightarrow> bool" where
  "pics_answer dev h ps \<longleftrightarrow> (\<forall>es.
     (p_read_isr (fst (pics_after es ps)) \<longrightarrow>
       (ucast (dev (es @ h) PIC1_COMMAND) :: u8) = p_in_service (fst (pics_after es ps))) \<and>
     (p_read_isr (snd (pics_after es ps)) \<longrightarrow>
       (ucast (dev (es @ h) PIC2_COMMAND) :: u8) = p_in_service (snd (pics_after es ps))))"

text \<open>
  The in-service registers when line \<open>k\<close> has interrupted: its bit, and for the second
  controller the bit of the cascade as well.  An interrupt that vanished before it was taken
  comes as the last line of its controller, without that line's bit.
\<close>

definition raised :: "nat \<Rightarrow> (pic \<times> pic) \<Rightarrow> bool" where
  "raised k ps \<longleftrightarrow> (p_in_service (fst ps), p_in_service (snd ps)) \<in>
     (if k < 8 then {(2 ^ k, 0)} else {(4, 2 ^ (k - 8))}) \<union>
     (if k = 7 then {(0, 0)} else {}) \<union> (if k = 15 then {(4, 0)} else {})"

lemma pic_ports: "PIC1_COMMAND \<noteq> PIC1_DATA" "PIC1_COMMAND \<noteq> PIC2_COMMAND" "PIC1_COMMAND \<noteq> PIC2_DATA"
  "PIC1_DATA \<noteq> PIC2_COMMAND" "PIC1_DATA \<noteq> PIC2_DATA" "PIC2_COMMAND \<noteq> PIC2_DATA"
  "PIC1_DATA \<noteq> PIC1_COMMAND" "PIC2_COMMAND \<noteq> PIC1_COMMAND" "PIC2_DATA \<noteq> PIC1_COMMAND"
  "PIC2_COMMAND \<noteq> PIC1_DATA" "PIC2_DATA \<noteq> PIC1_DATA" "PIC2_DATA \<noteq> PIC2_COMMAND"
  by (simp_all add: PIC1_COMMAND_def PIC1_DATA_def PIC2_COMMAND_def PIC2_DATA_def)

section \<open>The descriptor table\<close>

definition gate_target :: "idt_entry \<Rightarrow> u64" where
  "gate_target g = ucast (offset_low g) OR push_bit 16 (ucast (offset_mid g)) OR push_bit 32 (ucast (offset_high g))"

text \<open>A present interrupt gate in the kernel's code segment, without a stack of its own.\<close>

definition gate_to :: "u64 \<Rightarrow> idt_entry \<Rightarrow> bool" where
  "gate_to a g \<longleftrightarrow> gate_target g = a \<and> selector g = 8 \<and> gate_flags g = 0x8E \<and> ist g = 0 \<and> reserved g = 0"

definition code_gate :: "u64 \<Rightarrow> idt_entry" where
  "code_gate handler = \<lparr>offset_low = ucast (handler AND 0xFFFF), selector = 0x08, ist = 0, gate_flags = 0x8E,
     offset_mid = ucast (drop_bit 16 handler AND 0xFFFF), offset_high = ucast (drop_bit 32 handler AND 0xFFFFFFFF),
     reserved = 0\<rparr>"

lemma code_gate_to: "gate_to a (code_gate a)"
proof -
  have m: "(0xFFFF :: u64) = mask 16" "(0xFFFFFFFF :: u64) = mask 32" by (simp_all add: mask_eq_exp_minus_1)
  have "gate_target (code_gate a) = a"
  proof (rule bit_word_eqI)
    fix n
    assume "n < LENGTH(64)"
    then consider "n < 16" | "16 \<le> n" "n < 32" | "32 \<le> n" "n < 64" by fastforce
    then show "bit (gate_target (code_gate a)) n = bit a n"
      by cases (auto simp: gate_target_def code_gate_def m bit_simps simp flip: take_bit_eq_mask)
  qed
  then show ?thesis by (simp add: gate_to_def code_gate_def)
qed

lemma idt_set_gate_code:
  "idt_set_gate v handler 0x08 IDT_FLAGS_INTERRUPT 0 s = s\<lparr>idt := (idt s)[unat v := code_gate handler]\<rparr>"
proof -
  have f: "IDT_FLAGS_INTERRUPT = 0x8E"
    by (simp add: IDT_FLAGS_INTERRUPT_def IDT_PRESENT_def IDT_DPL0_def IDT_INTERRUPT_def)
  show ?thesis by (cases "idt s ! unat v") (simp add: idt_set_gate_def code_gate_def f)
qed

lemma set_gates_append: "set_gates (gs @ hs) s = set_gates hs (set_gates gs s)"
  by (induction gs s rule: set_gates.induct) simp_all

lemma set_gates_range:
  assumes "b + n \<le> 256" "length (idt s) = 256"
  shows "set_gates (map (\<lambda>i. (of_nat (b + i), f i)) [0..<n]) s =
    s\<lparr>idt := map (\<lambda>j. if b \<le> j \<and> j < b + n then code_gate (f (j - b)) else idt s ! j) [0..<256]\<rparr>"
  using assms(1)
proof (induction n)
  case 0
  have "map (\<lambda>j. idt s ! j) [0..<256] = idt s" using map_nth [of "idt s"] assms(2) by simp
  moreover have "(\<lambda>j. if b \<le> j \<and> j < b then code_gate (f (j - b)) else idt s ! j) = (!) (idt s)" by (auto simp: fun_eq_iff)
  ultimately show ?case by simp
next
  case (Suc n)
  have u: "unat (of_nat (b + n) :: u8) = b + n" using Suc.prems by (simp add: unat_of_nat del: of_nat_add)
  show ?case
    using Suc by (simp add: set_gates_append idt_set_gate_code u del: of_nat_add)
      (rule arg_cong [where f = "\<lambda>l. s\<lparr>idt := l\<rparr>"], rule nth_equalityI, auto simp: nth_list_update)
qed


lemma pic_init_ports:
  "\<exists>es. pic_init s = s\<lparr>ports := es @ ports s\<rparr> \<and>
     pics_after es ps =
       (\<lparr>p_base = 0x20, p_expects = 0, p_mask = 0xFC, p_in_service = 0, p_read_isr = False\<rparr>,
        \<lparr>p_base = 0x28, p_expects = 0, p_mask = 0xFF, p_in_service = 0, p_read_isr = False\<rparr>)"
proof -
  let ?w = "Out 0x80 0"
  let ?es = "[Out PIC2_DATA 0xFF, Out PIC1_DATA 0xFC, ?w, Out PIC2_DATA 1, ?w, Out PIC1_DATA 1, ?w, Out PIC2_DATA 2,
    ?w, Out PIC1_DATA 4, ?w, Out PIC2_DATA 0x28, ?w, Out PIC1_DATA 0x20, ?w, Out PIC2_COMMAND 0x11, ?w, Out PIC1_COMMAND 0x11]"
  have "pic_init s = s\<lparr>ports := ?es @ ports s\<rparr>"
    by (simp add: pic_init_def io_wait_def outb_def Let_def ICW1_INIT_def ICW1_ICW4_def IRQ_BASE_def ICW4_8086_def)
  moreover obtain m sl where "ps = (m, sl)" by (cases ps)
  ultimately show ?thesis
    by (intro exI [of _ ?es]) (cases m, cases sl, simp add: pic_command_def pic_data_def
        PIC1_COMMAND_def PIC1_DATA_def PIC2_COMMAND_def PIC2_DATA_def)
qed

definition line_vector :: "pic \<times> pic \<Rightarrow> nat \<Rightarrow> nat" where
  "line_vector ps k = (if k < 8 then unat (p_base (fst ps)) + k else unat (p_base (snd ps)) + (k - 8))"

lemma idt_init_eq:
  "\<exists>es. idt_init isr_stub irq_stub a s = s\<lparr>ports := es @ ports s,
     idt := map (\<lambda>j. if j < 32 then code_gate (isr_stub j) else if j < 48 then code_gate (irq_stub (j - 32)) else empty_gate) [0..<256],
     idtr_limit := 4095, idtr_base := a, idt_register := Some (4095, a)\<rparr> \<and>
     pics_after es ps =
       (\<lparr>p_base = 0x20, p_expects = 0, p_mask = 0xFC, p_in_service = 0, p_read_isr = False\<rparr>,
        \<lparr>p_base = 0x28, p_expects = 0, p_mask = 0xFF, p_in_service = 0, p_read_isr = False\<rparr>)"
proof -
  let ?s = "s\<lparr>idt := replicate IDT_ENTRIES empty_gate\<rparr>"
  obtain es where es: "pic_init ?s = ?s\<lparr>ports := es @ ports s\<rparr>"
    "pics_after es ps = (\<lparr>p_base = 0x20, p_expects = 0, p_mask = 0xFC, p_in_service = 0, p_read_isr = False\<rparr>,
        \<lparr>p_base = 0x28, p_expects = 0, p_mask = 0xFF, p_in_service = 0, p_read_isr = False\<rparr>)"
    using pic_init_ports [of ?s ps] by auto
  let ?t = "?s\<lparr>ports := es @ ports s\<rparr>"
  let ?g = "map (\<lambda>j. if j < 32 then code_gate (isr_stub j) else empty_gate) [0..<256]"
  have "set_gates (map (\<lambda>i. (of_nat (0 + i), isr_stub i)) [0..<32]) ?t = ?t\<lparr>idt := ?g\<rparr>"
    by (subst set_gates_range) (simp_all add: IDT_ENTRIES_def cong: map_cong)
  moreover have "set_gates (map (\<lambda>i. (of_nat (32 + i), irq_stub i)) [0..<16]) (?t\<lparr>idt := ?g\<rparr>) = ?t\<lparr>idt :=
      map (\<lambda>j. if j < 32 then code_gate (isr_stub j) else if j < 48 then code_gate (irq_stub (j - 32)) else empty_gate) [0..<256]\<rparr>"
    by (subst set_gates_range) (auto cong: map_cong)
  ultimately show ?thesis using es by (intro exI [of _ es]) (simp add: idt_init_def IDT_ENTRIES_def Let_def)
qed

section \<open>Acknowledging\<close>

lemma kbd_put_else: "ports (kbd_buffer_put c s) = ports s" "vmem (kbd_buffer_put c s) = vmem s"
  "kernel_ticks (kbd_buffer_put c s) = kernel_ticks s"
  by (simp_all add: kbd_buffer_put_def Let_def)

lemma keyboard_else:
  "ports (keyboard_handler_c dev s) = In 0x60 # ports s" "vmem (keyboard_handler_c dev s) = vmem s"
  "kernel_ticks (keyboard_handler_c dev s) = kernel_ticks s"
  by (simp_all add: keyboard_handler_c_def key_pressed_def key_released_def inb_def Let_def kbd_put_else)

lemma lowest_bits: "\<forall>k \<in> {0..<8 :: nat}. (2 :: u8) ^ k AND (2 ^ k - 1) = 0"
  by (simp add: atLeastLessThan_nat_numeral)

lemma lowest_bit: "k < 8 \<Longrightarrow> (2 :: u8) ^ k AND (2 ^ k - 1) = 0"
  using bspec [OF lowest_bits, of k] by simp

text \<open>The end of interrupt that each controller gets on each line.\<close>

lemma eoi_run:
  "p_in_service (pic_command PIC_EOI p) = p_in_service p AND (p_in_service p - 1)"
  "p_mask (pic_command PIC_EOI p) = p_mask p" "p_base (pic_command PIC_EOI p) = p_base p"
  "p_expects (pic_command PIC_EOI p) = p_expects p"
  by (simp_all add: pic_command_def PIC_EOI_def)

lemma read_isr_run:
  "p_in_service (pic_command 0x0B p) = p_in_service p" "p_read_isr (pic_command 0x0B p)"
  "p_mask (pic_command 0x0B p) = p_mask p" "p_base (pic_command 0x0B p) = p_base p"
  "p_expects (pic_command 0x0B p) = p_expects p"
  by (simp_all add: pic_command_def)

definition same_setup :: "pic \<times> pic \<Rightarrow> pic \<times> pic \<Rightarrow> bool" where
  "same_setup ps qs \<longleftrightarrow>
     (p_base (fst qs), p_expects (fst qs), p_mask (fst qs)) = (p_base (fst ps), p_expects (fst ps), p_mask (fst ps)) \<and>
     (p_base (snd qs), p_expects (snd qs), p_mask (snd qs)) = (p_base (snd ps), p_expects (snd ps), p_mask (snd ps))"

definition settled :: "pic \<times> pic \<Rightarrow> pic \<times> pic \<Rightarrow> bool" where
  "settled ps qs \<longleftrightarrow> p_in_service (fst qs) = 0 \<and> p_in_service (snd qs) = 0 \<and> same_setup ps qs"

lemma settled_after: "same_setup ps qs \<Longrightarrow> settled qs zs \<Longrightarrow> settled ps zs"
  by (simp add: settled_def same_setup_def)

lemma pic_send_eoi_settles:
  assumes "k < 16" "(p_in_service (fst ps), p_in_service (snd ps)) = (if k < 8 then (2 ^ k, 0) else (4, 2 ^ (k - 8)))"
  shows "\<exists>es. pic_send_eoi (of_nat k) s = s\<lparr>ports := es @ ports s\<rparr> \<and> settled ps (pics_after es ps)"
proof -
  obtain m sl where ps: "ps = (m, sl)" by (cases ps)
  have k: "(8 \<le> (of_nat k :: u8)) = (8 \<le> k)" using assms(1) by (simp add: word_le_nat_alt unat_of_nat)
  have four: "(4 :: u8) AND 3 = 0" by simp
  show ?thesis
  proof (cases "k < 8")
    case True
    then show ?thesis using assms(2) k lowest_bit [OF True] ps
      by (intro exI [of _ "[Out PIC1_COMMAND 0x20]"])
        (simp add: pic_send_eoi_def outb_def PIC_EOI_def settled_def same_setup_def eoi_run [unfolded PIC_EOI_def])
  next
    case False
    then have "k - 8 < 8" using assms(1) by simp
    from lowest_bit [OF this] False show ?thesis using assms(2) k ps
      by (intro exI [of _ "[Out PIC1_COMMAND 0x20, Out PIC2_COMMAND 0x20]"])
        (simp add: pic_send_eoi_def outb_def PIC_EOI_def settled_def same_setup_def eoi_run [unfolded PIC_EOI_def] pic_ports)
  qed
qed

lemma pics_after_append: "pics_after (es @ fs) ps = pics_after es (pics_after fs ps)"
  by (induction es) simp_all

lemma irq_of_line:
  "int_no frame = 0x20 + of_nat k \<Longrightarrow> int_no frame - ucast IRQ_BASE = of_nat k"
  by (simp add: IRQ_BASE_def)

lemma of_nat_line:
  "k < 16 \<Longrightarrow> (of_nat k = (0 :: u64)) = (k = 0)" "k < 16 \<Longrightarrow> (of_nat k = (1 :: u64)) = (k = 1)"
  "k < 16 \<Longrightarrow> (of_nat k = (7 :: u64)) = (k = 7)" "k < 16 \<Longrightarrow> (of_nat k = (15 :: u64)) = (k = 15)"
  by (simp_all add: word_unat_eq_iff unat_of_nat)

lemma ucast_line: "ucast (of_nat k :: u64) = (of_nat k :: u8)"
  by (rule bit_word_eqI) (simp add: bit_simps)

lemma eoi_after:
  assumes "k < 16" "p_in_service (fst (pics_after fs ps)) = p_in_service (fst ps)"
    "p_in_service (snd (pics_after fs ps)) = p_in_service (snd ps)" "same_setup ps (pics_after fs ps)"
    "(p_in_service (fst ps), p_in_service (snd ps)) = (if k < 8 then (2 ^ k, 0) else (4, 2 ^ (k - 8)))"
    "ports t = fs @ h"
  shows "\<exists>es. pic_send_eoi (of_nat k) t = t\<lparr>ports := es @ h\<rparr> \<and> settled ps (pics_after es ps)"
proof -
  obtain es where "pic_send_eoi (of_nat k) t = t\<lparr>ports := es @ ports t\<rparr>"
    "settled (pics_after fs ps) (pics_after es (pics_after fs ps))"
    using pic_send_eoi_settles [OF assms(1), of "pics_after fs ps" t] assms(2,3,5) by auto
  then show ?thesis using assms(4,6) settled_after by (intro exI [of _ "es @ fs"]) (simp add: pics_after_append)
qed

text \<open>Reading the in-service register of a controller before the decision.\<close>

lemma ask_in_service:
  assumes "pics_answer dev h ps" "p = PIC1_COMMAND \<and> q = p_in_service (fst ps) \<or> p = PIC2_COMMAND \<and> q = p_in_service (snd ps)"
  shows "ucast (dev (Out p 0x0B # h) p) = q"
    "p_in_service (fst (pics_after [In p, Out p 0x0B] ps)) = p_in_service (fst ps)"
    "p_in_service (snd (pics_after [In p, Out p 0x0B] ps)) = p_in_service (snd ps)"
    "same_setup ps (pics_after [In p, Out p 0x0B] ps)"
proof -
  obtain m sl where ps: "ps = (m, sl)" by (cases ps)
  have a: "(p_read_isr (fst (pics_after [Out p 0x0B] ps)) \<longrightarrow>
       (ucast (dev (Out p 0x0B # h) PIC1_COMMAND) :: u8) = p_in_service (fst (pics_after [Out p 0x0B] ps))) \<and>
     (p_read_isr (snd (pics_after [Out p 0x0B] ps)) \<longrightarrow>
       (ucast (dev (Out p 0x0B # h) PIC2_COMMAND) :: u8) = p_in_service (snd (pics_after [Out p 0x0B] ps)))"
    using assms(1) unfolding pics_answer_def by (metis append_Cons append_Nil)
  show "ucast (dev (Out p 0x0B # h) p) = q" "p_in_service (fst (pics_after [In p, Out p 0x0B] ps)) = p_in_service (fst ps)"
    "p_in_service (snd (pics_after [In p, Out p 0x0B] ps)) = p_in_service (snd ps)"
    "same_setup ps (pics_after [In p, Out p 0x0B] ps)"
    using a assms(2) by (auto simp: ps same_setup_def read_isr_run pic_ports)
qed

definition acknowledged :: "nat \<Rightarrow> pic \<times> pic \<Rightarrow> 'a kbd_scheme \<Rightarrow> 'a kbd_scheme \<Rightarrow> bool" where
  "acknowledged k ps s t \<longleftrightarrow> (\<exists>es. ports t = es @ ports s \<and> settled ps (pics_after es ps)) \<and>
     kernel_ticks t = kernel_ticks s + (if k = 0 then 1 else 0) \<and> vmem t = vmem s"

lemma acknowledged_eoi:
  assumes "k < 16" "p_in_service (fst (pics_after fs ps)) = p_in_service (fst ps)"
    "p_in_service (snd (pics_after fs ps)) = p_in_service (snd ps)" "same_setup ps (pics_after fs ps)"
    "(p_in_service (fst ps), p_in_service (snd ps)) = (if k < 8 then (2 ^ k, 0) else (4, 2 ^ (k - 8)))"
    "ports t = fs @ ports s" "kernel_ticks t = kernel_ticks s + (if k = 0 then 1 else 0)" "vmem t = vmem s"
  shows "acknowledged k ps s (pic_send_eoi (of_nat k) t)"
proof -
  obtain es where "pic_send_eoi (of_nat k) t = t\<lparr>ports := es @ ports s\<rparr>" "settled ps (pics_after es ps)"
    using eoi_after [OF assms(1-6)] by blast
  then show ?thesis using assms(7,8) by (auto simp: acknowledged_def)
qed

text \<open>The last line of each controller, which may be spurious.\<close>

lemma irq_7_acknowledged:
  assumes f: "int_no frame = 0x20 + of_nat 7" and r: "raised 7 ps" and d: "pics_answer dev (ports s) ps"
  shows "acknowledged 7 ps s (irq_handler_c dev frame s)"
proof -
  note line = irq_of_line [OF f, simplified] and q = ask_in_service [OF d, of PIC1_COMMAND "p_in_service (fst ps)", simplified]
  let ?fs = "[In PIC1_COMMAND, Out PIC1_COMMAND 0x0B]"
  let ?t = "s\<lparr>ports := ?fs @ ports s\<rparr>"
  from r consider "p_in_service (fst ps) = 0" "p_in_service (snd ps) = 0"
    | "p_in_service (fst ps) = 2 ^ 7" "p_in_service (snd ps) = 0" by (auto simp: raised_def)
  then show ?thesis
  proof cases
    case 1
    then have "irq_handler_c dev frame s = ?t" "settled ps (pics_after ?fs ps)"
      using q by (simp_all add: irq_handler_c_def line outb_def inb_def Let_def settled_def)
    then show ?thesis by (auto simp: acknowledged_def)
  next
    case 2
    then have "irq_handler_c dev frame s = pic_send_eoi 7 ?t"
      using q by (simp add: irq_handler_c_def line outb_def inb_def Let_def)
    moreover have "acknowledged 7 ps s (pic_send_eoi (of_nat 7) ?t)"
      by (rule acknowledged_eoi [where fs = ?fs]) (use 2 q in auto)
    ultimately show ?thesis by simp
  qed
qed

lemma irq_15_acknowledged:
  assumes f: "int_no frame = 0x20 + of_nat 15" and r: "raised 15 ps" and d: "pics_answer dev (ports s) ps"
  shows "acknowledged 15 ps s (irq_handler_c dev frame s)"
proof -
  note line = irq_of_line [OF f, simplified] and q = ask_in_service [OF d, of PIC2_COMMAND "p_in_service (snd ps)", simplified]
  let ?fs = "[In PIC2_COMMAND, Out PIC2_COMMAND 0x0B]"
  let ?t = "s\<lparr>ports := ?fs @ ports s\<rparr>"
  from r consider "p_in_service (fst ps) = 4" "p_in_service (snd ps) = 0"
    | "p_in_service (fst ps) = 4" "p_in_service (snd ps) = 2 ^ 7" by (auto simp: raised_def)
  then show ?thesis
  proof cases
    case 1
    then have "irq_handler_c dev frame s = s\<lparr>ports := Out PIC1_COMMAND 0x20 # ?fs @ ports s\<rparr>"
      using q by (simp add: irq_handler_c_def line outb_def inb_def Let_def PIC_EOI_def)
    moreover have "settled ps (pics_after (Out PIC1_COMMAND 0x20 # ?fs) ps)"
      using 1 q by (cases "pics_after ?fs ps")
        (auto simp: settled_def same_setup_def eoi_run [unfolded PIC_EOI_def])
    ultimately show ?thesis by (force simp: acknowledged_def)
  next
    case 2
    then have "irq_handler_c dev frame s = pic_send_eoi 15 ?t"
      using q by (simp add: irq_handler_c_def line outb_def inb_def Let_def)
    moreover have "acknowledged 15 ps s (pic_send_eoi (of_nat 15) ?t)"
      by (rule acknowledged_eoi [where fs = ?fs]) (use 2 q in auto)
    ultimately show ?thesis by simp
  qed
qed

lemma irq_line_acknowledged:
  assumes k: "k < 16" and f: "int_no frame = 0x20 + of_nat k" and r: "raised k ps" and d: "pics_answer dev (ports s) ps"
  shows "acknowledged k ps s (irq_handler_c dev frame s)"
proof -
  obtain m sl where ps: "ps = (m, sl)" by (cases ps)
  note line = irq_of_line [OF f] of_nat_line [OF k] ucast_line
  have eoi: "acknowledged k ps s (pic_send_eoi (of_nat k) t)"
    if "k \<noteq> 7" "k \<noteq> 15" "ports t = ports s \<or> ports t = In p # ports s"
      "kernel_ticks t = kernel_ticks s + (if k = 0 then 1 else 0)" "vmem t = vmem s" for t p
    by (rule acknowledged_eoi [where fs = "if ports t = ports s then [] else [In p]"])
      (use that r k in \<open>auto simp: raised_def same_setup_def ps\<close>)
  consider "k = 7" | "k = 15" | "k \<noteq> 7" "k \<noteq> 15" by blast
  then show ?thesis
  proof cases
    case 3
    let ?t = "if k = 0 then timer_handler_c s else if k = 1 then keyboard_handler_c dev s else s"
    have "irq_handler_c dev frame s = pic_send_eoi (of_nat k) ?t" using 3 by (simp add: irq_handler_c_def line)
    moreover have "acknowledged k ps s (pic_send_eoi (of_nat k) ?t)"
      by (rule eoi [where p = "0x60"]) (use 3 in \<open>simp_all add: timer_handler_c_def keyboard_else\<close>)
    ultimately show ?thesis by simp
  qed (use irq_7_acknowledged [of frame ps dev s] irq_15_acknowledged [of frame ps dev s] f r d in auto)
qed

section \<open>Properties\<close>

text \<open>C28. After \<open>idt_init\<close>, whatever state the firmware left the controllers in, the interrupt of
  each of the 16 lines is delivered at the vector whose gate leads to the stub of that line, each
  of the 32 exceptions enters its own stub, every other vector is not present, and the lines of
  the timer and the keyboard are the only ones not masked.\<close>

theorem idt_init_routes:
  "\<exists>es. ports (idt_init isr_stub irq_stub a s) = es @ ports s \<and>
    (p_mask (fst (pics_after es ps)), p_mask (snd (pics_after es ps))) = (NOT (2 ^ 0 OR 2 ^ 1), NOT 0) \<and>
    (\<forall>k < 16. line_vector (pics_after es ps) k = unat IRQ_BASE + k \<and>
       gate_to (irq_stub k) (idt (idt_init isr_stub irq_stub a s) ! line_vector (pics_after es ps) k)) \<and>
    (\<forall>v < 32. gate_to (isr_stub v) (idt (idt_init isr_stub irq_stub a s) ! v)) \<and>
    (\<forall>v. 48 \<le> v \<and> v < 256 \<longrightarrow> gate_flags (idt (idt_init isr_stub irq_stub a s) ! v) AND IDT_PRESENT = 0) \<and>
    idt_register (idt_init isr_stub irq_stub a s) = Some (16 * 256 - 1, a)"
proof -
  obtain es where es: "idt_init isr_stub irq_stub a s = s\<lparr>ports := es @ ports s,
     idt := map (\<lambda>j. if j < 32 then code_gate (isr_stub j) else if j < 48 then code_gate (irq_stub (j - 32)) else empty_gate) [0..<256],
     idtr_limit := 4095, idtr_base := a, idt_register := Some (4095, a)\<rparr>"
    "pics_after es ps = (\<lparr>p_base = 0x20, p_expects = 0, p_mask = 0xFC, p_in_service = 0, p_read_isr = False\<rparr>,
        \<lparr>p_base = 0x28, p_expects = 0, p_mask = 0xFF, p_in_service = 0, p_read_isr = False\<rparr>)"
    using idt_init_eq by blast
  show ?thesis
    by (intro exI [of _ es]) (auto simp: es line_vector_def code_gate_to empty_gate_def IRQ_BASE_def)
qed

theorem idt_init_routes_witness:
  "\<forall>s :: interrupts. gate_to 0xFFFFFFFF80101210
     (idt (idt_init (\<lambda>i. 0xFFFFFFFF80101000 + 16 * of_nat i) (\<lambda>i. 0xFFFFFFFF80101200 + 16 * of_nat i) 0x5000 s) ! 33)"
proof
  fix s :: interrupts
  let ?ps = "(\<lparr>p_base = 8, p_expects = 0, p_mask = 0, p_in_service = 0, p_read_isr = False\<rparr>,
    \<lparr>p_base = 0x70, p_expects = 0, p_mask = 0, p_in_service = 0, p_read_isr = False\<rparr>)"
  show "gate_to 0xFFFFFFFF80101210 (idt (idt_init (\<lambda>i. 0xFFFFFFFF80101000 + 16 * of_nat i)
      (\<lambda>i. 0xFFFFFFFF80101200 + 16 * of_nat i) 0x5000 s) ! 33)"
    using idt_init_routes [of "\<lambda>i. 0xFFFFFFFF80101000 + 16 * of_nat i" "\<lambda>i. 0xFFFFFFFF80101200 + 16 * of_nat i" "0x5000" s ?ps]
    by (auto simp: IRQ_BASE_def dest!: spec [of _ 1])
qed

text \<open>C19. Whatever line interrupts, also spuriously, the handler leaves both controllers with nothing in
  service and their set-up as it was, so that the next interrupt of any priority is delivered; it
  counts a tick exactly for the timer and writes no memory.\<close>

theorem irq_acknowledged:
  assumes "k < 16" "int_no frame = 0x20 + of_nat k" "raised k ps" "pics_answer dev (ports s) ps"
  shows "(\<exists>es. ports (irq_handler_c dev frame s) = es @ ports s \<and> settled ps (pics_after es ps)) \<and>
    kernel_ticks (irq_handler_c dev frame s) = kernel_ticks s + (if k = 0 then 1 else 0) \<and>
    vmem (irq_handler_c dev frame s) = vmem s"
  using irq_line_acknowledged [OF assms] by (simp add: acknowledged_def)

theorem irq_acknowledged_witness:
  "\<exists>dev ps es. p_in_service (fst ps) = 4 \<and> p_in_service (snd ps) = 0 \<and>
     ports (irq_handler_c dev (\<lparr>f_rdx = 0, f_rcx = 0, f_rbx = 0, f_rax = 0, int_no = 0x2F, err_code = 0,
       f_rip = 0, f_cs = 8, f_rflags = 2, f_rsp = 0\<rparr>) kbd_boot) = es \<and> p_in_service (fst (pics_after es ps)) = 0"
proof -
  let ?p = "\<lparr>p_base = 0x20, p_expects = 0, p_mask = 0, p_in_service = 4, p_read_isr = False\<rparr>"
  let ?ps = "(?p, ?p\<lparr>p_base := 0x28, p_in_service := 0\<rparr>)"
  let ?dev = "\<lambda>es p. ucast (if p = PIC1_COMMAND then p_in_service (fst (pics_after es ?ps)) else p_in_service (snd (pics_after es ?ps)))"
  let ?f = "\<lparr>f_rdx = 0, f_rcx = 0, f_rbx = 0, f_rax = 0, int_no = 0x2F, err_code = 0,
       f_rip = 0, f_cs = 8, f_rflags = 2, f_rsp = 0\<rparr>"
  have h: "ports kbd_boot = []" by (simp add: kbd_boot_def timer.defs timer_boot_def vga.defs vga_boot_def)
  have r: "raised 15 ?ps" by (simp add: raised_def)
  have d: "pics_answer ?dev (ports kbd_boot) ?ps" by (simp add: pics_answer_def h pic_ports ucast_up_ucast_id is_up)
  from irq_acknowledged [OF _ _ r d, of ?f] h show ?thesis
    by (intro exI [of _ ?dev] exI [of _ ?ps]) (auto simp: settled_def)
qed

end
