(* ===== verification/Kernel.thy ===== *)
theory Kernel
  imports Interrupts
begin
text \<open>
  What remains of the kernel: the panic screen, the PCI scan, the identification of the network
  card, the SIMD set-up, the background task and the order of the boot steps in
  \<open>kernel_main\<close> (\<open>kernel/core/kernel.c\<close>, \<open>kernel/core/avx.c\<close>,
  \<open>kernel/drivers/pci/pci.c\<close>, \<open>kernel/drivers/net/e1000.c\<close>).
\<close>

record kernel = interrupts +
  e1000_bar0 :: u32
  e1000_irq :: u8
  mmio_base :: u64
  mac_address :: "u8 list"
  cr0 :: u64
  cr4 :: u64
  interrupts_enabled :: bool

definition cli :: "'a kernel_scheme \<Rightarrow> 'a kernel_scheme" where "cli s = s\<lparr>interrupts_enabled := False\<rparr>"
definition sti :: "'a kernel_scheme \<Rightarrow> 'a kernel_scheme" where "sti s = s\<lparr>interrupts_enabled := True\<rparr>"

section \<open>Panic\<close>

text \<open>
  The state in which the halt loop of \<open>kernel_panic\<close> leaves the machine.  The functions that
  panic are modelled up to the call: they give \<open>Inl (Panic msg)\<close>.
\<close>

definition kernel_panic :: "device \<Rightarrow> nat \<Rightarrow> cstring \<Rightarrow> 'a kernel_scheme \<Rightarrow> 'a kernel_scheme res" where
  "kernel_panic dev n msg s =
     (let s = cli s;
          s = vga_set_color VGA_COLOR_WHITE VGA_COLOR_RED s;
          s = vga_clear s;
          s = vga_puts (str ''=== KERNEL PANIC ===\<newline>'') s;
          s = vga_puts msg s;
          s = vga_puts (str ''\<newline>System halted.'') s
      in
      rbind (serial_puts dev n SERIAL_COM1 (str ''\<newline>!!! KERNEL PANIC: '') s) (\<lambda>s.
      rbind (serial_puts dev n SERIAL_COM1 msg s) (\<lambda>s.
      serial_puts dev n SERIAL_COM1 (str ''\<newline>'') s)))"

section \<open>PCI\<close>

definition PCI_CONFIG_ADDRESS :: u16 where "PCI_CONFIG_ADDRESS = 0xCF8"
definition PCI_CONFIG_DATA :: u16 where "PCI_CONFIG_DATA = 0xCFC"

definition pci_address :: "u8 \<Rightarrow> u8 \<Rightarrow> u8 \<Rightarrow> u8 \<Rightarrow> u32" where
  "pci_address bus slot func offset =
     push_bit 16 (ucast bus) OR push_bit 11 (ucast slot) OR push_bit 8 (ucast func) OR
     (ucast offset AND 0xFC) OR 0x80000000"

definition pci_read_dword :: "device \<Rightarrow> u8 \<Rightarrow> u8 \<Rightarrow> u8 \<Rightarrow> u8 \<Rightarrow> 'a machine_scheme \<Rightarrow> u32 \<times> 'a machine_scheme" where
  "pci_read_dword dev bus slot func offset s =
     (let s = outl PCI_CONFIG_ADDRESS (pci_address bus slot func offset) s in inl dev PCI_CONFIG_DATA s)"

definition found_e1000 :: "device \<Rightarrow> u8 \<Rightarrow> 'a kernel_scheme \<Rightarrow> 'a kernel_scheme" where
  "found_e1000 dev slot s =
     (let s = vga_puts (str ''[+] Found Intel E1000 Network Card!\<newline>'') s;
          (bar0, s) = pci_read_dword dev 0 slot 0 0x10 s;
          s = s\<lparr>e1000_bar0 := bar0 AND 0xFFFFFFF0\<rparr>;
          (irq_reg, s) = pci_read_dword dev 0 slot 0 0x3C s;
          s = s\<lparr>e1000_irq := ucast (irq_reg AND 0xFF)\<rparr>;
          s = vga_puts (str ''    -> MMIO Base: 0x'') s;
          s = vga_puts (ultoa (ucast (e1000_bar0 s)) 16) s;
          s = vga_puts (str ''\<newline>    -> IRQ Line:  '') s;
          s = vga_puts (itoa (ucast (e1000_irq s)) 10) s
      in vga_putchar 10 s)"

fun pci_scan :: "device \<Rightarrow> nat list \<Rightarrow> 'a kernel_scheme \<Rightarrow> 'a kernel_scheme" where
  "pci_scan dev [] s = vga_puts (str ''[-] Intel E1000 not found.\<newline>'') s"
| "pci_scan dev (slot # slots) s =
     (let (vendor_device, s) = pci_read_dword dev 0 (of_nat slot) 0 0 s in
      if vendor_device AND 0xFFFF = 0xFFFF then pci_scan dev slots s
      else
        let vendor = (ucast (vendor_device AND 0xFFFF) :: u16); device = (ucast (drop_bit 16 vendor_device) :: u16) in
        if vendor = 0x8086 \<and> device = 0x100E then found_e1000 dev (of_nat slot) s
        else pci_scan dev slots s)"

definition pci_init :: "device \<Rightarrow> nat \<Rightarrow> 'a kernel_scheme \<Rightarrow> 'a kernel_scheme res" where
  "pci_init dev n s =
     rbind (serial_puts dev n SERIAL_COM1 (str ''PCI: Scanning bus...\<newline>'') s) (\<lambda>s.
     Inr (pci_scan dev [0..<32] s))"

definition pci_get_e1000_bar0 :: "'a kernel_scheme \<Rightarrow> u32" where "pci_get_e1000_bar0 s = e1000_bar0 s"
definition pci_get_e1000_irq :: "'a kernel_scheme \<Rightarrow> u8" where "pci_get_e1000_irq s = e1000_irq s"

section \<open>The network card\<close>

definition E1000_VIRT_BASE :: u64 where "E1000_VIRT_BASE = 0xFFFF8000F0000000"
definition PTE_NOCACHE :: u64 where "PTE_NOCACHE = 0x10"
definition REG_RAL :: u16 where "REG_RAL = 0x5400"
definition REG_RAH :: u16 where "REG_RAH = 0x5404"

definition mmio_read32 :: "u16 \<Rightarrow> 'a kernel_scheme \<Rightarrow> u32 res" where
  "mmio_read32 offset s = load32 (mmio_base s + ucast offset) s"

fun print_mac :: "nat list \<Rightarrow> 'a kernel_scheme \<Rightarrow> 'a kernel_scheme" where
  "print_mac [] s = s"
| "print_mac (i # is) s =
     (let b = mac_address s ! i; buf = utoa (ucast b) 16;
          s = (if b < 16 then vga_putchar 48 s else s);
          s = vga_puts buf s;
          s = (if i < 5 then vga_putchar 58 s else s)
      in print_mac is s)"

text \<open>The card's registers appear in memory through \<open>mmu\<close>, once \<open>cr3\<close> is reloaded.\<close>

definition e1000_init :: "(memory \<Rightarrow> memory) \<Rightarrow> 'a kernel_scheme \<Rightarrow> 'a kernel_scheme res" where
  "e1000_init mmu s =
     (let phys_bar0 = pci_get_e1000_bar0 s in
      if phys_bar0 = 0 then Inr s
      else
        rbind (vmm_map_range E1000_VIRT_BASE (ucast phys_bar0) (128 * 1024)
          (PTE_PRESENT OR PTE_WRITABLE OR PTE_NOCACHE) s) (\<lambda>(_, s).
        let s = s\<lparr>vmem := mmu (vmem s)\<rparr>; s = s\<lparr>mmio_base := E1000_VIRT_BASE\<rparr> in
        rbind (mmio_read32 REG_RAL s) (\<lambda>mac_low.
        rbind (mmio_read32 REG_RAH s) (\<lambda>mac_high.
        let s = s\<lparr>mac_address :=
              [ucast (mac_low AND 0xFF), ucast (drop_bit 8 mac_low AND 0xFF), ucast (drop_bit 16 mac_low AND 0xFF),
               ucast (drop_bit 24 mac_low AND 0xFF), ucast (mac_high AND 0xFF), ucast (drop_bit 8 mac_high AND 0xFF)]\<rparr>;
            s = vga_puts (str ''[+] NIC MAC Address: '') s;
            s = print_mac [0..<6] s
        in Inr (vga_putchar 10 s)))))"

definition e1000_get_mac :: "'a kernel_scheme \<Rightarrow> u8 list" where "e1000_get_mac s = mac_address s"

section \<open>SIMD registers\<close>

definition avx_init :: "device \<Rightarrow> nat \<Rightarrow> 'a kernel_scheme \<Rightarrow> 'a kernel_scheme res" where
  "avx_init dev n s =
     (let c = cr0 s; c = c AND NOT (push_bit 2 1); c = c AND NOT (push_bit 3 1); c = c OR push_bit 1 1;
          s = s\<lparr>cr0 := c\<rparr>;
          c = cr4 s; c = c OR (push_bit 9 1 OR push_bit 10 1);
          s = s\<lparr>cr4 := c\<rparr>;
          s = vga_puts (str ''[+] 128-bit XMM Vector Registers Unlocked!\<newline>'') s
      in serial_puts dev n SERIAL_COM1 (str ''SIMD: 128-bit SSE2 hardware enabled.\<newline>'') s)"

section \<open>The boot sequence\<close>

fun usable_memory :: "e820_entry list \<Rightarrow> u64 \<Rightarrow> u64" where
  "usable_memory [] acc = acc"
| "usable_memory (e # es) acc =
     usable_memory es (if e_type e = E820_USABLE then acc + e_length e else acc)"

text \<open>\<open>main_addr\<close> is the address of \<open>kernel_main\<close>.\<close>

definition print_boot_info ::
  "device \<Rightarrow> nat \<Rightarrow> u64 \<Rightarrow> u64 \<Rightarrow> e820_entry list \<Rightarrow> 'a vga_scheme \<Rightarrow> 'a vga_scheme res" where
  "print_boot_info dev n main_addr mem_count mem_map s =
     (let s = vga_puts (str ''Vector Forth Kernel v0.1.0\<newline>'') s;
          s = vga_puts (str ''========================================\<newline>'') s;
          s = vga_puts (str ''kernel_main at: '') s;
          s = vga_put_hex main_addr s;
          s = vga_putchar 10 s;
          s = vga_puts (str ''VGA buffer at:  '') s;
          s = vga_put_hex (KERNEL_VIRT_BASE + 0xB8000) s;
          s = vga_putchar 10 s
      in
      rbind (serial_puts dev n SERIAL_COM1 (str ''Vector Forth Kernel v0.1.0\<newline>'') s) (\<lambda>s.
      rbind (serial_puts dev n SERIAL_COM1 (str ''kernel_main at: '') s) (\<lambda>s.
      rbind (serial_put_hex dev n SERIAL_COM1 main_addr s) (\<lambda>s.
      rbind (serial_puts dev n SERIAL_COM1 (str ''\<newline>'') s) (\<lambda>s.
      let s = vga_puts (str ''Memory map entries: '') s;
          s = vga_puts (itoa (ucast mem_count) 10) s;
          s = vga_putchar 10 s;
          total_usable = usable_memory (take (unat mem_count) mem_map) 0;
          s = vga_puts (str ''Total usable RAM: '') s;
          s = vga_puts (ultoa (total_usable div (1024 * 1024)) 10) s
      in Inr (vga_puts (str '' MB\<newline>'') s))))))"

text \<open>
  One turn of the loop of the background task, before it yields; the spinner's position and
  the time of its last move are the locals that live on the task's stack.
\<close>

definition background_turn :: "nat \<times> u64 \<Rightarrow> 'a kernel_scheme \<Rightarrow> (nat \<times> u64) \<times> 'a kernel_scheme" where
  "background_turn locals s =
     (let (i, last_tick) = locals; spinner = [124, 47, 45, 92] in
      if kernel_ticks s > last_tick + 10
      then (((i + 1) mod 4, kernel_ticks s), vga_put_at 79 0 (spinner ! i) (color_code VGA_COLOR_YELLOW) s)
      else (locals, s))"

text \<open>
  \<open>kernel_main\<close> up to the first prompt.  The record holds what the linker and the hardware
  decide: the platform of the Forth system, the entry stubs, the addresses of functions, and
  what the memory looks like after the two reloads of \<open>cr3\<close>.
\<close>

record boot =
  platform_of :: platform
  isr_stub :: "nat \<Rightarrow> u64"
  irq_stub :: "nat \<Rightarrow> u64"
  idt_addr :: u64
  main_addr :: u64
  worker_addr :: u64
  card_mmu :: "memory \<Rightarrow> memory"
  dict_mmu :: "memory \<Rightarrow> memory"

definition boot_memory :: "boot \<Rightarrow> u64 \<Rightarrow> e820_entry list \<Rightarrow> 'a kernel_scheme \<Rightarrow> 'a kernel_scheme res" where
  "boot_memory B mem_count mem_map s =
     (let dev = devices (platform_of B); n = loop_bound (platform_of B);
          s = vga_init dev s;
          s = serial_init dev SERIAL_COM1 s
      in
      rbind (print_boot_info dev n (main_addr B) mem_count mem_map s) (\<lambda>s.
      let s = vga_puts (str ''[*] Initializing IDT...\<newline>'') s;
          s = idt_init (isr_stub B) (irq_stub B) (idt_addr B) s;
          s = vga_puts (str ''[+] IDT initialized\<newline>'') s;
          s = vga_puts (str ''[*] Initializing PMM...\<newline>'') s
      in
      rbind (pmm_init dev n (take (unat (ucast mem_count :: u32)) mem_map) s) (\<lambda>s.
      let s = vga_puts (str ''[+] PMM initialized\<newline>'') s;
          s = vga_puts (str ''[*] Initializing VMM...\<newline>'') s
      in
      rbind (vmm_init dev n s) (\<lambda>s.
      let s = vga_puts (str ''[+] VMM initialized\<newline>'') s;
          s = vga_puts (str ''[*] Initializing heap...\<newline>'') s
      in
      rbind (heap_init dev n s) (\<lambda>s.
      Inr (vga_puts (str ''[+] Heap initialized\<newline>'') s))))))"

definition boot_devices :: "boot \<Rightarrow> 'a kernel_scheme \<Rightarrow> 'a kernel_scheme res" where
  "boot_devices B s =
     (let dev = devices (platform_of B); n = loop_bound (platform_of B);
          s = vga_puts (str ''[*] Initializing timer (100 Hz)...\<newline>'') s;
          s = timer_init 100 s;
          s = vga_puts (str ''[+] Timer initialized\<newline>'') s;
          s = vga_puts (str ''[*] Initializing keyboard...\<newline>'') s
      in
      rbind (keyboard_init n dev s) (\<lambda>s.
      let s = vga_puts (str ''[+] Keyboard initialized\<newline>'') s;
          s = vga_puts (str ''[*] Initializing Block Filesystem...\<newline>'') s
      in
      rbind (block_init dev n s) (\<lambda>s.
      rbind (fs_init dev n s) (\<lambda>s.
      let s = vga_puts (str ''[*] Initializing PCI Bus...\<newline>'') s in
      rbind (pci_init dev n s) (\<lambda>s.
      let s = vga_puts (str ''[*] Initializing Network Card...\<newline>'') s in
      e1000_init (card_mmu B) s)))))"

definition kernel_main :: "boot \<Rightarrow> u64 \<Rightarrow> e820_entry list \<Rightarrow> 'a kernel_scheme \<Rightarrow> 'a kernel_scheme res" where
  "kernel_main B mem_count mem_map s =
     (let P = platform_of B; dev = devices P; n = loop_bound P in
      rbind (boot_memory B mem_count mem_map s) (\<lambda>s.
      rbind (boot_devices B s) (\<lambda>s.
      let s = vga_puts (str ''[*] Enabling interrupts...\<newline>'') s;
          s = sti s;
          s = vga_puts (str ''[+] Interrupts enabled\<newline>'') s;
          s = vga_puts (str ''[*] Starting Multitasking Scheduler...\<newline>'') s
      in
      rbind (scheduler_init n s) (\<lambda>s.
      rbind (avx_init dev n s) (\<lambda>s.
      let s = vga_puts (str ''\<newline>========================================\<newline>'') s;
          s = vga_puts (str ''Phase 6 Complete - AVX-512 Activated\<newline>'') s
      in
      rbind (task_create n (exit_routine P) (worker_addr B) s) (\<lambda>(_, s).
      let s = vga_puts (str ''[+] Background thread spawned\<newline>'') s;
          s = vga_puts (str ''\<newline>========================================\<newline>'') s;
          s = vga_puts (str ''Phase 3 Complete - Multitasking OS\<newline>'') s;
          s = vga_puts (str ''Entering Phase 2: Forth VM\<newline>'') s;
          s = vga_puts (str ''========================================\<newline>'') s
      in
      rbind (serial_puts dev n SERIAL_COM1 (str ''Starting Forth VM...\<newline>'') s) (\<lambda>s.
      rbind (forth_init P (dict_mmu B) s) (\<lambda>s.
      Inr (repl_start s)))))))))"

end
