(* ===== verification/Startup.thy ===== *)
theory Startup
  imports Kernel Spawn Volume Registry Loader
begin

text \<open>
  The boot sequence as a whole (\<open>kernel_main\<close> in \<open>kernel/core/kernel.c\<close>): from the page tables of
  the loader to the first prompt.  The steps of the boot work on state they share: memory, the
  tables, the bitmap of pages, the drive.  \<open>essence\<close> is the part of the state that the
  invariants of the components speak about; each step either leaves it alone or is described
  by the lemma of its component, and what the earlier steps have set up is carried along.
\<close>

section \<open>What the invariants depend on\<close>

definition control :: "'a kernel_scheme \<Rightarrow> int \<times> int \<times> bool" where
  "control s = (dsp s, rsp_idx s, interrupts_enabled s)"

definition essence ::
  "'a kernel_scheme \<Rightarrow> (int \<times> int \<times> bool) \<times> (memory \<times> u64 \<times> u64 \<times> u64) \<times> (u64 \<times> u64 \<times> u64 \<times> u64) \<times> (u64 \<times> u64 \<times> u64 \<times> u64) \<times> (drive \<Rightarrow> drive)" where
  "essence s =
     (control s, (vmem s, cr3 s, pmm_total_pages s, pmm_used_pages s), (heap_head s, heap_used s, current_task s, task_list s),
      (buffers s, dict_base s, dict_here s, dict_latest s), drive_after (ports s))"

lemma essence_eq:
  assumes "essence t = essence s"
  shows "vmem t = vmem s" "cr3 t = cr3 s" "pmm_total_pages t = pmm_total_pages s" "pmm_used_pages t = pmm_used_pages s"
    "heap_head t = heap_head s" "heap_used t = heap_used s" "current_task t = current_task s" "task_list t = task_list s"
    "buffers t = buffers s" "dict_base t = dict_base s" "dict_here t = dict_here s" "dict_latest t = dict_latest s"
    "drive_after (ports t) d = drive_after (ports s) d" "control t = control s"
  using assms by (simp_all add: essence_def)

text \<open>Ports other than the drive's.\<close>

definition drive_port :: "u16 \<Rightarrow> bool" where
  "drive_port p \<longleftrightarrow> 0x1F0 \<le> p \<and> p \<le> 0x1F7"

lemma other_ports:
  assumes "\<not> drive_port p"
  shows "drive_step (Out p v) d = d" "drive_step (In p) d = d"
proof -
  have "p \<notin> {0x1F0, 0x1F2, 0x1F3, 0x1F4, 0x1F5, 0x1F6, 0x1F7}" using assms by (auto simp: drive_port_def)
  then show "drive_step (Out p v) d = d" "drive_step (In p) d = d" by (auto simp: drive_step.simps ata_ports)
qed

lemma essence_out [simp]:
  assumes "\<not> drive_port p"
  shows "essence (outb p b s) = essence s" "essence (outw p w s) = essence s" "essence (outl p l s) = essence s"
    "essence (snd (inb dev p s)) = essence s" "essence (snd (inl dev p s)) = essence s"
  using other_ports [OF assms] by (auto simp: essence_def control_def port_defs fun_eq_iff)

lemma vga_drive [simp]:
  "drive_after (ports (update_cursor s)) d = drive_after (ports s) d"
  "ports (put_cell i v s) = ports s" "ports (vga_scroll s) = ports s"
  "drive_after (ports (vga_putchar c s)) d = drive_after (ports s) d"
  "drive_after (ports (vga_puts cs s)) d = drive_after (ports s) d"
proof -
  have p: "drive_step (Out 0x3D4 v) e = e" "drive_step (Out 0x3D5 v) e = e" for v e
    by (rule other_ports; simp add: drive_port_def)+
  show cur: "drive_after (ports (update_cursor s)) d = drive_after (ports s) d" for s :: "'a vga_scheme"
    by (simp add: update_cursor_def Let_def port_defs p)
  show cell: "ports (put_cell i v s) = ports s" for i v and s :: "'a vga_scheme" by (simp add: put_cell_def)
  show scr: "ports (vga_scroll s) = ports s" for s :: "'a vga_scheme" by (simp add: vga_scroll_def Let_def)
  show ch: "drive_after (ports (vga_putchar c s)) d = drive_after (ports s) d" for c and s :: "'a vga_scheme"
    by (simp add: vga_putchar_def Let_def cur cell scr)
  show "drive_after (ports (vga_puts cs s)) d = drive_after (ports s) d" for s :: "'a vga_scheme"
    by (induction cs arbitrary: s) (simp_all add: ch)
qed

lemma essence_vga:
  assumes "vga_only s t" "\<And>d. drive_after (ports t) d = drive_after (ports s) d"
  shows "essence t = essence s"
  using assms by (cases s; cases t; simp add: vga_only_def vga.defs essence_def control_def fun_eq_iff)

lemma essence_screen [simp]:
  "essence (vga_putchar c s) = essence s" "essence (vga_puts cs s) = essence s" "essence (vga_set_color fg bg s) = essence s"
  "essence (vga_put_hex w s) = essence s" "essence (vga_init dev s) = essence s"
proof -
  show "essence (vga_putchar c s) = essence s" "essence (vga_puts cs s) = essence s"
    by (rule essence_vga; auto)+
  show "essence (vga_set_color fg bg s) = essence s" by (rule essence_vga) (auto simp: vga_set_color_def)
  show "essence (vga_put_hex w s) = essence s" by (rule essence_vga) (auto simp: vga_put_hex_def Let_def)
  have p: "\<not> drive_port 0x3D4" "\<not> drive_port 0x3D5" by (simp_all add: drive_port_def)
  have "drive_after (ports (vga_clear t)) d = drive_after (ports t) d" for d and t :: "'a kernel_scheme" by (simp add: vga_clear_def Let_def)
  then have c: "essence (vga_clear t) = essence t" for t :: "'a kernel_scheme" by (intro essence_vga) auto
  have a: "essence (s\<lparr>vga_attrib := v\<rparr>) = essence s" for v by (rule essence_vga) auto
  show "essence (vga_init dev s) = essence s" by (simp add: vga_init_def Let_def split_beta p c a del: status_reads)
qed

text \<open>The debug port, on which everything is logged.\<close>

lemma essence_ports: "(\<And>d. drive_after h d = drive_after (ports s) d) \<Longrightarrow> essence (s\<lparr>ports := h\<rparr>) = essence s"
  by (simp add: essence_def control_def fun_eq_iff)

lemma essence_serial:
  fixes s :: "'a kernel_scheme"
  assumes "uart_answers dev SERIAL_COM1" "0 < n"
  shows "\<exists>t. serial_puts dev n SERIAL_COM1 cs s = Inr t \<and> essence t = essence s"
    "\<exists>t. serial_put_hex dev n SERIAL_COM1 v s = Inr t \<and> essence t = essence s"
proof -
  show puts: "\<exists>t. serial_puts dev n SERIAL_COM1 cs s = Inr t \<and> essence t = essence s" for cs and s :: "'a kernel_scheme"
  proof -
    have "\<exists>h. serial_puts dev n SERIAL_COM1 cs s = Inr (s\<lparr>ports := h\<rparr>) \<and> (\<forall>d. drive_after h d = drive_after (ports s) d)"
    proof -
      obtain h where h: "serial_puts dev n SERIAL_COM1 cs s = Inr (s\<lparr>ports := h\<rparr>)" using serial_puts_drive [OF assms] by blast
      have "drive_after h d = drive_after (ports s) d" for d
      proof -
        obtain h' where "serial_puts dev n SERIAL_COM1 cs s = Inr (s\<lparr>ports := h'\<rparr>)" "drive_after h' d = drive_after (ports s) d"
          using serial_puts_drive [OF assms] by blast
        moreover from this(1) h have "ports (s\<lparr>ports := h'\<rparr>) = ports (s\<lparr>ports := h\<rparr>)" by simp
        ultimately show ?thesis by simp
      qed
      then show ?thesis using h by blast
    qed
    then show ?thesis using essence_ports by blast
  qed
  show "\<exists>t. serial_put_hex dev n SERIAL_COM1 v s = Inr t \<and> essence t = essence s"
    using puts [of "str ''0x''" s] puts [of "ultoa v 16"] by (fastforce simp: serial_put_hex_def)
qed

text \<open>A log line in front of the rest of a computation.\<close>

lemma log_then:
  fixes s :: "'a kernel_scheme"
  assumes "uart_answers dev SERIAL_COM1" "0 < n" "\<And>t. essence t = essence s \<Longrightarrow> \<exists>s'. k t = Inr s' \<and> P s'"
  shows "\<exists>s'. rbind (serial_puts dev n SERIAL_COM1 cs s) k = Inr s' \<and> P s'"
    "\<exists>s'. rbind (serial_put_hex dev n SERIAL_COM1 v s) k = Inr s' \<and> P s'"
proof -
  obtain t u where "serial_puts dev n SERIAL_COM1 cs s = Inr t" "essence t = essence s"
    "serial_put_hex dev n SERIAL_COM1 v s = Inr u" "essence u = essence s"
    using essence_serial [OF assms(1,2)] by blast
  then show "\<exists>s'. rbind (serial_puts dev n SERIAL_COM1 cs s) k = Inr s' \<and> P s'"
    "\<exists>s'. rbind (serial_put_hex dev n SERIAL_COM1 v s) k = Inr s' \<and> P s'" using assms(3) by simp_all
qed

section \<open>Steps that leave the essence alone\<close>

lemma essence_fields [simp]:
  "essence (s\<lparr>idt := g\<rparr>) = essence s" "essence (s\<lparr>idtr_limit := l\<rparr>) = essence s" "essence (s\<lparr>idtr_base := b\<rparr>) = essence s"
  "essence (s\<lparr>idt_register := r\<rparr>) = essence s" "essence (s\<lparr>cr0 := c\<rparr>) = essence s" "essence (s\<lparr>cr4 := c\<rparr>) = essence s"
  "essence (s\<lparr>e1000_bar0 := a\<rparr>) = essence s" "essence (s\<lparr>e1000_irq := i\<rparr>) = essence s" "essence (s\<lparr>mmio_base := x\<rparr>) = essence s"
  "essence (s\<lparr>mac_address := m\<rparr>) = essence s" "essence (s\<lparr>input_pos := p\<rparr>) = essence s"
  by (simp_all add: essence_def control_def)

lemma essence_pic [simp]: "essence (pic_init s) = essence s"
proof -
  have "\<not> drive_port PIC1_COMMAND" "\<not> drive_port PIC1_DATA" "\<not> drive_port PIC2_COMMAND" "\<not> drive_port PIC2_DATA" "\<not> drive_port 0x80"
    by (simp_all add: drive_port_def PIC1_COMMAND_def PIC1_DATA_def PIC2_COMMAND_def PIC2_DATA_def)
  then show ?thesis by (simp add: pic_init_def io_wait_def Let_def)
qed

lemma essence_gates [simp]: "essence (set_gates gs s) = essence s"
  by (induction gs arbitrary: s) (auto simp: idt_set_gate_def)

lemma essence_idt [simp]: "essence (idt_init isr irq a s) = essence s"
  by (simp add: idt_init_def Let_def)

lemma essence_uart [simp]: "essence (serial_init dev SERIAL_COM1 s) = essence s"
proof -
  have "\<not> drive_port (SERIAL_COM1 + k)" if "k \<in> {0, 1, 2, 3, 4}" for k using that by (auto simp: drive_port_def SERIAL_COM1_def)
  then have "\<not> drive_port SERIAL_COM1" "\<not> drive_port (SERIAL_COM1 + 1)" "\<not> drive_port (SERIAL_COM1 + 2)" "\<not> drive_port (SERIAL_COM1 + 3)"
    "\<not> drive_port (SERIAL_COM1 + 4)" by (simp_all add: drive_port_def SERIAL_COM1_def)
  then show ?thesis by (simp add: serial_init_def Let_def split_beta del: status_reads)
qed

lemma essence_timer [simp]: "essence (timer_init f s) = essence s"
proof -
  have "\<not> drive_port 0x43" "\<not> drive_port 0x40" by (simp_all add: drive_port_def)
  then show ?thesis by (simp add: timer_init_def Let_def)
qed

text \<open>A keyboard controller whose buffer is empty after at most \<open>n\<close> bytes.\<close>

fun drained :: "nat \<Rightarrow> io list \<Rightarrow> io list" where
  "drained 0 h = h"
| "drained (Suc k) h = drained k (In 0x60 # In 0x64 # h)"

definition keyboard_drains :: "device \<Rightarrow> nat \<Rightarrow> bool" where
  "keyboard_drains dev n \<longleftrightarrow> (\<forall>h. \<exists>k < n. (ucast (dev (drained k h) 0x64) :: u8) AND 1 = 0)"

lemma keyboard_init_within:
  fixes s :: "'a kernel_scheme"
  assumes "(ucast (dev (drained k (ports s)) 0x64) :: u8) AND 1 = 0" "k < n"
  shows "\<exists>t. keyboard_init n dev s = Inr t \<and> essence t = essence s"
  using assms
proof (induction n arbitrary: s k)
  case 0
  then show ?case by simp
next
  case (Suc n)
  have p: "\<not> drive_port 0x64" "\<not> drive_port 0x60" by (simp_all add: drive_port_def)
  let ?t = "snd (inb dev 0x64 s)" and ?u = "snd (inb dev 0x60 (snd (inb dev 0x64 s)))"
  show ?case
  proof (cases "fst (inb dev 0x64 s) AND 1 = 0")
    case True
    then show ?thesis using essence_out(4) [OF p(1), of dev s] by (simp add: split_beta del: status_reads)
  next
    case False
    then have "k \<noteq> 0" using Suc.prems(1) by (cases k) (auto simp: inb_def)
    then obtain j where k: "k = Suc j" by (cases k) auto
    have "drained k (ports s) = drained j (ports ?u)" by (simp add: k inb_def)
    then obtain t where "keyboard_init n dev ?u = Inr t" "essence t = essence ?u"
      using Suc.IH [of j ?u] Suc.prems k by auto
    moreover have "essence ?u = essence s" using p by (simp del: status_reads)
    ultimately show ?thesis using False by (simp add: split_beta del: status_reads)
  qed
qed

lemma essence_pci_scan: "essence (pci_scan dev ks s) = essence s"
proof -
  have p: "\<not> drive_port PCI_CONFIG_ADDRESS" "\<not> drive_port PCI_CONFIG_DATA"
    by (simp_all add: drive_port_def PCI_CONFIG_ADDRESS_def PCI_CONFIG_DATA_def)
  have rd: "essence (snd (pci_read_dword dev b k f off t)) = essence t" for b k f off and t :: "'a kernel_scheme"
    using p by (simp add: pci_read_dword_def Let_def)
  have found: "essence (found_e1000 dev k t) = essence t" for k and t :: "'a kernel_scheme"
    by (simp add: found_e1000_def Let_def split_beta rd)
  show ?thesis by (induction ks arbitrary: s) (simp_all add: split_beta Let_def rd found)
qed

section \<open>Memory that a step leaves alone\<close>

definition changes :: "nat set \<Rightarrow> memory \<Rightarrow> memory \<Rightarrow> bool" where
  "changes A m m' \<longleftrightarrow> (\<forall>x. unat x \<notin> A \<longrightarrow> m' x = m x) \<and> (\<forall>x. m x \<noteq> None \<longrightarrow> m' x \<noteq> None)"

lemma changes_mono: "changes A m m' \<Longrightarrow> A \<subseteq> B \<Longrightarrow> changes B m m'"
  by (auto simp: changes_def)

lemma changes_trans: "changes A m m' \<Longrightarrow> changes A m' m'' \<Longrightarrow> changes A m m''"
  by (simp add: changes_def)

text \<open>The regions of memory, by address.\<close>

definition low_memory :: "nat set" where "low_memory = {..<2 ^ 52}"
definition bitmap_bytes :: "nat set" where "bitmap_bytes = {unat PMM_BITMAP_VIRT..<unat PMM_BITMAP_VIRT + 2 ^ 17}"
definition heap_bytes :: "nat set" where "heap_bytes = {HEAP_LO..<HEAP_HI}"
definition cache_bytes :: "'a block_cache_scheme \<Rightarrow> nat set" where
  "cache_bytes s = {unat (buffers s)..<unat (buffers s) + 8320}"

lemma bitmap_bytes_iff: "in_bitmap x \<longleftrightarrow> unat x \<in> bitmap_bytes"
proof -
  have "unat PMM_BITMAP_VIRT + 2 ^ 17 \<le> 2 ^ 64" by (simp add: PMM_BITMAP_VIRT_def PMM_BITMAP_PHYS_def KERNEL_VIRT_BASE_def)
  then show ?thesis
    by (auto simp: in_bitmap_def bitmap_bytes_def unat_sub_if' word_le_nat_alt)
qed

text \<open>The static array of the block cache lies in the kernel's image.\<close>

definition image_cache :: "'a block_cache_scheme \<Rightarrow> bool" where
  "image_cache s \<longleftrightarrow> unat KERNEL_VIRT_BASE + 0x100000 \<le> unat (buffers s) \<and> unat (buffers s) + 8320 \<le> unat KERNEL_VIRT_BASE + 0x200000"

lemma regions_apart:
  "low_memory \<inter> bitmap_bytes = {}" "low_memory \<inter> heap_bytes = {}" "bitmap_bytes \<inter> heap_bytes = {}"
  "image_cache s \<Longrightarrow> cache_bytes s \<inter> low_memory = {}" "image_cache s \<Longrightarrow> cache_bytes s \<inter> bitmap_bytes = {}"
  "image_cache s \<Longrightarrow> cache_bytes s \<inter> heap_bytes = {}"
proof -
  have k: "unat KERNEL_VIRT_BASE = 0xFFFF800000000000" "unat PMM_BITMAP_VIRT = 0xFFFF800000200000"
    by (simp_all add: PMM_BITMAP_VIRT_def PMM_BITMAP_PHYS_def KERNEL_VIRT_BASE_def)
  show "low_memory \<inter> bitmap_bytes = {}" "low_memory \<inter> heap_bytes = {}" "bitmap_bytes \<inter> heap_bytes = {}"
    by (auto simp: low_memory_def bitmap_bytes_def heap_bytes_def k HEAP_LO_def HEAP_HI_def)
  show "image_cache s \<Longrightarrow> cache_bytes s \<inter> low_memory = {}" "image_cache s \<Longrightarrow> cache_bytes s \<inter> bitmap_bytes = {}"
    "image_cache s \<Longrightarrow> cache_bytes s \<inter> heap_bytes = {}"
    by (auto simp: low_memory_def bitmap_bytes_def heap_bytes_def cache_bytes_def image_cache_def k HEAP_LO_def HEAP_HI_def)
qed

text \<open>Pages and tables.\<close>

lemma bitmap_page:
  assumes "pmm_ok s" "i < (unat (pmm_total_pages s) + 7) div 8"
  shows "in_bitmap (PMM_BITMAP_VIRT + of_nat i)" "vmem s (PMM_BITMAP_VIRT + of_nat i) \<noteq> None"
proof -
  have "(unat (pmm_total_pages s) + 7) div 8 \<le> (2 ^ 20 + 7) div 8" using assms(1) by (intro div_le_mono) (simp add: pmm_ok_def)
  then have "i < 2 ^ 17" using assms(2) by simp
  then show "in_bitmap (PMM_BITMAP_VIRT + of_nat i)" by (simp add: in_bitmap_def unat_of_nat)
  show "vmem s (PMM_BITMAP_VIRT + of_nat i) \<noteq> None" using assms unfolding pmm_ok_def mapped_def by blast
qed

lemma pmm_keep:
  assumes "pmm_ok s" "\<And>x. in_bitmap x \<Longrightarrow> vmem s x \<noteq> None \<Longrightarrow> vmem t x = vmem s x"
    "pmm_total_pages t = pmm_total_pages s" "pmm_used_pages t = pmm_used_pages s"
  shows "pmm_ok t" "used t = used s"
proof -
  have same: "vmem t (PMM_BITMAP_VIRT + of_nat i) = vmem s (PMM_BITMAP_VIRT + of_nat i)" if "i < (unat (pmm_total_pages s) + 7) div 8" for i
    using assms(2) bitmap_page [OF assms(1) that] by blast
  have "page_bit (vmem t) p = page_bit (vmem s) p" if "p < unat (pmm_total_pages s)" for p
  proof -
    have "p div 8 < (unat (pmm_total_pages s) + 7) div 8" using that by linarith
    then show ?thesis using same by (simp add: page_bit_def)
  qed
  then show u: "used t = used s" using assms(3) by (auto simp: used_def)
  have "mapped (vmem t) PMM_BITMAP_VIRT ((unat (pmm_total_pages s) + 7) div 8)"
    using same bitmap_page(2) [OF assms(1)] by (simp add: mapped_def)
  then show "pmm_ok t" using assms(1,3,4) u by (simp add: pmm_ok_def)
qed

lemma pte_keep:
  assumes "frame_of u = u" "mapped m u 4096" "k < 512" "\<And>x. unat x < 2 ^ 52 \<Longrightarrow> m x \<noteq> None \<Longrightarrow> m' x = m x"
  shows "pte m' u k = pte m u k"
proof -
  have "rd_bytes m' (u + 8 * k) 8 = rd_bytes m (u + 8 * k) 8"
  proof (rule rd_bytes_cong_mem)
    fix i :: nat
    assume i: "i < 8"
    have o: "unat (u + 8 * k) = unat u + 8 * unat k" "unat k < 512" using entry_offset [OF assms(3)] assms(1) by metis+
    have b: "unat u + 4096 \<le> 2 ^ 52" using frame_small(1) [of u] assms(1) by simp
    have "unat (u + 8 * k + of_nat i) = unat u + 8 * unat k + i" using o b i by (subst unat_add_of_nat) simp_all
    then have small: "unat (u + 8 * k + of_nat i) < 2 ^ 52" using b o(2) i by simp
    have e: "u + 8 * k + of_nat i = u + of_nat (8 * unat k + i)" by simp
    have "8 * unat k + i < 4096" using o(2) i by simp
    then have "m (u + 8 * k + of_nat i) \<noteq> None" using assms(2) unfolding e mapped_def by blast
    with small show "m' (u + 8 * k + of_nat i) = m (u + 8 * k + of_nat i)" by (rule assms(4))
  qed
  then show ?thesis by (simp add: pte_def rd64_def)
qed

lemma paging_keep:
  fixes s t :: "'a vmm_scheme"
  assumes "paging_ok s" "pmm_ok t" "pmm_total_pages t = pmm_total_pages s" "used s \<subseteq> used t" "cr3 t = cr3 s"
    "\<And>x. vmem s x \<noteq> None \<Longrightarrow> vmem t x \<noteq> None" "\<And>x. unat x < 2 ^ 52 \<Longrightarrow> vmem s x \<noteq> None \<Longrightarrow> vmem t x = vmem s x"
  shows "paging_ok t" "translation t v = translation s v" "level_of t v = level_of s v"
proof -
  have r: "get_pml4 t = get_pml4 s" using assms(5) by (simp add: get_pml4_def)
  have ents: "entries_of t u k = entries_of s u k" if "indices xs" "table_at (entries_of s) (get_pml4 s) xs = Some u" "k < 512" for xs u k
    using pte_keep [OF table_at_frame [OF that(2)] _ that(3) assms(7)] paging_okD(4) [OF assms(1) that(1,2)] by (simp add: table_page_def)
  note st = same_tree [OF paging_okD(2) [OF assms(1)] ents]
  have at: "indices xs \<Longrightarrow> table_at (entries_of t) (get_pml4 t) xs = table_at (entries_of s) (get_pml4 s) xs" for xs
    unfolding r by (rule st(1))
  have w: "walk (entries_of t) (get_pml4 t) (path v) = walk (entries_of s) (get_pml4 s) (path v)" for v unfolding r by (rule st(2))
  have fp: "free_page t p \<Longrightarrow> free_page s p" for p using assms(3,4) by (auto simp: free_page_def)
  have mp: "mapped (vmem s) a n \<Longrightarrow> mapped (vmem t) a n" for a n using assms(6) by (simp add: mapped_def)
  show "paging_ok t"
    unfolding paging_ok_def
  proof (intro conjI allI impI)
    show "pmm_ok t" by (rule assms(2))
    show "tree (entries_of t) (get_pml4 t)" using paging_okD(2) [OF assms(1)] at unfolding tree_def by simp
  next
    fix k :: u64
    assume k: "k < 512"
    show "entries_of t (get_pml4 t) k AND PTE_HUGE = 0"
      using ents [of "[]" "get_pml4 s" k] paging_okD(3) [OF assms(1) k] k by (simp add: r)
  next
    fix xs u
    assume "indices xs" "table_at (entries_of t) (get_pml4 t) xs = Some u"
    then have "table_page s u" using at paging_okD(4) [OF assms(1)] by simp
    then show "table_page t u" using fp mp by (auto simp: table_page_def)
  next
    fix p
    assume "free_page t p"
    then show "p \<noteq> 0" "p < identity_pages \<Longrightarrow> mapped (vmem t) (of_nat p * PAGE_SIZE) 4096"
      using fp mp paging_okD(5,6) [OF assms(1)] by auto
  qed
  show "translation t v = translation s v" "level_of t v = level_of s v"
    using w [of v] by (simp_all add: translation_def phys_addr_def level_of_def)
qed

text \<open>The heap, the tasks and their frames.\<close>

lemma only_on_changes: "changes A (vmem s) m \<Longrightarrow> only_on A s (s\<lparr>vmem := m\<rparr>)"
  by (simp add: only_on_def changes_def)

lemma heap_keep:
  fixes s t :: "'a heap_scheme"
  assumes "heap_ok s bs" "changes A (vmem s) (vmem t)" "A \<inter> heap_bytes = {}" "heap_head t = heap_head s" "heap_used t = heap_used s"
  shows "heap_ok t bs"
proof -
  let ?u = "s\<lparr>vmem := vmem t\<rparr>"
  have "header_bytes bs \<subseteq> heap_bytes"
    using header_bytes_tiles [OF heap_okD(3) [OF assms(1)]] by (simp add: heap_bytes_def)
  then have "heap_ok ?u bs" using heap_ok_on [OF assms(1) only_on_changes [OF assms(2)]] assms(3) by blast
  then show ?thesis using assms(4,5) by (simp add: heap_ok_def)
qed

lemma tasking_keep:
  fixes s t :: "'a task_scheme"
  assumes "tasking s as b r ts" "changes A (vmem s) (vmem t)" "A \<inter> heap_bytes = {}" "heap_head t = heap_head s" "heap_used t = heap_used s"
    "current_task t = current_task s" "task_list t = task_list s"
  shows "tasking t as b r ts" "queue t ts = queue s ts"
proof -
  let ?u = "s\<lparr>vmem := vmem t\<rparr>"
  have s: "heap_ok s (as @ [HB b r True])" "full as" "scheduled s ts" "task_bytes (set ts) \<subseteq> payloads as" "task_list s \<in> set ts"
    using assms(1) by (auto simp: tasking_def)
  have "payloads (as @ [HB b r True]) \<subseteq> heap_bytes"
    using tiles_payloads [OF heap_okD(3) [OF s(1)]] by (simp add: heap_bytes_def)
  then have "A \<inter> task_bytes (set ts) = {}" using s(4) assms(3) by auto
  moreover have "only_on A (s\<lparr>next_pid := next_pid s, heap_used := heap_used s\<rparr>) ?u"
    using only_on_changes [OF assms(2)] by simp
  ultimately have u: "scheduled ?u ts" "queue ?u ts = queue s ts" using scheduled_on [OF s(3)] by blast+
  have f: "task_state v t = task_state v ?u" "task_next v t = task_next v ?u" "task_rsp v t = task_rsp v ?u" for v
    by (simp_all add: task_state_def task_next_def task_rsp_def load32_def load64_def)
  have lk: "linked xs z t = linked xs z ?u" for xs z by (induction xs) (simp_all add: f(2))
  have "scheduled t ts" using u(1) f assms(6) by (simp add: scheduled_def ring_def waiting_def lk)
  then show "tasking t as b r ts"
    using heap_keep [OF s(1) assms(2-5)] s(2,4,5) assms(7) by (simp add: tasking_def)
  have "waiting t = waiting ?u" by (simp add: waiting_def f fun_eq_iff)
  then show "queue t ts = queue s ts" unfolding u(2) [symmetric] by (simp add: queue_def f)
qed

text \<open>The block cache.\<close>

lemma serves_keep:
  fixes s t :: "'a block_cache_scheme"
  assumes "serves d B s" "changes A (vmem s) (vmem t)" "A \<inter> cache_bytes s = {}" "buffers t = buffers s"
    "\<And>d. drive_after (ports t) d = drive_after (ports s) d"
  shows "serves d B t"
proof -
  have "holds_buffers bfs t" if h: "holds_buffers bfs s" for bfs
  proof -
    have b: "unat (buffers s) + 8320 \<le> 2 ^ 64" using h by (simp add: holds_buffers_def)
    have "rd_bytes (vmem t) (buf_addr i t) 1040 = rd_bytes (vmem s) (buf_addr i s) 1040" if i: "i < 8" for i
    proof -
      have "vmem t (buf_addr i t + of_nat j) = vmem s (buf_addr i s + of_nat j)" if j: "j < 1040" for j
      proof -
        have e: "buf_addr i t + of_nat j = buffers s + of_nat (1040 * i + j)" "buf_addr i s + of_nat j = buffers s + of_nat (1040 * i + j)"
          using assms(4) by (simp_all add: buf_addr_def)
        have "1040 * i + j < 8320" using i j by simp
        then have "unat (buffers s + of_nat (1040 * i + j)) \<in> cache_bytes s"
          using b by (subst unat_add_of_nat) (simp_all add: cache_bytes_def)
        then show ?thesis unfolding e using assms(2,3) by (auto simp: changes_def)
      qed
      then have "rd_bytes (vmem t) (buf_addr i t) 1040 = rd_bytes (vmem s) (buf_addr i t) 1040"
        using assms(4) by (intro rd_bytes_cong_mem) (simp add: buf_addr_def)
      then show ?thesis using assms(4) by (simp add: buf_addr_def)
    qed
    then show ?thesis using h assms(4) by (simp add: holds_buffers_def)
  qed
  then show ?thesis
    using assms(1,5) by (auto simp: serves_def cached_def drive_idle_def sector_on_def)
qed

section \<open>The state the loader hands over\<close>

text \<open>
  \<open>m\<close> is physical memory with the loader's tables, of which at least 5 MB exist; the kernel runs
  behind these tables, and its static data lie in its image.
\<close>

definition loaded :: "memory \<Rightarrow> 'a kernel_scheme \<Rightarrow> bool" where
  "loaded m s \<longleftrightarrow> (\<exists>m0. mapped m0 0 0x500000 \<and> setup_paging m0 = Inr (m, PML4_ADDR)) \<and>
     vmem s = address_space m PML4_ADDR \<and> cr3 s = PML4_ADDR \<and> image_cache s"

lemma loaded_essence: "essence t = essence s \<Longrightarrow> loaded m t = loaded m s"
  using essence_eq [of t s] by (simp add: loaded_def image_cache_def)

lemma loaded_tables:
  assumes "loaded m s"
  shows "\<forall>u j. boot_table u \<longrightarrow> j < 512 \<longrightarrow> pte m u j = boot_entries u j" "\<And>v. canonical v \<Longrightarrow> phys_addr (pte m) PML4_ADDR v = boot_phys v"
    "\<And>p. unat p < 0x500000 \<Longrightarrow> m p \<noteq> None"
proof -
  obtain m0 where m0: "mapped m0 0 0x500000" "setup_paging m0 = Inr (m, PML4_ADDR)" using assms by (auto simp: loaded_def)
  have "mapped m0 PML4_ADDR 0x5000" by (rule mapped_sub [OF m0(1)]) (simp_all add: PML4_ADDR_def)
  from setup_paging_ok [OF this] m0(2) have m: "\<forall>x. \<not> in_tables x \<longrightarrow> m x = m0 x" "mapped m PML4_ADDR 0x5000"
    "\<forall>u j. boot_table u \<longrightarrow> j < 512 \<longrightarrow> pte m u j = boot_entries u j" "\<forall>v. canonical v \<longrightarrow> phys_addr (pte m) PML4_ADDR v = boot_phys v" by auto
  then show "\<forall>u j. boot_table u \<longrightarrow> j < 512 \<longrightarrow> pte m u j = boot_entries u j" "\<And>v. canonical v \<Longrightarrow> phys_addr (pte m) PML4_ADDR v = boot_phys v"
    by blast+
  show "m p \<noteq> None" if "unat p < 0x500000" for p
  proof (cases "in_tables p")
    case True
    then have "unat (p - PML4_ADDR) < 0x5000" by (auto simp: in_tables_def PML4_ADDR_def unat_sub_if')
    moreover have "PML4_ADDR + of_nat (unat (p - PML4_ADDR)) = p" by simp
    ultimately show ?thesis using m(2) unfolding mapped_def by metis
  next
    case False
    have "m0 (0 + of_nat (unat p)) \<noteq> None" using m0(1) that unfolding mapped_def by blast
    then show ?thesis using m(1) False by simp
  qed
qed

text \<open>Both views of low memory.\<close>

lemma loaded_memory:
  assumes "loaded m s"
  shows "unat v < 0x400000 \<Longrightarrow> vmem s v = m v"
    "KERNEL_VIRT_BASE \<le> v \<Longrightarrow> unat (v - KERNEL_VIRT_BASE) < 0x2000000 \<Longrightarrow> vmem s v = m (v - KERNEL_VIRT_BASE)"
proof -
  have s: "vmem s v = (if canonical v \<and> phys_addr (pte m) PML4_ADDR v \<noteq> - 1 then m (phys_addr (pte m) PML4_ADDR v) else None)"
    using assms by (simp add: loaded_def address_space_def)
  have "unat (- 1 :: u64) = 18446744073709551615" by (simp add: unsigned_minus_1_eq_mask mask_numeral)
  then have ne: "x \<noteq> - 1" if "unat x < 0x2000000" for x :: u64 using that by auto
  show "unat v < 0x400000 \<Longrightarrow> vmem s v = m v"
    unfolding s using loaded_tables(2) [OF assms, of v] ne [of v] by (simp add: canonical_def boot_phys_def)
  assume v: "KERNEL_VIRT_BASE \<le> v" "unat (v - KERNEL_VIRT_BASE) < 0x2000000"
  then have "\<not> unat v < 0x400000" by (simp add: word_le_nat_alt KERNEL_VIRT_BASE_def)
  then show "vmem s v = m (v - KERNEL_VIRT_BASE)"
    unfolding s using loaded_tables(2) [OF assms, of v] ne [OF v(2)] v by (simp add: canonical_def boot_phys_def)
qed

lemma loaded_mapped:
  assumes "loaded m s"
  shows "unat v < 0x400000 \<Longrightarrow> vmem s v \<noteq> None"
    "unat KERNEL_VIRT_BASE \<le> unat v \<Longrightarrow> unat v < unat KERNEL_VIRT_BASE + 0x500000 \<Longrightarrow> vmem s v \<noteq> None"
proof -
  show "unat v < 0x400000 \<Longrightarrow> vmem s v \<noteq> None" using loaded_memory(1) [OF assms] loaded_tables(3) [OF assms] by simp
  assume v: "unat KERNEL_VIRT_BASE \<le> unat v" "unat v < unat KERNEL_VIRT_BASE + 0x500000"
  then have "KERNEL_VIRT_BASE \<le> v" by (simp add: word_le_nat_alt)
  moreover from this have "unat (v - KERNEL_VIRT_BASE) < 0x500000" using v by (simp add: unat_sub)
  ultimately show "vmem s v \<noteq> None" using loaded_memory(2) [OF assms] loaded_tables(3) [OF assms] by simp
qed

lemma loaded_entries:
  assumes "loaded m s" "\<And>x. unat x < 0x400000 \<Longrightarrow> vmem t x = vmem s x"
  shows "\<forall>u j. boot_table u \<longrightarrow> j < 512 \<longrightarrow> entries_of t u j = boot_entries u j"
proof (intro allI impI)
  fix u j :: u64
  assume u: "boot_table u" and j: "j < 512"
  note b = boot_table_bounds [OF u]
  have "rd_bytes (vmem t) (u + 8 * j) 8 = rd_bytes m (u + 8 * j) 8"
  proof (rule rd_bytes_cong_mem)
    fix i :: nat
    assume i: "i < 8"
    have o: "unat (u + 8 * j) = unat u + 8 * unat j" "unat j < 512" using entry_offset [OF j] b(1) by metis+
    have "unat (u + 8 * j + of_nat i) = unat u + 8 * unat j + i" using o b i by (subst unat_add_of_nat) simp_all
    then have "unat (u + 8 * j + of_nat i) < 0x400000" using b o i by simp
    then show "vmem t (u + 8 * j + of_nat i) = m (u + 8 * j + of_nat i)"
      using assms(2) loaded_memory(1) [OF assms(1)] by simp
  qed
  then have "entries_of t u j = pte m u j" by (simp add: pte_def rd64_def)
  then show "entries_of t u j = boot_entries u j" using loaded_tables(1) [OF assms(1)] u j by simp
qed

lemma loaded_paging:
  fixes s t :: "'a kernel_scheme"
  assumes "loaded m s" "\<And>x. unat x < 0x400000 \<Longrightarrow> vmem t x = vmem s x" "cr3 t = cr3 s" "pmm_ok t" "{0..<128} \<subseteq> used t"
  shows "paging_ok t" "level_of t v = (let (e, n) = walk boot_entries PML4_ADDR (path v) in if present e then Some n else None)"
proof -
  have r: "get_pml4 t = PML4_ADDR" using assms(1,3) by (simp add: loaded_def get_pml4_def PML4_ADDR_def PTE_ADDR_MASK_def)
  note e = loaded_entries [OF assms(1,2)]
  note lt = loader_tables [OF e]
  have mp: "mapped (vmem t) a n" if "unat a + n \<le> 0x400000" for a n
    unfolding mapped_def
  proof (intro allI impI)
    fix i
    assume "i < n"
    then have "unat (a + of_nat i) < 0x400000" using that by (subst unat_add_of_nat) simp_all
    then show "vmem t (a + of_nat i) \<noteq> None" using assms(2) loaded_mapped(1) [OF assms(1)] by simp
  qed
  show "paging_ok t"
    unfolding paging_ok_def
  proof (intro conjI allI impI)
    show "pmm_ok t" by (rule assms(4))
    show "tree (entries_of t) (get_pml4 t)" unfolding r by (rule lt(1))
  next
    fix k :: u64
    assume "k < 512"
    then have "entries_of t (get_pml4 t) k = boot_entries PML4_ADDR k" using e by (simp add: r boot_table_def)
    then show "entries_of t (get_pml4 t) k AND PTE_HUGE = 0" by (simp add: boot_entries_def table_addrs PTE_HUGE_def)
  next
    fix xs u
    assume xs: "indices xs" "table_at (entries_of t) (get_pml4 t) xs = Some u"
    then have u: "boot_table u" using lt(2) by (simp add: r)
    note b = boot_table_bounds [OF u]
    have "unat u div 4096 < 128" using b(3) by (simp add: div_less_iff_less_mult)
    then have "unat u div 4096 \<in> used t" using assms(5) by auto
    then show "table_page t u" using b mp [of u 4096] by (auto simp: table_page_def free_page_def)
  next
    fix p
    assume p: "free_page t p"
    have "0 \<in> used t" using assms(5) by auto
    then show "p \<noteq> 0" using p by (metis free_page_def)
    assume i: "p < identity_pages"
    then have "p < 2 ^ 40" by (simp add: identity_pages_def)
    from page_frame(2) [OF this] i show "mapped (vmem t) (of_nat p * PAGE_SIZE) 4096"
      by (intro mp) (simp add: identity_pages_def)
  qed
  show "level_of t v = (let (e, n) = walk boot_entries PML4_ADDR (path v) in if present e then Some n else None)"
    using lt(3) [of v] by (simp add: level_of_def r)
qed

end
