(* ===== verification/Boot.thy ===== *)
theory Boot
  imports Startup Repl
begin

text \<open>
  From the loader to the prompt: \<open>kernel_main\<close> step by step.  Each section takes one group of calls
  and carries along what the earlier ones have set up.
\<close>

section \<open>Memory\<close>

text \<open>The memory map: its entries do not wrap, and from 1 MB to 5 MB there is memory.\<close>

definition memory_map_ok :: "e820_entry list \<Rightarrow> bool" where
  "memory_map_ok mmap \<longleftrightarrow> (\<forall>e \<in> set mmap. entry_fits e) \<and> (\<forall>p. 256 \<le> p \<and> p < 1280 \<longrightarrow> (\<exists>e \<in> set mmap. in_entry e p))"

lemma top_of_memory_mono: "h \<le> top_of_memory es h"
  by (induction es arbitrary: h) (auto simp: Let_def intro: order_trans less_imp_le)

lemma top_of_memory_above:
  assumes "e \<in> set es" "e_type e = E820_USABLE"
  shows "e_base e + e_length e \<le> top_of_memory es h"
  using assms(1)
proof (induction es arbitrary: h)
  case (Cons a es)
  show ?case
  proof (cases "e = a")
    case True
    let ?h = "if e_base a + e_length a > h \<and> e_type a = E820_USABLE then e_base a + e_length a else h"
    have "e_base e + e_length e \<le> ?h" using True assms(2) by auto
    also have "?h \<le> top_of_memory es ?h" by (rule top_of_memory_mono)
    finally show ?thesis by (simp add: Let_def)
  qed (use Cons in \<open>simp add: Let_def\<close>)
qed simp

lemma total_pages_bound:
  assumes "memory_map_ok mmap"
  shows "1280 \<le> unat (min PMM_MAX_MEMORY (top_of_memory mmap 0) div PAGE_SIZE)"
proof -
  have "\<exists>e \<in> set mmap. in_entry e 1279" using assms unfolding memory_map_ok_def by (elim conjE allE [of _ 1279]) simp
  then obtain e where e: "e \<in> set mmap" "in_entry e 1279" by blast
  have f: "entry_fits e" using e assms by (simp add: memory_map_ok_def)
  have "unat (e_base e + e_length e) = unat (e_base e) + unat (e_length e)"
    using f by (intro unat_add_lem [THEN iffD1]) (simp add: entry_fits_def)
  then have "4096 * 1280 \<le> unat (e_base e + e_length e)" using e(2) by (simp add: in_entry_def)
  also have "\<dots> \<le> unat (top_of_memory mmap 0)"
    using top_of_memory_above [OF e(1), of 0] e(2) by (simp add: in_entry_def word_le_nat_alt)
  finally have "4096 * 1280 \<le> unat (min PMM_MAX_MEMORY (top_of_memory mmap 0))"
    by (simp add: min_def PMM_MAX_MEMORY_def)
  then show ?thesis by (simp add: unat_div PAGE_SIZE_def)
qed

text \<open>
  The pages in use: the first 512 KB, the kernel and the first page of the bitmap; at least \<open>c\<close>
  pages between bitmap and heap are free, from which tables are taken.
\<close>

definition pages_set :: "nat \<Rightarrow> 'a vmm_scheme \<Rightarrow> bool" where
  "pages_set c s \<longleftrightarrow> 1280 \<le> unat (pmm_total_pages s) \<and> {0..<128} \<union> {256..<513} \<subseteq> used s \<and>
     c \<le> card ({544..<768} - used s)"

definition pages_ready :: "nat \<Rightarrow> 'a vmm_scheme \<Rightarrow> bool" where
  "pages_ready c s \<longleftrightarrow> paging_ok s \<and> cr3 s = PML4_ADDR \<and> pages_set c s"

lemma pages_set_used:
  assumes T: "1280 \<le> unat (pmm_total_pages s)" "unat (pmm_total_pages s) \<le> 2 ^ 20" and m: "memory_map_ok mmap"
    and u: "used s = {p. p < unat (pmm_total_pages s) \<and>
      (\<not> (\<exists>e \<in> set mmap. in_entry e p) \<or> Pmm.reserved (unat (pmm_total_pages s)) p)}"
  shows "pages_set 224 s" "{1024..<1280} \<inter> used s = {}"
proof -
  let ?T = "unat (pmm_total_pages s)"
  have B: "((?T + 7) div 8 + 4095) div 4096 \<le> 32" "1 \<le> ((?T + 7) div 8 + 4095) div 4096"
  proof -
    have "1 \<le> (?T + 7) div 8" using T by simp
    have "((?T + 7) div 8 + 4095) div 4096 \<le> ((2 ^ 20 + 7) div 8 + 4095) div 4096" by (intro div_le_mono add_right_mono T)
    then show "((?T + 7) div 8 + 4095) div 4096 \<le> 32" by simp
    show "1 \<le> ((?T + 7) div 8 + 4095) div 4096" using \<open>1 \<le> (?T + 7) div 8\<close> by simp
  qed
  have e: "\<exists>e \<in> set mmap. in_entry e p" if "256 \<le> p" "p < 1280" for p using m that by (simp add: memory_map_ok_def)
  have fr: "p \<notin> used s" if "544 \<le> p" "p < 1280" for p
    using that B e [of p] by (auto simp: u Pmm.reserved_def)
  have "p \<in> used s" if "p < 128 \<or> 256 \<le> p \<and> p < 513" for p
    using that B T by (auto simp: u Pmm.reserved_def)
  then have "{0..<128} \<union> {256..<513} \<subseteq> used s" by auto
  moreover have "{544..<768} - used s = {544..<768}" using fr by auto
  then have "224 \<le> card ({544..<768} - used s)" by simp
  ultimately show "pages_set 224 s" using T by (simp add: pages_set_def)
  show "{1024..<1280} \<inter> used s = {}" using fr by auto
qed

lemma pages_ready_essence:
  fixes s t :: "'a kernel_scheme"
  shows "essence t = essence s \<Longrightarrow> pages_ready c t = pages_ready c s"
proof -
  have "pages_ready c t" if e: "essence t = essence s" and s: "pages_ready c s" for s t :: "'a kernel_scheme"
  proof -
    note q = essence_eq [OF e]
    have p: "pmm_ok s" using s by (simp add: pages_ready_def paging_ok_def)
    have t: "pmm_ok t" "used t = used s" using pmm_keep [OF p, of t] q by simp_all
    have "paging_ok t" using paging_keep(1) [of s t] t q s by (simp add: pages_ready_def)
    then show ?thesis using s t q by (simp add: pages_ready_def pages_set_def)
  qed
  from this [of t s] this [of s t] show "essence t = essence s \<Longrightarrow> pages_ready c t = pages_ready c s" by argo
qed

lemma heap_essence: "essence t = essence s \<Longrightarrow> heap_ok (t :: 'a kernel_scheme) bs = heap_ok s bs"
  using essence_eq [of t s] by (simp add: heap_ok_def)

text \<open>The addresses that the kernel maps later are not mapped by the loader.\<close>

lemma walk_level: "ks \<noteq> [] \<Longrightarrow> snd (walk f t ks) < length ks"
  by (induction f t ks rule: walk.induct) auto

lemma phys_addr_mapped: "phys_addr f root v = - 1 \<longleftrightarrow> \<not> present (fst (walk f root (path v)))"
proof -
  obtain e n where w: "walk f root (path v) = (e, n)" by (cases "walk f root (path v)")
  have "n < 4" using walk_level [of "path v" f root] w by (simp add: path_def)
  then have "\<not> bit (mask (12 + 9 * n) :: u64) 63" by (simp add: bit_mask_iff)
  moreover have "\<not> bit PTE_ADDR_MASK 63" by (simp add: PTE_ADDR_MASK_def)
  ultimately have "\<not> bit (frame_of e OR (v AND mask (12 + 9 * n))) 63" by (simp only: bit_or_iff bit_and_iff simp_thms)
  moreover have "bit (- 1 :: u64) 63" by simp
  ultimately have "frame_of e OR (v AND mask (12 + 9 * n)) \<noteq> - 1" by metis
  then show ?thesis using w by (simp add: phys_addr_def)
qed

lemma boot_small_pages:
  assumes "level_of t v = (let (e, n) = walk boot_entries PML4_ADDR (path v) in if present e then Some n else None)"
    "canonical v" "boot_phys v = - 1"
  shows "small_pages t v"
proof -
  have "\<not> present (fst (walk boot_entries PML4_ADDR (path v)))"
    using boot_translates [OF assms(2)] assms(3) phys_addr_mapped [of boot_entries PML4_ADDR v] by simp
  then show ?thesis using assms(1) by (simp add: small_pages_def split_beta Let_def)
qed

lemma pmm_init_boot:
  fixes s :: "'a kernel_scheme"
  assumes "loaded m s" "memory_map_ok mmap" "uart_answers dev SERIAL_COM1" "0 < n"
  shows "\<exists>t. pmm_init dev n mmap s = Inr t \<and> pages_ready 224 t \<and> small_pages t E1000_VIRT_BASE \<and> small_pages t DICT_VIRT_BASE \<and>
    {1024..<1280} \<inter> used t = {} \<and> changes bitmap_bytes (vmem s) (vmem t) \<and> buffers t = buffers s \<and> (\<forall>d. drive_after (ports t) d = drive_after (ports s) d)"
proof -
  have "mapped (vmem s) PMM_BITMAP_VIRT (2 ^ 17)"
    unfolding mapped_def
  proof (intro allI impI)
    fix i :: nat
    assume i: "i < 2 ^ 17"
    then have "unat (PMM_BITMAP_VIRT + of_nat i) = unat PMM_BITMAP_VIRT + i"
      by (intro unat_add_of_nat) (simp add: PMM_BITMAP_VIRT_def PMM_BITMAP_PHYS_def KERNEL_VIRT_BASE_def)
    moreover have "unat PMM_BITMAP_VIRT = unat KERNEL_VIRT_BASE + 0x200000"
      by (simp add: PMM_BITMAP_VIRT_def PMM_BITMAP_PHYS_def KERNEL_VIRT_BASE_def)
    ultimately show "vmem s (PMM_BITMAP_VIRT + of_nat i) \<noteq> None" using loaded_mapped(2) [OF assms(1)] i by simp
  qed
  from pmm_init_run [OF this, of mmap dev n] assms(2) obtain t where t: "pmm_init dev n mmap s = report_pages dev n t"
    "pmm_ok t" "pmm_setup s t" "pmm_total_pages t = min PMM_MAX_MEMORY (top_of_memory mmap 0) div PAGE_SIZE"
    "used t = {p. p < unat (pmm_total_pages t) \<and> (\<not> (\<exists>e \<in> set mmap. in_entry e p) \<or> Pmm.reserved (unat (pmm_total_pages t)) p)}"
    by (auto simp: memory_map_ok_def)
  let ?t = "t\<lparr>vmem := vmem s, pmm_total_memory := pmm_total_memory s, pmm_total_pages := pmm_total_pages s, pmm_used_pages := pmm_used_pages s\<rparr>"
  have eq: "?t = s" using t(3) unfolding pmm_setup_def by blast
  have f: "cr3 t = cr3 s" "buffers t = buffers s" "ports t = ports s"
    using arg_cong [OF eq, of cr3] arg_cong [OF eq, of buffers] arg_cong [OF eq, of ports] by simp_all
  have out: "unat x < 0x400000 \<Longrightarrow> vmem t x = vmem s x" for x
    using t(3) by (simp add: pmm_setup_def in_bitmap_def PMM_BITMAP_VIRT_def PMM_BITMAP_PHYS_def KERNEL_VIRT_BASE_def unat_sub_if')
  have ps: "pages_set 224 t" "{1024..<1280} \<inter> used t = {}"
    by (rule pages_set_used [OF _ _ assms(2) t(5)]; use total_pages_bound [OF assms(2)] t(2,4) in \<open>simp add: pmm_ok_def\<close>)+
  then have u: "{0..<128} \<subseteq> used t" by (simp add: pages_set_def)
  note lp = loaded_paging [OF assms(1) out f(1) t(2) u]
  have sm: "small_pages t E1000_VIRT_BASE" "small_pages t DICT_VIRT_BASE"
    by (rule boot_small_pages [OF lp(2)]; simp add: canonical_def boot_phys_def E1000_VIRT_BASE_def DICT_VIRT_BASE_def KERNEL_VIRT_BASE_def)+
  have ready: "pages_ready 224 t" using lp(1) ps(1) f(1) assms(1) by (simp add: pages_ready_def loaded_def)
  have ch: "changes bitmap_bytes (vmem s) (vmem t)" using t(3) bitmap_bytes_iff by (auto simp: pmm_setup_def changes_def)
  have "\<exists>u. report_pages dev n t = Inr u \<and> essence u = essence t"
  proof (intro log_then [OF assms(3,4)])
    show "\<exists>s'. serial_puts dev n SERIAL_COM1 (str ''\<newline>'') t4 = Inr s' \<and> essence s' = essence t"
      if "essence t1 = essence t" "essence t2 = essence t1" "essence t3 = essence t2" "essence t4 = essence t3" for t1 t2 t3 t4
      using essence_serial(1) [OF assms(3,4)] that by metis
  qed
  then obtain u where u: "report_pages dev n t = Inr u" "essence u = essence t" by blast
  note q = essence_eq [OF u(2)]
  have uu: "used u = used t" using pmm_keep(2) [OF t(2), of u] q by simp
  have "small_pages u v = small_pages t v" for v
    using paging_keep(3) [of t u v] pmm_keep [OF t(2), of u] q lp(1) by (simp add: small_pages_def)
  then show ?thesis using t(1) u q f ready sm ch uu ps(2) pages_ready_essence [OF u(2)] by (intro exI [of _ u]) simp
qed


lemma small_pages_essence:
  fixes s t :: "'a kernel_scheme"
  assumes "paging_ok s" "essence t = essence s"
  shows "small_pages t v = small_pages s v"
proof -
  note q = essence_eq [OF assms(2)]
  have p: "pmm_ok t" "used t = used s" using pmm_keep [of s t] q assms(1) by (simp_all add: paging_ok_def)
  show ?thesis using paging_keep(3) [of s t v] p q assms(1) by (simp add: small_pages_def)
qed

lemma heap_init_boot:
  fixes s :: "'a kernel_scheme"
  assumes "pages_ready c s" "mapped_range (vmem s) HEAP_LO HEAP_HI" "uart_answers dev SERIAL_COM1" "0 < n"
  shows "\<exists>t. heap_init dev n s = Inr t \<and> heap_ok t [initial_block] \<and> pages_ready c t \<and> {768..<1024} \<subseteq> used t \<and>
    {1024..<1280} \<inter> used t = {1024..<1280} \<inter> used s \<and> (\<forall>v. small_pages s v \<longrightarrow> small_pages t v) \<and> changes (bitmap_bytes \<union> heap_bytes) (vmem s) (vmem t) \<and>
    buffers t = buffers s \<and> (\<forall>d. drive_after (ports t) d = drive_after (ports s) d)"
proof -
  have pok: "paging_ok s" and ps: "pages_set c s" and cr: "cr3 s = PML4_ADDR" using assms(1) by (simp_all add: pages_ready_def)
  then have "pmm_ok s" by (simp add: paging_ok_def)
  from heap_init_run [OF this assms(2), of dev n] obtain p t where t: "heap_init dev n s = report_heap dev n t"
    "heap_ok t [initial_block]" "pmm_ok p" "pmm_frame s p"
    "used p = used s \<union> ({768..<1024} \<inter> {..<unat (pmm_total_pages s)})"
    "only_in HEAP_LO HEAP_HI (p\<lparr>heap_head := heap_head t, heap_end := heap_end t, heap_total := heap_total t, heap_used := heap_used t\<rparr>) t"
    by blast
  let ?p = "p\<lparr>vmem := vmem s, pmm_used_pages := pmm_used_pages s\<rparr>"
  let ?t = "t\<lparr>vmem := vmem p\<rparr>"
  have e1: "?p = s" using t(4) unfolding pmm_frame_def by blast
  have e2: "?t = p\<lparr>heap_head := heap_head t, heap_end := heap_end t, heap_total := heap_total t, heap_used := heap_used t\<rparr>"
    using t(6) unfolding only_in_def by simp
  have f: "cr3 t = cr3 s" "buffers t = buffers s" "ports t = ports s" "pmm_total_pages t = pmm_total_pages s" "pmm_used_pages t = pmm_used_pages p"
    using arg_cong [OF e1, of cr3] arg_cong [OF e1, of buffers] arg_cong [OF e1, of ports] arg_cong [OF e1, of pmm_total_pages]
      arg_cong [OF e2, of cr3] arg_cong [OF e2, of buffers] arg_cong [OF e2, of ports] arg_cong [OF e2, of pmm_total_pages]
      arg_cong [OF e2, of pmm_used_pages] by simp_all
  have ch1: "changes bitmap_bytes (vmem s) (vmem p)" using t(4) bitmap_bytes_iff by (auto simp: pmm_frame_def changes_def)
  have ch2: "changes heap_bytes (vmem p) (vmem t)" using t(6) by (auto simp: only_in_def changes_def heap_bytes_def)
  have ch: "changes (bitmap_bytes \<union> heap_bytes) (vmem s) (vmem t)"
    using changes_trans [OF changes_mono [OF ch1] changes_mono [OF ch2]] by blast
  have bt: "in_bitmap x \<Longrightarrow> vmem t x = vmem p x" for x
    using ch2 regions_apart(3) bitmap_bytes_iff by (auto simp: changes_def)
  have T: "pmm_total_pages p = pmm_total_pages s" using arg_cong [OF e1, of pmm_total_pages] by simp
  have pt: "pmm_ok t" "used t = used p" using pmm_keep [OF t(3) bt] f T by simp_all
  have low: "unat x < 2 ^ 52 \<Longrightarrow> vmem t x = vmem s x" for x
    using ch regions_apart(1,2) by (auto simp: changes_def low_memory_def)
  have map: "vmem s x \<noteq> None \<Longrightarrow> vmem t x \<noteq> None" for x using ch by (simp add: changes_def)
  have us: "used s \<subseteq> used t" using pt(2) t(5) by blast
  note k = paging_keep [OF pok pt(1) f(4) us f(1) map low]
  have hp: "{768..<1024} \<subseteq> used t" using pt(2) t(5) ps by (auto simp: pages_set_def)
  have un: "{544..<768} - used t = {544..<768} - used s" "{1024..<1280} \<inter> used t = {1024..<1280} \<inter> used s" using pt(2) t(5) by auto
  then have "pages_set c t" using ps f(4) us by (auto simp: pages_set_def)
  then have ready: "pages_ready c t" using k(1) f(1) cr by (simp add: pages_ready_def)
  have "\<exists>u. report_heap dev n t = Inr u \<and> essence u = essence t"
  proof (intro log_then [OF assms(3,4)])
    show "\<exists>s'. serial_puts dev n SERIAL_COM1 (str '', size=1MB\<newline>'') t2 = Inr s' \<and> essence s' = essence t"
      if "essence t1 = essence t" "essence t2 = essence t1" for t1 t2
      using essence_serial(1) [OF assms(3,4)] that by metis
  qed
  then obtain u where u: "report_heap dev n t = Inr u" "essence u = essence t" by blast
  note q = essence_eq [OF u(2)]
  have "used u = used t" using pmm_keep(2) [OF pt(1), of u] q by simp
  then show ?thesis
    using t(1,2) u(1) ready hp un(2) ch q f k(3) small_pages_essence [OF k(1) u(2)] pages_ready_essence [OF u(2)] heap_essence [OF u(2)]
    by (intro exI [of _ u]) (simp add: small_pages_def)
qed


lemma vmm_init_boot:
  fixes s :: "'a kernel_scheme"
  assumes "uart_answers dev SERIAL_COM1" "0 < n"
  shows "\<exists>t. vmm_init dev n s = Inr t \<and> essence t = essence s"
  unfolding vmm_init_def
proof (intro log_then [OF assms])
  show "\<exists>s'. serial_puts dev n SERIAL_COM1 (str ''\<newline>'') t3 = Inr s' \<and> essence s' = essence s"
    if "essence t1 = essence s" "essence t2 = essence t1" "essence t3 = essence t2" for t1 t2 t3
    using essence_serial(1) [OF assms] that by metis
qed

lemma print_boot_info_boot:
  fixes s :: "'a kernel_scheme"
  assumes "uart_answers dev SERIAL_COM1" "0 < n"
  shows "\<exists>t. print_boot_info dev n a mem_count mem_map s = Inr t \<and> essence t = essence s"
  unfolding print_boot_info_def Let_def by (intro log_then [OF assms]) simp

text \<open>The region of the heap and the cache of the block device in the loader's address space.\<close>

lemma loaded_regions:
  assumes "loaded m s"
  shows "mapped_range (vmem s) HEAP_LO HEAP_HI" "mapped (vmem s) (buffers s) 8320" "unat (buffers s) + 8320 \<le> 2 ^ 64"
proof -
  have K: "unat KERNEL_VIRT_BASE = 0xFFFF800000000000" by (simp add: KERNEL_VIRT_BASE_def)
  have i: "image_cache s" using assms by (simp add: loaded_def)
  then show b: "unat (buffers s) + 8320 \<le> 2 ^ 64" by (simp add: image_cache_def K)
  show "mapped (vmem s) (buffers s) 8320"
    unfolding mapped_def
  proof (intro allI impI)
    fix j :: nat
    assume j: "j < 8320"
    then have "unat (buffers s + of_nat j) = unat (buffers s) + j" using b by (intro unat_add_of_nat) simp
    then show "vmem s (buffers s + of_nat j) \<noteq> None"
      using i j by (intro loaded_mapped(2) [OF assms]) (simp_all add: image_cache_def)
  qed
  show "mapped_range (vmem s) HEAP_LO HEAP_HI"
    unfolding mapped_range_def
    using loaded_mapped(2) [OF assms] by (simp add: HEAP_LO_def HEAP_HI_def K)
qed

lemma mapped_changes: "mapped m a n \<Longrightarrow> changes A m m' \<Longrightarrow> mapped m' a n"
  by (simp add: mapped_def changes_def)

lemma boot_memory_ok:
  fixes s :: "'a kernel_scheme"
  assumes "loaded m s" "memory_map_ok (take (unat (ucast mem_count :: u32)) mem_map)"
    and "uart_answers (devices (platform_of B)) SERIAL_COM1" "0 < loop_bound (platform_of B)"
  shows "\<exists>t. boot_memory B mem_count mem_map s = Inr t \<and> heap_ok t [initial_block] \<and> pages_ready 224 t \<and> {768..<1024} \<subseteq> used t \<and> {1024..<1280} \<inter> used t = {} \<and>
    small_pages t E1000_VIRT_BASE \<and> small_pages t DICT_VIRT_BASE \<and> changes (bitmap_bytes \<union> heap_bytes) (vmem s) (vmem t) \<and>
    buffers t = buffers s \<and> (\<forall>d. drive_after (ports t) d = drive_after (ports s) d)"
proof -
  let ?dev = "devices (platform_of B)" and ?n = "loop_bound (platform_of B)"
  let ?s1 = "serial_init ?dev SERIAL_COM1 (vga_init ?dev s)"
  obtain s2 where s2: "print_boot_info ?dev ?n (main_addr B) mem_count mem_map ?s1 = Inr s2" "essence s2 = essence s"
    using print_boot_info_boot [OF assms(3,4), of "main_addr B" mem_count mem_map ?s1] by auto
  let ?s3 = "vga_puts (str ''[*] Initializing PMM...\<newline>'') (vga_puts (str ''[+] IDT initialized\<newline>'')
    (idt_init (isr_stub B) (irq_stub B) (idt_addr B) (vga_puts (str ''[*] Initializing IDT...\<newline>'') s2)))"
  have e3: "essence ?s3 = essence s" using s2(2) by simp
  note q3 = essence_eq [OF e3]
  have l3: "loaded m ?s3" using loaded_essence [OF e3] assms(1) by blast
  obtain s4 where s4: "pmm_init ?dev ?n (take (unat (ucast mem_count :: u32)) mem_map) ?s3 = Inr s4" "pages_ready 224 s4"
    "small_pages s4 E1000_VIRT_BASE" "small_pages s4 DICT_VIRT_BASE" "{1024..<1280} \<inter> used s4 = {}"
    "changes bitmap_bytes (vmem s) (vmem s4)" "buffers s4 = buffers s" "\<forall>d. drive_after (ports s4) d = drive_after (ports s) d"
    using pmm_init_boot [OF l3 assms(2-4)] unfolding q3 by blast
  let ?s5 = "vga_puts (str ''[*] Initializing VMM...\<newline>'') (vga_puts (str ''[+] PMM initialized\<newline>'') s4)"
  obtain s6 where s6: "vmm_init ?dev ?n ?s5 = Inr s6" "essence s6 = essence s4"
    using vmm_init_boot [OF assms(3,4), of ?s5] by auto
  let ?s7 = "vga_puts (str ''[*] Initializing heap...\<newline>'') (vga_puts (str ''[+] VMM initialized\<newline>'') s6)"
  have e7: "essence ?s7 = essence s4" using s6(2) by simp
  note q7 = essence_eq [OF e7]
  have r7: "pages_ready 224 ?s7" using pages_ready_essence [OF e7] s4(2) by blast
  have pok: "paging_ok s4" using s4(2) by (simp add: pages_ready_def)
  have "mapped_range (vmem s4) HEAP_LO HEAP_HI"
    using loaded_regions(1) [OF assms(1)] s4(6) by (simp add: mapped_range_def changes_def)
  then have "mapped_range (vmem ?s7) HEAP_LO HEAP_HI" unfolding q7 .
  from heap_init_boot [OF r7 this assms(3,4)] obtain s8 where s8: "heap_init ?dev ?n ?s7 = Inr s8" "heap_ok s8 [initial_block]"
    "pages_ready 224 s8" "{768..<1024} \<subseteq> used s8" "{1024..<1280} \<inter> used s8 = {1024..<1280} \<inter> used ?s7" "\<forall>v. small_pages ?s7 v \<longrightarrow> small_pages s8 v"
    "changes (bitmap_bytes \<union> heap_bytes) (vmem s4) (vmem s8)" "buffers s8 = buffers s4"
    "\<forall>d. drive_after (ports s8) d = drive_after (ports s4) d" unfolding q7 by blast
  let ?t = "vga_puts (str ''[+] Heap initialized\<newline>'') s8"
  have et: "essence ?t = essence s8" by simp
  note qt = essence_eq [OF et]
  have p8: "paging_ok s8" using s8(3) by (simp add: pages_ready_def)
  have sm: "small_pages ?t v" if "small_pages s4 v" for v
    using that s8(6) small_pages_essence [OF pok e7] small_pages_essence [OF p8 et] by blast
  have "used ?t = used s8" using pmm_keep(2) [of s8 ?t] qt p8 by (simp add: paging_ok_def)
  moreover have "used ?s7 = used s4" using pmm_keep(2) [of s4 ?s7] q7 pok by (simp add: paging_ok_def)
  moreover have "changes (bitmap_bytes \<union> heap_bytes) (vmem s) (vmem s8)"
    using changes_trans [OF changes_mono [OF s4(6)] s8(7)] by blast
  moreover have "boot_memory B mem_count mem_map s = Inr ?t"
    unfolding boot_memory_def Let_def using s2(1) s4(1) s6(1) s8(1) by simp
  ultimately show ?thesis
    using s8(2,3,4,5,8,9) s4(3,4,5,7,8) sm qt pages_ready_essence [OF et] heap_essence [OF et]
    by (intro exI [of _ ?t]) simp
qed


section \<open>Steps after the heap is there\<close>

text \<open>Steps that write to memory in \<open>A\<close> at most and leave heap, tasks and block cache as they are.\<close>

definition spares :: "nat set \<Rightarrow> 'a kernel_scheme \<Rightarrow> 'a kernel_scheme \<Rightarrow> bool" where
  "spares A s t \<longleftrightarrow> changes A (vmem s) (vmem t) \<and> heap_head t = heap_head s \<and> heap_used t = heap_used s \<and>
     current_task t = current_task s \<and> task_list t = task_list s \<and> buffers t = buffers s \<and>
     (\<forall>d. drive_after (ports t) d = drive_after (ports s) d)"

lemma spares_essence: "essence t = essence s \<Longrightarrow> spares A s t"
  using essence_eq [of t s] by (simp add: spares_def changes_def)

lemma spares_trans: "spares A s t \<Longrightarrow> spares A t u \<Longrightarrow> spares A s u"
  using changes_trans [of A "vmem s" "vmem t" "vmem u"] by (simp add: spares_def)

lemma spares_mono: "spares A s t \<Longrightarrow> A \<subseteq> B \<Longrightarrow> spares B s t"
  using changes_mono [of A "vmem s" "vmem t" B] by (simp add: spares_def)

lemma spares_heap: "heap_ok s bs \<Longrightarrow> spares A s t \<Longrightarrow> A \<inter> heap_bytes = {} \<Longrightarrow> heap_ok t bs"
  using heap_keep [of s bs A t] by (simp add: spares_def)

lemma spares_tasking:
  "tasking s as b r ts \<Longrightarrow> spares A s t \<Longrightarrow> A \<inter> heap_bytes = {} \<Longrightarrow> tasking t as b r ts \<and> queue t ts = queue s ts"
  using tasking_keep [of s as b r ts A t] by (simp add: spares_def)

lemma spares_serves: "serves d B s \<Longrightarrow> spares A s t \<Longrightarrow> A \<inter> cache_bytes s = {} \<Longrightarrow> serves d B t"
  using serves_keep [of d B s A t] by (simp add: spares_def)

text \<open>Everything but the heap and the cache, which lies in the kernel's image.\<close>

definition elsewhere :: "'a block_cache_scheme \<Rightarrow> nat set" where
  "elsewhere s = - (heap_bytes \<union> cache_bytes s)"

lemma elsewhere_apart: "elsewhere s \<inter> heap_bytes = {}" "elsewhere s \<inter> cache_bytes s = {}"
  by (auto simp: elsewhere_def)

text \<open>A page table walk that ends in a present entry gives an address.\<close>

lemma reload_keeps: "m v \<noteq> None \<Longrightarrow> reload dram root m v = m v"
  by (auto simp: reload_def)

lemma reload_present: "canonical v \<Longrightarrow> phys_addr (pte m) root v \<noteq> - 1 \<Longrightarrow> reload dram root m v \<noteq> None"
  by (auto simp: reload_def split: option.splits)

lemma frame_present: "frame_of a OR (v AND mask 12) \<noteq> - 1"
proof -
  have "\<not> bit (mask 12 :: u64) 63" "\<not> bit PTE_ADDR_MASK 63" by (simp_all add: bit_mask_iff PTE_ADDR_MASK_def)
  then have "\<not> bit (frame_of a OR (v AND mask 12)) 63" by (simp only: bit_or_iff bit_and_iff simp_thms)
  moreover have "bit (- 1 :: u64) 63" by simp
  ultimately show ?thesis by metis
qed

text \<open>A new range of pages, and the reload of \<open>cr3\<close> after it.\<close>

lemma tables_kept:
  assumes "grown 3 s t" "pages_set c s" "3 < c"
  shows "pages_set (c - 3) t" "used t - used s \<subseteq> {..<1024}"
proof -
  have g: "used s \<subseteq> used t" "card (used t - used s) \<le> 3" "\<forall>q \<in> used t - used s. {..<q} \<subseteq> used t" "tables_only s t"
    using assms(1) by (simp_all add: grown_def)
  let ?t = "t\<lparr>vmem := vmem s, pmm_used_pages := pmm_used_pages s\<rparr>"
  have eq: "?t = s" using g(4) unfolding tables_only_def by blast
  have T: "pmm_total_pages t = pmm_total_pages s" using arg_cong [OF eq, of pmm_total_pages] by simp
  let ?F = "\<lambda>u. {544..<768} - used u"
  have fin: "finite (used t)" by (rule finite_subset [of _ "{..<unat (pmm_total_pages t)}"]) (auto simp: used_def)
  have "?F s \<subseteq> ?F t \<union> (used t - used s)" by auto
  then have "card (?F s) \<le> card (?F t \<union> (used t - used s))" by (rule card_mono [rotated]) (use fin in simp)
  also have "\<dots> \<le> card (?F t) + card (used t - used s)" by (rule card_Un_le)
  finally have c: "card (?F s) \<le> card (?F t) + 3" using g(2) by linarith
  then show "pages_set (c - 3) t" using assms(2) T g(1) by (auto simp: pages_set_def)
  show "used t - used s \<subseteq> {..<1024}"
  proof
    fix q
    assume q: "q \<in> used t - used s"
    have "\<not> 1024 \<le> q"
    proof
      assume "1024 \<le> q"
      then have "{544..<768} \<subseteq> {..<q}" by (intro subsetI) simp
      also have "{..<q} \<subseteq> used t" using g(3) q by blast
      finally have "{544..<768} \<subseteq> used t" .
      then have "?F t = {}" by blast
      then have "card (?F t) = 0" by (simp only: card.empty)
      then show False using c assms(2,3) unfolding pages_set_def by linarith
    qed
    then show "q \<in> {..<1024}" by simp
  qed
qed

lemma map_and_reload:
  fixes s :: "'a kernel_scheme"
  assumes "pages_ready c s" "3 < c" "small_pages s virt" "in_region virt n" "0 < n" "flags AND PTE_ADDR_MASK = 0"
    and high: "\<forall>x < n * 4096. canonical (virt + of_nat x)"
    and mp: "mapped_range (vmem s) HEAP_LO HEAP_HI" "mapped (vmem s) (buffers s) 8320" "image_cache s"
  shows "\<exists>t. vmm_map_range virt phys (of_nat n * PAGE_SIZE) flags s = Inr (0, t) \<and>
    (let u = t\<lparr>vmem := reload dram PML4_ADDR (vmem t)\<rparr> in
       pages_ready (c - 3) u \<and> used s \<subseteq> used u \<and> used u - used s \<subseteq> {..<1024} \<and> (\<forall>v. small_pages s v \<longrightarrow> small_pages u v) \<and>
       mapped (vmem u) virt (n * 4096) \<and> spares (elsewhere s) s u \<and> pmm_total_pages u = pmm_total_pages s \<and>
       control u = control s \<and> dict_base u = dict_base s \<and> dict_here u = dict_here s \<and> dict_latest u = dict_latest s \<and>
       (\<forall>x < n * 4096. translation u (virt + of_nat x) =
         frame_of (phys + of_nat (x div 4096) * PAGE_SIZE) OR ((virt + of_nat x) AND mask 12)))"
proof -
  have pok: "paging_ok s" and ps: "pages_set c s" and cr: "cr3 s = PML4_ADDR" using assms(1) by (simp_all add: pages_ready_def)
  have low: "3 \<le> card ({..<low_pages s} - used s)"
  proof -
    have "1280 div 32 \<le> unat (pmm_total_pages s) div 32" by (rule div_le_mono) (use ps in \<open>simp add: pages_set_def\<close>)
    then have "1024 \<le> searched s" by (simp add: searched_def)
    then have "{544..<768} - used s \<subseteq> {..<low_pages s} - used s" by (auto simp: low_pages_def identity_pages_def)
    then have "card ({544..<768} - used s) \<le> card ({..<low_pages s} - used s)" by (rule card_mono [rotated]) simp
    then show ?thesis using ps assms(2) by (simp add: pages_set_def)
  qed
  from map_range_runs [OF assms(4,5) pok assms(3,6) low, of phys] obtain t where
    t: "vmm_map_range virt phys (of_nat n * PAGE_SIZE) flags s = Inr (0, t)" "paging_ok t" "grown 3 s t"
      "\<forall>x < n * 4096. translation t (virt + of_nat x) =
         frame_of (phys + of_nat (x div 4096) * PAGE_SIZE) OR ((virt + of_nat x) AND mask 12)" by blast
  have g: "used s \<subseteq> used t" "tables_only s t" "\<forall>v. small_pages s v \<longrightarrow> small_pages t v" using t(3) by (simp_all add: grown_def)
  let ?t = "t\<lparr>vmem := vmem s, pmm_used_pages := pmm_used_pages s\<rparr>"
  have eq: "?t = s" using g(2) unfolding tables_only_def by blast
  have f: "cr3 t = cr3 s" "buffers t = buffers s" "ports t = ports s" "pmm_total_pages t = pmm_total_pages s"
    "heap_head t = heap_head s" "heap_used t = heap_used s" "current_task t = current_task s" "task_list t = task_list s"
    "control t = control s" "dict_base t = dict_base s" "dict_here t = dict_here s" "dict_latest t = dict_latest s"
    using arg_cong [OF eq, of cr3] arg_cong [OF eq, of buffers] arg_cong [OF eq, of ports] arg_cong [OF eq, of pmm_total_pages]
      arg_cong [OF eq, of heap_head] arg_cong [OF eq, of heap_used] arg_cong [OF eq, of current_task] arg_cong [OF eq, of task_list]
      arg_cong [OF eq, of control] arg_cong [OF eq, of dict_base] arg_cong [OF eq, of dict_here] arg_cong [OF eq, of dict_latest]
    by (simp_all add: control_def)
  let ?u = "t\<lparr>vmem := reload dram PML4_ADDR (vmem t)\<rparr>"
  have same: "vmem t x \<noteq> None \<Longrightarrow> vmem ?u x = vmem t x" for x by (simp add: reload_keeps)
  have pt: "pmm_ok t" using t(2) by (simp add: paging_ok_def)
  have pu: "pmm_ok ?u" "used ?u = used t" using pmm_keep [OF pt, of ?u] same by simp_all
  have k: "paging_ok ?u" "translation ?u v = translation t v" "level_of ?u v = level_of t v" for v
    by (rule paging_keep [OF t(2) pu(1)]; use pu(2) same in simp)+
  have ps3: "pages_set (c - 3) ?u" using tables_kept(1) [OF t(3) ps assms(2)] pu(2) by (simp add: pages_set_def)
  have ready: "pages_ready (c - 3) ?u" using k(1) ps3 f(1) cr by (simp add: pages_ready_def)
  have root: "get_pml4 t = PML4_ADDR" using f(1) cr by (simp add: get_pml4_def PML4_ADDR_def PTE_ADDR_MASK_def)
  have new: "mapped (vmem ?u) virt (n * 4096)"
    unfolding mapped_def
  proof (intro allI impI)
    fix x
    assume x: "x < n * 4096"
    have "phys_addr (entries_of t) (get_pml4 t) (virt + of_nat x) \<noteq> - 1"
      using t(4) x frame_present by (simp add: translation_def)
    then show "vmem ?u (virt + of_nat x) \<noteq> None" using reload_present [of "virt + of_nat x"] high x unfolding root by simp
  qed
  have "changes (elsewhere s) (vmem s) (vmem ?u)"
    unfolding changes_def
  proof (intro conjI allI impI)
    have hi: "vmem t x = vmem s x" if "unat x \<notin> low_memory" "unat x \<notin> bitmap_bytes" for x
      using g(2) that bitmap_bytes_iff by (simp add: tables_only_def low_memory_def)
    have st: "vmem s x \<noteq> None \<Longrightarrow> vmem t x \<noteq> None" for x using g(2) by (simp add: tables_only_def)
    fix x
    show "vmem s x \<noteq> None \<Longrightarrow> vmem ?u x \<noteq> None" using st same by metis
    assume "unat x \<notin> elsewhere s"
    then have x: "unat x \<in> heap_bytes \<union> cache_bytes s" by (simp add: elsewhere_def)
    then have "unat x \<notin> low_memory" "unat x \<notin> bitmap_bytes" using regions_apart mp(3) by blast+
    moreover from x have "vmem s x \<noteq> None"
    proof
      assume "unat x \<in> heap_bytes"
      then show ?thesis using mp(1) by (simp add: mapped_range_def heap_bytes_def)
    next
      assume c: "unat x \<in> cache_bytes s"
      then have "buffers s + of_nat (unat x - unat (buffers s)) = x"
        by (simp add: cache_bytes_def of_nat_diff)
      moreover have "unat x - unat (buffers s) < 8320" using c by (auto simp: cache_bytes_def)
      ultimately show ?thesis using mp(2) unfolding mapped_def by metis
    qed
    ultimately show "vmem ?u x = vmem s x" using hi same by metis
  qed
  then have sp: "spares (elsewhere s) s ?u" using f by (simp add: spares_def)
  show ?thesis
    using t(1,4) ready g(1,3) pu(2) tables_kept(2) [OF t(3) ps assms(2)] k(2,3) new sp f
    by (intro exI [of _ t]) (simp add: Let_def small_pages_def control_def)
qed


section \<open>Devices\<close>

text \<open>What holds between heap and scheduler.\<close>

definition devices_up :: "drive \<Rightarrow> (u32 \<Rightarrow> u8 list) \<Rightarrow> hblock list \<Rightarrow> nat \<Rightarrow> 'a kernel_scheme \<Rightarrow> bool" where
  "devices_up d B bs c s \<longleftrightarrow> pages_ready c s \<and> {768..<1024} \<subseteq> used s \<and> {1024..<1280} \<inter> used s = {} \<and>
     small_pages s DICT_VIRT_BASE \<and> heap_ok s bs \<and> image_cache s \<and> serves d B s"

text \<open>The block cache changes its own buffers.\<close>

lemma cache_mapped:
  assumes "serves d B s"
  shows "mapped (vmem s) (buffers s) 8320"
proof -
  obtain bfs where b: "holds_buffers bfs s" using assms by (auto simp: serves_def cached_def)
  show ?thesis
    unfolding mapped_def
  proof (intro allI impI)
    fix j :: nat
    assume j: "j < 8320"
    have i: "j div 1040 < 8" using j by (simp add: div_less_iff_less_mult)
    have "rd_bytes (vmem s) (buf_addr (j div 1040) s) 1040 = Inr (buffer_bytes (bfs ! (j div 1040)))"
      using b i by (simp add: holds_buffers_def)
    then have "vmem s (buf_addr (j div 1040) s + of_nat (j mod 1040)) \<noteq> None" unfolding rd_bytes_eq_Inr by simp
    moreover have "buf_addr (j div 1040) s + of_nat (j mod 1040) = buffers s + of_nat (1040 * (j div 1040) + j mod 1040)"
      by (simp only: buf_addr_def of_nat_add of_nat_mult of_nat_numeral ac_simps)
    ultimately show "vmem s (buffers s + of_nat j) \<noteq> None" by simp
  qed
qed

lemma only_cache_changes:
  fixes s t :: "'a kernel_scheme"
  assumes "only_cache s t" "serves d B t" "image_cache s"
  shows "changes (cache_bytes s) (vmem s) (vmem t)"
proof -
  let ?t = "t\<lparr>vmem := vmem s, ports := ports s, most_recent_buffer := most_recent_buffer s\<rparr>"
  have eq: "?t = s" and out: "outside_same (buffers s) (vmem s) (vmem t)" using assms(1) by (simp_all add: only_cache_def)
  have b: "buffers t = buffers s" using arg_cong [OF eq, of buffers] by simp
  have m: "mapped (vmem t) (buffers s) 8320" using cache_mapped [OF assms(2)] b by simp
  have ub: "unat (buffers s) + 8320 \<le> 2 ^ 64" using assms(3) by (simp add: image_cache_def KERNEL_VIRT_BASE_def)
  show "changes (cache_bytes s) (vmem s) (vmem t)"
    unfolding changes_def
  proof (intro conjI allI impI)
    fix x
    have o: "vmem t x = vmem s x" if "unat x \<notin> cache_bytes s" for x
    proof -
      have "8320 \<le> unat (x - buffers s)" using that ub by (auto simp: cache_bytes_def unat_sub_if')
      then show ?thesis using out by (simp add: outside_same_def)
    qed
    then show "unat x \<notin> cache_bytes s \<Longrightarrow> vmem t x = vmem s x" .
    assume x: "vmem s x \<noteq> None"
    show "vmem t x \<noteq> None"
    proof (cases "unat x \<in> cache_bytes s")
      case True
      then have "buffers s + of_nat (unat x - unat (buffers s)) = x" by (simp add: cache_bytes_def of_nat_diff)
      moreover have "unat x - unat (buffers s) < 8320" using True by (auto simp: cache_bytes_def)
      ultimately show ?thesis using m unfolding mapped_def by metis
    qed (use o x in simp)
  qed
qed

text \<open>Pages and heap do not depend on the cache.\<close>

lemma cache_step:
  fixes s t :: "'a kernel_scheme"
  assumes "only_cache s t" "serves d B t" "image_cache s" "pages_ready c s" "heap_ok s bs"
  shows "pages_ready c t" "used t = used s" "heap_ok t bs" "image_cache t" "small_pages t v = small_pages s v"
proof -
  note oc = only_cache_changes [OF assms(1-3)]
  let ?t = "t\<lparr>vmem := vmem s, ports := ports s, most_recent_buffer := most_recent_buffer s\<rparr>"
  have eq: "?t = s" using assms(1) by (simp add: only_cache_def)
  have f: "cr3 t = cr3 s" "buffers t = buffers s" "pmm_total_pages t = pmm_total_pages s" "pmm_used_pages t = pmm_used_pages s"
    "heap_head t = heap_head s" "heap_used t = heap_used s"
    using arg_cong [OF eq, of cr3] arg_cong [OF eq, of buffers] arg_cong [OF eq, of pmm_total_pages] arg_cong [OF eq, of pmm_used_pages]
      arg_cong [OF eq, of heap_head] arg_cong [OF eq, of heap_used] by simp_all
  have pok: "paging_ok s" using assms(4) by (simp add: pages_ready_def)
  have bm: "in_bitmap x \<Longrightarrow> vmem t x = vmem s x" for x
    using oc regions_apart(5) [OF assms(3)] bitmap_bytes_iff by (auto simp: changes_def)
  have low: "unat x < 2 ^ 52 \<Longrightarrow> vmem t x = vmem s x" for x
    using oc regions_apart(4) [OF assms(3)] by (auto simp: changes_def low_memory_def)
  have mp: "vmem s x \<noteq> None \<Longrightarrow> vmem t x \<noteq> None" for x using oc by (simp add: changes_def)
  have p: "pmm_ok t" "used t = used s" using pmm_keep [of s t] bm f pok by (simp_all add: paging_ok_def)
  then show "used t = used s" by simp
  note k = paging_keep [OF pok p(1) f(3) _ f(1) mp low]
  show "pages_ready c t" using k(1) p(2) f assms(4) by (simp add: pages_ready_def pages_set_def)
  show "small_pages t v = small_pages s v" using k(3) p(2) by (simp add: small_pages_def)
  show "heap_ok t bs" using heap_keep [OF assms(5) oc regions_apart(6) [OF assms(3)] f(5,6)] .
  show "image_cache t" using assms(3) f(2) by (simp add: image_cache_def)
qed


lemma devices_up_essence:
  fixes s t :: "'a kernel_scheme"
  assumes "devices_up d B bs c s" "essence t = essence s"
  shows "devices_up d B bs c t"
proof -
  note q = essence_eq [OF assms(2)]
  have s: "pages_ready c s" "small_pages s DICT_VIRT_BASE" "image_cache s" "serves d B s" "heap_ok s bs"
    "{768..<1024} \<subseteq> used s" "{1024..<1280} \<inter> used s = {}" using assms(1) by (simp_all add: devices_up_def)
  have pok: "paging_ok s" using s(1) by (simp add: pages_ready_def)
  have "used t = used s" using pmm_keep(2) [of s t] q pok by (simp add: paging_ok_def)
  moreover have "serves d B t" by (rule spares_serves [OF s(4) spares_essence [OF assms(2), of "{}"]]) simp
  moreover have "image_cache t" using s(3) q by (simp add: image_cache_def)
  ultimately show ?thesis
    using s pages_ready_essence [OF assms(2)] small_pages_essence [OF pok assms(2)] heap_essence [OF assms(2)] by (simp add: devices_up_def)
qed

lemma essence_mac [simp]: "essence (print_mac is s) = essence s"
  by (induction "is" arbitrary: s) (simp_all add: Let_def)

lemma pages_ready_mono: "pages_ready c s \<Longrightarrow> c' \<le> c \<Longrightarrow> pages_ready c' s"
  by (simp add: pages_ready_def pages_set_def)

lemma e1000_init_boot:
  fixes s :: "'a kernel_scheme"
  assumes "devices_up d B bs 224 s" "small_pages s E1000_VIRT_BASE"
  shows "\<exists>t. e1000_init (reload dram PML4_ADDR) s = Inr t \<and> devices_up d B bs 221 t"
proof (cases "e1000_bar0 s = 0")
  case True
  then show ?thesis using assms pages_ready_mono [of 224 s 221]
    by (simp add: e1000_init_def pci_get_e1000_bar0_def devices_up_def)
next
  case False
  let ?phys = "ucast (e1000_bar0 s) :: u64" and ?fl = "PTE_PRESENT OR PTE_WRITABLE OR PTE_NOCACHE"
  have s: "pages_ready 224 s" "small_pages s DICT_VIRT_BASE" "image_cache s" "serves d B s" "heap_ok s bs"
    "{768..<1024} \<subseteq> used s" "{1024..<1280} \<inter> used s = {}" using assms(1) by (simp_all add: devices_up_def)
  have R: "in_region E1000_VIRT_BASE 32" by (simp add: in_region_def E1000_VIRT_BASE_def)
  have fl: "?fl AND PTE_ADDR_MASK = 0" by (simp add: PTE_PRESENT_def PTE_WRITABLE_def PTE_NOCACHE_def PTE_ADDR_MASK_def)
  have cn: "\<forall>x < 32 * 4096. canonical (E1000_VIRT_BASE + of_nat x)"
  proof (intro allI impI)
    fix x :: nat
    assume that: "x < 32 * 4096"
    have "unat (E1000_VIRT_BASE + of_nat x) = unat E1000_VIRT_BASE + x" by (rule region_offset(1) [OF R that])
    then show "canonical (E1000_VIRT_BASE + of_nat x)" by (simp add: canonical_def word_le_nat_alt KERNEL_VIRT_BASE_def E1000_VIRT_BASE_def)
  qed
  have sz: "of_nat 32 * PAGE_SIZE = 128 * 1024" by (simp add: PAGE_SIZE_def)
  have hm: "mapped_range (vmem s) HEAP_LO HEAP_HI" using s(5) by (simp add: heap_ok_def)
  obtain t where t: "vmm_map_range E1000_VIRT_BASE ?phys (128 * 1024) ?fl s = Inr (0, t)"
    "let u = t\<lparr>vmem := reload dram PML4_ADDR (vmem t)\<rparr> in
       pages_ready (224 - 3) u \<and> used s \<subseteq> used u \<and> used u - used s \<subseteq> {..<1024} \<and> (\<forall>v. small_pages s v \<longrightarrow> small_pages u v) \<and>
       mapped (vmem u) E1000_VIRT_BASE (32 * 4096) \<and> spares (elsewhere s) s u \<and> pmm_total_pages u = pmm_total_pages s \<and>
       control u = control s \<and> dict_base u = dict_base s \<and> dict_here u = dict_here s \<and> dict_latest u = dict_latest s \<and>
       (\<forall>x < 32 * 4096. translation u (E1000_VIRT_BASE + of_nat x) =
         frame_of (?phys + of_nat (x div 4096) * PAGE_SIZE) OR ((E1000_VIRT_BASE + of_nat x) AND mask 12))"
    using map_and_reload [OF s(1) _ assms(2) R _ fl cn hm cache_mapped [OF s(4)] s(3), of ?phys dram] unfolding sz by auto
  let ?u = "t\<lparr>vmem := reload dram PML4_ADDR (vmem t)\<rparr>"
  have u: "pages_ready 221 ?u" "used s \<subseteq> used ?u" "used ?u - used s \<subseteq> {..<1024}" "small_pages ?u DICT_VIRT_BASE"
    "mapped (vmem ?u) E1000_VIRT_BASE (32 * 4096)" "spares (elsewhere s) s ?u"
    using t(2) s(2) by (simp_all add: Let_def)
  have ic: "image_cache ?u" using u(6) s(3) by (simp add: image_cache_def spares_def)
  have heap: "heap_ok ?u bs" by (rule spares_heap [OF s(5) u(6) elsewhere_apart(1)])
  have sv: "serves d B ?u" by (rule spares_serves [OF s(4) u(6) elsewhere_apart(2)])
  have up: "devices_up d B bs 221 ?u"
    using u(1-4) ic heap sv s(6,7) by (auto simp: devices_up_def)
  let ?v = "?u\<lparr>mmio_base := E1000_VIRT_BASE\<rparr>"
  have ld: "\<exists>w. mmio_read32 r ?v = Inr w" if "r = REG_RAL \<or> r = REG_RAH" for r
  proof -
    have "mapped (vmem ?u) (E1000_VIRT_BASE + ucast r) 4"
      by (rule mapped_sub [OF u(5)]) (use that in \<open>auto simp: REG_RAL_def REG_RAH_def E1000_VIRT_BASE_def\<close>)
    then obtain bs where "rd_bytes (vmem ?u) (E1000_VIRT_BASE + ucast r) 4 = Inr bs" using mapped_imp_rd_bytes by blast
    then show ?thesis by (simp add: mmio_read32_def load32_def rd32_def)
  qed
  obtain lo hi where "mmio_read32 REG_RAL ?v = Inr lo" "mmio_read32 REG_RAH ?v = Inr hi" using ld by blast
  then have "\<exists>w. e1000_init (reload dram PML4_ADDR) s = Inr w \<and> essence w = essence ?u"
    using False t(1) by (simp add: e1000_init_def pci_get_e1000_bar0_def Let_def)
  then show ?thesis using devices_up_essence [OF up] by blast
qed

lemma boot_devices_ok:
  fixes s :: "'a kernel_scheme"
  assumes mem: "pages_ready 224 s" "{768..<1024} \<subseteq> used s" "{1024..<1280} \<inter> used s = {}" "heap_ok s bs" "image_cache s"
      "mapped (vmem s) (buffers s) 8320" "small_pages s E1000_VIRT_BASE" "small_pages s DICT_VIRT_BASE"
    and dev: "uart_answers (devices (platform_of B)) SERIAL_COM1" "keyboard_drains (devices (platform_of B)) (loop_bound (platform_of B))"
      "drive_answers (devices (platform_of B)) (loop_bound (platform_of B)) d" "drive_idle d s"
    and mmu: "card_mmu B = reload dram PML4_ADDR"
  shows "\<exists>t. boot_devices B s = Inr t \<and>
    devices_up d (let D = disk_block (sector_on d s) in if ucast (word_of_bytes (take 4 (D 1))) = FS_MAGIC then D else formatted D) bs 221 t"
proof -
  let ?dev = "devices (platform_of B)" and ?n = "loop_bound (platform_of B)"
  let ?D = "disk_block (sector_on d s)"
  let ?E = "if ucast (word_of_bytes (take 4 (?D 1))) = FS_MAGIC then ?D else formatted ?D"
  have n: "0 < ?n" using dev(2) by (auto simp: keyboard_drains_def)
  let ?s1 = "vga_puts (str ''[*] Initializing keyboard...\<newline>'') (vga_puts (str ''[+] Timer initialized\<newline>'')
    (timer_init 100 (vga_puts (str ''[*] Initializing timer (100 Hz)...\<newline>'') s)))"
  obtain k where "(ucast (?dev (drained k (ports ?s1)) 0x64) :: u8) AND 1 = 0" "k < ?n" using dev(2) by (auto simp: keyboard_drains_def)
  from keyboard_init_within [of ?dev k ?s1, OF this] obtain s2 where s2: "keyboard_init ?n ?dev ?s1 = Inr s2" "essence s2 = essence s" by auto
  let ?s3 = "vga_puts (str ''[*] Initializing Block Filesystem...\<newline>'') (vga_puts (str ''[+] Keyboard initialized\<newline>'') s2)"
  have e3: "essence ?s3 = essence s" using s2(2) by simp
  note q3 = essence_eq [OF e3]
  have i3: "drive_idle d ?s3" "sector_on d ?s3 = sector_on d s" using dev(4) q3 by (simp_all add: drive_idle_def sector_on_def)
  have b: "mapped (vmem ?s3) (buffers ?s3) 8320" "unat (buffers ?s3) + 8320 \<le> 2 ^ 64" "image_cache ?s3"
    using mem(5,6) q3 by (simp_all add: image_cache_def KERNEL_VIRT_BASE_def)
  obtain s4 where s4: "block_init ?dev ?n ?s3 = Inr s4" "serves d ?D s4" "only_cache ?s3 s4"
    using block_init_serves [OF dev(3,1) i3(1) b(1,2)] unfolding i3(2) by blast
  have r3: "pages_ready 224 ?s3" "heap_ok ?s3 bs"
    using pages_ready_essence [OF e3] heap_essence [OF e3] mem(1,4) by blast+
  have pok: "paging_ok s" using mem(1) by (simp add: pages_ready_def)
  have u3: "used ?s3 = used s" using pmm_keep(2) [of s ?s3] q3 pok by (simp add: paging_ok_def)
  note c4 = cache_step [OF s4(3,2) b(3) r3]
  obtain s5 where s5: "fs_init ?dev ?n s4 = Inr s5" "only_cache s4 s5" "serves d ?E s5"
    using fs_init_refines [OF dev(3,1) s4(2)] by (auto split: if_splits)
  note c5 = cache_step [OF s5(2,3) c4(4,1,3)]
  have sm: "small_pages s5 v = small_pages s v" for v
    using c5(5) [of v] c4(5) [of v] small_pages_essence [OF pok e3, of v] by simp
  have up: "devices_up d ?E bs 224 s5"
    using c5(1-4) c4(2) u3 mem(2,3,8) sm s5(3) by (simp add: devices_up_def)
  let ?s6 = "vga_puts (str ''[*] Initializing PCI Bus...\<newline>'') s5"
  have "\<exists>t. pci_init ?dev ?n ?s6 = Inr t \<and> essence t = essence s5"
    unfolding pci_init_def by (intro log_then [OF dev(1) n]) (simp add: essence_pci_scan)
  then obtain s7 where s7: "pci_init ?dev ?n ?s6 = Inr s7" "essence s7 = essence s5" by blast
  let ?s8 = "vga_puts (str ''[*] Initializing Network Card...\<newline>'') s7"
  have e8: "essence ?s8 = essence s5" using s7(2) by simp
  have "small_pages ?s8 E1000_VIRT_BASE"
    using small_pages_essence [OF _ e8] sm mem(7) c5(1) by (simp add: pages_ready_def)
  from e1000_init_boot [OF devices_up_essence [OF up e8] this, of dram]
  obtain t where "e1000_init (reload dram PML4_ADDR) ?s8 = Inr t" "devices_up d ?E bs 221 t" by blast
  then show ?thesis
    unfolding boot_devices_def Let_def using s2(1) s4(1) s5(1) s7(1) mmu by (intro exI [of _ t]) simp
qed


section \<open>Tasks\<close>

text \<open>What holds besides the heap.\<close>

definition settled :: "drive \<Rightarrow> (u32 \<Rightarrow> u8 list) \<Rightarrow> nat \<Rightarrow> 'a kernel_scheme \<Rightarrow> bool" where
  "settled d B c s \<longleftrightarrow> pages_ready c s \<and> {768..<1024} \<subseteq> used s \<and> {1024..<1280} \<inter> used s = {} \<and>
     small_pages s DICT_VIRT_BASE \<and> image_cache s \<and> serves d B s"

lemma devices_up_settled: "devices_up d B bs c s \<longleftrightarrow> settled d B c s \<and> heap_ok s bs"
  by (auto simp: devices_up_def settled_def)

lemma settled_essence:
  fixes s t :: "'a kernel_scheme"
  assumes "settled d B c s" "heap_ok s bs" "essence t = essence s"
  shows "settled d B c t"
  using devices_up_essence [of d B bs c s t] assms by (simp add: devices_up_settled)

text \<open>A step of the scheduler writes to the heap.\<close>

lemma heap_step:
  fixes s t :: "'a kernel_scheme"
  assumes "settled d B c s" "A \<subseteq> heap_bytes"
    "only_on A (s\<lparr>next_pid := p, heap_used := u, current_task := ct, task_list := tk\<rparr>) t"
  shows "settled d B c t" "control t = control s"
proof -
  let ?s = "s\<lparr>next_pid := p, heap_used := u, current_task := ct, task_list := tk\<rparr>"
  have s: "pages_ready c s" "small_pages s DICT_VIRT_BASE" "image_cache s" "serves d B s"
    "{768..<1024} \<subseteq> used s" "{1024..<1280} \<inter> used s = {}" using assms(1) by (simp_all add: settled_def)
  have eq: "t\<lparr>vmem := vmem s\<rparr> = ?s" using assms(3) by (simp add: only_on_def)
  have f: "cr3 t = cr3 s" "buffers t = buffers s" "pmm_total_pages t = pmm_total_pages s" "pmm_used_pages t = pmm_used_pages s"
    "ports t = ports s"
    using arg_cong [OF eq, of cr3] arg_cong [OF eq, of buffers] arg_cong [OF eq, of pmm_total_pages] arg_cong [OF eq, of pmm_used_pages]
      arg_cong [OF eq, of ports] by simp_all
  have ch: "changes heap_bytes (vmem s) (vmem t)" using assms(2,3) by (auto simp: only_on_def changes_def)
  have pok: "paging_ok s" using s(1) by (simp add: pages_ready_def)
  have bm: "in_bitmap x \<Longrightarrow> vmem t x = vmem s x" for x
    using ch regions_apart(3) bitmap_bytes_iff by (auto simp: changes_def)
  have low: "unat x < 2 ^ 52 \<Longrightarrow> vmem t x = vmem s x" for x
    using ch regions_apart(2) by (auto simp: changes_def low_memory_def)
  have mp: "vmem s x \<noteq> None \<Longrightarrow> vmem t x \<noteq> None" for x using ch by (simp add: changes_def)
  have pm: "pmm_ok t" "used t = used s" using pmm_keep [of s t] bm f pok by (simp_all add: paging_ok_def)
  note k = paging_keep [OF pok pm(1) f(3) _ f(1) mp low]
  have "pages_ready c t" using k(1) pm(2) f s(1) by (simp add: pages_ready_def pages_set_def)
  moreover have "small_pages t DICT_VIRT_BASE" using k(3) pm(2) s(2) by (simp add: small_pages_def)
  moreover have "heap_bytes \<inter> cache_bytes s = {}" using regions_apart(6) [OF s(3)] by blast
  then have "serves d B t" by (rule serves_keep [OF s(4) ch _ f(2)]) (simp add: f(5))
  moreover have "image_cache t" using s(3) f(2) by (simp add: image_cache_def)
  ultimately show "settled d B c t" using s(5,6) pm(2) by (simp add: settled_def)
  show "control t = control s" using arg_cong [OF eq, of control] by (simp add: control_def)
qed

text \<open>The main task, then the background task behind it.\<close>

abbreviation main_task :: u64 where "main_task \<equiv> HEAP_VIRT_START + 32"
abbreviation worker_task :: u64 where "worker_task \<equiv> HEAP_VIRT_START + 96"
abbreviation worker_frame :: u64 where "worker_frame \<equiv> HEAP_VIRT_START + 8280"

lemma scheduler_init_boot:
  fixes s :: "'a kernel_scheme"
  assumes "devices_up d B [initial_block] c s" "1 < n"
  shows "\<exists>t r0. scheduler_init n s = Inr t \<and> settled d B c t \<and> control t = control s \<and>
    tasking t [HB HEAP_VIRT_START 32 False] (HEAP_VIRT_START + 64) (0xFFFE0 - 64) [main_task] \<and>
    current_task t = main_task \<and> task_list t = main_task \<and> queue t [main_task] = [(main_task, Inr r0)]"
proof -
  have s: "settled d B c s" "heap_ok s ([] @ [HB HEAP_VIRT_START 0xFFFE0 True])"
    using assms(1) by (simp_all add: devices_up_settled initial_size)
  from scheduler_init_ok [OF s(2), of n] assms(2) obtain t r0 where t: "scheduler_init n s = Inr t"
    "tasking t [HB HEAP_VIRT_START 32 False] (HEAP_VIRT_START + 64) (0xFFFE0 - 64) [main_task]"
    "current_task t = main_task" "task_list t = main_task" "queue t [main_task] = [(main_task, Inr r0)]"
    "only_on (extent (HB HEAP_VIRT_START 0xFFFE0 True)) (s\<lparr>heap_used := heap_used t, current_task := main_task, task_list := main_task\<rparr>) t"
    by (auto simp: full_def)
  have "extent (HB HEAP_VIRT_START 0xFFFE0 True) \<subseteq> heap_bytes"
    by (simp add: extent_def heap_bytes_def heap_start(1) HEAP_LO_def HEAP_HI_def)
  moreover have "only_on (extent (HB HEAP_VIRT_START 0xFFFE0 True))
      (s\<lparr>next_pid := next_pid s, heap_used := heap_used t, current_task := main_task, task_list := main_task\<rparr>) t"
    using t(6) by simp
  ultimately have "settled d B c t" "control t = control s" by (rule heap_step [OF s(1)])+
  then show ?thesis using t by blast
qed

lemma worker_boot:
  fixes s :: "'a kernel_scheme"
  assumes "settled d B c s" "tasking s [HB HEAP_VIRT_START 32 False] (HEAP_VIRT_START + 64) (0xFFFE0 - 64) [main_task]"
    "current_task s = main_task" "task_list s = main_task" "queue s [main_task] = [(main_task, Inr r0)]" "3 < n"
  shows "\<exists>t as b r. task_create n x e s = Inr (worker_task, t) \<and> settled d B c t \<and> control t = control s \<and> tasking t as b r [main_task, worker_task] \<and>
    queue t [main_task, worker_task] = [(main_task, Inr r0), (worker_task, Inr worker_frame)] \<and>
    frame_at (vmem t) worker_frame (start_frame e x)"
proof -
  have r: "8352 < unat (0xFFFE0 - 64 :: u64)" by simp
  have e: "HEAP_VIRT_START + 64 + 32 = worker_task" "HEAP_VIRT_START + 64 + 8216 = worker_frame" by simp_all
  have h: "heap_ok s ([HB HEAP_VIRT_START 32 False] @ [HB (HEAP_VIRT_START + 64) (0xFFFE0 - 64) True])"
    and tb: "task_bytes (set [main_task]) \<subseteq> payloads [HB HEAP_VIRT_START 32 False]"
    using assms(2) by (simp_all add: tasking_def)
  have ent: "enter main_task worker_task [main_task] = [main_task, worker_task]" by (simp add: enter_def)
  from task_create_ok [OF assms(2) r, of n x e, unfolded assms(3,4,5) e ent] assms(6)
  obtain t u p where t: "task_create n x e s = Inr (worker_task, t)"
    "tasking t ([HB HEAP_VIRT_START 32 False] @ [HB (HEAP_VIRT_START + 64) 32 False, HB (HEAP_VIRT_START + 64 + 64) 8192 False])
      (HEAP_VIRT_START + 64 + 8288) (0xFFFE0 - 64 - 8288) [main_task, worker_task]"
    "joined [(main_task, Inr r0)] (worker_task, Inr worker_frame) True (queue t [main_task, worker_task])"
    "frame_at (vmem t) worker_frame (start_frame e x)"
    "only_on (extent (HB (HEAP_VIRT_START + 64) (0xFFFE0 - 64) True) \<union> task_bytes (set [main_task])) (s\<lparr>next_pid := p, heap_used := u\<rparr>) t"
    by auto
  have "extent (HB (HEAP_VIRT_START + 64) (0xFFFE0 - 64) True) \<subseteq> heap_bytes"
    using end_block [OF h] by (auto simp: extent_def heap_bytes_def)
  moreover have "payloads ([HB HEAP_VIRT_START 32 False] @ [HB (HEAP_VIRT_START + 64) (0xFFFE0 - 64) True]) \<subseteq> heap_bytes"
    unfolding heap_bytes_def using tiles_payloads [OF heap_okD(3) [OF h]] by blast
  then have "task_bytes (set [main_task]) \<subseteq> heap_bytes"
    using tb by (simp only: append.simps payloads_simps) blast
  ultimately have sub: "extent (HB (HEAP_VIRT_START + 64) (0xFFFE0 - 64) True) \<union> task_bytes (set [main_task]) \<subseteq> heap_bytes" by blast
  have "only_on (extent (HB (HEAP_VIRT_START + 64) (0xFFFE0 - 64) True) \<union> task_bytes (set [main_task]))
      (s\<lparr>next_pid := p, heap_used := u, current_task := current_task s, task_list := task_list s\<rparr>) t"
    using t(5) by simp
  note heap_step [OF assms(1) sub this]
  moreover have "queue t [main_task, worker_task] = [(main_task, Inr r0), (worker_task, Inr worker_frame)]"
    using t(3) by (auto simp: joined_def append_eq_Cons_conv)
  ultimately show ?thesis using t(1,2,4) by blast
qed


section \<open>The Forth system\<close>

text \<open>Steps that write to the addresses from the dictionary on, or to nothing.\<close>

definition dict_up :: "nat set" where "dict_up = {unat DICT_VIRT_BASE..}"

lemma dict_up_apart:
  "dict_up \<inter> low_memory = {}" "dict_up \<inter> bitmap_bytes = {}" "image_cache s \<Longrightarrow> dict_up \<subseteq> elsewhere s"
proof -
  have k: "unat KERNEL_VIRT_BASE = 0xFFFF800000000000" "unat PMM_BITMAP_VIRT = 0xFFFF800000200000"
    by (simp_all add: PMM_BITMAP_VIRT_def PMM_BITMAP_PHYS_def KERNEL_VIRT_BASE_def)
  show "dict_up \<inter> low_memory = {}" "dict_up \<inter> bitmap_bytes = {}"
    by (auto simp: dict_up_def low_memory_def bitmap_bytes_def k dict_region)
  show "image_cache s \<Longrightarrow> dict_up \<subseteq> elsewhere s"
    by (auto simp: dict_up_def elsewhere_def heap_bytes_def cache_bytes_def image_cache_def HEAP_HI_def k dict_region)
qed

definition same_pages :: "'a kernel_scheme \<Rightarrow> 'a kernel_scheme \<Rightarrow> bool" where
  "same_pages s t \<longleftrightarrow> cr3 t = cr3 s \<and> pmm_total_pages t = pmm_total_pages s \<and> pmm_used_pages t = pmm_used_pages s"

lemma dict_step:
  fixes s t :: "'a kernel_scheme"
  assumes "pages_ready c s" "changes dict_up (vmem s) (vmem t)" "same_pages s t"
  shows "pages_ready c t" "used t = used s" "translation t v = translation s v" "small_pages t v = small_pages s v"
proof -
  have pok: "paging_ok s" using assms(1) by (simp add: pages_ready_def)
  have f: "cr3 t = cr3 s" "pmm_total_pages t = pmm_total_pages s" "pmm_used_pages t = pmm_used_pages s"
    using assms(3) by (simp_all add: same_pages_def)
  have bm: "in_bitmap x \<Longrightarrow> vmem t x = vmem s x" for x
    using assms(2) dict_up_apart(2) bitmap_bytes_iff by (auto simp: changes_def)
  have low: "unat x < 2 ^ 52 \<Longrightarrow> vmem t x = vmem s x" for x
    using assms(2) dict_up_apart(1) by (auto simp: changes_def low_memory_def)
  have mp: "vmem s x \<noteq> None \<Longrightarrow> vmem t x \<noteq> None" for x using assms(2) by (simp add: changes_def)
  have pm: "pmm_ok t" "used t = used s" using pmm_keep [of s t] bm f pok by (simp_all add: paging_ok_def)
  then show "used t = used s" by simp
  note k = paging_keep [OF pok pm(1) f(2) _ f(1) mp low]
  show "pages_ready c t" using k(1) pm(2) f assms(1) by (simp add: pages_ready_def pages_set_def)
  show "translation t v = translation s v" "small_pages t v = small_pages s v"
    using k(2,3) pm(2) by (simp_all add: small_pages_def)
qed

text \<open>A megabyte in a row: the only place for it is above the heap.\<close>

lemma free_megabyte:
  assumes "free_run s p 256" "pages_set c s" "{768..<1024} \<subseteq> used s"
  shows "1024 \<le> p"
proof (rule ccontr)
  assume p: "\<not> 1024 \<le> p"
  have u: "{0..<128} \<subseteq> used s" "{256..<513} \<subseteq> used s" using assms(2) by (simp_all add: pages_set_def)
  have n: "q \<notin> used s" if "p \<le> q" "q < p + 256" for q using assms(1) that by (simp add: free_run_def)
  have i: "q \<in> used s" if "q < 128 \<or> 256 \<le> q \<and> q < 513 \<or> 768 \<le> q \<and> q < 1024" for q
    using that u assms(3) by auto
  consider "p < 128" | "128 \<le> p" "p \<le> 256" | "256 \<le> p" "p < 513" | "513 \<le> p" "p < 768" | "768 \<le> p" using p by linarith
  then show False
  proof cases
    case 1
    then show False using n [of p] i [of p] by simp
  next
    case 2
    then show False using n [of 256] i [of 256] by simp
  next
    case 3
    then show False using n [of p] i [of p] by simp
  next
    case 4
    then show False using n [of 768] i [of 768] by simp
  next
    case 5
    then show False using n [of p] i [of p] p by simp
  qed
qed

lemma alloc_megabyte:
  fixes s :: "'a kernel_scheme"
  assumes "pages_ready c s" "{768..<1024} \<subseteq> used s" "{1024..<1280} \<inter> used s = {}"
  shows "\<exists>p t. pmm_alloc_pages (DICT_SIZE div PAGE_SIZE) s = Inr (of_nat p * PAGE_SIZE, t) \<and> 1024 \<le> p \<and> p + 256 \<le> 2 ^ 20 \<and>
    pages_ready c t \<and> small_pages t DICT_VIRT_BASE = small_pages s DICT_VIRT_BASE \<and> spares bitmap_bytes s t \<and>
    control t = control s \<and> dict_base t = dict_base s \<and> dict_here t = dict_here s \<and> dict_latest t = dict_latest s"
proof -
  have pok: "paging_ok s" and ps: "pages_set c s" and cr: "cr3 s = PML4_ADDR" using assms(1) by (simp_all add: pages_ready_def)
  then have pm: "pmm_ok s" by (simp add: paging_ok_def)
  have n: "DICT_SIZE div PAGE_SIZE = 256" by (simp add: DICT_SIZE_def PAGE_SIZE_def)
  have fr: "free_run s 1024 256" using ps assms(3) by (auto simp: free_run_def pages_set_def)
  have u: "unat (256 :: u64) = 256" by simp
  from alloc_pages_ok [OF pm, of 256] fr obtain p t where t: "pmm_alloc_pages 256 s = Inr (of_nat p * PAGE_SIZE, t)" "free_run s p 256"
    "used t = used s \<union> {p..<p + 256}" "pmm_ok t" "pmm_frame s t" unfolding u by auto
  have p: "1024 \<le> p" by (rule free_megabyte [OF t(2) ps assms(2)])
  have p2: "p + 256 \<le> 2 ^ 20" using t(2) pm by (simp add: free_run_def pmm_ok_def)
  let ?t = "t\<lparr>vmem := vmem s, pmm_used_pages := pmm_used_pages s\<rparr>"
  have eq: "?t = s" using t(5) unfolding pmm_frame_def by blast
  have f: "cr3 t = cr3 s" "buffers t = buffers s" "ports t = ports s" "pmm_total_pages t = pmm_total_pages s"
    "heap_head t = heap_head s" "heap_used t = heap_used s" "current_task t = current_task s" "task_list t = task_list s"
    "dict_base t = dict_base s" "dict_here t = dict_here s" "dict_latest t = dict_latest s" "control t = control s"
    using arg_cong [OF eq, of cr3] arg_cong [OF eq, of buffers] arg_cong [OF eq, of ports] arg_cong [OF eq, of pmm_total_pages]
      arg_cong [OF eq, of heap_head] arg_cong [OF eq, of heap_used] arg_cong [OF eq, of current_task] arg_cong [OF eq, of task_list]
      arg_cong [OF eq, of dict_base] arg_cong [OF eq, of dict_here] arg_cong [OF eq, of dict_latest] arg_cong [OF eq, of control]
    by (simp_all add: control_def)
  have ch: "changes bitmap_bytes (vmem s) (vmem t)" using t(5) bitmap_bytes_iff by (auto simp: pmm_frame_def changes_def)
  have low: "unat x < 2 ^ 52 \<Longrightarrow> vmem t x = vmem s x" for x
    using ch regions_apart(1) by (auto simp: changes_def low_memory_def)
  have mp: "vmem s x \<noteq> None \<Longrightarrow> vmem t x \<noteq> None" for x using ch by (simp add: changes_def)
  have us: "used s \<subseteq> used t" using t(3) by blast
  note k = paging_keep [OF pok t(4) f(4) us f(1) mp low]
  have "{544..<768} - used t = {544..<768} - used s" using t(3) p by auto
  then have "pages_set c t" using ps f(4) us by (auto simp: pages_set_def)
  then have "pages_ready c t" using k(1) f(1) cr by (simp add: pages_ready_def)
  moreover have "spares bitmap_bytes s t" using ch f by (simp add: spares_def)
  ultimately show ?thesis using t(1) p p2 k(3) f unfolding n by (intro exI [of _ p] exI [of _ t]) (simp add: small_pages_def)
qed


text \<open>The dictionary region after \<open>dict_init\<close>: mapped, backed by 256 pages in a row, and empty.\<close>

definition dict_backed :: "nat \<Rightarrow> 'a vmm_scheme \<Rightarrow> bool" where
  "dict_backed p s \<longleftrightarrow> 1024 \<le> p \<and> p + 256 \<le> 2 ^ 20 \<and>
     (\<forall>x < 256 * 4096. translation s (DICT_VIRT_BASE + of_nat x) = of_nat p * PAGE_SIZE + of_nat x)"

lemma dict_start:
  "in_region DICT_VIRT_BASE 256" "\<forall>x < 256 * 4096. canonical (DICT_VIRT_BASE + of_nat x)"
  "of_nat 256 * PAGE_SIZE = DICT_SIZE" "unat DICT_SIZE = 256 * 4096"
proof -
  show R: "in_region DICT_VIRT_BASE 256" by (simp add: in_region_def DICT_VIRT_BASE_def)
  show "\<forall>x < 256 * 4096. canonical (DICT_VIRT_BASE + of_nat x)"
    using region_offset(1) [OF R] by (simp add: canonical_def word_le_nat_alt KERNEL_VIRT_BASE_def DICT_VIRT_BASE_def)
qed (simp_all add: PAGE_SIZE_def DICT_SIZE_def)

lemma frame_address:
  assumes "p + 256 \<le> 2 ^ 20"
  shows "unat (of_nat p * PAGE_SIZE) = p * 4096"
proof -
  have "of_nat p * PAGE_SIZE = (of_nat (p * 4096) :: u64)" by (simp add: PAGE_SIZE_def)
  moreover have "unat (of_nat (p * 4096) :: u64) = p * 4096" by (rule unat_of_nat_lt) (use assms in simp)
  ultimately show ?thesis by simp
qed

lemma dict_init_boot:
  fixes s :: "'a kernel_scheme"
  assumes "settled d B c s" "3 < c" "heap_ok s bs" "uart_answers dev SERIAL_COM1" "0 < n"
  shows "\<exists>p t. dict_init dev n (reload dram PML4_ADDR) s = Inr t \<and> pages_ready (c - 3) t \<and> dict_backed p t \<and>
    spares (elsewhere s) s t \<and> control t = control s \<and> dict_ok t [] \<and> dict_here t = DICT_VIRT_BASE"
proof -
  have s: "pages_ready c s" "small_pages s DICT_VIRT_BASE" "image_cache s" "serves d B s"
    "{768..<1024} \<subseteq> used s" "{1024..<1280} \<inter> used s = {}" using assms(1) by (simp_all add: settled_def)
  let ?s1 = "s\<lparr>dict_base := DICT_VIRT_BASE, dict_here := DICT_VIRT_BASE, dict_latest := 0\<rparr>"
  let ?fl = "PTE_PRESENT OR PTE_WRITABLE"
  have s1: "pages_ready c ?s1" "used ?s1 = used s" "small_pages ?s1 DICT_VIRT_BASE"
    using dict_step [OF s(1), of ?s1] s(2) by (simp_all add: changes_def same_pages_def)
  have sp1: "spares A s ?s1" for A by (simp add: spares_def changes_def)
  obtain p s2 where s2: "pmm_alloc_pages (DICT_SIZE div PAGE_SIZE) ?s1 = Inr (of_nat p * PAGE_SIZE, s2)" "1024 \<le> p" "p + 256 \<le> 2 ^ 20"
    "pages_ready c s2" "small_pages s2 DICT_VIRT_BASE" "spares bitmap_bytes ?s1 s2"
    "dict_base s2 = DICT_VIRT_BASE" "dict_here s2 = DICT_VIRT_BASE" "dict_latest s2 = 0" "control s2 = control s"
    using alloc_megabyte [OF s1(1)] s(5,6) s1(2,3) by (auto simp: control_def)
  have bsub: "bitmap_bytes \<subseteq> elsewhere s"
    using regions_apart(3) regions_apart(5) [OF s(3)] by (auto simp: elsewhere_def)
  have sp2: "spares (elsewhere s) s s2"
    by (rule spares_trans [OF sp1 spares_mono [OF s2(6) bsub]])
  have b2: "buffers s2 = buffers s" using sp2 by (simp add: spares_def)
  then have i2: "image_cache s2" "elsewhere s2 = elsewhere s" using s(3) by (simp_all add: image_cache_def elsewhere_def cache_bytes_def)
  have h2: "mapped_range (vmem s2) HEAP_LO HEAP_HI"
    using spares_heap [OF assms(3) sp2 elsewhere_apart(1)] by (simp add: heap_ok_def)
  have m2: "mapped (vmem s2) (buffers s2) 8320" by (rule cache_mapped [OF spares_serves [OF s(4) sp2 elsewhere_apart(2)]])
  have fl: "?fl AND PTE_ADDR_MASK = 0" by (simp add: PTE_PRESENT_def PTE_WRITABLE_def PTE_ADDR_MASK_def)
  let ?phys = "of_nat p * PAGE_SIZE :: u64"
  note ph = frame_address [OF s2(3)]
  have z: "(0 :: nat) < 256" by simp
  from map_and_reload [OF s2(4) assms(2) s2(5) dict_start(1) z fl dict_start(2) h2 m2 i2(1), of ?phys dram]
  obtain s3 where s3: "vmm_map_range DICT_VIRT_BASE ?phys DICT_SIZE ?fl s2 = Inr (0, s3)"
    and u: "let u = s3\<lparr>vmem := reload dram PML4_ADDR (vmem s3)\<rparr> in
       pages_ready (c - 3) u \<and> used s2 \<subseteq> used u \<and> used u - used s2 \<subseteq> {..<1024} \<and> (\<forall>v. small_pages s2 v \<longrightarrow> small_pages u v) \<and>
       mapped (vmem u) DICT_VIRT_BASE (256 * 4096) \<and> spares (elsewhere s2) s2 u \<and> pmm_total_pages u = pmm_total_pages s2 \<and>
       control u = control s2 \<and> dict_base u = dict_base s2 \<and> dict_here u = dict_here s2 \<and> dict_latest u = dict_latest s2 \<and>
       (\<forall>x < 256 * 4096. translation u (DICT_VIRT_BASE + of_nat x) =
         frame_of (?phys + of_nat (x div 4096) * PAGE_SIZE) OR ((DICT_VIRT_BASE + of_nat x) AND mask 12))"
    unfolding dict_start(3) by blast
  let ?u = "s3\<lparr>vmem := reload dram PML4_ADDR (vmem s3)\<rparr>"
  have u: "pages_ready (c - 3) ?u" "mapped (vmem ?u) DICT_VIRT_BASE (unat DICT_SIZE)" "spares (elsewhere s) s2 ?u"
    "dict_base ?u = DICT_VIRT_BASE" "dict_here ?u = DICT_VIRT_BASE" "dict_latest ?u = 0"
    "\<forall>x < 256 * 4096. translation ?u (DICT_VIRT_BASE + of_nat x) =
         frame_of (?phys + of_nat (x div 4096) * PAGE_SIZE) OR ((DICT_VIRT_BASE + of_nat x) AND mask 12)"
    "control ?u = control s"
    using u unfolding Let_def s2(7-10) i2(2) dict_start(4) by blast+
  have bk: "dict_backed p ?u"
    unfolding dict_backed_def
  proof (intro conjI allI impI s2(2,3))
    fix x :: nat
    assume x: "x < 256 * 4096"
    have a: "unat ?phys mod 4096 = 0" "unat ?phys + x < 2 ^ 52" unfolding ph using s2(3) x by simp_all
    show "translation ?u (DICT_VIRT_BASE + of_nat x) = ?phys + of_nat x"
      using u(7) x frame_offset [OF a region_offset(4) [OF dict_start(1) x]] by simp
  qed
  let ?bs = "replicate (unat DICT_SIZE) (0 :: u8)"
  let ?v = "?u\<lparr>vmem := mem_upd (vmem ?u) DICT_VIRT_BASE ?bs\<rparr>"
  have ms: "memset (dict_base ?u) 0 (unat DICT_SIZE) ?u = Inr ?v"
    unfolding u(4) by (rule memset_mapped [OF u(2)]) (simp add: DICT_SIZE_def)
  have cv: "changes dict_up (vmem ?u) (vmem ?v)"
  proof -
    have o: "mem_upd m DICT_VIRT_BASE ?bs x = m x" if "unat x \<notin> dict_up" for m x
    proof -
      have "unat x < unat DICT_VIRT_BASE" using that by (simp add: dict_up_def)
      then have "\<not> unat (x - DICT_VIRT_BASE) < length ?bs" unfolding length_replicate unat_sub_if' dict_region by simp
      then show ?thesis unfolding mem_upd_def by (rule if_not_P)
    qed
    have "mem_upd m a bs x \<noteq> None" if "m x \<noteq> None" for m a bs x using that by (simp add: mem_upd_def)
    then show ?thesis using o by (simp add: changes_def del: length_replicate)
  qed
  note dv = dict_step [OF u(1) cv]
  have v: "pages_ready (c - 3) ?v" "\<And>a. translation ?v a = translation ?u a" using dv(1,3) by (simp_all add: same_pages_def)
  have sv: "spares (elsewhere s) ?u ?v"
    using changes_mono [OF cv dict_up_apart(3) [OF s(3)]] by (simp add: spares_def)
  have dk: "dict_ok ?v []"
    using mapped_mem_upd [OF u(2)] u(5,6) by (simp add: dict_ok_def)
  let ?log = "rbind (serial_puts dev n SERIAL_COM1 (str ''DICT: Virtual '') ?v) (\<lambda>s.
          rbind (serial_put_hex dev n SERIAL_COM1 DICT_VIRT_BASE s) (\<lambda>s.
          rbind (serial_puts dev n SERIAL_COM1 (str '' mapped to PA '') s) (\<lambda>s.
          rbind (serial_put_hex dev n SERIAL_COM1 ?phys s) (\<lambda>s.
          serial_puts dev n SERIAL_COM1 (str ''\<newline>'') s))))"
  have "\<exists>t. ?log = Inr t \<and> essence t = essence ?v"
  proof (intro log_then [OF assms(4,5)])
    show "\<exists>s'. serial_puts dev n SERIAL_COM1 (str ''\<newline>'') t4 = Inr s' \<and> essence s' = essence ?v"
      if "essence t1 = essence ?v" "essence t2 = essence t1" "essence t3 = essence t2" "essence t4 = essence t3" for t1 t2 t3 t4
      using essence_serial(1) [OF assms(4,5)] that by metis
  qed
  then obtain t where t: "?log = Inr t" "essence t = essence ?v" by blast
  note q = essence_eq [OF t(2)]
  have "?phys \<noteq> 0" using ph s2(2) by (metis less_numeral_extra(3) mult_pos_pos not_one_le_zero unat_0 zero_less_numeral le_zero_eq gr0I zero_neq_numeral)
  then have "dict_init dev n (reload dram PML4_ADDR) s = Inr t"
    unfolding dict_init_def Let_def using s2(1) s3 ms t(1) by simp
  moreover have "pages_ready (c - 3) t" using pages_ready_essence [OF t(2)] v(1) by blast
  moreover have "translation t a = translation ?v a" for a
    using dict_step(3) [OF v(1), of t a] q by (simp add: changes_def same_pages_def)
  then have "dict_backed p t" using bk v(2) by (simp add: dict_backed_def)
  moreover have "spares (elsewhere s) s t"
    by (rule spares_trans [OF sp2 spares_trans [OF u(3) spares_trans [OF sv spares_essence [OF t(2)]]]])
  moreover have "control t = control s" using q(14) u(8) by (simp add: control_def)
  moreover have "dict_ok t []" using dk unfolding dict_ok_def q .
  moreover have "dict_here t = DICT_VIRT_BASE" using q(11) u(5) by simp
  ultimately show ?thesis by blast
qed


text \<open>Changes of other variables only.\<close>

lemma settled_same:
  fixes s t :: "'a kernel_scheme"
  assumes "settled d B c s" "spares {} s t" "same_pages s t"
  shows "settled d B c t"
proof -
  have s: "pages_ready c s" "small_pages s DICT_VIRT_BASE" "image_cache s" "serves d B s"
    "{768..<1024} \<subseteq> used s" "{1024..<1280} \<inter> used s = {}" using assms(1) by (simp_all add: settled_def)
  have ch: "changes dict_up (vmem s) (vmem t)" by (rule changes_mono [of "{}"]) (use assms(2) in \<open>simp_all add: spares_def\<close>)
  note k = dict_step [OF s(1) ch assms(3)]
  have "serves d B t" by (rule spares_serves [OF s(4) assms(2)]) simp
  moreover have "image_cache t" using s(3) assms(2) by (simp add: image_cache_def spares_def)
  ultimately show ?thesis using k s(2,5,6) by (simp add: settled_def)
qed

text \<open>The vocabulary depends on memory and the variables of the dictionary.\<close>

lemma vocabulary_same:
  assumes "vmem t = vmem s" "dict_here t = dict_here s" "dict_latest t = dict_latest s"
  shows "dict_ok t es = dict_ok s es" "entry_for P t = entry_for P s"
  using assms by (simp_all add: dict_ok_def entry_for_def [abs_def] has_word_def)

lemma forth_init_boot:
  fixes s :: "'a kernel_scheme"
  assumes "settled d B c s" "3 < c" "heap_ok s bs" "uart_answers (devices P) SERIAL_COM1" "0 < loop_bound P"
  shows "\<exists>p t es. forth_init P (reload dram PML4_ADDR) s = Inr t \<and> pages_ready (c - 3) t \<and> dict_backed p t \<and>
    spares (elsewhere s) s t \<and> control t = (0, 0, interrupts_enabled s) \<and>
    dict_ok t es \<and> list_all2 (entry_for P t) es (rev primitives)"
proof -
  let ?s = "rs_clear (ds_clear s)"
  have sp: "spares A s ?s" for A by (simp add: spares_def changes_def rs_clear_def ds_clear_def)
  have "same_pages s ?s" by (simp add: same_pages_def rs_clear_def ds_clear_def)
  from settled_same [OF assms(1) sp this] have st: "settled d B c ?s" .
  have hp: "heap_ok ?s bs" by (rule spares_heap [OF assms(3) sp, of "{}"]) simp
  have e: "elsewhere ?s = elsewhere s" by (simp add: elsewhere_def cache_bytes_def rs_clear_def ds_clear_def)
  from dict_init_boot [OF st assms(2) hp assms(4,5), of dram] obtain p t where
    t: "dict_init (devices P) (loop_bound P) (reload dram PML4_ADDR) ?s = Inr t" "pages_ready (c - 3) t" "dict_backed p t"
      "spares (elsewhere s) ?s t" "control t = control ?s" "dict_ok t []" "dict_here t = DICT_VIRT_BASE" unfolding e by blast
  obtain w es where w: "register_primitives P t = Inr w" "dict_frame t w" "dict_ok w es" "list_all2 (entry_for P w) es (rev primitives)"
    using register_primitives_ok [OF t(6,7), of P] by blast
  let ?w = "w\<lparr>vmem := vmem t, dict_here := dict_here t, dict_latest := dict_latest t\<rparr>"
  have eq: "?w = t" using w(2) unfolding dict_frame_def by blast
  have f: "cr3 w = cr3 t" "buffers w = buffers t" "pmm_total_pages w = pmm_total_pages t" "pmm_used_pages w = pmm_used_pages t"
    "ports w = ports t" "heap_head w = heap_head t" "heap_used w = heap_used t" "current_task w = current_task t"
    "task_list w = task_list t" "control w = control t"
    using arg_cong [OF eq, of cr3] arg_cong [OF eq, of buffers] arg_cong [OF eq, of pmm_total_pages] arg_cong [OF eq, of pmm_used_pages]
      arg_cong [OF eq, of ports] arg_cong [OF eq, of heap_head] arg_cong [OF eq, of heap_used] arg_cong [OF eq, of current_task]
      arg_cong [OF eq, of task_list] arg_cong [OF eq, of control] by (simp_all add: control_def)
  have one: "mapped m x 1 \<longleftrightarrow> m x \<noteq> None" for m x by (simp add: mapped_def)
  have ch: "changes dict_up (vmem t) (vmem w)"
    using w(2) unfolding dict_frame_def t(7) one by (simp add: changes_def dict_up_def same_below_def)
  have sw: "spares (elsewhere s) t w"
    using changes_mono [OF ch dict_up_apart(3), of s] st assms(1) f by (simp add: spares_def settled_def)
  note dw = dict_step [OF t(2) ch]
  let ?u = "vga_set_color VGA_COLOR_LIGHT_GREY VGA_COLOR_BLACK
    (vga_puts (str ''\<newline>  Vector Forth OS v0.1\<newline>  Threaded-Code Compiler Ready\<newline>\<newline>'') (vga_set_color VGA_COLOR_LIGHT_GREEN VGA_COLOR_BLACK w))"
  have eu: "essence ?u = essence w" by simp
  note q = essence_eq [OF eu]
  have pw: "pages_ready (c - 3) w" "dict_backed p w" using dw(1,3) t(3) f by (simp_all add: same_pages_def dict_backed_def)
  have "translation ?u a = translation w a" for a
    using dict_step(3) [OF pw(1), of ?u a] q by (simp add: changes_def same_pages_def)
  then have "dict_backed p ?u" using pw(2) by (simp add: dict_backed_def)
  moreover have "pages_ready (c - 3) ?u" using pages_ready_essence [OF eu] pw(1) by blast
  moreover have "spares (elsewhere s) s ?u"
    by (rule spares_trans [OF sp spares_trans [OF t(4) spares_trans [OF sw spares_essence [OF eu]]]])
  moreover have "control ?u = (0, 0, interrupts_enabled s)"
    using q(14) f(10) t(5) by (simp add: control_def rs_clear_def ds_clear_def)
  moreover have "dict_ok ?u es" "list_all2 (entry_for P ?u) es (rev primitives)"
    using w(3,4) vocabulary_same [OF q(1,11,12)] by simp_all
  moreover have "forth_init P (reload dram PML4_ADDR) s = Inr ?u"
    unfolding forth_init_def Let_def using t(1) w(1) by simp
  ultimately show ?thesis by blast
qed


section \<open>The whole boot\<close>

lemma avx_init_boot:
  fixes s :: "'a kernel_scheme"
  assumes "uart_answers dev SERIAL_COM1" "0 < n"
  shows "\<exists>t. avx_init dev n s = Inr t \<and> essence t = essence s"
  unfolding avx_init_def Let_def using essence_serial(1) [OF assms] by fastforce

lemma frame_at_keep:
  assumes "frame_at m a ws" "changes A m m'" "A \<inter> heap_bytes = {}" "HEAP_LO \<le> unat a" "unat a + 8 * length ws \<le> HEAP_HI"
  shows "frame_at m' a ws"
  unfolding frame_at_def
proof (intro allI impI)
  fix i
  assume i: "i < length ws"
  have "rd_bytes m' (a + of_nat (8 * i)) 8 = rd_bytes m (a + of_nat (8 * i)) 8"
  proof (rule rd_bytes_cong_mem)
    fix j :: nat
    assume j: "j < 8"
    have e: "a + of_nat (8 * i) + of_nat j = a + of_nat (8 * i + j)" by simp
    have "unat (a + of_nat (8 * i + j)) = unat a + (8 * i + j)"
      by (rule unat_add_of_nat) (use i j assms(5) heap_region(1) in simp)
    then have "unat (a + of_nat (8 * i + j)) \<in> heap_bytes" using i j assms(4,5) by (simp add: heap_bytes_def)
    then show "m' (a + of_nat (8 * i) + of_nat j) = m (a + of_nat (8 * i) + of_nat j)"
      unfolding e using assms(2,3) by (auto simp: changes_def)
  qed
  then show "rd64 m' (a + of_nat (8 * i)) = Inr (ws ! i)" using assms(1) i by (simp add: frame_at_def rd64_def)
qed

text \<open>Scheduler, vector unit and background task.\<close>

lemma tasks_boot:
  fixes s :: "'a kernel_scheme"
  assumes "devices_up d B [initial_block] c s" "3 < n" "uart_answers dev SERIAL_COM1"
  shows "\<exists>t u v as b r r0. scheduler_init n s = Inr t \<and> avx_init dev n t = Inr u \<and>
    task_create n x e (vga_puts c1 (vga_puts c2 u)) = Inr (worker_task, v) \<and> settled d B c v \<and> control v = control s \<and>
    tasking v as b r [main_task, worker_task] \<and>
    queue v [main_task, worker_task] = [(main_task, Inr r0), (worker_task, Inr worker_frame)] \<and>
    frame_at (vmem v) worker_frame (start_frame e x)"
proof -
  have n: "1 < n" "0 < n" using assms(2) by simp_all
  obtain t r0 where t: "scheduler_init n s = Inr t" "settled d B c t" "control t = control s"
    "tasking t [HB HEAP_VIRT_START 32 False] (HEAP_VIRT_START + 64) (0xFFFE0 - 64) [main_task]"
    "current_task t = main_task" "task_list t = main_task" "queue t [main_task] = [(main_task, Inr r0)]"
    using scheduler_init_boot [OF assms(1) n(1)] by blast
  obtain u where u: "avx_init dev n t = Inr u" "essence u = essence t" using avx_init_boot [OF assms(3) n(2)] by blast
  let ?u = "vga_puts c1 (vga_puts c2 u)"
  have e: "essence ?u = essence t" using u(2) by simp
  note q = essence_eq [OF e]
  have h: "heap_ok t ([HB HEAP_VIRT_START 32 False] @ [HB (HEAP_VIRT_START + 64) (0xFFFE0 - 64) True])" using t(4) by (simp add: tasking_def)
  have st: "settled d B c ?u" by (rule settled_essence [OF t(2) h e])
  have tk: "tasking ?u [HB HEAP_VIRT_START 32 False] (HEAP_VIRT_START + 64) (0xFFFE0 - 64) [main_task]" "queue ?u [main_task] = [(main_task, Inr r0)]"
    using spares_tasking [OF t(4) spares_essence [OF e, of "{}"]] t(7) by simp_all
  obtain v as b r where "task_create n x e ?u = Inr (worker_task, v)" "settled d B c v" "control v = control ?u"
    "tasking v as b r [main_task, worker_task]"
    "queue v [main_task, worker_task] = [(main_task, Inr r0), (worker_task, Inr worker_frame)]"
    "frame_at (vmem v) worker_frame (start_frame e x)"
    using worker_boot [OF st tk(1) _ _ tk(2) assms(2)] q(7,8) t(5,6) by metis
  then show ?thesis using t(1,3) u(1) q(14) by (metis (no_types))
qed

text \<open>The state at the first prompt.\<close>

definition at_prompt :: "boot \<Rightarrow> drive \<Rightarrow> (u32 \<Rightarrow> u8 list) \<Rightarrow> 'a kernel_scheme \<Rightarrow> bool" where
  "at_prompt B d D s \<longleftrightarrow> paging_ok s \<and> (\<exists>p. dict_backed p s) \<and>
     (\<exists>as b r r0. tasking s as b r [main_task, worker_task] \<and>
       queue s [main_task, worker_task] = [(main_task, Inr r0), (worker_task, Inr worker_frame)]) \<and>
     frame_at (vmem s) worker_frame (start_frame (worker_addr B) (exit_routine (platform_of B))) \<and>
     serves d D s \<and> (\<exists>es. dict_ok s es \<and> list_all2 (entry_for (platform_of B) s) es (rev primitives)) \<and>
     dsp s = 0 \<and> rsp_idx s = 0 \<and> interrupts_enabled s"

lemma kernel_main_runs:
  fixes s :: "'a kernel_scheme"
  assumes "loaded m s" "memory_map_ok (take (unat (ucast mem_count :: u32)) mem_map)"
    and dev: "uart_answers (devices (platform_of B)) SERIAL_COM1" "keyboard_drains (devices (platform_of B)) (loop_bound (platform_of B))"
      "drive_answers (devices (platform_of B)) (loop_bound (platform_of B)) d" "drive_idle d s"
    and n: "3 < loop_bound (platform_of B)"
    and mmu: "card_mmu B = reload dram PML4_ADDR" "dict_mmu B = reload dram' PML4_ADDR"
  shows "\<exists>t. kernel_main B mem_count mem_map s = Inr (repl_start t) \<and>
    at_prompt B d (let D = disk_block (sector_on d s) in if ucast (word_of_bytes (take 4 (D 1))) = FS_MAGIC then D else formatted D) t"
proof -
  let ?P = "platform_of B"
  let ?dev = "devices ?P" and ?n = "loop_bound ?P"
  let ?D = "let D = disk_block (sector_on d s) in if ucast (word_of_bytes (take 4 (D 1))) = FS_MAGIC then D else formatted D"
  have n0: "0 < ?n" using n by simp
  obtain s1 where s1: "boot_memory B mem_count mem_map s = Inr s1" "heap_ok s1 [initial_block]" "pages_ready 224 s1" "{768..<1024} \<subseteq> used s1"
    "{1024..<1280} \<inter> used s1 = {}" "small_pages s1 E1000_VIRT_BASE" "small_pages s1 DICT_VIRT_BASE"
    "changes (bitmap_bytes \<union> heap_bytes) (vmem s) (vmem s1)" "buffers s1 = buffers s" "\<forall>d. drive_after (ports s1) d = drive_after (ports s) d"
    using boot_memory_ok [OF assms(1,2) dev(1) n0] by blast
  have i1: "image_cache s1" using assms(1) s1(9) by (simp add: loaded_def image_cache_def)
  have m1: "mapped (vmem s1) (buffers s1) 8320"
    using mapped_changes [OF loaded_regions(2) [OF assms(1)] s1(8)] s1(9) by simp
  have d1: "drive_idle d s1" "sector_on d s1 = sector_on d s" using dev(4) s1(10) by (simp_all add: drive_idle_def sector_on_def)
  obtain s2 where s2: "boot_devices B s1 = Inr s2" "devices_up d ?D [initial_block] 221 s2"
    using boot_devices_ok [OF s1(3,4,5,2) i1 m1 s1(6,7) dev(1-3) d1(1) mmu(1)] unfolding d1(2) by blast
  let ?a = "vga_puts (str ''[*] Enabling interrupts...\<newline>'') s2"
  let ?s3 = "vga_puts (str ''[*] Starting Multitasking Scheduler...\<newline>'') (vga_puts (str ''[+] Interrupts enabled\<newline>'') (sti ?a))"
  have ua: "devices_up d ?D [initial_block] 221 ?a" by (rule devices_up_essence [OF s2(2)]) simp
  have sp: "spares {} ?a (sti ?a)" "same_pages ?a (sti ?a)" by (simp_all add: spares_def changes_def sti_def same_pages_def)
  have "devices_up d ?D [initial_block] 221 (sti ?a)"
    using settled_same [OF _ sp] spares_heap [OF _ sp(1)] ua by (simp add: devices_up_settled)
  then have u3: "devices_up d ?D [initial_block] 221 ?s3" by (rule devices_up_essence) simp
  have i3: "interrupts_enabled ?s3"
    using essence_eq(14) [of ?s3 "sti ?a"] by (simp add: control_def sti_def)
  let ?c1 = "str ''Phase 6 Complete - AVX-512 Activated\<newline>''" and ?c2 = "str ''\<newline>========================================\<newline>''"
  obtain s4 s5 s6 as b r r0 where s6: "scheduler_init ?n ?s3 = Inr s4" "avx_init ?dev ?n s4 = Inr s5"
    "task_create ?n (exit_routine ?P) (worker_addr B) (vga_puts ?c1 (vga_puts ?c2 s5)) = Inr (worker_task, s6)"
    "settled d ?D 221 s6" "control s6 = control ?s3" "tasking s6 as b r [main_task, worker_task]"
    "queue s6 [main_task, worker_task] = [(main_task, Inr r0), (worker_task, Inr worker_frame)]"
    "frame_at (vmem s6) worker_frame (start_frame (worker_addr B) (exit_routine ?P))"
    using tasks_boot [OF u3 n dev(1)] by blast
  let ?s7 = "vga_puts (str ''========================================\<newline>'') (vga_puts (str ''Entering Phase 2: Forth VM\<newline>'')
    (vga_puts (str ''Phase 3 Complete - Multitasking OS\<newline>'') (vga_puts (str ''\<newline>========================================\<newline>'')
    (vga_puts (str ''[+] Background thread spawned\<newline>'') s6))))"
  obtain s8 where s8: "serial_puts ?dev ?n SERIAL_COM1 (str ''Starting Forth VM...\<newline>'') ?s7 = Inr s8" "essence s8 = essence s6"
    using essence_serial(1) [OF dev(1) n0, of _ ?s7] by auto
  have h6: "heap_ok s6 (as @ [HB b r True])" using s6(6) by (simp add: tasking_def)
  have st8: "settled d ?D 221 s8" by (rule settled_essence [OF s6(4) h6 s8(2)])
  have h8: "heap_ok s8 (as @ [HB b r True])" using heap_essence [OF s8(2)] h6 by blast
  obtain p t es where t: "forth_init ?P (reload dram' PML4_ADDR) s8 = Inr t" "pages_ready (221 - 3) t" "dict_backed p t"
    "spares (elsewhere s8) s8 t" "control t = (0, 0, interrupts_enabled s8)" "dict_ok t es" "list_all2 (entry_for ?P t) es (rev primitives)"
    using forth_init_boot [OF st8 _ h8 dev(1) n0, of dram'] by auto
  note q8 = essence_eq [OF s8(2)]
  have sp6: "spares (elsewhere s8) s6 t" by (rule spares_trans [OF spares_essence [OF s8(2)] t(4)])
  have tk: "tasking t as b r [main_task, worker_task]" "queue t [main_task, worker_task] = [(main_task, Inr r0), (worker_task, Inr worker_frame)]"
    using spares_tasking [OF s6(6) sp6 elsewhere_apart(1)] s6(7) by simp_all
  have sv: "serves d ?D t" using spares_serves [OF _ t(4) elsewhere_apart(2)] st8 by (simp add: settled_def)
  have fr: "frame_at (vmem t) worker_frame (start_frame (worker_addr B) (exit_routine ?P))"
  proof (rule frame_at_keep [OF s6(8) _ elsewhere_apart(1)])
    show "changes (elsewhere s8) (vmem s6) (vmem t)" using sp6 by (simp add: spares_def)
    have "unat worker_frame = HEAP_LO + 8280" using heap_start(1) by (simp add: unat_plus_if' HEAP_LO_def)
    then show "HEAP_LO \<le> unat worker_frame"
      "unat worker_frame + 8 * length (start_frame (worker_addr B) (exit_routine ?P)) \<le> HEAP_HI"
      by (simp_all add: HEAP_LO_def HEAP_HI_def)
  qed
  have ctl: "dsp t = 0" "rsp_idx t = 0" "interrupts_enabled t"
    using t(5) q8(14) s6(5) i3 by (simp_all add: control_def)
  have "at_prompt B d ?D t"
    unfolding at_prompt_def using t(2,3,6,7) tk sv fr ctl by (auto simp: pages_ready_def)
  moreover have "kernel_main B mem_count mem_map s = Inr (repl_start t)"
    unfolding kernel_main_def Let_def using s1(1) s2(1) s6(1-3) s8(1) t(1) mmu(2) by simp
  ultimately show ?thesis by blast
qed


text \<open>The screen and the line buffer do not matter to it.\<close>

lemma at_prompt_essence:
  fixes s t :: "'a kernel_scheme"
  assumes "at_prompt B d D s" "essence t = essence s"
  shows "at_prompt B d D t"
proof -
  note q = essence_eq [OF assms(2)] and sp = spares_essence [OF assms(2), of "{}"]
  have pok: "paging_ok s" using assms(1) by (simp add: at_prompt_def)
  have pt: "pmm_ok t" "used t = used s" using pmm_keep [of s t] pok q by (simp_all add: paging_ok_def)
  have k: "paging_ok t" "translation t v = translation s v" for v
    by (rule paging_keep [OF pok pt(1)]; use pt(2) q in simp)+
  obtain p as b r r0 es where s: "dict_backed p s" "tasking s as b r [main_task, worker_task]"
    "queue s [main_task, worker_task] = [(main_task, Inr r0), (worker_task, Inr worker_frame)]"
    "frame_at (vmem s) worker_frame (start_frame (worker_addr B) (exit_routine (platform_of B)))" "serves d D s"
    "dict_ok s es" "list_all2 (entry_for (platform_of B) s) es (rev primitives)" "control s = (0, 0, True)"
    using assms(1) by (auto simp: at_prompt_def control_def)
  have "dict_backed p t" using s(1) k(2) by (simp add: dict_backed_def)
  moreover have "tasking t as b r [main_task, worker_task]"
    "queue t [main_task, worker_task] = [(main_task, Inr r0), (worker_task, Inr worker_frame)]"
    using spares_tasking [OF s(2) sp] s(3) by simp_all
  moreover have "serves d D t" using spares_serves [OF s(5) sp] by simp
  moreover have "frame_at (vmem t) worker_frame (start_frame (worker_addr B) (exit_routine (platform_of B)))" using s(4) q(1) by simp
  moreover have "dict_ok t es" "list_all2 (entry_for (platform_of B) t) es (rev primitives)"
    using s(6,7) vocabulary_same [OF q(1,11,12)] by simp_all
  moreover have "dsp t = 0" "rsp_idx t = 0" "interrupts_enabled t" using s(8) q(14) by (simp_all add: control_def)
  ultimately show ?thesis using k(1) unfolding at_prompt_def by blast
qed

lemma repl_start_boot:
  fixes s :: "'a kernel_scheme"
  shows "essence (repl_start s) = essence s" "input_pos (repl_start s) = 0"
proof -
  show "essence (repl_start s) = essence s" by (simp add: repl_start_def prompt_def)
  have "vga_only (s\<lparr>input_pos := 0\<rparr>) (repl_start s)"
    by (auto simp: repl_start_def prompt_def vga_set_color_def Let_def)
  from vga_only_input(2) [OF this] show "input_pos (repl_start s) = 0" by simp
qed

lemma kernel_main_prompt:
  fixes s :: "'a kernel_scheme"
  assumes "loaded m s" "memory_map_ok (take (unat (ucast mem_count :: u32)) mem_map)"
    and dev: "uart_answers (devices (platform_of B)) SERIAL_COM1" "keyboard_drains (devices (platform_of B)) (loop_bound (platform_of B))"
      "drive_answers (devices (platform_of B)) (loop_bound (platform_of B)) d" "drive_idle d s"
    and n: "3 < loop_bound (platform_of B)"
    and mmu: "card_mmu B = reload dram PML4_ADDR" "dict_mmu B = reload dram' PML4_ADDR"
  shows "\<exists>s'. kernel_main B mem_count mem_map s = Inr s' \<and> input_pos s' = 0 \<and>
    at_prompt B d (let D = disk_block (sector_on d s) in if ucast (word_of_bytes (take 4 (D 1))) = FS_MAGIC then D else formatted D) s'"
  using kernel_main_runs [OF assms] at_prompt_essence repl_start_boot by blast

text \<open>A machine for the example: 64 MB of memory, a blank disk, the kernel's variables zero.\<close>

definition demo_map :: "e820_entry list" where
  "demo_map = [\<lparr>e_base = 0, e_length = 0x9FC00, e_type = 1\<rparr>, \<lparr>e_base = 0x100000, e_length = 0x3F00000, e_type = 1\<rparr>]"

definition demo_boot :: boot where
  "demo_boot = \<lparr>platform_of = demo_platform\<lparr>devices := drive_device blank_drive\<rparr>, isr_stub = (\<lambda>i. 0), irq_stub = (\<lambda>i. 0), idt_addr = 0,
     main_addr = KERNEL_VIRT_BASE + 0x100000, worker_addr = KERNEL_VIRT_BASE + 0x104000,
     card_mmu = reload (\<lambda>a. 0) PML4_ADDR, dict_mmu = reload (\<lambda>a. 0) PML4_ADDR\<rparr>"

definition demo_start :: "memory \<Rightarrow> kernel" where
  "demo_start m = interrupts.extend (forth.extend (forth_idle ((dict_empty m)\<lparr>cr3 := PML4_ADDR\<rparr>))
       \<lparr>idt = [], idtr_limit = 0, idtr_base = 0, idt_register = None\<rparr>)
     \<lparr>e1000_bar0 = 0xFEB80000, e1000_irq = 11, mmio_base = 0, mac_address = replicate 6 0, cr0 = 0, cr4 = 0, interrupts_enabled = False\<rparr>"

lemma demo_map_ok: "memory_map_ok demo_map"
proof -
  have "\<exists>e \<in> set demo_map. in_entry e p" if "256 \<le> p" "p < 1280" for p
    using that by (intro bexI [of _ "\<lparr>e_base = 0x100000, e_length = 0x3F00000, e_type = 1\<rparr>"])
      (simp_all add: demo_map_def in_entry_def E820_USABLE_def)
  moreover have "\<forall>e \<in> set demo_map. entry_fits e" by (simp add: demo_map_def entry_fits_def)
  ultimately show ?thesis by (simp add: memory_map_ok_def)
qed

lemma demo_loaded:
  "\<exists>m. loaded m (demo_start (address_space m PML4_ADDR))"
proof -
  obtain m where m: "setup_paging (\<lambda>_. Some 0) = Inr (m, PML4_ADDR)" using setup_paging_ok [OF blank_tables, of 0] by blast
  have "\<exists>m0. mapped m0 0 0x500000 \<and> setup_paging m0 = Inr (m, PML4_ADDR)" using m blank_tables by blast
  moreover have "image_cache (demo_start (address_space m PML4_ADDR))"
    by (simp add: image_cache_def demo_start_def interrupts.defs forth.defs forth_idle_def dict.defs dict_empty_def stacks.defs stacks_boot_def kbd.defs
        KERNEL_VIRT_BASE_def)
  moreover have "vmem (demo_start (address_space m PML4_ADDR)) = address_space m PML4_ADDR" "cr3 (demo_start (address_space m PML4_ADDR)) = PML4_ADDR"
    by (simp_all add: demo_start_def interrupts.defs forth.defs forth_idle_def dict.defs dict_empty_def stacks.defs stacks_boot_def kbd.defs)
  ultimately show ?thesis by (auto simp: loaded_def)
qed


section \<open>Properties\<close>

text \<open>C37. The kernel boots to its prompt.  From the loader's page tables, with a memory map that has memory
  between 1 MB and 5 MB and with devices that answer, \<open>kernel_main\<close> neither panics nor faults and
  ends in the first prompt: the page tables are a tree of pages in use; the dictionary is a
  megabyte of frames in a row above the heap; there are two tasks, the main one running and the
  background one with a frame that starts it at its function and returns into \<open>task_exit\<close>; the block
  cache serves the disk, which is formatted when it was not; every primitive is found in the
  dictionary under its name; both stacks and the input line are empty, and interrupts are on.\<close>

theorem kernel_main_boots:
  fixes s :: "'a kernel_scheme"
  assumes "loaded m s" "memory_map_ok (take (unat (ucast mem_count :: u32)) mem_map)"
    and "uart_answers (devices (platform_of B)) SERIAL_COM1" "keyboard_drains (devices (platform_of B)) (loop_bound (platform_of B))"
    and "drive_answers (devices (platform_of B)) (loop_bound (platform_of B)) d" "drive_idle d s" "3 < loop_bound (platform_of B)"
    and "card_mmu B = reload dram PML4_ADDR" "dict_mmu B = reload dram' PML4_ADDR"
  shows "\<exists>s'. kernel_main B mem_count mem_map s = Inr s' \<and> paging_ok s' \<and>
    (\<exists>p. 1024 \<le> p \<and> p + 256 \<le> 2 ^ 20 \<and>
      (\<forall>x < 256 * 4096. vmm_get_phys (DICT_VIRT_BASE + of_nat x) s' = Inr (of_nat p * PAGE_SIZE + of_nat x))) \<and>
    (\<exists>as b r r0. tasking s' as b r [main_task, worker_task] \<and>
      queue s' [main_task, worker_task] = [(main_task, Inr r0), (worker_task, Inr worker_frame)]) \<and>
    frame_at (vmem s') worker_frame [0, 0, 0, 0, 0, 0, 0x202, worker_addr B, exit_routine (platform_of B)] \<and>
    serves d (let D = disk_block (sector_on d s) in if ucast (word_of_bytes (take 4 (D 1))) = FS_MAGIC then D else formatted D) s' \<and>
    (\<forall>(nm, f, fl) \<in> set primitives. \<exists>a. dict_find 102 nm s' = Inr a \<and> a \<noteq> 0 \<and> dict_get_flags a s' = Inr fl \<and>
      has_word (platform_of B) s' a f) \<and>
    dsp s' = 0 \<and> rsp_idx s' = 0 \<and> input_pos s' = 0 \<and> interrupts_enabled s'"
proof -
  obtain s' where s': "kernel_main B mem_count mem_map s = Inr s'" "input_pos s' = 0"
    "at_prompt B d (let D = disk_block (sector_on d s) in if ucast (word_of_bytes (take 4 (D 1))) = FS_MAGIC then D else formatted D) s'"
    using kernel_main_prompt [OF assms] by blast
  obtain p es where p: "paging_ok s'" "dict_backed p s'" "dict_ok s' es" "list_all2 (entry_for (platform_of B) s') es (rev primitives)"
    using s'(3) by (auto simp: at_prompt_def)
  have "\<exists>a. dict_find 102 nm s' = Inr a \<and> a \<noteq> 0 \<and> dict_get_flags a s' = Inr fl \<and> has_word (platform_of B) s' a f"
    if "(nm, f, fl) \<in> set primitives" for nm f fl
    by (rule table_found(1) [OF p(3,4) _ that]) simp_all
  moreover have "\<forall>x < 256 * 4096. vmm_get_phys (DICT_VIRT_BASE + of_nat x) s' = Inr (of_nat p * PAGE_SIZE + of_nat x)"
    using p(2) get_phys_translation [OF p(1)] by (simp add: dict_backed_def)
  ultimately show ?thesis
    using s' p(1,2) unfolding at_prompt_def start_frame_def dict_backed_def by (intro exI [of _ s'] conjI) blast+
qed

theorem kernel_main_boots_witness:
  "\<exists>m s'. loaded m (demo_start (address_space m PML4_ADDR)) \<and>
     kernel_main demo_boot 2 demo_map (demo_start (address_space m PML4_ADDR)) = Inr s' \<and>
     interrupts_enabled s' \<and> serves blank_drive (formatted (\<lambda>n. replicate 1024 0)) s' \<and>
     (\<exists>a. dict_find 102 (str ''DUP'') s' = Inr a \<and> has_word (demo_platform\<lparr>devices := drive_device blank_drive\<rparr>) s' a (F_stack W_dup))"
proof -
  obtain m where m: "loaded m (demo_start (address_space m PML4_ADDR))" using demo_loaded by blast
  let ?s = "demo_start (address_space m PML4_ADDR)"
  have mm: "memory_map_ok (take (unat (ucast (2 :: u64) :: u32)) demo_map)" using demo_map_ok by (simp add: demo_map_def)
  have P: "platform_of demo_boot = demo_platform\<lparr>devices := drive_device blank_drive\<rparr>" "loop_bound (platform_of demo_boot) = 1000"
    "devices (platform_of demo_boot) = drive_device blank_drive"
    by (simp_all add: demo_boot_def demo_platform_def)
  have kb: "keyboard_drains (drive_device blank_drive) 1000"
    unfolding keyboard_drains_def by (intro allI exI [of _ 0]) (simp add: drive_device_def ata_ports)
  have ports: "ports ?s = []"
    by (simp add: demo_start_def interrupts.defs forth.defs forth_idle_def dict.defs dict_empty_def stacks.defs stacks_boot_def kbd.defs kbd_boot_def
        timer_boot_def timer.defs vga_boot_def vga.defs machine.defs)
  have di: "drive_idle blank_drive ?s" "sector_on blank_drive ?s = (\<lambda>l. replicate 512 0)"
    by (simp_all add: drive_idle_def sector_on_def drive_after_def ports blank_drive_def)
  have db: "disk_block (\<lambda>l. replicate 512 0) = (\<lambda>m. replicate 1024 0)"
    by (rule ext) (simp add: disk_block_def flip: replicate_add)
  have dup: "(str ''DUP'', F_stack W_dup, 0) \<in> set primitives" by code_simp
  have mmu: "card_mmu demo_boot = reload (\<lambda>a. 0) PML4_ADDR" "dict_mmu demo_boot = reload (\<lambda>a. 0) PML4_ADDR" by (simp_all add: demo_boot_def)
  let ?B = "demo_boot"
  let ?D = "let D = disk_block (sector_on blank_drive ?s) in if ucast (word_of_bytes (take 4 (D 1))) = FS_MAGIC then D else formatted D"
  have D: "?D = formatted (\<lambda>n. replicate 1024 0)"
    unfolding di(2) db Let_def by (rule if_not_P [OF blank_magic])
  have dev: "uart_answers (devices (platform_of ?B)) SERIAL_COM1" "keyboard_drains (devices (platform_of ?B)) (loop_bound (platform_of ?B))"
    "drive_answers (devices (platform_of ?B)) (loop_bound (platform_of ?B)) blank_drive" "3 < loop_bound (platform_of ?B)"
    unfolding P(2,3) using kb by simp_all
  from kernel_main_boots [OF m mm dev(1-3) di(1) dev(4) mmu] obtain s' where s': "kernel_main ?B 2 demo_map ?s = Inr s'"
    "serves blank_drive ?D s'" "interrupts_enabled s'"
    "\<forall>(nm, f, fl) \<in> set primitives. \<exists>a. dict_find 102 nm s' = Inr a \<and> a \<noteq> 0 \<and> dict_get_flags a s' = Inr fl \<and>
      has_word (platform_of ?B) s' a f"
    by (elim exE conjE) (rule that)
  have "\<exists>a. dict_find 102 (str ''DUP'') s' = Inr a \<and> has_word (platform_of ?B) s' a (F_stack W_dup)"
    using bspec [OF s'(4) dup] by auto
  then show ?thesis using m s'(1-3) unfolding D P(1) by (intro exI [of _ m] exI [of _ s'] conjI)
qed

end
