(* ===== verification/Spec2Isabelle.thy ===== *)
theory Spec2Isabelle
  imports Prelude Machine Stdlib Strings Cstrings Serial Vga Timer Keyboard Pmm Heap Vmm Paging Ranges Loader Task Scheduler Spawn
    Ata Drive Block Crc Cache Filesystem Blocks Volume Stack Words Dictionary Parser Primitives Forth Threaded Registry Compile Language
    Typing Repl Interrupts Gates Kernel Startup Boot
begin

text \<open>
  Verification of the Vector Forth kernel, an x86-64 kernel in C whose user interface is a Forth
  system.

  \<^bold>\<open>The program and its state.\<close>  After the boot code has built the page tables
  (\<open>setup_paging\<close> in \<open>src/boot/paging.asm\<close>) and entered long mode,
  \<open>kernel_main\<close> (\<open>src/kernel/core/kernel.c\<close>) initialises screen and serial port,
  interrupts, the page allocator, the page tables, the heap, timer and keyboard, the block cache
  and filesystem, the PCI bus and the network card, the scheduler, and then runs the Forth
  read-eval-print loop for ever.  All components share one address space and keep their state in
  static variables.  The model threads one state record through every operation.  Each component
  extends the record of the one it builds on by its own static variables, in the order
  \<open>machine\<close>, \<open>vga\<close>, \<open>timer\<close>, \<open>kbd\<close>, \<open>pmm\<close>, \<open>heap\<close>, \<open>vmm\<close>, \<open>task\<close>, \<open>block_cache\<close>,
  \<open>stacks\<close>, \<open>dict\<close>, \<open>forth\<close>, \<open>interrupts\<close>, \<open>kernel\<close>; an operation is polymorphic in
  what follows, so every component calls the ones below it as the code does.

  \<^item> Memory is a partial function from 64-bit addresses to bytes (\<open>Prelude\<close>); structs in memory
    are read and written at their byte offsets, and an access outside it is the value
    \<open>Inl (PageFault a)\<close>.
  \<^item> Every way in which the code does not return normally is a value of \<open>'a res\<close>, a sum: a
    panic with its message, a halt, a page fault, a call of an address that is no function, fuel
    that is used up, and behaviour C leaves undefined (\<open>Unmodelled\<close>).
  \<^item> Port accesses are a trace in the state; what a port read answers is a function of the trace,
    an argument of the model (\<open>device\<close>).
  \<^item> Integers are words of the width they have in C.

  \<^bold>\<open>Theories.\<close>
  \<^item> \<open>Prelude\<close> and \<open>Machine\<close>: words, memory, C strings, results; port accesses, loads and stores
    (\<open>kernel/core/kernel.h\<close>).
  \<^item> \<open>Stdlib\<close>, \<open>Strings\<close>, \<open>Cstrings\<close>: \<open>kernel/utils/stdlib.c\<close> and \<open>string.c\<close>.
  \<^item> \<open>Serial\<close>, \<open>Vga\<close>, \<open>Timer\<close>, \<open>Keyboard\<close>, \<open>Ata\<close>: the drivers of \<open>kernel/drivers\<close>.
  \<^item> \<open>Pmm\<close>, \<open>Heap\<close>, \<open>Vmm\<close>: \<open>kernel/memory\<close>.  \<open>Paging\<close> shows that the page tables are a map
    from pages to frames, \<open>Ranges\<close> maps ranges of pages, and \<open>Loader\<close> is the routine of the boot
    loader (\<open>boot/paging.asm\<close>) that builds the tables the kernel starts with.
  \<^item> \<open>Task\<close>: \<open>kernel/scheduler/task.c\<close>; \<open>Scheduler\<close> shows that its ring is a rotating queue, and
    \<open>Spawn\<close>, where the tasks are blocks of the heap, how tasks are created and start.
  \<^item> \<open>Block\<close>, \<open>Filesystem\<close>: \<open>fs/\<close>; \<open>Crc\<close> shows what the checksum of a block detects.  \<open>Drive\<close> is
    the contract of an ATA drive and the sector transfers on it; on top of it \<open>Cache\<close> and \<open>Blocks\<close> show
    that the block cache behaves as a plain array of blocks, and \<open>Volume\<close> what mounting and
    allocation do to that array.
  \<^item> \<open>Stack\<close>, \<open>Dictionary\<close>: \<open>vm/stack/stack.c\<close> and \<open>vm/dictionary/dictionary.c\<close>.
  \<^item> \<open>Words\<close>, \<open>Parser\<close>, \<open>Primitives\<close>, \<open>Forth\<close>: \<open>vm/core/forth.c\<close>, in this order the words that
    need the stacks only, the parser and the number syntax, the other primitives and the block
    editor, and the interpreters with start-up and the read-eval-print loop.
  \<^item> \<open>Threaded\<close>, \<open>Registry\<close>, \<open>Compile\<close>, \<open>Language\<close>, \<open>Repl\<close>: the Forth system as a language.  What
    threaded code means, what is in the dictionary after start-up, what compiling a definition
    puts into memory, that compiled and interpreted words agree, and the line editor.  \<open>Typing\<close> is a type system
    of stack effects whose well typed words are safe.
  \<^item> \<open>Interrupts\<close>: \<open>kernel/interrupts\<close>; \<open>Gates\<close> runs it on two 8259 controllers.  \<open>Kernel\<close>: \<open>kernel/core/kernel.c\<close>, \<open>avx.c\<close>, PCI and
    network card, and the order of the boot steps.
  \<^item> \<open>Startup\<close> and \<open>Boot\<close> compose the components: \<open>Startup\<close> has the regions of memory, what each
    invariant depends on and the state the loader hands over; \<open>Boot\<close> takes \<open>kernel_main\<close> step by
    step from there to the first prompt, and carries the invariants of pages, tables, heap,
    tasks, block cache and dictionary along.

  \<^bold>\<open>Abstractions and invariants.\<close>  The bounded stacks are lists (\<open>dstack\<close>, \<open>rstack\<close>, locale
  \<open>bounded_stack\<close>), the keyboard buffer is a queue (\<open>kbd_queue\<close>, locale \<open>bounded_queue\<close>), the
  bitmap of the page allocator is a set (\<open>used\<close>, locale \<open>page_allocator\<close>), the heap is a list of
  blocks that tile its region (\<open>heap_ok\<close>), the page tables are a tree (\<open>paging_ok\<close>) with a
  translation, the block cache over a disk is an array of blocks (\<open>serves\<close>),
  the ring of tasks is a queue (\<open>queue\<close>), the dictionary in memory is a list of
  entries (\<open>dict_ok\<close>) searched by \<open>lookup\<close>, and the cells of a colon word have an effect on the
  stack as a list (\<open>means\<close>).  The lemmas of a component show that every operation keeps its
  invariant and what it does to the abstraction; the properties follow from them.

  \<^bold>\<open>Hardware.\<close>  A device is an argument, and a theorem that needs it to behave says how: a serial
  port whose transmitter becomes empty (\<open>uart_answers\<close>), a drive that goes through the phases of
  the ATA protocol and keeps its sectors (\<open>drive_answers\<close> over \<open>drive_after\<close>), interrupt
  controllers whose registers follow the words written to them (\<open>pics_answer\<close> over
  \<open>pics_after\<close>).  Each contract is a function of the history of port accesses, and the witnesses
  instantiate it with a device that computes its answers from that function.

  \<^bold>\<open>Bounds and fuel.\<close>  A loop over a list known in advance is a recursion over the list of its
  indices.  A loop over a linked list, a polling loop and the interpreters take fuel.  The
  theorems state how much is enough: one unit for each block of the heap, each task of the ring,
  each entry of the dictionary; for the interpreters that some amount is, and that more gives the
  same result.

  \<^bold>\<open>Not modelled.\<close>  Of the boot loader only the page tables are modelled; the rest of it, the
  entry stubs of interrupts and \<open>switch_context\<close> are assembly that the C code does not see: the addresses of functions are arguments (\<open>platform\<close>, \<open>boot\<close>), and a context switch
  is the result of \<open>yield\<close>.  Interrupts do not come between two steps of another function:
  \<open>irq_handler_c\<close> and the timer and keyboard handlers are modelled as functions of their own.
  The memory of the model is the kernel's view: where the kernel uses a new
  mapping for the first time, what memory looks like then is an argument (\<open>card_mmu\<close>,
  \<open>dict_mmu\<close>), which \<open>Boot\<close> instantiates with the translation of the page tables (\<open>reload\<close>), and the same physical page under two addresses is two pages of the model.
  Local buffers are lists, so an overflow of one is not seen by other code; the findings name the
  buffers that are too small.  The files under \<open>network\<close> and \<open>research\<close> and
  \<open>kernel/scheduler/scheduler.c\<close> are empty.
\<close>

end
